(* ===== verification/Prelude.thy ===== *)
theory Prelude
  imports Main "HOL-Library.Monad_Syntax"
begin

text \<open>
  Shared vocabulary of the development: the identifier types, the conventions for
  panics and results, Rust's slice and \<open>Vec\<close> primitives, and the collections of
  simplification rules the component theories extend.

  Conventions.
  \<^item> An identifier (\<open>VariableId\<close>, \<open>ClauseId\<close>, \<open>SolvableId\<close>, \<dots>) is represented by its
    zero-based index, a \<open>nat\<close>. Theory \<open>Ids\<close> models the machine representation
    (32-bit non-zero words) and shows that the index determines the identifier.
  \<^item> A function that can panic (\<open>unwrap\<close>, \<open>expect\<close>, \<open>unreachable!\<close>, indexing out of
    bounds) or loop has an \<open>option\<close> type: \<open>None\<close> is "does not return normally".
  \<^item> A Rust \<open>Result<T, E>\<close> is the sum \<open>E + T\<close>: \<open>Inl\<close> is \<open>Err\<close>, \<open>Inr\<close> is \<open>Ok\<close>.
\<close>

type_synonym variable_id = nat
type_synonym clause_id = nat
type_synonym learnt_clause_id = nat
type_synonym disjunction_id = nat
type_synonym solvable_id = nat
type_synonym name_id = nat
type_synonym version_set_id = nat
type_synonym version_set_union_id = nat
type_synonym condition_id = nat
type_synonym string_id = nat
type_synonym level = nat

named_theorems inv_intros \<open>introduction rules for the invariants of the components\<close>
named_theorems inv_dests \<open>what the invariants of the components give\<close>
named_theorems frame_simps \<open>what an operation leaves unchanged\<close>

section \<open>Vectors and slices\<close>

text \<open>\<open>slice.get(i)\<close>, and indexing, which panics where \<open>get\<close> returns \<open>None\<close>.\<close>

definition slice_get :: "'a list \<Rightarrow> nat \<Rightarrow> 'a option" where
  "slice_get xs i = (if i < length xs then Some (xs ! i) else None)"

text \<open>\<open>Vec::resize\<close> and \<open>Vec::resize_with\<close>: truncate, or pad with the default.\<close>

definition vec_resize :: "nat \<Rightarrow> 'a \<Rightarrow> 'a list \<Rightarrow> 'a list" where
  "vec_resize n d xs = take n xs @ replicate (n - length xs) d"

lemma slice_get_Some_iff [simp]: "slice_get xs i = Some x \<longleftrightarrow> i < length xs \<and> xs ! i = x"
  by (simp add: slice_get_def)

lemma slice_get_None_iff [simp]: "slice_get xs i = None \<longleftrightarrow> length xs \<le> i"
  by (simp add: slice_get_def)

lemma slice_get_append:
  "slice_get (xs @ ys) i = (if i < length xs then slice_get xs i else slice_get ys (i - length xs))"
  by (auto simp: slice_get_def nth_append)

lemma slice_get_snoc:
  "slice_get (xs @ [x]) i = (if i = length xs then Some x else slice_get xs i)"
  by (auto simp: slice_get_def nth_append)

lemma slice_get_list_update:
  "slice_get (xs[i := x]) j = (if i = j \<and> i < length xs then Some x else slice_get xs j)"
  by (auto simp: slice_get_def)

lemma length_vec_resize [simp]: "length (vec_resize n d xs) = n"
  by (auto simp: vec_resize_def)

lemma vec_resize_grow:
  "length xs \<le> n \<Longrightarrow> vec_resize n d xs = xs @ replicate (n - length xs) d"
  by (simp add: vec_resize_def)

lemma nth_vec_resize:
  "i < n \<Longrightarrow> vec_resize n d xs ! i = (if i < length xs then xs ! i else d)"
  by (auto simp: vec_resize_def nth_append)

section \<open>Generic lemmas on lists and options\<close>

lemma takeWhile_eq_butlast_drop:
  "xs \<noteq> [] \<Longrightarrow> \<not> P (last xs) \<Longrightarrow> takeWhile P xs = takeWhile P (butlast xs)"
  by (metis append_butlast_last_id takeWhile_tail)

lemma sorted_map_snoc:
  "sorted (map f (xs @ [x])) \<longleftrightarrow> sorted (map f xs) \<and> (\<forall>y \<in> set xs. f y \<le> f x)"
  by (auto simp: sorted_append)

lemma takeWhile_eq_filter_sorted:
  "sorted (map f xs) \<Longrightarrow> takeWhile (\<lambda>x. f x \<le> (l :: nat)) xs = filter (\<lambda>x. f x \<le> l) xs"
proof (induction xs)
  case (Cons x xs)
  then show ?case by (cases "f x \<le> l") (auto simp: filter_empty_conv eq_commute [of "[]"] dest: le_trans)
qed simp

lemma distinct_map_nth_eq:
  "distinct (map f xs) \<Longrightarrow> i < length xs \<Longrightarrow> j < length xs \<Longrightarrow> f (xs ! i) = f (xs ! j) \<Longrightarrow> i = j"
  by (metis distinct_conv_nth length_map nth_map)

lemma not_in_image_iff: "x \<notin> f ` A \<longleftrightarrow> (\<forall>a \<in> A. f a \<noteq> x)"
  by blast

lemma distinct_map_snoc:
  "distinct (map f (xs @ [x])) \<longleftrightarrow> distinct (map f xs) \<and> (\<forall>y \<in> set xs. f y \<noteq> f x)"
  by (simp add: not_in_image_iff)

lemma in_set_butlast_last:
  "xs \<noteq> [] \<Longrightarrow> set xs = insert (last xs) (set (butlast xs))"
  by (metis append_butlast_last_id Un_commute insert_is_Un list.simps(15) set_append set_empty2)

section \<open>Running sequences of operations\<close>

text \<open>A sequence of operations, each with a result and a new state, collects the results.\<close>

fun run_ops :: "('o \<Rightarrow> 's \<Rightarrow> 'r \<times> 's) \<Rightarrow> 'o list \<Rightarrow> 's \<Rightarrow> 'r list \<times> 's" where
  "run_ops ex [] s = ([], s)"
| "run_ops ex (op # ops) s =
     (case ex op s of (r, s1) \<Rightarrow> case run_ops ex ops s1 of (rs, s2) \<Rightarrow> (r # rs, s2))"

text \<open>A data structure refines its specification when every single operation does.\<close>

lemma run_ops_refines:
  assumes step: "\<And>op s. ok s \<Longrightarrow>
      fst (ex op s) = fst (spec op (absf s)) \<and> absf (snd (ex op s)) = snd (spec op (absf s)) \<and> ok (snd (ex op s))"
    and "ok s"
  shows "fst (run_ops ex ops s) = fst (run_ops spec ops (absf s)) \<and>
    absf (snd (run_ops ex ops s)) = snd (run_ops spec ops (absf s)) \<and> ok (snd (run_ops ex ops s))"
  using assms(2)
proof (induction ops arbitrary: s)
  case (Cons op ops)
  from step [OF Cons.prems, of op] Cons.IH [of "snd (ex op s)"] show ?case
    by (auto simp: split_beta)
qed simp

end
