(* ===== verification/Ids.thy ===== *)
theory Ids
  imports Prelude "HOL-Library.Word"
begin

unbundle bit_operations_syntax

text \<open>
  The machine representation of identifiers: \<open>src/id.rs\<close>, \<open>src/internal/id.rs\<close>,
  \<open>DisjunctionId\<close> of \<open>src/solver/conditions.rs\<close> and the bit packing of \<open>Literal\<close> in
  \<open>src/solver/clause.rs\<close>. The trait \<open>DenseIndex\<close> is the locale \<open>dense_index\<close>; the two
  ways the code implements it (a checked \<open>try_into\<close> on a non-zero word, a truncating
  \<open>as u32\<close>) are its interpretations.
\<close>

section \<open>The trait DenseIndex\<close>

text \<open>
  \<open>from_index\<close> may panic (\<open>None\<close>). Below \<open>bound\<close> it succeeds and \<open>to_index\<close> inverts it.
\<close>

locale dense_index =
  fixes from_index :: "nat \<Rightarrow> 'i option"
    and to_index :: "'i \<Rightarrow> nat"
    and valid :: "'i \<Rightarrow> bool"
    and bound :: nat
  assumes from_index_Some: "n < bound \<Longrightarrow> \<exists>i. from_index n = Some i \<and> valid i \<and> to_index i = n"
    and from_to_index: "valid i \<Longrightarrow> from_index (to_index i) = Some i"
    and to_index_bound: "valid i \<Longrightarrow> to_index i < bound"
begin

lemma to_index_inj: "valid i \<Longrightarrow> valid j \<Longrightarrow> to_index i = to_index j \<longleftrightarrow> i = j"
  by (metis from_to_index option.inject)

lemma from_index_inj:
  "m < bound \<Longrightarrow> n < bound \<Longrightarrow> from_index m = from_index n \<longleftrightarrow> m = n"
  by (metis from_index_Some option.inject)

lemma to_index_surj: "n < bound \<Longrightarrow> \<exists>i. valid i \<and> to_index i = n"
  using from_index_Some by blast

end

text \<open>The checked variant panics on every index that does not fit.\<close>

locale checked_dense_index = dense_index +
  assumes from_index_None: "bound \<le> n \<Longrightarrow> from_index n = None"
begin

lemma from_index_Some_iff: "from_index n = Some i \<longleftrightarrow> valid i \<and> to_index i = n"
  by (metis from_index_None from_index_Some from_to_index linorder_not_less option.distinct(1)
      option.inject)

end

section \<open>Conversions of the standard library\<close>

text \<open>\<open>u32::try_from(x: usize)\<close> and the truncating cast \<open>x as u32\<close>.\<close>

definition u32_try_from :: "nat \<Rightarrow> 32 word option" where
  "u32_try_from x = (if x < 2 ^ 32 then Some (of_nat x) else None)"

definition as_u32 :: "nat \<Rightarrow> 32 word" where
  "as_u32 x = of_nat x"

lemma unat_as_u32: "unat (as_u32 x) = x mod 2 ^ 32"
  by (simp add: as_u32_def unat_of_nat)

lemma unat_of_nat_u32: "n < 2 ^ 32 \<Longrightarrow> unat (of_nat n :: 32 word) = n"
  and unat_of_nat_u64: "n < 2 ^ 64 \<Longrightarrow> unat (of_nat n :: 64 word) = n"
  by (simp_all add: unat_of_nat)

lemma even_word_unat: "even (w :: 32 word) \<longleftrightarrow> even (unat w)"
  by transfer (auto simp: even_nat_iff)

lemma unat_ucast_u64: "unat (ucast (w :: 32 word) :: 64 word) = unat w"
proof -
  have "unat w < 2 ^ 32" using unsigned_less [of w] by simp
  then show ?thesis by (simp add: unsigned_ucast_eq take_bit_nat_eq_self_iff)
qed

lemma u32_try_from_Some: "u32_try_from x = Some w \<longleftrightarrow> unat w = x"
proof -
  have "unat w < 2 ^ 32" using unsigned_less [of w] by simp
  then show ?thesis
    by (auto simp: u32_try_from_def unat_of_nat word_unat_eq_iff)
qed

section \<open>Identifiers stored as a non-zero word, one past the index\<close>

datatype VariableId = VariableId (VariableId_get: "32 word")

definition VariableId_from_index :: "nat \<Rightarrow> VariableId option" where
  "VariableId_from_index x = map_option VariableId (u32_try_from (x + 1))"

definition VariableId_to_index :: "VariableId \<Rightarrow> nat" where
  "VariableId_to_index i = unat (VariableId_get i - 1)"

definition VariableId_root :: VariableId where
  "VariableId_root = VariableId 1"

definition VariableId_is_root :: "VariableId \<Rightarrow> bool" where
  "VariableId_is_root i \<longleftrightarrow> VariableId_get i = 1"

datatype ClauseId = ClauseId (ClauseId_get: "32 word")

definition ClauseId_install_root :: ClauseId where
  "ClauseId_install_root = ClauseId 1"

definition ClauseId_from_index :: "nat \<Rightarrow> ClauseId option" where
  "ClauseId_from_index x = map_option ClauseId (u32_try_from (x + 1))"

definition ClauseId_to_index :: "ClauseId \<Rightarrow> nat" where
  "ClauseId_to_index i = unat (ClauseId_get i - 1)"

datatype ConditionId = ConditionId (ConditionId_get: "32 word")

definition ConditionId_from_index :: "nat \<Rightarrow> ConditionId option" where
  "ConditionId_from_index x = map_option ConditionId (u32_try_from (x + 1))"

definition ConditionId_to_index :: "ConditionId \<Rightarrow> nat" where
  "ConditionId_to_index i = unat (ConditionId_get i - 1)"

datatype DependenciesId = DependenciesId (DependenciesId_get: "32 word")

definition DependenciesId_from_index :: "nat \<Rightarrow> DependenciesId option" where
  "DependenciesId_from_index x = map_option DependenciesId (u32_try_from (x + 1))"

definition DependenciesId_to_index :: "DependenciesId \<Rightarrow> nat" where
  "DependenciesId_to_index i = unat (DependenciesId_get i - 1)"

lemma unat_pred_nonzero:
  fixes w :: "32 word"
  assumes "w \<noteq> 0"
  shows "unat w = Suc (unat (w - 1))"
  using assms by (simp add: unat_minus_one unat_gt_0)

lemma nonzero_index_bound:
  fixes w :: "32 word"
  assumes "w \<noteq> 0"
  shows "unat (w - 1) < 2 ^ 32 - 1"
proof -
  have "unat w < 2 ^ 32" using unsigned_less [of w] by simp
  with unat_pred_nonzero [OF assms] show ?thesis by simp
qed

lemma u32_try_from_Suc:
  assumes n: "n < 2 ^ 32 - 1"
  shows "\<exists>w. u32_try_from (n + 1) = Some w \<and> w \<noteq> 0 \<and> unat (w - 1) = n"
proof -
  from n obtain w where w: "u32_try_from (n + 1) = Some w"
    by (auto simp: u32_try_from_def)
  then have *: "unat w = n + 1" by (simp add: u32_try_from_Some)
  then have "w \<noteq> 0" by auto
  with * have "unat (w - 1) = n" using unat_pred_nonzero [of w] by simp
  with w \<open>w \<noteq> 0\<close> show ?thesis by blast
qed

text \<open>
  Every identifier of this form, whatever its constructor \<open>C\<close> and its field \<open>R\<close>, is a
  checked dense index under the \<open>NonZeroU32\<close> invariant.
\<close>

lemma nonzero_checked_dense_index:
  assumes RC: "\<And>w. R (C w) = w" and CR: "\<And>i. C (R i) = i"
  shows "checked_dense_index (\<lambda>x. map_option C (u32_try_from (x + 1)))
           (\<lambda>i. unat (R i - 1)) (\<lambda>i. R i \<noteq> 0) (2 ^ 32 - 1)"
proof (unfold_locales, goal_cases)
  case (1 n)
  then show ?case using u32_try_from_Suc [OF 1] RC by auto
next
  case (2 i)
  then have "u32_try_from (unat (R i - 1) + 1) = Some (R i)"
    by (simp add: u32_try_from_Some unat_pred_nonzero)
  then show ?case by (simp add: CR)
next
  case (3 i)
  then show ?case by (rule nonzero_index_bound)
next
  case (4 n)
  then show ?case by (simp add: u32_try_from_def)
qed

interpretation variable_ids: checked_dense_index
  VariableId_from_index VariableId_to_index "\<lambda>i. VariableId_get i \<noteq> 0" "2 ^ 32 - 1"
  unfolding VariableId_from_index_def [abs_def] VariableId_to_index_def [abs_def]
  by (rule nonzero_checked_dense_index) simp_all

interpretation clause_ids: checked_dense_index
  ClauseId_from_index ClauseId_to_index "\<lambda>i. ClauseId_get i \<noteq> 0" "2 ^ 32 - 1"
  unfolding ClauseId_from_index_def [abs_def] ClauseId_to_index_def [abs_def]
  by (rule nonzero_checked_dense_index) simp_all

interpretation condition_ids: checked_dense_index
  ConditionId_from_index ConditionId_to_index "\<lambda>i. ConditionId_get i \<noteq> 0" "2 ^ 32 - 1"
  unfolding ConditionId_from_index_def [abs_def] ConditionId_to_index_def [abs_def]
  by (rule nonzero_checked_dense_index) simp_all

interpretation dependencies_ids: checked_dense_index
  DependenciesId_from_index DependenciesId_to_index "\<lambda>i. DependenciesId_get i \<noteq> 0" "2 ^ 32 - 1"
  unfolding DependenciesId_from_index_def [abs_def] DependenciesId_to_index_def [abs_def]
  by (rule nonzero_checked_dense_index) simp_all

section \<open>Identifiers stored by a truncating cast\<close>

text \<open>
  \<open>LearntClauseId\<close>, \<open>CandidatesId\<close>, \<open>StringId\<close>, \<open>VersionSetId\<close> and \<open>VersionSetUnionId\<close>
  store \<open>x as u32\<close>: an index that does not fit is silently reduced modulo \<open>2 ^ 32\<close>.
\<close>

datatype LearntClauseId = LearntClauseId (LearntClauseId_get: "32 word")

definition LearntClauseId_from_index :: "nat \<Rightarrow> LearntClauseId option" where
  "LearntClauseId_from_index x = Some (LearntClauseId (as_u32 x))"

definition LearntClauseId_to_index :: "LearntClauseId \<Rightarrow> nat" where
  "LearntClauseId_to_index i = unat (LearntClauseId_get i)"

datatype CandidatesId = CandidatesId (CandidatesId_get: "32 word")

definition CandidatesId_from_index :: "nat \<Rightarrow> CandidatesId option" where
  "CandidatesId_from_index x = Some (CandidatesId (as_u32 x))"

definition CandidatesId_to_index :: "CandidatesId \<Rightarrow> nat" where
  "CandidatesId_to_index i = unat (CandidatesId_get i)"

datatype StringId = StringId (StringId_get: "32 word")

definition StringId_from_index :: "nat \<Rightarrow> StringId option" where
  "StringId_from_index x = Some (StringId (as_u32 x))"

definition StringId_to_index :: "StringId \<Rightarrow> nat" where
  "StringId_to_index i = unat (StringId_get i)"

datatype VersionSetId = VersionSetId (VersionSetId_get: "32 word")

definition VersionSetId_from_index :: "nat \<Rightarrow> VersionSetId option" where
  "VersionSetId_from_index x = Some (VersionSetId (as_u32 x))"

definition VersionSetId_to_index :: "VersionSetId \<Rightarrow> nat" where
  "VersionSetId_to_index i = unat (VersionSetId_get i)"

datatype VersionSetUnionId = VersionSetUnionId (VersionSetUnionId_get: "32 word")

definition VersionSetUnionId_from_index :: "nat \<Rightarrow> VersionSetUnionId option" where
  "VersionSetUnionId_from_index x = Some (VersionSetUnionId (as_u32 x))"

definition VersionSetUnionId_to_index :: "VersionSetUnionId \<Rightarrow> nat" where
  "VersionSetUnionId_to_index i = unat (VersionSetUnionId_get i)"

lemma truncating_dense_index:
  assumes RC: "\<And>w. R (C w) = w" and CR: "\<And>i. C (R i) = i"
  shows "dense_index (\<lambda>x. Some (C (as_u32 x))) (\<lambda>i. unat (R i)) (\<lambda>_. True) (2 ^ 32)"
proof (unfold_locales, goal_cases)
  case (1 n)
  then show ?case by (simp add: RC unat_as_u32)
next
  case (2 i)
  show ?case by (simp add: as_u32_def CR)
next
  case (3 i)
  show ?case using unsigned_less [of "R i"] by simp
qed

interpretation learnt_clause_ids: dense_index
  LearntClauseId_from_index LearntClauseId_to_index "\<lambda>_. True" "2 ^ 32"
  unfolding LearntClauseId_from_index_def [abs_def] LearntClauseId_to_index_def [abs_def]
  by (rule truncating_dense_index) simp_all

interpretation candidates_ids: dense_index
  CandidatesId_from_index CandidatesId_to_index "\<lambda>_. True" "2 ^ 32"
  unfolding CandidatesId_from_index_def [abs_def] CandidatesId_to_index_def [abs_def]
  by (rule truncating_dense_index) simp_all

interpretation string_ids: dense_index
  StringId_from_index StringId_to_index "\<lambda>_. True" "2 ^ 32"
  unfolding StringId_from_index_def [abs_def] StringId_to_index_def [abs_def]
  by (rule truncating_dense_index) simp_all

interpretation version_set_ids: dense_index
  VersionSetId_from_index VersionSetId_to_index "\<lambda>_. True" "2 ^ 32"
  unfolding VersionSetId_from_index_def [abs_def] VersionSetId_to_index_def [abs_def]
  by (rule truncating_dense_index) simp_all

interpretation version_set_union_ids: dense_index
  VersionSetUnionId_from_index VersionSetUnionId_to_index "\<lambda>_. True" "2 ^ 32"
  unfolding VersionSetUnionId_from_index_def [abs_def] VersionSetUnionId_to_index_def [abs_def]
  by (rule truncating_dense_index) simp_all

text \<open>
  \<open>DisjunctionId\<close> combines the two: \<open>NonZero::new_unchecked((x + 1) as u32)\<close>. The cast
  wraps to zero at \<open>x = 2 ^ 32 - 1\<close>, which breaks the \<open>NonZero\<close> invariant instead of
  panicking.
\<close>

datatype DisjunctionId = DisjunctionId (DisjunctionId_get: "32 word")

definition DisjunctionId_from_index :: "nat \<Rightarrow> DisjunctionId option" where
  "DisjunctionId_from_index x = Some (DisjunctionId (as_u32 (x + 1)))"

definition DisjunctionId_to_index :: "DisjunctionId \<Rightarrow> nat" where
  "DisjunctionId_to_index i = unat (DisjunctionId_get i - 1)"

lemma as_u32_try_from: "n < 2 ^ 32 \<Longrightarrow> u32_try_from n = Some (as_u32 n)"
  by (simp add: u32_try_from_def as_u32_def)

interpretation disjunction_ids: dense_index
  DisjunctionId_from_index DisjunctionId_to_index "\<lambda>i. DisjunctionId_get i \<noteq> 0" "2 ^ 32 - 1"
proof (unfold_locales, goal_cases)
  case (1 n)
  with u32_try_from_Suc [OF 1] as_u32_try_from [of "n + 1"] show ?case
    by (auto simp: DisjunctionId_from_index_def DisjunctionId_to_index_def)
next
  case (2 i)
  then have "as_u32 (unat (DisjunctionId_get i - 1) + 1) = DisjunctionId_get i"
    by (simp add: as_u32_def unat_pred_nonzero)
  then show ?case
    by (simp add: DisjunctionId_from_index_def DisjunctionId_to_index_def)
next
  case (3 i)
  then show ?case unfolding DisjunctionId_to_index_def by (rule nonzero_index_bound)
qed

end
