(* ===== verification/Literals.thy ===== *)
theory Literals
  imports Ids
begin

text \<open>
  Literals of \<open>src/solver/clause.rs\<close>. A literal packs the index of its variable and its
  sign into one index, \<open>variable << 1 | negate\<close>, stored plus one in a \<open>NonZeroU32\<close>. The
  model used by the solver theories keeps the index as a \<open>nat\<close> (\<open>Literal\<close>); the second
  half of the theory has the 32/64-bit computation and its refinement to the first.
\<close>

section \<open>Literals by index\<close>

datatype literal = Literal (Literal_to_index: nat)

definition Literal_new :: "variable_id \<Rightarrow> bool \<Rightarrow> literal" where
  "Literal_new variable negate = Literal (push_bit 1 variable OR of_bool negate)"

definition negate :: "literal \<Rightarrow> bool" where
  "negate l \<longleftrightarrow> (Literal_to_index l + 1) AND 1 = 0"

definition satisfying_value :: "literal \<Rightarrow> bool" where
  "satisfying_value l = (\<not> negate l)"

definition variable :: "literal \<Rightarrow> variable_id" where
  "variable l = drop_bit 1 (Literal_to_index l)"

definition positive :: "variable_id \<Rightarrow> literal" where
  "positive v = Literal_new v False"

definition negative :: "variable_id \<Rightarrow> literal" where
  "negative v = Literal_new v True"

text \<open>The packing in arithmetic terms.\<close>

lemma Literal_new_index: "Literal_to_index (Literal_new v n) = 2 * v + of_bool n"
proof -
  have "push_bit 1 v OR (of_bool n :: nat) = 2 * v + of_bool n"
    by (cases n) (simp_all add: or_one_eq push_bit_eq_mult mult.commute flip: One_nat_def)
  then show ?thesis by (simp add: Literal_new_def)
qed

lemma negate_iff_odd: "negate l \<longleftrightarrow> odd (Literal_to_index l)"
  unfolding negate_def and_one_eq by presburger

lemma variable_eq_div: "variable l = Literal_to_index l div 2"
  by (simp add: variable_def drop_bit_eq_div)

lemma variable_new [simp]: "variable (Literal_new v n) = v"
  by (simp add: variable_eq_div Literal_new_index)

lemma negate_new [simp]: "negate (Literal_new v n) = n"
  by (simp add: negate_iff_odd Literal_new_index)

lemma Literal_new_variable_negate [simp]: "Literal_new (variable l) (negate l) = l"
proof (rule literal.expand)
  show "Literal_to_index (Literal_new (variable l) (negate l)) = Literal_to_index l"
    by (auto simp: Literal_new_index variable_eq_div negate_iff_odd elim!: oddE)
qed

lemma Literal_new_inject [simp]: "Literal_new v n = Literal_new w m \<longleftrightarrow> v = w \<and> n = m"
proof
  assume eq: "Literal_new v n = Literal_new w m"
  from arg_cong [OF eq, of variable] arg_cong [OF eq, of negate] show "v = w \<and> n = m" by simp
qed simp

lemma literal_eq_iff: "l = k \<longleftrightarrow> variable l = variable k \<and> negate l = negate k"
proof
  assume eq: "variable l = variable k \<and> negate l = negate k"
  have "l = Literal_new (variable l) (negate l)" by simp
  also have "\<dots> = Literal_new (variable k) (negate k)" using eq by (simp only:)
  also have "\<dots> = k" by simp
  finally show "l = k" .
qed simp

lemma literal_cases [cases type: literal]:
  obtains v n where "l = Literal_new v n"
  using that [of "variable l" "negate l"] by simp

lemma satisfying_value_new [simp]: "satisfying_value (Literal_new v n) = (\<not> n)"
  by (simp add: satisfying_value_def)

lemma variable_positive [simp]: "variable (positive v) = v"
  and variable_negative [simp]: "variable (negative v) = v"
  and negate_positive [simp]: "\<not> negate (positive v)"
  and negate_negative [simp]: "negate (negative v)"
  and satisfying_value_positive [simp]: "satisfying_value (positive v)"
  and satisfying_value_negative [simp]: "\<not> satisfying_value (negative v)"
  by (simp_all add: positive_def negative_def satisfying_value_def)

lemma positive_inject [simp]: "positive v = positive w \<longleftrightarrow> v = w"
  and negative_inject [simp]: "negative v = negative w \<longleftrightarrow> v = w"
  and positive_negative [simp]: "positive v \<noteq> negative w"
  and negative_positive [simp]: "negative v \<noteq> positive w"
  by (simp_all add: positive_def negative_def)

section \<open>Propositional meaning\<close>

text \<open>
  A total valuation satisfies a literal when it gives the variable the satisfying value;
  a clause, as a list of literals, is satisfied when one of them is.
\<close>

type_synonym valuation = "variable_id \<Rightarrow> bool"

definition lit_true :: "valuation \<Rightarrow> literal \<Rightarrow> bool" where
  "lit_true M l \<longleftrightarrow> M (variable l) = satisfying_value l"

definition clause_true :: "valuation \<Rightarrow> literal list \<Rightarrow> bool" where
  "clause_true M ls \<longleftrightarrow> (\<exists>l \<in> set ls. lit_true M l)"

lemma lit_true_positive [simp]: "lit_true M (positive v) \<longleftrightarrow> M v"
  and lit_true_negative [simp]: "lit_true M (negative v) \<longleftrightarrow> \<not> M v"
  and lit_true_new [simp]: "lit_true M (Literal_new v n) \<longleftrightarrow> M v = (\<not> n)"
  by (auto simp: lit_true_def)

lemma clause_true_simps [simp]:
  "clause_true M [] \<longleftrightarrow> False"
  "clause_true M (l # ls) \<longleftrightarrow> lit_true M l \<or> clause_true M ls"
  "clause_true M (ks @ ls) \<longleftrightarrow> clause_true M ks \<or> clause_true M ls"
  by (auto simp: clause_true_def)

lemma clause_true_map_positive [simp]:
  "clause_true M (map positive vs) \<longleftrightarrow> (\<exists>v \<in> set vs. M v)"
  by (auto simp: clause_true_def)

section \<open>The machine computation\<close>

datatype LiteralRepr = LiteralRepr (LiteralRepr_get: "32 word")

text \<open>\<open>usize\<close> is 64 bits wide on the supported targets.\<close>

definition LiteralRepr_from_index :: "64 word \<Rightarrow> LiteralRepr option" where
  "LiteralRepr_from_index x = map_option LiteralRepr (u32_try_from (unat (x + 1)))"

definition LiteralRepr_to_index :: "LiteralRepr \<Rightarrow> 64 word" where
  "LiteralRepr_to_index l = ucast (LiteralRepr_get l) - 1"

definition LiteralRepr_new :: "VariableId \<Rightarrow> bool \<Rightarrow> LiteralRepr option" where
  "LiteralRepr_new v n =
     LiteralRepr_from_index (push_bit 1 (of_nat (VariableId_to_index v)) OR of_bool n)"

definition LiteralRepr_negate :: "LiteralRepr \<Rightarrow> bool" where
  "LiteralRepr_negate l \<longleftrightarrow> LiteralRepr_get l AND 1 = 0"

definition LiteralRepr_variable :: "LiteralRepr \<Rightarrow> VariableId option" where
  "LiteralRepr_variable l = VariableId_from_index (unat (drop_bit 1 (LiteralRepr_to_index l)))"


lemma unat_packed_index:
  fixes i :: nat
  assumes "i < 2 ^ 32"
  shows "unat (push_bit 1 (of_nat i) OR of_bool n :: 64 word) = 2 * i + of_bool n"
proof -
  have pb: "push_bit 1 (of_nat i :: 64 word) = of_nat (2 * i)"
    by (simp add: push_bit_eq_mult mult.commute)
  have "push_bit 1 (of_nat i :: 64 word) OR of_bool n = of_nat (2 * i + of_bool n)"
    by (cases n) (simp_all add: pb or_one_eq)
  moreover have "2 * i + of_bool n < (2 ^ 64 :: nat)" using assms by (cases n) simp_all
  ultimately show ?thesis
    by (simp only: unat_of_nat_u64)
qed

text \<open>
  \<open>Literal::new\<close> succeeds exactly when the packed index plus one fits into 32 bits, and
  then stores the index of the abstract literal.
\<close>

lemma LiteralRepr_new_eq:
  assumes "VariableId_get v \<noteq> 0"
  shows "LiteralRepr_new v n =
     (let i = Literal_to_index (Literal_new (VariableId_to_index v) n) in
      if i + 1 < 2 ^ 32 then Some (LiteralRepr (of_nat (i + 1))) else None)"
proof -
  let ?i = "VariableId_to_index v"
  let ?x = "push_bit 1 (of_nat ?i) OR of_bool n :: 64 word"
  have i: "?i < 2 ^ 32" using variable_ids.to_index_bound [OF assms] by simp
  have x: "unat ?x = 2 * ?i + of_bool n" by (rule unat_packed_index [OF i])
  with i have "unat ?x + 1 < 2 ^ 64" by (cases n) simp_all
  then have "unat (?x + 1) = unat ?x + 1"
    by (simp add: unat_word_ariths(1))
  with x show ?thesis
    by (simp add: LiteralRepr_new_def LiteralRepr_from_index_def u32_try_from_def
        Literal_new_index Let_def)
qed

lemma LiteralRepr_to_index_of_nat:
  assumes "i + 1 < 2 ^ 32"
  shows "unat (LiteralRepr_to_index (LiteralRepr (of_nat (i + 1)))) = i"
proof -
  have "unat (of_nat (i + 1) :: 32 word) = i + 1"
    using assms by (rule unat_of_nat_u32)
  then have u: "unat (ucast (of_nat (i + 1) :: 32 word) :: 64 word) = i + 1"
    by (simp only: unat_ucast_u64)
  then have "(ucast (of_nat (i + 1) :: 32 word) :: 64 word) \<noteq> 0" by (metis add_is_0 one_neq_zero unat_0)
  with u show ?thesis
    by (simp add: LiteralRepr_to_index_def unat_minus_one)
qed

lemma LiteralRepr_negate_of_nat:
  assumes "i + 1 < 2 ^ 32"
  shows "LiteralRepr_negate (LiteralRepr (of_nat (i + 1))) \<longleftrightarrow> odd i"
proof -
  have "unat (of_nat (i + 1) :: 32 word) = i + 1"
    using assms by (rule unat_of_nat_u32)
  then have "even (of_nat (i + 1) :: 32 word) \<longleftrightarrow> even (i + 1)"
    by (simp only: even_word_unat)
  moreover have "LiteralRepr_negate (LiteralRepr w) \<longleftrightarrow> even w" for w :: "32 word"
    by (simp add: LiteralRepr_negate_def and_one_eq even_iff_mod_2_eq_zero)
  ultimately show ?thesis by simp
qed

text \<open>Property C21. The bit packing of a literal is lossless at machine width: for every
  variable whose packed index fits (\<open>2 * index + negate + 1 < 2 ^ 32\<close>) \<open>Literal::new\<close>
  returns a literal from which \<open>variable()\<close> and \<open>negate()\<close> recover both arguments and
  whose index is the index of the abstract literal; for every other variable it panics.\<close>

theorem literal_packing_roundtrip:
  assumes "VariableId_get v \<noteq> 0"
  shows "if 2 * VariableId_to_index v + of_bool n + 1 < 2 ^ 32
     then \<exists>r. LiteralRepr_new v n = Some r \<and> LiteralRepr_variable r = Some v \<and>
        LiteralRepr_negate r = n \<and>
        unat (LiteralRepr_to_index r) = Literal_to_index (Literal_new (VariableId_to_index v) n)
     else LiteralRepr_new v n = None"
proof -
  define i where "i = Literal_to_index (Literal_new (VariableId_to_index v) n)"
  have i: "i = 2 * VariableId_to_index v + of_bool n" by (simp add: i_def Literal_new_index)
  have new: "LiteralRepr_new v n =
      (if i + 1 < 2 ^ 32 then Some (LiteralRepr (of_nat (i + 1))) else None)"
    using LiteralRepr_new_eq [OF assms] by (simp only: Let_def i_def)
  show ?thesis
  proof (cases "i + 1 < 2 ^ 32")
    case True
    let ?r = "LiteralRepr (of_nat (i + 1))"
    have ix: "unat (LiteralRepr_to_index ?r) = i" by (rule LiteralRepr_to_index_of_nat [OF True])
    have "unat (drop_bit 1 (LiteralRepr_to_index ?r)) = VariableId_to_index v"
      unfolding unat_drop_bit_eq ix by (simp add: drop_bit_eq_div i)
    then have "LiteralRepr_variable ?r = Some v"
      using variable_ids.from_to_index [OF assms] by (simp add: LiteralRepr_variable_def)
    moreover have "odd i = n" by (simp add: i)
    with LiteralRepr_negate_of_nat [OF True] have "LiteralRepr_negate ?r = n" by (simp only:)
    ultimately have "LiteralRepr_new v n = Some ?r \<and> LiteralRepr_variable ?r = Some v \<and>
        LiteralRepr_negate ?r = n \<and> unat (LiteralRepr_to_index ?r) = i"
      using True new ix by simp
    with True show ?thesis unfolding i_def [symmetric] i [symmetric] by auto
  next
    case False
    with new show ?thesis unfolding i [symmetric] by simp
  qed
qed

theorem literal_packing_roundtrip_witness:
  "\<exists>r. LiteralRepr_new (VariableId 8) True = Some r \<and>
     LiteralRepr_variable r = Some (VariableId 8) \<and> LiteralRepr_negate r"
  using literal_packing_roundtrip [of "VariableId 8" True]
  by (auto simp: VariableId_to_index_def)

end
