(* ===== verification/Decision_Map.thy ===== *)
theory Decision_Map
  imports Literals
begin

text \<open>
  Assignments: \<open>src/solver/decision.rs\<close>, \<open>src/solver/decision_map.rs\<close> and
  \<open>Literal::eval\<close> of \<open>src/solver/clause.rs\<close>. A variable's value and decision level are
  packed into one signed 32-bit integer: zero is undecided, the sign is the value, the
  magnitude the level. The locale \<open>assignment_store\<close> is what the decision tracker relies
  on; \<open>DecisionMap\<close> provides it for every level from 1 to \<open>i32::MAX\<close>.
\<close>

section \<open>The interface\<close>

locale assignment_store =
  fixes init :: 'm
    and value_of :: "'m \<Rightarrow> variable_id \<Rightarrow> bool option"
    and level_of :: "'m \<Rightarrow> variable_id \<Rightarrow> level"
    and assign :: "'m \<Rightarrow> variable_id \<Rightarrow> bool \<Rightarrow> level \<Rightarrow> 'm"
    and unassign :: "'m \<Rightarrow> variable_id \<Rightarrow> 'm"
    and valid_level :: "level \<Rightarrow> bool"
  assumes value_init: "value_of init v = None"
    and level_init: "level_of init v = 0"
    and value_assign: "valid_level l \<Longrightarrow>
      value_of (assign m v b l) w = (if w = v then Some b else value_of m w)"
    and level_assign: "valid_level l \<Longrightarrow>
      level_of (assign m v b l) w = (if w = v then l else level_of m w)"
    and value_unassign: "value_of (unassign m v) w = (if w = v then None else value_of m w)"
    and level_unassign: "level_of (unassign m v) w = (if w = v then 0 else level_of m w)"
begin

lemma assign_unassign_value:
  "valid_level l \<Longrightarrow> value_of m v = None \<Longrightarrow>
    value_of (unassign (assign m v b l) v) w = value_of m w"
  by (simp add: value_assign value_unassign)

lemma assign_unassign_level:
  "valid_level l \<Longrightarrow> level_of m v = 0 \<Longrightarrow>
    level_of (unassign (assign m v b l) v) w = level_of m w"
  by (simp add: level_assign level_unassign)

lemma unassign_all_value:
  "value_of (foldl unassign m vs) w = (if w \<in> set vs then None else value_of m w)"
  by (induction vs arbitrary: m) (auto simp: value_unassign)

end

section \<open>Decisions\<close>

record decision =
  d_variable :: variable_id
  d_value :: bool
  d_derived_from :: clause_id

definition Decision_new :: "variable_id \<Rightarrow> bool \<Rightarrow> clause_id \<Rightarrow> decision" where
  "Decision_new v b c = \<lparr>d_variable = v, d_value = b, d_derived_from = c\<rparr>"

lemma Decision_new_sel [simp]:
  "d_variable (Decision_new v b c) = v"
  "d_value (Decision_new v b c) = b"
  "d_derived_from (Decision_new v b c) = c"
  by (simp_all add: Decision_new_def)

section \<open>Value and level in one signed word\<close>

text \<open>Two's complement wrap-around of an integer to 32 bits; \<open>level as i32\<close> uses it.\<close>

definition wrap_i32 :: "int \<Rightarrow> int" where
  "wrap_i32 z = (z + 2 ^ 31) mod 2 ^ 32 - 2 ^ 31"

type_synonym decision_and_level = int

definition undecided :: decision_and_level where
  "undecided = 0"

definition DecisionAndLevel_value :: "decision_and_level \<Rightarrow> bool option" where
  "DecisionAndLevel_value d = (if d < 0 then Some False else if d = 0 then None else Some True)"

definition DecisionAndLevel_level :: "decision_and_level \<Rightarrow> level" where
  "DecisionAndLevel_level d = nat \<bar>d\<bar>"

definition with_value_and_level :: "bool \<Rightarrow> level \<Rightarrow> decision_and_level" where
  "with_value_and_level b l =
     (if b then wrap_i32 (int l) else wrap_i32 (- wrap_i32 (int l)))"

text \<open>The levels for which the packing is faithful: 1 to \<open>i32::MAX\<close>.\<close>

definition valid_level :: "level \<Rightarrow> bool" where
  "valid_level l \<longleftrightarrow> 0 < l \<and> l < 2 ^ 31"

lemma wrap_i32_id: "- (2 ^ 31) \<le> z \<Longrightarrow> z < 2 ^ 31 \<Longrightarrow> wrap_i32 z = z"
  by (simp add: wrap_i32_def)

lemma with_value_and_level_eq:
  "valid_level l \<Longrightarrow> with_value_and_level b l = (if b then int l else - int l)"
  by (simp add: with_value_and_level_def valid_level_def wrap_i32_id)

lemma with_value_and_level_value:
  "valid_level l \<Longrightarrow> DecisionAndLevel_value (with_value_and_level b l) = Some b"
  by (simp add: with_value_and_level_eq DecisionAndLevel_value_def) (simp add: valid_level_def)

lemma with_value_and_level_level:
  "valid_level l \<Longrightarrow> DecisionAndLevel_level (with_value_and_level b l) = l"
  by (simp add: with_value_and_level_eq DecisionAndLevel_level_def)

section \<open>The decision map\<close>

record decision_map =
  dm_map :: "decision_and_level list"

definition DecisionMap_default :: decision_map where
  "DecisionMap_default = \<lparr>dm_map = []\<rparr>"

definition DecisionMap_reset :: "decision_map \<Rightarrow> variable_id \<Rightarrow> decision_map" where
  "DecisionMap_reset m v =
     (if v < length (dm_map m) then m\<lparr>dm_map := (dm_map m)[v := undecided]\<rparr> else m)"

definition DecisionMap_set :: "decision_map \<Rightarrow> variable_id \<Rightarrow> bool \<Rightarrow> level \<Rightarrow> decision_map" where
  "DecisionMap_set m v b l =
     (let grown = (if length (dm_map m) \<le> v then vec_resize (v + 1) undecided (dm_map m)
                   else dm_map m)
      in m\<lparr>dm_map := grown[v := with_value_and_level b l]\<rparr>)"

definition DecisionMap_level :: "decision_map \<Rightarrow> variable_id \<Rightarrow> level" where
  "DecisionMap_level m v =
     (case slice_get (dm_map m) v of None \<Rightarrow> 0 | Some d \<Rightarrow> DecisionAndLevel_level d)"

definition DecisionMap_value :: "decision_map \<Rightarrow> variable_id \<Rightarrow> bool option" where
  "DecisionMap_value m v = Option.bind (slice_get (dm_map m) v) DecisionAndLevel_value"

definition cell :: "decision_map \<Rightarrow> variable_id \<Rightarrow> decision_and_level" where
  "cell m v = (if v < length (dm_map m) then dm_map m ! v else undecided)"

lemma DecisionMap_value_cell: "DecisionMap_value m v = DecisionAndLevel_value (cell m v)"
  by (auto simp: DecisionMap_value_def cell_def slice_get_def DecisionAndLevel_value_def undecided_def)

lemma DecisionMap_level_cell: "DecisionMap_level m v = DecisionAndLevel_level (cell m v)"
  by (auto simp: DecisionMap_level_def cell_def slice_get_def DecisionAndLevel_level_def undecided_def)

lemma cell_set:
  "cell (DecisionMap_set m v b l) w = (if w = v then with_value_and_level b l else cell m w)"
  by (auto simp: cell_def DecisionMap_set_def Let_def nth_vec_resize nth_list_update)

lemma cell_reset: "cell (DecisionMap_reset m v) w = (if w = v then undecided else cell m w)"
  by (auto simp: cell_def DecisionMap_reset_def)

lemma cell_default [simp]: "cell DecisionMap_default v = undecided"
  by (simp add: cell_def DecisionMap_default_def)

lemma undecided_simps [simp]:
  "DecisionAndLevel_value undecided = None" "DecisionAndLevel_level undecided = 0"
  by (simp_all add: undecided_def DecisionAndLevel_value_def DecisionAndLevel_level_def)

interpretation decision_map_store: assignment_store
  DecisionMap_default DecisionMap_value DecisionMap_level DecisionMap_set DecisionMap_reset
  valid_level
  by unfold_locales
    (auto simp: DecisionMap_value_cell DecisionMap_level_cell cell_set cell_reset
      with_value_and_level_value with_value_and_level_level)

lemmas decision_map_simps [simp] =
  decision_map_store.value_init decision_map_store.level_init
  decision_map_store.value_assign decision_map_store.level_assign
  decision_map_store.value_unassign decision_map_store.level_unassign

text \<open>A value is stored exactly where a level is.\<close>

lemma DecisionMap_level_0_iff: "DecisionMap_level m v = 0 \<longleftrightarrow> DecisionMap_value m v = None"
  by (simp add: DecisionMap_value_cell DecisionMap_level_cell DecisionAndLevel_value_def
      DecisionAndLevel_level_def)

section \<open>Evaluating a literal\<close>

definition eval :: "literal \<Rightarrow> decision_map \<Rightarrow> bool option" where
  "eval l m = map_option (\<lambda>value. value \<noteq> negate l) (DecisionMap_value m (variable l))"

lemma eval_None_iff: "eval l m = None \<longleftrightarrow> DecisionMap_value m (variable l) = None"
  by (simp add: eval_def)

lemma eval_True_iff: "eval l m = Some True \<longleftrightarrow> DecisionMap_value m (variable l) = Some (satisfying_value l)"
  by (auto simp: eval_def satisfying_value_def)

lemma eval_False_iff: "eval l m = Some False \<longleftrightarrow> DecisionMap_value m (variable l) = Some (negate l)"
  by (auto simp: eval_def)

section \<open>The range of the packing\<close>

lemma wrap_i32_sign_loss:
  assumes "2 ^ 31 \<le> l" "l < 2 ^ 32"
  shows "wrap_i32 (int l) < 0"
proof -
  have "(int l + 2 ^ 31) mod 2 ^ 32 = (int l - 2 ^ 31) mod 2 ^ 32"
    by (simp add: mod_eq_dvd_iff)
  also have "\<dots> = int l - 2 ^ 31"
    using assms by (intro mod_pos_pos_trivial) simp_all
  finally have "(int l + 2 ^ 31) mod 2 ^ 32 = int l - 2 ^ 31" .
  with assms show ?thesis by (simp add: wrap_i32_def)
qed

text \<open>Property C20. The packing of a value and a level into one \<open>i32\<close> is faithful exactly for
  the levels 1 to \<open>i32::MAX\<close>. There a \<open>set\<close> followed by \<open>value\<close> and \<open>level\<close> returns what
  was stored for that variable and leaves every other variable alone; at any other
  32-bit level storing \<open>true\<close> does not read back as \<open>true\<close>.\<close>

theorem decision_map_packing:
  assumes "l < 2 ^ 32"
  shows "if valid_level l
    then (\<forall>w. DecisionMap_value (DecisionMap_set m v b l) w =
            (if w = v then Some b else DecisionMap_value m w)) \<and>
         (\<forall>w. DecisionMap_level (DecisionMap_set m v b l) w =
            (if w = v then l else DecisionMap_level m w))
    else DecisionMap_value (DecisionMap_set m v True l) v \<noteq> Some True"
proof (cases "valid_level l")
  case True
  then show ?thesis by simp
next
  case False
  then consider "l = 0" | "2 ^ 31 \<le> l" by (auto simp: valid_level_def)
  then have "wrap_i32 (int l) \<le> 0"
    using wrap_i32_sign_loss [OF _ assms] by cases (auto simp: wrap_i32_def)
  with False show ?thesis
    by (simp add: DecisionMap_value_cell cell_set with_value_and_level_def DecisionAndLevel_value_def)
qed

theorem decision_map_packing_witness:
  "DecisionMap_value (DecisionMap_set DecisionMap_default 3 False 7) 3 = Some False"
  using decision_map_packing [of 7 DecisionMap_default 3 False] by (simp add: valid_level_def)

end
