(* ===== verification/Decision_Tracker.thy ===== *)
theory Decision_Tracker
  imports Decision_Map
begin

text \<open>
  The decision tracker, \<open>src/solver/decision_tracker.rs\<close>: the trail of assignments with
  the decision map beside it, the propagation index, and the synchronisation floor the
  decide queue uses. The theory has the operations, the invariant that ties the trail to
  the map (\<open>tracker_inv\<close>), the effect of every operation on both, and the trace property
  of the synchronisation floor.
\<close>

section \<open>State and operations\<close>

record decision_tracker =
  dt_map :: decision_map
  dt_stack :: "decision list"
  dt_propagate_index :: nat
  dt_sync_floor :: nat

definition DecisionTracker_default :: decision_tracker where
  "DecisionTracker_default =
     \<lparr>dt_map = DecisionMap_default, dt_stack = [], dt_propagate_index = 0, dt_sync_floor = 0\<rparr>"

definition tracker_clear :: "decision_tracker \<Rightarrow> decision_tracker" where
  "tracker_clear t = DecisionTracker_default"

definition assigned_value :: "decision_tracker \<Rightarrow> variable_id \<Rightarrow> bool option" where
  "assigned_value t v = DecisionMap_value (dt_map t) v"

definition tracker_level :: "decision_tracker \<Rightarrow> variable_id \<Rightarrow> level" where
  "tracker_level t v = DecisionMap_level (dt_map t) v"

definition take_sync_floor :: "decision_tracker \<Rightarrow> nat \<times> decision_tracker" where
  "take_sync_floor t = (dt_sync_floor t, t\<lparr>dt_sync_floor := length (dt_stack t)\<rparr>)"

definition find_clause_for_assignment :: "decision_tracker \<Rightarrow> variable_id \<Rightarrow> clause_id option" where
  "find_clause_for_assignment t v =
     map_option d_derived_from (List.find (\<lambda>d. d_variable d = v) (dt_stack t))"

text \<open>\<open>try_add_decision\<close>: \<open>Inl ()\<close> is the conflict \<open>Err(())\<close>; \<open>Inr (b, t)\<close> is \<open>Ok(b)\<close>.\<close>

definition try_add_decision ::
    "decision_tracker \<Rightarrow> decision \<Rightarrow> level \<Rightarrow> unit + (bool \<times> decision_tracker)" where
  "try_add_decision t d l =
     (case DecisionMap_value (dt_map t) (d_variable d) of
        None \<Rightarrow> Inr (True, t\<lparr>dt_map := DecisionMap_set (dt_map t) (d_variable d) (d_value d) l,
                           dt_stack := dt_stack t @ [d]\<rparr>)
      | Some value \<Rightarrow> if value = d_value d then Inr (False, t) else Inl ())"

text \<open>
  \<open>undo_last\<close> panics on an empty trail, and when the trail becomes empty (it looks at the
  new last decision to report its level).
\<close>

definition undo_last :: "decision_tracker \<Rightarrow> ((decision \<times> level) \<times> decision_tracker) option" where
  "undo_last t =
     (if dt_stack t = [] then None
      else let d = last (dt_stack t);
               stack = butlast (dt_stack t);
               t' = t\<lparr>dt_stack := stack,
                     dt_map := DecisionMap_reset (dt_map t) (d_variable d),
                     dt_propagate_index := length stack,
                     dt_sync_floor := min (dt_sync_floor t) (length stack)\<rparr>
           in if stack = [] then None
              else Some ((d, DecisionMap_level (dt_map t') (d_variable (last stack))), t'))"

function undo_until_loop :: "level \<Rightarrow> decision_tracker \<Rightarrow> decision_tracker option" where
  "undo_until_loop l t =
     (if dt_stack t = [] then Some t
      else if tracker_level t (d_variable (last (dt_stack t))) \<le> l then Some t
      else case undo_last t of None \<Rightarrow> None | Some (_, t') \<Rightarrow> undo_until_loop l t')"
  by pat_completeness auto
termination
  by (relation "measure (\<lambda>(l, t). length (dt_stack t))")
    (auto simp: undo_last_def Let_def split: if_splits)

declare undo_until_loop.simps [simp del]

definition undo_until :: "level \<Rightarrow> decision_tracker \<Rightarrow> decision_tracker option" where
  "undo_until l t = (if l = 0 then Some (tracker_clear t) else undo_until_loop l t)"

text \<open>
  \<open>next_unpropagated\<close> slices the trail from the propagation index, which panics when the
  index is past the end; the inner \<open>option\<close> is the one the code returns.
\<close>

definition next_unpropagated :: "decision_tracker \<Rightarrow> (decision option \<times> decision_tracker) option" where
  "next_unpropagated t =
     (if dt_propagate_index t > length (dt_stack t) then None
      else Some (if dt_propagate_index t < length (dt_stack t)
                 then (Some (dt_stack t ! dt_propagate_index t),
                       t\<lparr>dt_propagate_index := dt_propagate_index t + 1\<rparr>)
                 else (None, t)))"

section \<open>The invariant\<close>

text \<open>
  The trail assigns every variable at most once, the map holds exactly the assignments of
  the trail, levels never decrease along the trail and are representable, and both
  indices stay within the trail.
\<close>

definition tracker_inv :: "decision_tracker \<Rightarrow> bool" where
  "tracker_inv t \<longleftrightarrow>
     distinct (map d_variable (dt_stack t)) \<and>
     (\<forall>v b. assigned_value t v = Some b \<longleftrightarrow>
        (\<exists>d \<in> set (dt_stack t). d_variable d = v \<and> d_value d = b)) \<and>
     sorted (map (\<lambda>d. tracker_level t (d_variable d)) (dt_stack t)) \<and>
     (\<forall>d \<in> set (dt_stack t). valid_level (tracker_level t (d_variable d))) \<and>
     dt_propagate_index t \<le> length (dt_stack t) \<and>
     dt_sync_floor t \<le> length (dt_stack t)"

lemma tracker_invD [inv_dests]:
  assumes "tracker_inv t"
  shows "distinct (map d_variable (dt_stack t))"
    and "\<And>v b. assigned_value t v = Some b \<longleftrightarrow>
        (\<exists>d \<in> set (dt_stack t). d_variable d = v \<and> d_value d = b)"
    and "sorted (map (\<lambda>d. tracker_level t (d_variable d)) (dt_stack t))"
    and "\<And>d. d \<in> set (dt_stack t) \<Longrightarrow> valid_level (tracker_level t (d_variable d))"
    and "dt_propagate_index t \<le> length (dt_stack t)"
    and "dt_sync_floor t \<le> length (dt_stack t)"
  using assms by (auto simp: tracker_inv_def)

lemma tracker_inv_default [inv_intros]: "tracker_inv DecisionTracker_default"
  by (simp add: tracker_inv_def DecisionTracker_default_def assigned_value_def)

lemma tracker_inv_clear [inv_intros]: "tracker_inv (tracker_clear t)"
  by (simp add: tracker_clear_def tracker_inv_default)

lemma tracker_level_0_iff: "tracker_level t v = 0 \<longleftrightarrow> assigned_value t v = None"
  by (simp add: tracker_level_def assigned_value_def DecisionMap_level_0_iff)

lemma assigned_value_None_iff:
  assumes "tracker_inv t"
  shows "assigned_value t v = None \<longleftrightarrow> v \<notin> d_variable ` set (dt_stack t)"
  using tracker_invD(2) [OF assms, of v] by (cases "assigned_value t v") auto

section \<open>Effect of the operations\<close>

definition push_decision :: "decision_tracker \<Rightarrow> decision \<Rightarrow> level \<Rightarrow> decision_tracker" where
  "push_decision t d l =
     t\<lparr>dt_map := DecisionMap_set (dt_map t) (d_variable d) (d_value d) l,
       dt_stack := dt_stack t @ [d]\<rparr>"

lemma push_decision_simps [simp]:
  "dt_stack (push_decision t d l) = dt_stack t @ [d]"
  "dt_propagate_index (push_decision t d l) = dt_propagate_index t"
  "dt_sync_floor (push_decision t d l) = dt_sync_floor t"
  by (simp_all add: push_decision_def)

lemma assigned_value_push [simp]:
  "valid_level l \<Longrightarrow> assigned_value (push_decision t d l) v =
    (if v = d_variable d then Some (d_value d) else assigned_value t v)"
  by (simp add: push_decision_def assigned_value_def)

lemma tracker_level_push [simp]:
  "valid_level l \<Longrightarrow> tracker_level (push_decision t d l) v =
    (if v = d_variable d then l else tracker_level t v)"
  by (simp add: push_decision_def tracker_level_def)

lemma try_add_decision_eq:
  "try_add_decision t d l =
    (case assigned_value t (d_variable d) of
       None \<Rightarrow> Inr (True, push_decision t d l)
     | Some b \<Rightarrow> if b = d_value d then Inr (False, t) else Inl ())"
  by (auto simp: try_add_decision_def assigned_value_def push_decision_def split: option.split)

text \<open>The three outcomes of \<open>try_add_decision\<close>.\<close>

lemma try_add_decision_cases:
  obtains (fresh) "assigned_value t (d_variable d) = None"
      "try_add_decision t d l = Inr (True, push_decision t d l)"
    | (same) "assigned_value t (d_variable d) = Some (d_value d)"
      "try_add_decision t d l = Inr (False, t)"
    | (conflict) "assigned_value t (d_variable d) = Some (\<not> d_value d)"
      "try_add_decision t d l = Inl ()"
  by (cases "assigned_value t (d_variable d)")
    (auto simp: try_add_decision_eq split: if_splits)

definition level_above :: "decision_tracker \<Rightarrow> level \<Rightarrow> bool" where
  "level_above t l \<longleftrightarrow> (\<forall>d \<in> set (dt_stack t). tracker_level t (d_variable d) \<le> l)"

lemma push_decision_inv [inv_intros]:
  assumes inv: "tracker_inv t" and l: "valid_level l" "level_above t l"
    and fresh: "assigned_value t (d_variable d) = None"
  shows "tracker_inv (push_decision t d l)"
proof -
  from inv fresh have notin: "\<forall>e \<in> set (dt_stack t). d_variable e \<noteq> d_variable d"
    by (simp only: assigned_value_None_iff not_in_image_iff)
  then have lev: "e \<in> set (dt_stack t) \<Longrightarrow>
      tracker_level (push_decision t d l) (d_variable e) = tracker_level t (d_variable e)" for e
    using l by simp
  then have map_eq: "map (\<lambda>e. tracker_level (push_decision t d l) (d_variable e)) (dt_stack t)
      = map (\<lambda>e. tracker_level t (d_variable e)) (dt_stack t)"
    by simp
  show ?thesis
    unfolding tracker_inv_def
  proof (intro conjI allI)
    show "distinct (map d_variable (dt_stack (push_decision t d l)))"
      using notin tracker_invD(1) [OF inv] unfolding push_decision_simps distinct_map_snoc by blast
    show "assigned_value (push_decision t d l) v = Some b \<longleftrightarrow>
       (\<exists>e \<in> set (dt_stack (push_decision t d l)). d_variable e = v \<and> d_value e = b)" for v b
      using l notin tracker_invD(2) [OF inv, of v b] by auto
    show "sorted (map (\<lambda>e. tracker_level (push_decision t d l) (d_variable e))
        (dt_stack (push_decision t d l)))"
      using l tracker_invD(3) [OF inv]
      by (simp add: sorted_append map_eq del: tracker_level_push)
        (simp add: level_above_def lev del: tracker_level_push, simp)
    show "\<forall>e \<in> set (dt_stack (push_decision t d l)).
        valid_level (tracker_level (push_decision t d l) (d_variable e))"
      using l tracker_invD(4) [OF inv] by auto
  qed (use tracker_invD(5,6) [OF inv] in simp_all)
qed

lemma level_above_push [inv_intros]:
  "level_above t l \<Longrightarrow> valid_level l \<Longrightarrow> level_above (push_decision t d l) l"
  by (auto simp: level_above_def)

lemma try_add_decision_inv [inv_intros]:
  assumes "tracker_inv t" "valid_level l" "level_above t l" "try_add_decision t d l = Inr (b, t')"
  shows "tracker_inv t' \<and> level_above t' l"
  using assms
  by (cases rule: try_add_decision_cases [of t d l]) (auto intro: push_decision_inv level_above_push)

text \<open>Popping the last decision, without \<open>undo_last\<close>'s look at the one below it.\<close>

definition pop_decision :: "decision_tracker \<Rightarrow> decision_tracker" where
  "pop_decision t =
     t\<lparr>dt_stack := butlast (dt_stack t),
       dt_map := DecisionMap_reset (dt_map t) (d_variable (last (dt_stack t))),
       dt_propagate_index := length (dt_stack t) - 1,
       dt_sync_floor := min (dt_sync_floor t) (length (dt_stack t) - 1)\<rparr>"

lemma pop_decision_simps [simp]:
  "dt_stack (pop_decision t) = butlast (dt_stack t)"
  "dt_propagate_index (pop_decision t) = length (dt_stack t) - 1"
  "dt_sync_floor (pop_decision t) = min (dt_sync_floor t) (length (dt_stack t) - 1)"
  "assigned_value (pop_decision t) v =
    (if v = d_variable (last (dt_stack t)) then None else assigned_value t v)"
  "tracker_level (pop_decision t) v =
    (if v = d_variable (last (dt_stack t)) then 0 else tracker_level t v)"
  by (simp_all add: pop_decision_def assigned_value_def tracker_level_def)

lemma undo_last_eq:
  "undo_last t =
    (if length (dt_stack t) \<le> 1 then None
     else Some ((last (dt_stack t),
                 tracker_level (pop_decision t) (d_variable (last (butlast (dt_stack t))))),
                pop_decision t))"
proof -
  have "butlast (dt_stack t) = [] \<longleftrightarrow> length (dt_stack t) \<le> 1"
    by (cases "dt_stack t" rule: rev_cases) (auto simp: Suc_le_eq)
  then show ?thesis
    by (auto simp: undo_last_def Let_def pop_decision_def tracker_level_def)
qed

lemma pop_decision_inv [inv_intros]:
  assumes inv: "tracker_inv t" and ne: "dt_stack t \<noteq> []"
  shows "tracker_inv (pop_decision t)"
proof -
  obtain ds d where st: "dt_stack t = ds @ [d]" using ne by (cases "dt_stack t" rule: rev_cases) auto
  with tracker_invD(1) [OF inv] have notin: "\<forall>e \<in> set ds. d_variable e \<noteq> d_variable d"
    by (metis distinct_map_snoc)
  then have map_eq: "map (\<lambda>e. tracker_level (pop_decision t) (d_variable e)) ds
      = map (\<lambda>e. tracker_level t (d_variable e)) ds"
    by (auto simp: st)
  show ?thesis
    unfolding tracker_inv_def
  proof (intro conjI allI)
    show "assigned_value (pop_decision t) v = Some b \<longleftrightarrow>
       (\<exists>e \<in> set (dt_stack (pop_decision t)). d_variable e = v \<and> d_value e = b)" for v b
      using notin tracker_invD(2) [OF inv, of v b] by (auto simp: st)
    show "\<forall>e \<in> set (dt_stack (pop_decision t)).
        valid_level (tracker_level (pop_decision t) (d_variable e))"
      using notin tracker_invD(4) [OF inv] by (auto simp: st)
  qed (use tracker_invD(1,3) [OF inv] in \<open>auto simp: st sorted_append map_eq simp del: pop_decision_simps(5)\<close>)
qed

text \<open>What is below a level along a trail whose levels do not decrease.\<close>

definition below_level :: "decision_tracker \<Rightarrow> level \<Rightarrow> decision list" where
  "below_level t l = takeWhile (\<lambda>d. tracker_level t (d_variable d) \<le> l) (dt_stack t)"

lemma below_level_pop:
  assumes inv: "tracker_inv t" and ne: "dt_stack t \<noteq> []"
    and above: "\<not> tracker_level t (d_variable (last (dt_stack t))) \<le> l"
  shows "below_level (pop_decision t) l = below_level t l"
proof -
  obtain ds d where st: "dt_stack t = ds @ [d]" using ne by (cases "dt_stack t" rule: rev_cases) auto
  with tracker_invD(1) [OF inv] have notin: "\<forall>e \<in> set ds. d_variable e \<noteq> d_variable d"
    by (metis distinct_map_snoc)
  have "takeWhile (\<lambda>e. tracker_level (pop_decision t) (d_variable e) \<le> l) ds
      = takeWhile (\<lambda>e. tracker_level t (d_variable e) \<le> l) ds"
    by (rule takeWhile_cong) (use notin in \<open>auto simp: st\<close>)
  with above show ?thesis by (simp add: below_level_def st takeWhile_tail)
qed

lemma below_level_all:
  assumes inv: "tracker_inv t" and ne: "dt_stack t \<noteq> []"
    and le: "tracker_level t (d_variable (last (dt_stack t))) \<le> l"
  shows "below_level t l = dt_stack t"
proof -
  have "\<forall>d \<in> set (dt_stack t). tracker_level t (d_variable d) \<le> l"
    using tracker_invD(3) [OF inv] le in_set_butlast_last [OF ne]
    by (metis (mono_tags, lifting) append_butlast_last_id insert_iff le_trans ne sorted_map_snoc)
  then show ?thesis by (simp add: below_level_def)
qed


lemma undo_until_loop_effect:
  assumes "tracker_inv t" "d \<in> set (dt_stack t)" "tracker_level t (d_variable d) \<le> l"
  shows "\<exists>t'. undo_until_loop l t = Some t' \<and> tracker_inv t' \<and>
      dt_stack t' = below_level t l \<and>
      (\<forall>v. assigned_value t' v = (if tracker_level t v \<le> l then assigned_value t v else None)) \<and>
      (\<forall>v. tracker_level t' v = (if tracker_level t v \<le> l then tracker_level t v else 0)) \<and>
      dt_propagate_index t' = (if dt_stack t' = dt_stack t then dt_propagate_index t
                               else length (dt_stack t')) \<and>
      dt_sync_floor t' = min (dt_sync_floor t) (length (dt_stack t'))"
  using assms
proof (induction l t rule: undo_until_loop.induct)
  case (1 l t)
  note inv = "1.prems"(1)
  have ne: "dt_stack t \<noteq> []" using "1.prems"(2) by auto
  let ?top = "last (dt_stack t)"
  show ?case
  proof (cases "tracker_level t (d_variable ?top) \<le> l")
    case True
    with inv ne have all: "below_level t l = dt_stack t" by (simp add: below_level_all)
    have "tracker_level t v \<le> l" for v
    proof (cases "assigned_value t v")
      case None
      then show ?thesis by (simp flip: tracker_level_0_iff)
    next
      case (Some b)
      then obtain e where "e \<in> set (dt_stack t)" "d_variable e = v"
        using tracker_invD(2) [OF inv] by blast
      with all show ?thesis
        unfolding below_level_def by (metis set_takeWhileD)
    qed
    with True ne inv all tracker_invD(6) [OF inv] show ?thesis
      by (subst undo_until_loop.simps) auto
  next
    case False
    have two: "\<not> length (dt_stack t) \<le> 1"
    proof
      assume "length (dt_stack t) \<le> 1"
      with ne have "dt_stack t = [?top]" by (cases "dt_stack t") auto
      with "1.prems"(2,3) False show False by (metis empty_iff insert_iff list.set(1,2))
    qed
    then have un: "undo_last t = Some ((?top, tracker_level (pop_decision t)
        (d_variable (last (butlast (dt_stack t))))), pop_decision t)"
      by (simp add: undo_last_eq)
    have d: "d \<in> set (dt_stack (pop_decision t))" "d_variable d \<noteq> d_variable ?top"
      using "1.prems"(2,3) False in_set_butlast_last [OF ne] by auto
    have step: "undo_until_loop l t = undo_until_loop l (pop_decision t)"
      using ne False un by (subst undo_until_loop.simps) simp
    have "tracker_level (pop_decision t) (d_variable d) \<le> l"
      using "1.prems"(3) d by simp
    from "1.IH" [OF ne False un refl pop_decision_inv [OF inv ne] d(1) this]
    obtain t' where t': "undo_until_loop l (pop_decision t) = Some t'" "tracker_inv t'"
      "dt_stack t' = below_level (pop_decision t) l"
      "\<forall>v. assigned_value t' v =
        (if tracker_level (pop_decision t) v \<le> l then assigned_value (pop_decision t) v else None)"
      "\<forall>v. tracker_level t' v =
        (if tracker_level (pop_decision t) v \<le> l then tracker_level (pop_decision t) v else 0)"
      "dt_propagate_index t' = (if dt_stack t' = dt_stack (pop_decision t)
        then dt_propagate_index (pop_decision t) else length (dt_stack t'))"
      "dt_sync_floor t' = min (dt_sync_floor (pop_decision t)) (length (dt_stack t'))"
      by blast
    have below: "below_level (pop_decision t) l = below_level t l"
      using inv ne False by (rule below_level_pop)
    have len: "length (dt_stack t') \<le> length (dt_stack t) - 1"
      using t'(3) length_takeWhile_le [of _ "butlast (dt_stack t)"]
      by (simp add: below_level_def)
    with two have "dt_stack t' \<noteq> dt_stack t" by auto
    then show ?thesis
      using step t' below False len
      by (intro exI [of _ t']) (auto simp: min_def)
  qed
qed

section \<open>Runs of the tracker\<close>

text \<open>
  One rule per operation the solver calls on the tracker. The levels passed to
  \<open>try_add_decision\<close> are representable and at least as high as every level on the trail,
  which is how the solver numbers them.
\<close>

inductive tracker_step :: "decision_tracker \<Rightarrow> decision_tracker \<Rightarrow> bool" where
  add: "valid_level l \<Longrightarrow> level_above t l \<Longrightarrow> try_add_decision t d l = Inr (b, t') \<Longrightarrow>
    tracker_step t t'"
| undo_one: "undo_last t = Some (r, t') \<Longrightarrow> tracker_step t t'"
| undo_many: "d \<in> set (dt_stack t) \<Longrightarrow> tracker_level t (d_variable d) \<le> l \<Longrightarrow>
    undo_until l t = Some t' \<Longrightarrow> tracker_step t t'"
| undo_all: "undo_until 0 t = Some t' \<Longrightarrow> tracker_step t t'"
| propagated: "next_unpropagated t = Some (r, t') \<Longrightarrow> tracker_step t t'"

inductive_cases tracker_stepE: "tracker_step t t'"

lemma undo_until_effect:
  assumes "tracker_inv t" "d \<in> set (dt_stack t)" "tracker_level t (d_variable d) \<le> l"
  shows "\<exists>t'. undo_until l t = Some t' \<and> tracker_inv t' \<and>
      dt_stack t' = below_level t l \<and>
      (\<forall>v. assigned_value t' v = (if tracker_level t v \<le> l then assigned_value t v else None)) \<and>
      (\<forall>v. tracker_level t' v = (if tracker_level t v \<le> l then tracker_level t v else 0)) \<and>
      dt_propagate_index t' = (if dt_stack t' = dt_stack t then dt_propagate_index t
                               else length (dt_stack t')) \<and>
      dt_sync_floor t' = min (dt_sync_floor t) (length (dt_stack t'))"
proof -
  have "l \<noteq> 0"
    using assms(3) tracker_invD(4) [OF assms(1,2)] by (auto simp: valid_level_def)
  then show ?thesis using undo_until_loop_effect [OF assms] by (simp add: undo_until_def)
qed

lemma undo_last_inv [inv_intros]:
  "tracker_inv t \<Longrightarrow> undo_last t = Some (r, t') \<Longrightarrow> tracker_inv t'"
  by (auto simp: undo_last_eq intro!: pop_decision_inv split: if_splits)

lemma next_unpropagated_inv [inv_intros]:
  "tracker_inv t \<Longrightarrow> next_unpropagated t = Some (r, t') \<Longrightarrow> tracker_inv t'"
  by (auto simp: next_unpropagated_def tracker_inv_def assigned_value_def tracker_level_def
      split: if_splits)

lemma tracker_step_inv [inv_intros]:
  assumes "tracker_step t t'" "tracker_inv t"
  shows "tracker_inv t'"
  using assms
proof (induction rule: tracker_step.induct)
  case (undo_many d t l t')
  then show ?case using undo_until_effect by fastforce
qed (auto simp: undo_until_def tracker_inv_clear dest: try_add_decision_inv
      intro: undo_last_inv next_unpropagated_inv)

text \<open>
  \<open>sync_run t0 m t\<close>: the tracker was at \<open>t0\<close> when the floor was last taken, is at \<open>t\<close> now,
  and the trail was never shorter than \<open>m\<close> in between, and was once of length \<open>m\<close>.
\<close>

inductive sync_run :: "decision_tracker \<Rightarrow> nat \<Rightarrow> decision_tracker \<Rightarrow> bool" where
  taken: "sync_run t0 (length (dt_stack t0)) (snd (take_sync_floor t0))"
| step: "sync_run t0 m t \<Longrightarrow> tracker_step t t' \<Longrightarrow> sync_run t0 (min m (length (dt_stack t'))) t'"

text \<open>A step changes the trail only at its end and moves the floor with it.\<close>

lemma take_below_level:
  "take (length (below_level t l)) (dt_stack t) = below_level t l"
  unfolding below_level_def by (metis takeWhile_eq_take length_takeWhile_le append_eq_conv_conj takeWhile_dropWhile_id)

lemma tracker_step_prefix:
  assumes "tracker_step t t'" "tracker_inv t"
  shows "dt_sync_floor t' = min (dt_sync_floor t) (length (dt_stack t')) \<and>
    (\<forall>n \<le> length (dt_stack t'). n \<le> length (dt_stack t) \<longrightarrow>
       take n (dt_stack t') = take n (dt_stack t))"
  using assms
proof (induction rule: tracker_step.induct)
  case (add l t d b t')
  then show ?case
    using tracker_invD(6) [OF add.prems]
    by (cases rule: try_add_decision_cases [of t d l]) auto
next
  case (undo_one t r t')
  then show ?case
    by (auto simp: undo_last_eq take_butlast butlast_conv_take min_def split: if_splits)
next
  case (undo_many d t l t')
  then have t': "dt_stack t' = below_level t l"
    "dt_sync_floor t' = min (dt_sync_floor t) (length (dt_stack t'))"
    using undo_until_effect by fastforce+
  have "take n (below_level t l) = take n (dt_stack t)" if "n \<le> length (below_level t l)" for n
    using that by (metis min.absorb1 take_below_level take_take)
  with t' show ?case by simp
next
  case (undo_all t t')
  then show ?case by (auto simp: undo_until_def tracker_clear_def DecisionTracker_default_def)
next
  case (propagated t r t')
  then show ?case using tracker_invD(6) [OF propagated.prems]
    by (auto simp: next_unpropagated_def split: if_splits)
qed


lemma sync_run_inv:
  "sync_run t0 m t \<Longrightarrow> tracker_inv t0 \<Longrightarrow> tracker_inv t"
proof (induction rule: sync_run.induct)
  case (taken t0)
  then show ?case
    by (auto simp: take_sync_floor_def tracker_inv_def assigned_value_def tracker_level_def)
qed (auto intro: tracker_step_inv)

section \<open>Properties\<close>

inductive tracker_reachable :: "decision_tracker \<Rightarrow> bool" where
  start: "tracker_reachable DecisionTracker_default"
| step: "tracker_reachable t \<Longrightarrow> tracker_step t t' \<Longrightarrow> tracker_reachable t'"
| take_floor: "tracker_reachable t \<Longrightarrow> tracker_reachable (snd (take_sync_floor t))"

text \<open>Property C19. Every operation of the tracker keeps its invariant: from the default
  tracker on, the trail assigns each variable at most once, the packed map holds exactly
  the assignments of the trail, the levels never decrease along it, and the propagation
  index and the synchronisation floor stay within it.\<close>

theorem tracker_reachable_inv:
  assumes "tracker_reachable t"
  shows "tracker_inv t"
  using assms
proof (induction rule: tracker_reachable.induct)
  case (take_floor t)
  then show ?case
    by (auto simp: take_sync_floor_def tracker_inv_def assigned_value_def tracker_level_def)
qed (auto intro: tracker_step_inv tracker_inv_default)

theorem tracker_reachable_inv_witness:
  "tracker_inv (push_decision DecisionTracker_default (Decision_new 0 True 0) 1)"
proof -
  have "try_add_decision DecisionTracker_default (Decision_new 0 True 0) 1 =
      Inr (True, push_decision DecisionTracker_default (Decision_new 0 True 0) 1)"
    by (simp add: try_add_decision_eq DecisionTracker_default_def assigned_value_def)
  then have "tracker_step DecisionTracker_default
      (push_decision DecisionTracker_default (Decision_new 0 True 0) 1)"
    by (intro tracker_step.add [where l = 1])
      (simp_all add: valid_level_def level_above_def DecisionTracker_default_def)
  then show ?thesis
    by (intro tracker_reachable_inv tracker_reachable.step [OF tracker_reachable.start])
qed

text \<open>Property C17. Backtracking to a level that the trail has reached returns (it neither
  panics nor loops) and keeps exactly the assignments made at that level or below, with
  their levels and in their order; every variable assigned above is unassigned again.\<close>

theorem undo_until_restores_level:
  assumes "tracker_inv t" "d \<in> set (dt_stack t)" "tracker_level t (d_variable d) \<le> l"
  shows "\<exists>t'. undo_until l t = Some t' \<and> tracker_inv t' \<and>
      dt_stack t' = filter (\<lambda>e. tracker_level t (d_variable e) \<le> l) (dt_stack t) \<and>
      (\<forall>v. assigned_value t' v = (if tracker_level t v \<le> l then assigned_value t v else None)) \<and>
      (\<forall>v. tracker_level t' v = (if tracker_level t v \<le> l then tracker_level t v else 0))"
proof -
  have "below_level t l = filter (\<lambda>e. tracker_level t (d_variable e) \<le> l) (dt_stack t)"
    unfolding below_level_def by (rule takeWhile_eq_filter_sorted [OF tracker_invD(3) [OF assms(1)]])
  with undo_until_effect [OF assms] show ?thesis by auto
qed

definition example_tracker :: decision_tracker where
  "example_tracker =
     push_decision (push_decision (push_decision DecisionTracker_default (Decision_new 0 True 0) 1)
       (Decision_new 4 True 3) 2) (Decision_new 2 False 5) 2"

lemma example_tracker_inv: "tracker_inv example_tracker"
proof -
  have "valid_level 1" "valid_level 2" by (simp_all add: valid_level_def)
  then show ?thesis
    unfolding example_tracker_def
    by (intro push_decision_inv tracker_inv_default)
      (auto simp: level_above_def DecisionTracker_default_def assigned_value_def push_decision_def
        tracker_level_def)
qed

theorem undo_until_restores_level_witness:
  "\<exists>t'. undo_until 1 example_tracker = Some t' \<and> tracker_inv t' \<and>
     assigned_value t' 0 = Some True \<and> assigned_value t' 2 = None"
proof -
  have l: "valid_level 1" "valid_level 2" by (simp_all add: valid_level_def)
  have d: "Decision_new 0 True 0 \<in> set (dt_stack example_tracker)"
    "tracker_level example_tracker (d_variable (Decision_new 0 True 0)) \<le> 1"
    "tracker_level example_tracker 0 = 1" "tracker_level example_tracker 2 = 2"
    "assigned_value example_tracker 0 = Some True"
    using l by (simp_all add: example_tracker_def)
  from undo_until_restores_level [OF example_tracker_inv d(1,2)] d(3-5) show ?thesis by auto
qed

text \<open>Property C18. The synchronisation floor is exact. However the tracker is used between two
  calls of \<open>take_sync_floor\<close>, the second returns the smallest length the trail had in
  between, and the trail up to that length is the one the first call saw: a consumer
  that re-reads both snapshots from the floor on misses no change.\<close>

theorem sync_floor_exact:
  assumes "tracker_inv t0" "sync_run t0 m t"
  shows "fst (take_sync_floor t) = m \<and> m \<le> length (dt_stack t0) \<and> m \<le> length (dt_stack t) \<and>
    take m (dt_stack t) = take m (dt_stack t0)"
  using assms(2,1)
proof (induction rule: sync_run.induct)
  case (taken t0)
  then show ?case by (simp add: take_sync_floor_def)
next
  case (step t0 m t t')
  from step have IH: "dt_sync_floor t = m" "m \<le> length (dt_stack t0)" "m \<le> length (dt_stack t)"
    "take m (dt_stack t) = take m (dt_stack t0)"
    by (auto simp: take_sync_floor_def)
  let ?m = "min m (length (dt_stack t'))"
  from tracker_step_prefix [OF step.hyps(2) sync_run_inv [OF step.hyps(1) step.prems]] IH
  have "dt_sync_floor t' = ?m" "take ?m (dt_stack t') = take ?m (dt_stack t)" by auto
  moreover have "take ?m (dt_stack t) = take ?m (dt_stack t0)"
    using arg_cong [OF IH(4), of "take ?m"] by (simp add: min.commute)
  ultimately show ?case using IH(2) by (auto simp: take_sync_floor_def)
qed

theorem sync_floor_exact_witness:
  "fst (take_sync_floor (pop_decision (snd (take_sync_floor example_tracker)))) = 2"
proof -
  let ?t = "snd (take_sync_floor example_tracker)"
  have "undo_last ?t = Some ((last (dt_stack ?t),
      tracker_level (pop_decision ?t) (d_variable (last (butlast (dt_stack ?t))))), pop_decision ?t)"
    by (simp add: undo_last_eq take_sync_floor_def example_tracker_def DecisionTracker_default_def)
  then have "sync_run example_tracker (min (length (dt_stack example_tracker))
      (length (dt_stack (pop_decision ?t)))) (pop_decision ?t)"
    by (rule sync_run.step [OF sync_run.taken tracker_step.undo_one])
  from sync_floor_exact [OF example_tracker_inv this] show ?thesis
    by (simp add: take_sync_floor_def example_tracker_def DecisionTracker_default_def)
qed

end
