(* ===== verification/Chunk_Mapping.thy ===== *)
theory Chunk_Mapping
  imports Prelude
begin

text \<open>
  The chunked, index-addressed map of \<open>src/utils/mapping.rs\<close>: a vector of chunks of 128
  optional values, a count of the stored values and the largest index ever inserted. The
  locale \<open>dense_map\<close> is the contract the solver's tables rely on (it behaves as a partial
  map); \<open>Mapping\<close> provides it. Its iterator and its serialised form are modelled too.
\<close>

section \<open>The interface\<close>

locale insert_map =
  fixes inv :: "'m \<Rightarrow> bool"
    and empty :: 'm
    and lookup :: "'m \<Rightarrow> 'k \<Rightarrow> 'v option"
    and put :: "'m \<Rightarrow> 'k \<Rightarrow> 'v \<Rightarrow> 'v option \<times> 'm"
  assumes inv_empty: "inv empty"
    and lookup_empty: "lookup empty k = None"
    and inv_put: "inv m \<Longrightarrow> inv (snd (put m k v))"
    and put_old: "inv m \<Longrightarrow> fst (put m k v) = lookup m k"
    and lookup_put: "inv m \<Longrightarrow> lookup (snd (put m k v)) = (lookup m)(k \<mapsto> v)"
begin

lemma put_all:
  "inv m \<Longrightarrow>
    inv (foldl (\<lambda>m (k, v). snd (put m k v)) m kvs) \<and>
    lookup (foldl (\<lambda>m (k, v). snd (put m k v)) m kvs) = lookup m ++ map_of (rev kvs)"
proof (induction kvs arbitrary: m)
  case (Cons kv kvs)
  obtain k v where "kv = (k, v)" by (cases kv)
  with Cons show ?case
    by (auto simp: inv_put lookup_put map_add_def fun_eq_iff split: option.split)
qed simp

end

locale dense_map = insert_map +
  fixes remove :: "'a \<Rightarrow> 'b \<Rightarrow> 'c option \<times> 'a"
    and count :: "'a \<Rightarrow> nat"
  assumes inv_remove: "inv m \<Longrightarrow> inv (snd (remove m k))"
    and remove_old: "inv m \<Longrightarrow> fst (remove m k) = lookup m k"
    and lookup_remove: "inv m \<Longrightarrow> lookup (snd (remove m k)) = (lookup m)(k := None)"
    and count_lookup: "inv m \<Longrightarrow> finite (dom (lookup m)) \<and> count m = card (dom (lookup m))"
begin

lemma count_put:
  "inv m \<Longrightarrow> count (snd (put m k v)) = (if lookup m k = None then Suc (count m) else count m)"
  using count_lookup [of m] count_lookup [OF inv_put [of m k v]]
  by (auto simp: lookup_put card_insert_if domIff)

lemma put_remove:
  "inv m \<Longrightarrow> lookup m k = None \<Longrightarrow> lookup (snd (remove (snd (put m k v)) k)) = lookup m"
  by (auto simp: lookup_remove inv_put lookup_put)

end

section \<open>The chunked table\<close>

definition VALUES_PER_CHUNK :: nat where
  "VALUES_PER_CHUNK = 128"

record 'v mapping =
  mp_chunks :: "'v option list list"
  mp_len :: nat
  mp_max :: nat

text \<open>\<open>std::array::from_fn(|_| None)\<close>: a fresh chunk.\<close>

definition empty_chunk :: "'v option list" where
  "empty_chunk = replicate VALUES_PER_CHUNK None"

definition Mapping_with_capacity :: "nat \<Rightarrow> 'v mapping" where
  "Mapping_with_capacity n =
     (let n' = max 1 n;
          n_chunks = (n' - 1) div VALUES_PER_CHUNK + 1
      in \<lparr>mp_chunks = vec_resize n_chunks empty_chunk [], mp_len = 0, mp_max = 0\<rparr>)"

definition Mapping_new :: "'v mapping" where
  "Mapping_new = Mapping_with_capacity 1"

definition Mapping_capacity :: "'v mapping \<Rightarrow> nat" where
  "Mapping_capacity m = length (mp_chunks m) * VALUES_PER_CHUNK"

definition chunk_and_offset :: "nat \<Rightarrow> nat \<times> nat" where
  "chunk_and_offset i = (i div VALUES_PER_CHUNK, i mod VALUES_PER_CHUNK)"

text \<open>The slot \<open>self.chunks[chunk][offset]\<close>, and an assignment to it.\<close>

definition slot :: "'v mapping \<Rightarrow> nat \<Rightarrow> 'v option" where
  "slot m i = (case chunk_and_offset i of (c, k) \<Rightarrow> mp_chunks m ! c ! k)"

definition set_slot :: "'v mapping \<Rightarrow> nat \<Rightarrow> 'v option \<Rightarrow> 'v mapping" where
  "set_slot m i x = (case chunk_and_offset i of (c, k) \<Rightarrow>
     m\<lparr>mp_chunks := (mp_chunks m)[c := (mp_chunks m ! c)[k := x]]\<rparr>)"

definition Mapping_grow :: "'v mapping \<Rightarrow> nat \<Rightarrow> 'v mapping" where
  "Mapping_grow m i = (case chunk_and_offset i of (c, _) \<Rightarrow>
     if c \<ge> length (mp_chunks m) then m\<lparr>mp_chunks := vec_resize (c + 1) empty_chunk (mp_chunks m)\<rparr>
     else m)"

definition Mapping_insert :: "'v mapping \<Rightarrow> nat \<Rightarrow> 'v \<Rightarrow> 'v option \<times> 'v mapping" where
  "Mapping_insert m i v =
     (let m1 = Mapping_grow m i;
          previous_value = slot m1 i;
          m2 = set_slot m1 i (Some v);
          m3 = (if previous_value = None then m2\<lparr>mp_len := mp_len m2 + 1\<rparr> else m2)
      in (previous_value, m3\<lparr>mp_max := max (mp_max m3) i\<rparr>))"

text \<open>The value behind the returned reference, and the table.\<close>

definition Mapping_get_or_insert_with :: "'v mapping \<Rightarrow> nat \<Rightarrow> 'v \<Rightarrow> 'v option \<times> 'v mapping" where
  "Mapping_get_or_insert_with m i d =
     (let m1 = Mapping_grow m i;
          m2 = (if slot m1 i = None
                then (set_slot m1 i (Some d))\<lparr>mp_len := mp_len m1 + 1, mp_max := max (mp_max m1) i\<rparr>
                else m1)
      in (slot m2 i, m2))"

definition Mapping_unset :: "'v mapping \<Rightarrow> nat \<Rightarrow> 'v option \<times> 'v mapping" where
  "Mapping_unset m i = (case chunk_and_offset i of (c, _) \<Rightarrow>
     if c \<ge> length (mp_chunks m) then (None, m)
     else let previous_value = slot m i;
              m1 = set_slot m i None
          in (previous_value,
              if previous_value \<noteq> None then m1\<lparr>mp_len := mp_len m1 - 1\<rparr> else m1))"

definition Mapping_get :: "'v mapping \<Rightarrow> nat \<Rightarrow> 'v option" where
  "Mapping_get m i = (case chunk_and_offset i of (c, _) \<Rightarrow>
     if c \<ge> length (mp_chunks m) then None else slot m i)"

text \<open>\<open>get_mut\<close>, as the write that is made through the returned reference.\<close>

definition Mapping_get_mut :: "'v mapping \<Rightarrow> nat \<Rightarrow> ('v \<Rightarrow> 'v) \<Rightarrow> 'v mapping" where
  "Mapping_get_mut m i f = (case chunk_and_offset i of (c, _) \<Rightarrow>
     if c \<ge> length (mp_chunks m) then m
     else case slot m i of None \<Rightarrow> m | Some v \<Rightarrow> set_slot m i (Some (f v)))"

text \<open>\<open>get_unchecked\<close>: out of bounds it is undefined, on an empty slot \<open>unwrap\<close> panics.\<close>

definition Mapping_get_unchecked :: "'v mapping \<Rightarrow> nat \<Rightarrow> 'v option" where
  "Mapping_get_unchecked m i = (case chunk_and_offset i of (c, k) \<Rightarrow>
     Option.bind (slice_get (mp_chunks m) c) (\<lambda>ch. Option.bind (slice_get ch k) (\<lambda>x. x)))"

definition Mapping_length :: "'v mapping \<Rightarrow> nat" where
  "Mapping_length m = mp_len m"

definition Mapping_is_empty :: "'v mapping \<Rightarrow> bool" where
  "Mapping_is_empty m = (mp_len m = 0)"

definition Mapping_max :: "'v mapping \<Rightarrow> nat" where
  "Mapping_max m = mp_max m"

definition Mapping_slots :: "'v mapping \<Rightarrow> nat" where
  "Mapping_slots m = length (mp_chunks m) * VALUES_PER_CHUNK"

section \<open>The iterator\<close>

text \<open>\<open>MappingIter::next\<close> from an offset: the item, if any, and the new offset.\<close>

function MappingIter_next :: "'v mapping \<Rightarrow> nat \<Rightarrow> (nat \<times> 'v) option \<times> nat" where
  "MappingIter_next m offset =
     (if offset \<ge> mp_len m then (None, offset)
      else case slot m offset of
        Some v \<Rightarrow> (Some (offset, v), offset + 1)
      | None \<Rightarrow> MappingIter_next m (offset + 1))"
  by pat_completeness auto
termination by (relation "measure (\<lambda>(m, offset). mp_len m - offset)") auto

declare MappingIter_next.simps [simp del]

lemma MappingIter_next_progress:
  "MappingIter_next m i = (Some x, j) \<Longrightarrow> i < j \<and> j \<le> mp_len m"
proof (induction m i rule: MappingIter_next.induct)
  case (1 m i)
  then show ?case
    by (subst (asm) (2) MappingIter_next.simps) (fastforce split: if_splits option.splits)
qed

text \<open>All the items \<open>iter()\<close> yields, from an offset on.\<close>

function Mapping_iter_from :: "'v mapping \<Rightarrow> nat \<Rightarrow> (nat \<times> 'v) list" where
  "Mapping_iter_from m offset = (case MappingIter_next m offset of
     (None, _) \<Rightarrow> []
   | (Some x, offset') \<Rightarrow> x # Mapping_iter_from m offset')"
  by pat_completeness auto
termination
  by (relation "measure (\<lambda>(m, offset). mp_len m - offset)")
    (auto dest!: sym [of _ "MappingIter_next _ _"] MappingIter_next_progress)

declare Mapping_iter_from.simps [simp del]

definition Mapping_iter :: "'v mapping \<Rightarrow> (nat \<times> 'v) list" where
  "Mapping_iter m = Mapping_iter_from m 0"

section \<open>Serialisation\<close>

definition Mapping_serialize :: "'v mapping \<Rightarrow> 'v option list" where
  "Mapping_serialize m = take (Mapping_max m + 1) (concat (mp_chunks m))"

definition Mapping_deserialize :: "'v option list \<Rightarrow> 'v mapping" where
  "Mapping_deserialize values =
     foldl (\<lambda>m (i, value). case value of None \<Rightarrow> m | Some v \<Rightarrow> snd (Mapping_insert m i v))
       (Mapping_with_capacity (length values)) (enumerate 0 values)"

section \<open>The invariant\<close>

definition mapping_inv :: "'v mapping \<Rightarrow> bool" where
  "mapping_inv m \<longleftrightarrow>
     (\<forall>c \<in> set (mp_chunks m). length c = VALUES_PER_CHUNK) \<and>
     (\<forall>i. Mapping_get m i \<noteq> None \<longrightarrow> i \<le> mp_max m) \<and>
     mp_max m < Mapping_capacity m \<and>
     mp_len m = card (dom (Mapping_get m))"

lemma values_per_chunk_pos [simp]: "0 < VALUES_PER_CHUNK"
  by (simp add: VALUES_PER_CHUNK_def)

lemma length_empty_chunk [simp]: "length empty_chunk = VALUES_PER_CHUNK"
  by (simp add: empty_chunk_def)

lemma chunk_bound:
  "i div VALUES_PER_CHUNK < length cs \<longleftrightarrow> i < length cs * VALUES_PER_CHUNK"
  by (simp add: div_less_iff_less_mult)

lemma chunk_missing:
  "length (mp_chunks m) \<le> i div VALUES_PER_CHUNK \<longleftrightarrow> Mapping_capacity m \<le> i"
  by (simp add: Mapping_capacity_def chunk_bound flip: not_less)

lemma Mapping_get_slot: "Mapping_get m i = (if i < Mapping_capacity m then slot m i else None)"
  by (auto simp: Mapping_get_def chunk_and_offset_def Mapping_capacity_def simp flip: chunk_bound)

lemma slot_set_slot:
  assumes "\<forall>c \<in> set (mp_chunks m). length c = VALUES_PER_CHUNK" "i < Mapping_capacity m"
  shows "slot (set_slot m i x) j = (if j = i then x else slot m j)"
proof -
  have "i div VALUES_PER_CHUNK < length (mp_chunks m)"
    using assms(2) by (simp add: Mapping_capacity_def chunk_bound)
  moreover have "j = i" if "i div VALUES_PER_CHUNK = j div VALUES_PER_CHUNK"
    "i mod VALUES_PER_CHUNK = j mod VALUES_PER_CHUNK"
    using that by (metis div_mult_mod_eq)
  ultimately show ?thesis
    using assms(1) by (auto simp: slot_def set_slot_def chunk_and_offset_def nth_list_update)
qed

lemma set_slot_frame [simp]:
  "mp_len (set_slot m i x) = mp_len m" "mp_max (set_slot m i x) = mp_max m"
  "Mapping_capacity (set_slot m i x) = Mapping_capacity m"
  by (simp_all add: set_slot_def chunk_and_offset_def Mapping_capacity_def)

lemma set_slot_chunks:
  "\<forall>c \<in> set (mp_chunks m). length c = VALUES_PER_CHUNK \<Longrightarrow>
    c \<in> set (mp_chunks (set_slot m i x)) \<Longrightarrow> length c = VALUES_PER_CHUNK"
proof -
  assume *: "\<forall>c \<in> set (mp_chunks m). length c = VALUES_PER_CHUNK"
    and c: "c \<in> set (mp_chunks (set_slot m i x))"
  let ?k = "i div VALUES_PER_CHUNK"
  show ?thesis
  proof (cases "?k < length (mp_chunks m)")
    case True
    with c have "c \<in> insert ((mp_chunks m ! ?k)[i mod VALUES_PER_CHUNK := x]) (set (mp_chunks m))"
      using set_update_subset_insert by (fastforce simp: set_slot_def chunk_and_offset_def)
    with * True show ?thesis by auto
  next
    case False
    then have "mp_chunks (set_slot m i x) = mp_chunks m"
      by (simp add: set_slot_def chunk_and_offset_def list_update_beyond)
    with c * show ?thesis by simp
  qed
qed

lemma Mapping_get_update [simp]:
  "Mapping_get (m\<lparr>mp_len := n\<rparr>) i = Mapping_get m i" "Mapping_get (m\<lparr>mp_max := n\<rparr>) i = Mapping_get m i"
  "slot (m\<lparr>mp_len := n\<rparr>) i = slot m i" "slot (m\<lparr>mp_max := n\<rparr>) i = slot m i"
  "Mapping_capacity (m\<lparr>mp_len := n\<rparr>) = Mapping_capacity m"
  "Mapping_capacity (m\<lparr>mp_max := n\<rparr>) = Mapping_capacity m"
  by (simp_all add: Mapping_get_slot slot_def Mapping_capacity_def)

lemma Mapping_get_set_slot:
  "\<forall>c \<in> set (mp_chunks m). length c = VALUES_PER_CHUNK \<Longrightarrow> i < Mapping_capacity m \<Longrightarrow>
    Mapping_get (set_slot m i x) j = (if j = i then x else Mapping_get m j)"
  by (simp add: Mapping_get_slot slot_set_slot)

lemma Mapping_grow_facts:
  "mp_len (Mapping_grow m i) = mp_len m" "mp_max (Mapping_grow m i) = mp_max m"
  "i < Mapping_capacity (Mapping_grow m i)" "Mapping_capacity m \<le> Mapping_capacity (Mapping_grow m i)"
  "\<forall>c \<in> set (mp_chunks m). length c = VALUES_PER_CHUNK \<Longrightarrow>
   \<forall>c \<in> set (mp_chunks (Mapping_grow m i)). length c = VALUES_PER_CHUNK"
  by (auto simp: Mapping_grow_def chunk_and_offset_def Mapping_capacity_def vec_resize_def
      in_set_replicate mult_le_mono1 dest: in_set_takeD simp flip: chunk_bound)

lemma Mapping_get_grow [simp]: "Mapping_get (Mapping_grow m i) j = Mapping_get m j"
proof (cases "length (mp_chunks m) \<le> i div VALUES_PER_CHUNK")
  case True
  let ?k = "j div VALUES_PER_CHUNK"
  have "vec_resize (i div VALUES_PER_CHUNK + 1) empty_chunk (mp_chunks m) ! ?k !
      (j mod VALUES_PER_CHUNK) = None"
    if "length (mp_chunks m) \<le> ?k" "?k < i div VALUES_PER_CHUNK + 1"
    using that by (simp add: nth_vec_resize empty_chunk_def)
  with True show ?thesis
    by (auto simp: Mapping_get_def Mapping_grow_def chunk_and_offset_def slot_def nth_vec_resize
        del: Suc_eq_plus1)
qed (simp add: Mapping_grow_def chunk_and_offset_def)

lemma slot_grow: "slot (Mapping_grow m i) i = Mapping_get m i"
  using Mapping_get_slot [of "Mapping_grow m i" i] Mapping_grow_facts(3) [of i m] by simp

lemma finite_dom_get: "finite (dom (Mapping_get m))"
  by (rule finite_subset [of _ "{..<Mapping_capacity m}"]) (auto simp: Mapping_get_slot split: if_splits)

lemma mapping_invD [inv_dests]:
  assumes "mapping_inv m"
  shows "\<forall>c \<in> set (mp_chunks m). length c = VALUES_PER_CHUNK"
    "Mapping_get m i \<noteq> None \<Longrightarrow> i \<le> mp_max m"
    "mp_max m < Mapping_capacity m" "mp_len m = card (dom (Mapping_get m))"
  using assms by (auto simp: mapping_inv_def)

section \<open>What the operations do\<close>

lemma Mapping_insert_get:
  assumes "mapping_inv m"
  shows "fst (Mapping_insert m i v) = Mapping_get m i"
    "Mapping_get (snd (Mapping_insert m i v)) = (Mapping_get m)(i \<mapsto> v)"
proof -
  note g = Mapping_grow_facts [where m = m and i = i] mapping_invD(1) [OF assms]
  show "fst (Mapping_insert m i v) = Mapping_get m i"
    by (simp add: Mapping_insert_def Let_def slot_grow)
  show "Mapping_get (snd (Mapping_insert m i v)) = (Mapping_get m)(i \<mapsto> v)"
    using g by (auto simp: Mapping_insert_def Let_def fun_eq_iff Mapping_get_set_slot)
qed

lemma Mapping_insert_frame:
  "mp_chunks (snd (Mapping_insert m i v)) = mp_chunks (set_slot (Mapping_grow m i) i (Some v))"
  "mp_max (snd (Mapping_insert m i v)) = max (mp_max m) i"
  "mp_len (snd (Mapping_insert m i v)) =
     (if Mapping_get m i = None then Suc (mp_len m) else mp_len m)"
  "Mapping_capacity (snd (Mapping_insert m i v)) = Mapping_capacity (Mapping_grow m i)"
  by (simp_all add: Mapping_insert_def Let_def slot_grow Mapping_grow_facts Mapping_capacity_def
      set_slot_def chunk_and_offset_def)

lemma Mapping_insert_inv [inv_intros]:
  assumes "mapping_inv m"
  shows "mapping_inv (snd (Mapping_insert m i v))"
proof -
  note g = Mapping_grow_facts [where m = m and i = i]
  note d = mapping_invD [OF assms]
  have "card (dom ((Mapping_get m)(i \<mapsto> v))) =
      (if Mapping_get m i = None then Suc (mp_len m) else mp_len m)"
    using d(4) finite_dom_get [of m] by (auto simp: card_insert_if domIff)
  then show ?thesis
    using d g set_slot_chunks [OF g(5) [OF d(1)]]
    unfolding mapping_inv_def Mapping_insert_get(2) [OF assms] Mapping_insert_frame
    by (auto simp: max_def dest: le_less_trans intro: le_trans)
qed

lemma Mapping_unset_get:
  assumes "mapping_inv m"
  shows "fst (Mapping_unset m i) = Mapping_get m i"
    "Mapping_get (snd (Mapping_unset m i)) = (Mapping_get m)(i := None)"
  using mapping_invD(1) [OF assms]
  by (auto simp: Mapping_unset_def chunk_and_offset_def Let_def Mapping_get_slot chunk_missing
      slot_set_slot fun_eq_iff)

lemma Mapping_unset_inv [inv_intros]:
  assumes "mapping_inv m"
  shows "mapping_inv (snd (Mapping_unset m i))"
proof -
  note d = mapping_invD [OF assms]
  have len: "mp_len (snd (Mapping_unset m i)) =
      (if Mapping_get m i = None then mp_len m else mp_len m - 1)"
    by (auto simp: Mapping_unset_def chunk_and_offset_def Let_def Mapping_get_def)
  have "card (dom ((Mapping_get m)(i := None))) =
      (if Mapping_get m i = None then mp_len m else mp_len m - 1)"
    using d(4) finite_dom_get [of m] by (auto simp: card_Diff_singleton_if)
  moreover have "mp_max (snd (Mapping_unset m i)) = mp_max m"
    "Mapping_capacity (snd (Mapping_unset m i)) = Mapping_capacity m"
    by (auto simp: Mapping_unset_def chunk_and_offset_def Let_def)
  moreover have "\<forall>c \<in> set (mp_chunks (snd (Mapping_unset m i))). length c = VALUES_PER_CHUNK"
    using d(1) set_slot_chunks [OF d(1)]
    by (auto simp: Mapping_unset_def chunk_and_offset_def Let_def)
  ultimately show ?thesis
    using d(2,3) unfolding mapping_inv_def Mapping_unset_get(2) [OF assms] len by auto
qed

lemma Mapping_with_capacity_get [simp]: "Mapping_get (Mapping_with_capacity n) i = None"
  by (auto simp: Mapping_get_def Mapping_with_capacity_def Let_def chunk_and_offset_def slot_def
      vec_resize_def empty_chunk_def simp del: replicate_Suc simp flip: Suc_eq_plus1)

lemma Mapping_with_capacity_map: "Mapping_get (Mapping_with_capacity n) = Map.empty"
  by (simp add: fun_eq_iff)

lemma Mapping_with_capacity_inv [inv_intros]: "mapping_inv (Mapping_with_capacity n)"
proof -
  let ?m = "Mapping_with_capacity n :: 'a mapping"
  have "card (dom (Mapping_get ?m)) = 0" by (simp add: dom_def)
  moreover have "\<forall>c \<in> set (mp_chunks ?m). length c = VALUES_PER_CHUNK"
    "mp_max ?m < Mapping_capacity ?m" "mp_len ?m = 0"
    by (auto simp: Mapping_with_capacity_def Mapping_capacity_def vec_resize_def Let_def)
  ultimately show ?thesis unfolding mapping_inv_def by simp
qed

interpretation chunk_map: dense_map mapping_inv Mapping_new Mapping_get Mapping_insert Mapping_unset
  Mapping_length
  by unfold_locales
    (simp_all add: Mapping_new_def Mapping_with_capacity_inv Mapping_insert_inv Mapping_insert_get
      Mapping_unset_inv Mapping_unset_get finite_dom_get Mapping_length_def mapping_invD(4))

lemma Mapping_get_or_insert_with_eq:
  assumes "mapping_inv m"
  shows "Mapping_get_or_insert_with m i d =
    (case Mapping_get m i of
       None \<Rightarrow> (Some d, snd (Mapping_insert m i d)) | Some v \<Rightarrow> (Some v, Mapping_grow m i))"
proof (cases "Mapping_get m i")
  case None
  have "Mapping_get (snd (Mapping_insert m i d)) i = Some d"
    by (simp add: Mapping_insert_get(2) [OF assms])
  then have "slot (set_slot (Mapping_grow m i) i (Some d)) i = Some d"
    using Mapping_grow_facts [where m = m and i = i] mapping_invD(1) [OF assms] by (simp add: slot_set_slot)
  with None show ?thesis
    by (simp add: Mapping_get_or_insert_with_def Mapping_insert_def Let_def slot_grow
        Mapping_grow_facts)
qed (simp add: Mapping_get_or_insert_with_def Let_def slot_grow)

lemma Mapping_grow_inv [inv_intros]:
  assumes "mapping_inv m"
  shows "mapping_inv (Mapping_grow m i)"
proof -
  note d = mapping_invD [OF assms]
  note g = Mapping_grow_facts [where m = m and i = i]
  have "Mapping_get (Mapping_grow m i) = Mapping_get m" by (simp add: fun_eq_iff)
  then show ?thesis
    unfolding mapping_inv_def using g(1,2) g(5) [OF d(1)] d less_le_trans [OF d(3) g(4)] by simp
qed

lemma Mapping_get_mut_get:
  assumes "mapping_inv m"
  shows "Mapping_get (Mapping_get_mut m i f) = (Mapping_get m)(i := map_option f (Mapping_get m i))"
  using mapping_invD(1) [OF assms]
  by (auto simp: Mapping_get_mut_def chunk_and_offset_def Mapping_get_slot chunk_missing
      slot_set_slot fun_eq_iff split: option.split)

lemma Mapping_get_mut_inv [inv_intros]:
  assumes "mapping_inv m"
  shows "mapping_inv (Mapping_get_mut m i f)"
proof -
  note d = mapping_invD [OF assms]
  have "dom (Mapping_get (Mapping_get_mut m i f)) = dom (Mapping_get m)"
    unfolding Mapping_get_mut_get [OF assms] by (auto split: if_splits)
  moreover have "mp_max (Mapping_get_mut m i f) = mp_max m"
    "Mapping_capacity (Mapping_get_mut m i f) = Mapping_capacity m"
    "mp_len (Mapping_get_mut m i f) = mp_len m"
    by (auto simp: Mapping_get_mut_def chunk_and_offset_def split: option.split)
  moreover have "\<forall>c \<in> set (mp_chunks (Mapping_get_mut m i f)). length c = VALUES_PER_CHUNK"
    using d(1) set_slot_chunks [OF d(1)]
    by (auto simp: Mapping_get_mut_def chunk_and_offset_def split: option.split)
  ultimately show ?thesis using d(2-4) unfolding mapping_inv_def by (auto simp: domIff)
qed

section \<open>The flat view\<close>

lemma length_concat_chunks:
  "\<forall>c \<in> set cs. length c = n \<Longrightarrow> length (concat cs) = length cs * n"
  by (induction cs) auto

lemma nth_concat_chunks:
  "0 < n \<Longrightarrow> \<forall>c \<in> set cs. length c = n \<Longrightarrow> i < length cs * n \<Longrightarrow>
    concat cs ! i = cs ! (i div n) ! (i mod n)"
proof (induction cs arbitrary: i)
  case (Cons c cs)
  show ?case
  proof (cases "i < n")
    case False
    then have "i div n = Suc ((i - n) div n)" "i mod n = (i - n) mod n"
      using Cons.prems(1) by (simp_all add: le_div_geq le_mod_geq not_less)
    with False Cons show ?thesis by (simp add: nth_append)
  qed (use Cons.prems in \<open>simp add: nth_append\<close>)
qed simp

lemma Mapping_serialize_nth:
  assumes "mapping_inv m"
  shows "length (Mapping_serialize m) = mp_max m + 1"
    "i \<le> mp_max m \<Longrightarrow> Mapping_serialize m ! i = Mapping_get m i"
proof -
  note d = mapping_invD [OF assms]
  have len: "length (concat (mp_chunks m)) = Mapping_capacity m"
    using length_concat_chunks [OF d(1)] by (simp add: Mapping_capacity_def)
  then show "length (Mapping_serialize m) = mp_max m + 1"
    using d(3) by (simp add: Mapping_serialize_def Mapping_max_def)
  assume "i \<le> mp_max m"
  with d(3) have "i < Mapping_capacity m" by simp
  with nth_concat_chunks [OF values_per_chunk_pos d(1)] \<open>i \<le> mp_max m\<close>
  show "Mapping_serialize m ! i = Mapping_get m i"
    by (simp add: Mapping_serialize_def Mapping_max_def Mapping_get_slot slot_def
        chunk_and_offset_def Mapping_capacity_def)
qed

lemma deserialize_fold:
  assumes "mapping_inv m"
  shows "Mapping_get (foldl (\<lambda>m (i, value). case value of None \<Rightarrow> m | Some v \<Rightarrow> snd (Mapping_insert m i v))
      m (enumerate k vs)) =
    (\<lambda>i. if k \<le> i \<and> i < k + length vs \<and> vs ! (i - k) \<noteq> None
         then vs ! (i - k) else Mapping_get m i) \<and>
    mapping_inv (foldl (\<lambda>m (i, value). case value of None \<Rightarrow> m | Some v \<Rightarrow> snd (Mapping_insert m i v))
      m (enumerate k vs))"
  using assms
proof (induction vs arbitrary: m k)
  case (Cons x xs)
  define m' where "m' = (case x of None \<Rightarrow> m | Some v \<Rightarrow> snd (Mapping_insert m k v))"
  have inv: "mapping_inv m'"
    using Cons.prems by (auto simp: m'_def Mapping_insert_inv split: option.split)
  have get: "Mapping_get m' i = (if i = k \<and> x \<noteq> None then x else Mapping_get m i)" for i
    using Cons.prems by (auto simp: m'_def Mapping_insert_get split: option.split)
  have nth: "(x # xs) ! (i - k) = (if i = k then x else xs ! (i - Suc k))" if "k \<le> i" for i
    using that by (auto simp: nth_Cons' dest: le_neq_implies_less)
  from Cons.IH [OF inv, of "Suc k"] show ?case
    by (auto simp: fun_eq_iff get nth m'_def [symmetric] not_less_eq_eq)
qed (auto simp: fun_eq_iff)

section \<open>Properties\<close>

datatype 'v mapping_op =
    MInsert nat 'v | MUnset nat | MGet nat | MGetOrInsert nat 'v | MGetMut nat "'v \<Rightarrow> 'v"

fun mapping_exec :: "'v mapping_op \<Rightarrow> 'v mapping \<Rightarrow> 'v option \<times> 'v mapping" where
  "mapping_exec (MInsert i v) m = Mapping_insert m i v"
| "mapping_exec (MUnset i) m = Mapping_unset m i"
| "mapping_exec (MGet i) m = (Mapping_get m i, m)"
| "mapping_exec (MGetOrInsert i v) m = Mapping_get_or_insert_with m i v"
| "mapping_exec (MGetMut i f) m = (Mapping_get m i, Mapping_get_mut m i f)"

text \<open>The specification: the same operations on a partial map.\<close>

fun map_exec :: "'v mapping_op \<Rightarrow> (nat \<rightharpoonup> 'v) \<Rightarrow> 'v option \<times> (nat \<rightharpoonup> 'v)" where
  "map_exec (MInsert i v) f = (f i, f(i \<mapsto> v))"
| "map_exec (MUnset i) f = (f i, f(i := None))"
| "map_exec (MGet i) f = (f i, f)"
| "map_exec (MGetOrInsert i v) f = (case f i of None \<Rightarrow> (Some v, f(i \<mapsto> v)) | Some w \<Rightarrow> (Some w, f))"
| "map_exec (MGetMut i g) f = (f i, f(i := map_option g (f i)))"

lemma mapping_exec_refines:
  assumes "mapping_inv m"
  shows "fst (mapping_exec op m) = fst (map_exec op (Mapping_get m)) \<and>
    Mapping_get (snd (mapping_exec op m)) = snd (map_exec op (Mapping_get m)) \<and>
    mapping_inv (snd (mapping_exec op m))"
  using assms
  by (cases op)
    (auto simp: Mapping_insert_get Mapping_insert_inv Mapping_unset_get Mapping_unset_inv
      Mapping_get_or_insert_with_eq Mapping_grow_inv Mapping_get_mut_get Mapping_get_mut_inv
      fun_eq_iff split: option.split)

lemma mapping_run_refines:
  "mapping_inv m \<Longrightarrow>
    fst (run_ops mapping_exec ops m) = fst (run_ops map_exec ops (Mapping_get m)) \<and>
    Mapping_get (snd (run_ops mapping_exec ops m)) = snd (run_ops map_exec ops (Mapping_get m)) \<and>
    mapping_inv (snd (run_ops mapping_exec ops m))"
  using run_ops_refines [of mapping_inv mapping_exec map_exec Mapping_get, OF mapping_exec_refines] .

text \<open>Property C22. The chunked \<open>Mapping\<close> refines a partial map: for every sequence of inserts,
  unsets, lookups, \<open>get_or_insert_with\<close> and writes through \<open>get_mut\<close> on a mapping made with
  any initial capacity, each call returns what it returns on a partial function, the lookups
  afterwards agree with it, and \<open>len\<close> is the number of keys that are set.\<close>

theorem mapping_refines_partial_map:
  "fst (run_ops mapping_exec ops (Mapping_with_capacity n)) = fst (run_ops map_exec ops Map.empty) \<and>
   Mapping_get (snd (run_ops mapping_exec ops (Mapping_with_capacity n))) =
     snd (run_ops map_exec ops Map.empty) \<and>
   Mapping_length (snd (run_ops mapping_exec ops (Mapping_with_capacity n))) =
     card (dom (snd (run_ops map_exec ops Map.empty)))"
proof -
  note r = mapping_run_refines [OF Mapping_with_capacity_inv, of ops n,
    unfolded Mapping_with_capacity_map]
  have "mapping_inv (snd (run_ops mapping_exec ops (Mapping_with_capacity n)))" using r by blast
  from mapping_invD(4) [OF this] show ?thesis using r by (simp add: Mapping_length_def)
qed

text \<open>Property C24. Serialising a mapping and reading it back gives a mapping with the same
  entries and the same length: the trailing slots that \<open>take(max + 1)\<close> drops are empty, and
  the gaps in between survive as nulls.\<close>

theorem mapping_serde_roundtrip:
  assumes "mapping_inv m"
  shows "mapping_inv (Mapping_deserialize (Mapping_serialize m)) \<and>
    Mapping_get (Mapping_deserialize (Mapping_serialize m)) = Mapping_get m \<and>
    Mapping_length (Mapping_deserialize (Mapping_serialize m)) = Mapping_length m"
proof -
  let ?m = "Mapping_deserialize (Mapping_serialize m)"
  note s = Mapping_serialize_nth [OF assms]
  have get: "Mapping_get ?m i = Mapping_get m i" for i
    using deserialize_fold [OF Mapping_with_capacity_inv, of "length (Mapping_serialize m)" 0
        "Mapping_serialize m"] s(1) s(2) [of i] mapping_invD(2) [OF assms, of i]
    by (cases "Mapping_get m i") (auto simp: Mapping_deserialize_def less_Suc_eq_le)
  have inv: "mapping_inv ?m"
    using deserialize_fold [OF Mapping_with_capacity_inv, of "length (Mapping_serialize m)" 0
        "Mapping_serialize m"] by (simp add: Mapping_deserialize_def)
  have "Mapping_get ?m = Mapping_get m" using get by (simp add: fun_eq_iff)
  with inv show ?thesis
    using mapping_invD(4) [OF assms] mapping_invD(4) [OF inv] by (simp add: Mapping_length_def)
qed

lemma MappingIter_next_eq:
  "MappingIter_next m i = (case filter (\<lambda>j. slot m j \<noteq> None) [i..<mp_len m] of
      [] \<Rightarrow> (None, max i (mp_len m)) | j # _ \<Rightarrow> (Some (j, the (slot m j)), j + 1))"
proof (induction m i rule: MappingIter_next.induct)
  case (1 m i)
  then show ?case
    by (subst MappingIter_next.simps)
      (auto simp: upt_conv_Cons split: option.split list.split)
qed

lemma filter_upt_Cons:
  "filter P [i..<n] = j # js \<Longrightarrow> js = filter P [Suc j..<n]"
proof (induction "n - i" arbitrary: i)
  case (Suc k)
  then have "[i..<n] = i # [Suc i..<n]" by (simp add: upt_conv_Cons)
  with Suc.prems Suc.hyps(1) [of "Suc i"] Suc.hyps(2) show ?case by (cases "P i") auto
qed simp

lemma Mapping_iter_from_eq:
  "Mapping_iter_from m i =
    map (\<lambda>j. (j, the (slot m j))) (filter (\<lambda>j. slot m j \<noteq> None) [i..<mp_len m])"
proof (induction m i rule: Mapping_iter_from.induct)
  case (1 m i)
  show ?case
  proof (cases "filter (\<lambda>j. slot m j \<noteq> None) [i..<mp_len m]")
    case Nil
    then show ?thesis by (subst Mapping_iter_from.simps) (simp add: MappingIter_next_eq)
  next
    case (Cons j js)
    then have n: "MappingIter_next m i = (Some (j, the (slot m j)), j + 1)"
      by (simp add: MappingIter_next_eq)
    from 1 [OF n [symmetric] refl] filter_upt_Cons [OF Cons] Cons n show ?thesis
      by (subst Mapping_iter_from.simps) simp
  qed
qed

lemma mapping_len_le_capacity: "mapping_inv m \<Longrightarrow> mp_len m \<le> Mapping_capacity m"
  unfolding mapping_invD(4)
  by (rule card_mono [of "{..<Mapping_capacity m}", simplified])
    (auto simp: Mapping_get_slot split: if_splits)

text \<open>Property C23. What \<open>Mapping::iter\<close> yields. The iterator stops at the number of stored
  values, not at the largest index: it never reads out of bounds and yields the entries in
  order, but only those whose index is below \<open>len\<close>. It yields every entry exactly when the
  keys are \<open>0, \<dots>, len - 1\<close>; with a gap in the keys some entry is never visited.\<close>

theorem mapping_iter_complete_iff:
  assumes "mapping_inv m"
  shows "Mapping_iter m =
      map (\<lambda>i. (i, the (Mapping_get m i)))
        (filter (\<lambda>i. Mapping_get m i \<noteq> None) [0..<Mapping_length m]) \<and>
    Mapping_length m \<le> Mapping_capacity m \<and>
    (set (Mapping_iter m) = {(i, v). Mapping_get m i = Some v} \<longleftrightarrow>
      dom (Mapping_get m) = {..<Mapping_length m})"
proof -
  let ?n = "Mapping_length m"
  have cap: "?n \<le> Mapping_capacity m"
    using mapping_len_le_capacity [OF assms] by (simp add: Mapping_length_def)
  then have "slot m i = Mapping_get m i" if "i < ?n" for i
    using that by (simp add: Mapping_get_slot)
  then have it: "Mapping_iter m =
      map (\<lambda>i. (i, the (Mapping_get m i))) (filter (\<lambda>i. Mapping_get m i \<noteq> None) [0..<?n])"
    unfolding Mapping_iter_def Mapping_iter_from_eq
    by (auto simp: Mapping_length_def intro!: map_cong filter_cong)
  have "set (Mapping_iter m) = {(i, v). i < ?n \<and> Mapping_get m i = Some v}"
    by (auto simp: it image_iff)
  then have "set (Mapping_iter m) = {(i, v). Mapping_get m i = Some v} \<longleftrightarrow>
      dom (Mapping_get m) \<subseteq> {..<?n}"
    by (simp add: set_eq_iff subset_iff domIff) blast
  also have "\<dots> \<longleftrightarrow> dom (Mapping_get m) = {..<?n}"
  proof
    assume "dom (Mapping_get m) \<subseteq> {..<?n}"
    then show "dom (Mapping_get m) = {..<?n}"
      using mapping_invD(4) [OF assms] by (intro card_subset_eq) (simp_all add: Mapping_length_def)
  qed simp
  finally show ?thesis using it cap by simp
qed

text \<open>A mapping with a gap: keys 0 and 2.\<close>

definition gap_mapping :: "nat mapping" where
  "gap_mapping = snd (Mapping_insert (snd (Mapping_insert Mapping_new 0 10)) 2 20)"

lemma gap_mapping_inv: "mapping_inv gap_mapping"
  by (simp add: gap_mapping_def Mapping_new_def Mapping_insert_inv Mapping_with_capacity_inv)

lemma gap_mapping_get: "Mapping_get gap_mapping = [0 \<mapsto> 10, 2 \<mapsto> 20]"
  by (simp add: gap_mapping_def Mapping_new_def Mapping_insert_inv Mapping_with_capacity_inv
      Mapping_insert_get fun_eq_iff)

lemma gap_mapping_length: "Mapping_length gap_mapping = 2"
  using mapping_invD(4) [OF gap_mapping_inv]
  by (simp add: gap_mapping_get Mapping_length_def)

theorem mapping_serde_roundtrip_witness:
  "Mapping_get (Mapping_deserialize (Mapping_serialize gap_mapping)) 2 = Some 20"
  using mapping_serde_roundtrip [OF gap_mapping_inv] by (simp add: gap_mapping_get)

theorem mapping_iter_complete_iff_witness:
  "Mapping_iter gap_mapping = [(0, 10)] \<and> Mapping_get gap_mapping 2 = Some 20"
  using mapping_iter_complete_iff [OF gap_mapping_inv]
  by (simp add: gap_mapping_get gap_mapping_length upt_rec)

end
