(* ===== verification/Requirements.thy ===== *)
theory Requirements
  imports Chunk_Mapping
begin

text \<open>
  Requirements and conditions as the provider states them: \<open>src/requirement.rs\<close> (the
  \<open>Requirement\<close> enum and the map keyed by it) and \<open>src/conditional_requirement.rs\<close>.
\<close>

datatype requirement = Single version_set_id | Union version_set_union_id

datatype logical_operator = And | Or

datatype condition =
    Binary logical_operator condition_id condition_id
  | Condition_Requirement version_set_id

record conditional_requirement =
  cr_condition :: "condition_id option"
  cr_requirement :: requirement

definition with_condition :: "requirement \<Rightarrow> condition_id \<Rightarrow> conditional_requirement" where
  "with_condition r c = \<lparr>cr_condition = Some c, cr_requirement = r\<rparr>"

definition ConditionalRequirement_from :: "requirement \<Rightarrow> conditional_requirement" where
  "ConditionalRequirement_from r = \<lparr>cr_condition = None, cr_requirement = r\<rparr>"

text \<open>\<open>VersionSetId\<close> derives \<open>Default\<close>: the zero index.\<close>

definition Requirement_default :: requirement where
  "Requirement_default = Single 0"

text \<open>The version sets of a requirement; the provider resolves a union.\<close>

fun Requirement_version_sets ::
  "(version_set_union_id \<Rightarrow> version_set_id list) \<Rightarrow> requirement \<Rightarrow> version_set_id list" where
  "Requirement_version_sets version_sets_in_union (Single vs) = [vs]"
| "Requirement_version_sets version_sets_in_union (Union u) = version_sets_in_union u"

section \<open>The derived order\<close>

text \<open>\<open>#[derive(Ord)]\<close>: variants in declaration order, then the payload.\<close>

instantiation requirement :: linorder
begin

fun less_eq_requirement :: "requirement \<Rightarrow> requirement \<Rightarrow> bool" where
  "less_eq_requirement (Single a) (Single b) \<longleftrightarrow> a \<le> b"
| "less_eq_requirement (Single _) (Union _) \<longleftrightarrow> True"
| "less_eq_requirement (Union _) (Single _) \<longleftrightarrow> False"
| "less_eq_requirement (Union a) (Union b) \<longleftrightarrow> a \<le> b"

definition less_requirement :: "requirement \<Rightarrow> requirement \<Rightarrow> bool" where
  "less_requirement a b \<longleftrightarrow> a \<le> b \<and> \<not> b \<le> a"

instance
proof
  fix x y z :: requirement
  show "x < y \<longleftrightarrow> x \<le> y \<and> \<not> y \<le> x" by (simp add: less_requirement_def)
  show "x \<le> x" by (cases x) simp_all
  show "x \<le> y \<Longrightarrow> y \<le> z \<Longrightarrow> x \<le> z" by (cases x; cases y; cases z) simp_all
  show "x \<le> y \<Longrightarrow> y \<le> x \<Longrightarrow> x = y" by (cases x; cases y) simp_all
  show "x \<le> y \<or> y \<le> x" by (cases x; cases y) auto
qed

end

section \<open>The map keyed by requirements\<close>

record 'v requirement_map =
  rm_singles :: "'v mapping"
  rm_unions :: "'v mapping"

definition RequirementMap_default :: "'v requirement_map" where
  "RequirementMap_default = \<lparr>rm_singles = Mapping_new, rm_unions = Mapping_new\<rparr>"

fun RequirementMap_get :: "'v requirement_map \<Rightarrow> requirement \<Rightarrow> 'v option" where
  "RequirementMap_get m (Single i) = Mapping_get (rm_singles m) i"
| "RequirementMap_get m (Union i) = Mapping_get (rm_unions m) i"

fun RequirementMap_insert :: "'v requirement_map \<Rightarrow> requirement \<Rightarrow> 'v \<Rightarrow> 'v option \<times> 'v requirement_map" where
  "RequirementMap_insert m (Single i) v =
     (case Mapping_insert (rm_singles m) i v of (old, s) \<Rightarrow> (old, m\<lparr>rm_singles := s\<rparr>))"
| "RequirementMap_insert m (Union i) v =
     (case Mapping_insert (rm_unions m) i v of (old, u) \<Rightarrow> (old, m\<lparr>rm_unions := u\<rparr>))"

fun RequirementMap_get_mut :: "'v requirement_map \<Rightarrow> requirement \<Rightarrow> ('v \<Rightarrow> 'v) \<Rightarrow> 'v requirement_map" where
  "RequirementMap_get_mut m (Single i) f = m\<lparr>rm_singles := Mapping_get_mut (rm_singles m) i f\<rparr>"
| "RequirementMap_get_mut m (Union i) f = m\<lparr>rm_unions := Mapping_get_mut (rm_unions m) i f\<rparr>"

fun RequirementMap_get_or_insert_with ::
  "'v requirement_map \<Rightarrow> requirement \<Rightarrow> 'v \<Rightarrow> 'v option \<times> 'v requirement_map" where
  "RequirementMap_get_or_insert_with m (Single i) d =
     (case Mapping_get_or_insert_with (rm_singles m) i d of (v, s) \<Rightarrow> (v, m\<lparr>rm_singles := s\<rparr>))"
| "RequirementMap_get_or_insert_with m (Union i) d =
     (case Mapping_get_or_insert_with (rm_unions m) i d of (v, u) \<Rightarrow> (v, m\<lparr>rm_unions := u\<rparr>))"

definition requirement_map_inv :: "'v requirement_map \<Rightarrow> bool" where
  "requirement_map_inv m \<longleftrightarrow> mapping_inv (rm_singles m) \<and> mapping_inv (rm_unions m)"

lemma RequirementMap_insert_effect:
  assumes "requirement_map_inv m"
  shows "fst (RequirementMap_insert m r v) = RequirementMap_get m r"
    "RequirementMap_get (snd (RequirementMap_insert m r v)) r' =
      (if r' = r then Some v else RequirementMap_get m r')"
    "requirement_map_inv (snd (RequirementMap_insert m r v))"
  using assms
  by (cases r; cases r';
      simp add: split_beta requirement_map_inv_def Mapping_insert_get Mapping_insert_inv)+

lemma RequirementMap_get_mut_effect:
  assumes "requirement_map_inv m"
  shows "RequirementMap_get (RequirementMap_get_mut m r f) r' =
      (if r' = r then map_option f (RequirementMap_get m r) else RequirementMap_get m r')"
    "requirement_map_inv (RequirementMap_get_mut m r f)"
  using assms
  by (cases r; cases r'; simp add: requirement_map_inv_def Mapping_get_mut_get Mapping_get_mut_inv)+

lemma RequirementMap_get_or_insert_with_effect:
  assumes "requirement_map_inv m"
  shows "fst (RequirementMap_get_or_insert_with m r d) =
      Some (case RequirementMap_get m r of None \<Rightarrow> d | Some v \<Rightarrow> v)"
    "RequirementMap_get (snd (RequirementMap_get_or_insert_with m r d)) r' =
      (if r' = r then Some (case RequirementMap_get m r of None \<Rightarrow> d | Some v \<Rightarrow> v)
       else RequirementMap_get m r')"
    "requirement_map_inv (snd (RequirementMap_get_or_insert_with m r d))"
  using assms
  by (cases r; cases r';
      simp add: split_beta requirement_map_inv_def Mapping_get_or_insert_with_eq Mapping_insert_get
        Mapping_insert_inv Mapping_grow_inv split: option.split)+

interpretation requirement_map: insert_map requirement_map_inv RequirementMap_default RequirementMap_get
  RequirementMap_insert
proof unfold_locales
  show "requirement_map_inv (RequirementMap_default :: 'a requirement_map)"
    by (simp add: requirement_map_inv_def RequirementMap_default_def chunk_map.inv_empty)
next
  fix r
  show "RequirementMap_get (RequirementMap_default :: 'a requirement_map) r = None"
    by (cases r) (simp_all add: RequirementMap_default_def chunk_map.lookup_empty)
qed (auto simp: RequirementMap_insert_effect fun_eq_iff)

end
