(* ===== verification/Id_Storage.thy ===== *)
theory Id_Storage
  imports Prelude
begin

text \<open>
  Storage keyed by provider-owned identifiers: \<open>src/solver_id.rs\<close> (the traits \<open>IdMap\<close> and
  \<open>IdSet\<close> with their dense and hash-backed implementations), \<open>src/utils/indexed_set.rs\<close>,
  \<open>src/internal/solver_id.rs\<close> (keys that may be the solver root) and
  \<open>src/internal/frozen_copy_map.rs\<close>. The traits are the locales \<open>id_map\<close> and \<open>id_set\<close>, and
  every implementation is an interpretation; \<open>interner\<close> and \<open>bounded_interner\<close> are the contracts of a table
  that hands out one identifier per value. A hash map is a partial map, a hash set a set;
  a dense identifier is its index.
\<close>

section \<open>The traits\<close>

locale id_map =
  fixes default_value :: 'v
    and init :: 'm
    and get :: "'m \<Rightarrow> 'k \<Rightarrow> 'v"
    and put :: "'m \<Rightarrow> 'k \<Rightarrow> 'v \<Rightarrow> 'm"
    and for_each_mut :: "'m \<Rightarrow> ('v \<Rightarrow> 'v) \<Rightarrow> 'm"
  assumes get_init: "get init k = default_value"
    and get_put: "get (put m k v) k' = (if k' = k then v else get m k')"
    and get_for_each_mut: "f default_value = default_value \<Longrightarrow> get (for_each_mut m f) k = f (get m k)"
begin

text \<open>A total map with a default: what was written last, or the default.\<close>

lemma get_puts:
  "get (foldl (\<lambda>m (k, v). put m k v) init kvs) k =
    (case map_of (rev kvs) k of None \<Rightarrow> default_value | Some v \<Rightarrow> v)"
proof (induction kvs rule: rev_induct)
  case (snoc kv kvs)
  then show ?case by (cases kv) (simp add: get_put)
qed (simp add: get_init)

end

locale id_set =
  fixes init :: 'm
    and contains :: "'m \<Rightarrow> 'k \<Rightarrow> bool"
    and add :: "'m \<Rightarrow> 'k \<Rightarrow> bool \<times> 'm"
  assumes contains_init: "\<not> contains init k"
    and add_new: "fst (add m k) \<longleftrightarrow> \<not> contains m k"
    and contains_add: "contains (snd (add m k)) k' \<longleftrightarrow> k' = k \<or> contains m k'"
begin

lemma add_twice: "\<not> fst (add (snd (add m k)) k)"
  by (simp add: add_new contains_add)

lemma contains_adds:
  "{k. contains (foldl (\<lambda>m k. snd (add m k)) m ks) k} = set ks \<union> {k. contains m k}"
  by (induction ks arbitrary: m) (auto simp: contains_add)

end

text \<open>The set storage a \<open>SolverId\<close> selects; root-aware sets are built on top of one.\<close>

locale solver_id_set = id_set

section \<open>Dense maps: \<open>Vec<V>\<close>\<close>

definition IdMap_Vec_get :: "'v \<Rightarrow> 'v list \<Rightarrow> nat \<Rightarrow> 'v" where
  "IdMap_Vec_get d xs i = (case slice_get xs i of None \<Rightarrow> d | Some v \<Rightarrow> v)"

definition IdMap_Vec_set :: "'v \<Rightarrow> 'v list \<Rightarrow> nat \<Rightarrow> 'v \<Rightarrow> 'v list" where
  "IdMap_Vec_set d xs i v =
     (let grown = (if i \<ge> length xs then vec_resize (i + 1) d xs else xs) in grown[i := v])"

definition IdMap_Vec_for_each_mut :: "'v list \<Rightarrow> ('v \<Rightarrow> 'v) \<Rightarrow> 'v list" where
  "IdMap_Vec_for_each_mut xs f = map f xs"

definition IdMap_Vec_for_each :: "'v list \<Rightarrow> 'v list" where
  "IdMap_Vec_for_each xs = xs"

interpretation vec_id_map: id_map d "[]" "IdMap_Vec_get d" "IdMap_Vec_set d" IdMap_Vec_for_each_mut
  for d
  by unfold_locales
    (auto simp: IdMap_Vec_get_def IdMap_Vec_set_def IdMap_Vec_for_each_mut_def slice_get_def Let_def
      nth_vec_resize nth_list_update)

section \<open>Sparse maps: \<open>HashMap<K, V>\<close>\<close>

definition IdMap_HashMap_get :: "'v \<Rightarrow> ('k \<rightharpoonup> 'v) \<Rightarrow> 'k \<Rightarrow> 'v" where
  "IdMap_HashMap_get d m k = (case m k of None \<Rightarrow> d | Some v \<Rightarrow> v)"

definition IdMap_HashMap_set :: "('k \<rightharpoonup> 'v) \<Rightarrow> 'k \<Rightarrow> 'v \<Rightarrow> ('k \<rightharpoonup> 'v)" where
  "IdMap_HashMap_set m k v = m(k \<mapsto> v)"

definition IdMap_HashMap_for_each_mut :: "('k \<rightharpoonup> 'v) \<Rightarrow> ('v \<Rightarrow> 'v) \<Rightarrow> ('k \<rightharpoonup> 'v)" where
  "IdMap_HashMap_for_each_mut m f = (\<lambda>k. map_option f (m k))"

interpretation hash_id_map: id_map d Map.empty "IdMap_HashMap_get d" IdMap_HashMap_set
  IdMap_HashMap_for_each_mut
  for d
  by unfold_locales
    (auto simp: IdMap_HashMap_get_def IdMap_HashMap_set_def IdMap_HashMap_for_each_mut_def
      split: option.split)

section \<open>Sets\<close>

text \<open>\<open>IndexedSet\<close>: a bit vector that grows on demand.\<close>

definition IndexedSet_insert :: "bool list \<Rightarrow> nat \<Rightarrow> bool \<times> bool list" where
  "IndexedSet_insert bits i =
     (let grown = (if i \<ge> length bits then vec_resize (i + 1) False bits else bits)
      in (\<not> grown ! i, grown[i := True]))"

definition IndexedSet_contains :: "bool list \<Rightarrow> nat \<Rightarrow> bool" where
  "IndexedSet_contains bits i = (case slice_get bits i of None \<Rightarrow> False | Some b \<Rightarrow> b)"

interpretation indexed_set: solver_id_set "[]" IndexedSet_contains IndexedSet_insert
  by unfold_locales
    (auto simp: IndexedSet_insert_def IndexedSet_contains_def slice_get_def Let_def nth_vec_resize
      nth_list_update)

definition HashSet_contains :: "'k set \<Rightarrow> 'k \<Rightarrow> bool" where
  "HashSet_contains s k \<longleftrightarrow> k \<in> s"

definition HashSet_insert :: "'k set \<Rightarrow> 'k \<Rightarrow> bool \<times> 'k set" where
  "HashSet_insert s k = (k \<notin> s, insert k s)"

interpretation hash_set: solver_id_set "{}" HashSet_contains HashSet_insert
  by unfold_locales (auto simp: HashSet_contains_def HashSet_insert_def)

section \<open>Keys that may be the root\<close>

datatype 's solvable_id_or_root = Root | Solvable 's

fun SolvableIdOrRoot_solvable :: "'s solvable_id_or_root \<Rightarrow> 's option" where
  "SolvableIdOrRoot_solvable Root = None"
| "SolvableIdOrRoot_solvable (Solvable s) = Some s"

record 'm with_root_set =
  wr_root :: bool
  wr_solvables :: 'm

definition WithRootSet_default :: "'m \<Rightarrow> 'm with_root_set" where
  "WithRootSet_default init = \<lparr>wr_root = False, wr_solvables = init\<rparr>"

text \<open>The operations delegate to the set storage the solvable identifier selects.\<close>

fun WithRootSet_contains ::
  "('m \<Rightarrow> 's \<Rightarrow> bool) \<Rightarrow> 'm with_root_set \<Rightarrow> 's solvable_id_or_root \<Rightarrow> bool" where
  "WithRootSet_contains contains w Root = wr_root w"
| "WithRootSet_contains contains w (Solvable s) = contains (wr_solvables w) s"

fun WithRootSet_insert ::
  "('m \<Rightarrow> 's \<Rightarrow> bool \<times> 'm) \<Rightarrow> 'm with_root_set \<Rightarrow> 's solvable_id_or_root \<Rightarrow> bool \<times> 'm with_root_set"
where
  "WithRootSet_insert add w Root = (\<not> wr_root w, w\<lparr>wr_root := True\<rparr>)"
| "WithRootSet_insert add w (Solvable s) =
     (case add (wr_solvables w) s of (b, m) \<Rightarrow> (b, w\<lparr>wr_solvables := m\<rparr>))"

text \<open>Whatever set the solvables use, the root-aware set is a set again.\<close>

sublocale solver_id_set \<subseteq> with_root: id_set "WithRootSet_default init" "WithRootSet_contains contains"
  "WithRootSet_insert add"
proof unfold_locales
  fix k
  show "\<not> WithRootSet_contains contains (WithRootSet_default init) k"
    by (cases k) (simp_all add: WithRootSet_default_def contains_init)
next
  fix m k
  show "fst (WithRootSet_insert add m k) \<longleftrightarrow> \<not> WithRootSet_contains contains m k"
    by (cases k) (simp_all add: split_beta add_new)
next
  fix m k k'
  show "WithRootSet_contains contains (snd (WithRootSet_insert add m k)) k' \<longleftrightarrow>
      k' = k \<or> WithRootSet_contains contains m k'"
    by (cases k; cases k') (auto simp: split_beta contains_add)
qed

section \<open>The frozen hash map\<close>

definition FrozenCopyMap_insert_copy :: "('k \<rightharpoonup> 'v) \<Rightarrow> 'k \<Rightarrow> 'v \<Rightarrow> 'v option \<times> ('k \<rightharpoonup> 'v)" where
  "FrozenCopyMap_insert_copy m k v = (m k, m(k \<mapsto> v))"

definition FrozenCopyMap_get_copy :: "('k \<rightharpoonup> 'v) \<Rightarrow> 'k \<Rightarrow> 'v option" where
  "FrozenCopyMap_get_copy m k = m k"

section \<open>Deduplicating tables\<close>

text \<open>
  What a table that hands out identifiers promises: a value resolves from its identifier, now and
  later, and is given the same one again. \<open>None\<close> is the panic of a full table; \<open>room\<close> holds while
  no identifier has been handed out twice.
\<close>

locale bounded_interner =
  fixes inv :: "'s \<Rightarrow> bool"
    and room :: "'s \<Rightarrow> bool"
    and intern :: "'k \<Rightarrow> 's \<Rightarrow> (nat \<times> 's) option"
    and resolve :: "'s \<Rightarrow> nat \<Rightarrow> 'k option"
  assumes intern_inv: "inv s \<Longrightarrow> intern k s = Some (i, s') \<Longrightarrow> inv s'"
    and room_before: "inv s \<Longrightarrow> intern k s = Some (i, s') \<Longrightarrow> room s' \<Longrightarrow> room s"
    and resolve_intern: "inv s \<Longrightarrow> intern k s = Some (i, s') \<Longrightarrow> room s' \<Longrightarrow> resolve s' i = Some k"
    and resolve_stable: "inv s \<Longrightarrow> intern k s = Some (i, s') \<Longrightarrow> resolve s j = Some x \<Longrightarrow> resolve s' j = Some x"
    and intern_known: "inv s \<Longrightarrow> room s \<Longrightarrow> resolve s i = Some k \<Longrightarrow> intern k s = Some (i, s)"
begin

lemma intern_again: "inv s \<Longrightarrow> intern k s = Some (i, s') \<Longrightarrow> room s' \<Longrightarrow> intern k s' = Some (i, s')"
  by (rule intern_known [OF intern_inv _ resolve_intern])

lemma resolve_inj: "inv s \<Longrightarrow> room s \<Longrightarrow> resolve s i = Some k \<Longrightarrow> resolve s j = Some k \<Longrightarrow> i = j"
  by (metis intern_known option.inject prod.inject)

lemma intern_eq_iff:
  assumes "inv s" "intern x s = Some (i, s1)" "intern y s1 = Some (j, s2)" "room s2"
  shows "resolve s2 i = Some x \<and> resolve s2 j = Some y \<and> (i = j \<longleftrightarrow> x = y)"
proof -
  have inv1: "inv s1" by (rule intern_inv [OF assms(1,2)])
  have room1: "room s1" by (rule room_before [OF inv1 assms(3,4)])
  have at1: "resolve s1 i = Some x" by (rule resolve_intern [OF assms(1,2) room1])
  have "resolve s2 i = Some x" "resolve s2 j = Some y"
    using resolve_stable [OF inv1 assms(3) at1] resolve_intern [OF inv1 assms(3,4)] by simp_all
  moreover from this have "i = j" if "x = y"
    using that intern_known [OF inv1 room1 at1] assms(3) by simp
  ultimately show ?thesis by auto
qed

end

text \<open>A table that is never full, nor panics.\<close>

locale interner =
  fixes inv :: "'s \<Rightarrow> bool"
    and intern :: "'k \<Rightarrow> 's \<Rightarrow> nat \<times> 's"
    and resolve :: "'s \<Rightarrow> nat \<Rightarrow> 'k option"
  assumes intern_inv: "inv s \<Longrightarrow> inv (snd (intern k s))"
    and resolve_intern: "inv s \<Longrightarrow> resolve (snd (intern k s)) (fst (intern k s)) = Some k"
    and resolve_stable: "inv s \<Longrightarrow> resolve s i = Some x \<Longrightarrow> resolve (snd (intern k s)) i = Some x"
    and intern_known: "inv s \<Longrightarrow> resolve s i = Some k \<Longrightarrow> intern k s = (i, s)"
begin

lemma intern_again: "inv s \<Longrightarrow> intern k (snd (intern k s)) = intern k s"
  using intern_known [OF intern_inv resolve_intern, of s k] by simp

lemma resolve_inj: "inv s \<Longrightarrow> resolve s i = Some k \<Longrightarrow> resolve s j = Some k \<Longrightarrow> i = j"
  by (metis intern_known prod.inject)

lemma intern_eq_iff:
  assumes "inv s" "intern x s = (i, s1)" "intern y s1 = (j, s2)"
  shows "resolve s2 i = Some x \<and> resolve s2 j = Some y \<and> (i = j \<longleftrightarrow> x = y)"
proof -
  have s1: "inv s1" "resolve s1 i = Some x"
    using intern_inv [OF assms(1), of x] resolve_intern [OF assms(1), of x] assms(2) by simp_all
  have "resolve s2 i = Some x" "resolve s2 j = Some y"
    using resolve_stable [OF s1, of y] resolve_intern [OF s1(1), of y] assms(3) by simp_all
  moreover from this have "i = j" if "x = y"
    using that intern_known [OF s1] assms(3) by simp
  ultimately show ?thesis by auto
qed

end

sublocale interner \<subseteq> bounded: bounded_interner inv "\<lambda>_. True" "\<lambda>k s. Some (intern k s)" resolve
proof
  fix s k i s'
  assume s: "inv s" and eq: "Some (intern k s) = Some (i, s')"
  show "inv s'" using intern_inv [OF s, of k] eq by simp
  show "resolve s' i = Some k" using resolve_intern [OF s, of k] eq by simp
  show "resolve s' j = Some x" if "resolve s j = Some x" for j x
    using resolve_stable [OF s that, of k] eq by simp
next
  show "Some (intern k s) = Some (i, s)" if "inv s" "resolve s i = Some k" for s i k
    using intern_known [OF that] by simp
qed simp_all

section \<open>Properties\<close>

text \<open>Property C30. The root-aware visited set built on the dense bit vector is a set: inserting
  reports exactly whether the key is new, and after inserting any sequence of keys it
  contains these and no others, the root never being confused with a solvable.\<close>

theorem with_root_indexed_set_spec:
  "{k. WithRootSet_contains IndexedSet_contains
        (foldl (\<lambda>w k. snd (WithRootSet_insert IndexedSet_insert w k)) (WithRootSet_default []) ks) k} = set ks \<and>
   (fst (WithRootSet_insert IndexedSet_insert
          (foldl (\<lambda>w k. snd (WithRootSet_insert IndexedSet_insert w k)) (WithRootSet_default []) ks) k) \<longleftrightarrow>
     k \<notin> set ks)"
  using indexed_set.with_root.contains_adds [of "WithRootSet_default []" ks]
    indexed_set.with_root.contains_init
  by (auto simp: indexed_set.with_root.add_new)

end
