(* ===== verification/Conditions.thy ===== *)
theory Conditions
  imports Requirements Literals Id_Storage
begin

text \<open>
  Conditions of conditional requirements, \<open>src/solver/conditions.rs\<close>: the conversion of a
  boolean expression to disjunctive normal form, and the test whether a disjunct of a
  deferred requirement holds. The expression is a graph of condition identifiers that the
  provider resolves; the conversion recurses through it, so it returns exactly when the
  graph below the identifier is well-founded.
\<close>

section \<open>Disjunctive normal form\<close>

definition distribute :: "'a list list \<Rightarrow> 'a list list \<Rightarrow> 'a list list" where
  "distribute left_dnf right_dnf = concat (map (\<lambda>l. map (\<lambda>r. l @ r) right_dnf) left_dnf)"

partial_function (option) convert_conditions_to_dnf ::
  "(condition_id \<Rightarrow> condition) \<Rightarrow> condition_id \<Rightarrow> version_set_id list list option" where
  "convert_conditions_to_dnf resolve_condition c = (case resolve_condition c of
     Condition_Requirement vs \<Rightarrow> Some [[vs]]
   | Binary op lhs rhs \<Rightarrow>
       Option.bind (convert_conditions_to_dnf resolve_condition lhs) (\<lambda>left_dnf.
       Option.bind (convert_conditions_to_dnf resolve_condition rhs) (\<lambda>right_dnf.
         (case op of Or \<Rightarrow> Some (left_dnf @ right_dnf)
                   | And \<Rightarrow> Some (distribute left_dnf right_dnf)))))"

text \<open>The meaning of a condition: the expression tree the identifier unfolds to.\<close>

datatype condition_tree = TReq version_set_id | TBin logical_operator condition_tree condition_tree

inductive unfolds :: "(condition_id \<Rightarrow> condition) \<Rightarrow> condition_id \<Rightarrow> condition_tree \<Rightarrow> bool"
  for resolve where
  leaf: "resolve c = Condition_Requirement vs \<Longrightarrow> unfolds resolve c (TReq vs)"
| node: "resolve c = Binary op l r \<Longrightarrow> unfolds resolve l t1 \<Longrightarrow> unfolds resolve r t2 \<Longrightarrow>
    unfolds resolve c (TBin op t1 t2)"

fun tree_holds :: "(version_set_id \<Rightarrow> bool) \<Rightarrow> condition_tree \<Rightarrow> bool" where
  "tree_holds v (TReq vs) = v vs"
| "tree_holds v (TBin And l r) = (tree_holds v l \<and> tree_holds v r)"
| "tree_holds v (TBin Or l r) = (tree_holds v l \<or> tree_holds v r)"

definition dnf_holds :: "(version_set_id \<Rightarrow> bool) \<Rightarrow> version_set_id list list \<Rightarrow> bool" where
  "dnf_holds v dnf \<longleftrightarrow> (\<exists>conj \<in> set dnf. \<forall>vs \<in> set conj. v vs)"

fun tree_leaves :: "condition_tree \<Rightarrow> version_set_id set" where
  "tree_leaves (TReq vs) = {vs}"
| "tree_leaves (TBin _ l r) = tree_leaves l \<union> tree_leaves r"

lemma dnf_holds_append: "dnf_holds v (xs @ ys) \<longleftrightarrow> dnf_holds v xs \<or> dnf_holds v ys"
  by (auto simp: dnf_holds_def)

lemma set_distribute: "set (distribute xs ys) = {x @ y |x y. x \<in> set xs \<and> y \<in> set ys}"
  by (auto simp: distribute_def)

lemma dnf_holds_distribute: "dnf_holds v (distribute xs ys) \<longleftrightarrow> dnf_holds v xs \<and> dnf_holds v ys"
  by (fastforce simp: dnf_holds_def set_distribute)

lemma length_distribute: "length (distribute xs ys) = length xs * length ys"
  by (simp add: distribute_def length_concat o_def sum_list_triv)

text \<open>The number of conjunctions of the result.\<close>

fun tree_width :: "condition_tree \<Rightarrow> nat" where
  "tree_width (TReq _) = 1"
| "tree_width (TBin And l r) = tree_width l * tree_width r"
| "tree_width (TBin Or l r) = tree_width l + tree_width r"

lemma dnf_of_tree:
  assumes "unfolds resolve c t"
  shows "\<exists>dnf. convert_conditions_to_dnf resolve c = Some dnf \<and>
    (\<forall>v. dnf_holds v dnf \<longleftrightarrow> tree_holds v t) \<and> length dnf = tree_width t \<and> [] \<notin> set dnf \<and>
    (\<Union>conj \<in> set dnf. set conj) \<subseteq> tree_leaves t"
  using assms
proof (induction rule: unfolds.induct)
  case (leaf c vs)
  then show ?case by (subst convert_conditions_to_dnf.simps) (simp add: dnf_holds_def)
next
  case (node c op l r t1 t2)
  obtain dl where dl: "convert_conditions_to_dnf resolve l = Some dl"
    "\<forall>v. dnf_holds v dl \<longleftrightarrow> tree_holds v t1" "length dl = tree_width t1" "[] \<notin> set dl"
    "(\<Union>conj \<in> set dl. set conj) \<subseteq> tree_leaves t1"
    using node.IH(1) by metis
  obtain dr where dr: "convert_conditions_to_dnf resolve r = Some dr"
    "\<forall>v. dnf_holds v dr \<longleftrightarrow> tree_holds v t2" "length dr = tree_width t2" "[] \<notin> set dr"
    "(\<Union>conj \<in> set dr. set conj) \<subseteq> tree_leaves t2"
    using node.IH(2) by metis
  note d = dl dr
  show ?case
  proof (cases op)
    case And
    then have "convert_conditions_to_dnf resolve c = Some (distribute dl dr)"
      using node.hyps(1) d(1,6) by (subst convert_conditions_to_dnf.simps) simp
    moreover have "[] \<notin> set (distribute dl dr)" using d(4) by (auto simp: set_distribute)
    moreover have "(\<Union>conj \<in> set (distribute dl dr). set conj) \<subseteq> tree_leaves t1 \<union> tree_leaves t2"
    proof
      fix vs
      assume "vs \<in> (\<Union>conj \<in> set (distribute dl dr). set conj)"
      then obtain x y where "x \<in> set dl" "y \<in> set dr" "vs \<in> set x \<union> set y"
        by (auto simp: set_distribute)
      with d(5,10) show "vs \<in> tree_leaves t1 \<union> tree_leaves t2" by blast
    qed
    moreover have "dnf_holds v (distribute dl dr) \<longleftrightarrow> tree_holds v (TBin And t1 t2)" for v
      using d(2,7) by (simp add: dnf_holds_distribute)
    ultimately show ?thesis using And d(3,8) by (simp add: length_distribute)
  next
    case Or
    with node.hyps(1) d show ?thesis
      by (subst convert_conditions_to_dnf.simps) (auto simp: dnf_holds_append)
  qed
qed

lemma dnf_needs_tree:
  "convert_conditions_to_dnf resolve c = Some dnf \<Longrightarrow> \<exists>t. unfolds resolve c t"
proof (erule convert_conditions_to_dnf.raw_induct [rotated, of resolve c dnf])
  fix f :: "(condition_id \<Rightarrow> condition) \<Rightarrow> condition_id \<Rightarrow> version_set_id list list option"
    and resolve c dnf
  assume IH: "\<And>resolve c dnf. f resolve c = Some dnf \<Longrightarrow> \<exists>t. unfolds resolve c t"
    and eq: "(case resolve c of
      Binary op lhs rhs \<Rightarrow> Option.bind (f resolve lhs) (\<lambda>left_dnf.
        Option.bind (f resolve rhs) (\<lambda>right_dnf.
          case op of And \<Rightarrow> Some (distribute left_dnf right_dnf) | Or \<Rightarrow> Some (left_dnf @ right_dnf)))
    | Condition_Requirement vs \<Rightarrow> Some [[vs]]) = Some dnf"
  show "\<exists>t. unfolds resolve c t"
  proof (cases "resolve c")
    case (Binary op l r)
    with eq obtain dl dr where "f resolve l = Some dl" "f resolve r = Some dr"
      by (auto simp: bind_eq_Some_conv)
    with IH obtain t1 t2 where "unfolds resolve l t1" "unfolds resolve r t2" by metis
    with Binary show ?thesis by (blast intro: unfolds.node)
  qed (auto intro: unfolds.leaf)
qed

section \<open>Deferred requirements\<close>

datatype 's deferred_conjunct =
    DC_Solvables version_set_id "'s list"
  | DC_Empty version_set_id "'s list"

fun DeferredConjunct_version_set :: "'s deferred_conjunct \<Rightarrow> version_set_id" where
  "DeferredConjunct_version_set (DC_Solvables vs _) = vs"
| "DeferredConjunct_version_set (DC_Empty vs _) = vs"

fun DeferredConjunct_candidates :: "'s deferred_conjunct \<Rightarrow> 's list" where
  "DeferredConjunct_candidates (DC_Solvables _ matching) = matching"
| "DeferredConjunct_candidates (DC_Empty _ all_candidates) = all_candidates"

record 's deferred_requirement =
  dr_solvable_id :: "'s solvable_id_or_root"
  dr_requirement :: conditional_requirement
  dr_condition :: condition_id
  dr_disjunct :: "'s deferred_conjunct list"

definition condition_disjunct_holds :: "'s deferred_conjunct list \<Rightarrow> ('s \<Rightarrow> bool) \<Rightarrow> bool" where
  "condition_disjunct_holds disjunct is_positively_decided =
     list_all (\<lambda>conjunct. list_ex is_positively_decided (DeferredConjunct_candidates conjunct)) disjunct"

text \<open>The disjunction the clause database stores for a condition's disjunct.\<close>

record disjunction =
  dj_literals :: "literal list"
  dj_condition :: condition_id

section \<open>Properties\<close>

text \<open>Property C13. The conversion of a condition to disjunctive normal form returns exactly when
  the expression below the identifier is a finite tree; then the result holds under a
  valuation of the version sets if and only if the expression does, no conjunction is empty,
  only version sets of the expression occur, and the number of conjunctions is the product
  over ANDs and the sum over ORs.\<close>

theorem dnf_equivalent:
  "(convert_conditions_to_dnf resolve c \<noteq> None \<longleftrightarrow> (\<exists>t. unfolds resolve c t)) \<and>
   (unfolds resolve c t \<longrightarrow>
     (\<exists>dnf. convert_conditions_to_dnf resolve c = Some dnf \<and>
       (\<forall>v. dnf_holds v dnf \<longleftrightarrow> tree_holds v t) \<and> length dnf = tree_width t \<and> [] \<notin> set dnf \<and>
       (\<Union>conj \<in> set dnf. set conj) \<subseteq> tree_leaves t))"
  using dnf_of_tree dnf_needs_tree [of resolve c] by fastforce

text \<open>(0 or 1) and 2: condition 4 below.\<close>

definition example_condition :: "condition_id \<Rightarrow> condition" where
  "example_condition c =
     (if c = 3 then Binary Or 0 1 else if c = 4 then Binary And 3 2 else Condition_Requirement c)"

lemma example_unfolds:
  "unfolds example_condition 4 (TBin And (TBin Or (TReq 0) (TReq 1)) (TReq 2))"
proof -
  have "unfolds example_condition c (TReq c)" if "c \<le> 2" for c
    using that by (intro unfolds.leaf) (simp add: example_condition_def)
  then have "unfolds example_condition 3 (TBin Or (TReq 0) (TReq 1))"
    "unfolds example_condition 2 (TReq 2)"
    by (auto intro!: unfolds.node [of example_condition 3 Or 0 1] simp: example_condition_def)
  then show ?thesis
    by (intro unfolds.node [of example_condition 4 And 3 2]) (simp_all add: example_condition_def)
qed

theorem dnf_equivalent_witness:
  "\<exists>dnf. convert_conditions_to_dnf example_condition 4 = Some dnf \<and> length dnf = 2 \<and>
     dnf_holds (\<lambda>vs. vs \<noteq> 1) dnf \<and> \<not> dnf_holds (\<lambda>vs. vs \<noteq> 2) dnf"
proof -
  from dnf_equivalent [of example_condition 4 "TBin And (TBin Or (TReq 0) (TReq 1)) (TReq 2)"]
    example_unfolds
  obtain dnf where "convert_conditions_to_dnf example_condition 4 = Some dnf" "length dnf = 2"
    "\<forall>v. dnf_holds v dnf \<longleftrightarrow> tree_holds v (TBin And (TBin Or (TReq 0) (TReq 1)) (TReq 2))"
    by auto
  then show ?thesis by auto
qed

end
