(* ===== verification/Clauses.thy ===== *)
theory Clauses
  imports Decision_Tracker Conditions
begin

text \<open>
  Clauses, \<open>src/solver/clause.rs\<close>: the compact clause kinds, the literals each stands for,
  the constructors that choose the initial watches (and report a conflict with the current
  decisions), and the search for a replacement watch. The tables a clause refers to are
  passed as the source passes them: the learnt clauses (an arena, here the list of its
  values), the sorted candidates of each requirement (a map, panicking on a missing key) and
  the disjunctions of conditions (an arena).
\<close>

section \<open>The clause kinds\<close>

datatype clause =
    InstallRoot
  | Requires variable_id "disjunction_id option" requirement
  | ForbidMultipleInstances variable_id literal name_id
  | Constrains variable_id variable_id version_set_id
  | ConstrainsExcluded variable_id variable_id version_set_id
  | ConstrainsParent variable_id variable_id version_set_id
  | Lock variable_id variable_id
  | Learnt learnt_clause_id
  | Excluded variable_id string_id
  | AnyOf variable_id variable_id

fun is_binary :: "clause \<Rightarrow> bool" where
  "is_binary (Constrains _ _ _) = True"
| "is_binary (ConstrainsExcluded _ _ _) = True"
| "is_binary (ConstrainsParent _ _ _) = True"
| "is_binary (ForbidMultipleInstances _ _ _) = True"
| "is_binary (Lock _ _) = True"
| "is_binary (AnyOf _ _) = True"
| "is_binary _ = False"

type_synonym learnt_clauses = "literal list list"
type_synonym sorted_candidates = "requirement \<rightharpoonup> variable_id list list"
type_synonym disjunctions = "disjunction list"

section \<open>Folding over the literals\<close>

datatype ('b, 'c) control_flow = Continue 'c | Break 'b

text \<open>\<open>Iterator::try_fold\<close> on the items of an iterator.\<close>

fun try_fold :: "'a list \<Rightarrow> 'c \<Rightarrow> ('c \<Rightarrow> 'a \<Rightarrow> ('b, 'c) control_flow) \<Rightarrow> ('b, 'c) control_flow" where
  "try_fold [] acc visit = Continue acc"
| "try_fold (x # xs) acc visit =
     (case visit acc x of Continue acc' \<Rightarrow> try_fold xs acc' visit | Break b \<Rightarrow> Break b)"

text \<open>The literals of a condition's disjunction; \<open>None\<close> when the index panics.\<close>

definition disjunction_literals :: "disjunctions \<Rightarrow> disjunction_id option \<Rightarrow> literal list option" where
  "disjunction_literals djs d = (case d of None \<Rightarrow> Some [] | Some i \<Rightarrow> map_option dj_literals (slice_get djs i))"

fun try_fold_literals ::
  "learnt_clauses \<Rightarrow> sorted_candidates \<Rightarrow> disjunctions \<Rightarrow> clause \<Rightarrow> 'c \<Rightarrow>
    ('c \<Rightarrow> literal \<Rightarrow> ('b, 'c) control_flow) \<Rightarrow> ('b, 'c) control_flow option" where
  "try_fold_literals lcs rcs djs InstallRoot acc visit = None"
| "try_fold_literals lcs rcs djs (Excluded s _) acc visit = Some (visit acc (negative s))"
| "try_fold_literals lcs rcs djs (Learnt lid) acc visit =
     map_option (\<lambda>ls. try_fold ls acc visit) (slice_get lcs lid)"
| "try_fold_literals lcs rcs djs (Requires s d r) acc visit =
     Option.bind (disjunction_literals djs d) (\<lambda>ds.
     Option.bind (rcs r) (\<lambda>cs.
       Some (try_fold (negative s # ds @ map positive (concat cs)) acc visit)))"
| "try_fold_literals lcs rcs djs (Constrains s1 s2 _) acc visit =
     Some (try_fold [negative s1, negative s2] acc visit)"
| "try_fold_literals lcs rcs djs (ConstrainsExcluded candidate aux _) acc visit =
     Some (try_fold [negative candidate, positive aux] acc visit)"
| "try_fold_literals lcs rcs djs (ConstrainsParent parent aux _) acc visit =
     Some (try_fold [negative parent, negative aux] acc visit)"
| "try_fold_literals lcs rcs djs (ForbidMultipleInstances s1 s2 _) acc visit =
     Some (try_fold [negative s1, s2] acc visit)"
| "try_fold_literals lcs rcs djs (Lock _ s) acc visit =
     Some (try_fold [negative s, negative 0] acc visit)"
| "try_fold_literals lcs rcs djs (AnyOf selected v) acc visit =
     Some (try_fold [positive selected, negative v] acc visit)"

text \<open>\<open>visit_literals\<close>, as the accumulation a stateful closure performs.\<close>

definition visit_literals ::
  "learnt_clauses \<Rightarrow> sorted_candidates \<Rightarrow> disjunctions \<Rightarrow> clause \<Rightarrow> 's \<Rightarrow> ('s \<Rightarrow> literal \<Rightarrow> 's) \<Rightarrow> 's option" where
  "visit_literals lcs rcs djs c s visit =
     Option.bind (try_fold_literals lcs rcs djs c s (\<lambda>s l. (Continue (visit s l) :: (unit, _) control_flow)))
       (\<lambda>r. case r of Continue s' \<Rightarrow> Some s' | Break _ \<Rightarrow> None)"

text \<open>The literals in the order the fold visits them.\<close>

definition clause_literals ::
  "learnt_clauses \<Rightarrow> sorted_candidates \<Rightarrow> disjunctions \<Rightarrow> clause \<Rightarrow> literal list option" where
  "clause_literals lcs rcs djs c = visit_literals lcs rcs djs c [] (\<lambda>ls l. ls @ [l])"

lemma try_fold_continue: "try_fold ls s (\<lambda>s l. Continue (f s l)) = Continue (foldl f s ls)"
  by (induction ls arbitrary: s) auto

lemma foldl_snoc: "foldl (\<lambda>ls l. ls @ [l]) acc ls = acc @ ls"
  by (induction ls arbitrary: acc) auto

lemma clause_literals_simps [simp]:
  "clause_literals lcs rcs djs InstallRoot = None"
  "clause_literals lcs rcs djs (Excluded v s) = Some [negative v]"
  "clause_literals lcs rcs djs (Learnt i) = slice_get lcs i"
  "clause_literals lcs rcs djs (Requires v d r) =
     Option.bind (disjunction_literals djs d) (\<lambda>ds. map_option (\<lambda>cs. negative v # ds @ map positive (concat cs)) (rcs r))"
  "clause_literals lcs rcs djs (Constrains v w vs) = Some [negative v, negative w]"
  "clause_literals lcs rcs djs (ConstrainsExcluded v w vs) = Some [negative v, positive w]"
  "clause_literals lcs rcs djs (ConstrainsParent v w vs) = Some [negative v, negative w]"
  "clause_literals lcs rcs djs (ForbidMultipleInstances v l n) = Some [negative v, l]"
  "clause_literals lcs rcs djs (Lock x v) = Some [negative v, negative 0]"
  "clause_literals lcs rcs djs (AnyOf v w) = Some [positive v, negative w]"
  by (auto simp: clause_literals_def visit_literals_def try_fold_continue foldl_snoc slice_get_def
      split: option.splits bind_splits)

text \<open>The fold of the source is the fold over these literals, for every visitor.\<close>

lemma try_fold_literals_eq:
  "try_fold_literals lcs rcs djs c acc visit =
    map_option (\<lambda>ls. try_fold ls acc visit) (clause_literals lcs rcs djs c)"
  by (cases c) (auto split: control_flow.split bind_splits option.splits)

lemma visit_literals_eq:
  "visit_literals lcs rcs djs c s visit = map_option (foldl visit s) (clause_literals lcs rcs djs c)"
  by (auto simp: visit_literals_def try_fold_literals_eq try_fold_continue
      split: option.split bind_splits)

lemma binary_literals: "is_binary c \<Longrightarrow> \<exists>a b. clause_literals lcs rcs djs c = Some [a, b]"
  by (cases c) auto

section \<open>Watched literals\<close>

text \<open>A Rust array of two elements, indexed by 0 and 1.\<close>

type_synonym 'a arr2 = "'a \<times> 'a"

definition arr2_get :: "'a arr2 \<Rightarrow> nat \<Rightarrow> 'a" where
  "arr2_get a i = (if i = 0 then fst a else snd a)"

definition arr2_set :: "'a arr2 \<Rightarrow> nat \<Rightarrow> 'a \<Rightarrow> 'a arr2" where
  "arr2_set a i x = (if i = 0 then (x, snd a) else (fst a, x))"

record watched_literals =
  wl_watched :: "literal arr2"
  wl_next :: "clause_id option arr2"

definition from_kind_and_initial_watches :: "literal arr2 option \<Rightarrow> watched_literals option" where
  "from_kind_and_initial_watches w = map_option (\<lambda>ws. \<lparr>wl_watched = ws, wl_next = (None, None)\<rparr>) w"

text \<open>The constructors of \<open>impl Clause\<close>: the kind, the initial watches, and the conflict flag.\<close>

definition Clause_requires ::
  "variable_id \<Rightarrow> requirement \<Rightarrow> variable_id list \<Rightarrow> (disjunction_id \<times> literal list) option \<Rightarrow>
    decision_tracker \<Rightarrow> clause \<times> literal arr2 option \<times> bool" where
  "Clause_requires parent requirement candidates condition t =
     (let parent_is_false = (assigned_value t parent = Some False);
          kind = Requires parent (map_option fst condition) requirement;
          condition_literals = (case condition of None \<Rightarrow> [] | Some (_, ls) \<Rightarrow> ls);
          literals = condition_literals @ map positive candidates
      in case literals of
           [] \<Rightarrow> (kind, None, False)
         | first_literal # _ \<Rightarrow>
             (case List.find (\<lambda>c. eval c (dt_map t) \<noteq> Some False) literals of
                Some watched_candidate \<Rightarrow> (kind, Some (negative parent, watched_candidate), False)
              | None \<Rightarrow> (kind, Some (negative parent, first_literal), \<not> parent_is_false)))"

definition Clause_constrains ::
  "variable_id \<Rightarrow> variable_id \<Rightarrow> version_set_id \<Rightarrow> decision_tracker \<Rightarrow> clause \<times> literal arr2 option \<times> bool" where
  "Clause_constrains parent forbidden via t =
     (let parent_is_false = (assigned_value t parent = Some False);
          conflict = (\<not> parent_is_false \<and> assigned_value t forbidden = Some True)
      in (Constrains parent forbidden via, Some (negative parent, negative forbidden), conflict))"

definition Clause_constrains_excluded ::
  "variable_id \<Rightarrow> variable_id \<Rightarrow> version_set_id \<Rightarrow> clause \<times> literal arr2 option" where
  "Clause_constrains_excluded candidate aux via =
     (ConstrainsExcluded candidate aux via, Some (negative candidate, positive aux))"

definition Clause_constrains_parent ::
  "variable_id \<Rightarrow> variable_id \<Rightarrow> version_set_id \<Rightarrow> decision_tracker \<Rightarrow> clause \<times> literal arr2 option \<times> bool" where
  "Clause_constrains_parent parent aux via t =
     (let parent_is_false = (assigned_value t parent = Some False);
          conflict = (\<not> parent_is_false \<and> assigned_value t aux = Some True)
      in (ConstrainsParent parent aux via, Some (negative parent, negative aux), conflict))"

definition Clause_forbid_multiple :: "variable_id \<Rightarrow> literal \<Rightarrow> name_id \<Rightarrow> clause \<times> literal arr2 option" where
  "Clause_forbid_multiple candidate constrained_candidate name =
     (ForbidMultipleInstances candidate constrained_candidate name,
      Some (negative candidate, constrained_candidate))"

definition Clause_root :: "clause \<times> literal arr2 option" where
  "Clause_root = (InstallRoot, None)"

definition Clause_exclude :: "variable_id \<Rightarrow> string_id \<Rightarrow> clause \<times> literal arr2 option" where
  "Clause_exclude candidate reason = (Excluded candidate reason, None)"

definition Clause_lock :: "variable_id \<Rightarrow> variable_id \<Rightarrow> clause \<times> literal arr2 option" where
  "Clause_lock locked_candidate other_candidate =
     (Lock locked_candidate other_candidate, Some (negative 0, negative other_candidate))"

text \<open>On an empty slice \<open>first().unwrap()\<close> panics; \<open>analyze\<close> never passes one.\<close>

definition Clause_learnt :: "learnt_clause_id \<Rightarrow> literal list \<Rightarrow> (clause \<times> literal arr2 option) option" where
  "Clause_learnt lid ls =
     (if ls = [] then None
      else Some (Learnt lid, if length ls = 1 then None else Some (hd ls, last ls)))"

definition Clause_any_of :: "variable_id \<Rightarrow> variable_id \<Rightarrow> clause \<times> literal arr2 option" where
  "Clause_any_of selected_var other_var =
     (AnyOf selected_var other_var, Some (positive selected_var, negative other_var))"

text \<open>The shorthands of \<open>impl WatchedLiterals\<close>.\<close>

definition WatchedLiterals_root :: "watched_literals option \<times> clause" where
  "WatchedLiterals_root = (case Clause_root of (kind, w) \<Rightarrow> (from_kind_and_initial_watches w, kind))"

definition WatchedLiterals_requires ::
  "variable_id \<Rightarrow> requirement \<Rightarrow> variable_id list \<Rightarrow> (disjunction_id \<times> literal list) option \<Rightarrow>
    decision_tracker \<Rightarrow> watched_literals option \<times> bool \<times> clause" where
  "WatchedLiterals_requires candidate requirement matching condition t =
     (case Clause_requires candidate requirement matching condition t of (kind, w, conflict) \<Rightarrow>
        (from_kind_and_initial_watches w, conflict, kind))"

definition WatchedLiterals_constrains ::
  "variable_id \<Rightarrow> variable_id \<Rightarrow> version_set_id \<Rightarrow> decision_tracker \<Rightarrow>
    watched_literals option \<times> bool \<times> clause" where
  "WatchedLiterals_constrains candidate constrained requirement t =
     (case Clause_constrains candidate constrained requirement t of (kind, w, conflict) \<Rightarrow>
        (from_kind_and_initial_watches w, conflict, kind))"

definition WatchedLiterals_constrains_excluded ::
  "variable_id \<Rightarrow> variable_id \<Rightarrow> version_set_id \<Rightarrow> watched_literals option \<times> clause" where
  "WatchedLiterals_constrains_excluded candidate aux requirement =
     (case Clause_constrains_excluded candidate aux requirement of (kind, w) \<Rightarrow>
        (from_kind_and_initial_watches w, kind))"

definition WatchedLiterals_constrains_parent ::
  "variable_id \<Rightarrow> variable_id \<Rightarrow> version_set_id \<Rightarrow> decision_tracker \<Rightarrow>
    watched_literals option \<times> bool \<times> clause" where
  "WatchedLiterals_constrains_parent parent aux requirement t =
     (case Clause_constrains_parent parent aux requirement t of (kind, w, conflict) \<Rightarrow>
        (from_kind_and_initial_watches w, conflict, kind))"

definition WatchedLiterals_lock :: "variable_id \<Rightarrow> variable_id \<Rightarrow> watched_literals option \<times> clause" where
  "WatchedLiterals_lock locked other =
     (case Clause_lock locked other of (kind, w) \<Rightarrow> (from_kind_and_initial_watches w, kind))"

definition WatchedLiterals_forbid_multiple ::
  "variable_id \<Rightarrow> literal \<Rightarrow> name_id \<Rightarrow> watched_literals option \<times> clause" where
  "WatchedLiterals_forbid_multiple candidate other name =
     (case Clause_forbid_multiple candidate other name of (kind, w) \<Rightarrow>
        (from_kind_and_initial_watches w, kind))"

definition WatchedLiterals_learnt ::
  "learnt_clause_id \<Rightarrow> literal list \<Rightarrow> (watched_literals option \<times> clause) option" where
  "WatchedLiterals_learnt lid ls =
     map_option (\<lambda>(kind, w). (from_kind_and_initial_watches w, kind)) (Clause_learnt lid ls)"

definition WatchedLiterals_exclude :: "variable_id \<Rightarrow> string_id \<Rightarrow> watched_literals option \<times> clause" where
  "WatchedLiterals_exclude candidate reason =
     (case Clause_exclude candidate reason of (kind, w) \<Rightarrow> (from_kind_and_initial_watches w, kind))"

definition WatchedLiterals_any_of :: "variable_id \<Rightarrow> variable_id \<Rightarrow> watched_literals option \<times> clause" where
  "WatchedLiterals_any_of selected other =
     (case Clause_any_of selected other of (kind, w) \<Rightarrow> (from_kind_and_initial_watches w, kind))"

text \<open>
  \<open>next_unwatched_literal\<close>: \<open>None\<close> is a panic (\<open>unreachable!\<close> or a failed index), the inner
  \<open>option\<close> is the result.
\<close>

definition next_unwatched_literal ::
  "watched_literals \<Rightarrow> clause \<Rightarrow> learnt_clauses \<Rightarrow> sorted_candidates \<Rightarrow> disjunctions \<Rightarrow> decision_map \<Rightarrow>
    nat \<Rightarrow> literal option option" where
  "next_unwatched_literal w c lcs rcs djs m for_watch_index =
     (let other_watch_index = 1 - for_watch_index in
      case c of
        InstallRoot \<Rightarrow> None
      | Excluded _ _ \<Rightarrow> None
      | _ \<Rightarrow>
        if is_binary c then Some None
        else map_option (\<lambda>r. case r of Break l \<Rightarrow> Some l | Continue _ \<Rightarrow> None)
          (try_fold_literals lcs rcs djs c () (\<lambda>_ l.
             if arr2_get (wl_watched w) other_watch_index \<noteq> l \<and>
                (case eval l m of None \<Rightarrow> True | Some b \<Rightarrow> b)
             then Break l else Continue ())))"

section \<open>What the constructors and the search guarantee\<close>

lemma arr2_simps [simp]:
  "arr2_get (a, b) 0 = a" "arr2_get (a, b) (Suc 0) = b"
  "arr2_set (a, b) 0 x = (x, b)" "arr2_set (a, b) (Suc 0) x = (a, x)"
  by (simp_all add: arr2_get_def arr2_set_def)

lemma arr2_get_set:
  "i < 2 \<Longrightarrow> j < 2 \<Longrightarrow> arr2_get (arr2_set a i x) j = (if j = i then x else arr2_get a j)"
  by (cases a) (auto simp: arr2_get_def arr2_set_def)

lemma try_fold_find:
  "try_fold ls () (\<lambda>_ l. if P l then Break l else Continue ()) =
    (case List.find P ls of Some l \<Rightarrow> Break l | None \<Rightarrow> Continue ())"
  by (induction ls) auto

text \<open>A replacement watch: not the other watch, and not false.\<close>

definition can_watch :: "decision_map \<Rightarrow> literal \<Rightarrow> literal \<Rightarrow> bool" where
  "can_watch m other l \<longleftrightarrow> l \<noteq> other \<and> eval l m \<noteq> Some False"

lemma next_unwatched_literal_eq:
  assumes "c \<noteq> InstallRoot" "\<And>v s. c \<noteq> Excluded v s"
  shows "next_unwatched_literal w c lcs rcs djs m i =
    (if is_binary c then Some None
     else map_option (List.find (can_watch m (arr2_get (wl_watched w) (1 - i))))
       (clause_literals lcs rcs djs c))"
proof -
  have can: "can_watch m k = (\<lambda>l. k \<noteq> l \<and> (case eval l m of None \<Rightarrow> True | Some b \<Rightarrow> b))" for k
    by (auto simp: can_watch_def fun_eq_iff split: option.split)
  have res: "(case (case List.find P ls of Some l \<Rightarrow> Break l | None \<Rightarrow> Continue ()) of
      Break l \<Rightarrow> Some l | Continue _ \<Rightarrow> None) = List.find P ls" for P :: "literal \<Rightarrow> bool" and ls
    by (auto split: option.split)
  show ?thesis
  proof (cases c)
    case (Excluded v s)
    with assms(2) show ?thesis by blast
  qed (use assms(1) in \<open>simp_all add: can next_unwatched_literal_def Let_def try_fold_literals_eq
      try_fold_find option.map_comp o_def res\<close>)
qed

lemma find_SomeD: "List.find P xs = Some x \<Longrightarrow> x \<in> set xs \<and> P x"
  by (auto simp: find_Some_iff)

text \<open>
  The static shape of a clause's watches: its literals are known, both watches are distinct
  literals of the clause, and a binary clause has no others.
\<close>

definition watches_of ::
  "learnt_clauses \<Rightarrow> sorted_candidates \<Rightarrow> disjunctions \<Rightarrow> clause \<Rightarrow> watched_literals \<Rightarrow> bool" where
  "watches_of lcs rcs djs c w \<longleftrightarrow>
     (\<forall>v s. c \<noteq> Excluded v s) \<and>
     (\<exists>ls. clause_literals lcs rcs djs c = Some ls \<and>
       fst (wl_watched w) \<in> set ls \<and> snd (wl_watched w) \<in> set ls \<and>
       fst (wl_watched w) \<noteq> snd (wl_watched w) \<and>
       (is_binary c \<longrightarrow> set ls = {fst (wl_watched w), snd (wl_watched w)}))"

lemma watches_of_kind: "watches_of lcs rcs djs c w \<Longrightarrow> c \<noteq> InstallRoot \<and> (\<forall>v s. c \<noteq> Excluded v s)"
  by (auto simp: watches_of_def)

lemma watches_of_next [simp]: "watches_of lcs rcs djs c (w\<lparr>wl_next := n\<rparr>) = watches_of lcs rcs djs c w"
  by (simp add: watches_of_def)

lemma watches_of_get:
  "watches_of lcs rcs djs c w \<Longrightarrow> clause_literals lcs rcs djs c = Some ls \<Longrightarrow>
    arr2_get (wl_watched w) i \<in> set ls"
  by (auto simp: watches_of_def arr2_get_def)

text \<open>The search finds a literal to watch, or shows that the clause has become unit or false.\<close>

lemma next_unwatched_literal_total:
  assumes "watches_of lcs rcs djs c w"
  shows "\<exists>r. next_unwatched_literal w c lcs rcs djs m i = Some r"
  using assms watches_of_kind [OF assms]
  by (auto simp: next_unwatched_literal_eq watches_of_def)

lemma next_unwatched_literal_found:
  assumes "watches_of lcs rcs djs c w" "next_unwatched_literal w c lcs rcs djs m i = Some (Some l)"
    "i < 2" "eval (arr2_get (wl_watched w) i) m = Some False"
  shows "eval l m \<noteq> Some False" "l \<noteq> arr2_get (wl_watched w) i"
    "watches_of lcs rcs djs c (w\<lparr>wl_watched := arr2_set (wl_watched w) i l\<rparr>)"
proof -
  from assms(1) obtain ls where ls: "clause_literals lcs rcs djs c = Some ls"
    by (auto simp: watches_of_def)
  with assms(1,2) watches_of_kind [OF assms(1)]
  have nb: "\<not> is_binary c"
    and l: "l \<in> set ls" "can_watch m (arr2_get (wl_watched w) (1 - i)) l"
    by (auto simp: next_unwatched_literal_eq split: if_splits dest!: find_SomeD)
  then show "eval l m \<noteq> Some False" by (simp add: can_watch_def)
  with assms(4) show "l \<noteq> arr2_get (wl_watched w) i" by auto
  have "i = 0 \<or> i = 1" using assms(3) by auto
  then show "watches_of lcs rcs djs c (w\<lparr>wl_watched := arr2_set (wl_watched w) i l\<rparr>)"
    using assms(1) ls l nb
    by (cases "wl_watched w") (auto simp: watches_of_def can_watch_def)
qed

lemma next_unwatched_literal_none:
  assumes "watches_of lcs rcs djs c w" "next_unwatched_literal w c lcs rcs djs m i = Some None"
    "i < 2" "eval (arr2_get (wl_watched w) i) m = Some False"
    "clause_literals lcs rcs djs c = Some ls" "l \<in> set ls"
  shows "l = arr2_get (wl_watched w) (1 - i) \<or> eval l m = Some False"
proof (cases "is_binary c")
  case True
  with assms(1,5) have "set ls = {fst (wl_watched w), snd (wl_watched w)}"
    by (auto simp: watches_of_def)
  moreover have "i = 0 \<or> i = 1" using assms(3) by auto
  ultimately show ?thesis using assms(4,6) by (auto simp: arr2_get_def)
next
  case False
  with assms watches_of_kind [OF assms(1)] show ?thesis
    by (auto simp: next_unwatched_literal_eq find_None_iff can_watch_def)
qed

section \<open>Properties\<close>

text \<open>Property C10. The search for a replacement watch is exact. On a clause whose two watches
  are distinct literals of it, one of which has become false, the search never panics; if it
  returns a literal, that literal belongs to the clause, is not false and keeps the watches
  distinct; if it returns none, every literal except the other watch is false, so the clause
  is unit or falsified. The shortcut for binary clauses does not change this.\<close>

theorem next_unwatched_literal_exact:
  assumes "watches_of lcs rcs djs c w" "i < 2" "eval (arr2_get (wl_watched w) i) m = Some False"
  shows "(\<exists>l. next_unwatched_literal w c lcs rcs djs m i = Some (Some l) \<and> eval l m \<noteq> Some False \<and>
            watches_of lcs rcs djs c (w\<lparr>wl_watched := arr2_set (wl_watched w) i l\<rparr>)) \<or>
    (next_unwatched_literal w c lcs rcs djs m i = Some None \<and>
      (\<forall>ls. clause_literals lcs rcs djs c = Some ls \<longrightarrow>
        (\<forall>l \<in> set ls. l = arr2_get (wl_watched w) (1 - i) \<or> eval l m = Some False)))"
proof -
  from next_unwatched_literal_total [OF assms(1)] obtain r
    where r: "next_unwatched_literal w c lcs rcs djs m i = Some r" by blast
  show ?thesis
  proof (cases r)
    case None
    with r next_unwatched_literal_none [OF assms(1) _ assms(2,3)] show ?thesis by blast
  next
    case (Some l)
    with r next_unwatched_literal_found [OF assms(1) _ assms(2,3)] show ?thesis by blast
  qed
qed

definition example_map :: decision_map where
  "example_map = DecisionMap_set DecisionMap_default 1 True 1"

theorem next_unwatched_literal_exact_witness:
  "\<exists>l. next_unwatched_literal \<lparr>wl_watched = (negative 1, positive 2), wl_next = (None, None)\<rparr>
     (Requires 1 None (Single 0)) [] [Single 0 \<mapsto> [[2, 3]]] [] example_map 0 = Some (Some l) \<and>
     eval l example_map \<noteq> Some False"
proof -
  let ?w = "\<lparr>wl_watched = (negative 1, positive 2), wl_next = (None, None)\<rparr>"
  have v: "DecisionMap_value example_map x = (if x = 1 then Some True else None)" for x
    by (simp add: example_map_def valid_level_def)
  have "watches_of [] [Single 0 \<mapsto> [[2, 3]]] [] (Requires 1 None (Single 0)) ?w"
    by (simp add: watches_of_def disjunction_literals_def)
  moreover have "eval (arr2_get (wl_watched ?w) 0) example_map = Some False"
    by (simp add: eval_def v)
  moreover have "\<not> (\<forall>l \<in> set [negative 1, positive 2, positive 3].
      l = arr2_get (wl_watched ?w) (1 - 0) \<or> eval l example_map = Some False)"
    by (simp add: eval_def v)
  ultimately show ?thesis
    using next_unwatched_literal_exact [of "[]" "[Single 0 \<mapsto> [[2, 3]]]" "[]"
        "Requires 1 None (Single 0)" ?w 0 example_map]
    by (simp add: disjunction_literals_def) blast
qed

lemma WatchedLiterals_requires_spec:
  assumes "WatchedLiterals_requires parent r cands cond t = (w, conflict, kind)"
    and "others = (case cond of None \<Rightarrow> [] | Some (_, ls) \<Rightarrow> ls) @ map positive cands"
  shows "kind = Requires parent (map_option fst cond) r \<and> (w = None \<longleftrightarrow> others = []) \<and>
    (conflict \<longleftrightarrow> others \<noteq> [] \<and> (\<forall>l \<in> set others. eval l (dt_map t) = Some False) \<and>
       assigned_value t parent \<noteq> Some False) \<and>
    (\<forall>ws. w = Some ws \<longrightarrow> fst (wl_watched ws) = negative parent \<and> snd (wl_watched ws) \<in> set others \<and>
       wl_next ws = (None, None) \<and>
       (\<not> conflict \<longrightarrow> eval (snd (wl_watched ws)) (dt_map t) \<noteq> Some False \<or>
          eval (negative parent) (dt_map t) = Some True))"
proof -
  let ?nf = "\<lambda>c. eval c (dt_map t) \<noteq> Some False"
  have par: "eval (negative parent) (dt_map t) = Some True \<longleftrightarrow> assigned_value t parent = Some False"
    by (simp add: eval_True_iff assigned_value_def)
  have kind: "kind = Requires parent (map_option fst cond) r"
    and w: "(w, conflict) =
      (if others = [] then (None, False)
       else case List.find ?nf others of
         Some l \<Rightarrow> (Some \<lparr>wl_watched = (negative parent, l), wl_next = (None, None)\<rparr>, False)
       | None \<Rightarrow> (Some \<lparr>wl_watched = (negative parent, hd others), wl_next = (None, None)\<rparr>,
                  assigned_value t parent \<noteq> Some False))"
    using assms(1)
    unfolding WatchedLiterals_requires_def Clause_requires_def Let_def assms(2) [symmetric]
      from_kind_and_initial_watches_def
    by (cases others; cases "List.find ?nf others"; simp)+
  show ?thesis
  proof (cases "List.find ?nf others")
    case None
    then have all: "\<forall>l \<in> set others. eval l (dt_map t) = Some False" by (simp add: find_None_iff)
    show ?thesis
    proof (cases "others = []")
      case False
      then have "hd others \<in> set others" by simp
      with False None kind w all par show ?thesis by simp
    qed (use kind w in simp)
  next
    case (Some l)
    from find_SomeD [OF this] have l: "l \<in> set others" "?nf l" by simp_all
    then have "others \<noteq> []" by auto
    with Some l kind w show ?thesis by auto
  qed
qed

text \<open>Property C11. A new requires clause starts with correct watches. It has watches exactly
  when there is a condition literal or a candidate; the watches are the negated parent and
  another literal of the clause; the conflict flag is raised exactly when all the other
  literals are false and the parent is not; and without the flag the second watch is not
  false, or the clause is already satisfied by the parent being false.\<close>

theorem requires_initial_watches:
  assumes "WatchedLiterals_requires parent r cands cond t = (w, conflict, kind)"
    and "others = (case cond of None \<Rightarrow> [] | Some (_, ls) \<Rightarrow> ls) @ map positive cands"
  shows "kind = Requires parent (map_option fst cond) r \<and> (w = None \<longleftrightarrow> others = []) \<and>
    (conflict \<longleftrightarrow> others \<noteq> [] \<and> (\<forall>l \<in> set others. eval l (dt_map t) = Some False) \<and>
       assigned_value t parent \<noteq> Some False) \<and>
    (\<forall>ws. w = Some ws \<longrightarrow> fst (wl_watched ws) = negative parent \<and> snd (wl_watched ws) \<in> set others \<and>
       wl_next ws = (None, None) \<and>
       (\<not> conflict \<longrightarrow> eval (snd (wl_watched ws)) (dt_map t) \<noteq> Some False \<or>
          eval (negative parent) (dt_map t) = Some True))"
  using assms by (rule WatchedLiterals_requires_spec)

theorem requires_initial_watches_witness:
  "case WatchedLiterals_requires 1 (Single 0) [2, 3] None DecisionTracker_default of
     (w, conflict, kind) \<Rightarrow> w \<noteq> None \<and> \<not> conflict"
proof -
  obtain w conflict kind where
    e: "WatchedLiterals_requires 1 (Single 0) [2, 3] None DecisionTracker_default = (w, conflict, kind)"
    by (metis prod_cases3)
  have "eval (positive 2) (dt_map DecisionTracker_default) = None"
    by (simp add: eval_def DecisionTracker_default_def)
  with requires_initial_watches [OF e refl] e show ?thesis by auto
qed

end
