(* ===== verification/Provider.thy ===== *)
theory Provider
  imports Requirements "HOL-Library.Word"
begin

text \<open>
  What the solver asks of its environment: the read-only questions of the traits \<open>Interner\<close>
  and \<open>DependencyProvider\<close> of \<open>src/lib.rs\<close>, which users of the crate implement, and the
  floating-point operations on activity scores. Both are parameters of the model: records of
  functions passed to the definitions that use them.
\<close>

record provider =
  pv_solvable_name :: "solvable_id \<Rightarrow> name_id"
  pv_version_set_name :: "version_set_id \<Rightarrow> name_id"
  pv_version_sets_in_union :: "version_set_union_id \<Rightarrow> version_set_id list"
  pv_resolve_condition :: "condition_id \<Rightarrow> condition"

section \<open>What a provider answers\<close>

datatype hint_dependencies_available = Hint_None | Hint_All | Hint_Some "solvable_id list"

record candidates =
  ca_candidates :: "solvable_id list"
  ca_favored :: "solvable_id option"
  ca_locked :: "solvable_id option"
  ca_hint_dependencies_available :: hint_dependencies_available
  ca_excluded :: "(solvable_id \<times> string_id) list"
  ca_allow_multiple :: bool

definition Candidates_default :: candidates where
  "Candidates_default = \<lparr>ca_candidates = [], ca_favored = None, ca_locked = None,
     ca_hint_dependencies_available = Hint_None, ca_excluded = [], ca_allow_multiple = False\<rparr>"

record known_dependencies =
  kd_requirements :: "conditional_requirement list"
  kd_constrains :: "version_set_id list"

datatype dependencies = Known known_dependencies | Unknown string_id

text \<open>
  \<open>DependencyProvider\<close>: the questions that may take time. Sorting is in place in the source;
  here it is the function from the list before to the list after.
\<close>

record dependency_provider =
  dp_interner :: provider
  dp_filter_candidates :: "solvable_id list \<Rightarrow> version_set_id \<Rightarrow> bool \<Rightarrow> solvable_id list"
  dp_get_candidates :: "name_id \<Rightarrow> candidates option"
  dp_sort_candidates :: "solvable_id list \<Rightarrow> solvable_id list"
  dp_get_dependencies :: "solvable_id \<Rightarrow> dependencies"

section \<open>Activities\<close>

text \<open>An \<open>f32\<close> is its 32-bit pattern; the arithmetic on it is a parameter.\<close>

type_synonym f32 = "32 word"

record f32_ops =
  f32_zero :: f32
  f32_add :: "f32 \<Rightarrow> f32 \<Rightarrow> f32"
  f32_mul :: "f32 \<Rightarrow> f32 \<Rightarrow> f32"
  f32_gt :: "f32 \<Rightarrow> f32 \<Rightarrow> bool"
  f32_ge :: "f32 \<Rightarrow> f32 \<Rightarrow> bool"
  f32_eq :: "f32 \<Rightarrow> f32 \<Rightarrow> bool"

abbreviation requirement_version_sets :: "provider \<Rightarrow> requirement \<Rightarrow> version_set_id list" where
  "requirement_version_sets pv r \<equiv> Requirement_version_sets (pv_version_sets_in_union pv) r"

end
