(* ===== verification/Decide_Queue.thy ===== *)
theory Decide_Queue
  imports Clauses Provider
begin

text \<open>
  The incremental work queue that finds the next decision, \<open>src/solver/decide_queue.rs\<close>. A
  requires clause is eligible when its parent is true, its condition holds and no candidate
  is true; the queue keeps a superset of the eligible clauses up to date from the changes of
  the trail. The ordered maps (\<open>BTreeMap\<close>) are association lists sorted by key.
\<close>

section \<open>Ordered maps\<close>

fun bt_insert :: "nat \<Rightarrow> 'v \<Rightarrow> (nat \<times> 'v) list \<Rightarrow> (nat \<times> 'v) list" where
  "bt_insert k v [] = [(k, v)]"
| "bt_insert k v ((k', v') # m) =
     (if k < k' then (k, v) # (k', v') # m
      else if k = k' then (k, v) # m
      else (k', v') # bt_insert k v m)"

definition bt_remove :: "nat \<Rightarrow> (nat \<times> 'v) list \<Rightarrow> (nat \<times> 'v) list" where
  "bt_remove k m = filter (\<lambda>kv. fst kv \<noteq> k) m"

text \<open>The first entry whose key is above a bound.\<close>

definition bt_after :: "nat \<Rightarrow> (nat \<times> 'v) list \<Rightarrow> (nat \<times> 'v) option" where
  "bt_after k m = List.find (\<lambda>kv. k < fst kv) m"

section \<open>The state\<close>

text \<open>\<open>ClausePosition::new\<close>: parent and list position in one \<open>u64\<close>; the assertion panics.\<close>

definition ClausePosition_new :: "nat \<Rightarrow> nat \<Rightarrow> nat option" where
  "ClausePosition_new parent_pos clause_pos =
     (if parent_pos < 2 ^ 32 - 1 \<and> clause_pos < 2 ^ 32 - 1
      then Some (push_bit 32 parent_pos OR clause_pos) else None)"

record tracked_clause =
  tc_position :: nat
  tc_parent :: variable_id
  tc_requirement :: requirement
  tc_condition :: "disjunction_id option"
  tc_clause_id :: clause_id
  tc_hot :: bool

datatype requirement_state =
    Dirty
  | Satisfied variable_id
  | Frontier variable_id version_set_id nat

record requirement_entry =
  re_state :: requirement_state
  re_occurrences_registered :: bool

record queue_decision =
  qd_candidate :: variable_id
  qd_required_by :: variable_id
  qd_clause_id :: clause_id
  qd_package_activity :: f32
  qd_candidate_count :: nat

record decide_queue =
  dq_clauses :: "tracked_clause list"
  dq_parent_positions :: "variable_id \<rightharpoonup> nat"
  dq_clauses_by_parent :: "nat list list"
  dq_queue :: "(nat \<times> nat) list"
  dq_hot_queue :: "(nat \<times> nat) list"
  dq_hot_names :: "name_id set"
  dq_clauses_by_name :: "name_id \<rightharpoonup> nat list"
  dq_requirements_by_candidate :: "variable_id \<rightharpoonup> requirement list"
  dq_clauses_by_condition_variable :: "variable_id \<rightharpoonup> nat list"
  dq_requirement_states :: "requirement \<rightharpoonup> requirement_entry"
  dq_clauses_by_requirement :: "requirement \<rightharpoonup> nat list"
  dq_mirror :: "variable_id list"
  dq_hot_only :: bool

definition DecideQueue_default :: decide_queue where
  "DecideQueue_default = \<lparr>dq_clauses = [], dq_parent_positions = Map.empty, dq_clauses_by_parent = [],
     dq_queue = [], dq_hot_queue = [], dq_hot_names = {}, dq_clauses_by_name = Map.empty,
     dq_requirements_by_candidate = Map.empty, dq_clauses_by_condition_variable = Map.empty,
     dq_requirement_states = Map.empty, dq_clauses_by_requirement = Map.empty, dq_mirror = [],
     dq_hot_only = True\<rparr>"

text \<open>\<open>map.entry(k).or_default().push(x)\<close>.\<close>

definition entry_push :: "('k \<rightharpoonup> 'v list) \<Rightarrow> 'k \<Rightarrow> 'v \<Rightarrow> ('k \<rightharpoonup> 'v list)" where
  "entry_push m k x = m(k \<mapsto> (case m k of None \<Rightarrow> [] | Some xs \<Rightarrow> xs) @ [x])"

section \<open>Operations\<close>

definition set_standard_activity_params :: "bool \<Rightarrow> decide_queue \<Rightarrow> decide_queue" where
  "set_standard_activity_params standard q = q\<lparr>dq_hot_only := standard\<rparr>"

text \<open>\<open>enqueue_clause\<close>, on the two ordered maps.\<close>

definition enqueue_clause :: "decision_map \<Rightarrow> decide_queue \<Rightarrow> nat \<Rightarrow> decide_queue option" where
  "enqueue_clause dm q i = Option.bind (slice_get (dq_clauses q) i) (\<lambda>c.
     if DecisionMap_value dm (tc_parent c) \<noteq> Some True then Some q
     else let q1 = q\<lparr>dq_queue := bt_insert (tc_position c) i (dq_queue q)\<rparr>
          in Some (if tc_hot c then q1\<lparr>dq_hot_queue := bt_insert (tc_position c) i (dq_hot_queue q1)\<rparr> else q1))"

text \<open>A loop whose body can panic.\<close>

fun fold_opt :: "('s \<Rightarrow> 'a \<Rightarrow> 's option) \<Rightarrow> 's \<Rightarrow> 'a list \<Rightarrow> 's option" where
  "fold_opt f s [] = Some s"
| "fold_opt f s (x # xs) = Option.bind (f s x) (\<lambda>s'. fold_opt f s' xs)"

text \<open>The loop over the names: deduplicated, marking the clause hot, filling the name list.\<close>

definition register_name ::
  "nat \<Rightarrow> bool \<times> name_id list \<times> decide_queue \<Rightarrow> name_id \<Rightarrow> bool \<times> name_id list \<times> decide_queue" where
  "register_name i = (\<lambda>(hot, seen_names, q) name.
     if name \<in> set seen_names then (hot, seen_names, q)
     else (hot \<or> name \<in> dq_hot_names q, seen_names @ [name],
           q\<lparr>dq_clauses_by_name := entry_push (dq_clauses_by_name q) name i\<rparr>))"

definition register_clause ::
  "variable_id \<Rightarrow> requirement \<Rightarrow> disjunction_id option \<Rightarrow> clause_id \<Rightarrow> name_id list \<Rightarrow> disjunctions \<Rightarrow>
    bool option \<Rightarrow> decide_queue \<Rightarrow> decide_queue option" where
  "register_clause parent requirement condition clause_id names djs parent_value q =
     (let (parent_pos, q1) = (case dq_parent_positions q parent of
            Some p \<Rightarrow> (p, q)
          | None \<Rightarrow> (length (dq_clauses_by_parent q),
              q\<lparr>dq_clauses_by_parent := dq_clauses_by_parent q @ [[]],
                dq_parent_positions := (dq_parent_positions q)(parent \<mapsto> length (dq_clauses_by_parent q))\<rparr>))
      in do {
        siblings \<leftarrow> slice_get (dq_clauses_by_parent q1) parent_pos;
        position \<leftarrow> ClausePosition_new parent_pos (length siblings);
        let i = length (dq_clauses q1);
        let (hot, _, q2) = foldl (register_name i) (False, [], q1) names;
        q3 \<leftarrow> (case condition of
            None \<Rightarrow> Some q2
          | Some d \<Rightarrow> Option.bind (slice_get djs d) (\<lambda>dj.
              Some (q2\<lparr>dq_clauses_by_condition_variable :=
                foldl (\<lambda>m l. entry_push m (variable l) i) (dq_clauses_by_condition_variable q2) (dj_literals dj)\<rparr>)));
        let q4 = q3\<lparr>dq_requirement_states := (case dq_requirement_states q3 requirement of
                     None \<Rightarrow> (dq_requirement_states q3)
                       (requirement \<mapsto> \<lparr>re_state = Dirty, re_occurrences_registered = False\<rparr>)
                   | Some _ \<Rightarrow> dq_requirement_states q3),
                   dq_clauses_by_requirement := entry_push (dq_clauses_by_requirement q3) requirement i,
                   dq_clauses_by_parent := (dq_clauses_by_parent q3)[parent_pos := siblings @ [i]],
                   dq_clauses := dq_clauses q3 @ [\<lparr>tc_position = position, tc_parent = parent,
                     tc_requirement = requirement, tc_condition = condition, tc_clause_id = clause_id,
                     tc_hot = hot\<rparr>]\<rparr>;
        let q5 = (if parent_value = Some True
                  then q4\<lparr>dq_queue := bt_insert position i (dq_queue q4),
                          dq_hot_queue := (if hot then bt_insert position i (dq_hot_queue q4)
                                           else dq_hot_queue q4)\<rparr>
                  else q4);
        Some q5
      })"

definition mark_clause_hot :: "decide_queue \<Rightarrow> nat \<Rightarrow> decide_queue option" where
  "mark_clause_hot q i = Option.bind (slice_get (dq_clauses q) i) (\<lambda>c.
     if tc_hot c then Some q
     else let q1 = q\<lparr>dq_clauses := (dq_clauses q)[i := c\<lparr>tc_hot := True\<rparr>]\<rparr>
          in Some (case map_of (dq_queue q1) (tc_position c) of
               Some queued \<Rightarrow> q1\<lparr>dq_hot_queue := bt_insert (tc_position c) queued (dq_hot_queue q1)\<rparr>
             | None \<Rightarrow> q1))"

definition mark_name_hot :: "name_id \<Rightarrow> decide_queue \<Rightarrow> decide_queue option" where
  "mark_name_hot name q =
     (if name \<in> dq_hot_names q then Some q
      else let q1 = q\<lparr>dq_hot_names := insert name (dq_hot_names q)\<rparr>
           in case dq_clauses_by_name q1 name of
                None \<Rightarrow> Some q1
              | Some ids \<Rightarrow> fold_opt mark_clause_hot q1 ids)"

text \<open>One requirement of the candidate wake-up.\<close>

definition wake_requirement :: "decision_map \<Rightarrow> decide_queue \<Rightarrow> requirement \<Rightarrow> decide_queue option" where
  "wake_requirement dm q r = Option.bind (dq_requirement_states q r) (\<lambda>e.
     case re_state e of
       Dirty \<Rightarrow> Some q
     | Frontier _ _ _ \<Rightarrow>
         Some (q\<lparr>dq_requirement_states := (dq_requirement_states q)(r \<mapsto> e\<lparr>re_state := Dirty\<rparr>)\<rparr>)
     | Satisfied by \<Rightarrow>
         if DecisionMap_value dm by = Some True then Some q
         else let q1 = q\<lparr>dq_requirement_states := (dq_requirement_states q)(r \<mapsto> e\<lparr>re_state := Dirty\<rparr>)\<rparr>
              in case dq_clauses_by_requirement q1 r of
                   Some woken \<Rightarrow> fold_opt (enqueue_clause dm) q1 woken
                 | None \<Rightarrow> Some q1)"

definition route_touched :: "decision_map \<Rightarrow> decide_queue \<Rightarrow> variable_id \<Rightarrow> decide_queue option" where
  "route_touched dm q v = do {
     q1 \<leftarrow> (if DecisionMap_value dm v = Some True
            then case dq_parent_positions q v of
                   Some parent_pos \<Rightarrow> Option.bind (slice_get (dq_clauses_by_parent q) parent_pos)
                     (fold_opt (enqueue_clause dm) q)
                 | None \<Rightarrow> Some q
            else Some q);
     q2 \<leftarrow> (case dq_requirements_by_candidate q1 v of
            Some requirements \<Rightarrow> fold_opt (wake_requirement dm) q1 requirements
          | None \<Rightarrow> Some q1);
     (case dq_clauses_by_condition_variable q2 v of
        Some woken \<Rightarrow> fold_opt (enqueue_clause dm) q2 woken
      | None \<Rightarrow> Some q2)
   }"

text \<open>\<open>sync\<close>; the slice \<open>trail[floor..]\<close> panics when the floor is past the end.\<close>

definition sync :: "nat \<Rightarrow> decision list \<Rightarrow> decision_map \<Rightarrow> decide_queue \<Rightarrow> decide_queue option" where
  "sync floor trail dm q = do {
     q1 \<leftarrow> fold_opt (route_touched dm) q (drop floor (dq_mirror q));
     let q2 = q1\<lparr>dq_mirror := take floor (dq_mirror q1)\<rparr>;
     (if floor \<le> length trail
      then fold_opt (\<lambda>q d. route_touched dm (q\<lparr>dq_mirror := dq_mirror q @ [d_variable d]\<rparr>) (d_variable d))
             q2 (drop floor trail)
      else None)
   }"

text \<open>
  The walk over the candidates of a requirement: \<open>Inl\<close> is the satisfying candidate that ends
  it, \<open>Inr\<close> the first undecided candidate, its version set, and the undecided ones counted there.
\<close>

fun walk_candidates ::
  "decision_map \<Rightarrow> (version_set_id \<times> variable_id) list \<Rightarrow> (variable_id \<times> version_set_id \<times> nat) option \<Rightarrow>
    variable_id + (variable_id \<times> version_set_id \<times> nat) option" where
  "walk_candidates dm [] first = Inr first"
| "walk_candidates dm ((version_set, candidate) # rest) first =
     (case DecisionMap_value dm candidate of
        Some True \<Rightarrow> Inl candidate
      | Some False \<Rightarrow> walk_candidates dm rest first
      | None \<Rightarrow> walk_candidates dm rest (case first of
          Some (c, first_version_set, count) \<Rightarrow>
            Some (c, first_version_set, if first_version_set = version_set then count + 1 else count)
        | None \<Rightarrow> Some (candidate, version_set, 1)))"

definition eval_requirement ::
  "provider \<Rightarrow> decision_map \<Rightarrow> sorted_candidates \<Rightarrow> requirement \<Rightarrow> decide_queue \<Rightarrow>
    (requirement_state \<times> decide_queue) option" where
  "eval_requirement pv dm rcs r q = Option.bind (dq_requirement_states q r) (\<lambda>e.
     if re_state e \<noteq> Dirty then Some (re_state e, q)
     else Option.bind (rcs r) (\<lambda>version_set_candidates.
       let q1 = (if re_occurrences_registered e then q
                 else q\<lparr>dq_requirements_by_candidate :=
                   foldl (\<lambda>m c. entry_push m c r) (dq_requirements_by_candidate q) (concat version_set_candidates)\<rparr>);
           walk = concat (map (\<lambda>(vs, cs). map (Pair vs) cs)
             (zip (requirement_version_sets pv r) version_set_candidates))
       in Option.bind (case walk_candidates dm walk None of
            Inl candidate \<Rightarrow> Some (Satisfied candidate)
          | Inr (Some (candidate, version_set, count)) \<Rightarrow> Some (Frontier candidate version_set count)
          | Inr None \<Rightarrow> None) (\<lambda>st.
          Some (st, q1\<lparr>dq_requirement_states := (dq_requirement_states q1)
            (r \<mapsto> \<lparr>re_state = st, re_occurrences_registered = True\<rparr>)\<rparr>))))"

text \<open>\<open>inspect\<close>: \<open>None\<close> is a panic; the inner \<open>option\<close> is the frontier if the clause is eligible.\<close>

definition inspect ::
  "provider \<Rightarrow> decision_map \<Rightarrow> sorted_candidates \<Rightarrow> disjunctions \<Rightarrow> tracked_clause \<Rightarrow> decide_queue \<Rightarrow>
    ((variable_id \<times> version_set_id \<times> nat) option \<times> decide_queue) option" where
  "inspect pv dm rcs djs c q =
     (if DecisionMap_value dm (tc_parent c) \<noteq> Some True then Some (None, q)
      else Option.bind (disjunction_literals djs (tc_condition c)) (\<lambda>literals.
        if tc_condition c \<noteq> None \<and> \<not> list_all (\<lambda>l. eval l dm = Some False) literals then Some (None, q)
        else Option.bind (eval_requirement pv dm rcs (tc_requirement c) q) (\<lambda>(st, q').
          case st of
            Satisfied _ \<Rightarrow> Some (None, q')
          | Frontier candidate version_set count \<Rightarrow> Some (Some (candidate, version_set, count), q')
          | Dirty \<Rightarrow> None)))"

record best =
  be_position :: nat
  be_explicit :: bool
  be_activity :: f32
  be_count :: nat
  be_decision :: "variable_id \<times> variable_id \<times> clause_id"

definition unbeatable :: "f32_ops \<Rightarrow> bool \<Rightarrow> f32 \<Rightarrow> best \<Rightarrow> bool" where
  "unbeatable fl hot_only max_activity b \<longleftrightarrow>
     be_count b = 1 \<or> (hot_only \<and> f32_eq fl (be_activity b) max_activity)"

text \<open>The first loop: the first eligible clause, dequeueing the ineligible ones before it.\<close>

function first_eligible ::
  "provider \<Rightarrow> decision_map \<Rightarrow> sorted_candidates \<Rightarrow> disjunctions \<Rightarrow> (name_id \<Rightarrow> f32) \<Rightarrow> decide_queue \<Rightarrow>
    (best option \<times> decide_queue) option" where
  "first_eligible pv dm rcs djs name_activity q = (case dq_queue q of
     [] \<Rightarrow> Some (None, q)
   | (position, i) # rest \<Rightarrow>
       Option.bind (slice_get (dq_clauses q) i) (\<lambda>c.
       Option.bind (inspect pv dm rcs djs c q) (\<lambda>(r, q'). case r of
         None \<Rightarrow> first_eligible pv dm rcs djs name_activity
           (q'\<lparr>dq_queue := rest, dq_hot_queue := bt_remove position (dq_hot_queue q')\<rparr>)
       | Some (candidate, version_set, count) \<Rightarrow>
           Some (Some \<lparr>be_position = position, be_explicit = (tc_parent c = 0),
             be_activity = name_activity (pv_version_set_name pv version_set), be_count = count,
             be_decision = (candidate, tc_parent c, tc_clause_id c)\<rparr>, q'))))"
  by pat_completeness auto
termination
  by (relation "measure (\<lambda>(pv, dm, rcs, djs, na, q). length (dq_queue q))") auto

declare first_eligible.simps [simp del]

text \<open>
  The second loop: hot (or all) clauses after the best one, in position order. The cursor only
  moves up, so the number of entries behind it bounds the iterations.
\<close>

definition entries_after :: "bool \<Rightarrow> nat \<Rightarrow> decide_queue \<Rightarrow> nat" where
  "entries_after hot_only cursor q =
     length (filter (\<lambda>kv. cursor < fst kv) (if hot_only then dq_hot_queue q else dq_queue q))"

text \<open>Evaluating a requirement changes the walk cache and the candidate lists only.\<close>

lemma eval_requirement_cases:
  assumes "eval_requirement pv dm rcs r q = Some (st, q')"
  obtains (cached) e where "dq_requirement_states q r = Some e" "re_state e \<noteq> Dirty" "st = re_state e" "q' = q"
  | (walked) e cs where "dq_requirement_states q r = Some e" "re_state e = Dirty" "rcs r = Some cs"
      "case walk_candidates dm (concat (map (\<lambda>(vs, cs). map (Pair vs) cs)
           (zip (requirement_version_sets pv r) cs))) None of
         Inl candidate \<Rightarrow> st = Satisfied candidate
       | Inr f \<Rightarrow> \<exists>candidate version_set count. f = Some (candidate, version_set, count) \<and>
           st = Frontier candidate version_set count"
      "q' = q\<lparr>dq_requirements_by_candidate := (if re_occurrences_registered e then dq_requirements_by_candidate q
                else foldl (\<lambda>m c. entry_push m c r) (dq_requirements_by_candidate q) (concat cs)),
             dq_requirement_states := (dq_requirement_states q)
               (r \<mapsto> \<lparr>re_state = st, re_occurrences_registered = True\<rparr>)\<rparr>"
proof (cases "dq_requirement_states q r")
  case None
  with assms show thesis by (simp add: eval_requirement_def)
next
  case (Some e)
  show thesis
  proof (cases "re_state e = Dirty")
    case False
    with assms Some show thesis by (intro cached [of e]) (auto simp: eval_requirement_def)
  next
    case True
    with assms Some obtain cs where cs: "rcs r = Some cs"
      by (auto simp: eval_requirement_def bind_eq_Some_conv)
    let ?w = "walk_candidates dm (concat (map (\<lambda>(vs, cs). map (Pair vs) cs)
           (zip (requirement_version_sets pv r) cs))) None"
    from assms Some True cs show thesis
      by (cases ?w)
        (auto simp: eval_requirement_def Let_def split: option.splits intro!: walked [OF Some True cs])
  qed
qed

lemma eval_requirement_frame [frame_simps]:
  assumes "eval_requirement pv dm rcs r q = Some (st, q')"
  shows "dq_queue q' = dq_queue q" "dq_hot_queue q' = dq_hot_queue q" "dq_hot_only q' = dq_hot_only q"
    "dq_clauses q' = dq_clauses q" "st \<noteq> Dirty"
  using assms by (cases rule: eval_requirement_cases; auto split: sum.splits)+

lemma inspect_cases:
  assumes "inspect pv dm rcs djs c q = Some (r, q')"
  obtains (skipped) "r = None" "q' = q"
      "DecisionMap_value dm (tc_parent c) \<noteq> Some True \<or>
       (\<exists>ls. disjunction_literals djs (tc_condition c) = Some ls \<and> (\<exists>l \<in> set ls. eval l dm \<noteq> Some False))"
  | (evaluated) ls st where "DecisionMap_value dm (tc_parent c) = Some True"
      "disjunction_literals djs (tc_condition c) = Some ls" "\<forall>l \<in> set ls. eval l dm = Some False"
      "eval_requirement pv dm rcs (tc_requirement c) q = Some (st, q')"
      "r = (case st of Frontier candidate version_set count \<Rightarrow> Some (candidate, version_set, count) | _ \<Rightarrow> None)"
proof (cases "DecisionMap_value dm (tc_parent c) = Some True")
  case False
  with assms show thesis by (intro skipped) (auto simp: inspect_def)
next
  case parent: True
  with assms obtain ls where ls: "disjunction_literals djs (tc_condition c) = Some ls"
    by (auto simp: inspect_def bind_eq_Some_conv)
  show thesis
  proof (cases "\<forall>l \<in> set ls. eval l dm = Some False")
    case False
    then have "tc_condition c \<noteq> None"
      using ls by (cases "tc_condition c") (auto simp: disjunction_literals_def)
    with False assms ls parent show thesis by (intro skipped) (auto simp: inspect_def list_all_iff)
  next
    case True
    with assms parent ls obtain st q1 where st: "eval_requirement pv dm rcs (tc_requirement c) q = Some (st, q1)"
      "(case st of Satisfied _ \<Rightarrow> Some (None, q1)
        | Frontier candidate version_set count \<Rightarrow> Some (Some (candidate, version_set, count), q1)
        | Dirty \<Rightarrow> None) = Some (r, q')"
      by (auto simp: inspect_def list_all_iff bind_eq_Some_conv)
    then show thesis
      using evaluated [OF parent ls True, of st] by (cases st) auto
  qed
qed

lemma inspect_frame [frame_simps]:
  assumes "inspect pv dm rcs djs c q = Some (r, q')"
  shows "dq_queue q' = dq_queue q" "dq_hot_queue q' = dq_hot_queue q" "dq_hot_only q' = dq_hot_only q"
    "dq_clauses q' = dq_clauses q"
  using assms by (cases rule: inspect_cases; simp add: eval_requirement_frame)+

lemma length_filter_filter_le: "length (filter P (filter Q xs)) \<le> length (filter P xs)"
  by (induction xs) auto

lemma entries_after_less:
  assumes "bt_after cursor m = Some (position, i)"
  shows "length (filter (\<lambda>kv. position < fst kv) m) < length (filter (\<lambda>kv. cursor < fst kv) m)"
proof -
  have "cursor < position" "(position, i) \<in> set m"
    using find_SomeD [OF assms [unfolded bt_after_def]] by simp_all
  moreover from this have "filter (\<lambda>kv. position < fst kv) m =
      filter (\<lambda>kv. position < fst kv) (filter (\<lambda>kv. cursor < fst kv) m)"
    by (auto intro: filter_cong)
  ultimately show ?thesis
    by (metis (no_types, lifting) fst_conv length_filter_less less_irrefl mem_Collect_eq set_filter)
qed

function improve_best ::
  "provider \<Rightarrow> f32_ops \<Rightarrow> decision_map \<Rightarrow> sorted_candidates \<Rightarrow> disjunctions \<Rightarrow> (name_id \<Rightarrow> f32) \<Rightarrow> f32 \<Rightarrow>
    nat \<Rightarrow> best \<Rightarrow> decide_queue \<Rightarrow> (best \<times> decide_queue) option" where
  "improve_best pv fl dm rcs djs name_activity max_activity cursor b q =
     (case bt_after cursor (if dq_hot_only q then dq_hot_queue q else dq_queue q) of
        None \<Rightarrow> Some (b, q)
      | Some (position, i) \<Rightarrow> Option.bind (slice_get (dq_clauses q) i) (\<lambda>c.
          let is_explicit = (tc_parent c = 0) in
          if be_explicit b \<and> \<not> is_explicit
          then improve_best pv fl dm rcs djs name_activity max_activity position b q
          else Option.bind (inspect pv dm rcs djs c q) (\<lambda>(r, q'). case r of
            None \<Rightarrow> improve_best pv fl dm rcs djs name_activity max_activity position b
              (q'\<lparr>dq_queue := bt_remove position (dq_queue q'),
                  dq_hot_queue := bt_remove position (dq_hot_queue q')\<rparr>)
          | Some (candidate, version_set, count) \<Rightarrow>
              let activity = name_activity (pv_version_set_name pv version_set) in
              if f32_ge fl (be_activity b) activity \<or> be_count b \<le> count
              then improve_best pv fl dm rcs djs name_activity max_activity position b q'
              else let b' = \<lparr>be_position = position, be_explicit = is_explicit, be_activity = activity,
                             be_count = count, be_decision = (candidate, tc_parent c, tc_clause_id c)\<rparr>
                   in if unbeatable fl (dq_hot_only q') max_activity b' then Some (b', q')
                      else improve_best pv fl dm rcs djs name_activity max_activity position b' q')))"
  by pat_completeness auto
termination
  by (relation "measure (\<lambda>(pv, fl, dm, rcs, djs, na, ma, cursor, b, q). entries_after (dq_hot_only q) cursor q)")
    (auto simp: entries_after_def bt_remove_def inspect_frame simp del: filter_filter
      dest!: entries_after_less split: if_splits intro: le_less_trans [OF length_filter_filter_le])

declare improve_best.simps [simp del]

definition next_decision ::
  "provider \<Rightarrow> f32_ops \<Rightarrow> decision_map \<Rightarrow> sorted_candidates \<Rightarrow> disjunctions \<Rightarrow> (name_id \<Rightarrow> f32) \<Rightarrow> f32 \<Rightarrow>
    decide_queue \<Rightarrow> (queue_decision option \<times> decide_queue) option" where
  "next_decision pv fl dm rcs djs name_activity max_activity q =
     Option.bind (first_eligible pv dm rcs djs name_activity q) (\<lambda>(r, q1). case r of
       None \<Rightarrow> Some (None, q1)
     | Some b \<Rightarrow>
         Option.bind (if unbeatable fl (dq_hot_only q1) max_activity b then Some (b, q1)
            else improve_best pv fl dm rcs djs
              name_activity max_activity (be_position b) b q1) (\<lambda>(b', q2).
         case be_decision b' of (candidate, required_by, clause_id) \<Rightarrow>
           Some (Some \<lparr>qd_candidate = candidate, qd_required_by = required_by, qd_clause_id = clause_id,
             qd_package_activity = be_activity b', qd_candidate_count = be_count b'\<rparr>, q2)))"

end
