(* ===== verification/Queue_Invariant.thy ===== *)
theory Queue_Invariant
  imports Decide_Queue
begin

text \<open>
  What \<open>debug_assert_invariants\<close> of \<open>src/solver/decide_queue.rs\<close> checks at run time, as an
  invariant of the work queue: every eligible clause is queued, the hot queue is the hot part
  of the queue, and the walk cache is right for the current assignment. The invariant is
  stated relative to the variables whose change has not been routed yet, so that assigning
  and unassigning variables keeps it and \<open>sync\<close> discharges it.
\<close>

section \<open>Ordered maps\<close>

abbreviation bt_ordered :: "(nat \<times> 'v) list \<Rightarrow> bool" where
  "bt_ordered m \<equiv> sorted_wrt (<) (map fst m)"

lemma set_bt_insert:
  "bt_ordered m \<Longrightarrow> set (bt_insert k v m) = insert (k, v) {kv \<in> set m. fst kv \<noteq> k}"
  by (induction k v m rule: bt_insert.induct) auto

lemma bt_insert_ordered [intro]: "bt_ordered m \<Longrightarrow> bt_ordered (bt_insert k v m)"
  by (induction k v m rule: bt_insert.induct) (auto simp: set_bt_insert)

lemma bt_remove_ordered [intro]: "bt_ordered m \<Longrightarrow> bt_ordered (bt_remove k m)"
  by (induction m) (auto simp: bt_remove_def)

lemma filter_ordered [intro]: "bt_ordered m \<Longrightarrow> bt_ordered (filter P m)"
  by (induction m) auto

lemma bt_insert_least: "\<forall>kv \<in> set m. k < fst kv \<Longrightarrow> bt_insert k v m = (k, v) # m"
  by (cases m) auto

lemma filter_bt_insert:
  assumes "bt_ordered m" "\<And>v'. (k, v') \<in> set m \<Longrightarrow> v' = v"
  shows "filter P (bt_insert k v m) = (if P (k, v) then bt_insert k v (filter P m) else filter P m)"
  using assms
proof (induction m)
  case (Cons kv m)
  obtain k' v' where [simp]: "kv = (k', v')" by (cases kv)
  have low: "bt_insert k v (filter P m) = (k, v) # filter P m" if "k < k'"
    using that Cons.prems(1) by (intro bt_insert_least) auto
  show ?case
    using Cons low by (cases "k < k'"; cases "k = k'") auto
qed simp

lemma bt_remove_filter: "filter P (bt_remove k m) = bt_remove k (filter P m)"
  by (simp add: bt_remove_def conj_commute)

lemma set_bt_remove [simp]: "set (bt_remove k m) = {kv \<in> set m. fst kv \<noteq> k}"
  by (auto simp: bt_remove_def)

lemma bt_after_ordered:
  assumes "bt_ordered m"
  shows "bt_after k m = (case filter (\<lambda>kv. k < fst kv) m of [] \<Rightarrow> None | kv # _ \<Rightarrow> Some kv)"
  by (induction m) (auto simp: bt_after_def)

section \<open>Positions\<close>

lemma ClausePosition_new_eq:
  "ClausePosition_new p k = (if p < 2 ^ 32 - 1 \<and> k < 2 ^ 32 - 1 then Some (p * 2 ^ 32 + k) else None)"
proof (cases "p < 2 ^ 32 - 1 \<and> k < 2 ^ 32 - 1")
  case True
  then have k: "take_bit 32 k = k" by (simp add: take_bit_nat_eq_self_iff)
  have "push_bit 32 p OR k = push_bit 32 p + k"
    by (rule disjunctive_add [symmetric]) (metis bit_push_bit_iff_nat bit_take_bit_iff k not_le)
  with True show ?thesis by (simp add: ClausePosition_new_def push_bit_eq_mult)
qed (auto simp: ClausePosition_new_def)

lemma ClausePosition_new_inj:
  assumes "ClausePosition_new p k = Some x" "ClausePosition_new p' k' = Some x"
  shows "p = p' \<and> k = k'"
proof -
  have lt: "k < 2 ^ 32" "k' < 2 ^ 32" and x: "x = p * 2 ^ 32 + k" "x = p' * 2 ^ 32 + k'"
    using assms by (auto simp: ClausePosition_new_eq split: if_splits)
  from x lt have "p = x div 2 ^ 32" "p' = x div 2 ^ 32" by simp_all
  then have "p = p'" by simp
  with x show ?thesis by simp
qed

section \<open>The invariant\<close>

definition names_of :: "provider \<Rightarrow> requirement \<Rightarrow> name_id list" where
  "names_of pv r = map (pv_version_set_name pv) (requirement_version_sets pv r)"

definition occurs :: "('k \<rightharpoonup> 'v list) \<Rightarrow> 'k \<Rightarrow> 'v \<Rightarrow> bool" where
  "occurs m k x \<longleftrightarrow> (\<exists>xs. m k = Some xs \<and> x \<in> set xs)"

lemma occurs_entry_push [simp]: "occurs (entry_push m k x) k' y \<longleftrightarrow> occurs m k' y \<or> (k = k' \<and> x = y)"
  by (cases "m k") (auto simp: occurs_def entry_push_def)

definition listed :: "('k \<rightharpoonup> 'v list) \<Rightarrow> 'k \<Rightarrow> 'v list" where
  "listed m k = (case m k of None \<Rightarrow> [] | Some xs \<Rightarrow> xs)"

lemma set_listed: "x \<in> set (listed m k) \<longleftrightarrow> occurs m k x"
  by (cases "m k") (auto simp: listed_def occurs_def)

lemma occursI: "m k = Some xs \<Longrightarrow> x \<in> set xs \<Longrightarrow> occurs m k x"
  by (auto simp: occurs_def)

text \<open>Every clause has its own position, found through its parent.\<close>

definition positions_ok :: "decide_queue \<Rightarrow> bool" where
  "positions_ok q \<longleftrightarrow>
     (\<forall>i < length (dq_clauses q). \<exists>p k. dq_parent_positions q (tc_parent (dq_clauses q ! i)) = Some p \<and>
        p < length (dq_clauses_by_parent q) \<and> k < length (dq_clauses_by_parent q ! p) \<and>
        dq_clauses_by_parent q ! p ! k = i \<and> ClausePosition_new p k = Some (tc_position (dq_clauses q ! i))) \<and>
     (\<forall>ids \<in> set (dq_clauses_by_parent q). \<forall>i \<in> set ids. i < length (dq_clauses q)) \<and>
     (\<forall>v p. dq_parent_positions q v = Some p \<longrightarrow> p < length (dq_clauses_by_parent q))"

text \<open>The queue is ordered by position, the hot queue is its hot part.\<close>

definition queues_ok :: "decide_queue \<Rightarrow> bool" where
  "queues_ok q \<longleftrightarrow> bt_ordered (dq_queue q) \<and>
     (\<forall>(pos, i) \<in> set (dq_queue q). i < length (dq_clauses q) \<and> tc_position (dq_clauses q ! i) = pos) \<and>
     dq_hot_queue q = filter (\<lambda>(_, i). tc_hot (dq_clauses q ! i)) (dq_queue q)"

text \<open>The occurrence lists hold every clause under its names, condition variables and requirement.\<close>

definition occurrences_ok :: "provider \<Rightarrow> disjunctions \<Rightarrow> decide_queue \<Rightarrow> bool" where
  "occurrences_ok pv djs q \<longleftrightarrow>
     (\<forall>name i. occurs (dq_clauses_by_name q) name i \<longleftrightarrow>
        i < length (dq_clauses q) \<and> name \<in> set (names_of pv (tc_requirement (dq_clauses q ! i)))) \<and>
     (\<forall>r i. occurs (dq_clauses_by_requirement q) r i \<longleftrightarrow>
        i < length (dq_clauses q) \<and> tc_requirement (dq_clauses q ! i) = r) \<and>
     (\<forall>v i. occurs (dq_clauses_by_condition_variable q) v i \<longleftrightarrow> i < length (dq_clauses q) \<and>
        (\<exists>ls. disjunction_literals djs (tc_condition (dq_clauses q ! i)) = Some ls \<and> v \<in> variable ` set ls))"

definition hot_ok :: "provider \<Rightarrow> decide_queue \<Rightarrow> bool" where
  "hot_ok pv q \<longleftrightarrow> (\<forall>c \<in> set (dq_clauses q).
     tc_hot c \<longleftrightarrow> (\<exists>name \<in> set (names_of pv (tc_requirement c)). name \<in> dq_hot_names q))"

text \<open>Every requirement has candidates and a cache entry; a filled entry is registered with its candidates.\<close>

definition candidates_of :: "sorted_candidates \<Rightarrow> requirement \<Rightarrow> variable_id set" where
  "candidates_of rcs r = (case rcs r of None \<Rightarrow> {} | Some cs \<Rightarrow> set (concat cs))"

definition cache_ok :: "provider \<Rightarrow> sorted_candidates \<Rightarrow> disjunctions \<Rightarrow> decide_queue \<Rightarrow> bool" where
  "cache_ok pv rcs djs q \<longleftrightarrow>
     (\<forall>c \<in> set (dq_clauses q). dq_requirement_states q (tc_requirement c) \<noteq> None \<and>
        disjunction_literals djs (tc_condition c) \<noteq> None) \<and>
     (\<forall>r e. dq_requirement_states q r = Some e \<longrightarrow>
        (\<exists>cs. rcs r = Some cs \<and> length cs = length (requirement_version_sets pv r)) \<and>
        (re_occurrences_registered e \<longrightarrow> (\<forall>v \<in> candidates_of rcs r. occurs (dq_requirements_by_candidate q) v r)) \<and>
        (re_state e \<noteq> Dirty \<longrightarrow> re_occurrences_registered e) \<and>
        (\<forall>v. re_state e = Satisfied v \<longrightarrow> v \<in> candidates_of rcs r)) \<and>
     (\<forall>v r. occurs (dq_requirements_by_candidate q) v r \<longrightarrow> dq_requirement_states q r \<noteq> None)"

lemma cache_okE:
  assumes "cache_ok pv rcs djs q" "dq_requirement_states q r = Some e"
  obtains cs where "rcs r = Some cs" "length cs = length (requirement_version_sets pv r)"
    "re_occurrences_registered e \<Longrightarrow> \<forall>v \<in> candidates_of rcs r. occurs (dq_requirements_by_candidate q) v r"
    "re_state e \<noteq> Dirty \<Longrightarrow> re_occurrences_registered e"
    "\<And>v. re_state e = Satisfied v \<Longrightarrow> v \<in> candidates_of rcs r"
  using assms unfolding cache_ok_def by blast

definition queue_wf :: "provider \<Rightarrow> sorted_candidates \<Rightarrow> disjunctions \<Rightarrow> decide_queue \<Rightarrow> bool" where
  "queue_wf pv rcs djs q \<longleftrightarrow> positions_ok q \<and> queues_ok q \<and> occurrences_ok pv djs q \<and> hot_ok pv q \<and>
     cache_ok pv rcs djs q"

lemma queue_wfD [inv_dests]:
  assumes "queue_wf pv rcs djs q"
  shows "positions_ok q" "queues_ok q" "occurrences_ok pv djs q" "hot_ok pv q" "cache_ok pv rcs djs q"
  using assms by (simp_all add: queue_wf_def)

text \<open>
  The part that depends on the assignment \<open>val\<close>: an unqueued clause whose parent is true and
  whose condition holds is satisfied according to the cache, unless the change of its parent
  (one of \<open>P\<close>) or of a condition variable (one of \<open>C\<close>) is still to be routed; and the cache is
  right, unless the change of a candidate is.
\<close>

type_synonym assignment = "variable_id \<Rightarrow> bool option"

definition condition_holds :: "disjunctions \<Rightarrow> assignment \<Rightarrow> disjunction_id option \<Rightarrow> bool" where
  "condition_holds djs val d \<longleftrightarrow>
     (\<exists>ls. disjunction_literals djs d = Some ls \<and> (\<forall>l \<in> set ls. val (variable l) = Some (negate l)))"

definition condition_variables :: "disjunctions \<Rightarrow> disjunction_id option \<Rightarrow> variable_id set" where
  "condition_variables djs d = (case disjunction_literals djs d of None \<Rightarrow> {} | Some ls \<Rightarrow> variable ` set ls)"

definition queued :: "decide_queue \<Rightarrow> nat \<Rightarrow> bool" where
  "queued q i \<longleftrightarrow> (tc_position (dq_clauses q ! i), i) \<in> set (dq_queue q)"

definition cached_satisfied :: "decide_queue \<Rightarrow> requirement \<Rightarrow> bool" where
  "cached_satisfied q r \<longleftrightarrow> (\<exists>e v. dq_requirement_states q r = Some e \<and> re_state e = Satisfied v)"

definition active :: "disjunctions \<Rightarrow> assignment \<Rightarrow> tracked_clause \<Rightarrow> bool" where
  "active djs val c \<longleftrightarrow> val (tc_parent c) = Some True \<and> condition_holds djs val (tc_condition c)"

definition pending :: "disjunctions \<Rightarrow> variable_id set \<Rightarrow> variable_id set \<Rightarrow> tracked_clause \<Rightarrow> bool" where
  "pending djs P C c \<longleftrightarrow> tc_parent c \<in> P \<or> condition_variables djs (tc_condition c) \<inter> C \<noteq> {}"

definition woken ::
  "disjunctions \<Rightarrow> assignment \<Rightarrow> variable_id set \<Rightarrow> variable_id set \<Rightarrow> decide_queue \<Rightarrow> bool" where
  "woken djs val P C q \<longleftrightarrow> (\<forall>i < length (dq_clauses q). active djs val (dq_clauses q ! i) \<longrightarrow>
     queued q i \<or> cached_satisfied q (tc_requirement (dq_clauses q ! i)) \<or> pending djs P C (dq_clauses q ! i))"

text \<open>The walk over the candidates, as a function of the assignment.\<close>

fun walk_list :: "assignment \<Rightarrow> (version_set_id \<times> variable_id) list \<Rightarrow> (variable_id \<times> version_set_id \<times> nat) option \<Rightarrow>
    variable_id + (variable_id \<times> version_set_id \<times> nat) option" where
  "walk_list val [] first = Inr first"
| "walk_list val ((version_set, candidate) # rest) first =
     (case val candidate of
        Some True \<Rightarrow> Inl candidate
      | Some False \<Rightarrow> walk_list val rest first
      | None \<Rightarrow> walk_list val rest (case first of
          Some (c, first_version_set, count) \<Rightarrow>
            Some (c, first_version_set, if first_version_set = version_set then count + 1 else count)
        | None \<Rightarrow> Some (candidate, version_set, 1)))"

lemma walk_candidates_walk_list: "walk_candidates dm ws first = walk_list (DecisionMap_value dm) ws first"
  by (induction ws arbitrary: first) (auto split: option.splits bool.splits)

definition walk :: "provider \<Rightarrow> sorted_candidates \<Rightarrow> requirement \<Rightarrow> (version_set_id \<times> variable_id) list" where
  "walk pv rcs r = (case rcs r of None \<Rightarrow> []
     | Some cs \<Rightarrow> concat (map (\<lambda>(vs, cs). map (Pair vs) cs) (zip (requirement_version_sets pv r) cs)))"

definition frontier ::
  "provider \<Rightarrow> sorted_candidates \<Rightarrow> assignment \<Rightarrow> requirement \<Rightarrow> variable_id \<times> version_set_id \<times> nat \<Rightarrow> bool" where
  "frontier pv rcs val r f \<longleftrightarrow> walk_list val (walk pv rcs r) None = Inr (Some f)"

definition cache_right ::
  "provider \<Rightarrow> sorted_candidates \<Rightarrow> assignment \<Rightarrow> variable_id set \<Rightarrow> decide_queue \<Rightarrow> bool" where
  "cache_right pv rcs val U q \<longleftrightarrow> (\<forall>r e. dq_requirement_states q r = Some e \<longrightarrow> (case re_state e of
       Dirty \<Rightarrow> True
     | Satisfied v \<Rightarrow> val v = Some True \<or> v \<in> U
     | Frontier c vs count \<Rightarrow> frontier pv rcs val r (c, vs, count) \<or> candidates_of rcs r \<inter> U \<noteq> {}))"

definition queue_inv ::
  "provider \<Rightarrow> sorted_candidates \<Rightarrow> disjunctions \<Rightarrow> assignment \<Rightarrow> variable_id set \<Rightarrow> decide_queue \<Rightarrow> bool" where
  "queue_inv pv rcs djs val U q \<longleftrightarrow> queue_wf pv rcs djs q \<and> woken djs val U U q \<and> cache_right pv rcs val U q"

section \<open>Waking clauses\<close>

lemma positions_okE:
  assumes "positions_ok q" "i < length (dq_clauses q)"
  obtains p k where "dq_parent_positions q (tc_parent (dq_clauses q ! i)) = Some p"
    "p < length (dq_clauses_by_parent q)" "k < length (dq_clauses_by_parent q ! p)"
    "dq_clauses_by_parent q ! p ! k = i" "ClausePosition_new p k = Some (tc_position (dq_clauses q ! i))"
  using assms unfolding positions_ok_def by blast

lemma position_inj:
  assumes "positions_ok q" "i < length (dq_clauses q)" "j < length (dq_clauses q)"
    "tc_position (dq_clauses q ! i) = tc_position (dq_clauses q ! j)"
  shows "i = j"
proof -
  obtain p k where i: "dq_clauses_by_parent q ! p ! k = i"
    "ClausePosition_new p k = Some (tc_position (dq_clauses q ! i))"
    by (rule positions_okE [OF assms(1,2)])
  obtain p' k' where j: "dq_clauses_by_parent q ! p' ! k' = j"
    "ClausePosition_new p' k' = Some (tc_position (dq_clauses q ! j))"
    by (rule positions_okE [OF assms(1,3)])
  from ClausePosition_new_inj [OF i(2) j(2) [folded assms(4)]] have "p' = p" "k' = k" by simp_all
  with i(1) j(1) show ?thesis by simp
qed

definition enq :: "nat \<Rightarrow> decide_queue \<Rightarrow> decide_queue" where
  "enq i q = q\<lparr>dq_queue := bt_insert (tc_position (dq_clauses q ! i)) i (dq_queue q),
     dq_hot_queue := (if tc_hot (dq_clauses q ! i)
        then bt_insert (tc_position (dq_clauses q ! i)) i (dq_hot_queue q) else dq_hot_queue q)\<rparr>"

lemma enq_queues:
  assumes "positions_ok q" "queues_ok q" "i < length (dq_clauses q)"
  shows "queues_ok (enq i q)" "j < length (dq_clauses q) \<Longrightarrow> queued (enq i q) j \<longleftrightarrow> queued q j \<or> j = i"
proof -
  let ?p = "tc_position (dq_clauses q ! i)"
  have ord: "bt_ordered (dq_queue q)" using assms(2) by (simp add: queues_ok_def)
  have uniq: "v' = i" if "(?p, v') \<in> set (dq_queue q)" for v'
    using that assms(2,3) position_inj [OF assms(1), of v' i] by (auto simp: queues_ok_def)
  have "filter (\<lambda>(_, i). tc_hot (dq_clauses q ! i)) (bt_insert ?p i (dq_queue q)) =
      (if tc_hot (dq_clauses q ! i) then bt_insert ?p i (dq_hot_queue q) else dq_hot_queue q)"
    using filter_bt_insert [OF ord uniq] assms(2) by (simp add: queues_ok_def)
  with assms(2,3) ord show "queues_ok (enq i q)"
    by (auto simp: queues_ok_def enq_def set_bt_insert)
  show "queued (enq i q) j \<longleftrightarrow> queued q j \<or> j = i" if "j < length (dq_clauses q)"
    using that assms(3) position_inj [OF assms(1), of j i] by (auto simp: queued_def enq_def set_bt_insert [OF ord])
qed

text \<open>What the wake-up of a list of clauses does.\<close>

definition but_queues :: "decide_queue \<Rightarrow> decide_queue" where
  "but_queues q = q\<lparr>dq_queue := [], dq_hot_queue := []\<rparr>"

definition requeued :: "assignment \<Rightarrow> nat set \<Rightarrow> decide_queue \<Rightarrow> decide_queue \<Rightarrow> bool" where
  "requeued val S q q' \<longleftrightarrow> but_queues q' = but_queues q \<and> queues_ok q' \<and>
     (\<forall>j < length (dq_clauses q). queued q' j \<longleftrightarrow> queued q j \<or> (j \<in> S \<and> val (tc_parent (dq_clauses q ! j)) = Some True))"

lemma requeued_refl: "queues_ok q \<Longrightarrow> requeued val {} q q"
  by (simp add: requeued_def)

lemma requeued_frame [frame_simps]:
  assumes "requeued val S q q'"
  shows "dq_clauses q' = dq_clauses q" "dq_parent_positions q' = dq_parent_positions q"
    "dq_clauses_by_parent q' = dq_clauses_by_parent q" "dq_hot_names q' = dq_hot_names q"
    "dq_clauses_by_name q' = dq_clauses_by_name q" "dq_requirements_by_candidate q' = dq_requirements_by_candidate q"
    "dq_clauses_by_condition_variable q' = dq_clauses_by_condition_variable q"
    "dq_requirement_states q' = dq_requirement_states q"
    "dq_clauses_by_requirement q' = dq_clauses_by_requirement q" "dq_mirror q' = dq_mirror q"
    "dq_hot_only q' = dq_hot_only q"
  using assms by (cases q; cases q'; simp add: requeued_def but_queues_def)+

lemma requeued_wf:
  assumes "requeued val S q q'" "queue_wf pv rcs djs q"
  shows "queue_wf pv rcs djs q'"
  using assms(2) assms(1) [unfolded requeued_def, THEN conjunct2, THEN conjunct1]
  by (simp add: queue_wf_def positions_ok_def occurrences_ok_def hot_ok_def cache_ok_def requeued_frame [OF assms(1)])

lemma fold_enqueue:
  assumes "queue_wf pv rcs djs q" "\<forall>i \<in> set ids. i < length (dq_clauses q)"
  shows "\<exists>q'. fold_opt (enqueue_clause dm) q ids = Some q' \<and> requeued (DecisionMap_value dm) (set ids) q q'"
  using assms
proof (induction ids arbitrary: q)
  case Nil
  then show ?case using requeued_refl queue_wfD(2) by auto
next
  case (Cons i ids)
  let ?c = "dq_clauses q ! i"
  let ?q1 = "if DecisionMap_value dm (tc_parent ?c) = Some True then enq i q else q"
  note wf = queue_wfD [OF Cons.prems(1)]
  from Cons.prems have i: "i < length (dq_clauses q)" by simp
  have step: "enqueue_clause dm q i = Some ?q1" using i by (simp add: enqueue_clause_def enq_def Let_def slice_get_def)
  have one: "requeued (DecisionMap_value dm) {i} q ?q1"
    using enq_queues [OF wf(1,2) i] wf(2) by (auto simp: requeued_def) (auto simp: enq_def but_queues_def)
  from Cons.IH [OF requeued_wf [OF one Cons.prems(1)]] Cons.prems(2) obtain q' where
    q': "fold_opt (enqueue_clause dm) ?q1 ids = Some q'" "requeued (DecisionMap_value dm) (set ids) ?q1 q'"
    by (auto simp: requeued_frame [OF one])
  have "requeued (DecisionMap_value dm) (set (i # ids)) q q'"
    using one q'(2) requeued_frame [OF one] unfolding requeued_def
    by auto
  with q'(1) step show ?case by simp
qed

text \<open>Waking clauses makes more of them queued.\<close>

lemma woken_requeued:
  assumes "requeued val S q q'"
    "\<And>i. i < length (dq_clauses q) \<Longrightarrow> active djs val (dq_clauses q ! i) \<Longrightarrow> queued q i \<or> i \<in> S \<or>
       cached_satisfied q (tc_requirement (dq_clauses q ! i)) \<or> pending djs P C (dq_clauses q ! i)"
  shows "woken djs val P C q'"
proof -
  note fr = requeued_frame [OF assms(1)]
  have "queued q' i" if "queued q i \<or> i \<in> S" "i < length (dq_clauses q)" "active djs val (dq_clauses q ! i)" for i
    using assms(1) that unfolding requeued_def active_def by auto
  moreover have "cached_satisfied q' = cached_satisfied q" by (simp add: cached_satisfied_def fr fun_eq_iff)
  ultimately show ?thesis using assms(2) by (auto simp: woken_def fr)
qed

definition state_of :: "decide_queue \<Rightarrow> requirement \<Rightarrow> requirement_state option" where
  "state_of q r = map_option re_state (dq_requirement_states q r)"

text \<open>The state of a requirement once a change of a candidate is routed.\<close>

definition refreshed :: "assignment \<Rightarrow> requirement_state option \<Rightarrow> bool" where
  "refreshed val st \<longleftrightarrow> st = Some Dirty \<or> (\<exists>v. st = Some (Satisfied v) \<and> val v = Some True)"

text \<open>Setting an entry to dirty keeps the structure.\<close>

lemma dirty_wf:
  assumes "queue_wf pv rcs djs q" "dq_requirement_states q r = Some e"
  shows "queue_wf pv rcs djs (q\<lparr>dq_requirement_states := (dq_requirement_states q)(r \<mapsto> e\<lparr>re_state := Dirty\<rparr>)\<rparr>)"
proof -
  have "cache_ok pv rcs djs (q\<lparr>dq_requirement_states := (dq_requirement_states q)(r \<mapsto> e\<lparr>re_state := Dirty\<rparr>)\<rparr>)"
    using queue_wfD(5) [OF assms(1)] assms(2) by (simp add: cache_ok_def)
  with assms(1) show ?thesis by (simp add: queue_wf_def positions_ok_def queues_ok_def occurrences_ok_def hot_ok_def)
qed

lemma wake_requirement_spec:
  assumes wf: "queue_wf pv rcs djs q" and w: "woken djs (DecisionMap_value dm) P C q"
    and e: "dq_requirement_states q r = Some e"
  obtains q' where "wake_requirement dm q r = Some q'" "queue_wf pv rcs djs q'"
    "woken djs (DecisionMap_value dm) P C q'" "refreshed (DecisionMap_value dm) (state_of q' r)"
    "\<And>r'. r' \<noteq> r \<Longrightarrow> dq_requirement_states q' r' = dq_requirement_states q r'"
    "dom (dq_requirement_states q') = dom (dq_requirement_states q)"
    "dq_clauses q' = dq_clauses q" "dq_mirror q' = dq_mirror q" "dq_hot_only q' = dq_hot_only q"
proof -
  let ?val = "DecisionMap_value dm"
  let ?d = "q\<lparr>dq_requirement_states := (dq_requirement_states q)(r \<mapsto> e\<lparr>re_state := Dirty\<rparr>)\<rparr>"
  have wfd: "queue_wf pv rcs djs ?d" using dirty_wf [OF wf e] .
  have cs: "cached_satisfied ?d r' \<longleftrightarrow> cached_satisfied q r'" if "r' \<noteq> r" for r'
    using that by (simp add: cached_satisfied_def)
  consider "re_state e = Dirty" | c vs k where "re_state e = Frontier c vs k"
    | v where "re_state e = Satisfied v" "?val v = Some True"
    | v where "re_state e = Satisfied v" "?val v \<noteq> Some True"
    by (cases "re_state e") auto
  then show thesis
  proof cases
    case 1
    with wf w e show thesis by (intro that [of q]) (auto simp: wake_requirement_def refreshed_def state_of_def)
  next
    case 2
    then have "cached_satisfied ?d = cached_satisfied q" using e by (auto simp: cached_satisfied_def fun_eq_iff)
    then have "woken djs ?val P C ?d" using w by (simp add: woken_def queued_def)
    with wfd 2 e show thesis
      by (intro that [of ?d]) (auto simp: wake_requirement_def refreshed_def state_of_def)
  next
    case 3
    with wf w e show thesis by (intro that [of q]) (auto simp: wake_requirement_def refreshed_def state_of_def)
  next
    case 4
    let ?ids = "listed (dq_clauses_by_requirement q) r"
    have ids: "i \<in> set ?ids \<longleftrightarrow> i < length (dq_clauses q) \<and> tc_requirement (dq_clauses q ! i) = r" for i
      using queue_wfD(3) [OF wf] by (simp add: occurrences_ok_def set_listed)
    obtain q' where q': "fold_opt (enqueue_clause dm) ?d ?ids = Some q'" "requeued ?val (set ?ids) ?d q'"
      using fold_enqueue [OF wfd, of ?ids dm] ids by auto
    note fr = requeued_frame [OF q'(2)]
    have "wake_requirement dm q r = Some q'"
      using 4 e q'(1) by (simp add: wake_requirement_def listed_def split: option.splits)
    moreover have "woken djs ?val P C q'"
    proof (rule woken_requeued [OF q'(2)])
      fix i
      assume "i < length (dq_clauses ?d)" "active djs ?val (dq_clauses ?d ! i)"
      with w ids cs show "queued ?d i \<or> i \<in> set ?ids \<or> cached_satisfied ?d (tc_requirement (dq_clauses ?d ! i)) \<or>
          pending djs P C (dq_clauses ?d ! i)"
        by (cases "tc_requirement (dq_clauses q ! i) = r") (auto simp: woken_def queued_def)
    qed
    ultimately show thesis
      using requeued_wf [OF q'(2) wfd] e by (intro that [of q']) (auto simp: fr refreshed_def state_of_def)
  qed
qed

lemma fold_wake:
  assumes "queue_wf pv rcs djs q" "woken djs (DecisionMap_value dm) P C q"
    "\<forall>r \<in> set rs. dq_requirement_states q r \<noteq> None"
  shows "\<exists>q'. fold_opt (wake_requirement dm) q rs = Some q' \<and> queue_wf pv rcs djs q' \<and>
    woken djs (DecisionMap_value dm) P C q' \<and>
    (\<forall>r. if r \<in> set rs then refreshed (DecisionMap_value dm) (state_of q' r)
       else dq_requirement_states q' r = dq_requirement_states q r) \<and>
    dq_clauses q' = dq_clauses q \<and> dq_mirror q' = dq_mirror q \<and> dq_hot_only q' = dq_hot_only q"
  using assms
proof (induction rs arbitrary: q)
  case (Cons r rs)
  from Cons.prems(3) obtain e where e: "dq_requirement_states q r = Some e" by auto
  obtain q1 where q1: "wake_requirement dm q r = Some q1" "queue_wf pv rcs djs q1"
    "woken djs (DecisionMap_value dm) P C q1" "refreshed (DecisionMap_value dm) (state_of q1 r)"
    "\<And>r'. r' \<noteq> r \<Longrightarrow> dq_requirement_states q1 r' = dq_requirement_states q r'"
    "dom (dq_requirement_states q1) = dom (dq_requirement_states q)"
    "dq_clauses q1 = dq_clauses q" "dq_mirror q1 = dq_mirror q" "dq_hot_only q1 = dq_hot_only q"
    by (rule wake_requirement_spec [OF Cons.prems(1,2) e]) (rule that)
  have "\<forall>r \<in> set rs. dq_requirement_states q1 r \<noteq> None" using Cons.prems(3) q1(6) by (auto simp: dom_def)
  from Cons.IH [OF q1(2,3) this] obtain q' where q': "fold_opt (wake_requirement dm) q1 rs = Some q'"
    "queue_wf pv rcs djs q'" "woken djs (DecisionMap_value dm) P C q'"
    "\<forall>r. if r \<in> set rs then refreshed (DecisionMap_value dm) (state_of q' r)
       else dq_requirement_states q' r = dq_requirement_states q1 r"
    "dq_clauses q' = dq_clauses q1" "dq_mirror q' = dq_mirror q1" "dq_hot_only q' = dq_hot_only q1" by blast
  have "if x \<in> set (r # rs) then refreshed (DecisionMap_value dm) (state_of q' x)
       else dq_requirement_states q' x = dq_requirement_states q x" for x
    using q'(4) [rule_format, of x] q1(4,5) by (cases "x \<in> set rs"; cases "x = r") (simp_all add: state_of_def)
  with q' q1 show ?case by simp
qed simp

section \<open>Routing the changes\<close>

text \<open>The three wake-ups: the clauses of the variable, the caches that saw it, the conditions on it.\<close>

definition clauses_of_parent :: "decide_queue \<Rightarrow> variable_id \<Rightarrow> nat list" where
  "clauses_of_parent q v = (case dq_parent_positions q v of None \<Rightarrow> [] | Some p \<Rightarrow> dq_clauses_by_parent q ! p)"

lemma clauses_of_parent:
  assumes "positions_ok q"
  shows "i \<in> set (clauses_of_parent q v) \<Longrightarrow> i < length (dq_clauses q)"
    "i < length (dq_clauses q) \<Longrightarrow> i \<in> set (clauses_of_parent q (tc_parent (dq_clauses q ! i)))"
proof -
  show "i < length (dq_clauses q)" if "i \<in> set (clauses_of_parent q v)"
    using assms that by (auto simp: positions_ok_def clauses_of_parent_def split: option.splits)
  assume i: "i < length (dq_clauses q)"
  obtain p k where "dq_parent_positions q (tc_parent (dq_clauses q ! i)) = Some p"
    "k < length (dq_clauses_by_parent q ! p)" "dq_clauses_by_parent q ! p ! k = i"
    by (rule positions_okE [OF assms i])
  then show "i \<in> set (clauses_of_parent q (tc_parent (dq_clauses q ! i)))"
    by (auto simp: clauses_of_parent_def)
qed

lemma wake_parent:
  assumes "queue_wf pv rcs djs q" "woken djs val P C q"
    "requeued val (if val v = Some True then set (clauses_of_parent q v) else {}) q q'"
  shows "woken djs val (P - {v}) C q'"
proof (rule woken_requeued [OF assms(3)])
  fix i
  assume i: "i < length (dq_clauses q)" "active djs val (dq_clauses q ! i)"
  with clauses_of_parent(2) [OF queue_wfD(1) [OF assms(1)] i(1)] assms(2)
  show "queued q i \<or> i \<in> (if val v = Some True then set (clauses_of_parent q v) else {}) \<or>
      cached_satisfied q (tc_requirement (dq_clauses q ! i)) \<or> pending djs (P - {v}) C (dq_clauses q ! i)"
    by (auto simp: woken_def pending_def active_def)
qed

lemma wake_cache:
  assumes "cache_ok pv rcs djs q" "cache_right pv rcs val U q"
    "\<And>r. if r \<in> set (listed (dq_requirements_by_candidate q) v) then refreshed val (state_of q' r)
       else dq_requirement_states q' r = dq_requirement_states q r"
  shows "cache_right pv rcs val (U - {v}) q'"
  unfolding cache_right_def
proof (intro allI impI)
  fix r e
  assume e: "dq_requirement_states q' r = Some e"
  show "case re_state e of Dirty \<Rightarrow> True | Satisfied x \<Rightarrow> val x = Some True \<or> x \<in> U - {v}
    | Frontier x vs count \<Rightarrow> frontier pv rcs val r (x, vs, count) \<or> candidates_of rcs r \<inter> (U - {v}) \<noteq> {}"
  proof (cases "r \<in> set (listed (dq_requirements_by_candidate q) v)")
    case True
    with assms(3) [of r] e show ?thesis by (auto simp: refreshed_def state_of_def split: requirement_state.split)
  next
    case False
    with assms(3) [of r] e have e1: "dq_requirement_states q r = Some e" by simp
    have "v \<notin> candidates_of rcs r" if "re_state e \<noteq> Dirty"
      using False that assms(1) e1 unfolding cache_ok_def set_listed by metis
    moreover have "x \<in> candidates_of rcs r" if "re_state e = Satisfied x" for x
      using that assms(1) e1 unfolding cache_ok_def by metis
    ultimately show ?thesis
      using assms(2) [unfolded cache_right_def, rule_format, OF e1] by (auto split: requirement_state.splits)
  qed
qed

lemma condition_list:
  assumes "queue_wf pv rcs djs q"
  shows "i \<in> set (listed (dq_clauses_by_condition_variable q) v) \<longleftrightarrow>
    i < length (dq_clauses q) \<and> v \<in> condition_variables djs (tc_condition (dq_clauses q ! i))"
  using queue_wfD(3) [OF assms] unfolding set_listed occurrences_ok_def condition_variables_def
  by (auto split: option.splits)

lemma route_touched_spec:
  assumes "queue_inv pv rcs djs (DecisionMap_value dm) U q"
  obtains q' where "route_touched dm q v = Some q'" "queue_inv pv rcs djs (DecisionMap_value dm) (U - {v}) q'"
    "dq_clauses q' = dq_clauses q" "dq_mirror q' = dq_mirror q" "dq_hot_only q' = dq_hot_only q"
proof -
  let ?val = "DecisionMap_value dm"
  from assms have wf: "queue_wf pv rcs djs q" and w: "woken djs ?val U U q" and c: "cache_right pv rcs ?val U q"
    by (simp_all add: queue_inv_def)
  note d = queue_wfD [OF wf]
  let ?ps = "if ?val v = Some True then clauses_of_parent q v else []"
  have "\<forall>i \<in> set ?ps. i < length (dq_clauses q)" using clauses_of_parent(1) [OF d(1)] by auto
  from fold_enqueue [OF wf this] obtain q1 where
    q1: "fold_opt (enqueue_clause dm) q ?ps = Some q1" "requeued ?val (set ?ps) q q1" by blast
  note f1 = requeued_frame [OF q1(2)] and wf1 = requeued_wf [OF q1(2) wf]
  have w1: "woken djs ?val (U - {v}) U q1"
    by (rule wake_parent [OF wf w]) (use q1(2) in \<open>cases "?val v = Some True"; simp\<close>)
  let ?rs = "listed (dq_requirements_by_candidate q1) v"
  have "\<forall>r \<in> set ?rs. dq_requirement_states q1 r \<noteq> None"
    using queue_wfD(5) [OF wf1] by (auto simp: cache_ok_def set_listed)
  from fold_wake [OF wf1 w1 this] obtain q2 where q2: "fold_opt (wake_requirement dm) q1 ?rs = Some q2"
    "queue_wf pv rcs djs q2" "woken djs ?val (U - {v}) U q2"
    "\<forall>r. if r \<in> set ?rs then refreshed ?val (state_of q2 r)
       else dq_requirement_states q2 r = dq_requirement_states q1 r"
    "dq_clauses q2 = dq_clauses q1" "dq_mirror q2 = dq_mirror q1" "dq_hot_only q2 = dq_hot_only q1" by blast
  have c2: "cache_right pv rcs ?val (U - {v}) q2"
    by (rule wake_cache [OF d(5) c]) (use q2(4) in \<open>simp add: f1\<close>)
  let ?cs = "listed (dq_clauses_by_condition_variable q2) v"
  obtain q3 where q3: "fold_opt (enqueue_clause dm) q2 ?cs = Some q3" "requeued ?val (set ?cs) q2 q3"
    using fold_enqueue [OF q2(2), of ?cs] condition_list [OF q2(2)] by blast
  note f3 = requeued_frame [OF q3(2)]
  have "woken djs ?val (U - {v}) (U - {v}) q3"
    by (rule woken_requeued [OF q3(2)])
      (use q2(3) condition_list [OF q2(2)] in \<open>auto simp: woken_def pending_def\<close>)
  with c2 requeued_wf [OF q3(2) q2(2)] have "queue_inv pv rcs djs ?val (U - {v}) q3"
    by (simp add: queue_inv_def cache_right_def f3)
  moreover have "route_touched dm q v = Some q3"
    using q1(1) q2(1) q3(1) d(1)
    by (auto simp: route_touched_def positions_ok_def slice_get_def listed_def clauses_of_parent_def split: option.splits if_splits)
  ultimately show thesis using that [of q3] by (simp add: f1 f3 q2)
qed

lemma fold_route:
  assumes "queue_inv pv rcs djs (DecisionMap_value dm) U q"
  shows "\<exists>q'. fold_opt (route_touched dm) q vs = Some q' \<and> queue_inv pv rcs djs (DecisionMap_value dm) (U - set vs) q' \<and>
    dq_clauses q' = dq_clauses q \<and> dq_mirror q' = dq_mirror q \<and> dq_hot_only q' = dq_hot_only q"
  using assms
proof (induction vs arbitrary: U q)
  case (Cons v vs)
  from Cons.prems obtain q1 where q1: "route_touched dm q v = Some q1"
    "queue_inv pv rcs djs (DecisionMap_value dm) (U - {v}) q1" "dq_clauses q1 = dq_clauses q"
    "dq_mirror q1 = dq_mirror q" "dq_hot_only q1 = dq_hot_only q" by (rule route_touched_spec)
  have "U - {v} - set vs = U - set (v # vs)" by auto
  with Cons.IH [OF q1(2)] q1 show ?case by simp
qed simp

text \<open>Synchronisation routes everything that changed.\<close>

lemma queue_inv_mirror [simp]: "queue_inv pv rcs djs val U (q\<lparr>dq_mirror := m\<rparr>) = queue_inv pv rcs djs val U q"
  by (simp add: queue_inv_def queue_wf_def positions_ok_def queues_ok_def occurrences_ok_def hot_ok_def cache_ok_def
      woken_def queued_def cached_satisfied_def cache_right_def)

lemma fold_sync:
  assumes "queue_inv pv rcs djs (DecisionMap_value dm) U q"
  shows "\<exists>q'. fold_opt (\<lambda>q d. route_touched dm (q\<lparr>dq_mirror := dq_mirror q @ [d_variable d]\<rparr>) (d_variable d)) q ds = Some q' \<and>
    queue_inv pv rcs djs (DecisionMap_value dm) (U - d_variable ` set ds) q' \<and>
    dq_clauses q' = dq_clauses q \<and> dq_mirror q' = dq_mirror q @ map d_variable ds \<and> dq_hot_only q' = dq_hot_only q"
  using assms
proof (induction ds arbitrary: U q)
  case (Cons d ds)
  let ?q = "q\<lparr>dq_mirror := dq_mirror q @ [d_variable d]\<rparr>"
  have "queue_inv pv rcs djs (DecisionMap_value dm) U ?q" using Cons.prems by simp
  then obtain q1 where q1: "route_touched dm ?q (d_variable d) = Some q1"
    "queue_inv pv rcs djs (DecisionMap_value dm) (U - {d_variable d}) q1" "dq_clauses q1 = dq_clauses ?q"
    "dq_mirror q1 = dq_mirror ?q" "dq_hot_only q1 = dq_hot_only ?q" by (rule route_touched_spec)
  have "U - {d_variable d} - d_variable ` set ds = U - d_variable ` set (d # ds)" by auto
  with Cons.IH [OF q1(2)] q1 show ?case by simp
qed simp

lemma sync_spec:
  assumes "queue_inv pv rcs djs (DecisionMap_value dm) U q" "floor \<le> length trail"
    "U \<subseteq> set (drop floor (dq_mirror q)) \<union> d_variable ` set (drop floor trail)"
  obtains q' where "sync floor trail dm q = Some q'" "queue_inv pv rcs djs (DecisionMap_value dm) {} q'"
    "dq_mirror q' = take floor (dq_mirror q) @ map d_variable (drop floor trail)"
    "dq_clauses q' = dq_clauses q" "dq_hot_only q' = dq_hot_only q"
proof -
  let ?val = "DecisionMap_value dm"
  from fold_route [OF assms(1), of "drop floor (dq_mirror q)"] obtain q1 where
    q1: "fold_opt (route_touched dm) q (drop floor (dq_mirror q)) = Some q1"
    "queue_inv pv rcs djs ?val (U - set (drop floor (dq_mirror q))) q1"
    "dq_clauses q1 = dq_clauses q" "dq_mirror q1 = dq_mirror q" "dq_hot_only q1 = dq_hot_only q" by blast
  let ?q = "q1\<lparr>dq_mirror := take floor (dq_mirror q1)\<rparr>"
  have "queue_inv pv rcs djs ?val (U - set (drop floor (dq_mirror q))) ?q" using q1(2) by simp
  from fold_sync [OF this, of "drop floor trail"] obtain q' where
    q': "fold_opt (\<lambda>q d. route_touched dm (q\<lparr>dq_mirror := dq_mirror q @ [d_variable d]\<rparr>) (d_variable d)) ?q (drop floor trail) = Some q'"
    "queue_inv pv rcs djs ?val (U - set (drop floor (dq_mirror q)) - d_variable ` set (drop floor trail)) q'"
    "dq_clauses q' = dq_clauses q1" "dq_mirror q' = take floor (dq_mirror q1) @ map d_variable (drop floor trail)"
    "dq_hot_only q' = dq_hot_only q1" by auto
  have "U - set (drop floor (dq_mirror q)) - d_variable ` set (drop floor trail) = {}" using assms(3) by blast
  with q' q1 assms(2) show thesis by (intro that [of q']) (simp_all add: sync_def)
qed

section \<open>Changing the assignment\<close>

lemma set_concat_zip:
  "length vss = length cs \<Longrightarrow> snd ` set (concat (map (\<lambda>(vs, cs). map (Pair vs) cs) (zip vss cs))) = set (concat cs)"
  by (induction vss cs rule: list_induct2) (auto simp: image_Un image_image)

lemma walk_variables:
  assumes "rcs r = Some cs" "length cs = length (requirement_version_sets pv r)"
  shows "snd ` set (walk pv rcs r) = candidates_of rcs r"
  using assms set_concat_zip [of "requirement_version_sets pv r" cs] by (simp add: walk_def candidates_of_def)

lemma walk_list_cong:
  "\<forall>w \<in> set ws. val (snd w) = val' (snd w) \<Longrightarrow> walk_list val ws f = walk_list val' ws f"
  by (induction val ws f rule: walk_list.induct) (auto split: option.splits bool.splits)

lemma frontier_cong:
  assumes "rcs r = Some cs" "length cs = length (requirement_version_sets pv r)"
    "\<forall>v \<in> candidates_of rcs r. val v = val' v"
  shows "frontier pv rcs val r f = frontier pv rcs val' r f"
proof -
  have "\<forall>w \<in> set (walk pv rcs r). val (snd w) = val' (snd w)"
    using walk_variables [of rcs r cs pv, OF assms(1,2)] assms(3) by auto
  then show ?thesis unfolding frontier_def using walk_list_cong by metis
qed

lemma condition_holds_cong:
  "\<forall>v \<in> condition_variables djs d. val v = val' v \<Longrightarrow> condition_holds djs val d = condition_holds djs val' d"
  by (auto simp: condition_holds_def condition_variables_def)

lemma queue_inv_change:
  assumes "queue_inv pv rcs djs val U q" "\<And>v. v \<notin> U' \<Longrightarrow> val' v = val v" "U \<subseteq> U'"
  shows "queue_inv pv rcs djs val' U' q"
proof -
  from assms(1) have wf: "queue_wf pv rcs djs q" and w: "woken djs val U U q" and c: "cache_right pv rcs val U q"
    by (simp_all add: queue_inv_def)
  have "active djs val c" if "active djs val' c" "\<not> pending djs U' U' c" for c
  proof -
    have "\<forall>v \<in> condition_variables djs (tc_condition c). val' v = val v" using that(2) assms(2) by (auto simp: pending_def)
    from condition_holds_cong [OF this] that assms(2) show ?thesis by (simp add: active_def pending_def)
  qed
  moreover have "pending djs U' U' c" if "pending djs U U c" for c using that assms(3) by (auto simp: pending_def)
  ultimately have "woken djs val' U' U' q" using w unfolding woken_def by blast
  moreover have "cache_right pv rcs val' U' q"
    unfolding cache_right_def
  proof (intro allI impI)
    fix r e
    assume e: "dq_requirement_states q r = Some e"
    obtain cs where cs: "rcs r = Some cs" "length cs = length (requirement_version_sets pv r)"
      by (rule cache_okE [OF queue_wfD(5) [OF wf] e])
    have "frontier pv rcs val' r f = frontier pv rcs val r f" if "candidates_of rcs r \<inter> U' = {}" for f
      using that assms(2) by (intro frontier_cong [of rcs r cs pv, OF cs]) blast
    with c [unfolded cache_right_def, rule_format, OF e] assms(2,3)
    show "case re_state e of Dirty \<Rightarrow> True | Satisfied x \<Rightarrow> val' x = Some True \<or> x \<in> U'
      | Frontier x vs count \<Rightarrow> frontier pv rcs val' r (x, vs, count) \<or> candidates_of rcs r \<inter> U' \<noteq> {}"
      by (fastforce split: requirement_state.splits)
  qed
  ultimately show ?thesis using wf by (simp add: queue_inv_def)
qed

section \<open>Registering a clause\<close>

lemma foldl_register_name:
  "\<exists>m seen'. foldl (register_name i) (hot, seen, q) names =
     (hot \<or> (\<exists>name \<in> set names - set seen. name \<in> dq_hot_names q), seen', q\<lparr>dq_clauses_by_name := m\<rparr>) \<and>
   (\<forall>name j. occurs m name j \<longleftrightarrow> occurs (dq_clauses_by_name q) name j \<or> (j = i \<and> name \<in> set names - set seen))"
proof (induction names arbitrary: hot seen q)
  case Nil
  show ?case by (intro exI [of _ "dq_clauses_by_name q"] exI [of _ seen]) simp
next
  case (Cons name names)
  show ?case
  proof (cases "name \<in> set seen")
    case True
    with Cons [of hot seen q] show ?thesis by (auto simp: register_name_def)
  next
    case False
    let ?q = "q\<lparr>dq_clauses_by_name := entry_push (dq_clauses_by_name q) name i\<rparr>"
    from Cons [of "hot \<or> name \<in> dq_hot_names q" "seen @ [name]" ?q] obtain m seen' where
      m: "foldl (register_name i) (hot \<or> name \<in> dq_hot_names q, seen @ [name], ?q) names =
        ((hot \<or> name \<in> dq_hot_names q) \<or> (\<exists>n \<in> set names - set (seen @ [name]). n \<in> dq_hot_names ?q), seen',
         ?q\<lparr>dq_clauses_by_name := m\<rparr>)"
      "\<forall>n j. occurs m n j \<longleftrightarrow> occurs (dq_clauses_by_name ?q) n j \<or> (j = i \<and> n \<in> set names - set (seen @ [name]))"
      by blast
    with False show ?thesis
      by (intro exI [of _ m] exI [of _ seen']) (auto simp: register_name_def)
  qed
qed

lemma occurs_foldl_push:
  "occurs (foldl (\<lambda>m x. entry_push m (f x) i) m xs) k j \<longleftrightarrow> occurs m k j \<or> (j = i \<and> k \<in> f ` set xs)"
  by (induction xs arbitrary: m) auto

text \<open>The queue with the new clause, before it is enqueued.\<close>

definition registered ::
  "provider \<Rightarrow> disjunctions \<Rightarrow> tracked_clause \<Rightarrow> nat \<Rightarrow> nat \<Rightarrow> decide_queue \<Rightarrow> decide_queue \<Rightarrow> bool" where
  "registered pv djs c p k q q' \<longleftrightarrow> (let i = length (dq_clauses q); r = tc_requirement c in
     dq_clauses q' = dq_clauses q @ [c] \<and> dq_queue q' = dq_queue q \<and> dq_hot_queue q' = dq_hot_queue q \<and>
     dq_hot_names q' = dq_hot_names q \<and> dq_mirror q' = dq_mirror q \<and> dq_hot_only q' = dq_hot_only q \<and>
     dq_requirements_by_candidate q' = dq_requirements_by_candidate q \<and>
     (\<forall>name j. occurs (dq_clauses_by_name q') name j \<longleftrightarrow>
        occurs (dq_clauses_by_name q) name j \<or> (j = i \<and> name \<in> set (names_of pv r))) \<and>
     (\<forall>v j. occurs (dq_clauses_by_condition_variable q') v j \<longleftrightarrow>
        occurs (dq_clauses_by_condition_variable q) v j \<or> (j = i \<and> v \<in> condition_variables djs (tc_condition c))) \<and>
     dq_clauses_by_requirement q' = entry_push (dq_clauses_by_requirement q) r i \<and>
     (\<forall>r'. dq_requirement_states q' r' = (if r' = r \<and> dq_requirement_states q r = None
        then Some \<lparr>re_state = Dirty, re_occurrences_registered = False\<rparr> else dq_requirement_states q r')) \<and>
     (let bp = (if dq_parent_positions q (tc_parent c) = None then dq_clauses_by_parent q @ [[]]
                else dq_clauses_by_parent q) in
       p < length bp \<and> k = length (bp ! p) \<and> dq_clauses_by_parent q' = bp[p := bp ! p @ [i]]) \<and>
     dq_parent_positions q' = (dq_parent_positions q)(tc_parent c \<mapsto> p) \<and>
     (dq_parent_positions q (tc_parent c) \<in> {None, Some p}) \<and>
     ClausePosition_new p k = Some (tc_position c) \<and>
     tc_hot c = (\<exists>name \<in> set (names_of pv r). name \<in> dq_hot_names q))"

lemma register_clause_registered:
  assumes "register_clause parent r d cid (names_of pv r) djs val q = Some q'"
  obtains c p k q1 where "registered pv djs c p k q q1" "tc_parent c = parent" "tc_requirement c = r"
    "tc_condition c = d" "tc_clause_id c = cid" "disjunction_literals djs d \<noteq> None"
    "q' = (if val = Some True then enq (length (dq_clauses q)) q1 else q1)"
proof -
  let ?n = "length (dq_clauses q)"
  define p where "p = (case dq_parent_positions q parent of Some p \<Rightarrow> p | None \<Rightarrow> length (dq_clauses_by_parent q))"
  define qa where "qa = (case dq_parent_positions q parent of Some p \<Rightarrow> q | None \<Rightarrow>
      q\<lparr>dq_clauses_by_parent := dq_clauses_by_parent q @ [[]],
        dq_parent_positions := (dq_parent_positions q)(parent \<mapsto> length (dq_clauses_by_parent q))\<rparr>)"
  have start: "(case dq_parent_positions q parent of Some p \<Rightarrow> (p, q) | None \<Rightarrow> (length (dq_clauses_by_parent q),
      q\<lparr>dq_clauses_by_parent := dq_clauses_by_parent q @ [[]],
        dq_parent_positions := (dq_parent_positions q)(parent \<mapsto> length (dq_clauses_by_parent q))\<rparr>)) = (p, qa)"
    by (simp add: p_def qa_def split: option.splits)
  let ?i = "length (dq_clauses qa)"
  define hot where "hot \<longleftrightarrow> (\<exists>name \<in> set (names_of pv r). name \<in> dq_hot_names qa)"
  obtain m seen where fold: "foldl (register_name ?i) (False, [], qa) (names_of pv r) = (hot, seen, qa\<lparr>dq_clauses_by_name := m\<rparr>)"
    "\<forall>name j. occurs m name j \<longleftrightarrow> occurs (dq_clauses_by_name qa) name j \<or> (j = ?i \<and> name \<in> set (names_of pv r))"
    using foldl_register_name [of ?i False "[]" qa "names_of pv r"] by (auto simp: hot_def)
  have fa: "dq_clauses qa = dq_clauses q" "dq_hot_names qa = dq_hot_names q" "dq_clauses_by_name qa = dq_clauses_by_name q"
    by (simp_all add: qa_def split: option.splits)
  let ?k = "length (dq_clauses_by_parent qa ! p)"
  let ?q2 = "qa\<lparr>dq_clauses_by_name := m\<rparr>"
  have cond: "(case d of None \<Rightarrow> Some ?q2 | Some d \<Rightarrow> Option.bind (slice_get djs d) (\<lambda>dj.
      Some (?q2\<lparr>dq_clauses_by_condition_variable :=
        foldl (\<lambda>m l. entry_push m (variable l) ?i) (dq_clauses_by_condition_variable (qa\<lparr>dq_clauses_by_name := m\<rparr>)) (dj_literals dj)\<rparr>))) =
    map_option (\<lambda>ls. ?q2\<lparr>dq_clauses_by_condition_variable :=
        foldl (\<lambda>m l. entry_push m (variable l) ?i) (dq_clauses_by_condition_variable qa) ls\<rparr>) (disjunction_literals djs d)"
    by (auto simp: disjunction_literals_def slice_get_def split: option.splits)
  from assms start fold(1) fa cond obtain pos ls where
    pos: "p < length (dq_clauses_by_parent qa)" "ClausePosition_new p ?k = Some pos" and
    ls: "disjunction_literals djs d = Some ls"
    by (auto simp: register_clause_def bind_eq_Some_conv Let_def)
  let ?c = "\<lparr>tc_position = pos, tc_parent = parent, tc_requirement = r, tc_condition = d, tc_clause_id = cid, tc_hot = hot\<rparr>"
  let ?q1 = "?q2\<lparr>dq_clauses_by_condition_variable :=
        foldl (\<lambda>m l. entry_push m (variable l) ?i) (dq_clauses_by_condition_variable qa) ls,
      dq_requirement_states := (case dq_requirement_states qa r of
          None \<Rightarrow> (dq_requirement_states qa)(r \<mapsto> \<lparr>re_state = Dirty, re_occurrences_registered = False\<rparr>)
        | Some _ \<Rightarrow> dq_requirement_states qa),
      dq_clauses_by_requirement := entry_push (dq_clauses_by_requirement qa) r ?i,
      dq_clauses_by_parent := (dq_clauses_by_parent qa)[p := dq_clauses_by_parent qa ! p @ [?i]],
      dq_clauses := dq_clauses qa @ [?c]\<rparr>"
  have "q' = (if val = Some True then enq ?n ?q1 else ?q1)"
    using assms start fold(1) fa cond pos ls
    by (simp add: register_clause_def Let_def slice_get_def enq_def nth_append cong: if_cong option.case_cong)
  moreover have "registered pv djs ?c p ?k q ?q1"
    using pos fold(2) ls
    by (auto simp: registered_def Let_def hot_def qa_def p_def occurs_foldl_push condition_variables_def fun_upd_idem
        split: option.splits)
  ultimately show thesis using ls by (intro that) auto
qed

lemma registeredD:
  assumes "registered pv djs c p k q q'"
  shows "dq_clauses q' = dq_clauses q @ [c]" "dq_queue q' = dq_queue q" "dq_hot_queue q' = dq_hot_queue q"
    "dq_hot_names q' = dq_hot_names q" "dq_mirror q' = dq_mirror q" "dq_hot_only q' = dq_hot_only q"
    "dq_requirements_by_candidate q' = dq_requirements_by_candidate q"
    "occurs (dq_clauses_by_name q') name j \<longleftrightarrow> occurs (dq_clauses_by_name q) name j \<or>
       (j = length (dq_clauses q) \<and> name \<in> set (names_of pv (tc_requirement c)))"
    "occurs (dq_clauses_by_condition_variable q') v j \<longleftrightarrow> occurs (dq_clauses_by_condition_variable q) v j \<or>
       (j = length (dq_clauses q) \<and> v \<in> condition_variables djs (tc_condition c))"
    "dq_clauses_by_requirement q' = entry_push (dq_clauses_by_requirement q) (tc_requirement c) (length (dq_clauses q))"
    "dq_requirement_states q' r' = (if r' = tc_requirement c \<and> dq_requirement_states q (tc_requirement c) = None
       then Some \<lparr>re_state = Dirty, re_occurrences_registered = False\<rparr> else dq_requirement_states q r')"
    "tc_hot c = (\<exists>name \<in> set (names_of pv (tc_requirement c)). name \<in> dq_hot_names q)"
    "ClausePosition_new p k = Some (tc_position c)"
  using assms unfolding registered_def Let_def by blast+

lemma registered_positions:
  assumes "registered pv djs c p k q q'" "positions_ok q"
  shows "positions_ok q'"
proof -
  let ?n = "length (dq_clauses q)"
  define bp where "bp = (if dq_parent_positions q (tc_parent c) = None then dq_clauses_by_parent q @ [[]]
                else dq_clauses_by_parent q)"
  have r: "dq_clauses q' = dq_clauses q @ [c]" "p < length bp" "k = length (bp ! p)"
    "dq_clauses_by_parent q' = bp[p := bp ! p @ [?n]]" "dq_parent_positions q' = (dq_parent_positions q)(tc_parent c \<mapsto> p)"
    "dq_parent_positions q (tc_parent c) \<in> {None, Some p}" "ClausePosition_new p k = Some (tc_position c)"
    using assms(1) unfolding registered_def Let_def bp_def by blast+
  have old: "\<exists>p' k'. dq_parent_positions q' (tc_parent (dq_clauses q' ! i)) = Some p' \<and>
      p' < length (dq_clauses_by_parent q') \<and> k' < length (dq_clauses_by_parent q' ! p') \<and>
      dq_clauses_by_parent q' ! p' ! k' = i \<and> ClausePosition_new p' k' = Some (tc_position (dq_clauses q' ! i))"
    if i: "i < ?n" for i
  proof -
    obtain p' k' where o: "dq_parent_positions q (tc_parent (dq_clauses q ! i)) = Some p'"
      "p' < length (dq_clauses_by_parent q)" "k' < length (dq_clauses_by_parent q ! p')"
      "dq_clauses_by_parent q ! p' ! k' = i" "ClausePosition_new p' k' = Some (tc_position (dq_clauses q ! i))"
      by (rule positions_okE [OF assms(2) i])
    have bp: "bp ! p' = dq_clauses_by_parent q ! p'" "p' < length bp" using o(2) by (simp_all add: bp_def nth_append)
    have c: "dq_clauses q' ! i = dq_clauses q ! i" using r(1) i by (simp add: nth_append)
    have "dq_parent_positions q' (tc_parent (dq_clauses q ! i)) = Some p'" using o(1) r(5,6) by auto
    moreover have "k' < length (dq_clauses_by_parent q' ! p')" "dq_clauses_by_parent q' ! p' ! k' = i"
      using o(3,4) bp r(2,4) by (simp_all add: nth_list_update nth_append)
    ultimately show ?thesis using bp(2) o(5) r(4) unfolding c by (intro exI [of _ p'] exI [of _ k']) simp
  qed
  have "set (dq_clauses_by_parent q') \<subseteq> insert (bp ! p @ [?n]) (insert [] (set (dq_clauses_by_parent q)))"
    using r(4) set_update_subset_insert [of bp p "bp ! p @ [?n]"] by (auto simp: bp_def split: if_splits)
  moreover have "bp ! p \<in> insert [] (set (dq_clauses_by_parent q))"
    using r(2) by (auto simp: bp_def nth_append split: if_splits)
  moreover have "\<forall>ids \<in> insert [] (set (dq_clauses_by_parent q)). \<forall>i \<in> set ids. i < Suc ?n"
    using assms(2) by (auto simp: positions_ok_def less_Suc_eq)
  ultimately have "\<forall>ids \<in> set (dq_clauses_by_parent q'). \<forall>i \<in> set ids. i < length (dq_clauses q')"
    unfolding r(1) by (auto simp del: insert_iff dest!: subsetD)
  moreover have "\<forall>v p'. dq_parent_positions q' v = Some p' \<longrightarrow> p' < length (dq_clauses_by_parent q')"
    using assms(2) r(2,4,5) by (auto simp: positions_ok_def bp_def less_Suc_eq split: if_splits)
  moreover have "\<exists>p' k'. dq_parent_positions q' (tc_parent (dq_clauses q' ! ?n)) = Some p' \<and>
      p' < length (dq_clauses_by_parent q') \<and> k' < length (dq_clauses_by_parent q' ! p') \<and>
      dq_clauses_by_parent q' ! p' ! k' = ?n \<and> ClausePosition_new p' k' = Some (tc_position (dq_clauses q' ! ?n))"
    using r by (intro exI [of _ p] exI [of _ k]) simp
  ultimately show ?thesis using old unfolding positions_ok_def by (simp add: r(1) less_Suc_eq)
qed

lemma registered_wf:
  assumes r: "registered pv djs c p k q q'" and wf: "queue_wf pv rcs djs q"
    and cs: "rcs (tc_requirement c) = Some cs" "length cs = length (requirement_version_sets pv (tc_requirement c))"
    and d: "disjunction_literals djs (tc_condition c) \<noteq> None"
  shows "queue_wf pv rcs djs q'"
proof -
  note rd = registeredD [OF r] and w = queue_wfD [OF wf]
  have in_n: "(\<forall>(pos, i) \<in> set (dq_queue q). i < length (dq_clauses q))" using w(2) by (auto simp: queues_ok_def)
  have "filter (\<lambda>(_, i). tc_hot ((dq_clauses q @ [c]) ! i)) (dq_queue q) = filter (\<lambda>(_, i). tc_hot (dq_clauses q ! i)) (dq_queue q)"
    by (rule filter_cong) (use in_n in \<open>auto simp: nth_append\<close>)
  then have "queues_ok q'" using w(2) in_n by (auto simp: queues_ok_def rd nth_append)
  moreover have "occurrences_ok pv djs q'"
    using w(3) by (auto simp: occurrences_ok_def rd nth_append less_Suc_eq condition_variables_def split: option.splits if_splits)
  moreover have "hot_ok pv q'" using w(4) by (auto simp: hot_ok_def rd)
  moreover have "cache_ok pv rcs djs q'"
    using w(5) cs d unfolding cache_ok_def rd by (auto split: if_splits)
  ultimately show ?thesis using registered_positions [OF r w(1)] by (simp add: queue_wf_def)
qed

lemma register_clause_inv:
  assumes inv: "queue_inv pv rcs djs val U q"
    and run: "register_clause parent r d cid (names_of pv r) djs parent_value q = Some q'"
    and cs: "rcs r = Some cs" "length cs = length (requirement_version_sets pv r)"
    and parent: "val parent = Some True \<Longrightarrow> parent_value = Some True \<or> parent \<in> U"
  shows "queue_inv pv rcs djs val U q'"
proof -
  obtain c p k q1 where q1: "registered pv djs c p k q q1" "tc_parent c = parent" "tc_requirement c = r"
    "tc_condition c = d" "disjunction_literals djs d \<noteq> None"
    "q' = (if parent_value = Some True then enq (length (dq_clauses q)) q1 else q1)"
    by (rule register_clause_registered [OF run])
  note rd = registeredD [OF q1(1)]
  from inv have wf: "queue_wf pv rcs djs q" and w: "woken djs val U U q" and c: "cache_right pv rcs val U q"
    by (simp_all add: queue_inv_def)
  have wf1: "queue_wf pv rcs djs q1" using registered_wf [OF q1(1) wf] cs q1 by simp
  let ?S = "if parent_value = Some True then {length (dq_clauses q)} else {}"
  have c1: "cache_right pv rcs val U q1" using c by (auto simp: cache_right_def rd)
  have sat: "cached_satisfied q1 r' = cached_satisfied q r'" for r' by (auto simp: cached_satisfied_def rd)
  have awake: "queued q1 i \<or> (i = length (dq_clauses q) \<and> parent_value = Some True) \<or>
      cached_satisfied q1 (tc_requirement (dq_clauses q1 ! i)) \<or> pending djs U U (dq_clauses q1 ! i)"
    if "i < length (dq_clauses q1)" "active djs val (dq_clauses q1 ! i)" for i
    using that w parent q1(2) unfolding woken_def
    by (auto simp: rd sat queued_def nth_append less_Suc_eq active_def pending_def split: if_splits)
  show ?thesis
  proof (cases "parent_value = Some True")
    case True
    note e = enq_queues [OF queue_wfD(1,2) [OF wf1], of "length (dq_clauses q)"]
    have "requeued (\<lambda>_. Some True) {length (dq_clauses q)} q1 q'"
      using True q1(6) e rd(1) by (auto simp: requeued_def) (simp add: enq_def but_queues_def)
    note f = requeued_frame [OF this] and wf' = requeued_wf [OF this wf1]
    have s': "cached_satisfied q' = cached_satisfied q1" by (simp add: cached_satisfied_def f fun_eq_iff)
    have qd: "queued q' i \<longleftrightarrow> queued q1 i \<or> i = length (dq_clauses q)" if "i < length (dq_clauses q1)" for i
      using that e(2) True q1(6) rd(1) by simp
    have "woken djs val U U q'"
      unfolding woken_def f s'
    proof (intro allI impI)
      fix i
      assume i: "i < length (dq_clauses q1)" "active djs val (dq_clauses q1 ! i)"
      show "queued q' i \<or> cached_satisfied q1 (tc_requirement (dq_clauses q1 ! i)) \<or> pending djs U U (dq_clauses q1 ! i)"
        using awake [OF i] unfolding qd [OF i(1)] by blast
    qed
    with wf' c1 show ?thesis by (simp add: queue_inv_def cache_right_def f)
  next
    case False
    with wf1 c1 awake q1(6) show ?thesis by (auto simp: queue_inv_def woken_def)
  qed
qed

section \<open>Marking a name hot\<close>

lemma filter_add_entry:
  assumes "bt_ordered m" "(k, v) \<in> set m"
  shows "filter (\<lambda>kv. P kv \<or> kv = (k, v)) m = bt_insert k v (filter P m)"
  using assms
proof (induction m)
  case (Cons kv m)
  show ?case
  proof (cases "kv = (k, v)")
    case True
    with Cons.prems(1) have low: "\<forall>x \<in> set m. k < fst x" by simp
    then have "filter (\<lambda>x. P x \<or> x = (k, v)) m = filter P m" by (intro filter_cong) auto
    with True low show ?thesis by (auto simp: bt_insert_least)
  next
    case False
    with Cons have "fst kv < k" by auto
    with False Cons show ?thesis by (cases kv) auto
  qed
qed simp

definition heat :: "nat set \<Rightarrow> tracked_clause list \<Rightarrow> tracked_clause list" where
  "heat S cs = map (\<lambda>i. (cs ! i)\<lparr>tc_hot := tc_hot (cs ! i) \<or> i \<in> S\<rparr>) [0..<length cs]"

lemma length_heat [simp]: "length (heat S cs) = length cs"
  by (simp add: heat_def)

lemma nth_heat [simp]: "i < length cs \<Longrightarrow> heat S cs ! i = (cs ! i)\<lparr>tc_hot := tc_hot (cs ! i) \<or> i \<in> S\<rparr>"
  by (simp add: heat_def)

lemma heat_heat: "heat T (heat S cs) = heat (S \<union> T) cs"
  by (rule nth_equalityI) auto

lemma heat_update: "i < length cs \<Longrightarrow> cs[i := (cs ! i)\<lparr>tc_hot := True\<rparr>] = heat {i} cs"
  by (rule nth_equalityI) (auto simp: nth_list_update)

lemma heat_none: "\<forall>i \<in> S. i < length cs \<longrightarrow> tc_hot (cs ! i) \<Longrightarrow> heat S cs = cs"
  by (rule nth_equalityI) auto

lemma heat_positions: "positions_ok (q\<lparr>dq_clauses := heat S (dq_clauses q), dq_hot_queue := h\<rparr>) = positions_ok q"
  by (auto simp: positions_ok_def)

definition heated :: "nat set \<Rightarrow> decide_queue \<Rightarrow> decide_queue" where
  "heated S q = q\<lparr>dq_clauses := heat S (dq_clauses q),
     dq_hot_queue := filter (\<lambda>(_, i). tc_hot (heat S (dq_clauses q) ! i)) (dq_queue q)\<rparr>"

lemma mark_clause_hot_eq:
  assumes "positions_ok q" "queues_ok q" "i < length (dq_clauses q)"
  shows "mark_clause_hot q i = Some (heated {i} q)"
proof (cases "tc_hot (dq_clauses q ! i)")
  case True
  then have "heat {i} (dq_clauses q) = dq_clauses q" by (intro heat_none) auto
  then have "heated {i} q = q" using assms(2) by (simp add: heated_def queues_ok_def)
  with True assms(3) show ?thesis by (simp add: mark_clause_hot_def slice_get_def)
next
  case False
  let ?p = "tc_position (dq_clauses q ! i)"
  let ?hot = "\<lambda>(_, j). tc_hot (dq_clauses q ! j)"
  have ord: "bt_ordered (dq_queue q)" and ok: "\<forall>(pos, j) \<in> set (dq_queue q). j < length (dq_clauses q) \<and> tc_position (dq_clauses q ! j) = pos"
    using assms(2) by (auto simp: queues_ok_def)
  have uniq: "j = i" if "(?p, j) \<in> set (dq_queue q)" for j
    using that ok assms(3) position_inj [OF assms(1), of j i] by auto
  have eq: "filter (\<lambda>(_, j). tc_hot (heat {i} (dq_clauses q) ! j)) (dq_queue q) =
      filter (\<lambda>kv. ?hot kv \<or> kv = (?p, i)) (dq_queue q)"
    by (rule filter_cong) (use ok in auto)
  show ?thesis
  proof (cases "map_of (dq_queue q) ?p")
    case None
    then have "(?p, i) \<notin> set (dq_queue q)" by (force simp: map_of_eq_None_iff)
    then have "filter (\<lambda>kv. ?hot kv \<or> kv = (?p, i)) (dq_queue q) = dq_hot_queue q"
      using assms(2) unfolding queues_ok_def by (auto intro: filter_cong)
    with None False assms(3) eq show ?thesis
      by (simp add: mark_clause_hot_def slice_get_def heat_update heated_def)
  next
    case (Some j)
    then have "(?p, i) \<in> set (dq_queue q)" "j = i" using uniq map_of_SomeD [OF Some] by auto
    with Some False assms(2,3) eq filter_add_entry [OF ord, of ?p i ?hot] show ?thesis
      by (simp add: mark_clause_hot_def slice_get_def heat_update heated_def queues_ok_def)
  qed
qed

lemma heated_ok:
  assumes "positions_ok q" "queues_ok q"
  shows "positions_ok (heated S q)" "queues_ok (heated S q)"
  using assms by (auto simp: heated_def heat_positions queues_ok_def)

lemma heated_heated: "heated T (heated S q) = heated (S \<union> T) q"
  by (simp add: heated_def heat_heat)

lemma fold_mark_hot:
  assumes "positions_ok q" "queues_ok q" "\<forall>i \<in> set ids. i < length (dq_clauses q)"
  shows "fold_opt mark_clause_hot q ids = Some (heated (set ids) q)"
  using assms
proof (induction ids arbitrary: q)
  case Nil
  then show ?case by (simp add: heated_def heat_none queues_ok_def)
next
  case (Cons i ids)
  have "length (dq_clauses (heated {i} q)) = length (dq_clauses q)" by (simp add: heated_def)
  with Cons heated_ok [OF Cons.prems(1,2), of "{i}"] show ?case
    by (simp add: mark_clause_hot_eq heated_heated)
qed

lemma mark_name_hot_inv:
  assumes "queue_inv pv rcs djs val U q"
  obtains q' where "mark_name_hot name q = Some q'" "queue_inv pv rcs djs val U q'"
    "dq_hot_names q' = insert name (dq_hot_names q)" "dq_mirror q' = dq_mirror q" "dq_hot_only q' = dq_hot_only q"
    "length (dq_clauses q') = length (dq_clauses q)"
    "\<And>i. i < length (dq_clauses q) \<Longrightarrow> \<exists>h. dq_clauses q' ! i = (dq_clauses q ! i)\<lparr>tc_hot := h\<rparr>"
proof (cases "name \<in> dq_hot_names q")
  case True
  have "\<exists>h. dq_clauses q ! i = (dq_clauses q ! i)\<lparr>tc_hot := h\<rparr>" for i
    by (intro exI [of _ "tc_hot (dq_clauses q ! i)"]) simp
  with True assms show thesis by (intro that [of q]) (auto simp: mark_name_hot_def)
next
  case False
  let ?q1 = "q\<lparr>dq_hot_names := insert name (dq_hot_names q)\<rparr>"
  let ?ids = "listed (dq_clauses_by_name q) name"
  from assms have wf: "queue_wf pv rcs djs q" and w: "woken djs val U U q" and c: "cache_right pv rcs val U q"
    by (simp_all add: queue_inv_def)
  note d = queue_wfD [OF wf]
  have ids: "i \<in> set ?ids \<longleftrightarrow> i < length (dq_clauses q) \<and> name \<in> set (names_of pv (tc_requirement (dq_clauses q ! i)))" for i
    using d(3) by (simp add: occurrences_ok_def set_listed)
  have ok1: "positions_ok ?q1" "queues_ok ?q1" using d(1,2) by (auto simp: positions_ok_def queues_ok_def)
  let ?q' = "heated (set ?ids) ?q1"
  have nth: "dq_clauses ?q' ! i = (dq_clauses q ! i)\<lparr>tc_hot := tc_hot (dq_clauses q ! i) \<or> i \<in> set ?ids\<rparr>"
    if "i < length (dq_clauses q)" for i using that by (simp add: heated_def)
  have fr: "length (dq_clauses ?q') = length (dq_clauses q)" "dq_queue ?q' = dq_queue q"
    "dq_requirement_states ?q' = dq_requirement_states q" "dq_hot_names ?q' = insert name (dq_hot_names q)"
    "dq_clauses_by_name ?q' = dq_clauses_by_name q" "dq_clauses_by_requirement ?q' = dq_clauses_by_requirement q"
    "dq_clauses_by_condition_variable ?q' = dq_clauses_by_condition_variable q"
    "dq_requirements_by_candidate ?q' = dq_requirements_by_candidate q"
    by (simp_all add: heated_def)
  have "occurrences_ok pv djs ?q'" using d(3) by (auto simp: occurrences_ok_def fr nth)
  moreover have "hot_ok pv ?q'"
    unfolding hot_ok_def all_set_conv_all_nth fr(1,4)
    using d(4) ids by (auto simp: nth hot_ok_def all_set_conv_all_nth)
  moreover have "cache_ok pv rcs djs ?q'"
    using d(5) unfolding cache_ok_def all_set_conv_all_nth fr by (simp add: nth)
  ultimately have "queue_wf pv rcs djs ?q'" using heated_ok [OF ok1] by (simp add: queue_wf_def)
  moreover have "woken djs val U U ?q'"
    using w by (auto simp: woken_def fr nth queued_def cached_satisfied_def active_def pending_def)
  moreover have "cache_right pv rcs val U ?q'" using c by (simp add: cache_right_def fr)
  ultimately have "queue_inv pv rcs djs val U ?q'" by (simp add: queue_inv_def)
  moreover have "mark_name_hot name q = Some ?q'"
  proof (cases "dq_clauses_by_name q name")
    case None
    then have "?ids = []" by (simp add: listed_def)
    moreover have "fold_opt mark_clause_hot ?q1 [] = Some (heated (set []) ?q1)" by (rule fold_mark_hot [OF ok1]) simp
    ultimately show ?thesis using False None by (simp add: mark_name_hot_def)
  next
    case (Some xs)
    then have "?ids = xs" by (simp add: listed_def)
    with fold_mark_hot [OF ok1, of xs] ids Some False show ?thesis by (simp add: mark_name_hot_def)
  qed
  ultimately show thesis using nth by (intro that [of ?q']) (auto simp: heated_def)
qed

section \<open>Inspecting clauses\<close>

definition eligible :: "sorted_candidates \<Rightarrow> disjunctions \<Rightarrow> assignment \<Rightarrow> tracked_clause \<Rightarrow> bool" where
  "eligible rcs djs val c \<longleftrightarrow> active djs val c \<and> (\<forall>v \<in> candidates_of rcs (tc_requirement c). val v \<noteq> Some True)"

text \<open>Propagation leaves no active clause without a candidate that is not false.\<close>

definition live :: "sorted_candidates \<Rightarrow> disjunctions \<Rightarrow> assignment \<Rightarrow> decide_queue \<Rightarrow> bool" where
  "live rcs djs val q \<longleftrightarrow> (\<forall>c \<in> set (dq_clauses q). active djs val c \<longrightarrow>
     (\<exists>v \<in> candidates_of rcs (tc_requirement c). val v \<noteq> Some False))"

lemma walk_list_Inl: "walk_list val ws f = Inl v \<Longrightarrow> v \<in> snd ` set ws \<and> val v = Some True"
  by (induction val ws f rule: walk_list.induct) (auto split: option.splits bool.splits)

lemma walk_list_Inr: "walk_list val ws f = Inr g \<Longrightarrow> w \<in> set ws \<Longrightarrow> val (snd w) \<noteq> Some True"
  by (induction val ws f rule: walk_list.induct) (auto split: option.splits bool.splits)

lemma walk_list_None:
  "walk_list val ws f = Inr None \<Longrightarrow> f = None \<and> (\<forall>w \<in> set ws. val (snd w) = Some False)"
  by (induction val ws f rule: walk_list.induct) (auto split: option.splits bool.splits)

text \<open>The first undecided candidate, and the undecided candidates of its version set counted.\<close>

lemma walk_list_count:
  "walk_list val ws (Some (c, vs, k)) = Inr g \<Longrightarrow>
     g = Some (c, vs, k + length (filter (\<lambda>w. fst w = vs \<and> val (snd w) = None) ws))"
proof (induction ws arbitrary: k)
  case (Cons w ws)
  from Cons.prems Cons.IH [of k] Cons.IH [of "Suc k"] show ?case
    by (cases w) (auto split: option.splits bool.splits if_splits)
qed simp

lemma walk_list_Some:
  assumes "walk_list val ws None = Inr (Some (c, vs, k))"
  shows "(vs, c) \<in> set ws" "val c = None" "k = length (filter (\<lambda>w. fst w = vs \<and> val (snd w) = None) ws)" "1 \<le> k"
    "List.find (\<lambda>w. val (snd w) = None) ws = Some (vs, c)"
  using assms
  by (induction ws) (auto split: option.splits bool.splits dest!: walk_list_count)

lemma frontierD:
  assumes "frontier pv rcs val r (c, vs, k)" "rcs r = Some cs" "length cs = length (requirement_version_sets pv r)"
  shows "c \<in> candidates_of rcs r" "val c = None" "vs \<in> set (requirement_version_sets pv r)" "1 \<le> k"
    "\<forall>v \<in> candidates_of rcs r. val v \<noteq> Some True"
proof -
  note w = assms(1) [unfolded frontier_def]
  note vars = walk_variables [of rcs r cs pv, OF assms(2,3)]
  have mem: "(vs, c) \<in> set (walk pv rcs r)" and "val c = None" "1 \<le> k" using walk_list_Some [OF w] by auto
  then show "val c = None" "1 \<le> k" by simp_all
  from imageI [OF mem, of snd] show "c \<in> candidates_of rcs r" by (simp only: vars snd_conv)
  from mem show "vs \<in> set (requirement_version_sets pv r)"
    by (auto simp: walk_def assms(2) dest: set_zip_leftD)
  show "\<forall>v \<in> candidates_of rcs r. val v \<noteq> Some True"
    using walk_list_Inr [OF w] unfolding vars [symmetric] by auto
qed

lemma eval_requirement_spec:
  assumes inv: "queue_inv pv rcs djs (DecisionMap_value dm) {} q"
    and e: "dq_requirement_states q r \<noteq> None" and ok: "\<exists>v \<in> candidates_of rcs r. DecisionMap_value dm v \<noteq> Some False"
  obtains st q' where "eval_requirement pv dm rcs r q = Some (st, q')" "queue_inv pv rcs djs (DecisionMap_value dm) {} q'"
    "state_of q' r = Some st" "st \<noteq> Dirty"
    "q' = q\<lparr>dq_requirements_by_candidate := dq_requirements_by_candidate q', dq_requirement_states := dq_requirement_states q'\<rparr>"
proof -
  let ?val = "DecisionMap_value dm"
  from inv have wf: "queue_wf pv rcs djs q" and w: "woken djs ?val {} {} q" and c: "cache_right pv rcs ?val {} q"
    by (simp_all add: queue_inv_def)
  from e obtain en where en: "dq_requirement_states q r = Some en" by auto
  obtain cs where cs: "rcs r = Some cs" "length cs = length (requirement_version_sets pv r)"
    "re_occurrences_registered en \<Longrightarrow> \<forall>v \<in> candidates_of rcs r. occurs (dq_requirements_by_candidate q) v r"
    by (rule cache_okE [OF queue_wfD(5) [OF wf] en]) (rule that)
  show thesis
  proof (cases "re_state en = Dirty")
    case False
    with en inv show thesis by (intro that [of "re_state en" q]) (auto simp: eval_requirement_def state_of_def)
  next
    case True
    let ?w = "walk_list ?val (walk pv rcs r) None"
    define st where "st = (case ?w of Inl v \<Rightarrow> Satisfied v | Inr None \<Rightarrow> Dirty | Inr (Some (v, vs, k)) \<Rightarrow> Frontier v vs k)"
    let ?m = "if re_occurrences_registered en then dq_requirements_by_candidate q
      else foldl (\<lambda>m c. entry_push m c r) (dq_requirements_by_candidate q) (concat cs)"
    let ?q' = "q\<lparr>dq_requirements_by_candidate := ?m, dq_requirement_states := (dq_requirement_states q)
            (r \<mapsto> \<lparr>re_state = st, re_occurrences_registered = True\<rparr>)\<rparr>"
    note vars = walk_variables [of rcs r cs pv, OF cs(1,2)]
    have ne: "?w \<noteq> Inr None" using walk_list_None ok vars by fastforce
    have occ: "occurs ?m v r' \<longleftrightarrow> occurs (dq_requirements_by_candidate q) v r' \<or>
        (\<not> re_occurrences_registered en \<and> r' = r \<and> v \<in> candidates_of rcs r)" for v r'
      using occurs_foldl_push [of "\<lambda>c. c" r "dq_requirements_by_candidate q" "concat cs"]
      by (auto simp: candidates_of_def cs(1))
    have "cache_ok pv rcs djs ?q'"
      using queue_wfD(5) [OF wf] en cs ne vars occ walk_list_Inl [of ?val "walk pv rcs r" None]
      unfolding cache_ok_def by (auto simp: st_def split: sum.splits option.splits)
    with wf have "queue_wf pv rcs djs ?q'"
      by (simp add: queue_wf_def positions_ok_def queues_ok_def occurrences_ok_def hot_ok_def)
    moreover have "woken djs ?val {} {} ?q'"
      using w en True by (auto simp: woken_def queued_def cached_satisfied_def)
    moreover have "cache_right pv rcs ?val {} ?q'"
      using c walk_list_Inl [of ?val "walk pv rcs r" None]
      by (auto simp: cache_right_def st_def frontier_def split: sum.splits option.splits)
    moreover have "eval_requirement pv dm rcs r q = Some (st, ?q')"
      using en True cs(1) ne
      by (auto simp: eval_requirement_def walk_candidates_walk_list walk_def st_def Let_def split: sum.splits option.splits)
    ultimately show thesis using ne
      by (intro that [of st ?q']) (auto simp: queue_inv_def state_of_def st_def split: sum.splits option.splits)
  qed
qed

text \<open>What an inspection finds, from the assignment alone.\<close>

definition clause_frontier ::
  "provider \<Rightarrow> sorted_candidates \<Rightarrow> disjunctions \<Rightarrow> assignment \<Rightarrow> tracked_clause \<Rightarrow> (variable_id \<times> version_set_id \<times> nat) option" where
  "clause_frontier pv rcs djs val c = (if active djs val c
     then (case walk_list val (walk pv rcs (tc_requirement c)) None of Inl _ \<Rightarrow> None | Inr f \<Rightarrow> f) else None)"

lemma inspect_spec:
  assumes inv: "queue_inv pv rcs djs (DecisionMap_value dm) {} q" and c: "c \<in> set (dq_clauses q)"
    and live: "live rcs djs (DecisionMap_value dm) q"
  obtains q' where "inspect pv dm rcs djs c q = Some (clause_frontier pv rcs djs (DecisionMap_value dm) c, q')"
    "queue_inv pv rcs djs (DecisionMap_value dm) {} q'"
    "clause_frontier pv rcs djs (DecisionMap_value dm) c = None \<Longrightarrow>
       active djs (DecisionMap_value dm) c \<Longrightarrow> cached_satisfied q' (tc_requirement c)"
    "q' = q\<lparr>dq_requirements_by_candidate := dq_requirements_by_candidate q', dq_requirement_states := dq_requirement_states q'\<rparr>"
proof -
  let ?val = "DecisionMap_value dm"
  from inv have wf: "queue_wf pv rcs djs q" by (simp add: queue_inv_def)
  note ck = queue_wfD(5) [OF wf, unfolded cache_ok_def]
  from ck c obtain ls where ls: "disjunction_literals djs (tc_condition c) = Some ls" by blast
  have act: "active djs ?val c \<longleftrightarrow> ?val (tc_parent c) = Some True \<and> (\<forall>l \<in> set ls. eval l dm = Some False)"
    by (simp add: active_def condition_holds_def ls eval_False_iff)
  show thesis
  proof (cases "active djs ?val c")
    case False
    then have "tc_condition c \<noteq> None \<or> ?val (tc_parent c) \<noteq> Some True"
      using act ls by (cases "tc_condition c") (auto simp: disjunction_literals_def)
    with False act ls inv show thesis
      by (intro that [of q]) (auto simp: inspect_def clause_frontier_def list_all_iff)
  next
    case True
    from ck c have st: "dq_requirement_states q (tc_requirement c) \<noteq> None" by blast
    obtain st q' where q': "eval_requirement pv dm rcs (tc_requirement c) q = Some (st, q')"
      "queue_inv pv rcs djs ?val {} q'" "state_of q' (tc_requirement c) = Some st" "st \<noteq> Dirty"
      "q' = q\<lparr>dq_requirements_by_candidate := dq_requirements_by_candidate q', dq_requirement_states := dq_requirement_states q'\<rparr>"
      by (rule eval_requirement_spec [OF inv st]) (use live c True in \<open>auto simp: live_def\<close>)
    from q'(3) obtain e where e: "dq_requirement_states q' (tc_requirement c) = Some e" "re_state e = st"
      by (auto simp: state_of_def)
    from q'(2) have wf': "queue_wf pv rcs djs q'" and cr: "cache_right pv rcs ?val {} q'" by (auto simp: queue_inv_def)
    obtain cs where cs: "rcs (tc_requirement c) = Some cs"
      "length cs = length (requirement_version_sets pv (tc_requirement c))"
      "\<And>v. st = Satisfied v \<Longrightarrow> v \<in> candidates_of rcs (tc_requirement c)"
      by (rule cache_okE [OF queue_wfD(5) [OF wf'] e(1), unfolded e(2)]) (rule that)
    let ?w = "walk_list ?val (walk pv rcs (tc_requirement c)) None"
    have fr: "(case st of Frontier v vs k \<Rightarrow> ?w = Inr (Some (v, vs, k)) | Satisfied _ \<Rightarrow> \<exists>v. ?w = Inl v | Dirty \<Rightarrow> False)"
    proof (cases st)
      case (Satisfied v)
      then have "v \<in> snd ` set (walk pv rcs (tc_requirement c))" "?val v = Some True"
        using cs walk_variables [of rcs "tc_requirement c" cs pv]
          cr [unfolded cache_right_def, rule_format, OF e(1)] e(2) by auto
      then have "?w \<noteq> Inr g" for g using walk_list_Inr by fastforce
      with Satisfied show ?thesis by (cases ?w) auto
    qed (use q'(4) cr [unfolded cache_right_def, rule_format, OF e(1)] e(2) in \<open>simp_all add: frontier_def\<close>)
    have "inspect pv dm rcs djs c q = Some (clause_frontier pv rcs djs ?val c, q')"
      using True act ls q'(1) fr
      by (auto simp: inspect_def clause_frontier_def list_all_iff split: requirement_state.splits)
    moreover have "cached_satisfied q' (tc_requirement c)" if "clause_frontier pv rcs djs ?val c = None"
      using that fr e True by (auto simp: cached_satisfied_def clause_frontier_def split: requirement_state.splits)
    ultimately show thesis using q'(2,5) by (intro that [of q'])
  qed
qed

text \<open>Dequeueing a clause that is not eligible.\<close>

definition dequeue :: "nat \<Rightarrow> decide_queue \<Rightarrow> decide_queue" where
  "dequeue pos q = q\<lparr>dq_queue := bt_remove pos (dq_queue q), dq_hot_queue := bt_remove pos (dq_hot_queue q)\<rparr>"

lemma dequeue_inv:
  assumes inv: "queue_inv pv rcs djs val U q" and mem: "(pos, i) \<in> set (dq_queue q)"
    and c: "active djs val (dq_clauses q ! i) \<Longrightarrow> cached_satisfied q (tc_requirement (dq_clauses q ! i))"
  shows "queue_inv pv rcs djs val U (dequeue pos q)"
proof -
  from inv have wf: "queue_wf pv rcs djs q" and w: "woken djs val U U q" by (simp_all add: queue_inv_def)
  note d = queue_wfD [OF wf]
  have pos: "i < length (dq_clauses q)" "tc_position (dq_clauses q ! i) = pos"
    using d(2) mem by (auto simp: queues_ok_def)
  have "queues_ok (dequeue pos q)"
    using d(2) bt_remove_filter [of "\<lambda>(_, i). tc_hot (dq_clauses q ! i)" pos "dq_queue q"]
    by (auto simp: queues_ok_def dequeue_def)
  then have "queue_wf pv rcs djs (dequeue pos q)"
    using wf by (simp add: queue_wf_def positions_ok_def occurrences_ok_def hot_ok_def cache_ok_def dequeue_def)
  moreover have "queued (dequeue pos q) j \<longleftrightarrow> queued q j \<and> j \<noteq> i" if "j < length (dq_clauses q)" for j
    using that pos position_inj [OF d(1) that pos(1)] by (auto simp: queued_def dequeue_def)
  then have "woken djs val U U (dequeue pos q)"
    using w c unfolding woken_def by (auto simp: dequeue_def cached_satisfied_def)
  ultimately show ?thesis using inv by (auto simp: queue_inv_def cache_right_def dequeue_def)
qed

end
