(* ===== verification/Decision_Selection.thy ===== *)
theory Decision_Selection
  imports Queue_Invariant
begin

text \<open>
  The choice of the next decision. \<open>next_decision\<close> visits a queue that is kept incrementally,
  skips the clauses that cannot win and stops early; this theory shows that it returns what a
  scan over all registered clauses in their fixed order returns.
\<close>

section \<open>The exhaustive scan\<close>

definition contender :: "provider \<Rightarrow> (name_id \<Rightarrow> f32) \<Rightarrow> tracked_clause \<Rightarrow> variable_id \<times> version_set_id \<times> nat \<Rightarrow> best" where
  "contender pv act c = (\<lambda>(candidate, version_set, count).
     \<lparr>be_position = tc_position c, be_explicit = (tc_parent c = 0),
      be_activity = act (pv_version_set_name pv version_set), be_count = count,
      be_decision = (candidate, tc_parent c, tc_clause_id c)\<rparr>)"

text \<open>The eligible clauses of a list, with what the heuristic looks at.\<close>

definition contenders ::
  "provider \<Rightarrow> sorted_candidates \<Rightarrow> disjunctions \<Rightarrow> assignment \<Rightarrow> (name_id \<Rightarrow> f32) \<Rightarrow> tracked_clause list \<Rightarrow> best list" where
  "contenders pv rcs djs val act cs =
     List.map_filter (\<lambda>c. map_option (contender pv act c) (clause_frontier pv rcs djs val c)) cs"

text \<open>
  A contender replaces the best one so far only with a strictly higher activity and strictly
  fewer candidates; an explicit one is not replaced by one that is not.
\<close>

definition challenge :: "f32_ops \<Rightarrow> best \<Rightarrow> best \<Rightarrow> best" where
  "challenge fl b b' =
     (if be_explicit b \<and> \<not> be_explicit b' \<or> f32_ge fl (be_activity b) (be_activity b') \<or> be_count b \<le> be_count b'
      then b else b')"

definition best_of :: "f32_ops \<Rightarrow> best list \<Rightarrow> best option" where
  "best_of fl bs = (case bs of [] \<Rightarrow> None | b # bs' \<Rightarrow> Some (foldl (challenge fl) b bs'))"

definition decision_of :: "best \<Rightarrow> queue_decision" where
  "decision_of b = (case be_decision b of (candidate, required_by, clause_id) \<Rightarrow>
     \<lparr>qd_candidate = candidate, qd_required_by = required_by, qd_clause_id = clause_id,
      qd_package_activity = be_activity b, qd_candidate_count = be_count b\<rparr>)"

definition exhaustive_decision ::
  "provider \<Rightarrow> f32_ops \<Rightarrow> sorted_candidates \<Rightarrow> disjunctions \<Rightarrow> assignment \<Rightarrow> (name_id \<Rightarrow> f32) \<Rightarrow> tracked_clause list \<Rightarrow>
    queue_decision option" where
  "exhaustive_decision pv fl rcs djs val act cs =
     map_option decision_of (best_of fl (contenders pv rcs djs val act (sort_key tc_position cs)))"

section \<open>Lists of contenders\<close>

lemma contenders_simps [simp]:
  "contenders pv rcs djs val act [] = []"
  "contenders pv rcs djs val act (c # cs) = (case clause_frontier pv rcs djs val c of
     None \<Rightarrow> contenders pv rcs djs val act cs
   | Some f \<Rightarrow> contender pv act c f # contenders pv rcs djs val act cs)"
  by (simp_all add: contenders_def List.map_filter_simps split: option.split)

lemma contenders_append [simp]:
  "contenders pv rcs djs val act (cs @ cs') = contenders pv rcs djs val act cs @ contenders pv rcs djs val act cs'"
  by (induction cs) (auto split: option.split)

lemma contenders_filter:
  "(\<And>c. c \<in> set cs \<Longrightarrow> \<not> P c \<Longrightarrow> clause_frontier pv rcs djs val c = None) \<Longrightarrow>
   contenders pv rcs djs val act (filter P cs) = contenders pv rcs djs val act cs"
  by (induction cs) (auto split: option.split)

text \<open>The clauses of the queue, in its order.\<close>

definition queue_clauses :: "decide_queue \<Rightarrow> (nat \<times> nat) list \<Rightarrow> tracked_clause list" where
  "queue_clauses q m = map (\<lambda>(_, i). dq_clauses q ! i) m"

lemma strictly_ordered_unique:
  assumes "sorted_wrt (<) (map (f :: 'a \<Rightarrow> nat) xs)" "sorted_wrt (<) (map f ys)" "set xs = set ys"
  shows "xs = ys"
proof -
  have "map f xs = map f ys" by (rule strict_sorted_equal) (use assms in auto)
  moreover have "inj_on f (set xs \<union> set ys)"
    using assms(1,3) by (simp add: strict_sorted_iff distinct_map)
  ultimately show ?thesis by (rule map_inj_on)
qed

text \<open>The queue holds every eligible clause, so scanning it is scanning all clauses.\<close>

lemma queue_contenders:
  assumes inv: "queue_inv pv rcs djs val {} q"
  shows "contenders pv rcs djs val act (queue_clauses q (dq_queue q)) =
    contenders pv rcs djs val act (sort_key tc_position (dq_clauses q))"
proof -
  from inv have wf: "queue_wf pv rcs djs q" and w: "woken djs val {} {} q" and cr: "cache_right pv rcs val {} q"
    by (simp_all add: queue_inv_def)
  note d = queue_wfD [OF wf]
  let ?P = "\<lambda>c. clause_frontier pv rcs djs val c \<noteq> None"
  have pos: "map tc_position (queue_clauses q (dq_queue q)) = map fst (dq_queue q)"
    using d(2) by (auto simp: queue_clauses_def queues_ok_def)
  have filter_sorted: "sorted_wrt (<) (map f xs) \<Longrightarrow> sorted_wrt (<) (map f (filter P xs))"
    for f :: "tracked_clause \<Rightarrow> nat" and P xs by (induction xs) auto
  have "distinct (map tc_position (dq_clauses q))"
    using position_inj [OF d(1)] by (auto simp: distinct_conv_nth)
  then have "distinct (map tc_position (sort_key tc_position (dq_clauses q)))"
    by (metis distinct_map distinct_sort set_sort)
  then have sort: "sorted_wrt (<) (map tc_position (sort_key tc_position (dq_clauses q)))"
    by (simp only: strict_sorted_iff sorted_sort_key)
  have mem: "dq_clauses q ! i \<in> set (queue_clauses q (dq_queue q))"
    if i: "i < length (dq_clauses q)" "?P (dq_clauses q ! i)" for i
  proof -
    let ?c = "dq_clauses q ! i"
    have act: "active djs val ?c" using i(2) by (auto simp: clause_frontier_def split: if_splits)
    have "\<not> cached_satisfied q (tc_requirement ?c)"
    proof
      assume "cached_satisfied q (tc_requirement ?c)"
      then obtain e v where e: "dq_requirement_states q (tc_requirement ?c) = Some e" "re_state e = Satisfied v"
        by (auto simp: cached_satisfied_def)
      obtain cs where cs: "rcs (tc_requirement ?c) = Some cs"
        "length cs = length (requirement_version_sets pv (tc_requirement ?c))" "v \<in> candidates_of rcs (tc_requirement ?c)"
        by (rule cache_okE [OF d(5) e(1)]) (use e(2) that in blast)
      have "val v = Some True" using cr [unfolded cache_right_def, rule_format, OF e(1)] e(2) by simp
      moreover have "v \<in> snd ` set (walk pv rcs (tc_requirement ?c))"
        using cs(3) walk_variables [of rcs "tc_requirement ?c" cs pv, OF cs(1,2)] by simp
      ultimately show False using i(2) act walk_list_Inr by (fastforce simp: clause_frontier_def split: sum.splits)
    qed
    with w i(1) act have "queued q i" by (auto simp: woken_def pending_def)
    then show ?thesis by (force simp: queued_def queue_clauses_def)
  qed
  have "filter ?P (queue_clauses q (dq_queue q)) = filter ?P (sort_key tc_position (dq_clauses q))"
  proof (rule strictly_ordered_unique [where f = tc_position])
    show "sorted_wrt (<) (map tc_position (filter ?P (queue_clauses q (dq_queue q))))"
      using d(2) by (intro filter_sorted) (simp add: pos queues_ok_def)
    show "sorted_wrt (<) (map tc_position (filter ?P (sort_key tc_position (dq_clauses q))))"
      by (rule filter_sorted [OF sort])
    have "set (queue_clauses q (dq_queue q)) \<subseteq> set (dq_clauses q)"
      using d(2) by (auto simp: queue_clauses_def queues_ok_def)
    moreover have "c \<in> set (queue_clauses q (dq_queue q))" if "c \<in> set (dq_clauses q)" "?P c" for c
      using that mem by (auto simp: in_set_conv_nth [of c "dq_clauses q"])
    ultimately show "set (filter ?P (queue_clauses q (dq_queue q))) = set (filter ?P (sort_key tc_position (dq_clauses q)))"
      by auto
  qed
  moreover have "contenders pv rcs djs val act (filter ?P cs) = contenders pv rcs djs val act cs" for cs
    by (rule contenders_filter) blast
  ultimately show ?thesis by metis
qed

section \<open>The first eligible clause\<close>

text \<open>Inspection and dequeueing keep the clauses and the contenders.\<close>

lemma live_cong: "dq_clauses q' = dq_clauses q \<Longrightarrow> live rcs djs val q' = live rcs djs val q"
  by (simp add: live_def)

lemma inspect_queued:
  assumes inv: "queue_inv pv rcs djs (DecisionMap_value dm) {} q" and mem: "(pos, i) \<in> set (dq_queue q)"
    and live: "live rcs djs (DecisionMap_value dm) q"
  obtains q' where "i < length (dq_clauses q)" "tc_position (dq_clauses q ! i) = pos"
    "inspect pv dm rcs djs (dq_clauses q ! i) q =
       Some (clause_frontier pv rcs djs (DecisionMap_value dm) (dq_clauses q ! i), q')"
    "queue_inv pv rcs djs (DecisionMap_value dm) {} q'" "dq_clauses q' = dq_clauses q" "dq_queue q' = dq_queue q"
    "dq_hot_queue q' = dq_hot_queue q" "dq_hot_only q' = dq_hot_only q" "dq_hot_names q' = dq_hot_names q"
    "dq_mirror q' = dq_mirror q"
    "clause_frontier pv rcs djs (DecisionMap_value dm) (dq_clauses q ! i) = None \<Longrightarrow>
       queue_inv pv rcs djs (DecisionMap_value dm) {} (dequeue pos q')"
proof -
  let ?c = "dq_clauses q ! i"
  have i: "i < length (dq_clauses q)" "tc_position ?c = pos"
    using inv mem by (auto simp: queue_inv_def queue_wf_def queues_ok_def)
  have c: "?c \<in> set (dq_clauses q)" using i by simp
  obtain q' where q': "inspect pv dm rcs djs ?c q = Some (clause_frontier pv rcs djs (DecisionMap_value dm) ?c, q')"
    "queue_inv pv rcs djs (DecisionMap_value dm) {} q'"
    "clause_frontier pv rcs djs (DecisionMap_value dm) ?c = None \<Longrightarrow>
       active djs (DecisionMap_value dm) ?c \<Longrightarrow> cached_satisfied q' (tc_requirement ?c)"
    "q' = q\<lparr>dq_requirements_by_candidate := dq_requirements_by_candidate q', dq_requirement_states := dq_requirement_states q'\<rparr>"
    by (rule inspect_spec [OF inv c live]) (rule that)
  have fr: "dq_clauses q' = dq_clauses q" "dq_queue q' = dq_queue q" "dq_hot_queue q' = dq_hot_queue q"
    "dq_hot_only q' = dq_hot_only q" "dq_hot_names q' = dq_hot_names q" "dq_mirror q' = dq_mirror q"
    by (subst q'(4), simp)+
  have "queue_inv pv rcs djs (DecisionMap_value dm) {} (dequeue pos q')"
    if "clause_frontier pv rcs djs (DecisionMap_value dm) ?c = None"
    by (rule dequeue_inv [OF q'(2), of _ i]) (use q'(3) that mem in \<open>simp_all add: fr\<close>)
  with q' fr i show thesis by (intro that [of q'])
qed

lemma dequeue_first:
  assumes "bt_ordered (dq_queue q)" "dq_queue q = (pos, i) # rest"
  shows "q\<lparr>dq_queue := rest, dq_hot_queue := bt_remove pos (dq_hot_queue q)\<rparr> = dequeue pos q"
    "dq_queue (dequeue pos q) = rest"
proof -
  have "bt_remove pos (dq_queue q) = rest"
    using assms by (auto simp: bt_remove_def filter_id_conv)
  then show "q\<lparr>dq_queue := rest, dq_hot_queue := bt_remove pos (dq_hot_queue q)\<rparr> = dequeue pos q"
    "dq_queue (dequeue pos q) = rest" by (simp_all add: dequeue_def)
qed

lemma first_eligible_spec:
  assumes "queue_inv pv rcs djs (DecisionMap_value dm) {} q" "live rcs djs (DecisionMap_value dm) q"
  shows "\<exists>r q'. first_eligible pv dm rcs djs act q = Some (r, q') \<and> queue_inv pv rcs djs (DecisionMap_value dm) {} q' \<and>
    dq_clauses q' = dq_clauses q \<and> dq_hot_only q' = dq_hot_only q \<and> dq_hot_names q' = dq_hot_names q \<and>
    dq_mirror q' = dq_mirror q \<and>
    (case r of
       None \<Rightarrow> contenders pv rcs djs (DecisionMap_value dm) act (queue_clauses q (dq_queue q)) = []
     | Some b \<Rightarrow> b # contenders pv rcs djs (DecisionMap_value dm) act
           (queue_clauses q' (filter (\<lambda>kv. be_position b < fst kv) (dq_queue q'))) =
         contenders pv rcs djs (DecisionMap_value dm) act (queue_clauses q (dq_queue q)))"
  using assms
proof (induction "length (dq_queue q)" arbitrary: q rule: less_induct)
  case less
  let ?val = "DecisionMap_value dm"
  show ?case
  proof (cases "dq_queue q")
    case Nil
    with less.prems show ?thesis by (subst first_eligible.simps) (simp add: queue_clauses_def)
  next
    case (Cons kv rest)
    then obtain pos i where q: "dq_queue q = (pos, i) # rest" by (cases kv) auto
    let ?c = "dq_clauses q ! i"
    have mem: "(pos, i) \<in> set (dq_queue q)" using q by simp
    obtain q1 where q1: "i < length (dq_clauses q)" "tc_position ?c = pos"
      "inspect pv dm rcs djs ?c q = Some (clause_frontier pv rcs djs ?val ?c, q1)"
      "queue_inv pv rcs djs ?val {} q1" "dq_clauses q1 = dq_clauses q" "dq_queue q1 = dq_queue q"
      "dq_hot_only q1 = dq_hot_only q" "dq_hot_names q1 = dq_hot_names q" "dq_mirror q1 = dq_mirror q"
      "clause_frontier pv rcs djs ?val ?c = None \<Longrightarrow> queue_inv pv rcs djs ?val {} (dequeue pos q1)"
      by (rule inspect_queued [OF less.prems(1) mem less.prems(2)]) (rule that)
    have ord: "bt_ordered (dq_queue q1)" using q1(4) by (simp add: queue_inv_def queue_wf_def queues_ok_def)
    show ?thesis
    proof (cases "clause_frontier pv rcs djs ?val ?c")
      case None
      let ?q2 = "dequeue pos q1"
      have step: "first_eligible pv dm rcs djs act q = first_eligible pv dm rcs djs act ?q2"
        using q q1(1,3,6) None dequeue_first(1) [OF ord, of pos i rest]
        by (subst first_eligible.simps) (simp add: slice_get_def)
      have q2: "dq_queue ?q2 = rest" "dq_clauses ?q2 = dq_clauses q"
        using dequeue_first(2) [OF ord, of pos i rest] q q1(6) by (simp_all add: dequeue_def q1(5))
      have "length (dq_queue ?q2) < length (dq_queue q)" using q q2 by simp
      note IH = less.hyps [OF this q1(10) [OF None]]
      have "live rcs djs ?val ?q2" using less.prems(2) live_cong [OF q2(2)] by simp
      note IH' = IH [OF this]
      have same: "contenders pv rcs djs ?val act (queue_clauses ?q2 (dq_queue ?q2)) =
          contenders pv rcs djs ?val act (queue_clauses q (dq_queue q))"
        using None q q2 by (simp add: queue_clauses_def)
      have "dq_hot_only ?q2 = dq_hot_only q" "dq_hot_names ?q2 = dq_hot_names q" "dq_mirror ?q2 = dq_mirror q"
        using q1(7,8,9) by (simp_all add: dequeue_def)
      with IH' show ?thesis unfolding step same q2(2) by simp
    next
      case (Some f)
      have "first_eligible pv dm rcs djs act q = Some (Some (contender pv act ?c f), q1)"
        using q q1(1,2,3) Some
        by (subst first_eligible.simps) (simp add: slice_get_def contender_def split: prod.split)
      moreover have "filter (\<lambda>kv. pos < fst kv) (dq_queue q1) = rest"
        using ord q q1(6) by (auto simp: filter_id_conv)
      ultimately show ?thesis
        using q q1 Some by (simp add: queue_clauses_def contender_def split_beta)
    qed
  qed
qed

section \<open>Improving on it\<close>

text \<open>
  What makes the shortcuts right: names that were never bumped have the least activity, and an
  activity that equals the maximum is not exceeded.
\<close>

definition activity_ok :: "f32_ops \<Rightarrow> (name_id \<Rightarrow> f32) \<Rightarrow> f32 \<Rightarrow> name_id set \<Rightarrow> bool" where
  "activity_ok fl act max_activity hot \<longleftrightarrow>
     (\<forall>n m. n \<notin> hot \<longrightarrow> f32_ge fl (act m) (act n)) \<and>
     (\<forall>n m. f32_eq fl (act m) max_activity \<longrightarrow> f32_ge fl (act m) (act n))"

lemma foldl_challenge_keeps:
  "(\<And>b'. b' \<in> set bs \<Longrightarrow> challenge fl b b' = b) \<Longrightarrow> foldl (challenge fl) b bs = b"
  by (induction bs) auto

lemma contenders_in:
  "b \<in> set (contenders pv rcs djs val act cs) \<Longrightarrow>
    \<exists>c \<in> set cs. \<exists>f. clause_frontier pv rcs djs val c = Some f \<and> b = contender pv act c f"
  by (induction cs) (auto split: option.splits)

lemma contender_facts:
  assumes "queue_wf pv rcs djs q" "c \<in> set (dq_clauses q)" "clause_frontier pv rcs djs val c = Some f"
  shows "1 \<le> be_count (contender pv act c f)" "\<exists>n. be_activity (contender pv act c f) = act n"
    "\<not> tc_hot c \<Longrightarrow> \<exists>n. n \<notin> dq_hot_names q \<and> be_activity (contender pv act c f) = act n"
proof -
  obtain v vs k where f: "f = (v, vs, k)" by (cases f) auto
  from assms(1,2) obtain e where e: "dq_requirement_states q (tc_requirement c) = Some e"
    unfolding queue_wf_def cache_ok_def by blast
  obtain cs where cs: "rcs (tc_requirement c) = Some cs"
    "length cs = length (requirement_version_sets pv (tc_requirement c))"
    by (rule cache_okE [OF queue_wfD(5) [OF assms(1)] e])
  have fr: "frontier pv rcs val (tc_requirement c) (v, vs, k)"
    using assms(3) f by (auto simp: clause_frontier_def frontier_def split: if_splits sum.splits)
  note fd = frontierD [of pv rcs val "tc_requirement c" v vs k cs, OF fr cs]
  show "1 \<le> be_count (contender pv act c f)" "\<exists>n. be_activity (contender pv act c f) = act n"
    using fd(4) by (auto simp: f contender_def)
  assume "\<not> tc_hot c"
  with queue_wfD(4) [OF assms(1)] assms(2) fd(3) have "pv_version_set_name pv vs \<notin> dq_hot_names q"
    by (auto simp: hot_ok_def names_of_def)
  then show "\<exists>n. n \<notin> dq_hot_names q \<and> be_activity (contender pv act c f) = act n"
    by (auto simp: f contender_def)
qed

text \<open>Splitting an ordered map at the next entry that is visited.\<close>

lemma bt_after_split:
  assumes "bt_ordered m"
  shows "bt_after k (filter P m) = None \<Longrightarrow> \<forall>x \<in> set (filter (\<lambda>kv. k < fst kv) m). \<not> P x"
    "bt_after k (filter P m) = Some x \<Longrightarrow> P x \<and> x \<in> set m \<and> (\<exists>skipped. (\<forall>y \<in> set skipped. \<not> P y \<and> y \<in> set m) \<and>
       filter (\<lambda>kv. k < fst kv) m = skipped @ x # filter (\<lambda>kv. fst x < fst kv) m)"
proof -
  show "\<forall>x \<in> set (filter (\<lambda>kv. k < fst kv) m). \<not> P x" if "bt_after k (filter P m) = None"
    using that by (auto simp: bt_after_def find_None_iff)
  assume "bt_after k (filter P m) = Some x"
  with assms show "P x \<and> x \<in> set m \<and> (\<exists>skipped. (\<forall>y \<in> set skipped. \<not> P y \<and> y \<in> set m) \<and>
       filter (\<lambda>kv. k < fst kv) m = skipped @ x # filter (\<lambda>kv. fst x < fst kv) m)"
  proof (induction m)
    case (Cons y m)
    show ?case
    proof (cases "k < fst y \<and> P y")
      case True
      with Cons.prems have "x = y" by (simp add: bt_after_def)
      moreover have "filter (\<lambda>kv. k < fst kv) m = m" "filter (\<lambda>kv. fst y < fst kv) m = m"
        using True Cons.prems(1) by (auto simp: filter_id_conv)
      ultimately show ?thesis using True by (intro conjI exI [of _ "[]"]) auto
    next
      case False
      with Cons.prems have "bt_after k (filter P m) = Some x" by (auto simp: bt_after_def split: if_splits)
      with Cons obtain skipped where sk: "P x" "x \<in> set m" "\<forall>y \<in> set skipped. \<not> P y \<and> y \<in> set m"
        "filter (\<lambda>kv. k < fst kv) m = skipped @ x # filter (\<lambda>kv. fst x < fst kv) m" by auto
      have "fst y < fst x" using sk(2) Cons.prems(1) by auto
      with sk False show ?thesis
        by (intro conjI exI [of _ "if k < fst y then y # skipped else skipped"]) auto
    qed
  qed (simp add: bt_after_def)
qed

definition visited :: "decide_queue \<Rightarrow> (nat \<times> nat) \<Rightarrow> bool" where
  "visited q = (\<lambda>(_, i). dq_hot_only q \<longrightarrow> tc_hot (dq_clauses q ! i))"

lemma visited_queue:
  assumes "queues_ok q"
  shows "(if dq_hot_only q then dq_hot_queue q else dq_queue q) = filter (visited q) (dq_queue q)"
  using assms by (auto simp: queues_ok_def visited_def filter_id_conv intro!: filter_cong)

lemma queue_clauses_subset:
  assumes "queues_ok q" "set m \<subseteq> set (dq_queue q)"
  shows "set (queue_clauses q m) \<subseteq> set (dq_clauses q)"
proof
  fix c
  assume "c \<in> set (queue_clauses q m)"
  then obtain pos i where "(pos, i) \<in> set m" "c = dq_clauses q ! i" by (auto simp: queue_clauses_def)
  with assms show "c \<in> set (dq_clauses q)" by (fastforce simp: queues_ok_def)
qed

lemma skipped_keep:
  assumes "queue_wf pv rcs djs q" "dq_hot_only q \<Longrightarrow> activity_ok fl act max_activity (dq_hot_names q)"
    "\<exists>n. be_activity b = act n" "\<forall>y \<in> set skipped. \<not> visited q y \<and> y \<in> set (dq_queue q)"
  shows "foldl (challenge fl) b (contenders pv rcs djs val act (queue_clauses q skipped)) = b"
proof (rule foldl_challenge_keeps)
  fix b'
  assume "b' \<in> set (contenders pv rcs djs val act (queue_clauses q skipped))"
  then obtain c f where c: "c \<in> set (queue_clauses q skipped)" "clause_frontier pv rcs djs val c = Some f" "b' = contender pv act c f"
    using contenders_in by blast
  from c(1) obtain pos i where i: "(pos, i) \<in> set skipped" "c = dq_clauses q ! i" by (auto simp: queue_clauses_def)
  with assms(4) have nv: "dq_hot_only q" "\<not> tc_hot c" by (auto simp: visited_def)
  have "c \<in> set (dq_clauses q)"
    using c(1) assms(4) queue_clauses_subset [OF queue_wfD(2) [OF assms(1)], of skipped] by blast
  from contender_facts(3) [OF assms(1) this c(2) nv(2)] obtain n where "n \<notin> dq_hot_names q" "be_activity b' = act n"
    using c(3) by blast
  with assms(2) [OF nv(1)] assms(3) show "challenge fl b b' = b" by (auto simp: challenge_def activity_ok_def)
qed

lemma unbeatable_keep:
  assumes "queue_wf pv rcs djs q" "dq_hot_only q \<Longrightarrow> activity_ok fl act max_activity (dq_hot_names q)"
    "\<exists>n. be_activity b = act n" "unbeatable fl (dq_hot_only q) max_activity b" "set m \<subseteq> set (dq_queue q)"
  shows "foldl (challenge fl) b (contenders pv rcs djs val act (queue_clauses q m)) = b"
proof (rule foldl_challenge_keeps)
  fix b'
  assume "b' \<in> set (contenders pv rcs djs val act (queue_clauses q m))"
  then obtain c f where c: "c \<in> set (queue_clauses q m)" "clause_frontier pv rcs djs val c = Some f" "b' = contender pv act c f"
    using contenders_in by blast
  then have "c \<in> set (dq_clauses q)"
    using queue_clauses_subset [OF queue_wfD(2) [OF assms(1)] assms(5)] by blast
  from contender_facts(1,2) [OF assms(1) this c(2), of act] obtain n where "1 \<le> be_count b'" "be_activity b' = act n"
    unfolding c(3) by blast
  with assms(2,3,4) show "challenge fl b b' = b" by (auto simp: challenge_def unbeatable_def activity_ok_def)
qed

text \<open>One iteration, in terms of contenders.\<close>

lemma improve_best_step:
  assumes "bt_after cursor (if dq_hot_only q then dq_hot_queue q else dq_queue q) = Some (pos, i)"
    "i < length (dq_clauses q)" "tc_position (dq_clauses q ! i) = pos"
    "inspect pv dm rcs djs (dq_clauses q ! i) q = Some (fr, q1)"
  shows "improve_best pv fl dm rcs djs act max_activity cursor b q =
    (if be_explicit b \<and> tc_parent (dq_clauses q ! i) \<noteq> 0
     then improve_best pv fl dm rcs djs act max_activity pos b q
     else case fr of
        None \<Rightarrow> improve_best pv fl dm rcs djs act max_activity pos b (dequeue pos q1)
      | Some f \<Rightarrow> let b' = contender pv act (dq_clauses q ! i) f in
          if f32_ge fl (be_activity b) (be_activity b') \<or> be_count b \<le> be_count b'
          then improve_best pv fl dm rcs djs act max_activity pos b q1
          else if unbeatable fl (dq_hot_only q1) max_activity b' then Some (b', q1)
          else improve_best pv fl dm rcs djs act max_activity pos b' q1)"
  using assms
  by (subst improve_best.simps) (auto simp: slice_get_def dequeue_def contender_def Let_def split: option.split)

lemma entries_after_dequeue:
  assumes "dq_hot_only q' = dq_hot_only q"
    "dq_queue q' = dq_queue q \<and> dq_hot_queue q' = dq_hot_queue q \<or>
     dq_queue q' = bt_remove pos (dq_queue q) \<and> dq_hot_queue q' = bt_remove pos (dq_hot_queue q)"
  shows "entries_after (dq_hot_only q') pos q' = entries_after (dq_hot_only q) pos q"
    "filter (\<lambda>kv. pos < fst kv) (dq_queue q') = filter (\<lambda>kv. pos < fst kv) (dq_queue q)"
proof -
  have "filter (\<lambda>kv. pos < fst kv) (bt_remove pos m) = filter (\<lambda>kv. pos < fst kv) m" for m :: "(nat \<times> nat) list"
    by (auto simp: bt_remove_def intro: filter_cong)
  with assms show "entries_after (dq_hot_only q') pos q' = entries_after (dq_hot_only q) pos q"
    "filter (\<lambda>kv. pos < fst kv) (dq_queue q') = filter (\<lambda>kv. pos < fst kv) (dq_queue q)"
    by (auto simp: entries_after_def)
qed

text \<open>The result is one of the contenders, and the best of them if the activities are sound.\<close>

definition improves ::
  "provider \<Rightarrow> f32_ops \<Rightarrow> sorted_candidates \<Rightarrow> disjunctions \<Rightarrow> assignment \<Rightarrow> (name_id \<Rightarrow> f32) \<Rightarrow> f32 \<Rightarrow>
    decide_queue \<Rightarrow> best \<Rightarrow> (nat \<times> nat) list \<Rightarrow> best \<Rightarrow> bool" where
  "improves pv fl rcs djs val act max_activity q b m b' \<longleftrightarrow>
     b' \<in> insert b (set (contenders pv rcs djs val act (queue_clauses q m))) \<and>
     ((dq_hot_only q \<longrightarrow> activity_ok fl act max_activity (dq_hot_names q)) \<longrightarrow>
        b' = foldl (challenge fl) b (contenders pv rcs djs val act (queue_clauses q m)))"

lemma improves_stay:
  assumes "\<And>hot. dq_hot_only q \<longrightarrow> activity_ok fl act max_activity (dq_hot_names q) \<Longrightarrow>
    foldl (challenge fl) b (contenders pv rcs djs val act (queue_clauses q m)) = b"
  shows "improves pv fl rcs djs val act max_activity q b m b"
  using assms by (simp add: improves_def)

text \<open>Past the skipped entries and one visited one.\<close>

lemma improves_step:
  assumes wf: "queue_wf pv rcs djs q" and b: "\<exists>n. be_activity b = act n"
    and sk: "\<forall>y \<in> set skipped. \<not> visited q y \<and> y \<in> set (dq_queue q)"
    and rest: "improves pv fl rcs djs val act max_activity q b1 rest b'"
    and b1: "case clause_frontier pv rcs djs val (dq_clauses q ! i) of None \<Rightarrow> b1 = b
      | Some f \<Rightarrow> b1 = challenge fl b (contender pv act (dq_clauses q ! i) f)"
  shows "improves pv fl rcs djs val act max_activity q b (skipped @ (pos, i) # rest) b'"
proof -
  have "b1 \<in> insert b (set (contenders pv rcs djs val act [dq_clauses q ! i]))"
    using b1 by (auto simp: challenge_def split: option.splits if_splits)
  moreover have "foldl (challenge fl) b (contenders pv rcs djs val act (queue_clauses q skipped)) = b"
    if "dq_hot_only q \<longrightarrow> activity_ok fl act max_activity (dq_hot_names q)"
    by (rule skipped_keep [OF wf _ b sk]) (use that in blast)
  ultimately show ?thesis
    using rest b1 unfolding improves_def by (auto simp: queue_clauses_def split: option.splits)
qed

lemma improve_best_spec:
  assumes "queue_inv pv rcs djs (DecisionMap_value dm) {} q" "live rcs djs (DecisionMap_value dm) q"
    "\<exists>n. be_activity b = act n"
  shows "\<exists>b' q'. improve_best pv fl dm rcs djs act max_activity cursor b q = Some (b', q') \<and>
    improves pv fl rcs djs (DecisionMap_value dm) act max_activity q b (filter (\<lambda>kv. cursor < fst kv) (dq_queue q)) b' \<and>
    queue_inv pv rcs djs (DecisionMap_value dm) {} q' \<and> dq_clauses q' = dq_clauses q \<and> dq_mirror q' = dq_mirror q \<and>
    dq_hot_names q' = dq_hot_names q \<and> dq_hot_only q' = dq_hot_only q"
  using assms
proof (induction "entries_after (dq_hot_only q) cursor q" arbitrary: cursor b q rule: less_induct)
  case less
  let ?val = "DecisionMap_value dm"
  let ?go = "improve_best pv fl dm rcs djs act max_activity"
  let ?imp = "improves pv fl rcs djs ?val act max_activity q"
  let ?same = "\<lambda>q'. queue_inv pv rcs djs ?val {} q' \<and> dq_clauses q' = dq_clauses q \<and> dq_mirror q' = dq_mirror q \<and>
    dq_hot_names q' = dq_hot_names q \<and> dq_hot_only q' = dq_hot_only q"
  from less.prems(1) have wf: "queue_wf pv rcs djs q" by (simp add: queue_inv_def)
  note vq = visited_queue [OF queue_wfD(2) [OF wf]]
  have ord: "bt_ordered (dq_queue q)" using queue_wfD(2) [OF wf] by (simp add: queues_ok_def)
  note split = bt_after_split [OF ord, of cursor "visited q"]
  show ?case
  proof (cases "bt_after cursor (filter (visited q) (dq_queue q))")
    case None
    then have "?go cursor b q = Some (b, q)" by (subst improve_best.simps) (simp add: vq)
    moreover have "?imp b (filter (\<lambda>kv. cursor < fst kv) (dq_queue q)) b"
      by (rule improves_stay, rule skipped_keep [OF wf _ less.prems(3)]) (use split(1) [OF None] in auto)
    ultimately show ?thesis using less.prems(1) by blast
  next
    case (Some x)
    obtain pos i where x: "x = (pos, i)" by (cases x)
    from split(2) [OF Some] x obtain skipped where sk: "(pos, i) \<in> set (dq_queue q)"
      "\<forall>y \<in> set skipped. \<not> visited q y \<and> y \<in> set (dq_queue q)"
      "filter (\<lambda>kv. cursor < fst kv) (dq_queue q) = skipped @ (pos, i) # filter (\<lambda>kv. pos < fst kv) (dq_queue q)" by auto
    let ?c = "dq_clauses q ! i" and ?rest = "filter (\<lambda>kv. pos < fst kv) (dq_queue q)"
    note goal = improves_step [OF wf less.prems(3) sk(2), of fl ?val max_activity _ ?rest _ i pos, folded sk(3)]
    obtain q1 where q1: "i < length (dq_clauses q)" "tc_position ?c = pos"
      "inspect pv dm rcs djs ?c q = Some (clause_frontier pv rcs djs ?val ?c, q1)"
      "queue_inv pv rcs djs ?val {} q1" "dq_clauses q1 = dq_clauses q" "dq_queue q1 = dq_queue q" "dq_hot_queue q1 = dq_hot_queue q"
      "dq_hot_only q1 = dq_hot_only q" "dq_hot_names q1 = dq_hot_names q" "dq_mirror q1 = dq_mirror q"
      "clause_frontier pv rcs djs ?val ?c = None \<Longrightarrow> queue_inv pv rcs djs ?val {} (dequeue pos q1)"
      by (rule inspect_queued [OF less.prems(1) sk(1) less.prems(2)]) (rule that)
    have dec: "entries_after (dq_hot_only q) pos q < entries_after (dq_hot_only q) cursor q"
      using entries_after_less [OF Some [unfolded x]] by (simp add: entries_after_def vq)
    note step = improve_best_step [OF Some [unfolded x, folded vq] q1(1,2,3)]
    have recur: "\<exists>b'' q'. ?go pos b' q2 = Some (b'', q') \<and> ?imp b' ?rest b'' \<and> ?same q'"
      if "queue_inv pv rcs djs ?val {} q2" "dq_clauses q2 = dq_clauses q" "dq_hot_only q2 = dq_hot_only q"
        "dq_hot_names q2 = dq_hot_names q" "dq_mirror q2 = dq_mirror q" "\<exists>n. be_activity b' = act n"
        "dq_queue q2 = dq_queue q \<and> dq_hot_queue q2 = dq_hot_queue q \<or>
         dq_queue q2 = bt_remove pos (dq_queue q) \<and> dq_hot_queue q2 = bt_remove pos (dq_hot_queue q)" for q2 b'
      using less.hyps [of q2 pos b'] dec that less.prems(2) live_cong [OF that(2)] entries_after_dequeue [OF that(3,7)]
      by (simp add: queue_clauses_def improves_def)
    show ?thesis
    proof (cases "be_explicit b \<and> tc_parent ?c \<noteq> 0")
      case True
      then have "challenge fl b (contender pv act ?c f) = b" for f by (cases f) (simp add: challenge_def contender_def)
      then have "?imp b (filter (\<lambda>kv. cursor < fst kv) (dq_queue q)) b'" if "?imp b ?rest b'" for b'
        by (intro goal [OF that]) (simp split: option.split)
      with True recur [of q b] less.prems(1,3) show ?thesis unfolding step by auto
    next
      case plain: False
      show ?thesis
      proof (cases "clause_frontier pv rcs djs ?val ?c")
        case None
        have "\<exists>b' q'. ?go pos b (dequeue pos q1) = Some (b', q') \<and> ?imp b ?rest b' \<and> ?same q'"
          by (rule recur [OF q1(11) [OF None]]) (use q1 less.prems(3) in \<open>simp_all add: dequeue_def\<close>)
        moreover have "?imp b ?rest b' \<Longrightarrow> ?imp b (filter (\<lambda>kv. cursor < fst kv) (dq_queue q)) b'" for b'
          by (rule goal) (simp_all add: None)
        ultimately show ?thesis using None plain unfolding step by auto
      next
        case (Some f)
        let ?b = "contender pv act ?c f"
        have actf: "\<exists>n. be_activity ?b = act n" by (cases f) (auto simp: contender_def)
        have expl: "be_explicit ?b \<longleftrightarrow> tc_parent ?c = 0" by (cases f) (simp add: contender_def)
        have ub: "?imp ?b ?rest ?b" if "unbeatable fl (dq_hot_only q) max_activity ?b"
          by (rule improves_stay, rule unbeatable_keep [OF wf _ actf that]) auto
        have gb: "?imp (challenge fl b ?b) ?rest b' \<Longrightarrow> ?imp b (filter (\<lambda>kv. cursor < fst kv) (dq_queue q)) b'" for b'
          by (rule goal) (simp_all add: Some)
        show ?thesis
        proof (cases "f32_ge fl (be_activity b) (be_activity ?b) \<or> be_count b \<le> be_count ?b")
          case True
          with recur [OF q1(4,5,8,9,10) less.prems(3)] q1(6,7) gb Some plain show ?thesis
            unfolding step by (auto simp: challenge_def Let_def)
        next
          case False
          then have "challenge fl b ?b = ?b" using plain expl by (auto simp: challenge_def)
          with False recur [OF q1(4,5,8,9,10) actf] q1(4-10) gb ub Some plain show ?thesis
            unfolding step by (auto simp: Let_def)
        qed
      qed
    qed
  qed
qed

text \<open>The selection is a contender, and the exhaustive scan if the activities are sound.\<close>

lemma next_decision_spec:
  assumes inv: "queue_inv pv rcs djs (DecisionMap_value dm) {} q" and live: "live rcs djs (DecisionMap_value dm) q"
  obtains r q' where "next_decision pv fl dm rcs djs act max_activity q = Some (map_option decision_of r, q')"
    "queue_inv pv rcs djs (DecisionMap_value dm) {} q'" "dq_clauses q' = dq_clauses q" "dq_mirror q' = dq_mirror q"
    "dq_hot_names q' = dq_hot_names q" "dq_hot_only q' = dq_hot_only q"
    "r = None \<longleftrightarrow> contenders pv rcs djs (DecisionMap_value dm) act (sort_key tc_position (dq_clauses q)) = []"
    "\<And>b. r = Some b \<Longrightarrow> b \<in> set (contenders pv rcs djs (DecisionMap_value dm) act (sort_key tc_position (dq_clauses q)))"
    "(dq_hot_only q \<longrightarrow> activity_ok fl act max_activity (dq_hot_names q)) \<Longrightarrow>
       r = best_of fl (contenders pv rcs djs (DecisionMap_value dm) act (sort_key tc_position (dq_clauses q)))"
proof -
  let ?val = "DecisionMap_value dm"
  let ?all = "contenders pv rcs djs ?val act (sort_key tc_position (dq_clauses q))"
  note all = queue_contenders [OF inv, of act]
  obtain r q1 where r: "first_eligible pv dm rcs djs act q = Some (r, q1)" "queue_inv pv rcs djs ?val {} q1"
    "dq_clauses q1 = dq_clauses q" "dq_hot_only q1 = dq_hot_only q" "dq_hot_names q1 = dq_hot_names q" "dq_mirror q1 = dq_mirror q"
    "case r of
       None \<Rightarrow> ?all = []
     | Some b \<Rightarrow> b # contenders pv rcs djs ?val act (queue_clauses q1 (filter (\<lambda>kv. be_position b < fst kv) (dq_queue q1))) = ?all"
    using first_eligible_spec [OF inv live, of act] unfolding all by blast
  show thesis
  proof (cases r)
    case None
    with r show thesis
      by (intro that [of None q1]) (simp_all add: next_decision_def best_of_def)
  next
    case (Some b)
    let ?m = "filter (\<lambda>kv. be_position b < fst kv) (dq_queue q1)"
    let ?rest = "contenders pv rcs djs ?val act (queue_clauses q1 ?m)"
    have list: "?all = b # ?rest" using r(7) Some by simp
    have bn: "\<exists>n. be_activity b = act n"
      using contenders_in [of b pv rcs djs ?val act "sort_key tc_position (dq_clauses q)"] list
      by (auto simp: contender_def)
    have wf1: "queue_wf pv rcs djs q1" using r(2) by (simp add: queue_inv_def)
    have "\<exists>b' q'. (if unbeatable fl (dq_hot_only q1) max_activity b then Some (b, q1)
        else improve_best pv fl dm rcs djs act max_activity (be_position b) b q1) = Some (b', q') \<and>
      improves pv fl rcs djs ?val act max_activity q1 b ?m b' \<and> queue_inv pv rcs djs ?val {} q' \<and>
      dq_clauses q' = dq_clauses q \<and> dq_mirror q' = dq_mirror q \<and> dq_hot_names q' = dq_hot_names q \<and> dq_hot_only q' = dq_hot_only q"
    proof (cases "unbeatable fl (dq_hot_only q1) max_activity b")
      case True
      have "improves pv fl rcs djs ?val act max_activity q1 b ?m b"
        by (rule improves_stay, rule unbeatable_keep [OF wf1 _ bn True]) auto
      with True r show ?thesis by simp
    next
      case False
      have "live rcs djs ?val q1" using live live_cong [OF r(3)] by simp
      from improve_best_spec [OF r(2) this bn, of fl max_activity "be_position b"] False r(3-6) show ?thesis by auto
    qed
    then obtain b' q' where b': "(if unbeatable fl (dq_hot_only q1) max_activity b then Some (b, q1)
        else improve_best pv fl dm rcs djs act max_activity (be_position b) b q1) = Some (b', q')"
      "improves pv fl rcs djs ?val act max_activity q1 b ?m b'" "queue_inv pv rcs djs ?val {} q'"
      "dq_clauses q' = dq_clauses q" "dq_mirror q' = dq_mirror q" "dq_hot_names q' = dq_hot_names q" "dq_hot_only q' = dq_hot_only q"
      by blast
    have "next_decision pv fl dm rcs djs act max_activity q = Some (map_option decision_of (Some b'), q')"
      using r(1) Some b'(1) by (cases "be_decision b'") (simp add: next_decision_def decision_of_def)
    with b' list r(4,5) show thesis
      by (intro that [of "Some b'" q']) (auto simp: improves_def best_of_def)
  qed
qed

text \<open>There is a contender exactly if a clause is eligible.\<close>

lemma clause_frontier_eligible:
  assumes "queue_wf pv rcs djs q" "c \<in> set (dq_clauses q)" "live rcs djs val q"
  shows "clause_frontier pv rcs djs val c = None \<longleftrightarrow> \<not> eligible rcs djs val c"
proof -
  from assms(1,2) obtain e where e: "dq_requirement_states q (tc_requirement c) = Some e"
    unfolding queue_wf_def cache_ok_def by blast
  obtain cs where cs: "rcs (tc_requirement c) = Some cs"
    "length cs = length (requirement_version_sets pv (tc_requirement c))"
    by (rule cache_okE [OF queue_wfD(5) [OF assms(1)] e])
  note vars = walk_variables [of rcs "tc_requirement c" cs pv, OF cs]
  let ?w = "walk_list val (walk pv rcs (tc_requirement c)) None"
  have "?w \<noteq> Inr None" if "active djs val c"
  proof
    assume "?w = Inr None"
    then have "\<forall>v \<in> candidates_of rcs (tc_requirement c). val v = Some False"
      using walk_list_None unfolding vars [symmetric] by fastforce
    with assms(2,3) that show False by (auto simp: live_def)
  qed
  moreover have "\<exists>v \<in> candidates_of rcs (tc_requirement c). val v = Some True" if "?w = Inl v" for v
    using walk_list_Inl [OF that] vars by blast
  moreover have "\<forall>v \<in> candidates_of rcs (tc_requirement c). val v \<noteq> Some True" if "?w = Inr g" for g
    using walk_list_Inr [OF that] unfolding vars [symmetric] by blast
  ultimately show ?thesis
    unfolding clause_frontier_def eligible_def by (cases ?w) auto
qed

lemma contenders_Nil_iff:
  "contenders pv rcs djs val act cs = [] \<longleftrightarrow> (\<forall>c \<in> set cs. clause_frontier pv rcs djs val c = None)"
  by (induction cs) (auto split: option.split)

end
