(* ===== verification/Queue_Tracking.thy ===== *)
theory Queue_Tracking
  imports Decision_Selection
begin

text \<open>
  The work queue follows the trail. Between two synchronisations the decision tracker moves on
  and clauses are registered; the queue remembers the trail of the last synchronisation in its
  mirror, the tracker remembers how far it was undone. The two together are enough to bring
  the queue up to date, however the solver moved in between.
\<close>

section \<open>Moves of the tracker\<close>

text \<open>The trail below the floor is as it was.\<close>

definition moves :: "decision_tracker \<Rightarrow> decision_tracker \<Rightarrow> bool" where
  "moves t t' \<longleftrightarrow> tracker_inv t' \<and> dt_sync_floor t' \<le> dt_sync_floor t \<and>
     take (dt_sync_floor t') (dt_stack t') = take (dt_sync_floor t') (dt_stack t)"

lemma moves_refl: "tracker_inv t \<Longrightarrow> moves t t"
  by (simp add: moves_def)

lemma take_eq_mono: "take n xs = take n ys \<Longrightarrow> m \<le> n \<Longrightarrow> take m xs = take m ys"
  by (metis min.absorb1 take_take)

lemma moves_trans:
  assumes "moves t t'" "moves t' t''"
  shows "moves t t''"
proof -
  from assms have "take (dt_sync_floor t'') (dt_stack t') = take (dt_sync_floor t'') (dt_stack t)"
    by (auto simp: moves_def intro: take_eq_mono)
  then show ?thesis using assms by (auto simp: moves_def)
qed

lemma tracker_step_moves:
  assumes "tracker_step t t'" "tracker_inv t"
  shows "moves t t'"
proof -
  note p = tracker_step_prefix [OF assms] and i = tracker_step_inv [OF assms]
  have "dt_sync_floor t' \<le> length (dt_stack t')" "dt_sync_floor t' \<le> length (dt_stack t)"
    using p tracker_invD(6) [OF i] tracker_invD(6) [OF assms(2)] by auto
  with p i show ?thesis by (simp add: moves_def)
qed

section \<open>Tracking\<close>

definition tracks ::
  "provider \<Rightarrow> sorted_candidates \<Rightarrow> disjunctions \<Rightarrow> decide_queue \<Rightarrow> decision_tracker \<Rightarrow> bool" where
  "tracks pv rcs djs q t \<longleftrightarrow> (\<exists>val. dt_sync_floor t \<le> length (dq_mirror q) \<and>
     take (dt_sync_floor t) (dq_mirror q) = map d_variable (take (dt_sync_floor t) (dt_stack t)) \<and>
     (\<forall>v. v \<notin> set (dq_mirror q) \<longrightarrow> val v = None) \<and>
     (\<forall>v \<in> set (take (dt_sync_floor t) (dq_mirror q)). val v = assigned_value t v) \<and>
     queue_inv pv rcs djs val (set (drop (dt_sync_floor t) (dq_mirror q))) q)"

lemma tracksE:
  assumes "tracks pv rcs djs q t"
  obtains val where "dt_sync_floor t \<le> length (dq_mirror q)"
    "take (dt_sync_floor t) (dq_mirror q) = map d_variable (take (dt_sync_floor t) (dt_stack t))"
    "\<And>v. v \<notin> set (dq_mirror q) \<Longrightarrow> val v = None"
    "\<And>v. v \<in> set (take (dt_sync_floor t) (dq_mirror q)) \<Longrightarrow> val v = assigned_value t v"
    "queue_inv pv rcs djs val (set (drop (dt_sync_floor t) (dq_mirror q))) q"
  using assms unfolding tracks_def by blast

lemma queue_inv_default: "queue_inv pv rcs djs val U DecideQueue_default"
  by (simp add: queue_inv_def queue_wf_def positions_ok_def queues_ok_def occurrences_ok_def hot_ok_def cache_ok_def
      woken_def cache_right_def DecideQueue_default_def occurs_def)

lemma tracks_default: "tracks pv rcs djs DecideQueue_default DecisionTracker_default"
  unfolding tracks_def
  by (rule exI [of _ "\<lambda>_. None"]) (simp add: queue_inv_default, simp add: DecideQueue_default_def DecisionTracker_default_def)

lemma assigned_prefix:
  assumes "tracker_inv t" "tracker_inv t'" "take n (dt_stack t') = take n (dt_stack t)"
    "v \<in> d_variable ` set (take n (dt_stack t))"
  shows "assigned_value t' v = assigned_value t v"
proof -
  from assms(4) obtain d where d: "d \<in> set (take n (dt_stack t))" "v = d_variable d" by auto
  with assms(3) have "d \<in> set (dt_stack t)" "d \<in> set (dt_stack t')" by (metis in_set_takeD)+
  with d(2) tracker_invD(2) [OF assms(1), of v "d_value d"] tracker_invD(2) [OF assms(2), of v "d_value d"]
  show ?thesis by auto
qed

lemma tracks_moves:
  assumes "tracks pv rcs djs q t" "tracker_inv t" "moves t t'"
  shows "tracks pv rcs djs q t'"
proof -
  let ?f = "dt_sync_floor t" and ?f' = "dt_sync_floor t'"
  from assms(1) obtain val where v: "?f \<le> length (dq_mirror q)"
    "take ?f (dq_mirror q) = map d_variable (take ?f (dt_stack t))"
    "\<And>v. v \<notin> set (dq_mirror q) \<Longrightarrow> val v = None"
    "\<And>v. v \<in> set (take ?f (dq_mirror q)) \<Longrightarrow> val v = assigned_value t v"
    "queue_inv pv rcs djs val (set (drop ?f (dq_mirror q))) q" by (rule tracksE) (rule that)
  from assms(3) have m: "tracker_inv t'" "?f' \<le> ?f" "take ?f' (dt_stack t') = take ?f' (dt_stack t)" by (auto simp: moves_def)
  have pre: "take ?f' (dq_mirror q) = map d_variable (take ?f' (dt_stack t))"
    using take_eq_mono [of ?f "dq_mirror q" "map d_variable (dt_stack t)", OF _ m(2)] v(2) by (simp add: take_map)
  have "val x = assigned_value t' x" if "x \<in> set (take ?f' (dq_mirror q))" for x
  proof -
    have "x \<in> set (take ?f (dq_mirror q))" using that m(2) by (meson in_mono set_take_subset_set_take)
    with v(4) have "val x = assigned_value t x" by blast
    also have "\<dots> = assigned_value t' x"
      using assigned_prefix [OF assms(2) m(1,3), of x] that pre by simp
    finally show ?thesis .
  qed
  moreover have "queue_inv pv rcs djs val (set (drop ?f' (dq_mirror q))) q"
    by (rule queue_inv_change [OF v(5)]) (simp_all add: set_drop_subset_set_drop m(2))
  ultimately show ?thesis
    unfolding tracks_def using v(1,3) m(2,3) pre by (intro exI [of _ val]) auto
qed

text \<open>A synchronised queue tracks, and tracks what it is synchronised with.\<close>

lemma tracks_synced:
  assumes "queue_inv pv rcs djs (assigned_value t) {} q" "dq_mirror q = map d_variable (dt_stack t)" "tracker_inv t"
    "dt_sync_floor t = length (dt_stack t)"
  shows "tracks pv rcs djs q t"
proof -
  have "assigned_value t v = None" if "v \<notin> set (dq_mirror q)" for v
    using that assms(2) assigned_value_None_iff [OF assms(3)] by auto
  with assms show ?thesis unfolding tracks_def by (intro exI [of _ "assigned_value t"]) simp
qed

lemma take_sync_floor_inv: "tracker_inv t \<Longrightarrow> tracker_inv (snd (take_sync_floor t))"
  by (simp add: take_sync_floor_def tracker_inv_def assigned_value_def tracker_level_def)

lemma tracks_sync:
  assumes "tracks pv rcs djs q t" "tracker_inv t"
  obtains q' where "sync (fst (take_sync_floor t)) (dt_stack t) (dt_map t) q = Some q'"
    "queue_inv pv rcs djs (assigned_value t) {} q'" "dq_mirror q' = map d_variable (dt_stack t)"
    "dq_clauses q' = dq_clauses q" "dq_hot_only q' = dq_hot_only q"
proof -
  let ?f = "dt_sync_floor t"
  have val': "DecisionMap_value (dt_map t) = assigned_value t" by (simp add: assigned_value_def fun_eq_iff)
  from assms(1) obtain val where v: "?f \<le> length (dq_mirror q)"
    "take ?f (dq_mirror q) = map d_variable (take ?f (dt_stack t))"
    "\<And>v. v \<notin> set (dq_mirror q) \<Longrightarrow> val v = None"
    "\<And>v. v \<in> set (take ?f (dq_mirror q)) \<Longrightarrow> val v = assigned_value t v"
    "queue_inv pv rcs djs val (set (drop ?f (dq_mirror q))) q" by (rule tracksE) (rule that)
  let ?U = "set (drop ?f (dq_mirror q)) \<union> d_variable ` set (drop ?f (dt_stack t))"
  have same: "assigned_value t x = val x" if "x \<notin> ?U" for x
  proof (cases "x \<in> set (take ?f (dq_mirror q))")
    case True
    with v(4) show ?thesis by simp
  next
    case False
    with that have "x \<notin> set (dq_mirror q)" by (metis UnCI append_take_drop_id set_append Un_iff)
    moreover have "x \<notin> d_variable ` set (dt_stack t)"
    proof -
      have "x \<notin> d_variable ` set (take ?f (dt_stack t))" using False v(2) by (metis list.set_map)
      then have "x \<notin> d_variable ` set (take ?f (dt_stack t) @ drop ?f (dt_stack t))" using that by (auto simp del: append_take_drop_id)
      then show ?thesis by simp
    qed
    ultimately show ?thesis using v(3) assigned_value_None_iff [OF assms(2)] by auto
  qed
  have "queue_inv pv rcs djs (DecisionMap_value (dt_map t)) ?U q"
    unfolding val' by (rule queue_inv_change [OF v(5) same]) auto
  then obtain q' where q': "sync ?f (dt_stack t) (dt_map t) q = Some q'"
    "queue_inv pv rcs djs (DecisionMap_value (dt_map t)) {} q'"
    "dq_mirror q' = take ?f (dq_mirror q) @ map d_variable (drop ?f (dt_stack t))"
    "dq_clauses q' = dq_clauses q" "dq_hot_only q' = dq_hot_only q"
    using sync_spec [OF _ tracker_invD(6) [OF assms(2)] subset_refl] by blast
  have "dq_mirror q' = map d_variable (take ?f (dt_stack t) @ drop ?f (dt_stack t))" using q'(3) v(2) by (simp only: map_append)
  with q' val' show thesis by (intro that [of q']) (simp_all add: take_sync_floor_def)
qed

lemma tracks_register:
  assumes "tracks pv rcs djs q t"
    "register_clause parent r d cid (names_of pv r) djs (assigned_value t parent) q = Some q'"
    "rcs r = Some cs" "length cs = length (requirement_version_sets pv r)"
  shows "tracks pv rcs djs q' t"
proof -
  let ?f = "dt_sync_floor t"
  from assms(1) obtain val where v: "?f \<le> length (dq_mirror q)"
    "take ?f (dq_mirror q) = map d_variable (take ?f (dt_stack t))"
    "\<And>v. v \<notin> set (dq_mirror q) \<Longrightarrow> val v = None"
    "\<And>v. v \<in> set (take ?f (dq_mirror q)) \<Longrightarrow> val v = assigned_value t v"
    "queue_inv pv rcs djs val (set (drop ?f (dq_mirror q))) q" by (rule tracksE) (rule that)
  have "assigned_value t parent = Some True \<or> parent \<in> set (drop ?f (dq_mirror q))" if "val parent = Some True"
    using that v(3,4) [of parent] by (metis Un_iff append_take_drop_id option.distinct(1) set_append)
  from register_clause_inv [of pv rcs djs val _ q, OF v(5) assms(2,3,4) this]
  have "queue_inv pv rcs djs val (set (drop ?f (dq_mirror q))) q'" .
  moreover have "dq_mirror q' = dq_mirror q"
    by (rule register_clause_registered [OF assms(2)]) (auto simp: registeredD enq_def)
  ultimately show ?thesis using v unfolding tracks_def by (intro exI [of _ val]) simp
qed

lemma tracks_hot:
  assumes "tracks pv rcs djs q t"
  obtains q' where "mark_name_hot name q = Some q'" "tracks pv rcs djs q' t"
    "dq_hot_names q' = insert name (dq_hot_names q)" "dq_hot_only q' = dq_hot_only q"
    "length (dq_clauses q') = length (dq_clauses q)"
    "\<And>i. i < length (dq_clauses q) \<Longrightarrow> \<exists>h. dq_clauses q' ! i = (dq_clauses q ! i)\<lparr>tc_hot := h\<rparr>"
proof -
  let ?f = "dt_sync_floor t"
  from assms obtain val where v: "?f \<le> length (dq_mirror q)"
    "take ?f (dq_mirror q) = map d_variable (take ?f (dt_stack t))"
    "\<And>v. v \<notin> set (dq_mirror q) \<Longrightarrow> val v = None"
    "\<And>v. v \<in> set (take ?f (dq_mirror q)) \<Longrightarrow> val v = assigned_value t v"
    "queue_inv pv rcs djs val (set (drop ?f (dq_mirror q))) q" by (rule tracksE) (rule that)
  obtain q' where q': "mark_name_hot name q = Some q'" "queue_inv pv rcs djs val (set (drop ?f (dq_mirror q))) q'"
    "dq_hot_names q' = insert name (dq_hot_names q)" "dq_mirror q' = dq_mirror q" "dq_hot_only q' = dq_hot_only q"
    "length (dq_clauses q') = length (dq_clauses q)"
    "\<And>i. i < length (dq_clauses q) \<Longrightarrow> \<exists>h. dq_clauses q' ! i = (dq_clauses q ! i)\<lparr>tc_hot := h\<rparr>"
    by (rule mark_name_hot_inv [OF v(5)]) (rule that)
  with v have "tracks pv rcs djs q' t" unfolding tracks_def by (intro exI [of _ val]) simp
  with q' show thesis by (intro that [of q'])
qed

text \<open>Names that became hot.\<close>

definition hotter :: "decide_queue \<Rightarrow> decide_queue \<Rightarrow> bool" where
  "hotter q q' \<longleftrightarrow> (\<exists>names. fold_opt (\<lambda>q name. mark_name_hot name q) q names = Some q')"

lemma fold_opt_append: "fold_opt f s (xs @ ys) = Option.bind (fold_opt f s xs) (\<lambda>s'. fold_opt f s' ys)"
  by (induction xs arbitrary: s) (auto simp: Option.bind_assoc)

lemma hotter_refl [simp]: "hotter q q"
  unfolding hotter_def by (rule exI [of _ "[]"]) simp

lemma hotter_trans: "hotter q q' \<Longrightarrow> hotter q' q'' \<Longrightarrow> hotter q q''"
  unfolding hotter_def by (metis fold_opt_append Option.bind.simps(2))

lemma hotter_step: "mark_name_hot name q = Some q' \<Longrightarrow> hotter q q'"
  unfolding hotter_def by (rule exI [of _ "[name]"]) simp

text \<open>The tracked clauses, but for their flags.\<close>

definition but_hot :: "decide_queue \<Rightarrow> tracked_clause list" where
  "but_hot q = map (\<lambda>c. c\<lparr>tc_hot := False\<rparr>) (dq_clauses q)"

lemma tracks_hotter:
  assumes "tracks pv rcs djs q t" "hotter q q'"
  shows "tracks pv rcs djs q' t \<and> but_hot q' = but_hot q \<and> dq_hot_only q' = dq_hot_only q"
proof -
  from assms(2) obtain names where "fold_opt (\<lambda>q name. mark_name_hot name q) q names = Some q'" by (auto simp: hotter_def)
  with assms(1) show ?thesis
  proof (induction names arbitrary: q)
    case (Cons name names)
    obtain q1 where q1: "mark_name_hot name q = Some q1" "tracks pv rcs djs q1 t" "dq_hot_only q1 = dq_hot_only q"
      "length (dq_clauses q1) = length (dq_clauses q)"
      "\<And>i. i < length (dq_clauses q) \<Longrightarrow> \<exists>h. dq_clauses q1 ! i = (dq_clauses q ! i)\<lparr>tc_hot := h\<rparr>"
      by (rule tracks_hot [OF Cons.prems(1), of name]) (rule that)
    have "(dq_clauses q1 ! i)\<lparr>tc_hot := False\<rparr> = (dq_clauses q ! i)\<lparr>tc_hot := False\<rparr>" if "i < length (dq_clauses q)" for i
      using q1(5) [OF that] by auto
    then have "but_hot q1 = but_hot q" unfolding but_hot_def by (intro nth_equalityI) (simp_all add: q1(4))
    with Cons.IH [OF q1(2)] Cons.prems(2) q1(1,3) show ?case by simp
  qed simp
qed

section \<open>Runs\<close>

text \<open>
  The ways the solver uses the queue: the tracker takes a step, a clause is registered, a name
  becomes hot, the queue is synchronised and asked for the next decision.
\<close>

inductive queue_run ::
  "provider \<Rightarrow> f32_ops \<Rightarrow> sorted_candidates \<Rightarrow> disjunctions \<Rightarrow> decide_queue \<Rightarrow> decision_tracker \<Rightarrow> bool"
  for pv fl rcs djs where
  start: "queue_run pv fl rcs djs DecideQueue_default DecisionTracker_default"
| track: "queue_run pv fl rcs djs q t \<Longrightarrow> tracker_step t t' \<Longrightarrow> queue_run pv fl rcs djs q t'"
| params: "queue_run pv fl rcs djs q t \<Longrightarrow> queue_run pv fl rcs djs (set_standard_activity_params b q) t"
| register: "queue_run pv fl rcs djs q t \<Longrightarrow> rcs r = Some cs \<Longrightarrow> length cs = length (requirement_version_sets pv r) \<Longrightarrow>
    register_clause parent r d cid (names_of pv r) djs (assigned_value t parent) q = Some q' \<Longrightarrow>
    queue_run pv fl rcs djs q' t"
| hot: "queue_run pv fl rcs djs q t \<Longrightarrow> mark_name_hot name q = Some q' \<Longrightarrow> queue_run pv fl rcs djs q' t"
| decide: "queue_run pv fl rcs djs q t \<Longrightarrow> take_sync_floor t = (floor, t') \<Longrightarrow>
    sync floor (dt_stack t) (dt_map t) q = Some q1 \<Longrightarrow> live rcs djs (assigned_value t) q1 \<Longrightarrow>
    next_decision pv fl (dt_map t) rcs djs act max_activity q1 = Some (r, q2) \<Longrightarrow> queue_run pv fl rcs djs q2 t'"

lemma queue_inv_params:
  "queue_inv pv rcs djs val U (set_standard_activity_params b q) = queue_inv pv rcs djs val U q"
  by (simp add: queue_inv_def queue_wf_def positions_ok_def queues_ok_def occurrences_ok_def hot_ok_def cache_ok_def
      woken_def queued_def cached_satisfied_def cache_right_def set_standard_activity_params_def)

lemma value_assigned: "DecisionMap_value (dt_map t) = assigned_value t"
  by (simp add: assigned_value_def fun_eq_iff)

lemma tracks_decide:
  assumes "tracks pv rcs djs q t" "tracker_inv t" "take_sync_floor t = (floor, t')"
    "sync floor (dt_stack t) (dt_map t) q = Some q1" "live rcs djs (assigned_value t) q1"
    "next_decision pv fl (dt_map t) rcs djs act max_activity q1 = Some (r, q2)"
  shows "tracks pv rcs djs q2 t'"
proof -
  obtain q1' where "sync (fst (take_sync_floor t)) (dt_stack t) (dt_map t) q = Some q1'"
    "queue_inv pv rcs djs (assigned_value t) {} q1'" "dq_mirror q1' = map d_variable (dt_stack t)"
    by (rule tracks_sync [OF assms(1,2)]) (rule that)
  with assms(3,4) have q1: "queue_inv pv rcs djs (assigned_value t) {} q1" "dq_mirror q1 = map d_variable (dt_stack t)"
    by simp_all
  obtain q2' x where "next_decision pv fl (dt_map t) rcs djs act max_activity q1 = Some (x, q2')"
    "queue_inv pv rcs djs (assigned_value t) {} q2'" "dq_mirror q2' = dq_mirror q1"
    by (rule next_decision_spec [of pv rcs djs "dt_map t" q1 fl act max_activity, unfolded value_assigned, OF q1(1) assms(5)])
      (rule that)
  with assms(6) have "queue_inv pv rcs djs (assigned_value t) {} q2" "dq_mirror q2 = map d_variable (dt_stack t)"
    using q1 by simp_all
  moreover have "tracker_inv t'" "assigned_value t' = assigned_value t" "dt_stack t' = dt_stack t"
    "dt_sync_floor t' = length (dt_stack t')"
    using take_sync_floor_inv [OF assms(2)] assms(3) by (auto simp: take_sync_floor_def assigned_value_def fun_eq_iff)
  ultimately show ?thesis by (intro tracks_synced) simp_all
qed

lemma queue_run_tracks:
  "queue_run pv fl rcs djs q t \<Longrightarrow> tracker_inv t \<and> tracks pv rcs djs q t"
proof (induction rule: queue_run.induct)
  case start
  show ?case by (simp add: tracker_inv_default tracks_default)
next
  case (track q t t')
  then show ?case using tracker_step_inv tracker_step_moves tracks_moves by blast
next
  case (params q t b)
  have "dq_mirror (set_standard_activity_params b q) = dq_mirror q" by (simp add: set_standard_activity_params_def)
  then have "tracks pv rcs djs (set_standard_activity_params b q) t = tracks pv rcs djs q t"
    unfolding tracks_def queue_inv_params by (simp only:)
  with params show ?case by simp
next
  case (register q t r cs parent d cid q')
  then show ?case using tracks_register [of pv rcs djs q t parent r d cid q' cs] by blast
next
  case (hot q t name q')
  then show ?case using tracks_hot [of pv rcs djs q t name] by (metis option.inject)
next
  case (decide q t floor t' q1 act max_activity r q2)
  then show ?case using tracks_decide take_sync_floor_inv [of t] by auto
qed

lemma sync_total:
  assumes "queue_run pv fl rcs djs q t"
  shows "\<exists>q'. sync (fst (take_sync_floor t)) (dt_stack t) (dt_map t) q = Some q' \<and> dq_clauses q' = dq_clauses q"
  using queue_run_tracks [OF assms] tracks_sync by metis

section \<open>Properties\<close>

text \<open>Property C14. The incremental bookkeeping has no hole. However clauses were registered, names
  became hot, decisions were made and undone and the queue was used before, synchronising it
  with the trail does not panic, and then: every eligible clause is queued, every queued clause
  is registered under its position, the flag of a clause says whether one of its names is hot,
  the hot queue is exactly the hot part of the queue, and a cached walk is the walk under the
  current assignment. This is what \<open>debug_assert_invariants\<close> checks.\<close>

theorem sync_restores_invariants:
  assumes "queue_run pv fl rcs djs q t"
  shows "\<exists>q'. sync (fst (take_sync_floor t)) (dt_stack t) (dt_map t) q = Some q' \<and> dq_clauses q' = dq_clauses q \<and>
    (\<forall>i < length (dq_clauses q'). eligible rcs djs (assigned_value t) (dq_clauses q' ! i) \<longrightarrow>
       (tc_position (dq_clauses q' ! i), i) \<in> set (dq_queue q')) \<and>
    (\<forall>(pos, i) \<in> set (dq_queue q'). i < length (dq_clauses q') \<and> tc_position (dq_clauses q' ! i) = pos) \<and>
    (\<forall>c \<in> set (dq_clauses q'). tc_hot c \<longleftrightarrow>
       (\<exists>name \<in> set (names_of pv (tc_requirement c)). name \<in> dq_hot_names q')) \<and>
    dq_hot_queue q' = filter (\<lambda>(_, i). tc_hot (dq_clauses q' ! i)) (dq_queue q') \<and>
    (\<forall>r e. dq_requirement_states q' r = Some e \<longrightarrow> (case re_state e of
         Dirty \<Rightarrow> True
       | Satisfied v \<Rightarrow> v \<in> candidates_of rcs r \<and> assigned_value t v = Some True
       | Frontier v vs count \<Rightarrow> walk_list (assigned_value t) (walk pv rcs r) None = Inr (Some (v, vs, count))))"
proof -
  from queue_run_tracks [OF assms] have "tracker_inv t" "tracks pv rcs djs q t" by simp_all
  then obtain q' where q': "sync (fst (take_sync_floor t)) (dt_stack t) (dt_map t) q = Some q'"
    "queue_inv pv rcs djs (assigned_value t) {} q'" "dq_clauses q' = dq_clauses q"
    using tracks_sync by metis
  from q'(2) have wf: "queue_wf pv rcs djs q'" and w: "woken djs (assigned_value t) {} {} q'"
    and c: "cache_right pv rcs (assigned_value t) {} q'" by (simp_all add: queue_inv_def)
  note d = queue_wfD [OF wf]
  have sat: "v \<in> candidates_of rcs r \<and> assigned_value t v = Some True"
    if "dq_requirement_states q' r = Some e" "re_state e = Satisfied v" for r e v
    using c [unfolded cache_right_def, rule_format, OF that(1)] that d(5) unfolding cache_ok_def by auto
  have "queued q' i" if "i < length (dq_clauses q')" "eligible rcs djs (assigned_value t) (dq_clauses q' ! i)" for i
    using w that sat unfolding woken_def eligible_def cached_satisfied_def pending_def by blast
  moreover have "case re_state e of Dirty \<Rightarrow> True
       | Satisfied v \<Rightarrow> v \<in> candidates_of rcs r \<and> assigned_value t v = Some True
       | Frontier v vs count \<Rightarrow> walk_list (assigned_value t) (walk pv rcs r) None = Inr (Some (v, vs, count))"
    if "dq_requirement_states q' r = Some e" for r e
    using c [unfolded cache_right_def, rule_format, OF that] sat [OF that]
    by (auto simp: frontier_def split: requirement_state.splits)
  ultimately show ?thesis
    using q'(1,3) d(2,4) unfolding queues_ok_def hot_ok_def queued_def by (intro exI [of _ q']) blast
qed

text \<open>Property C15. The optimised choice is the exhaustive one. On a synchronised queue \<open>next_decision\<close>
  does not panic if propagation left no active clause without a candidate, and it finds nothing
  exactly if no registered clause is eligible. With the standard activity parameters, if names
  that never became hot have the least activity and no activity exceeds the maximum, it returns
  the decision that a scan over all registered clauses in the order of their positions
  returns, although it visits only the queue, skips cold clauses and stops early.\<close>

theorem next_decision_exhaustive:
  assumes "queue_run pv fl rcs djs q t" "sync (fst (take_sync_floor t)) (dt_stack t) (dt_map t) q = Some q1"
    "live rcs djs (assigned_value t) q1"
    "dq_hot_only q1 \<Longrightarrow> activity_ok fl act max_activity (dq_hot_names q1)"
  shows "\<exists>q2. next_decision pv fl (dt_map t) rcs djs act max_activity q1 =
      Some (exhaustive_decision pv fl rcs djs (assigned_value t) act (dq_clauses q1), q2) \<and>
    (exhaustive_decision pv fl rcs djs (assigned_value t) act (dq_clauses q1) = None \<longleftrightarrow>
      (\<forall>c \<in> set (dq_clauses q1). \<not> eligible rcs djs (assigned_value t) c)) \<and>
    queue_inv pv rcs djs (assigned_value t) {} q2"
proof -
  from queue_run_tracks [OF assms(1)] have "tracker_inv t" "tracks pv rcs djs q t" by simp_all
  then have inv: "queue_inv pv rcs djs (assigned_value t) {} q1" using tracks_sync assms(2) by (metis option.inject)
  let ?all = "contenders pv rcs djs (assigned_value t) act (sort_key tc_position (dq_clauses q1))"
  obtain r q2 where r: "next_decision pv fl (dt_map t) rcs djs act max_activity q1 = Some (map_option decision_of r, q2)"
    "queue_inv pv rcs djs (assigned_value t) {} q2" "r = None \<longleftrightarrow> ?all = []" "r = best_of fl ?all"
    by (rule next_decision_spec [of pv rcs djs "dt_map t" q1 fl act max_activity, unfolded value_assigned, OF inv assms(3)])
      (use assms(4) that in blast)
  have "clause_frontier pv rcs djs (assigned_value t) c = None \<longleftrightarrow> \<not> eligible rcs djs (assigned_value t) c"
    if "c \<in> set (dq_clauses q1)" for c
    using clause_frontier_eligible [OF _ that assms(3)] inv by (auto simp: queue_inv_def)
  then have "?all = [] \<longleftrightarrow> (\<forall>c \<in> set (dq_clauses q1). \<not> eligible rcs djs (assigned_value t) c)"
    by (simp add: contenders_Nil_iff)
  with r show ?thesis by (auto simp: exhaustive_decision_def)
qed

text \<open>A root with one requirement of two candidates, first undecided, then installed.\<close>

definition example_provider :: provider where
  "example_provider = \<lparr>pv_solvable_name = (\<lambda>_. 0), pv_version_set_name = (\<lambda>_. 0),
     pv_version_sets_in_union = (\<lambda>_. []), pv_resolve_condition = (\<lambda>_. Condition_Requirement 0)\<rparr>"

definition example_candidates :: sorted_candidates where
  "example_candidates = [Single 0 \<mapsto> [[1, 2]]]"

text \<open>Activities are compared as their bit patterns, which is right for values that are not negative.\<close>

definition pattern_f32 :: f32_ops where
  "pattern_f32 = \<lparr>f32_zero = 0, f32_add = max, f32_mul = (\<lambda>a _. a), f32_gt = (\<lambda>a b. b < a), f32_ge = (\<lambda>a b. b \<le> a),
     f32_eq = (=)\<rparr>"

definition example_clause :: tracked_clause where
  "example_clause = \<lparr>tc_position = 0, tc_parent = 0, tc_requirement = Single 0, tc_condition = None,
     tc_clause_id = 1, tc_hot = False\<rparr>"

lemma example_register:
  obtains q where "register_clause 0 (Single 0) None 1 (names_of example_provider (Single 0)) [] None DecideQueue_default = Some q"
    "dq_clauses q = [example_clause]" "dq_hot_only q" "dq_hot_names q = {}"
  by (simp add: register_clause_def DecideQueue_default_def ClausePosition_new_eq slice_get_def Let_def
      names_of_def register_name_def example_clause_def)

definition example_installed :: decision_tracker where
  "example_installed = push_decision DecisionTracker_default \<lparr>d_variable = 0, d_value = True, d_derived_from = 0\<rparr> 1"

lemma example_run:
  obtains q where "queue_run example_provider pattern_f32 example_candidates [] q example_installed"
    "dq_clauses q = [example_clause]" "dq_hot_only q" "dq_hot_names q = {}"
proof -
  obtain q where q: "register_clause 0 (Single 0) None 1 (names_of example_provider (Single 0)) [] None DecideQueue_default = Some q"
    "dq_clauses q = [example_clause]" "dq_hot_only q" "dq_hot_names q = {}" by (rule example_register)
  have none: "assigned_value DecisionTracker_default 0 = None" by (simp add: assigned_value_def DecisionTracker_default_def)
  have "queue_run example_provider pattern_f32 example_candidates [] q DecisionTracker_default"
    by (rule queue_run.register [OF queue_run.start, where r = "Single 0" and cs = "[[1, 2]]" and parent = 0 and
          d = None and cid = 1])
      (use q(1) none in \<open>simp_all add: example_candidates_def\<close>)
  moreover have "tracker_step DecisionTracker_default example_installed"
    using none
    by (intro tracker_step.add [of 1 _ "\<lparr>d_variable = 0, d_value = True, d_derived_from = 0\<rparr>" True])
      (auto simp: try_add_decision_eq example_installed_def valid_level_def level_above_def DecisionTracker_default_def)
  ultimately show thesis using q that queue_run.track by blast
qed

theorem sync_restores_invariants_witness:
  "\<exists>q q'. sync (fst (take_sync_floor example_installed)) (dt_stack example_installed) (dt_map example_installed) q = Some q' \<and>
    dq_clauses q' = [example_clause]"
proof -
  obtain q where q: "queue_run example_provider pattern_f32 example_candidates [] q example_installed"
    "dq_clauses q = [example_clause]" by (rule example_run)
  from sync_restores_invariants [OF q(1)] q(2) show ?thesis by auto
qed

theorem next_decision_exhaustive_witness:
  "\<exists>q1 q2. next_decision example_provider pattern_f32 (dt_map example_installed) example_candidates [] (\<lambda>_. 0) 0 q1 =
    Some (Some \<lparr>qd_candidate = 1, qd_required_by = 0, qd_clause_id = 1, qd_package_activity = 0, qd_candidate_count = 2\<rparr>, q2)"
proof -
  obtain q where q: "queue_run example_provider pattern_f32 example_candidates [] q example_installed"
    "dq_clauses q = [example_clause]" "dq_hot_only q" "dq_hot_names q = {}" by (rule example_run)
  from sync_total [OF q(1)] obtain q1 where q1:
    "sync (fst (take_sync_floor example_installed)) (dt_stack example_installed) (dt_map example_installed) q = Some q1"
    "dq_clauses q1 = [example_clause]" using q(2) by auto
  have val: "assigned_value example_installed v = (if v = 0 then Some True else None)" for v
    unfolding example_installed_def
    by (subst assigned_value_push) (auto simp: valid_level_def DecisionTracker_default_def assigned_value_def)
  have "live example_candidates [] (assigned_value example_installed) q1"
    by (simp add: live_def q1 val example_clause_def candidates_of_def example_candidates_def)
  moreover have "activity_ok pattern_f32 (\<lambda>_. 0) 0 X" for X by (simp add: activity_ok_def pattern_f32_def)
  ultimately obtain q2 where "next_decision example_provider pattern_f32 (dt_map example_installed) example_candidates [] (\<lambda>_. 0) 0 q1 =
      Some (exhaustive_decision example_provider pattern_f32 example_candidates [] (assigned_value example_installed) (\<lambda>_. 0) [example_clause], q2)"
    using next_decision_exhaustive [OF q(1) q1(1)] q1(2) by metis
  moreover have "exhaustive_decision example_provider pattern_f32 example_candidates [] (assigned_value example_installed) (\<lambda>_. 0) [example_clause] =
    Some \<lparr>qd_candidate = 1, qd_required_by = 0, qd_clause_id = 1, qd_package_activity = 0, qd_candidate_count = 2\<rparr>"
    by (simp add: exhaustive_decision_def best_of_def clause_frontier_def active_def condition_holds_def val
        example_clause_def disjunction_literals_def walk_def example_candidates_def contender_def decision_of_def)
  ultimately show ?thesis by auto
qed

end
