(* ===== verification/Arena_Model.thy ===== *)
theory Arena_Model
  imports Prelude
begin

text \<open>
  The append-only arena of \<open>src/internal/arena.rs\<close>: values live in chunks of 128, an
  identifier is the allocation index. The locale \<open>append_store\<close> states what its clients
  (the pool, the clause database, the condition tables) rely on; \<open>Arena\<close> provides it.
\<close>

section \<open>The interface\<close>

locale append_store =
  fixes inv :: "'s \<Rightarrow> bool"
    and fresh :: 's
    and alloc :: "'s \<Rightarrow> 'v \<Rightarrow> nat \<times> 's"
    and get :: "'s \<Rightarrow> nat \<Rightarrow> 'v option"
    and size :: "'s \<Rightarrow> nat"
  assumes inv_fresh: "inv fresh"
    and size_fresh: "size fresh = 0"
    and inv_alloc: "inv s \<Longrightarrow> inv (snd (alloc s v))"
    and alloc_id: "inv s \<Longrightarrow> fst (alloc s v) = size s"
    and size_alloc: "inv s \<Longrightarrow> size (snd (alloc s v)) = Suc (size s)"
    and get_alloc: "inv s \<Longrightarrow> get (snd (alloc s v)) i = (if i = size s then Some v else get s i)"
    and get_bound: "inv s \<Longrightarrow> get s i = None \<longleftrightarrow> size s \<le> i"
begin

lemma get_stable: "inv s \<Longrightarrow> get s i = Some x \<Longrightarrow> get (snd (alloc s v)) i = Some x"
  by (metis get_alloc get_bound option.distinct(1) order_refl)

lemma get_new: "inv s \<Longrightarrow> get (snd (alloc s v)) (fst (alloc s v)) = Some v"
  by (simp add: get_alloc alloc_id)

lemma alloc_fresh: "inv s \<Longrightarrow> get s (fst (alloc s v)) = None"
  by (simp add: alloc_id get_bound)

lemma get_stable_all:
  "inv s \<Longrightarrow> get s i = Some x \<Longrightarrow> get (foldl (\<lambda>s v. snd (alloc s v)) s vs) i = Some x"
  by (induction vs arbitrary: s) (auto simp: inv_alloc get_stable)

end

section \<open>The chunked arena\<close>

definition CHUNK_SIZE :: nat where
  "CHUNK_SIZE = 128"

record 'v arena =
  ar_chunks :: "'v list list"
  ar_len :: nat

text \<open>\<open>n.div_ceil(CHUNK_SIZE)\<close> empty chunks.\<close>

definition Arena_with_capacity :: "nat \<Rightarrow> 'v arena" where
  "Arena_with_capacity n =
     (let n' = max 1 n;
          n_chunks = (n' + CHUNK_SIZE - 1) div CHUNK_SIZE
      in \<lparr>ar_chunks = vec_resize n_chunks [] [], ar_len = 0\<rparr>)"

definition Arena_new :: "'v arena" where
  "Arena_new = Arena_with_capacity 1"

definition Arena_clear :: "'v arena \<Rightarrow> 'v arena" where
  "Arena_clear a = \<lparr>ar_chunks = map (\<lambda>_. []) (ar_chunks a), ar_len = 0\<rparr>"

definition Arena_length :: "'v arena \<Rightarrow> nat" where
  "Arena_length a = ar_len a"

definition Arena_chunk_and_offset :: "nat \<Rightarrow> nat \<times> nat" where
  "Arena_chunk_and_offset i = (i div CHUNK_SIZE, i mod CHUNK_SIZE)"

definition Arena_alloc :: "'v arena \<Rightarrow> 'v \<Rightarrow> nat \<times> 'v arena" where
  "Arena_alloc a v =
     (let i = ar_len a;
          (c, _) = Arena_chunk_and_offset i;
          chunks = (if c \<ge> length (ar_chunks a)
                    then vec_resize (length (ar_chunks a) + 1) [] (ar_chunks a)
                    else ar_chunks a)
      in (i, \<lparr>ar_chunks = chunks[c := chunks ! c @ [v]], ar_len = i + 1\<rparr>))"

text \<open>\<open>arena[id]\<close>: the assertion \<open>index < len\<close> panics; the accesses behind it are unchecked.\<close>

definition Arena_index :: "'v arena \<Rightarrow> nat \<Rightarrow> 'v option" where
  "Arena_index a i =
     (if i < ar_len a
      then case Arena_chunk_and_offset i of (c, k) \<Rightarrow> Some (ar_chunks a ! c ! k)
      else None)"

text \<open>\<open>&mut arena[id]\<close>, as the write made through the reference.\<close>

definition Arena_index_mut :: "'v arena \<Rightarrow> nat \<Rightarrow> ('v \<Rightarrow> 'v) \<Rightarrow> 'v arena option" where
  "Arena_index_mut a i f =
     (if i < ar_len a
      then case Arena_chunk_and_offset i of (c, k) \<Rightarrow>
        Some (a\<lparr>ar_chunks := (ar_chunks a)[c := (ar_chunks a ! c)[k := f (ar_chunks a ! c ! k)]]\<rparr>)
      else None)"

text \<open>\<open>ArenaIter::next\<close> and everything it yields; \<open>iter_mut\<close> rewrites the elements in turn.\<close>

definition ArenaIter_next :: "'v arena \<Rightarrow> nat \<Rightarrow> (nat \<times> 'v) option \<times> nat" where
  "ArenaIter_next a i =
     (if i < ar_len a
      then case Arena_chunk_and_offset i of (c, k) \<Rightarrow> (Some (i, ar_chunks a ! c ! k), i + 1)
      else (None, i))"

function Arena_iter_from :: "'v arena \<Rightarrow> nat \<Rightarrow> (nat \<times> 'v) list" where
  "Arena_iter_from a i = (case ArenaIter_next a i of
     (None, _) \<Rightarrow> [] | (Some x, j) \<Rightarrow> x # Arena_iter_from a j)"
  by pat_completeness auto
termination
  by (relation "measure (\<lambda>(a, i). ar_len a - i)")
    (auto simp: ArenaIter_next_def Arena_chunk_and_offset_def split: if_splits)

declare Arena_iter_from.simps [simp del]

definition Arena_iter :: "'v arena \<Rightarrow> (nat \<times> 'v) list" where
  "Arena_iter a = Arena_iter_from a 0"

section \<open>The flat view\<close>

text \<open>The chunk sizes that hold \<open>n\<close> values: full chunks, a partial one, empty ones.\<close>

fun chunked :: "'v list list \<Rightarrow> nat \<Rightarrow> bool" where
  "chunked [] n \<longleftrightarrow> n = 0"
| "chunked (c # cs) n \<longleftrightarrow> length c = min CHUNK_SIZE n \<and> chunked cs (n - CHUNK_SIZE)"

definition arena_inv :: "'v arena \<Rightarrow> bool" where
  "arena_inv a \<longleftrightarrow> chunked (ar_chunks a) (ar_len a)"

definition arena_list :: "'v arena \<Rightarrow> 'v list" where
  "arena_list a = concat (ar_chunks a)"

lemma chunk_size_pos [simp]: "0 < CHUNK_SIZE"
  by (simp add: CHUNK_SIZE_def)

lemma chunked_length: "chunked cs n \<Longrightarrow> length (concat cs) = n"
  by (induction cs n rule: chunked.induct) auto

lemma chunked_bound: "chunked cs n \<Longrightarrow> n \<le> length cs * CHUNK_SIZE"
  by (induction cs n rule: chunked.induct) auto

lemma chunked_empty: "chunked cs 0 \<longleftrightarrow> (\<forall>c \<in> set cs. c = [])"
  by (induction cs) auto

lemma chunked_nth:
  "chunked cs n \<Longrightarrow> i < n \<Longrightarrow> concat cs ! i = cs ! (i div CHUNK_SIZE) ! (i mod CHUNK_SIZE)"
proof (induction cs n arbitrary: i rule: chunked.induct)
  case (2 c cs n)
  show ?case
  proof (cases "i < CHUNK_SIZE")
    case False
    then have "i div CHUNK_SIZE = Suc ((i - CHUNK_SIZE) div CHUNK_SIZE)"
      "i mod CHUNK_SIZE = (i - CHUNK_SIZE) mod CHUNK_SIZE"
      by (simp_all add: le_div_geq le_mod_geq not_less)
    with False 2 show ?thesis by (auto simp: nth_append)
  qed (use 2 in \<open>simp add: nth_append\<close>)
qed simp

lemma chunked_push:
  "chunked cs n \<Longrightarrow> n div CHUNK_SIZE < length cs \<Longrightarrow>
    chunked (cs[n div CHUNK_SIZE := cs ! (n div CHUNK_SIZE) @ [v]]) (Suc n) \<and>
    concat (cs[n div CHUNK_SIZE := cs ! (n div CHUNK_SIZE) @ [v]]) = concat cs @ [v]"
proof (induction cs n rule: chunked.induct)
  case (2 c cs n)
  show ?case
  proof (cases "n < CHUNK_SIZE")
    case True
    with 2 have e: "\<forall>x \<in> set cs. x = []" by (simp add: chunked_empty)
    then have "concat cs = []" by simp
    with e True 2 show ?thesis by (simp add: chunked_empty del: concat_eq_Nil_conv)
  next
    case False
    then have "n div CHUNK_SIZE = Suc ((n - CHUNK_SIZE) div CHUNK_SIZE)"
      by (simp add: le_div_geq not_less)
    with False 2 show ?thesis by (auto simp: Suc_diff_le)
  qed
qed simp

lemma chunked_update:
  "chunked cs n \<Longrightarrow> i < n \<Longrightarrow>
    chunked (cs[i div CHUNK_SIZE := (cs ! (i div CHUNK_SIZE))[i mod CHUNK_SIZE := x]]) n \<and>
    concat (cs[i div CHUNK_SIZE := (cs ! (i div CHUNK_SIZE))[i mod CHUNK_SIZE := x]]) =
      (concat cs)[i := x]"
proof (induction cs n arbitrary: i rule: chunked.induct)
  case (2 c cs n)
  show ?case
  proof (cases "i < CHUNK_SIZE")
    case True
    with 2 show ?thesis by (auto simp: list_update_append)
  next
    case False
    then have "i div CHUNK_SIZE = Suc ((i - CHUNK_SIZE) div CHUNK_SIZE)"
      "i mod CHUNK_SIZE = (i - CHUNK_SIZE) mod CHUNK_SIZE"
      by (simp_all add: le_div_geq le_mod_geq not_less)
    with False 2 show ?thesis by (auto simp: list_update_append)
  qed
qed simp

lemma chunked_snoc_empty: "chunked cs n \<Longrightarrow> chunked (cs @ [[]]) n"
  by (induction cs n rule: chunked.induct) auto

section \<open>What the operations do\<close>

lemma arena_list_length: "arena_inv a \<Longrightarrow> length (arena_list a) = ar_len a"
  by (simp add: arena_inv_def arena_list_def chunked_length)

lemma Arena_index_eq: "arena_inv a \<Longrightarrow> Arena_index a i = slice_get (arena_list a) i"
  using arena_list_length [of a]
  by (simp add: Arena_index_def Arena_chunk_and_offset_def slice_get_def)
    (simp add: chunked_nth arena_inv_def arena_list_def)

lemma Arena_alloc_effect:
  assumes "arena_inv a"
  shows "fst (Arena_alloc a v) = ar_len a" "arena_inv (snd (Arena_alloc a v))"
    "arena_list (snd (Arena_alloc a v)) = arena_list a @ [v]"
    "ar_len (snd (Arena_alloc a v)) = Suc (ar_len a)"
proof -
  let ?c = "ar_len a div CHUNK_SIZE"
  define cs where "cs = (if ?c \<ge> length (ar_chunks a)
      then vec_resize (length (ar_chunks a) + 1) [] (ar_chunks a) else ar_chunks a)"
  have "?c \<le> length (ar_chunks a)"
    using assms chunked_bound [of "ar_chunks a" "ar_len a"]
    by (simp add: arena_inv_def div_le_mono [of "ar_len a", THEN order_trans])
  then have "chunked cs (ar_len a)" "?c < length cs" "concat cs = arena_list a"
    using assms by (auto simp: cs_def vec_resize_grow arena_inv_def chunked_snoc_empty arena_list_def)
  moreover have "Arena_alloc a v = (ar_len a, \<lparr>ar_chunks = cs[?c := cs ! ?c @ [v]], ar_len = ar_len a + 1\<rparr>)"
    by (simp add: Arena_alloc_def Arena_chunk_and_offset_def Let_def cs_def)
  ultimately show "fst (Arena_alloc a v) = ar_len a" "arena_inv (snd (Arena_alloc a v))"
    "arena_list (snd (Arena_alloc a v)) = arena_list a @ [v]"
    "ar_len (snd (Arena_alloc a v)) = Suc (ar_len a)"
    using chunked_push [of cs "ar_len a" v] by (simp_all add: arena_inv_def arena_list_def)
qed

lemma Arena_with_capacity_facts [simp]:
  "arena_inv (Arena_with_capacity n)" "arena_list (Arena_with_capacity n) = []"
  "ar_len (Arena_with_capacity n) = 0"
  by (auto simp: arena_inv_def arena_list_def Arena_with_capacity_def Let_def vec_resize_def
      chunked_empty)

lemma Arena_clear_facts: "arena_inv (Arena_clear a)" "arena_list (Arena_clear a) = []"
  by (auto simp: Arena_clear_def arena_inv_def arena_list_def chunked_empty)

lemma Arena_index_mut_effect:
  assumes "arena_inv a"
  shows "Arena_index_mut a i f = None \<longleftrightarrow> length (arena_list a) \<le> i"
    "Arena_index_mut a i f = Some a' \<Longrightarrow>
      arena_inv a' \<and> arena_list a' = (arena_list a)[i := f (arena_list a ! i)]"
  using assms chunked_update [of "ar_chunks a" "ar_len a" i]
  by (auto simp: Arena_index_mut_def Arena_chunk_and_offset_def arena_list_length arena_inv_def
      arena_list_def chunked_nth chunked_length split: if_splits)

lemma Arena_iter_from_eq:
  "arena_inv a \<Longrightarrow> Arena_iter_from a i = enumerate i (drop i (arena_list a))"
proof (induction a i rule: Arena_iter_from.induct)
  case (1 a i)
  show ?case
  proof (cases "i < ar_len a")
    case True
    then have n: "ArenaIter_next a i = (Some (i, arena_list a ! i), i + 1)"
      using 1(2) by (simp add: ArenaIter_next_def Arena_chunk_and_offset_def arena_inv_def
          arena_list_def chunked_nth)
    from 1(1) [OF n [symmetric] refl 1(2)] show ?thesis
      using True 1(2) n
      by (subst Arena_iter_from.simps) (simp add: Cons_nth_drop_Suc [symmetric] arena_list_length)
  next
    case False
    with 1(2) show ?thesis
      by (subst Arena_iter_from.simps) (simp add: ArenaIter_next_def arena_list_length)
  qed
qed

interpretation chunk_arena: append_store arena_inv Arena_new Arena_alloc Arena_index Arena_length
  by unfold_locales
    (simp_all add: Arena_new_def Arena_length_def Arena_alloc_effect Arena_index_eq slice_get_snoc
      arena_list_length)

section \<open>Properties\<close>

datatype 'v arena_op = AAlloc 'v | AIndex nat | AIndexMut nat "'v \<Rightarrow> 'v" | AIter | AClear

datatype 'v arena_result = AId nat | AValue "'v option" | AWrite bool | AItems "(nat \<times> 'v) list" | ADone

fun arena_exec :: "'v arena_op \<Rightarrow> 'v arena \<Rightarrow> 'v arena_result \<times> 'v arena" where
  "arena_exec (AAlloc v) a = (case Arena_alloc a v of (i, a') \<Rightarrow> (AId i, a'))"
| "arena_exec (AIndex i) a = (AValue (Arena_index a i), a)"
| "arena_exec (AIndexMut i f) a =
     (case Arena_index_mut a i f of None \<Rightarrow> (AWrite False, a) | Some a' \<Rightarrow> (AWrite True, a'))"
| "arena_exec AIter a = (AItems (Arena_iter a), a)"
| "arena_exec AClear a = (ADone, Arena_clear a)"

text \<open>The specification: a list, identifiers being positions.\<close>

fun list_exec :: "'v arena_op \<Rightarrow> 'v list \<Rightarrow> 'v arena_result \<times> 'v list" where
  "list_exec (AAlloc v) xs = (AId (length xs), xs @ [v])"
| "list_exec (AIndex i) xs = (AValue (slice_get xs i), xs)"
| "list_exec (AIndexMut i f) xs = (AWrite (i < length xs), xs[i := f (xs ! i)])"
| "list_exec AIter xs = (AItems (enumerate 0 xs), xs)"
| "list_exec AClear xs = (ADone, [])"

lemma arena_exec_refines:
  assumes "arena_inv a"
  shows "fst (arena_exec op a) = fst (list_exec op (arena_list a)) \<and>
    arena_list (snd (arena_exec op a)) = snd (list_exec op (arena_list a)) \<and>
    arena_inv (snd (arena_exec op a))"
proof (cases op)
  case (AIndexMut i f)
  then show ?thesis
    using assms Arena_index_mut_effect [OF assms, of i f]
    by (cases "Arena_index_mut a i f") (auto simp: list_update_beyond)
qed (use assms in \<open>auto simp: split_beta Arena_alloc_effect arena_list_length Arena_index_eq
      Arena_iter_def Arena_iter_from_eq Arena_clear_facts\<close>)

text \<open>Property C25. The chunked arena refines a list: for every sequence of allocations,
  lookups, writes through \<open>index_mut\<close>, iterations and clears on a new arena, each call
  returns what it returns on a list that grows at its end. An identifier is the position of
  its value, a lookup panics exactly on an identifier that was never handed out, and the
  unchecked chunk accesses stay in bounds.\<close>

theorem arena_refines_list:
  "fst (run_ops arena_exec ops Arena_new) = fst (run_ops list_exec ops []) \<and>
   arena_list (snd (run_ops arena_exec ops Arena_new)) = snd (run_ops list_exec ops [])"
  using run_ops_refines [of arena_inv arena_exec list_exec arena_list, OF arena_exec_refines,
      of Arena_new ops]
  by (simp add: Arena_new_def)

end
