(* ===== verification/Id_Maps.thy ===== *)
theory Id_Maps
  imports Id_Storage "HOL-Library.Multiset"
begin

text \<open>
  The dense and the hash-backed \<open>IdMap\<close> of \<open>src/solver_id.rs\<close> side by side: the same answers, and
  the same visits up to default values. What \<open>for_each\<close> of a hash map visits is a multiset, as
  its order is unspecified.
\<close>

section \<open>The two maps\<close>

definition IdMap_HashMap_for_each :: "('k \<rightharpoonup> 'v) \<Rightarrow> 'v multiset" where
  "IdMap_HashMap_for_each m = image_mset (\<lambda>k. the (m k)) (mset_set (dom m))"

datatype 'v id_map_op = IGet nat | ISet nat 'v | IForEach "'v \<Rightarrow> 'v"

fun dense_exec :: "'v \<Rightarrow> 'v id_map_op \<Rightarrow> 'v list \<Rightarrow> 'v option \<times> 'v list" where
  "dense_exec d (IGet k) m = (Some (IdMap_Vec_get d m k), m)"
| "dense_exec d (ISet k v) m = (None, IdMap_Vec_set d m k v)"
| "dense_exec d (IForEach f) m = (None, IdMap_Vec_for_each_mut m f)"

fun sparse_exec :: "'v \<Rightarrow> 'v id_map_op \<Rightarrow> (nat \<rightharpoonup> 'v) \<Rightarrow> 'v option \<times> (nat \<rightharpoonup> 'v)" where
  "sparse_exec d (IGet k) m = (Some (IdMap_HashMap_get d m k), m)"
| "sparse_exec d (ISet k v) m = (None, IdMap_HashMap_set m k v)"
| "sparse_exec d (IForEach f) m = (None, IdMap_HashMap_for_each_mut m f)"

fun keeps_default :: "'v \<Rightarrow> 'v id_map_op \<Rightarrow> bool" where
  "keeps_default d (IForEach f) \<longleftrightarrow> f d = d"
| "keeps_default d _ \<longleftrightarrow> True"

lemma id_map_exec_simulation:
  assumes "keeps_default d op" "\<And>k. IdMap_Vec_get d m k = IdMap_HashMap_get d h k"
  shows "fst (dense_exec d op m) = fst (sparse_exec d op h)"
    "IdMap_Vec_get d (snd (dense_exec d op m)) k = IdMap_HashMap_get d (snd (sparse_exec d op h)) k"
  using assms
  by (cases op; simp add: vec_id_map.get_put hash_id_map.get_put vec_id_map.get_for_each_mut
      hash_id_map.get_for_each_mut)+

lemma sparse_exec_finite: "finite (dom h) \<Longrightarrow> finite (dom (snd (sparse_exec d op h)))"
proof -
  have "dom (\<lambda>k. map_option f (h k)) = dom h" for f :: "'a \<Rightarrow> 'a" by (auto simp: dom_def)
  then show "finite (dom h) \<Longrightarrow> finite (dom (snd (sparse_exec d op h)))"
    by (cases op) (simp_all add: IdMap_HashMap_set_def IdMap_HashMap_for_each_mut_def)
qed

lemma id_map_run_simulation:
  "\<forall>op \<in> set ops. keeps_default d op \<Longrightarrow> (\<And>k. IdMap_Vec_get d m k = IdMap_HashMap_get d h k) \<Longrightarrow> finite (dom h) \<Longrightarrow>
   fst (run_ops (dense_exec d) ops m) = fst (run_ops (sparse_exec d) ops h) \<and>
   (\<forall>k. IdMap_Vec_get d (snd (run_ops (dense_exec d) ops m)) k = IdMap_HashMap_get d (snd (run_ops (sparse_exec d) ops h)) k) \<and>
   finite (dom (snd (run_ops (sparse_exec d) ops h)))"
proof (induction ops arbitrary: m h)
  case (Cons op ops)
  have "keeps_default d op" using Cons.prems(1) by simp
  note step = id_map_exec_simulation [OF this Cons.prems(2)]
  from Cons.IH [OF _ step(2) sparse_exec_finite [OF Cons.prems(3)]] Cons.prems(1) step(1)
  show ?case by (simp add: split_beta)
qed simp

text \<open>Either map visits, of the values other than the default, those of the keys that have one.\<close>

lemma vec_visits: "filter_mset (\<lambda>v. v \<noteq> d) (mset (IdMap_Vec_for_each xs)) =
    image_mset (IdMap_Vec_get d xs) (mset_set {k. IdMap_Vec_get d xs k \<noteq> d})"
proof -
  have "mset xs = image_mset (IdMap_Vec_get d xs) (mset_set {..<length xs})"
  proof -
    have "mset xs = image_mset ((!) xs) (mset [0..<length xs])" by (metis map_nth mset_map)
    also have "mset [0..<length xs] = mset_set {..<length xs}" by (simp add: atLeast0LessThan)
    finally show ?thesis by (auto simp: IdMap_Vec_get_def slice_get_def intro: image_mset_cong)
  qed
  then have "filter_mset (\<lambda>v. v \<noteq> d) (mset xs) =
      image_mset (IdMap_Vec_get d xs) (filter_mset (\<lambda>k. IdMap_Vec_get d xs k \<noteq> d) (mset_set {..<length xs}))"
    by (simp add: filter_mset_image_mset)
  moreover have "{k \<in> {..<length xs}. IdMap_Vec_get d xs k \<noteq> d} = {k. IdMap_Vec_get d xs k \<noteq> d}"
    by (auto simp: IdMap_Vec_get_def slice_get_def split: if_splits)
  ultimately show ?thesis by (simp add: IdMap_Vec_for_each_def filter_mset_mset_set)
qed

lemma hash_map_visits:
  assumes "finite (dom h)"
  shows "filter_mset (\<lambda>v. v \<noteq> d) (IdMap_HashMap_for_each h) =
    image_mset (IdMap_HashMap_get d h) (mset_set {k. IdMap_HashMap_get d h k \<noteq> d})"
proof -
  have "IdMap_HashMap_for_each h = image_mset (IdMap_HashMap_get d h) (mset_set (dom h))"
    using assms by (auto simp: IdMap_HashMap_for_each_def IdMap_HashMap_get_def intro!: image_mset_cong)
  moreover have "{k \<in> dom h. IdMap_HashMap_get d h k \<noteq> d} = {k. IdMap_HashMap_get d h k \<noteq> d}"
    by (auto simp: IdMap_HashMap_get_def split: option.splits)
  ultimately show ?thesis using assms by (simp add: filter_mset_image_mset filter_mset_mset_set)
qed

text \<open>Property C29. The storage an identifier type selects can be told apart only by visiting default
  values. On every sequence of gets, sets and those \<open>for_each_mut\<close> updates that map the
  default value to itself (such as scaling activity scores), the dense vector-backed map and the
  hash-backed map return the same values, for identifiers that were written and for
  identifiers that never were; \<open>for_each\<close> on the two maps afterwards visits the same values, each
  as often, except for the default value: the dense map also visits slots never written.\<close>

theorem dense_sparse_id_map_equiv:
  assumes "\<forall>op \<in> set ops. keeps_default d op"
  shows "fst (run_ops (dense_exec d) ops []) = fst (run_ops (sparse_exec d) ops Map.empty) \<and>
    filter_mset (\<lambda>v. v \<noteq> d) (mset (IdMap_Vec_for_each (snd (run_ops (dense_exec d) ops [])))) =
    filter_mset (\<lambda>v. v \<noteq> d) (IdMap_HashMap_for_each (snd (run_ops (sparse_exec d) ops Map.empty)))"
proof -
  have start: "IdMap_Vec_get d [] k = IdMap_HashMap_get d Map.empty k" for k
    by (simp add: vec_id_map.get_init hash_id_map.get_init)
  note run = id_map_run_simulation [OF assms start, simplified]
  have "IdMap_Vec_get d (snd (run_ops (dense_exec d) ops [])) = IdMap_HashMap_get d (snd (run_ops (sparse_exec d) ops Map.empty))"
    using run by (simp add: fun_eq_iff)
  with run show ?thesis by (simp add: vec_visits hash_map_visits)
qed

theorem dense_sparse_id_map_equiv_witness:
  "fst (run_ops (dense_exec 0) [ISet 2 (4 :: nat), IForEach (\<lambda>x. x * 2), IGet 2, IGet 7] []) =
     fst (run_ops (sparse_exec 0) [ISet 2 4, IForEach (\<lambda>x. x * 2), IGet 2, IGet 7] Map.empty)"
  using dense_sparse_id_map_equiv [of "[ISet 2 (4 :: nat), IForEach (\<lambda>x. x * 2), IGet 2, IGet 7]" 0] by simp

end
