(* ===== verification/Pool_Model.thy ===== *)
theory Pool_Model
  imports Arena_Model Id_Storage Conditions Ids
begin

text \<open>
  The interning pool, \<open>src/utils/pool.rs\<close>, and the small vector its unions are stored in,
  \<open>src/internal/small_vec.rs\<close>. Strings, package names, version sets and conditions are
  deduplicated by a hash map beside their arena; solvables and unions are not. An identifier is
  the index it stands for, as its 32-bit word gives it back: handing one out goes through the
  \<open>from_index\<close> of its kind (theory \<open>Ids\<close>), which panics (\<open>None\<close>) for names, solvables and
  conditions when the table is full, and wraps around for strings, version sets and unions. The
  contract \<open>bounded_interner\<close> of a deduplicating table is interpreted on all four.
\<close>

section \<open>Small vectors\<close>

datatype 'a small_vec = SV_Empty | SV_One 'a | SV_Two 'a 'a | SV_Flexible "'a list"

fun SmallVec_as_slice :: "'a small_vec \<Rightarrow> 'a list" where
  "SmallVec_as_slice SV_Empty = []"
| "SmallVec_as_slice (SV_One a) = [a]"
| "SmallVec_as_slice (SV_Two a b) = [a, b]"
| "SmallVec_as_slice (SV_Flexible v) = v"

fun SmallVec_push :: "'a small_vec \<Rightarrow> 'a \<Rightarrow> 'a small_vec" where
  "SmallVec_push SV_Empty x = SV_One x"
| "SmallVec_push (SV_One a) x = SV_Two a x"
| "SmallVec_push (SV_Two a b) x = SV_Flexible [a, b, x]"
| "SmallVec_push (SV_Flexible v) x = SV_Flexible (v @ [x])"

text \<open>\<open>Vec::pop\<close>.\<close>

definition vec_pop :: "'a list \<Rightarrow> 'a option \<times> 'a list" where
  "vec_pop v = (if v = [] then (None, []) else (Some (last v), butlast v))"

fun SmallVec_pop :: "'a small_vec \<Rightarrow> 'a option \<times> 'a small_vec" where
  "SmallVec_pop SV_Empty = (None, SV_Empty)"
| "SmallVec_pop (SV_One a) = (Some a, SV_Empty)"
| "SmallVec_pop (SV_Two a b) = (Some b, SV_One a)"
| "SmallVec_pop (SV_Flexible v) = (case vec_pop v of (out, v') \<Rightarrow> (out, SV_Flexible v'))"

fun SmallVec_clear :: "'a small_vec \<Rightarrow> 'a small_vec" where
  "SmallVec_clear (SV_Flexible v) = SV_Flexible []"
| "SmallVec_clear _ = SV_Empty"

definition SmallVec_eq :: "'a small_vec \<Rightarrow> 'a small_vec \<Rightarrow> bool" where
  "SmallVec_eq a b \<longleftrightarrow> SmallVec_as_slice a = SmallVec_as_slice b"

definition SmallVec_serialize :: "'a small_vec \<Rightarrow> 'a list" where
  "SmallVec_serialize v = SmallVec_as_slice v"

definition SmallVec_deserialize :: "'a list \<Rightarrow> 'a small_vec" where
  "SmallVec_deserialize items = foldl SmallVec_push SV_Empty items"

lemma SmallVec_push_slice [simp]: "SmallVec_as_slice (SmallVec_push v x) = SmallVec_as_slice v @ [x]"
  by (cases v) simp_all

lemma SmallVec_pushes_slice [simp]:
  "SmallVec_as_slice (foldl SmallVec_push v xs) = SmallVec_as_slice v @ xs"
  by (induction xs arbitrary: v) simp_all

lemma SmallVec_pop_slice:
  "fst (SmallVec_pop v) = fst (vec_pop (SmallVec_as_slice v))"
  "SmallVec_as_slice (snd (SmallVec_pop v)) = snd (vec_pop (SmallVec_as_slice v))"
  by (cases v; simp add: vec_pop_def)+

lemma SmallVec_clear_slice [simp]: "SmallVec_as_slice (SmallVec_clear v) = []"
  by (cases v) simp_all

section \<open>The pool\<close>

record 'v solvable =
  sv_name :: name_id
  sv_record :: 'v

record ('n, 'vs, 'v) pool =
  pl_solvables :: "'v solvable arena"
  pl_package_names :: "'n arena"
  pl_names_to_ids :: "'n \<rightharpoonup> name_id"
  pl_strings :: "string arena"
  pl_string_to_ids :: "string \<rightharpoonup> string_id"
  pl_version_sets :: "(name_id \<times> 'vs) arena"
  pl_version_set_to_id :: "(name_id \<times> 'vs) \<rightharpoonup> version_set_id"
  pl_version_set_unions :: "version_set_id small_vec arena"
  pl_conditions :: "condition arena"
  pl_condition_to_id :: "condition \<rightharpoonup> condition_id"

definition Pool_default :: "('n, 'vs, 'v) pool" where
  "Pool_default = \<lparr>pl_solvables = Arena_new, pl_package_names = Arena_new, pl_names_to_ids = Map.empty,
     pl_strings = Arena_new, pl_string_to_ids = Map.empty, pl_version_sets = Arena_new,
     pl_version_set_to_id = Map.empty, pl_version_set_unions = Arena_new, pl_conditions = Arena_new,
     pl_condition_to_id = Map.empty\<rparr>"

text \<open>
  The index an identifier made from an allocation index stands for, and \<open>Arena::alloc\<close> with the
  \<open>from_index\<close> of the identifiers. The identifiers of names and solvables are \<open>DenseId\<close>s over
  \<open>u32\<close> (\<open>src/solver_id.rs\<close>).
\<close>

definition string_index :: "nat \<Rightarrow> nat option" where
  "string_index x = map_option StringId_to_index (StringId_from_index x)"

definition dense_id_index :: "nat \<Rightarrow> nat option" where
  "dense_id_index x = map_option unat (u32_try_from x)"

definition version_set_index :: "nat \<Rightarrow> nat option" where
  "version_set_index x = map_option VersionSetId_to_index (VersionSetId_from_index x)"

definition version_set_union_index :: "nat \<Rightarrow> nat option" where
  "version_set_union_index x = map_option VersionSetUnionId_to_index (VersionSetUnionId_from_index x)"

definition condition_index :: "nat \<Rightarrow> nat option" where
  "condition_index x = map_option ConditionId_to_index (ConditionId_from_index x)"

definition alloc_with :: "(nat \<Rightarrow> nat option) \<Rightarrow> 'a arena \<Rightarrow> 'a \<Rightarrow> (nat \<times> 'a arena) option" where
  "alloc_with from_index a v = (case Arena_alloc a v of (n, a') \<Rightarrow> map_option (\<lambda>i. (i, a')) (from_index n))"

definition intern_string :: "string \<Rightarrow> ('n, 'vs, 'v) pool \<Rightarrow> (string_id \<times> ('n, 'vs, 'v) pool) option" where
  "intern_string name p = (case FrozenCopyMap_get_copy (pl_string_to_ids p) name of
     Some i \<Rightarrow> Some (i, p)
   | None \<Rightarrow> Option.bind (alloc_with string_index (pl_strings p) name) (\<lambda>(i, a).
       Some (i, p\<lparr>pl_strings := a,
             pl_string_to_ids := snd (FrozenCopyMap_insert_copy (pl_string_to_ids p) name i)\<rparr>)))"

definition resolve_string :: "('n, 'vs, 'v) pool \<Rightarrow> string_id \<Rightarrow> string option" where
  "resolve_string p i = Arena_index (pl_strings p) i"

definition intern_package_name :: "'n \<Rightarrow> ('n, 'vs, 'v) pool \<Rightarrow> (name_id \<times> ('n, 'vs, 'v) pool) option" where
  "intern_package_name name p = (case FrozenCopyMap_get_copy (pl_names_to_ids p) name of
     Some i \<Rightarrow> Some (i, p)
   | None \<Rightarrow> Option.bind (alloc_with dense_id_index (pl_package_names p) name) (\<lambda>(next_id, a).
       Some (next_id, p\<lparr>pl_package_names := a,
          pl_names_to_ids := snd (FrozenCopyMap_insert_copy (pl_names_to_ids p) name next_id)\<rparr>)))"

definition resolve_package_name :: "('n, 'vs, 'v) pool \<Rightarrow> name_id \<Rightarrow> 'n option" where
  "resolve_package_name p i = Arena_index (pl_package_names p) i"

definition lookup_package_name :: "('n, 'vs, 'v) pool \<Rightarrow> 'n \<Rightarrow> name_id option" where
  "lookup_package_name p name = FrozenCopyMap_get_copy (pl_names_to_ids p) name"

definition intern_solvable ::
  "name_id \<Rightarrow> 'v \<Rightarrow> ('n, 'vs, 'v) pool \<Rightarrow> (solvable_id \<times> ('n, 'vs, 'v) pool) option" where
  "intern_solvable name_id rec p =
     map_option (\<lambda>(i, a). (i, p\<lparr>pl_solvables := a\<rparr>))
       (alloc_with dense_id_index (pl_solvables p) \<lparr>sv_name = name_id, sv_record = rec\<rparr>)"

definition resolve_solvable :: "('n, 'vs, 'v) pool \<Rightarrow> solvable_id \<Rightarrow> 'v solvable option" where
  "resolve_solvable p i = Arena_index (pl_solvables p) i"

definition iter_solvables :: "('n, 'vs, 'v) pool \<Rightarrow> (solvable_id \<times> 'v solvable) list" where
  "iter_solvables p = Arena_iter (pl_solvables p)"

definition intern_version_set ::
  "(name_id \<times> 'vs) \<Rightarrow> ('n, 'vs, 'v) pool \<Rightarrow> (version_set_id \<times> ('n, 'vs, 'v) pool) option" where
  "intern_version_set key p = (case FrozenCopyMap_get_copy (pl_version_set_to_id p) key of
     Some entry \<Rightarrow> Some (entry, p)
   | None \<Rightarrow> Option.bind (alloc_with version_set_index (pl_version_sets p) key) (\<lambda>(i, a).
       Some (i, p\<lparr>pl_version_sets := a,
             pl_version_set_to_id := snd (FrozenCopyMap_insert_copy (pl_version_set_to_id p) key i)\<rparr>)))"

definition resolve_version_set_entry :: "('n, 'vs, 'v) pool \<Rightarrow> version_set_id \<Rightarrow> (name_id \<times> 'vs) option" where
  "resolve_version_set_entry p i = Arena_index (pl_version_sets p) i"



definition intern_version_set_union ::
  "version_set_id \<Rightarrow> version_set_id list \<Rightarrow> ('n, 'vs, 'v) pool \<Rightarrow> (version_set_union_id \<times> ('n, 'vs, 'v) pool) option"
where
  "intern_version_set_union first others p =
     map_option (\<lambda>(i, a). (i, p\<lparr>pl_version_set_unions := a\<rparr>))
       (alloc_with version_set_union_index (pl_version_set_unions p) (foldl SmallVec_push (SV_One first) others))"

definition resolve_version_set_union ::
  "('n, 'vs, 'v) pool \<Rightarrow> version_set_union_id \<Rightarrow> version_set_id list option" where
  "resolve_version_set_union p i = map_option SmallVec_as_slice (Arena_index (pl_version_set_unions p) i)"

definition resolve_condition :: "('n, 'vs, 'v) pool \<Rightarrow> condition_id \<Rightarrow> condition option" where
  "resolve_condition p i = Arena_index (pl_conditions p) i"

definition intern_condition :: "condition \<Rightarrow> ('n, 'vs, 'v) pool \<Rightarrow> (condition_id \<times> ('n, 'vs, 'v) pool) option" where
  "intern_condition c p = (case FrozenCopyMap_get_copy (pl_condition_to_id p) c of
     Some i \<Rightarrow> Some (i, p)
   | None \<Rightarrow> Option.bind (alloc_with condition_index (pl_conditions p) c) (\<lambda>(i, a).
       Some (i, p\<lparr>pl_conditions := a,
             pl_condition_to_id := snd (FrozenCopyMap_insert_copy (pl_condition_to_id p) c i)\<rparr>)))"

section \<open>The tables are interners\<close>

text \<open>
  The table and its inverse map agree while no identifier has wrapped around: as long as the
  table has at most \<open>b\<close> entries.
\<close>

definition interned :: "nat \<Rightarrow> ('k \<rightharpoonup> nat) \<Rightarrow> 'k arena \<Rightarrow> bool" where
  "interned b m a \<longleftrightarrow> arena_inv a \<and> (ar_len a \<le> b \<longrightarrow> (\<forall>k i. m k = Some i \<longleftrightarrow> Arena_index a i = Some k))"

definition pool_inv :: "('n, 'vs, 'v) pool \<Rightarrow> bool" where
  "pool_inv p \<longleftrightarrow> interned (2 ^ 32) (pl_names_to_ids p) (pl_package_names p) \<and> ar_len (pl_package_names p) \<le> 2 ^ 32 \<and>
     interned (2 ^ 32) (pl_string_to_ids p) (pl_strings p) \<and>
     interned (2 ^ 32) (pl_version_set_to_id p) (pl_version_sets p) \<and>
     interned (2 ^ 32 - 1) (pl_condition_to_id p) (pl_conditions p) \<and> ar_len (pl_conditions p) \<le> 2 ^ 32 - 1 \<and>
     arena_inv (pl_solvables p) \<and> arena_inv (pl_version_set_unions p)"

text \<open>Names and conditions need no room: their tables refuse the entry that does not fit.\<close>

definition string_room :: "('n, 'vs, 'v) pool \<Rightarrow> bool" where
  "string_room p \<longleftrightarrow> ar_len (pl_strings p) \<le> 2 ^ 32"

definition version_set_room :: "('n, 'vs, 'v) pool \<Rightarrow> bool" where
  "version_set_room p \<longleftrightarrow> ar_len (pl_version_sets p) \<le> 2 ^ 32"

lemma string_index_eq: "string_index x = Some (x mod 2 ^ 32)"
  by (simp add: string_index_def StringId_to_index_def StringId_from_index_def unat_as_u32)

lemma version_set_index_eq: "version_set_index x = Some (x mod 2 ^ 32)"
  by (simp add: version_set_index_def VersionSetId_to_index_def VersionSetId_from_index_def unat_as_u32)

lemma version_set_union_index_eq: "version_set_union_index x = Some (x mod 2 ^ 32)"
  by (simp add: version_set_union_index_def VersionSetUnionId_to_index_def VersionSetUnionId_from_index_def unat_as_u32)

lemma dense_id_index_eq: "dense_id_index x = (if x < 2 ^ 32 then Some x else None)"
  by (simp add: dense_id_index_def u32_try_from_def unat_of_nat_u32)

lemma condition_index_eq: "condition_index x = (if x < 2 ^ 32 - 1 then Some x else None)"
proof (cases "x < 2 ^ 32 - 1")
  case True
  then have "x + 1 < 2 ^ 32" by simp
  then show ?thesis using True
    by (simp add: condition_index_def ConditionId_from_index_def ConditionId_to_index_def u32_try_from_def unat_of_nat_u32)
next
  case False
  then have "\<not> x + 1 < 2 ^ 32" by simp
  then show ?thesis using False by (simp add: condition_index_def ConditionId_from_index_def u32_try_from_def)
qed

lemmas index_eqs = string_index_eq version_set_index_eq version_set_union_index_eq dense_id_index_eq condition_index_eq

lemma alloc_with_Some:
  "alloc_with from_index a v = Some (i, a') \<longleftrightarrow> from_index (ar_len a) = Some i \<and> a' = snd (Arena_alloc a v)"
  by (auto simp: alloc_with_def split_beta) (simp_all add: Arena_alloc_def Let_def split_beta)

lemma interned_alloc:
  assumes "interned b m a" "m k = None" "ar_len a < b \<Longrightarrow> i = ar_len a"
  shows "interned b (m(k \<mapsto> i)) (snd (Arena_alloc a k))"
proof -
  have inv: "arena_inv a" using assms(1) by (simp add: interned_def)
  have at: "Arena_index (snd (Arena_alloc a k)) j = (if j = ar_len a then Some k else Arena_index a j)" for j
    using chunk_arena.get_alloc [OF inv] by (simp add: Arena_length_def)
  have new: "Arena_index a (ar_len a) = None" using chunk_arena.get_bound [OF inv] by (simp add: Arena_length_def)
  have len: "ar_len (snd (Arena_alloc a k)) = Suc (ar_len a)"
    using chunk_arena.size_alloc [OF inv] by (simp add: Arena_length_def)
  have "(m(k \<mapsto> i)) k' = Some j \<longleftrightarrow> Arena_index (snd (Arena_alloc a k)) j = Some k'" if "Suc (ar_len a) \<le> b" for k' j
  proof -
    have "i = ar_len a" "\<forall>k i. m k = Some i \<longleftrightarrow> Arena_index a i = Some k"
      using assms(1,3) that by (simp_all add: interned_def)
    with at [of j] new assms(2) show ?thesis by (auto split: if_splits) (metis option.distinct(1))
  qed
  with chunk_arena.inv_alloc [OF inv] len show ?thesis by (simp add: interned_def)
qed

text \<open>
  A table whose \<open>intern\<close> returns what its map knows and otherwise allocates an entry, under
  the identifier that stands for its index while the index is below \<open>b\<close>.
\<close>

lemma table_interner:
  assumes table: "\<And>p. ok p \<Longrightarrow> interned b (ids p) (store p)"
    and hit: "\<And>p k i. ids p k = Some i \<Longrightarrow> intern k p = Some (i, p)"
    and miss: "\<And>p k i p'. ok p \<Longrightarrow> ids p k = None \<Longrightarrow> intern k p = Some (i, p') \<Longrightarrow>
      (ar_len (store p) < b \<longrightarrow> i = ar_len (store p)) \<and> store p' = snd (Arena_alloc (store p) k) \<and> ok p'"
    and res: "\<And>p i. resolve p i = Arena_index (store p) i"
    and room: "\<And>p. ok p \<Longrightarrow> room p \<Longrightarrow> ar_len (store p) \<le> b"
      "\<And>p p'. ok p \<Longrightarrow> ok p' \<Longrightarrow> ar_len (store p) \<le> ar_len (store p') \<Longrightarrow> room p' \<Longrightarrow> room p"
  shows "bounded_interner ok room intern resolve"
proof
  fix p k i p'
  assume p: "ok p" and k: "intern k p = Some (i, p')"
  note t = table [OF p, unfolded interned_def]
  have len: "ar_len (snd (Arena_alloc (store p) k)) = Suc (ar_len (store p))"
    using chunk_arena.size_alloc [of "store p" k] t by (simp add: Arena_length_def)
  show ok: "ok p'" using p k hit [of p k] miss [OF p _ k] by (cases "ids p k") auto
  show "resolve p' j = Some x" if "resolve p j = Some x" for j x
    using that t k hit [of p k] miss [OF p _ k] chunk_arena.get_stable [of "store p" j x k] by (cases "ids p k") (auto simp: res)
  show before: "room p" if "room p'"
  proof -
    have "ar_len (store p) \<le> ar_len (store p')" using k hit [of p k] miss [OF p _ k] len by (cases "ids p k") auto
    then show ?thesis by (rule room(2) [OF p ok _ that])
  qed
  show "resolve p' i = Some k" if "room p'"
  proof (cases "ids p k")
    case None
    from miss [OF p None k] room(1) [OF ok that] len have "i = ar_len (store p)" "store p' = snd (Arena_alloc (store p) k)" by auto
    with t chunk_arena.get_new [of "store p" k] show ?thesis by (simp add: res Arena_alloc_effect)
  next
    case (Some j)
    with hit [OF Some] k t room(1) [OF p before [OF that]] show ?thesis by (simp add: res)
  qed
next
  fix p i k
  assume "ok p" "room p" "resolve p i = Some k"
  then show "intern k p = Some (i, p)" using table [of p] hit [of p k i] room(1) by (simp add: interned_def res)
qed

lemma Arena_alloc_len: "ar_len (snd (Arena_alloc a v)) = Suc (ar_len a)"
  by (simp add: Arena_alloc_def Let_def split_beta)

lemma interned_fst_alloc: "fst (Arena_alloc a k) = ar_len a"
  by (simp add: Arena_alloc_def Let_def split_beta)

lemmas pool_access_defs = FrozenCopyMap_get_copy_def FrozenCopyMap_insert_copy_def alloc_with_Some index_eqs pool_inv_def
  bind_eq_Some_conv Arena_alloc_len

interpretation strings: bounded_interner pool_inv string_room intern_string resolve_string
  by (rule table_interner [where ids = pl_string_to_ids and store = pl_strings and b = "2 ^ 32"])
    (auto simp: intern_string_def resolve_string_def string_room_def pool_access_defs intro: interned_alloc)

interpretation names: bounded_interner pool_inv "\<lambda>_. True" intern_package_name resolve_package_name
  by (rule table_interner [where ids = pl_names_to_ids and store = pl_package_names and b = "2 ^ 32"])
    (auto simp: intern_package_name_def resolve_package_name_def pool_access_defs intro: interned_alloc split: if_splits)

interpretation version_sets: bounded_interner pool_inv version_set_room intern_version_set resolve_version_set_entry
  by (rule table_interner [where ids = pl_version_set_to_id and store = pl_version_sets and b = "2 ^ 32"])
    (auto simp: intern_version_set_def resolve_version_set_entry_def version_set_room_def pool_access_defs intro: interned_alloc)

interpretation conditions: bounded_interner pool_inv "\<lambda>_. True" intern_condition resolve_condition
  by (rule table_interner [where ids = pl_condition_to_id and store = pl_conditions and b = "2 ^ 32 - 1"])
    (auto simp: intern_condition_def resolve_condition_def pool_access_defs intro: interned_alloc split: if_splits)

lemma Arena_new_index: "Arena_index Arena_new i = None"
  using chunk_arena.get_bound [OF chunk_arena.inv_fresh] by (simp add: chunk_arena.size_fresh)

lemma Pool_default_inv [inv_intros]: "pool_inv Pool_default"
  by (simp add: pool_inv_def Pool_default_def interned_def Arena_new_index chunk_arena.inv_fresh
      chunk_arena.size_fresh [unfolded Arena_length_def])

lemma intern_solvable_effect:
  assumes "pool_inv p" "intern_solvable n r p = Some (i, p')"
  shows "pool_inv p'" "resolve_solvable p' j = (if j = i then Some \<lparr>sv_name = n, sv_record = r\<rparr> else resolve_solvable p j)"
proof -
  have inv: "arena_inv (pl_solvables p)" using assms(1) by (simp add: pool_inv_def)
  show "pool_inv p'" using assms chunk_arena.inv_alloc [OF inv] by (auto simp: intern_solvable_def pool_access_defs)
  show "resolve_solvable p' j = (if j = i then Some \<lparr>sv_name = n, sv_record = r\<rparr> else resolve_solvable p j)"
    using assms(2) chunk_arena.get_alloc [OF inv]
    by (auto simp: intern_solvable_def resolve_solvable_def pool_access_defs Arena_length_def split: if_splits)
qed

lemma intern_version_set_union_effect:
  assumes "pool_inv p" "intern_version_set_union v vs p = Some (i, p')"
  shows "pool_inv p'" "ar_len (pl_version_set_unions p') \<le> 2 ^ 32 \<Longrightarrow>
    resolve_version_set_union p' j = (if j = i then Some (v # vs) else resolve_version_set_union p j)"
proof -
  have inv: "arena_inv (pl_version_set_unions p)" using assms(1) by (simp add: pool_inv_def)
  show "pool_inv p'" using assms chunk_arena.inv_alloc [OF inv] by (auto simp: intern_version_set_union_def pool_access_defs)
  show "resolve_version_set_union p' j = (if j = i then Some (v # vs) else resolve_version_set_union p j)"
    if "ar_len (pl_version_set_unions p') \<le> 2 ^ 32"
    using assms(2) that chunk_arena.get_alloc [OF inv]
    by (auto simp: intern_version_set_union_def resolve_version_set_union_def pool_access_defs Arena_length_def)
qed

section \<open>Runs of the pool\<close>

text \<open>
  One rule per interning function. A condition is built from conditions that were interned
  before; \<open>intern_condition\<close> itself does not ask for this.
\<close>

fun condition_operands :: "condition \<Rightarrow> condition_id set" where
  "condition_operands (Binary _ l r) = {l, r}"
| "condition_operands (Condition_Requirement _) = {}"

inductive pool_reachable :: "('n, 'vs, 'v) pool \<Rightarrow> bool" where
  start: "pool_reachable Pool_default"
| pstring: "pool_reachable p \<Longrightarrow> intern_string s p = Some (i, p') \<Longrightarrow> pool_reachable p'"
| pname: "pool_reachable p \<Longrightarrow> intern_package_name n p = Some (i, p') \<Longrightarrow> pool_reachable p'"
| psolvable: "pool_reachable p \<Longrightarrow> intern_solvable nid r p = Some (i, p') \<Longrightarrow> pool_reachable p'"
| pversion_set: "pool_reachable p \<Longrightarrow> intern_version_set key p = Some (i, p') \<Longrightarrow> pool_reachable p'"
| punion: "pool_reachable p \<Longrightarrow> intern_version_set_union v vs p = Some (i, p') \<Longrightarrow> pool_reachable p'"
| pcondition: "pool_reachable p \<Longrightarrow> \<forall>j \<in> condition_operands c. resolve_condition p j \<noteq> None \<Longrightarrow>
    intern_condition c p = Some (i, p') \<Longrightarrow> pool_reachable p'"

lemma pool_reachable_inv: "pool_reachable p \<Longrightarrow> pool_inv p"
  by (induction rule: pool_reachable.induct)
    (rule Pool_default_inv strings.intern_inv names.intern_inv version_sets.intern_inv conditions.intern_inv
      intern_solvable_effect(1) intern_version_set_union_effect(1); assumption)+

text \<open>The other functions leave the conditions alone.\<close>

lemma conditions_same:
  "intern_string s p = Some (i, p') \<Longrightarrow> pl_conditions p' = pl_conditions p"
  "intern_package_name n p = Some (i, p') \<Longrightarrow> pl_conditions p' = pl_conditions p"
  "intern_solvable nid r p = Some (i, p') \<Longrightarrow> pl_conditions p' = pl_conditions p"
  "intern_version_set key p = Some (i, p') \<Longrightarrow> pl_conditions p' = pl_conditions p"
  "intern_version_set_union v vs p = Some (i, p') \<Longrightarrow> pl_conditions p' = pl_conditions p"
  unfolding intern_string_def intern_package_name_def intern_solvable_def intern_version_set_def intern_version_set_union_def
  by (auto simp: bind_eq_Some_conv split: option.split_asm)

lemma conditions_frame [frame_simps]:
  "intern_string s p = Some (i, p') \<Longrightarrow> resolve_condition p' = resolve_condition p"
  "intern_package_name n p = Some (i, p') \<Longrightarrow> resolve_condition p' = resolve_condition p"
  "intern_solvable nid r p = Some (i, p') \<Longrightarrow> resolve_condition p' = resolve_condition p"
  "intern_version_set key p = Some (i, p') \<Longrightarrow> resolve_condition p' = resolve_condition p"
  "intern_version_set_union v vs p = Some (i, p') \<Longrightarrow> resolve_condition p' = resolve_condition p"
  unfolding resolve_condition_def [abs_def] by (simp_all only: conditions_same)

text \<open>An interned condition only refers to conditions of smaller index.\<close>

lemma pool_conditions_descend:
  "pool_reachable p \<Longrightarrow> resolve_condition p i = Some c \<Longrightarrow> j \<in> condition_operands c \<Longrightarrow> j < i"
proof (induction arbitrary: i c rule: pool_reachable.induct)
  case start
  then show ?case
    by (simp add: resolve_condition_def Pool_default_def Arena_new_index)
next
  case (pcondition p d k p')
  note inv = pool_reachable_inv [OF pcondition.hyps(1)]
  then have arena: "arena_inv (pl_conditions p)" by (simp add: pool_inv_def interned_def)
  show ?case
  proof (cases "pl_condition_to_id p d")
    case None
    with pcondition.hyps(3) pcondition.prems(1) have "(i = ar_len (pl_conditions p) \<and> c = d) \<or> resolve_condition p i = Some c"
      using chunk_arena.get_alloc [OF arena, of d i]
      by (auto simp: intern_condition_def resolve_condition_def pool_access_defs Arena_length_def
          split: if_splits)
    moreover have "j < ar_len (pl_conditions p)" if "c = d"
      using pcondition.hyps(2) pcondition.prems(2) that chunk_arena.get_bound [OF arena, of j]
      by (auto simp: resolve_condition_def Arena_length_def)
    ultimately show ?thesis using pcondition.IH pcondition.prems(2) by blast
  next
    case (Some k)
    then show ?thesis using pcondition
      by (simp add: intern_condition_def FrozenCopyMap_get_copy_def)
  qed
qed (simp_all add: frame_simps)

section \<open>Properties\<close>

text \<open>When interning panics: never for strings and version sets, otherwise for a new entry of a full table.\<close>

lemma intern_panics:
  "intern_string s p \<noteq> None" "intern_version_set v p \<noteq> None" "intern_version_set_union v' vs p \<noteq> None"
  "intern_package_name n p = None \<longleftrightarrow> lookup_package_name p n = None \<and> 2 ^ 32 \<le> ar_len (pl_package_names p)"
  "intern_condition c p = None \<longleftrightarrow> pl_condition_to_id p c = None \<and> 2 ^ 32 - 1 \<le> ar_len (pl_conditions p)"
  "intern_solvable m r p = None \<longleftrightarrow> 2 ^ 32 \<le> ar_len (pl_solvables p)"
  unfolding intern_string_def intern_version_set_def intern_version_set_union_def intern_package_name_def
    intern_condition_def intern_solvable_def lookup_package_name_def FrozenCopyMap_get_copy_def alloc_with_def
  by (simp_all add: index_eqs split_beta interned_fst_alloc split: option.split)



lemma self_reference: "unfolds resolve c t \<Longrightarrow> resolve c \<noteq> Binary op c c"
  by (induction rule: unfolds.induct) auto

text \<open>Property C27. Every condition interned in a pool, where the operands of each condition were
  interned before it, has a disjunctive normal form: the conversion recurses through ever smaller
  identifiers and returns. \<open>intern_condition\<close> does not check the operands: a condition
  that names the identifier it is about to get is accepted, and has no normal form.\<close>

theorem pool_condition_dnf_returns:
  assumes "pool_reachable p" "resolve_condition p i = Some c"
  shows "(\<exists>dnf. convert_conditions_to_dnf (\<lambda>j. the (resolve_condition p j)) i = Some dnf) \<and>
    (\<exists>p'. intern_condition (Binary And 0 0) (Pool_default :: ('n, 'vs, 'v) pool) = Some (0, p') \<and>
      convert_conditions_to_dnf (\<lambda>j. the (resolve_condition p' j)) 0 = None)"
proof -
  let ?resolve = "\<lambda>j. the (resolve_condition p j)"
  note arena = pool_reachable_inv [OF assms(1), unfolded pool_inv_def interned_def]
  have "\<exists>t. unfolds ?resolve i t"
    using assms(2)
  proof (induction i arbitrary: c rule: less_induct)
    case (less i)
    show ?case
    proof (cases c)
      case (Binary op l r)
      then have "l < i" "r < i" using pool_conditions_descend [OF assms(1) less.prems] by simp_all
      moreover from this obtain dl dr where "resolve_condition p l = Some dl" "resolve_condition p r = Some dr"
        using less.prems arena by (auto simp: resolve_condition_def Arena_index_eq)
      ultimately obtain t1 t2 where "unfolds ?resolve l t1" "unfolds ?resolve r t2"
        using less.IH by blast
      moreover have "?resolve i = Binary op l r" using less.prems Binary by simp
      ultimately show ?thesis by (blast intro: unfolds.node)
    next
      case (Condition_Requirement vs)
      with less.prems have "?resolve i = Condition_Requirement vs" by simp
      then show ?thesis by (blast intro: unfolds.leaf)
    qed
  qed
  then have returns: "\<exists>dnf. convert_conditions_to_dnf ?resolve i = Some dnf" using dnf_of_tree by blast
  let ?p = "Pool_default :: ('n, 'vs, 'v) pool" and ?c = "Binary And 0 0"
  obtain k p' where p': "intern_condition ?c ?p = Some (k, p')"
    using intern_panics(5) [of ?c ?p] by (auto simp: Pool_default_def chunk_arena.size_fresh [unfolded Arena_length_def])
  then have "k = 0" by (auto simp: intern_condition_def pool_access_defs Pool_default_def chunk_arena.size_fresh [unfolded Arena_length_def])
  with conditions.resolve_intern [OF Pool_default_inv p'] have "the (resolve_condition p' 0) = ?c" by simp
  then have "convert_conditions_to_dnf (\<lambda>j. the (resolve_condition p' j)) 0 = None"
    using dnf_needs_tree self_reference by (metis option.exhaust)
  with returns p' \<open>k = 0\<close> show ?thesis by blast
qed

theorem pool_condition_dnf_returns_witness:
  "\<exists>i p. intern_condition (Condition_Requirement 7) (Pool_default :: (nat, nat, nat) pool) = Some (i, p) \<and>
    (\<exists>dnf. convert_conditions_to_dnf (\<lambda>j. the (resolve_condition p j)) i = Some dnf)"
proof -
  obtain i p where p: "intern_condition (Condition_Requirement 7) (Pool_default :: (nat, nat, nat) pool) = Some (i, p)"
    using intern_panics(5) [of "Condition_Requirement 7" "Pool_default :: (nat, nat, nat) pool"]
    by (auto simp: Pool_default_def chunk_arena.size_fresh [unfolded Arena_length_def])
  with pool_condition_dnf_returns [OF pool_reachable.pcondition [OF pool_reachable.start _ p]
      conditions.resolve_intern [OF Pool_default_inv p]] show ?thesis by auto
qed

datatype 'a vec_op = VPush 'a | VPop | VClear

fun small_vec_exec :: "'a vec_op \<Rightarrow> 'a small_vec \<Rightarrow> 'a option \<times> 'a small_vec" where
  "small_vec_exec (VPush x) v = (None, SmallVec_push v x)"
| "small_vec_exec VPop v = SmallVec_pop v"
| "small_vec_exec VClear v = (None, SmallVec_clear v)"

fun vec_exec :: "'a vec_op \<Rightarrow> 'a list \<Rightarrow> 'a option \<times> 'a list" where
  "vec_exec (VPush x) v = (None, v @ [x])"
| "vec_exec VPop v = vec_pop v"
| "vec_exec VClear v = (None, [])"

lemma small_vec_exec_refines:
  "fst (small_vec_exec op v) = fst (vec_exec op (SmallVec_as_slice v)) \<and>
   SmallVec_as_slice (snd (small_vec_exec op v)) = snd (vec_exec op (SmallVec_as_slice v)) \<and> True"
  by (cases op) (simp_all add: SmallVec_pop_slice)

text \<open>Property C31. The inline small vector behaves as a vector: for every sequence of pushes,
  pops and clears it returns the same values and exposes the same slice, whichever of its
  four representations it is in, and it survives serialisation.\<close>

theorem small_vec_refines_vec:
  "fst (run_ops small_vec_exec ops SV_Empty) = fst (run_ops vec_exec ops []) \<and>
   SmallVec_as_slice (snd (run_ops small_vec_exec ops SV_Empty)) = snd (run_ops vec_exec ops []) \<and>
   SmallVec_eq (SmallVec_deserialize (SmallVec_serialize (snd (run_ops small_vec_exec ops SV_Empty))))
     (snd (run_ops small_vec_exec ops SV_Empty))"
  using run_ops_refines [of "\<lambda>_. True" small_vec_exec vec_exec SmallVec_as_slice,
      OF small_vec_exec_refines, where s = SV_Empty and ops = ops]
  by (simp add: SmallVec_eq_def SmallVec_deserialize_def SmallVec_serialize_def)

end
