(* ===== verification/Variable_Map.thy ===== *)
theory Variable_Map
  imports Requirements Id_Storage
begin

text \<open>
  The solver's variables, \<open>src/solver/variable_map.rs\<close>: every variable has exactly one
  origin, recorded when it is handed out; index 0 is the root. Solvables are interned (one
  variable each, an instance of \<open>interner\<close>), auxiliary variables are allocated afresh.
\<close>

datatype variable_origin =
    Origin_Root
  | Origin_Solvable solvable_id
  | Origin_ForbidMultiple name_id
  | Origin_AtLeastOne name_id
  | Origin_ConstrainsViolation version_set_id
  | Origin_RequiresGate requirement

record variable_map =
  vm_solvable_to_variable :: "solvable_id \<rightharpoonup> variable_id"
  vm_origins :: "variable_origin list"

definition VariableMap_default :: variable_map where
  "VariableMap_default = \<lparr>vm_solvable_to_variable = Map.empty, vm_origins = [Origin_Root]\<rparr>"

definition VariableMap_alloc :: "variable_origin \<Rightarrow> variable_map \<Rightarrow> variable_id \<times> variable_map" where
  "VariableMap_alloc origin m = (length (vm_origins m), m\<lparr>vm_origins := vm_origins m @ [origin]\<rparr>)"

definition VariableMap_intern_solvable :: "solvable_id \<Rightarrow> variable_map \<Rightarrow> variable_id \<times> variable_map" where
  "VariableMap_intern_solvable s m = (case vm_solvable_to_variable m s of
     Some variable_id \<Rightarrow> (variable_id, m)
   | None \<Rightarrow> (case VariableMap_alloc (Origin_Solvable s) m of (variable_id, m') \<Rightarrow>
       (variable_id, m'\<lparr>vm_solvable_to_variable := (vm_solvable_to_variable m')(s \<mapsto> variable_id)\<rparr>)))"

definition lookup_solvable :: "variable_map \<Rightarrow> solvable_id \<Rightarrow> variable_id option" where
  "lookup_solvable m s = vm_solvable_to_variable m s"

definition intern_solvable_or_root ::
  "solvable_id solvable_id_or_root \<Rightarrow> variable_map \<Rightarrow> variable_id \<times> variable_map" where
  "intern_solvable_or_root k m = (case SolvableIdOrRoot_solvable k of
     Some s \<Rightarrow> VariableMap_intern_solvable s m
   | None \<Rightarrow> (0, m))"

definition alloc_forbid_multiple_variable :: "name_id \<Rightarrow> variable_map \<Rightarrow> variable_id \<times> variable_map" where
  "alloc_forbid_multiple_variable n m = VariableMap_alloc (Origin_ForbidMultiple n) m"

definition alloc_at_least_one_variable :: "name_id \<Rightarrow> variable_map \<Rightarrow> variable_id \<times> variable_map" where
  "alloc_at_least_one_variable n m = VariableMap_alloc (Origin_AtLeastOne n) m"

definition alloc_constrains_violation_variable ::
  "version_set_id \<Rightarrow> variable_map \<Rightarrow> variable_id \<times> variable_map" where
  "alloc_constrains_violation_variable vs m = VariableMap_alloc (Origin_ConstrainsViolation vs) m"

definition alloc_requires_gate_variable :: "requirement \<Rightarrow> variable_map \<Rightarrow> variable_id \<times> variable_map" where
  "alloc_requires_gate_variable r m = VariableMap_alloc (Origin_RequiresGate r) m"

text \<open>\<open>origin\<close> indexes the vector: a variable that was never handed out panics.\<close>

definition VariableMap_origin :: "variable_map \<Rightarrow> variable_id \<Rightarrow> variable_origin option" where
  "VariableMap_origin m v = slice_get (vm_origins m) v"

fun VariableOrigin_as_solvable :: "variable_origin \<Rightarrow> solvable_id option" where
  "VariableOrigin_as_solvable (Origin_Solvable s) = Some s"
| "VariableOrigin_as_solvable _ = None"

fun VariableOrigin_as_solvable_or_root :: "variable_origin \<Rightarrow> solvable_id solvable_id_or_root option" where
  "VariableOrigin_as_solvable_or_root (Origin_Solvable s) = Some (Solvable s)"
| "VariableOrigin_as_solvable_or_root Origin_Root = Some Root"
| "VariableOrigin_as_solvable_or_root _ = None"

text \<open>The outer \<open>option\<close> of the source's panic is dropped where the variable is allocated.\<close>

definition as_solvable :: "variable_map \<Rightarrow> variable_id \<Rightarrow> solvable_id option" where
  "as_solvable m v = Option.bind (VariableMap_origin m v) VariableOrigin_as_solvable"

definition as_solvable_or_root :: "variable_map \<Rightarrow> variable_id \<Rightarrow> solvable_id solvable_id_or_root option" where
  "as_solvable_or_root m v = Option.bind (VariableMap_origin m v) VariableOrigin_as_solvable_or_root"

section \<open>The invariant\<close>

definition variable_map_inv :: "variable_map \<Rightarrow> bool" where
  "variable_map_inv m \<longleftrightarrow>
     (\<forall>v. VariableMap_origin m v = Some Origin_Root \<longleftrightarrow> v = 0) \<and>
     (\<forall>s v. lookup_solvable m s = Some v \<longleftrightarrow> VariableMap_origin m v = Some (Origin_Solvable s))"

abbreviation variable_count :: "variable_map \<Rightarrow> nat" where
  "variable_count m \<equiv> length (vm_origins m)"

lemma variable_map_invD [inv_dests]:
  assumes "variable_map_inv m"
  shows "VariableMap_origin m v = Some Origin_Root \<longleftrightarrow> v = 0"
    "lookup_solvable m s = Some v \<longleftrightarrow> VariableMap_origin m v = Some (Origin_Solvable s)"
    "0 < variable_count m"
proof -
  show *: "VariableMap_origin m v = Some Origin_Root \<longleftrightarrow> v = 0" for v
    using assms by (simp add: variable_map_inv_def)
  show "lookup_solvable m s = Some v \<longleftrightarrow> VariableMap_origin m v = Some (Origin_Solvable s)"
    using assms by (simp add: variable_map_inv_def)
  show "0 < variable_count m"
    using * [of 0] by (simp add: VariableMap_origin_def)
qed

lemma VariableMap_alloc_simps [simp]:
  "fst (VariableMap_alloc origin m) = variable_count m"
  "vm_solvable_to_variable (snd (VariableMap_alloc origin m)) = vm_solvable_to_variable m"
  "lookup_solvable (snd (VariableMap_alloc origin m)) = lookup_solvable m"
  "variable_count (snd (VariableMap_alloc origin m)) = Suc (variable_count m)"
  "VariableMap_origin (snd (VariableMap_alloc origin m)) v =
     (if v = variable_count m then Some origin else VariableMap_origin m v)"
  by (auto simp: VariableMap_alloc_def VariableMap_origin_def slice_get_snoc lookup_solvable_def)

lemma origin_None_iff: "VariableMap_origin m v = None \<longleftrightarrow> variable_count m \<le> v"
  by (simp add: VariableMap_origin_def)

lemma variable_map_inv_default [inv_intros]: "variable_map_inv VariableMap_default"
  by (auto simp: variable_map_inv_def VariableMap_default_def VariableMap_origin_def slice_get_def
      lookup_solvable_def)

text \<open>The auxiliary variables.\<close>

definition auxiliary_origin :: "variable_origin \<Rightarrow> bool" where
  "auxiliary_origin origin \<longleftrightarrow> VariableOrigin_as_solvable_or_root origin = None"

lemma VariableMap_alloc_inv [inv_intros]:
  assumes "variable_map_inv m" "auxiliary_origin origin"
  shows "variable_map_inv (snd (VariableMap_alloc origin m))"
  using variable_map_invD [OF assms(1)] assms(2) origin_None_iff [of m "variable_count m"]
  by (auto simp: variable_map_inv_def auxiliary_origin_def)

lemma alloc_variable_inv [inv_intros]:
  assumes "variable_map_inv m"
  shows "variable_map_inv (snd (alloc_forbid_multiple_variable n m))"
    "variable_map_inv (snd (alloc_at_least_one_variable n m))"
    "variable_map_inv (snd (alloc_constrains_violation_variable vs m))"
    "variable_map_inv (snd (alloc_requires_gate_variable r m))"
  using assms
  by (auto simp: alloc_forbid_multiple_variable_def alloc_at_least_one_variable_def
      alloc_constrains_violation_variable_def alloc_requires_gate_variable_def auxiliary_origin_def
      intro!: VariableMap_alloc_inv)

lemma lookup_upd [simp]:
  "lookup_solvable (m\<lparr>vm_solvable_to_variable := f\<rparr>) s = f s"
  "VariableMap_origin (m\<lparr>vm_solvable_to_variable := f\<rparr>) = VariableMap_origin m"
  by (simp_all add: lookup_solvable_def VariableMap_origin_def fun_eq_iff)

lemma VariableMap_intern_solvable_cases:
  assumes "variable_map_inv m"
  obtains (known) v where "lookup_solvable m s = Some v" "VariableMap_intern_solvable s m = (v, m)"
  | (fresh) m' where "lookup_solvable m s = None"
      "VariableMap_intern_solvable s m = (variable_count m, m')" "variable_map_inv m'"
      "\<And>v. VariableMap_origin m' v =
        (if v = variable_count m then Some (Origin_Solvable s) else VariableMap_origin m v)"
      "\<And>s'. lookup_solvable m' s' = (if s' = s then Some (variable_count m) else lookup_solvable m s')"
      "variable_count m' = Suc (variable_count m)"
proof (cases "lookup_solvable m s")
  case (Some v)
  then show ?thesis
    using known by (simp add: VariableMap_intern_solvable_def lookup_solvable_def)
next
  case None
  let ?m = "snd (VariableMap_alloc (Origin_Solvable s) m)"
  let ?m' = "?m\<lparr>vm_solvable_to_variable := (vm_solvable_to_variable ?m)(s \<mapsto> variable_count m)\<rparr>"
  have eq: "VariableMap_intern_solvable s m = (variable_count m, ?m')"
    using None by (simp add: VariableMap_intern_solvable_def lookup_solvable_def split_beta)
  have origin: "VariableMap_origin ?m' v =
      (if v = variable_count m then Some (Origin_Solvable s) else VariableMap_origin m v)" for v
    by simp
  have lookup: "lookup_solvable ?m' s' = (if s' = s then Some (variable_count m) else lookup_solvable m s')"
    for s'
    by (simp add: lookup_solvable_def)
  have "variable_map_inv ?m'"
    using variable_map_invD [OF assms] origin_None_iff [of m "variable_count m"] None
    unfolding variable_map_inv_def origin lookup by auto (metis option.distinct(1))
  then show ?thesis using fresh [OF None eq] origin lookup by simp
qed

lemma VariableMap_intern_solvable_inv [inv_intros]:
  "variable_map_inv m \<Longrightarrow> variable_map_inv (snd (VariableMap_intern_solvable s m))"
  by (cases rule: VariableMap_intern_solvable_cases [of m s]) auto

interpretation solvable_variables: interner variable_map_inv VariableMap_intern_solvable as_solvable
proof
  fix m s
  assume m: "variable_map_inv m"
  show "variable_map_inv (snd (VariableMap_intern_solvable s m))"
    using m by (rule VariableMap_intern_solvable_inv)
  show "as_solvable (snd (VariableMap_intern_solvable s m)) (fst (VariableMap_intern_solvable s m)) = Some s"
    using m
  proof (cases rule: VariableMap_intern_solvable_cases [of m s])
    case (known v)
    with variable_map_invD(2) [OF m, of s v] show ?thesis by (simp add: as_solvable_def)
  qed (simp add: as_solvable_def)
next
  fix m v x s
  assume m: "variable_map_inv m" and v: "as_solvable m v = Some x"
  then show "as_solvable (snd (VariableMap_intern_solvable s m)) v = Some x"
    using origin_None_iff [of m v]
    by (cases rule: VariableMap_intern_solvable_cases [of m s]) (auto simp: as_solvable_def bind_eq_Some_conv)
next
  fix m v s
  assume m: "variable_map_inv m" and v: "as_solvable m v = Some s"
  then have "VariableMap_origin m v = Some (Origin_Solvable s)"
    by (auto simp: as_solvable_def bind_eq_Some_conv elim: VariableOrigin_as_solvable.elims)
  then have "lookup_solvable m s = Some v" using variable_map_invD(2) [OF m] by simp
  then show "VariableMap_intern_solvable s m = (v, m)"
    by (simp add: VariableMap_intern_solvable_def lookup_solvable_def)
qed

section \<open>Properties\<close>

datatype variable_request =
    Req_Solvable "solvable_id solvable_id_or_root" | Req_ForbidMultiple name_id | Req_AtLeastOne name_id
  | Req_ConstrainsViolation version_set_id | Req_RequiresGate requirement

fun variable_exec :: "variable_request \<Rightarrow> variable_map \<Rightarrow> variable_id \<times> variable_map" where
  "variable_exec (Req_Solvable k) m = intern_solvable_or_root k m"
| "variable_exec (Req_ForbidMultiple n) m = alloc_forbid_multiple_variable n m"
| "variable_exec (Req_AtLeastOne n) m = alloc_at_least_one_variable n m"
| "variable_exec (Req_ConstrainsViolation vs) m = alloc_constrains_violation_variable vs m"
| "variable_exec (Req_RequiresGate r) m = alloc_requires_gate_variable r m"

fun requested_origin :: "variable_request \<Rightarrow> variable_origin" where
  "requested_origin (Req_Solvable Root) = Origin_Root"
| "requested_origin (Req_Solvable (Solvable s)) = Origin_Solvable s"
| "requested_origin (Req_ForbidMultiple n) = Origin_ForbidMultiple n"
| "requested_origin (Req_AtLeastOne n) = Origin_AtLeastOne n"
| "requested_origin (Req_ConstrainsViolation vs) = Origin_ConstrainsViolation vs"
| "requested_origin (Req_RequiresGate r) = Origin_RequiresGate r"

lemma variable_exec_aux:
  "\<forall>k. r \<noteq> Req_Solvable k \<Longrightarrow>
    variable_exec r m = VariableMap_alloc (requested_origin r) m \<and> auxiliary_origin (requested_origin r)"
  by (cases r) (simp_all add: alloc_forbid_multiple_variable_def alloc_at_least_one_variable_def
      alloc_constrains_violation_variable_def alloc_requires_gate_variable_def auxiliary_origin_def)

lemma variable_exec_effect:
  assumes "variable_map_inv m" "variable_exec r m = (v, m')"
  shows "variable_map_inv m'" "VariableMap_origin m' v = Some (requested_origin r)"
    "VariableMap_origin m w = Some x \<Longrightarrow> VariableMap_origin m' w = Some x"
    "(\<forall>k. r \<noteq> Req_Solvable k) \<Longrightarrow> VariableMap_origin m v = None"
proof -
  have "variable_map_inv m' \<and> VariableMap_origin m' v = Some (requested_origin r) \<and>
    (\<forall>w x. VariableMap_origin m w = Some x \<longrightarrow> VariableMap_origin m' w = Some x) \<and>
    ((\<forall>k. r \<noteq> Req_Solvable k) \<longrightarrow> VariableMap_origin m v = None)"
  proof (cases "\<exists>s. r = Req_Solvable (Solvable s)")
    case True
    then obtain s where r: "r = Req_Solvable (Solvable s)" by blast
    then have e: "VariableMap_intern_solvable s m = (v, m')"
      using assms(2) by (simp add: intern_solvable_or_root_def)
    from assms(1) show ?thesis
    proof (cases rule: VariableMap_intern_solvable_cases [of m s])
      case (known v')
      with e r assms(1) variable_map_invD(2) [OF assms(1), of s v'] show ?thesis by simp
    next
      case (fresh m'')
      with e r origin_None_iff [of m "variable_count m"] show ?thesis by auto
    qed
  next
    case no_solvable: False
    show ?thesis
    proof (cases "r = Req_Solvable Root")
      case True
      with assms variable_map_invD(1) [OF assms(1), of 0] show ?thesis
        by (simp add: intern_solvable_or_root_def)
    next
      case False
      with no_solvable have "\<forall>k. r \<noteq> Req_Solvable k" by (metis solvable_id_or_root.exhaust)
      note aux = variable_exec_aux [OF this, of m] VariableMap_alloc_inv [OF assms(1)]
      then have "v = variable_count m" "m' = snd (VariableMap_alloc (requested_origin r) m)"
        using assms(2) VariableMap_alloc_simps(1) by (metis fst_conv snd_conv)+
      with aux origin_None_iff [of m "variable_count m"] show ?thesis by auto
    qed
  qed
  then show "variable_map_inv m'" "VariableMap_origin m' v = Some (requested_origin r)"
    "VariableMap_origin m w = Some x \<Longrightarrow> VariableMap_origin m' w = Some x"
    "(\<forall>k. r \<noteq> Req_Solvable k) \<Longrightarrow> VariableMap_origin m v = None"
    by blast+
qed

lemma variable_run_inv:
  "variable_map_inv m \<Longrightarrow> variable_map_inv (snd (run_ops variable_exec rs m)) \<and>
    (\<forall>w x. VariableMap_origin m w = Some x \<longrightarrow>
       VariableMap_origin (snd (run_ops variable_exec rs m)) w = Some x)"
proof (induction rs arbitrary: m)
  case (Cons r rs)
  obtain v m' where r: "variable_exec r m = (v, m')" by fastforce
  from variable_exec_effect [OF Cons.prems r] Cons.IH [of m'] r show ?case
    by (auto simp: split_beta)
qed simp

text \<open>Property C16. Every variable the solver asks for has its meaning recorded once and for all.
  After any sequence of requests from the default map, the next request returns a variable
  whose origin is the requested one; the origins recorded before do not change; an auxiliary
  variable is new; and two solvables (or the root) get the same variable exactly when they
  are the same, so no solvable ever gets the root variable.\<close>

theorem variable_map_origins:
  assumes "m = snd (run_ops variable_exec rs VariableMap_default)" "variable_exec r m = (v, m')"
  shows "VariableMap_origin m' v = Some (requested_origin r) \<and>
    (\<forall>w x. VariableMap_origin m w = Some x \<longrightarrow> VariableMap_origin m' w = Some x) \<and>
    ((\<forall>k. r \<noteq> Req_Solvable k) \<longrightarrow> VariableMap_origin m v = None) \<and>
    (\<forall>k k' w m''. r = Req_Solvable k \<longrightarrow> intern_solvable_or_root k' m' = (w, m'') \<longrightarrow> (v = w \<longleftrightarrow> k = k'))"
proof -
  have inv: "variable_map_inv m"
    using variable_run_inv [OF variable_map_inv_default, of rs] assms(1) by simp
  note e = variable_exec_effect [OF inv assms(2)]
  have "v = w \<longleftrightarrow> k = k'"
    if "r = Req_Solvable k" "intern_solvable_or_root k' m' = (w, m'')" for k k' w m''
  proof -
    have e': "VariableMap_origin m'' w = Some (requested_origin (Req_Solvable k'))"
      "VariableMap_origin m'' v = Some (requested_origin (Req_Solvable k))"
      "variable_map_inv m''"
      using variable_exec_effect [OF e(1), of "Req_Solvable k'" w m''] that e(2) by simp_all
    show ?thesis
    proof
      assume "v = w"
      with e'(1,2) show "k = k'" by (cases k; cases k') simp_all
    next
      assume k: "k = k'"
      show "v = w"
      proof (cases k')
        case Root
        with e' k variable_map_invD(1) [OF e'(3)] show ?thesis by simp
      next
        case (Solvable s)
        with e' k have "lookup_solvable m'' s = Some v" "lookup_solvable m'' s = Some w"
          using variable_map_invD(2) [OF e'(3), of s] by simp_all
        then show ?thesis by simp
      qed
    qed
  qed
  with e show ?thesis by blast
qed

theorem variable_map_origins_witness:
  "VariableMap_origin (snd (variable_exec (Req_Solvable (Solvable 5)) VariableMap_default)) 1 =
     Some (Origin_Solvable 5)"
proof -
  have "VariableMap_default = snd (run_ops variable_exec [] VariableMap_default)" by simp
  moreover have "variable_exec (Req_Solvable (Solvable 5)) VariableMap_default =
      (1, snd (variable_exec (Req_Solvable (Solvable 5)) VariableMap_default))"
    by (simp add: intern_solvable_or_root_def VariableMap_intern_solvable_def VariableMap_default_def
        VariableMap_alloc_def)
  ultimately show ?thesis using variable_map_origins by fastforce
qed

end
