(* ===== verification/Watch_Map.thy ===== *)
theory Watch_Map
  imports Clauses
begin

text \<open>
  The watch lists, \<open>src/solver/watch_map.rs\<close>: for every literal a singly linked list,
  threaded through the \<open>next_watches\<close> of the clauses, of the clauses watching it. The map to
  the list heads is a partial map (theory \<open>Chunk_Mapping\<close> shows that \<open>Mapping\<close> is one). The
  invariant \<open>watch_lists\<close> describes the lists the pointers form; the theory shows what
  starting to watch, walking with the cursor, and moving a watch do to them.
\<close>

section \<open>The map and its cursor\<close>

type_synonym watch_map = "literal \<rightharpoonup> clause_id"
type_synonym watch_table = "watched_literals option list"

text \<open>\<open>start_watching\<close>: the loop over the two watch indices.\<close>

definition start_watching_at :: "clause_id \<Rightarrow> nat \<Rightarrow> watch_map \<times> watched_literals \<Rightarrow> watch_map \<times> watched_literals" where
  "start_watching_at c i = (\<lambda>(m, w).
     let watched_literal = arr2_get (wl_watched w) i;
         current_head = m watched_literal
     in (m(watched_literal \<mapsto> c), w\<lparr>wl_next := arr2_set (wl_next w) i current_head\<rparr>))"

definition start_watching :: "watch_map \<Rightarrow> watched_literals \<Rightarrow> clause_id \<Rightarrow> watch_map \<times> watched_literals" where
  "start_watching m w c = start_watching_at c 1 (start_watching_at c 0 (m, w))"

record watch_node =
  wn_clause_id :: clause_id
  wn_watch_index :: nat

record watch_cursor =
  cu_literal :: literal
  cu_previous :: "watch_node option"
  cu_current :: watch_node

definition watch_index_of :: "watched_literals \<Rightarrow> literal \<Rightarrow> nat" where
  "watch_index_of w l = (if arr2_get (wl_watched w) 0 = l then 0 else 1)"

text \<open>The node of a clause in the list of a literal; \<open>None\<close> is the panic of \<open>expect\<close>.\<close>

definition node_of :: "watch_table \<Rightarrow> literal \<Rightarrow> clause_id \<Rightarrow> watch_node option" where
  "node_of ws l c = Option.bind (slice_get ws c) (\<lambda>x. Option.bind x (\<lambda>w.
     Some \<lparr>wn_clause_id = c, wn_watch_index = watch_index_of w l\<rparr>))"

definition WatchMap_cursor :: "watch_map \<Rightarrow> watch_table \<Rightarrow> literal \<Rightarrow> watch_cursor option option" where
  "WatchMap_cursor m ws l = (case m l of
     None \<Rightarrow> Some None
   | Some c \<Rightarrow> Option.bind (node_of ws l c) (\<lambda>n.
       Some (Some \<lparr>cu_literal = l, cu_previous = None, cu_current = n\<rparr>)))"

text \<open>The watches of the current clause; the access is unchecked, its absence undefined.\<close>

definition cursor_watched_literals :: "watch_table \<Rightarrow> watch_cursor \<Rightarrow> watched_literals option" where
  "cursor_watched_literals ws cu =
     Option.bind (slice_get ws (wn_clause_id (cu_current cu))) (\<lambda>x. x)"

definition next_node :: "watch_table \<Rightarrow> watch_cursor \<Rightarrow> watch_node option option" where
  "next_node ws cu = Option.bind (cursor_watched_literals ws cu) (\<lambda>w.
     case arr2_get (wl_next w) (wn_watch_index (cu_current cu)) of
       None \<Rightarrow> Some None
     | Some c \<Rightarrow> Option.bind (node_of ws (cu_literal cu) c) (\<lambda>n. Some (Some n)))"

definition cursor_next :: "watch_table \<Rightarrow> watch_cursor \<Rightarrow> watch_cursor option option" where
  "cursor_next ws cu = Option.bind (next_node ws cu) (\<lambda>n. case n of
     None \<Rightarrow> Some None
   | Some next \<Rightarrow> Some (Some (cu\<lparr>cu_previous := Some (cu_current cu), cu_current := next\<rparr>)))"

definition set_next :: "watch_table \<Rightarrow> watch_node \<Rightarrow> clause_id option \<Rightarrow> watch_table option" where
  "set_next ws n c = Option.bind (slice_get ws (wn_clause_id n)) (\<lambda>x. Option.bind x (\<lambda>w.
     Some (ws[wn_clause_id n := Some (w\<lparr>wl_next := arr2_set (wl_next w) (wn_watch_index n) c\<rparr>)])))"

definition cursor_update ::
  "watch_map \<Rightarrow> watch_table \<Rightarrow> watch_cursor \<Rightarrow> literal \<Rightarrow>
    (watch_cursor option \<times> watch_map \<times> watch_table) option" where
  "cursor_update m ws cu new_watch =
     Option.bind (next_node ws cu) (\<lambda>next.
     let c = wn_clause_id (cu_current cu); i = wn_watch_index (cu_current cu) in
     Option.bind
       (case cu_previous cu of
          Some previous \<Rightarrow> map_option (Pair m) (set_next ws previous (map_option wn_clause_id next))
        | None \<Rightarrow> Some (m(cu_literal cu := map_option wn_clause_id next), ws)) (\<lambda>(m1, ws1).
     Option.bind (slice_get ws1 c) (\<lambda>x. Option.bind x (\<lambda>w.
       let w' = w\<lparr>wl_watched := arr2_set (wl_watched w) i new_watch,
                 wl_next := arr2_set (wl_next w) i (m1 new_watch)\<rparr>
       in Some (map_option (\<lambda>n. cu\<lparr>cu_current := n\<rparr>) next, m1(new_watch \<mapsto> c), ws1[c := Some w'])))))"

section \<open>The lists the pointers form\<close>

definition watches_lit :: "watch_table \<Rightarrow> literal \<Rightarrow> clause_id \<Rightarrow> bool" where
  "watches_lit ws l c \<longleftrightarrow>
     c < length ws \<and> (\<exists>w. ws ! c = Some w \<and> (fst (wl_watched w) = l \<or> snd (wl_watched w) = l))"

definition next_of :: "watch_table \<Rightarrow> literal \<Rightarrow> clause_id \<Rightarrow> clause_id option" where
  "next_of ws l c = (case ws ! c of None \<Rightarrow> None | Some w \<Rightarrow> arr2_get (wl_next w) (watch_index_of w l))"

fun seg :: "watch_table \<Rightarrow> literal \<Rightarrow> clause_id option \<Rightarrow> clause_id list \<Rightarrow> clause_id option \<Rightarrow> bool" where
  "seg ws l p [] q \<longleftrightarrow> p = q"
| "seg ws l p (c # cs) q \<longleftrightarrow> p = Some c \<and> watches_lit ws l c \<and> seg ws l (next_of ws l c) cs q"

text \<open>
  \<open>watch_lists m ws L\<close>: the two watches of a clause differ, and for every literal \<open>l\<close> the
  pointers from its head visit exactly the clauses watching it, once each, in the order \<open>L l\<close>.
\<close>

definition watch_lists :: "watch_map \<Rightarrow> watch_table \<Rightarrow> (literal \<Rightarrow> clause_id list) \<Rightarrow> bool" where
  "watch_lists m ws L \<longleftrightarrow>
     (\<forall>w. Some w \<in> set ws \<longrightarrow> fst (wl_watched w) \<noteq> snd (wl_watched w)) \<and>
     (\<forall>l. seg ws l (m l) (L l) None \<and> distinct (L l) \<and> set (L l) = {c. watches_lit ws l c})"

lemma seg_append: "seg ws l p (xs @ ys) q \<longleftrightarrow> (\<exists>r. seg ws l p xs r \<and> seg ws l r ys q)"
  by (induction xs arbitrary: p) auto

lemma seg_frame:
  "seg ws l p cs q \<Longrightarrow>
    (\<And>c. c \<in> set cs \<Longrightarrow> watches_lit ws l c \<Longrightarrow> watches_lit ws' l c \<and> next_of ws' l c = next_of ws l c) \<Longrightarrow>
    seg ws' l p cs q"
  by (induction cs arbitrary: p) auto

lemma seg_head: "seg ws l p cs None \<Longrightarrow> p = (case cs of [] \<Rightarrow> None | c # _ \<Rightarrow> Some c)"
  by (cases cs) auto

lemma watch_listsD [inv_dests]:
  assumes "watch_lists m ws L"
  shows "c < length ws \<Longrightarrow> ws ! c = Some w \<Longrightarrow> fst (wl_watched w) \<noteq> snd (wl_watched w)"
    "seg ws l (m l) (L l) None" "distinct (L l)" "set (L l) = {c. watches_lit ws l c}"
  using assms by (auto simp: watch_lists_def dest: nth_mem)

lemma watch_lists_empty [inv_intros]: "watch_lists Map.empty [] (\<lambda>_. [])"
  by (simp add: watch_lists_def watches_lit_def)

lemma watch_index_of_simps:
  "watch_index_of w (arr2_get (wl_watched w) 0) = 0"
  "fst (wl_watched w) \<noteq> snd (wl_watched w) \<Longrightarrow> watch_index_of w (arr2_get (wl_watched w) 1) = 1"
  "watch_index_of w l < 2"
  by (auto simp: watch_index_of_def arr2_get_def)

lemma watch_index_of_get:
  "fst (wl_watched w) = l \<or> snd (wl_watched w) = l \<Longrightarrow> arr2_get (wl_watched w) (watch_index_of w l) = l"
  by (auto simp: watch_index_of_def arr2_get_def)

section \<open>Adding clauses\<close>

text \<open>A clause without watches leaves the lists alone.\<close>

lemma watches_lit_snoc:
  "watches_lit (ws @ [x]) l c \<longleftrightarrow>
    watches_lit ws l c \<or>
    c = length ws \<and> (\<exists>w. x = Some w \<and> (fst (wl_watched w) = l \<or> snd (wl_watched w) = l))"
  by (auto simp: watches_lit_def nth_append)

lemma next_of_snoc: "c < length ws \<Longrightarrow> next_of (ws @ [x]) l c = next_of ws l c"
  by (simp add: next_of_def nth_append)

lemma seg_snoc: "seg ws l p cs q \<Longrightarrow> seg (ws @ [x]) l p cs q"
  by (rule seg_frame, assumption) (auto simp: next_of_snoc watches_lit_def nth_append)

lemma watch_lists_snoc_None [inv_intros]:
  assumes "watch_lists m ws L"
  shows "watch_lists m (ws @ [None]) L"
  using assms unfolding watch_lists_def by (auto simp: seg_snoc watches_lit_snoc)

lemma start_watching_eq:
  assumes "fst (wl_watched w) \<noteq> snd (wl_watched w)"
  shows "start_watching m w c =
    (m(fst (wl_watched w) \<mapsto> c, snd (wl_watched w) \<mapsto> c),
     w\<lparr>wl_next := (m (fst (wl_watched w)), m (snd (wl_watched w)))\<rparr>)"
  using assms
  by (auto simp: start_watching_def start_watching_at_def arr2_get_def arr2_set_def Let_def)

lemma start_watching_lists [inv_intros]:
  assumes lists: "watch_lists m ws L" and diff: "fst (wl_watched w) \<noteq> snd (wl_watched w)"
    and sw: "start_watching m w (length ws) = (m', w')"
  shows "watch_lists m' (ws @ [Some w'])
    (L(fst (wl_watched w) := length ws # L (fst (wl_watched w)),
       snd (wl_watched w) := length ws # L (snd (wl_watched w))))"
proof -
  let ?c = "length ws" and ?a = "fst (wl_watched w)" and ?b = "snd (wl_watched w)"
  let ?ws = "ws @ [Some w']"
  have w': "w' = w\<lparr>wl_next := (m ?a, m ?b)\<rparr>" and m': "m' = m(?a \<mapsto> ?c, ?b \<mapsto> ?c)"
    using sw start_watching_eq [OF diff, of m ?c] by simp_all
  have c: "?c \<notin> set (L l)" for l
    using watch_listsD(4) [OF lists, of l] by (auto simp: watches_lit_def)
  have new: "watches_lit ?ws ?a ?c" "watches_lit ?ws ?b ?c"
    "next_of ?ws ?a ?c = m ?a" "next_of ?ws ?b ?c = m ?b"
    using diff by (auto simp: watches_lit_def next_of_def w' watch_index_of_def arr2_get_def)
  have old: "seg ?ws l (m l) (L l) None" for l
    using watch_listsD(2) [OF lists] by (rule seg_snoc)
  have sets: "{c. watches_lit ?ws l c} =
      (if l = ?a \<or> l = ?b then insert ?c (set (L l)) else set (L l))" for l
    by (auto simp: watches_lit_snoc w' watch_listsD(4) [OF lists])
  have "fst (wl_watched v) \<noteq> snd (wl_watched v)" if "Some v \<in> set ?ws" for v
    using that diff lists by (auto simp: w' watch_lists_def)
  then show ?thesis
    unfolding watch_lists_def sets
    using new old c watch_listsD(3) [OF lists] diff by (auto simp: m')
qed

section \<open>Walking\<close>

text \<open>The cursor stands on \<open>c\<close>; \<open>pre\<close> are the nodes kept behind it, \<open>post\<close> those ahead.\<close>

definition cursor_at ::
  "watch_table \<Rightarrow> (literal \<Rightarrow> clause_id list) \<Rightarrow> watch_cursor \<Rightarrow> clause_id list \<Rightarrow> clause_id \<Rightarrow> clause_id list \<Rightarrow> bool" where
  "cursor_at ws L cu pre c post \<longleftrightarrow>
     L (cu_literal cu) = pre @ c # post \<and>
     Some (cu_current cu) = node_of ws (cu_literal cu) c \<and>
     cu_previous cu = (if pre = [] then None else node_of ws (cu_literal cu) (last pre))"

lemma node_of_watches:
  "watches_lit ws l c \<Longrightarrow>
    \<exists>w. c < length ws \<and> ws ! c = Some w \<and> node_of ws l c = Some \<lparr>wn_clause_id = c, wn_watch_index = watch_index_of w l\<rparr>"
  by (auto simp: watches_lit_def node_of_def slice_get_def)

lemma cursor_at_watches:
  assumes "watch_lists m ws L" "cursor_at ws L cu pre c post" "d \<in> set (pre @ c # post)"
  shows "watches_lit ws (cu_literal cu) d"
  using watch_listsD(4) [OF assms(1), of "cu_literal cu"] assms(2,3) by (auto simp: cursor_at_def)

lemma WatchMap_cursor_eq:
  assumes "watch_lists m ws L"
  shows "case L l of
      [] \<Rightarrow> WatchMap_cursor m ws l = Some None
    | c # cs \<Rightarrow> \<exists>cu. WatchMap_cursor m ws l = Some (Some cu) \<and> cu_literal cu = l \<and> cursor_at ws L cu [] c cs"
proof (cases "L l")
  case Nil
  with watch_listsD(2) [OF assms, of l] show ?thesis by (simp add: WatchMap_cursor_def)
next
  case (Cons c cs)
  then have "m l = Some c" "watches_lit ws l c" using watch_listsD(2) [OF assms, of l] by simp_all
  with Cons node_of_watches [of ws l c] show ?thesis
    by (auto simp: WatchMap_cursor_def cursor_at_def)
qed

text \<open>The current clause, its watches and the index of the walked literal in them.\<close>

lemma cursor_current:
  assumes "watch_lists m ws L" "cursor_at ws L cu pre c post"
  obtains w where "c < length ws" "ws ! c = Some w" "cursor_watched_literals ws cu = Some w"
    "wn_clause_id (cu_current cu) = c" "wn_watch_index (cu_current cu) = watch_index_of w (cu_literal cu)"
    "arr2_get (wl_watched w) (wn_watch_index (cu_current cu)) = cu_literal cu"
    "fst (wl_watched w) \<noteq> snd (wl_watched w)"
proof -
  have wl: "watches_lit ws (cu_literal cu) c"
    by (rule cursor_at_watches [OF assms]) simp
  from node_of_watches [OF this] obtain w where w: "c < length ws" "ws ! c = Some w"
    "cu_current cu = \<lparr>wn_clause_id = c, wn_watch_index = watch_index_of w (cu_literal cu)\<rparr>"
    using assms(2) by (auto simp: cursor_at_def)
  moreover have "fst (wl_watched w) = cu_literal cu \<or> snd (wl_watched w) = cu_literal cu"
    using wl w by (simp add: watches_lit_def)
  ultimately show thesis
    using watch_listsD(1) [OF assms(1) w(1,2)]
    by (intro that [of w]) (auto simp: cursor_watched_literals_def watch_index_of_get slice_get_def)
qed

lemma next_node_eq:
  assumes "watch_lists m ws L" "cursor_at ws L cu pre c post"
  shows "next_node ws cu = Some (case post of [] \<Rightarrow> None | d # _ \<Rightarrow> node_of ws (cu_literal cu) d)"
    and "next_of ws (cu_literal cu) c = (case post of [] \<Rightarrow> None | d # _ \<Rightarrow> Some d)"
proof -
  let ?l = "cu_literal cu"
  obtain w where w: "ws ! c = Some w" "cursor_watched_literals ws cu = Some w"
    "wn_watch_index (cu_current cu) = watch_index_of w ?l"
    by (rule cursor_current [OF assms])
  have "seg ws ?l (m ?l) (pre @ c # post) None"
    using watch_listsD(2) [OF assms(1), of ?l] assms(2) by (simp add: cursor_at_def)
  then have "seg ws ?l (next_of ws ?l c) post None" by (auto simp: seg_append)
  from seg_head [OF this] show n: "next_of ws ?l c = (case post of [] \<Rightarrow> None | d # _ \<Rightarrow> Some d)" .
  show "next_node ws cu = Some (case post of [] \<Rightarrow> None | d # _ \<Rightarrow> node_of ws ?l d)"
  proof (cases post)
    case Nil
    with w n show ?thesis by (simp add: next_node_def next_of_def)
  next
    case (Cons d ds)
    have "watches_lit ws ?l d" using cursor_at_watches [OF assms] Cons by simp
    with node_of_watches [of ws ?l d] w n Cons show ?thesis
      by (auto simp: next_node_def next_of_def)
  qed
qed

lemma cursor_next_eq:
  assumes "watch_lists m ws L" "cursor_at ws L cu pre c post"
  shows "case post of
      [] \<Rightarrow> cursor_next ws cu = Some None
    | d # ds \<Rightarrow> \<exists>cu'. cursor_next ws cu = Some (Some cu') \<and> cu_literal cu' = cu_literal cu \<and>
        cursor_at ws L cu' (pre @ [c]) d ds"
proof (cases post)
  case Nil
  with next_node_eq(1) [OF assms] show ?thesis by (simp add: cursor_next_def)
next
  case (Cons d ds)
  have "watches_lit ws (cu_literal cu) d" using cursor_at_watches [OF assms] Cons by simp
  with node_of_watches [of ws "cu_literal cu" d] next_node_eq(1) [OF assms] Cons assms(2)
  show ?thesis by (auto simp: cursor_next_def cursor_at_def)
qed

section \<open>Moving a watch\<close>

text \<open>The watched literals of a table, which pointer updates leave alone.\<close>

definition watched_of :: "watch_table \<Rightarrow> clause_id \<Rightarrow> literal arr2 option" where
  "watched_of ws c = Option.bind (slice_get ws c) (map_option wl_watched)"

lemma watched_of_nth: "c < length ws \<Longrightarrow> watched_of ws c = map_option wl_watched (ws ! c)"
  by (simp add: watched_of_def slice_get_def)

lemma watches_lit_watched_of:
  "watches_lit ws l c \<longleftrightarrow> (\<exists>a b. watched_of ws c = Some (a, b) \<and> (a = l \<or> b = l))"
  by (auto simp: watches_lit_def watched_of_def slice_get_def) (metis prod.collapse)+

lemma set_next_effect:
  assumes "watches_lit ws l q" "node_of ws l q = Some n"
    and diff: "\<And>w. ws ! q = Some w \<Longrightarrow> fst (wl_watched w) \<noteq> snd (wl_watched w)"
  obtains ws' where "set_next ws n x = Some ws'" "length ws' = length ws"
    "watched_of ws' = watched_of ws" "\<And>d. d \<noteq> q \<Longrightarrow> ws' ! d = ws ! d"
    "\<And>k d. watches_lit ws k d \<Longrightarrow> next_of ws' k d = (if k = l \<and> d = q then x else next_of ws k d)"
proof -
  from node_of_watches [OF assms(1)] assms(2) obtain w where w: "q < length ws" "ws ! q = Some w"
    "n = \<lparr>wn_clause_id = q, wn_watch_index = watch_index_of w l\<rparr>" by auto
  let ?w = "w\<lparr>wl_next := arr2_set (wl_next w) (watch_index_of w l) x\<rparr>"
  let ?ws = "ws[q := Some ?w]"
  have l: "fst (wl_watched w) = l \<or> snd (wl_watched w) = l"
    using assms(1) w(2) by (simp add: watches_lit_def)
  have same: "watched_of ?ws = watched_of ws"
    using w by (auto simp: watched_of_def slice_get_def nth_list_update fun_eq_iff)
  have "next_of ?ws k d = (if k = l \<and> d = q then x else next_of ws k d)" if "watches_lit ws k d" for k d
  proof (cases "d = q")
    case True
    with that w have "fst (wl_watched w) = k \<or> snd (wl_watched w) = k" by (simp add: watches_lit_def)
    with True w l diff [OF w(2)] show ?thesis
      by (auto simp: next_of_def watch_index_of_def arr2_get_def arr2_set_def)
  qed (use w in \<open>simp add: next_of_def\<close>)
  with w same show thesis
    by (intro that [of ?ws]) (auto simp: set_next_def slice_get_def)
qed

lemma unlink_effect:
  assumes lists: "watch_lists m ws L" and at: "cursor_at ws L cu pre c post"
    and n: "n = (case post of [] \<Rightarrow> None | d # _ \<Rightarrow> Some d)"
  obtains m1 ws1 where
    "(case cu_previous cu of
        Some previous \<Rightarrow> map_option (Pair m) (set_next ws previous n)
      | None \<Rightarrow> Some (m(cu_literal cu := n), ws)) = Some (m1, ws1)"
    "length ws1 = length ws" "watched_of ws1 = watched_of ws" "ws1 ! c = ws ! c"
    "seg ws1 (cu_literal cu) (m1 (cu_literal cu)) (pre @ post) None"
    "\<And>k. k \<noteq> cu_literal cu \<Longrightarrow> seg ws1 k (m1 k) (L k) None"
proof -
  let ?l = "cu_literal cu"
  have L: "L ?l = pre @ c # post" and dist: "distinct (pre @ c # post)"
    using at watch_listsD(3) [OF lists, of ?l] by (simp_all add: cursor_at_def)
  have segl: "seg ws ?l (m ?l) (pre @ c # post) None"
    using watch_listsD(2) [OF lists, of ?l] L by simp
  have nc: "next_of ws ?l c = n" using next_node_eq(2) [OF lists at] n by simp
  show thesis
  proof (cases "pre = []")
    case True
    with segl nc have "seg ws ?l n post None" by simp
    moreover have "cu_previous cu = None" using at True by (simp add: cursor_at_def)
    ultimately show thesis
      using True watch_listsD(2) [OF lists] by (intro that [of "m(?l := n)" ws]) simp_all
  next
    case False
    then obtain xs q where pre: "pre = xs @ [q]" by (metis append_butlast_last_id)
    have q: "watches_lit ws ?l q" using cursor_at_watches [OF lists at] pre by simp
    then obtain nd where nd: "node_of ws ?l q = Some nd" using node_of_watches by blast
    have "fst (wl_watched w) \<noteq> snd (wl_watched w)" if "ws ! q = Some w" for w
      using watch_listsD(1) [OF lists _ that] q by (simp add: watches_lit_def)
    from set_next_effect [OF q nd this, of n] obtain ws1 where ws1:
      "set_next ws nd n = Some ws1" "length ws1 = length ws" "watched_of ws1 = watched_of ws"
      "\<And>d. d \<noteq> q \<Longrightarrow> ws1 ! d = ws ! d"
      "\<And>k d. watches_lit ws k d \<Longrightarrow> next_of ws1 k d = (if k = ?l \<and> d = q then n else next_of ws k d)"
      by metis
    have keep: "watches_lit ws1 k d \<longleftrightarrow> watches_lit ws k d" for k d
      using ws1(3) by (simp add: watches_lit_watched_of)
    have frame: "seg ws1 k p cs r" if "seg ws k p cs r" "k \<noteq> ?l \<or> q \<notin> set cs" for k p cs r
      using that by (intro seg_frame [OF that(1)]) (auto simp: keep ws1(5))
    from segl pre obtain r where r: "seg ws ?l (m ?l) xs (Some q)" "seg ws ?l (next_of ws ?l c) post None"
      by (auto simp: seg_append)
    have "seg ws1 ?l (m ?l) xs (Some q)" "seg ws1 ?l n post None"
      using frame [OF r(1)] frame [OF r(2)] dist pre nc by auto
    then have "seg ws1 ?l (m ?l) (pre @ post) None"
      using pre q by (auto simp: seg_append keep ws1(5))
    moreover have "cu_previous cu = Some nd" using at pre nd by (simp add: cursor_at_def)
    ultimately show thesis
      using ws1 dist pre frame watch_listsD(2) [OF lists]
      by (intro that [of m ws1]) auto
  qed
qed

lemma relink_effect:
  assumes w: "c < length ws" "ws ! c = Some w" and diff: "fst (wl_watched w) \<noteq> snd (wl_watched w)"
    and l: "arr2_get (wl_watched w) i = l" "i < 2" and new: "new \<noteq> l" "new \<noteq> arr2_get (wl_watched w) (1 - i)"
    and w': "w' = w\<lparr>wl_watched := arr2_set (wl_watched w) i new, wl_next := arr2_set (wl_next w) i x\<rparr>"
  shows "watches_lit (ws[c := Some w']) k d \<longleftrightarrow>
      (if d = c \<and> k = l then False else if d = c \<and> k = new then True else watches_lit ws k d)"
    "next_of (ws[c := Some w']) new c = x"
    "watches_lit ws k d \<Longrightarrow> d \<noteq> c \<or> k \<noteq> l \<Longrightarrow> next_of (ws[c := Some w']) k d = next_of ws k d"
proof -
  obtain a b where ab: "wl_watched w = (a, b)" by fastforce
  have i: "i = 0 \<or> i = 1" using l(2) by auto
  show "watches_lit (ws[c := Some w']) k d \<longleftrightarrow>
      (if d = c \<and> k = l then False else if d = c \<and> k = new then True else watches_lit ws k d)"
    using assms ab i by (auto simp: watches_lit_def nth_list_update)
  show "next_of (ws[c := Some w']) new c = x"
    using assms ab i by (auto simp: next_of_def watch_index_of_def arr2_get_def arr2_set_def)
  assume k: "watches_lit ws k d" "d \<noteq> c \<or> k \<noteq> l"
  show "next_of (ws[c := Some w']) k d = next_of ws k d"
  proof (cases "d = c")
    case True
    with k w ab have "k = a \<or> k = b" by (auto simp: watches_lit_def)
    with True k assms ab i show ?thesis
      by (auto simp: next_of_def watch_index_of_def arr2_get_def arr2_set_def)
  qed (simp add: next_of_def)
qed

lemma cursor_update_lists:
  assumes lists: "watch_lists m ws L" and at: "cursor_at ws L cu pre c post"
    and w: "ws ! c = Some w" and i: "i = wn_watch_index (cu_current cu)"
    and new: "new \<noteq> cu_literal cu" "new \<noteq> arr2_get (wl_watched w) (1 - i)"
  obtains r m' ws' L' where "cursor_update m ws cu new = Some (r, m', ws')"
    "L' = L(cu_literal cu := pre @ post, new := c # L new)" "watch_lists m' ws' L'"
    "watched_of ws' = (watched_of ws)(c \<mapsto> arr2_set (wl_watched w) i new)"
    "length ws' = length ws"
    "case post of [] \<Rightarrow> r = None
     | d # ds \<Rightarrow> \<exists>cu'. r = Some cu' \<and> cu_literal cu' = cu_literal cu \<and> cursor_at ws' L' cu' pre d ds"
proof -
  let ?l = "cu_literal cu"
  define n where "n = (case post of [] \<Rightarrow> None | d # _ \<Rightarrow> Some d)"
  obtain wc: "c < length ws" "wn_clause_id (cu_current cu) = c" "arr2_get (wl_watched w) i = ?l"
    "fst (wl_watched w) \<noteq> snd (wl_watched w)" "i < 2"
    using cursor_current [OF lists at] w i watch_index_of_simps(3) by (metis option.inject)
  have L: "L ?l = pre @ c # post" and dist: "distinct (pre @ c # post)"
    using at watch_listsD(3) [OF lists, of ?l] by (simp_all add: cursor_at_def)
  obtain m1 ws1 where u:
    "(case cu_previous cu of
        Some previous \<Rightarrow> map_option (Pair m) (set_next ws previous n)
      | None \<Rightarrow> Some (m(?l := n), ws)) = Some (m1, ws1)"
    "length ws1 = length ws" "watched_of ws1 = watched_of ws" "ws1 ! c = ws ! c"
    "seg ws1 ?l (m1 ?l) (pre @ post) None" "\<And>k. k \<noteq> ?l \<Longrightarrow> seg ws1 k (m1 k) (L k) None"
    by (rule unlink_effect [OF lists at n_def]) (rule that)
  define w' where "w' = w\<lparr>wl_watched := arr2_set (wl_watched w) i new, wl_next := arr2_set (wl_next w) i (m1 new)\<rparr>"
  let ?ws = "ws1[c := Some w']" and ?L = "L(?l := pre @ post, new := c # L new)"
  have keep: "watches_lit ws1 k d \<longleftrightarrow> watches_lit ws k d" for k d
    using u(3) by (simp add: watches_lit_watched_of)
  note re = relink_effect [of c ws1 w i ?l new w' "m1 new", OF _ _ wc(4,3,5) new w'_def,
      unfolded u(2,4), OF wc(1) w, unfolded keep]
  have notin: "c \<notin> set (L new)"
    using watch_listsD(4) [OF lists, of new] new wc w
    by (auto simp: watches_lit_def arr2_get_def split: if_splits)
  have frame: "seg ?ws k p cs q" if "seg ws1 k p cs q" "k \<noteq> ?l \<or> c \<notin> set cs" for k p cs q
    using that by (intro seg_frame [OF that(1)]) (auto simp: re keep)
  have segs: "seg ?ws k ((m1(new \<mapsto> c)) k) (?L k) None" for k
    using frame [OF u(5)] frame [OF u(6), of new] frame [OF u(6), of k] dist new re
    by auto
  have sets: "distinct (?L k) \<and> set (?L k) = {d. watches_lit ?ws k d}" for k
    using watch_listsD(3,4) [OF lists, of k] watch_listsD(4) [OF lists, of ?l] L dist notin new
    by (auto simp: re split: if_splits)
  have wo: "watched_of ?ws = (watched_of ws)(c \<mapsto> arr2_set (wl_watched w) i new)"
    using u(2,3) wc(1) by (auto simp: watched_of_def slice_get_def w'_def nth_list_update fun_eq_iff
        split: if_splits)
  have "fst (wl_watched v) \<noteq> snd (wl_watched v)" if "Some v \<in> set ?ws" for v
  proof -
    from that obtain d where d: "d < length ws" "?ws ! d = Some v"
      using u(2) by (metis in_set_conv_nth length_list_update)
    show ?thesis
    proof (cases "d = c")
      case True
      then have "v = w'" using d u(2) by simp
      then show ?thesis using new wc(3-5) by (auto simp: w'_def arr2_get_def arr2_set_def less_2_cases_iff)
    next
      case False
      then have "watched_of ws d = Some (wl_watched v)"
        using arg_cong [OF wo, of "\<lambda>f. f d"] d u(2) by (simp add: watched_of_def slice_get_def)
      then show ?thesis using watch_listsD(1) [OF lists d(1)] d(1) by (auto simp: watched_of_nth)
    qed
  qed
  then have lists': "watch_lists (m1(new \<mapsto> c)) ?ws ?L"
    unfolding watch_lists_def using segs sets by blast
  define nxt where "nxt = (case post of [] \<Rightarrow> None | d # _ \<Rightarrow> node_of ws ?l d)"
  have nxt: "next_node ws cu = Some nxt" "map_option wn_clause_id nxt = n"
  proof -
    show "next_node ws cu = Some nxt" using next_node_eq(1) [OF lists at] by (simp add: nxt_def)
    have "\<exists>nd. node_of ws ?l d = Some nd \<and> wn_clause_id nd = d" if "post = d # ds" for d ds
      using node_of_watches [OF cursor_at_watches [OF lists at, of d]] that by auto
    then show "map_option wn_clause_id nxt = n"
      by (auto simp: nxt_def n_def split: list.split)
  qed
  have upd: "cursor_update m ws cu new =
      Some (map_option (\<lambda>nd. cu\<lparr>cu_current := nd\<rparr>) nxt, m1(new \<mapsto> c), ?ws)"
    using u(2,4) nxt(1) wc(1,2) w i
    by (simp add: cursor_update_def Let_def w'_def slice_get_def u(1) [folded nxt(2)])
  have node: "node_of ?ws ?l d = node_of ws ?l d" if "d \<noteq> c" "watches_lit ws ?l d" for d
  proof -
    have "watched_of ?ws d = watched_of ws d" using wo that(1) by simp
    then show ?thesis
      using that u(2)
      by (auto simp: node_of_def watched_of_def slice_get_def watches_lit_def watch_index_of_def)
  qed
  have "cursor_at ?ws ?L (cu\<lparr>cu_current := nd\<rparr>) pre d ds"
    if "post = d # ds" "node_of ws ?l d = Some nd" for d ds nd
  proof -
    have "d \<noteq> c" "watches_lit ws ?l d" "pre \<noteq> [] \<Longrightarrow> last pre \<noteq> c \<and> watches_lit ws ?l (last pre)"
      using cursor_at_watches [OF lists at] dist that(1) by auto
    with that new at node [of d] node [of "last pre"] show ?thesis
      by (simp add: cursor_at_def)
  qed
  then have "case post of [] \<Rightarrow> map_option (\<lambda>nd. cu\<lparr>cu_current := nd\<rparr>) nxt = None
     | d # ds \<Rightarrow> \<exists>cu'. map_option (\<lambda>nd. cu\<lparr>cu_current := nd\<rparr>) nxt = Some cu' \<and>
         cu_literal cu' = ?l \<and> cursor_at ?ws ?L cu' pre d ds"
    using nxt(2) by (auto simp: nxt_def n_def split: list.splits)
  with upd lists' wo u(2) show thesis by (intro that [OF upd refl]) simp_all
qed

section \<open>Properties\<close>

text \<open>Property C12. A newly added clause is watched by exactly the right lists. Pushing a clause
  with two different watched literals and calling \<open>start_watching\<close> puts it at the front of
  the list of both literals and changes no other list; every list still visits each clause
  watching its literal exactly once and ends.\<close>

theorem start_watching_extends_lists:
  assumes "watch_lists m ws L" "fst (wl_watched w) \<noteq> snd (wl_watched w)"
    "start_watching m w (length ws) = (m', w')"
  shows "wl_watched w' = wl_watched w \<and> watch_lists m' (ws @ [Some w'])
    (L(fst (wl_watched w) := length ws # L (fst (wl_watched w)),
       snd (wl_watched w) := length ws # L (snd (wl_watched w))))"
  using start_watching_lists [OF assms] start_watching_eq [OF assms(2)] assms(3) by auto

text \<open>Clause 0 watches \<open>\<not> 1\<close> and \<open>2\<close>.\<close>

definition example_watch :: watched_literals where
  "example_watch = \<lparr>wl_watched = (negative 1, positive 2), wl_next = (None, None)\<rparr>"

definition example_heads :: watch_map where
  "example_heads = [negative 1 \<mapsto> 0, positive 2 \<mapsto> 0]"

definition example_lists :: "literal \<Rightarrow> clause_id list" where
  "example_lists = (\<lambda>_. [])(negative 1 := [0], positive 2 := [0])"

lemma example_start: "start_watching Map.empty example_watch (length []) = (example_heads, example_watch)"
  by (simp add: start_watching_eq example_watch_def example_heads_def)

theorem start_watching_extends_lists_witness:
  "watch_lists example_heads [Some example_watch] example_lists"
  using start_watching_extends_lists [OF watch_lists_empty _ example_start]
  by (simp add: example_watch_def example_lists_def)

text \<open>Property C9. Moving a watch keeps all watch lists intact. When the cursor stands on a
  clause of the list of its literal and the watch is moved to a literal that the clause does
  not watch yet, the update never panics: the clause leaves the walked list and is put at the
  front of the new literal's list, no other list changes, only the moved watch of this one
  clause changes, and the cursor continues with the next clause of the walked list, or ends
  there.\<close>

theorem cursor_update_moves_watch:
  assumes "watch_lists m ws L" "cursor_at ws L cu pre c post" "ws ! c = Some w"
    "new \<noteq> cu_literal cu" "new \<noteq> arr2_get (wl_watched w) (1 - wn_watch_index (cu_current cu))"
  shows "\<exists>r m' ws' L'. cursor_update m ws cu new = Some (r, m', ws') \<and>
    L' = L(cu_literal cu := pre @ post, new := c # L new) \<and> watch_lists m' ws' L' \<and>
    watched_of ws' =
      (watched_of ws)(c \<mapsto> arr2_set (wl_watched w) (wn_watch_index (cu_current cu)) new) \<and>
    (case post of [] \<Rightarrow> r = None
     | d # ds \<Rightarrow> \<exists>cu'. r = Some cu' \<and> cu_literal cu' = cu_literal cu \<and> cursor_at ws' L' cu' pre d ds)"
  by (rule cursor_update_lists [OF assms(1-3) refl assms(4,5)]) blast

lemma example_lists_ok: "watch_lists example_heads [Some example_watch] example_lists"
  using start_watching_lists [OF watch_lists_empty _ example_start]
  by (simp add: example_watch_def example_lists_def)

definition example_cursor :: watch_cursor where
  "example_cursor = \<lparr>cu_literal = negative 1, cu_previous = None,
     cu_current = \<lparr>wn_clause_id = 0, wn_watch_index = 0\<rparr>\<rparr>"

lemma example_cursor_at: "cursor_at [Some example_watch] example_lists example_cursor [] 0 []"
  by (simp add: cursor_at_def example_cursor_def example_lists_def node_of_def slice_get_def
      watch_index_of_def example_watch_def)

theorem cursor_update_moves_watch_witness:
  "\<exists>m' ws'. cursor_update example_heads [Some example_watch] example_cursor (positive 3) = Some (None, m', ws') \<and>
     watched_of ws' 0 = Some (positive 3, positive 2)"
proof -
  have w: "[Some example_watch] ! 0 = Some example_watch" by simp
  have "\<exists>r m' ws' L'. cursor_update example_heads [Some example_watch] example_cursor (positive 3) = Some (r, m', ws') \<and>
    L' = example_lists(cu_literal example_cursor := [] @ [], positive 3 := 0 # example_lists (positive 3)) \<and>
    watch_lists m' ws' L' \<and>
    watched_of ws' = (watched_of [Some example_watch])
      (0 \<mapsto> arr2_set (wl_watched example_watch) (wn_watch_index (cu_current example_cursor)) (positive 3)) \<and>
    (case [] of [] \<Rightarrow> r = None
     | d # ds \<Rightarrow> \<exists>cu'. r = Some cu' \<and> cu_literal cu' = cu_literal example_cursor \<and> cursor_at ws' L' cu' [] d ds)"
    by (rule cursor_update_moves_watch [OF example_lists_ok example_cursor_at w])
      (simp_all add: example_cursor_def example_watch_def)
  then show ?thesis by (auto simp: example_watch_def example_cursor_def)
qed

end
