(* ===== verification/Binary_Encoding.thy ===== *)
theory Binary_Encoding
  imports Prelude
begin

unbundle bit_operations_syntax

text \<open>
  The at-most-one encoding, \<open>src/solver/binary_encoding.rs\<close>: every tracked variable implies
  the binary digits of its index, held by helper variables. The tracker allocates clauses
  and helpers through two callbacks; the locale \<open>amo_backend\<close> is what it needs of them, and
  the encoding is correct for every such pair: the clauses allow at most one tracked variable
  to be true, and forbid nothing else.
\<close>

section \<open>The tracker\<close>

record 'v at_most_once_tracker =
  amo_variables :: "'v list"
  amo_helpers :: "'v list"

definition AtMostOnceTracker_default :: "'v at_most_once_tracker" where
  "AtMostOnceTracker_default = \<lparr>amo_variables = [], amo_helpers = []\<rparr>"

text \<open>The clauses for one helper and the variables tracked so far.\<close>

definition helper_clauses ::
  "('v \<Rightarrow> 'v \<Rightarrow> bool \<Rightarrow> 's \<Rightarrow> 's) \<Rightarrow> nat \<Rightarrow> 'v \<Rightarrow> 'v list \<Rightarrow> 's \<Rightarrow> 's" where
  "helper_clauses alloc_clause bit_idx helper_var vars s =
     (let mask = push_bit bit_idx 1
      in foldl (\<lambda>s (idx, var). alloc_clause var helper_var (idx AND mask = mask) s) s (enumerate 0 vars))"

text \<open>The loop \<open>while variables.len() > (1 << helpers.len()) - 1\<close>.\<close>

function grow_helpers ::
  "('v \<Rightarrow> 'v \<Rightarrow> bool \<Rightarrow> 's \<Rightarrow> 's) \<Rightarrow> ('s \<Rightarrow> 'v \<times> 's) \<Rightarrow> 'v at_most_once_tracker \<Rightarrow> 's \<Rightarrow>
    'v at_most_once_tracker \<times> 's" where
  "grow_helpers alloc_clause alloc_var t s =
     (if length (amo_variables t) > push_bit (length (amo_helpers t)) 1 - 1
      then let (helper_var, s1) = alloc_var s;
               bit_idx = length (amo_helpers t);
               t1 = t\<lparr>amo_helpers := amo_helpers t @ [helper_var]\<rparr>
           in grow_helpers alloc_clause alloc_var t1
                (helper_clauses alloc_clause bit_idx helper_var (amo_variables t1) s1)
      else (t, s))"
  by pat_completeness auto

termination
proof (relation "measure (\<lambda>(alloc_clause, alloc_var, t, s). length (amo_variables t) - length (amo_helpers t))")
  fix alloc_clause :: "'v \<Rightarrow> 'v \<Rightarrow> bool \<Rightarrow> 's \<Rightarrow> 's" and alloc_var :: "'s \<Rightarrow> 'v \<times> 's" and t s
    and x helper_var s1 bit_idx and t1 :: "'v at_most_once_tracker"
  assume "push_bit (length (amo_helpers t)) 1 - 1 < length (amo_variables t)"
    and t1: "t1 = t\<lparr>amo_helpers := amo_helpers t @ [helper_var]\<rparr>"
  then have "2 ^ length (amo_helpers t) \<le> length (amo_variables t)" by (simp add: push_bit_eq_mult)
  with less_exp [of "length (amo_helpers t)"] have "length (amo_helpers t) < length (amo_variables t)"
    by (rule less_le_trans)
  then show "((alloc_clause, alloc_var, t1, helper_clauses alloc_clause bit_idx helper_var (amo_variables t1) s1),
      alloc_clause, alloc_var, t, s)
    \<in> measure (\<lambda>(alloc_clause, alloc_var, t, s). length (amo_variables t) - length (amo_helpers t))"
    using t1 by simp
qed simp

declare grow_helpers.simps [simp del]

definition amo_add ::
  "('v \<Rightarrow> 'v \<Rightarrow> bool \<Rightarrow> 's \<Rightarrow> 's) \<Rightarrow> ('s \<Rightarrow> 'v \<times> 's) \<Rightarrow> 'v \<Rightarrow> 'v at_most_once_tracker \<Rightarrow> 's \<Rightarrow>
    bool \<times> 'v at_most_once_tracker \<times> 's" where
  "amo_add alloc_clause alloc_var v t s =
     (if v \<in> set (amo_variables t) then (False, t, s)
      else if amo_variables t = [] then (True, t\<lparr>amo_variables := [v]\<rparr>, s)
      else let (t1, s1) = grow_helpers alloc_clause alloc_var t s;
               var_idx = length (amo_variables t1);
               t2 = t1\<lparr>amo_variables := amo_variables t1 @ [v]\<rparr>;
               s2 = foldl (\<lambda>s (bit_idx, helper_var).
                      alloc_clause v helper_var (drop_bit bit_idx var_idx AND 1 = 1) s)
                    s1 (enumerate 0 (amo_helpers t2))
           in (True, t2, s2))"

section \<open>The clauses of a tracker\<close>

text \<open>\<open>(a, h, p)\<close>: the clause "not \<open>a\<close>, or \<open>h\<close> with sign \<open>p\<close>".\<close>

definition amo_clauses :: "'v at_most_once_tracker \<Rightarrow> ('v \<times> 'v \<times> bool) set" where
  "amo_clauses t = {(amo_variables t ! i, amo_helpers t ! b, bit i b) |i b.
     i < length (amo_variables t) \<and> b < length (amo_helpers t)}"

definition amo_inv :: "'v at_most_once_tracker \<Rightarrow> bool" where
  "amo_inv t \<longleftrightarrow> distinct (amo_variables t) \<and> distinct (amo_helpers t) \<and>
     set (amo_variables t) \<inter> set (amo_helpers t) = {} \<and>
     length (amo_variables t) \<le> 2 ^ length (amo_helpers t) \<and>
     (amo_helpers t \<noteq> [] \<longrightarrow> 2 ^ (length (amo_helpers t) - 1) < length (amo_variables t))"

definition satisfies_amo :: "('v \<Rightarrow> bool) \<Rightarrow> ('v \<times> 'v \<times> bool) set \<Rightarrow> bool" where
  "satisfies_amo M C \<longleftrightarrow> (\<forall>(a, h, p) \<in> C. M a \<longrightarrow> M h = p)"

lemma amo_clauses_add_helper:
  "amo_clauses (t\<lparr>amo_helpers := amo_helpers t @ [h]\<rparr>) =
    amo_clauses t \<union> {(amo_variables t ! i, h, bit i (length (amo_helpers t))) |i. i < length (amo_variables t)}"
    (is "?L = ?R")
proof (rule set_eqI)
  fix x
  have "x \<in> ?L \<longleftrightarrow> (\<exists>i < length (amo_variables t). \<exists>b < Suc (length (amo_helpers t)).
      x = (amo_variables t ! i, (amo_helpers t @ [h]) ! b, bit i b))"
    by (auto simp: amo_clauses_def)
  also have "\<dots> \<longleftrightarrow> (\<exists>i < length (amo_variables t).
      ((\<exists>b < length (amo_helpers t). x = (amo_variables t ! i, amo_helpers t ! b, bit i b)) \<or>
       x = (amo_variables t ! i, h, bit i (length (amo_helpers t)))))"
    by (simp add: Ex_less_Suc nth_append disj_commute cong: conj_cong)
  also have "\<dots> \<longleftrightarrow> x \<in> ?R" by (auto simp: amo_clauses_def)
  finally show "x \<in> ?L \<longleftrightarrow> x \<in> ?R" .
qed

lemma amo_clauses_add_variable:
  "amo_clauses (t\<lparr>amo_variables := amo_variables t @ [v]\<rparr>) =
    amo_clauses t \<union> {(v, amo_helpers t ! b, bit (length (amo_variables t)) b) |b. b < length (amo_helpers t)}"
    (is "?L = ?R")
proof (rule set_eqI)
  fix x
  have "x \<in> ?L \<longleftrightarrow> (\<exists>b < length (amo_helpers t). \<exists>i < Suc (length (amo_variables t)).
      x = ((amo_variables t @ [v]) ! i, amo_helpers t ! b, bit i b))"
    by (auto simp: amo_clauses_def)
  also have "\<dots> \<longleftrightarrow> (\<exists>b < length (amo_helpers t).
      ((\<exists>i < length (amo_variables t). x = (amo_variables t ! i, amo_helpers t ! b, bit i b)) \<or>
       x = (v, amo_helpers t ! b, bit (length (amo_variables t)) b)))"
    by (simp add: Ex_less_Suc nth_append disj_commute cong: conj_cong)
  also have "\<dots> \<longleftrightarrow> x \<in> ?R" by (auto simp: amo_clauses_def)
  finally show "x \<in> ?L \<longleftrightarrow> x \<in> ?R" .
qed

lemma mask_bit: "(idx :: nat) AND push_bit b 1 = push_bit b 1 \<longleftrightarrow> bit idx b"
proof
  assume "idx AND push_bit b 1 = push_bit b 1"
  then have "bit (idx AND push_bit b 1) b = bit (push_bit b (1 :: nat)) b" by simp
  then show "bit idx b" by (simp add: bit_and_iff bit_exp_iff)
next
  assume "bit idx b"
  then show "idx AND push_bit b 1 = push_bit b 1"
    by (auto intro!: bit_eqI simp: bit_and_iff bit_exp_iff)
qed

lemma shift_bit: "(drop_bit b (idx :: nat)) AND 1 = 1 \<longleftrightarrow> bit idx b"
  by (simp add: and_one_eq bit_iff_odd_drop_bit odd_iff_mod_2_eq_one)

lemma shift_bit_mod: "drop_bit b (idx :: nat) mod 2 = Suc 0 \<longleftrightarrow> bit idx b"
  using shift_bit [of b idx] by (simp add: and_one_eq)

lemma bits_determine:
  assumes "i < 2 ^ n" "j < 2 ^ n" "\<And>b. b < n \<Longrightarrow> bit i b = bit (j :: nat) b"
  shows "i = j"
proof -
  have "take_bit n i = i" "take_bit n j = j"
    by (rule take_bit_nat_eq_self [OF assms(1)], rule take_bit_nat_eq_self [OF assms(2)])
  moreover have "take_bit n i = take_bit n j"
  proof (rule bit_eqI)
    fix b
    show "bit (take_bit n i) b = bit (take_bit n j) b"
      by (cases "b < n") (simp_all add: bit_take_bit_iff assms(3))
  qed
  ultimately show ?thesis by metis
qed

text \<open>The clauses allow at most one tracked variable to be true.\<close>

lemma amo_sound:
  assumes "amo_inv t" "satisfies_amo M (amo_clauses t)" "x \<in> set (amo_variables t)" "y \<in> set (amo_variables t)"
    "M x" "M y"
  shows "x = y"
proof -
  from assms(3,4) obtain i j where ij: "i < length (amo_variables t)" "amo_variables t ! i = x"
    "j < length (amo_variables t)" "amo_variables t ! j = y" by (metis in_set_conv_nth)
  have "bit i b = bit j b" if "b < length (amo_helpers t)" for b
  proof -
    have "(x, amo_helpers t ! b, bit i b) \<in> amo_clauses t" "(y, amo_helpers t ! b, bit j b) \<in> amo_clauses t"
      using ij that unfolding amo_clauses_def by blast+
    with assms(2,5,6) have "M (amo_helpers t ! b) = bit i b" "M (amo_helpers t ! b) = bit j b"
      unfolding satisfies_amo_def by blast+
    then show ?thesis by metis
  qed
  moreover have "i < 2 ^ length (amo_helpers t)" "j < 2 ^ length (amo_helpers t)"
    using ij assms(1) by (simp_all add: amo_inv_def)
  ultimately have "i = j" using bits_determine by blast
  with ij show ?thesis by simp
qed

text \<open>Every valuation with at most one true tracked variable extends to the helpers.\<close>

lemma amo_complete:
  assumes "amo_inv t" "\<forall>x \<in> set (amo_variables t). \<forall>y \<in> set (amo_variables t). M x \<longrightarrow> M y \<longrightarrow> x = y"
  shows "\<exists>M'. (\<forall>v. v \<notin> set (amo_helpers t) \<longrightarrow> M' v = M v) \<and> satisfies_amo M' (amo_clauses t)"
proof (cases "\<exists>i < length (amo_variables t). M (amo_variables t ! i)")
  case False
  then have "satisfies_amo M (amo_clauses t)" by (auto simp: satisfies_amo_def amo_clauses_def)
  then show ?thesis by blast
next
  case True
  then obtain i where i: "i < length (amo_variables t)" "M (amo_variables t ! i)" by blast
  define M' where "M' v = (if v \<in> set (amo_helpers t)
      then bit i (SOME b. b < length (amo_helpers t) \<and> amo_helpers t ! b = v) else M v)" for v
  have dist: "distinct (amo_helpers t)" "distinct (amo_variables t)"
    "set (amo_variables t) \<inter> set (amo_helpers t) = {}"
    using assms(1) by (simp_all add: amo_inv_def)
  have helper: "M' (amo_helpers t ! b) = bit i b" if "b < length (amo_helpers t)" for b
  proof -
    have "(SOME b'. b' < length (amo_helpers t) \<and> amo_helpers t ! b' = amo_helpers t ! b) = b"
      using that dist(1) by (intro some_equality) (auto simp: nth_eq_iff_index_eq)
    with that show ?thesis by (simp add: M'_def)
  qed
  have "M' h = p" if "(a, h, p) \<in> amo_clauses t" "M' a" for a h p
  proof -
    from that(1) obtain j b where jb: "j < length (amo_variables t)" "b < length (amo_helpers t)"
      "a = amo_variables t ! j" "h = amo_helpers t ! b" "p = bit j b"
      by (auto simp: amo_clauses_def)
    have "a \<in> set (amo_variables t)" using jb by simp
    then have "M a" using that(2) dist(3) by (auto simp: M'_def split: if_splits)
    with i jb assms(2) have "amo_variables t ! j = amo_variables t ! i" by simp
    with jb(1) i(1) dist(2) have "j = i" by (simp add: nth_eq_iff_index_eq)
    with jb helper show ?thesis by simp
  qed
  then have "satisfies_amo M' (amo_clauses t)" by (auto simp: satisfies_amo_def)
  then show ?thesis by (intro exI [of _ M']) (simp add: M'_def)
qed

section \<open>The backend\<close>

locale amo_backend =
  fixes ok :: "'s \<Rightarrow> bool"
    and alloc_clause :: "'v \<Rightarrow> 'v \<Rightarrow> bool \<Rightarrow> 's \<Rightarrow> 's"
    and alloc_var :: "'s \<Rightarrow> 'v \<times> 's"
    and clauses :: "'s \<Rightarrow> ('v \<times> 'v \<times> bool) set"
    and vars :: "'s \<Rightarrow> 'v set"
    and helpers :: "'s \<Rightarrow> 'v set"
  assumes ok_clause: "ok s \<Longrightarrow> a \<in> vars s \<Longrightarrow> h \<in> helpers s \<Longrightarrow> ok (alloc_clause a h p s)"
    and clauses_clause: "ok s \<Longrightarrow> a \<in> vars s \<Longrightarrow> h \<in> helpers s \<Longrightarrow>
      clauses (alloc_clause a h p s) = insert (a, h, p) (clauses s)"
    and vars_clause: "ok s \<Longrightarrow> a \<in> vars s \<Longrightarrow> h \<in> helpers s \<Longrightarrow> vars (alloc_clause a h p s) = vars s"
    and helpers_clause: "ok s \<Longrightarrow> a \<in> vars s \<Longrightarrow> h \<in> helpers s \<Longrightarrow> helpers (alloc_clause a h p s) = helpers s"
    and ok_var: "ok s \<Longrightarrow> ok (snd (alloc_var s))"
    and clauses_var: "ok s \<Longrightarrow> clauses (snd (alloc_var s)) = clauses s"
    and vars_var: "ok s \<Longrightarrow> vars (snd (alloc_var s)) = vars s"
    and helpers_var: "ok s \<Longrightarrow> helpers (snd (alloc_var s)) = insert (fst (alloc_var s)) (helpers s)"
    and fresh_var: "ok s \<Longrightarrow> fst (alloc_var s) \<notin> vars s \<union> helpers s"
begin

lemma alloc_clauses:
  assumes "ok s" "\<forall>(a, h, p) \<in> set cs. a \<in> vars s \<and> h \<in> helpers s"
  shows "ok (foldl (\<lambda>s (a, h, p). alloc_clause a h p s) s cs) \<and>
    clauses (foldl (\<lambda>s (a, h, p). alloc_clause a h p s) s cs) = clauses s \<union> set cs \<and>
    vars (foldl (\<lambda>s (a, h, p). alloc_clause a h p s) s cs) = vars s \<and>
    helpers (foldl (\<lambda>s (a, h, p). alloc_clause a h p s) s cs) = helpers s"
  using assms
proof (induction cs arbitrary: s)
  case (Cons c cs)
  obtain a h p where c: "c = (a, h, p)" by (cases c)
  with Cons.prems have "ok (alloc_clause a h p s)" "vars (alloc_clause a h p s) = vars s" "helpers (alloc_clause a h p s) = helpers s"
    "clauses (alloc_clause a h p s) = insert c (clauses s)"
    by (simp_all add: ok_clause clauses_clause vars_clause helpers_clause)
  with Cons.IH [of "alloc_clause a h p s"] Cons.prems(2) c show ?case by auto
qed simp

lemma helper_clauses_eq:
  "helper_clauses alloc_clause b h xs s =
    foldl (\<lambda>s (a, h, p). alloc_clause a h p s) s (map (\<lambda>(i, a). (a, h, bit i b)) (enumerate 0 xs))"
  by (simp add: helper_clauses_def Let_def mask_bit [simplified] foldl_map split_def)

text \<open>The state a tracker lives in: its variables are known, its clauses are allocated.\<close>

definition tracks :: "'v at_most_once_tracker \<Rightarrow> 's \<Rightarrow> bool" where
  "tracks t s \<longleftrightarrow> ok s \<and> set (amo_variables t) \<subseteq> vars s \<and> set (amo_helpers t) \<subseteq> helpers s \<and>
     amo_clauses t \<subseteq> clauses s"

lemma grow_helpers_effect:
  assumes "tracks t s" "distinct (amo_helpers t)" "set (amo_variables t) \<inter> set (amo_helpers t) = {}"
    "v \<in> vars s" "v \<notin> set (amo_helpers t)" "amo_variables t \<noteq> []"
    "amo_helpers t \<noteq> [] \<Longrightarrow> 2 ^ (length (amo_helpers t) - 1) \<le> length (amo_variables t)"
    "grow_helpers alloc_clause alloc_var t s = (t', s')"
  shows "tracks t' s' \<and> amo_variables t' = amo_variables t \<and> distinct (amo_helpers t') \<and>
    set (amo_variables t') \<inter> set (amo_helpers t') = {} \<and> v \<in> vars s' \<and> v \<notin> set (amo_helpers t') \<and>
    length (amo_variables t') < 2 ^ length (amo_helpers t') \<and>
    (amo_helpers t' \<noteq> [] \<longrightarrow> 2 ^ (length (amo_helpers t') - 1) \<le> length (amo_variables t')) \<and>
    clauses s' = clauses s \<union> amo_clauses t' \<and> vars s' = vars s \<and> amo_clauses t \<subseteq> amo_clauses t'"
  using assms
proof (induction "length (amo_variables t) - length (amo_helpers t)" arbitrary: t s rule: less_induct)
  case less
  let ?n = "length (amo_helpers t)"
  show ?case
  proof (cases "2 ^ ?n \<le> length (amo_variables t)")
    case False
    then have "t' = t \<and> s' = s"
      using less.prems(8) by (subst (asm) grow_helpers.simps) (auto simp: push_bit_eq_mult split: if_splits)
    with False less.prems show ?thesis by (auto simp: tracks_def)
  next
    case True
    obtain h s1 where h: "alloc_var s = (h, s1)" by fastforce
    define t1 where "t1 = t\<lparr>amo_helpers := amo_helpers t @ [h]\<rparr>"
    define s2 where "s2 = helper_clauses alloc_clause ?n h (amo_variables t) s1"
    have ok: "ok s" and kn: "set (amo_variables t) \<subseteq> vars s" "set (amo_helpers t) \<subseteq> helpers s"
      using less.prems(1) by (simp_all add: tracks_def)
    have s1: "ok s1" "clauses s1 = clauses s" "vars s1 = vars s" "helpers s1 = insert h (helpers s)" "h \<notin> vars s" "h \<notin> helpers s"
      using ok_var [OF ok] clauses_var [OF ok] vars_var [OF ok] helpers_var [OF ok] fresh_var [OF ok] h by simp_all
    let ?cs = "map (\<lambda>(i, a). (a, h, bit i ?n)) (enumerate 0 (amo_variables t))"
    have "\<forall>(a, h, p) \<in> set ?cs. a \<in> vars s1 \<and> h \<in> helpers s1"
      using kn s1(3,4) nth_mem by (fastforce simp: in_set_enumerate_eq)
    from alloc_clauses [OF s1(1) this] have s2: "ok s2" "clauses s2 = clauses s \<union> set ?cs" "vars s2 = vars s1" "helpers s2 = helpers s1"
      unfolding s2_def helper_clauses_eq s1(2) by simp_all
    have new: "amo_clauses t1 = amo_clauses t \<union> set ?cs"
      unfolding t1_def amo_clauses_add_helper by (force simp: in_set_enumerate_eq image_iff)
    have tr: "tracks t1 s2" unfolding tracks_def new using less.prems(1) s1 s2 kn
      by (auto simp: t1_def tracks_def)
    have grow: "grow_helpers alloc_clause alloc_var t1 s2 = (t', s')"
    proof -
      have "0 < (2 :: nat) ^ ?n" by simp
      with True have c: "push_bit ?n 1 - 1 < length (amo_variables t)"
        unfolding push_bit_eq_mult by linarith
      show ?thesis
        using less.prems(8) unfolding grow_helpers.simps [of alloc_clause alloc_var t s] if_P [OF c] h
        by (simp add: Let_def t1_def s2_def)
    qed
    have "?n < length (amo_variables t)" using less_exp [of ?n] True by (rule less_le_trans)
    then have lt: "length (amo_variables t1) - length (amo_helpers t1) < length (amo_variables t) - ?n"
      by (simp add: t1_def)
    have "distinct (amo_helpers t1)" "set (amo_variables t1) \<inter> set (amo_helpers t1) = {}"
      "v \<in> vars s2" "v \<notin> set (amo_helpers t1)" "amo_variables t1 \<noteq> []"
      "2 ^ (length (amo_helpers t1) - 1) \<le> length (amo_variables t1)"
      using less.prems s1 s2 kn True by (auto simp: t1_def)
    from less.hyps [OF lt tr this(1-5) this(6) grow] show ?thesis
      using s1 s2 new by (auto simp: t1_def)
  qed
qed

lemma amo_add_effect:
  assumes "tracks t s" "amo_inv t" "v \<in> vars s" "v \<notin> set (amo_helpers t)"
    "amo_add alloc_clause alloc_var v t s = (b, t', s')"
  shows "tracks t' s'" "amo_inv t'" "clauses s' = clauses s \<union> amo_clauses t'" "vars s' = vars s"
    "set (amo_variables t') = insert v (set (amo_variables t))" "b \<longleftrightarrow> v \<notin> set (amo_variables t)"
proof -
  have "tracks t' s' \<and> amo_inv t' \<and> clauses s' = clauses s \<union> amo_clauses t' \<and> vars s' = vars s \<and>
    set (amo_variables t') = insert v (set (amo_variables t)) \<and> (b \<longleftrightarrow> v \<notin> set (amo_variables t))"
  proof (cases "v \<in> set (amo_variables t)")
    case True
    with assms show ?thesis by (auto simp: amo_add_def tracks_def)
  next
    case new_var: False
    show ?thesis
    proof (cases "amo_variables t = []")
      case True
      then have "amo_helpers t = []" using assms(2) by (auto simp: amo_inv_def)
      with True new_var assms show ?thesis
        by (auto simp: amo_add_def tracks_def amo_inv_def amo_clauses_def)
    next
      case nonempty: False
      note False = new_var nonempty
      obtain t1 s1 where g: "grow_helpers alloc_clause alloc_var t s = (t1, s1)" by fastforce
      let ?i = "length (amo_variables t)" and ?cs = "map (\<lambda>(b, h). (v, h, bit (length (amo_variables t)) b))
        (enumerate 0 (amo_helpers t1))"
      have inv: "distinct (amo_helpers t)" "set (amo_variables t) \<inter> set (amo_helpers t) = {}"
        "amo_helpers t \<noteq> [] \<Longrightarrow> 2 ^ (length (amo_helpers t) - 1) \<le> length (amo_variables t)"
        using assms(2) by (simp_all add: amo_inv_def)
      from False grow_helpers_effect [OF assms(1) inv(1,2) assms(3,4) _ inv(3) g]
      have t1: "tracks t1 s1" "amo_variables t1 = amo_variables t" "distinct (amo_helpers t1)"
        "set (amo_variables t1) \<inter> set (amo_helpers t1) = {}" "v \<in> vars s1" "v \<notin> set (amo_helpers t1)"
        "length (amo_variables t1) < 2 ^ length (amo_helpers t1)"
        "amo_helpers t1 \<noteq> [] \<longrightarrow> 2 ^ (length (amo_helpers t1) - 1) \<le> length (amo_variables t1)"
        "clauses s1 = clauses s \<union> amo_clauses t1" "vars s1 = vars s"
        by blast+
      have "(True, t1\<lparr>amo_variables := amo_variables t @ [v]\<rparr>,
          foldl (\<lambda>s (a, h, p). alloc_clause a h p s) s1 ?cs) = (b, t', s')"
        unfolding assms(5) [symmetric] amo_add_def if_not_P [OF new_var] if_not_P [OF nonempty] g
        by (simp add: Let_def t1(2) and_one_eq shift_bit_mod foldl_map split_def)
      then have res: "t' = t1\<lparr>amo_variables := amo_variables t @ [v]\<rparr>" "b"
        "s' = foldl (\<lambda>s (a, h, p). alloc_clause a h p s) s1 ?cs"
        by simp_all
      have "set ?cs \<subseteq> {v} \<times> set (amo_helpers t1) \<times> UNIV" by (auto simp: in_set_enumerate_eq)
      moreover have "set (amo_helpers t1) \<subseteq> helpers s1" using t1(1) by (simp add: tracks_def)
      ultimately have "\<forall>(a, h, p) \<in> set ?cs. a \<in> vars s1 \<and> h \<in> helpers s1" using t1(5) by blast
      from alloc_clauses [OF _ this] t1(1) have s': "ok s'" "clauses s' = clauses s1 \<union> set ?cs" "vars s' = vars s1" "helpers s' = helpers s1"
        by (simp_all add: res(3) tracks_def)
      have new: "amo_clauses t' = amo_clauses t1 \<union> set ?cs"
        unfolding res(1) t1(2) [symmetric] amo_clauses_add_variable
        by (force simp: in_set_enumerate_eq image_iff t1(2))
      show ?thesis
        unfolding tracks_def new amo_inv_def
        using False assms(2) t1 s' by (auto simp: res(1) tracks_def amo_inv_def res(2) less_Suc_eq_le)
    qed
  qed
  then show "tracks t' s'" "amo_inv t'" "clauses s' = clauses s \<union> amo_clauses t'" "vars s' = vars s"
    "set (amo_variables t') = insert v (set (amo_variables t))" "b \<longleftrightarrow> v \<notin> set (amo_variables t)"
    by simp_all
qed

end

end
