(* ===== verification/Solver_State.thy ===== *)
theory Solver_State
  imports Watch_Map Variable_Map Queue_Tracking Binary_Encoding
begin

text \<open>
  The state of the solver and the operations on it that are not tied to one phase:
  \<open>struct Clauses\<close>, \<open>struct SolverState\<close> and \<open>impl SolverState\<close> of \<open>src/solver/mod.rs\<close>.
  Identifier-keyed sets and maps are sets and partial maps (theory \<open>Id_Storage\<close>), arenas are
  lists (\<open>Arena_Model\<close>), an \<open>IndexMap\<close> is an association list in iteration order.
\<close>

section \<open>Insertion-ordered maps\<close>

text \<open>\<open>IndexMap\<close>: \<open>entry(k).or_default().push(x)\<close>, an update in place, and \<open>swap_remove\<close>.\<close>

fun im_push :: "('k \<times> 'v list) list \<Rightarrow> 'k \<Rightarrow> 'v \<Rightarrow> ('k \<times> 'v list) list" where
  "im_push [] k x = [(k, [x])]"
| "im_push ((k', xs) # m) k x = (if k' = k then (k', xs @ [x]) # m else (k', xs) # im_push m k x)"

definition im_update :: "('k \<times> 'v) list \<Rightarrow> 'k \<Rightarrow> 'v \<Rightarrow> ('k \<times> 'v) list" where
  "im_update m k v = map (\<lambda>(k', v'). (k', if k' = k then v else v')) m"

fun im_index :: "('k \<times> 'v) list \<Rightarrow> 'k \<Rightarrow> nat option" where
  "im_index [] k = None"
| "im_index ((k', v) # m) k = (if k' = k then Some 0 else map_option Suc (im_index m k))"

text \<open>The last entry takes the place of the removed one.\<close>

definition im_swap_remove :: "('k \<times> 'v) list \<Rightarrow> 'k \<Rightarrow> ('k \<times> 'v) list" where
  "im_swap_remove m k = (case im_index m k of
     None \<Rightarrow> m
   | Some i \<Rightarrow> if i = length m - 1 then butlast m else (butlast m)[i := last m])"

section \<open>The state\<close>

record solver_state =
  ss_kinds :: "clause list"
  ss_watched_literals :: watch_table
  ss_watches :: watch_map
  ss_requirement_to_sorted_candidates :: sorted_candidates
  ss_variable_map :: variable_map
  ss_negative_assertions :: "(variable_id \<times> clause_id) list"
  ss_learnt_clauses :: learnt_clauses
  ss_learnt_why :: "learnt_clause_id \<rightharpoonup> clause_id list"
  ss_learnt_clause_ids :: "clause_id list"
  ss_disjunctions :: disjunctions
  ss_clauses_added_for_package :: "name_id set"
  ss_clauses_added_for_solvable :: "solvable_id solvable_id_or_root set"
  ss_allow_multiple_names :: "name_id set"
  ss_at_most_one_trackers :: "name_id \<rightharpoonup> variable_id at_most_once_tracker"
  ss_at_least_one_tracker :: "name_id \<rightharpoonup> variable_id"
  ss_constrains_aux_vars :: "version_set_id \<rightharpoonup> variable_id"
  ss_requires_aux_vars :: "requirement \<rightharpoonup> variable_id"
  ss_requires_gate_requirers :: "(variable_id \<times> (variable_id \<times> clause_id) list) list"
  ss_decision_tracker :: decision_tracker
  ss_name_activity :: "name_id \<rightharpoonup> f32"
  ss_max_activity :: f32
  ss_decide_queue :: decide_queue
  ss_deferred_requirements :: "(condition_id \<times> solvable_id deferred_requirement list) list"

definition SolverState_default :: solver_state where
  "SolverState_default = \<lparr>ss_kinds = [], ss_watched_literals = [], ss_watches = Map.empty,
     ss_requirement_to_sorted_candidates = Map.empty, ss_variable_map = VariableMap_default,
     ss_negative_assertions = [], ss_learnt_clauses = [], ss_learnt_why = Map.empty,
     ss_learnt_clause_ids = [], ss_disjunctions = [], ss_clauses_added_for_package = {},
     ss_clauses_added_for_solvable = {}, ss_allow_multiple_names = {},
     ss_at_most_one_trackers = Map.empty, ss_at_least_one_tracker = Map.empty,
     ss_constrains_aux_vars = Map.empty, ss_requires_aux_vars = Map.empty,
     ss_requires_gate_requirers = [], ss_decision_tracker = DecisionTracker_default,
     ss_name_activity = Map.empty, ss_max_activity = 0, ss_decide_queue = DecideQueue_default,
     ss_deferred_requirements = []\<rparr>"

text \<open>\<open>IdMap::get\<close> on the activities: entries that were never written read as \<open>0.0\<close>.\<close>

definition activity_get :: "(name_id \<rightharpoonup> f32) \<Rightarrow> name_id \<Rightarrow> f32" where
  "activity_get m name = (case m name of None \<Rightarrow> 0 | Some a \<Rightarrow> a)"

section \<open>Operations\<close>

definition Clauses_alloc :: "watched_literals option \<Rightarrow> clause \<Rightarrow> solver_state \<Rightarrow> clause_id \<times> solver_state" where
  "Clauses_alloc w kind s = (length (ss_kinds s),
     s\<lparr>ss_kinds := ss_kinds s @ [kind], ss_watched_literals := ss_watched_literals s @ [w]\<rparr>)"

definition add_clause :: "watched_literals option \<Rightarrow> clause \<Rightarrow> solver_state \<Rightarrow> clause_id \<times> solver_state" where
  "add_clause w kind s = (case Clauses_alloc w kind s of (clause_id, s1) \<Rightarrow>
     (case ss_watched_literals s1 ! clause_id of
        None \<Rightarrow> (clause_id, s1)
      | Some wl \<Rightarrow> (case start_watching (ss_watches s1) wl clause_id of (watches, wl') \<Rightarrow>
          (clause_id, s1\<lparr>ss_watches := watches,
             ss_watched_literals := (ss_watched_literals s1)[clause_id := Some wl']\<rparr>))))"

definition add_requires_clause ::
  "variable_id \<Rightarrow> requirement \<Rightarrow> disjunction_id option \<Rightarrow> clause_id \<Rightarrow> name_id list \<Rightarrow> solver_state \<Rightarrow>
    solver_state option" where
  "add_requires_clause parent requirement condition clause_id names s =
     map_option (\<lambda>q. s\<lparr>ss_decide_queue := q\<rparr>)
       (register_clause parent requirement condition clause_id names (ss_disjunctions s)
          (assigned_value (ss_decision_tracker s) parent) (ss_decide_queue s))"

text \<open>\<open>chosen_solvables\<close>; the origin of a decided variable is always known.\<close>

definition chosen_solvables :: "solver_state \<Rightarrow> solvable_id list" where
  "chosen_solvables s = List.map_filter
     (\<lambda>d. if d_value d then as_solvable (ss_variable_map s) (d_variable d) else None)
     (dt_stack (ss_decision_tracker s))"

definition is_positively_decided :: "solver_state \<Rightarrow> solvable_id \<Rightarrow> bool" where
  "is_positively_decided s solvable = (case lookup_solvable (ss_variable_map s) solvable of
     Some v \<Rightarrow> assigned_value (ss_decision_tracker s) v = Some True
   | None \<Rightarrow> False)"

text \<open>One gate of \<open>force_stuck_gates\<close>: \<open>None\<close> is the panic of \<open>expect\<close>.\<close>

definition force_gate ::
  "level \<Rightarrow> bool \<times> decision_tracker \<Rightarrow> variable_id \<times> (variable_id \<times> clause_id) list \<Rightarrow>
    (bool \<times> decision_tracker) option" where
  "force_gate level = (\<lambda>(forced_any, t) (gate, requirers).
     if assigned_value t gate \<noteq> None then Some (forced_any, t)
     else case List.find (\<lambda>(requirer, _). assigned_value t requirer = Some True) requirers of
       None \<Rightarrow> Some (forced_any, t)
     | Some (_, reason) \<Rightarrow> (case try_add_decision t (Decision_new gate True reason) level of
         Inl _ \<Rightarrow> None
       | Inr (_, t') \<Rightarrow> Some (True, t')))"

definition force_stuck_gates :: "level \<Rightarrow> solver_state \<Rightarrow> (bool \<times> solver_state) option" where
  "force_stuck_gates level s =
     map_option (\<lambda>(forced_any, t). (forced_any, s\<lparr>ss_decision_tracker := t\<rparr>))
       (fold_opt (force_gate level) (False, ss_decision_tracker s) (ss_requires_gate_requirers s))"

definition entry_holds :: "solver_state \<Rightarrow> solvable_id deferred_requirement \<Rightarrow> bool" where
  "entry_holds s e = condition_disjunct_holds (dr_disjunct e) (is_positively_decided s)"

definition fired_deferred_conditions :: "solver_state \<Rightarrow> condition_id list" where
  "fired_deferred_conditions s =
     map fst (filter (\<lambda>(_, entries). list_ex (entry_holds s) entries) (ss_deferred_requirements s))"

text \<open>
  The drain: indices of the fire mask in reverse, each firing entry removed from the vector
  and pushed; the pushed entries are reversed at the end.
\<close>

definition vec_remove :: "'a list \<Rightarrow> nat \<Rightarrow> 'a list" where
  "vec_remove xs i = take i xs @ drop (Suc i) xs"

definition drain_entries :: "bool list \<Rightarrow> 'a list \<Rightarrow> 'a list \<times> 'a list" where
  "drain_entries fire_mask entries =
     foldl (\<lambda>(fired, entries) (i, _). (fired @ [entries ! i], vec_remove entries i)) ([], entries)
       (filter snd (rev (enumerate 0 fire_mask)))"

definition drain_fired_deferred ::
  "condition_id \<Rightarrow> solver_state \<Rightarrow> solvable_id deferred_requirement list \<times> solver_state" where
  "drain_fired_deferred condition s = (case map_of (ss_deferred_requirements s) condition of
     None \<Rightarrow> ([], s)
   | Some entries \<Rightarrow>
       (let fire_mask = map (entry_holds s) entries;
            (fired, rest) = drain_entries fire_mask entries;
            deferred = im_update (ss_deferred_requirements s) condition rest
        in (rev fired,
            s\<lparr>ss_deferred_requirements :=
              (if rest = [] then im_swap_remove deferred condition else deferred)\<rparr>)))"

definition push_deferred :: "solvable_id deferred_requirement \<Rightarrow> solver_state \<Rightarrow> solver_state" where
  "push_deferred entry s =
     s\<lparr>ss_deferred_requirements := im_push (ss_deferred_requirements s) (dr_condition entry) entry\<rparr>"

definition deferred_requirements_count :: "solver_state \<Rightarrow> nat" where
  "deferred_requirements_count s = sum_list (map (\<lambda>(_, entries). length entries) (ss_deferred_requirements s))"

section \<open>The clause database\<close>

abbreviation kind_of :: "solver_state \<Rightarrow> clause_id \<Rightarrow> clause" where
  "kind_of s c \<equiv> ss_kinds s ! c"

definition lits :: "solver_state \<Rightarrow> clause \<Rightarrow> literal list option" where
  "lits s k = clause_literals (ss_learnt_clauses s) (ss_requirement_to_sorted_candidates s) (ss_disjunctions s) k"

abbreviation well_watched :: "solver_state \<Rightarrow> clause \<Rightarrow> watched_literals \<Rightarrow> bool" where
  "well_watched s k w \<equiv> watches_of (ss_learnt_clauses s) (ss_requirement_to_sorted_candidates s)
     (ss_disjunctions s) k w"

text \<open>
  The kinds and watches are parallel, every watched clause watches two of its literals, and
  the pointers form the watch lists \<open>L\<close>.
\<close>

definition db_inv :: "solver_state \<Rightarrow> (literal \<Rightarrow> clause_id list) \<Rightarrow> bool" where
  "db_inv s L \<longleftrightarrow>
     length (ss_watched_literals s) = length (ss_kinds s) \<and>
     watch_lists (ss_watches s) (ss_watched_literals s) L \<and>
     (\<forall>c w. c < length (ss_kinds s) \<longrightarrow> ss_watched_literals s ! c = Some w \<longrightarrow> well_watched s (kind_of s c) w)"

lemma db_invD [inv_dests]:
  assumes "db_inv s L"
  shows "length (ss_watched_literals s) = length (ss_kinds s)"
    "watch_lists (ss_watches s) (ss_watched_literals s) L"
    "c < length (ss_kinds s) \<Longrightarrow> ss_watched_literals s ! c = Some w \<Longrightarrow> well_watched s (kind_of s c) w"
  using assms by (auto simp: db_inv_def)

lemma db_inv_default [inv_intros]: "db_inv SolverState_default (\<lambda>_. [])"
  by (simp add: db_inv_def SolverState_default_def watch_lists_empty)

lemma add_clause_frame [simp]:
  "fst (add_clause w k s) = length (ss_kinds s)"
  "ss_kinds (snd (add_clause w k s)) = ss_kinds s @ [k]"
  "ss_requirement_to_sorted_candidates (snd (add_clause w k s)) = ss_requirement_to_sorted_candidates s"
  "ss_variable_map (snd (add_clause w k s)) = ss_variable_map s"
  "ss_negative_assertions (snd (add_clause w k s)) = ss_negative_assertions s"
  "ss_learnt_clauses (snd (add_clause w k s)) = ss_learnt_clauses s"
  "ss_learnt_why (snd (add_clause w k s)) = ss_learnt_why s"
  "ss_learnt_clause_ids (snd (add_clause w k s)) = ss_learnt_clause_ids s"
  "ss_disjunctions (snd (add_clause w k s)) = ss_disjunctions s"
  "ss_decision_tracker (snd (add_clause w k s)) = ss_decision_tracker s"
  "ss_decide_queue (snd (add_clause w k s)) = ss_decide_queue s"
  "ss_name_activity (snd (add_clause w k s)) = ss_name_activity s"
  "ss_max_activity (snd (add_clause w k s)) = ss_max_activity s"
  "ss_at_most_one_trackers (snd (add_clause w k s)) = ss_at_most_one_trackers s"
  "ss_at_least_one_tracker (snd (add_clause w k s)) = ss_at_least_one_tracker s"
  "ss_constrains_aux_vars (snd (add_clause w k s)) = ss_constrains_aux_vars s"
  "ss_requires_aux_vars (snd (add_clause w k s)) = ss_requires_aux_vars s"
  "ss_requires_gate_requirers (snd (add_clause w k s)) = ss_requires_gate_requirers s"
  "ss_deferred_requirements (snd (add_clause w k s)) = ss_deferred_requirements s"
  by (simp_all add: add_clause_def Clauses_alloc_def split_beta split: option.split)

lemma add_clause_watched:
  assumes "length (ss_watched_literals s) = length (ss_kinds s)"
  shows "ss_watched_literals (snd (add_clause w k s)) = ss_watched_literals s @
      [map_option (\<lambda>wl. snd (start_watching (ss_watches s) wl (length (ss_kinds s)))) w]"
    "ss_watches (snd (add_clause w k s)) = (case w of None \<Rightarrow> ss_watches s
       | Some wl \<Rightarrow> fst (start_watching (ss_watches s) wl (length (ss_kinds s))))"
  using assms
  by (simp_all add: add_clause_def Clauses_alloc_def split_beta list_update_append flip: assms split: option.split)

lemma lits_cong:
  "ss_learnt_clauses s = ss_learnt_clauses s' \<Longrightarrow>
   ss_requirement_to_sorted_candidates s = ss_requirement_to_sorted_candidates s' \<Longrightarrow>
   ss_disjunctions s = ss_disjunctions s' \<Longrightarrow> lits s k = lits s' k"
  by (simp add: lits_def)

lemma lits_add_clause [simp]: "lits (snd (add_clause w k s)) k' = lits s k'"
  by (simp add: lits_def)

text \<open>Adding a clause keeps the database consistent.\<close>

lemma add_clause_inv [inv_intros]:
  assumes "db_inv s L" "\<And>wl. w = Some wl \<Longrightarrow> well_watched s k wl"
  shows "\<exists>L'. db_inv (snd (add_clause w k s)) L'"
proof (cases w)
  case None
  with assms(1) show ?thesis
    unfolding db_inv_def
    by (intro exI [of _ L]) (auto simp: add_clause_watched watch_lists_snoc_None nth_append less_Suc_eq
        split: if_splits)
next
  case (Some wl)
  obtain m' wl' where sw: "start_watching (ss_watches s) wl (length (ss_kinds s)) = (m', wl')" by fastforce
  note d = db_invD [OF assms(1)]
  have ww: "well_watched s k wl" and diff: "fst (wl_watched wl) \<noteq> snd (wl_watched wl)"
    using assms(2) [OF Some] by (auto simp: watches_of_def)
  from start_watching_lists [OF d(2) diff] sw d(1)
  obtain L' where L': "watch_lists m' (ss_watched_literals s @ [Some wl']) L'" by metis
  have "wl_watched wl' = wl_watched wl"
    using sw start_watching_eq [OF diff, of "ss_watches s"] by auto
  with ww have "well_watched s k wl'" by (simp add: watches_of_def)
  with L' Some sw d show ?thesis
    unfolding db_inv_def
    by (intro exI [of _ L']) (auto simp: add_clause_watched nth_append less_Suc_eq split: if_splits)
qed

end
