(* ===== verification/Trail.thy ===== *)
theory Trail
  imports Solver_State
begin

text \<open>
  The implication graph the trail encodes. A decision \<open>d\<close> on the trail makes \<open>true_lit d\<close>
  true and \<open>false_lit d\<close> false; unless it is the first one of its level, the clause it was
  derived from has it as its only literal that is not already false. Propagation keeps this
  (theory \<open>Propagation\<close>) and conflict analysis lives off it (theory \<open>Conflict_Analysis\<close>).
\<close>

definition true_lit :: "decision \<Rightarrow> literal" where
  "true_lit d = Literal_new (d_variable d) (\<not> d_value d)"

definition false_lit :: "decision \<Rightarrow> literal" where
  "false_lit d = Literal_new (d_variable d) (d_value d)"

lemma lit_variable [simp]: "variable (true_lit d) = d_variable d" "variable (false_lit d) = d_variable d"
  by (simp_all add: true_lit_def false_lit_def)

lemma true_lit_new [simp]: "true_lit (Decision_new (variable l) (satisfying_value l) c) = l"
  by (simp add: true_lit_def satisfying_value_def)

lemma false_lit_iff: "false_lit d = l \<longleftrightarrow> d_variable d = variable l \<and> d_value d = negate l"
  by (cases l) (auto simp: false_lit_def)

section \<open>Values and the trail\<close>

abbreviation lit_value :: "decision_tracker \<Rightarrow> literal \<Rightarrow> bool option" where
  "lit_value t l \<equiv> eval l (dt_map t)"

lemma lit_value_assigned:
  "lit_value t l = Some True \<longleftrightarrow> assigned_value t (variable l) = Some (satisfying_value l)"
  "lit_value t l = Some False \<longleftrightarrow> assigned_value t (variable l) = Some (negate l)"
  "lit_value t l = None \<longleftrightarrow> assigned_value t (variable l) = None"
  by (simp_all add: eval_True_iff eval_False_iff eval_None_iff assigned_value_def)

lemma lit_value_False_trail:
  assumes "tracker_inv t"
  shows "lit_value t l = Some False \<longleftrightarrow> (\<exists>d \<in> set (dt_stack t). false_lit d = l)"
  using tracker_invD(2) [OF assms] by (auto simp: lit_value_assigned false_lit_iff)

text \<open>A tracker that only gained decisions.\<close>

definition extends :: "decision_tracker \<Rightarrow> decision_tracker \<Rightarrow> bool" where
  "extends t t' \<longleftrightarrow> (\<exists>ds. dt_stack t' = dt_stack t @ ds) \<and>
     (\<forall>v b. assigned_value t v = Some b \<longrightarrow> assigned_value t' v = Some b) \<and>
     (\<forall>d \<in> set (dt_stack t). tracker_level t' (d_variable d) = tracker_level t (d_variable d)) \<and>
     dt_sync_floor t' = dt_sync_floor t"

lemma extends_refl [simp]: "extends t t"
  by (simp add: extends_def)

lemma extends_trans: "extends t t' \<Longrightarrow> extends t' t'' \<Longrightarrow> extends t t''"
  unfolding extends_def by force

lemma extends_lit_value:
  assumes "extends t t'"
  shows "lit_value t l = Some b \<Longrightarrow> lit_value t' l = Some b"
  using assms by (cases b) (auto simp: extends_def lit_value_assigned)

lemma extends_push:
  assumes "tracker_inv t" "valid_level l" "assigned_value t (d_variable d) = None"
  shows "extends t (push_decision t d l)"
proof -
  have "\<forall>e \<in> set (dt_stack t). d_variable e \<noteq> d_variable d"
    using assms(1,3) assigned_value_None_iff by (simp only: assigned_value_None_iff not_in_image_iff)
  with assms show ?thesis by (auto simp: extends_def)
qed

section \<open>Reasons\<close>

definition reason_ok :: "solver_state \<Rightarrow> decision list \<Rightarrow> decision \<Rightarrow> bool" where
  "reason_ok s pre d \<longleftrightarrow> d_derived_from d < length (ss_kinds s) \<and>
     (\<exists>ls. lits s (kind_of s (d_derived_from d)) = Some ls \<and> true_lit d \<in> set ls \<and>
       (\<forall>l \<in> set ls. l \<noteq> true_lit d \<longrightarrow> (\<exists>e \<in> set pre. false_lit e = l)))"

definition first_of_level :: "decision_tracker \<Rightarrow> nat \<Rightarrow> bool" where
  "first_of_level t i \<longleftrightarrow>
     (\<forall>j < i. tracker_level t (d_variable (dt_stack t ! j)) < tracker_level t (d_variable (dt_stack t ! i)))"

definition trail_ok :: "solver_state \<Rightarrow> bool" where
  "trail_ok s \<longleftrightarrow> (\<forall>i < length (dt_stack (ss_decision_tracker s)).
     first_of_level (ss_decision_tracker s) i \<or>
     reason_ok s (take i (dt_stack (ss_decision_tracker s))) (dt_stack (ss_decision_tracker s) ! i))"

text \<open>What the reasons depend on.\<close>

definition same_clauses :: "solver_state \<Rightarrow> solver_state \<Rightarrow> bool" where
  "same_clauses s s' \<longleftrightarrow> ss_kinds s' = ss_kinds s \<and> (\<forall>k. lits s' k = lits s k)"

lemma reason_ok_cong: "same_clauses s s' \<Longrightarrow> reason_ok s' pre d = reason_ok s pre d"
  by (simp add: reason_ok_def same_clauses_def)

lemma reason_ok_mono: "reason_ok s pre d \<Longrightarrow> set pre \<subseteq> set pre' \<Longrightarrow> reason_ok s pre' d"
  unfolding reason_ok_def by blast

text \<open>Pushing a decision with a good reason keeps the trail.\<close>

lemma first_of_level_extends:
  assumes "extends t t'" "i < length (dt_stack t)"
  shows "first_of_level t' i = first_of_level t i"
proof -
  from assms(1) obtain ds where "dt_stack t' = dt_stack t @ ds" by (auto simp: extends_def)
  with assms show ?thesis by (auto simp: first_of_level_def extends_def nth_append)
qed

lemma trail_ok_push:
  assumes "trail_ok s" "tracker_inv (ss_decision_tracker s)" "valid_level l"
    "assigned_value (ss_decision_tracker s) (d_variable d) = None"
    "reason_ok s (dt_stack (ss_decision_tracker s)) d \<or>
     (\<forall>e \<in> set (dt_stack (ss_decision_tracker s)). tracker_level (ss_decision_tracker s) (d_variable e) < l)"
    "same_clauses s s'" "ss_decision_tracker s' = push_decision (ss_decision_tracker s) d l"
  shows "trail_ok s'"
  unfolding trail_ok_def
proof (intro allI impI)
  let ?t = "ss_decision_tracker s"
  let ?t' = "push_decision ?t d l"
  note ext = extends_push [OF assms(2,3,4)]
  fix i
  assume "i < length (dt_stack (ss_decision_tracker s'))"
  then consider "i < length (dt_stack ?t)" | "i = length (dt_stack ?t)"
    using assms(7) by (auto simp: less_Suc_eq)
  then show "first_of_level (ss_decision_tracker s') i \<or>
      reason_ok s' (take i (dt_stack (ss_decision_tracker s'))) (dt_stack (ss_decision_tracker s') ! i)"
  proof cases
    case 1
    with assms(1) have "first_of_level ?t i \<or> reason_ok s (take i (dt_stack ?t)) (dt_stack ?t ! i)"
      by (simp add: trail_ok_def)
    with 1 show ?thesis
      using first_of_level_extends [OF ext 1] reason_ok_cong [OF assms(6)] assms(7)
      by (simp add: nth_append)
  next
    case 2
    have notin: "\<forall>e \<in> set (dt_stack ?t). d_variable e \<noteq> d_variable d"
      using assms(2,4) by (simp only: assigned_value_None_iff not_in_image_iff)
    have "first_of_level ?t' i" if "\<forall>e \<in> set (dt_stack ?t). tracker_level ?t (d_variable e) < l"
      using that notin 2 assms(3) by (auto simp: first_of_level_def nth_append)
    with 2 assms(5) show ?thesis
      using reason_ok_cong [OF assms(6)] assms(7) by auto
  qed
qed

lemma trail_ok_cong:
  assumes "trail_ok s" "same_clauses s s'"
    "dt_stack (ss_decision_tracker s') = dt_stack (ss_decision_tracker s)"
    "dt_map (ss_decision_tracker s') = dt_map (ss_decision_tracker s)"
  shows "trail_ok s'"
  using assms reason_ok_cong [OF assms(2)]
  by (simp add: trail_ok_def first_of_level_def tracker_level_def)

section \<open>Undoing\<close>

text \<open>A tracker whose trail is a prefix of another's, with the same values and levels on it.\<close>

definition undone :: "decision_tracker \<Rightarrow> decision_tracker \<Rightarrow> bool" where
  "undone t t' \<longleftrightarrow> tracker_inv t' \<and> (\<exists>ds. dt_stack t = dt_stack t' @ ds) \<and>
     dt_sync_floor t' = min (dt_sync_floor t) (length (dt_stack t')) \<and>
     (\<forall>d \<in> set (dt_stack t'). tracker_level t' (d_variable d) = tracker_level t (d_variable d))"

lemma undone_refl: "tracker_inv t \<Longrightarrow> undone t t"
  using tracker_invD(6) [of t] by (simp add: undone_def)

lemma undone_trans: "undone t t' \<Longrightarrow> undone t' t'' \<Longrightarrow> undone t t''"
  unfolding undone_def by force

lemma undoneD [inv_dests]:
  assumes "undone t t'"
  shows "tracker_inv t'" "set (dt_stack t') \<subseteq> set (dt_stack t)"
    "d \<in> set (dt_stack t') \<Longrightarrow> tracker_level t' (d_variable d) = tracker_level t (d_variable d)"
    "level_above t l \<Longrightarrow> level_above t' l"
  using assms by (auto simp: undone_def level_above_def)

lemma undone_pop:
  assumes "tracker_inv t" "dt_stack t \<noteq> []"
  shows "undone t (pop_decision t)"
proof -
  obtain ds d where st: "dt_stack t = ds @ [d]" using assms(2) by (cases "dt_stack t" rule: rev_cases) auto
  with tracker_invD(1) [OF assms(1)] have "\<forall>e \<in> set ds. d_variable e \<noteq> d_variable d"
    by (metis distinct_map_snoc)
  with st pop_decision_inv [OF assms] show ?thesis by (auto simp: undone_def)
qed

lemma undone_first_of_level:
  assumes "undone t t'" "i < length (dt_stack t')"
  shows "first_of_level t' i = first_of_level t i"
proof -
  from assms(1) obtain ds where "dt_stack t = dt_stack t' @ ds" by (auto simp: undone_def)
  with assms show ?thesis by (auto simp: first_of_level_def undone_def nth_append)
qed

lemma trail_ok_undone:
  assumes "trail_ok s" "undone (ss_decision_tracker s) t'" "same_clauses s s'" "ss_decision_tracker s' = t'"
  shows "trail_ok s'"
proof -
  from assms(2) obtain ds where "dt_stack (ss_decision_tracker s) = dt_stack t' @ ds" by (auto simp: undone_def)
  then have ok: "first_of_level (ss_decision_tracker s) i \<or> reason_ok s (take i (dt_stack t')) (dt_stack t' ! i)"
    if "i < length (dt_stack t')" for i
    using assms(1) that unfolding trail_ok_def by (auto simp: nth_append dest!: spec [of _ i])
  show ?thesis
    using ok undone_first_of_level [OF assms(2)] reason_ok_cong [OF assms(3)]
    by (simp add: trail_ok_def assms(4))
qed

text \<open>What undoing to a level leaves.\<close>

definition keeps_below :: "decision_tracker \<Rightarrow> decision_tracker \<Rightarrow> level \<Rightarrow> bool" where
  "keeps_below t t' l \<longleftrightarrow> (\<forall>e \<in> set (dt_stack t). tracker_level t (d_variable e) \<le> l \<longrightarrow> e \<in> set (dt_stack t'))"

lemma extends_moves: "extends t t' \<Longrightarrow> tracker_inv t \<Longrightarrow> tracker_inv t' \<Longrightarrow> moves t t'"
  using tracker_invD(6) [of t] by (auto simp: extends_def moves_def)

lemma undone_moves: "undone t t' \<Longrightarrow> moves t t'"
  by (auto simp: undone_def moves_def)

text \<open>The last entry of a trail: its level is maximal, its variable does not occur below.\<close>

lemma trail_last:
  assumes "tracker_inv t" "dt_stack t = ds @ [d]"
  shows "e \<in> set ds \<Longrightarrow> tracker_level t (d_variable e) \<le> tracker_level t (d_variable d)"
    "e \<in> set ds \<Longrightarrow> d_variable e \<noteq> d_variable d"
  using tracker_invD(1,3) [OF assms(1)] assms(2) by (auto simp: sorted_append not_in_image_iff)

lemma trail_ok_last:
  assumes "trail_ok s" "tracker_inv (ss_decision_tracker s)" "dt_stack (ss_decision_tracker s) = ds @ [d]" "e \<in> set ds"
    "tracker_level (ss_decision_tracker s) (d_variable e) = tracker_level (ss_decision_tracker s) (d_variable d)"
  shows "reason_ok s ds d"
proof -
  from assms(4) obtain j where j: "j < length ds" "ds ! j = e" by (auto simp: in_set_conv_nth)
  have "\<not> first_of_level (ss_decision_tracker s) (length ds)"
    using j assms(3,5) by (auto simp: first_of_level_def nth_append intro!: exI [of _ j])
  moreover have "first_of_level (ss_decision_tracker s) (length ds) \<or> reason_ok s ds d"
    using assms(1,3) by (auto simp: trail_ok_def dest: spec [of _ "length ds"])
  ultimately show ?thesis by blast
qed

section \<open>Bounds\<close>

text \<open>Every literal of every clause and every decision is about one of \<open>n\<close> variables.\<close>

definition bounded :: "solver_state \<Rightarrow> nat \<Rightarrow> bool" where
  "bounded s n \<longleftrightarrow>
     (\<forall>k \<in> set (ss_kinds s). \<forall>ls. lits s k = Some ls \<longrightarrow> (\<forall>l \<in> set ls. variable l < n)) \<and>
     (\<forall>d \<in> set (dt_stack (ss_decision_tracker s)). d_variable d < n)"

lemma trail_length_bound:
  assumes "tracker_inv (ss_decision_tracker s)" "bounded s n"
  shows "length (dt_stack (ss_decision_tracker s)) \<le> n"
proof -
  let ?vs = "map d_variable (dt_stack (ss_decision_tracker s))"
  have "card (set ?vs) \<le> card {..<n}" using assms(2) by (intro card_mono) (auto simp: bounded_def)
  moreover have "card (set ?vs) = length ?vs"
    using tracker_invD(1) [OF assms(1)] by (rule distinct_card)
  ultimately show ?thesis by simp
qed

section \<open>Meaning\<close>

text \<open>A valuation satisfies the clauses; a set of clauses implies a disjunction.\<close>

definition clause_holds :: "valuation \<Rightarrow> solver_state \<Rightarrow> clause_id \<Rightarrow> bool" where
  "clause_holds M s c \<longleftrightarrow> (\<forall>ls. lits s (kind_of s c) = Some ls \<longrightarrow> clause_true M ls)"

definition models :: "valuation \<Rightarrow> solver_state \<Rightarrow> bool" where
  "models M s \<longleftrightarrow> (\<forall>c < length (ss_kinds s). clause_holds M s c)"

definition implied :: "solver_state \<Rightarrow> clause_id set \<Rightarrow> literal set \<Rightarrow> bool" where
  "implied s cs R \<longleftrightarrow> (\<forall>M. (\<forall>c \<in> cs. clause_holds M s c) \<longrightarrow> (\<exists>l \<in> R. lit_true M l))"

lemma lit_true_decision [simp]:
  "lit_true M (true_lit d) \<longleftrightarrow> M (d_variable d) = d_value d"
  "lit_true M (false_lit d) \<longleftrightarrow> M (d_variable d) \<noteq> d_value d"
  by (auto simp: true_lit_def false_lit_def)

text \<open>A valuation agrees with the trail if it satisfies the clauses and agrees with the decisions.\<close>

definition agrees :: "valuation \<Rightarrow> decision list \<Rightarrow> bool" where
  "agrees M ds \<longleftrightarrow> (\<forall>d \<in> set ds. M (d_variable d) = d_value d)"

definition decisions_of :: "solver_state \<Rightarrow> decision list" where
  "decisions_of s = map (nth (dt_stack (ss_decision_tracker s)))
     (filter (first_of_level (ss_decision_tracker s)) [0..<length (dt_stack (ss_decision_tracker s))])"

lemma reason_forces:
  assumes "reason_ok s pre d" "clause_holds M s (d_derived_from d)" "agrees M pre"
  shows "M (d_variable d) = d_value d"
proof -
  from assms(1,2) obtain ls l where l: "l \<in> set ls" "lit_true M l"
    "\<forall>l \<in> set ls. l \<noteq> true_lit d \<longrightarrow> (\<exists>e \<in> set pre. false_lit e = l)"
    by (auto simp: reason_ok_def clause_holds_def clause_true_def)
  have "l = true_lit d"
  proof (rule ccontr)
    assume "l \<noteq> true_lit d"
    with l obtain e where "e \<in> set pre" "lit_true M (false_lit e)" by auto
    with assms(3) show False by (simp add: agrees_def)
  qed
  with l(2) show ?thesis by simp
qed

lemma trail_entailed:
  assumes ok: "trail_ok s" and M: "models M s" "agrees M (decisions_of s)"
  shows "agrees M (dt_stack (ss_decision_tracker s))"
proof -
  let ?st = "dt_stack (ss_decision_tracker s)"
  have "M (d_variable (?st ! i)) = d_value (?st ! i)" if "i < length ?st" for i
    using that
  proof (induction i rule: less_induct)
    case (less i)
    from ok less.prems consider "first_of_level (ss_decision_tracker s) i" | "reason_ok s (take i ?st) (?st ! i)"
      by (auto simp: trail_ok_def)
    then show ?case
    proof cases
      case 1
      with M(2) less.prems show ?thesis by (auto simp: agrees_def decisions_of_def)
    next
      case 2
      have "agrees M (take i ?st)" using less by (auto simp: agrees_def in_set_conv_nth)
      moreover have "clause_holds M s (d_derived_from (?st ! i))"
        using 2 M(1) by (simp add: reason_ok_def models_def)
      ultimately show ?thesis using reason_forces [OF 2] by blast
    qed
  qed
  then show ?thesis by (auto simp: agrees_def in_set_conv_nth)
qed

section \<open>Growing databases\<close>

text \<open>More clauses, with the literals of the old ones unchanged.\<close>

definition grows :: "solver_state \<Rightarrow> solver_state \<Rightarrow> bool" where
  "grows s s' \<longleftrightarrow> (\<exists>ks. ss_kinds s' = ss_kinds s @ ks) \<and>
     (\<forall>c < length (ss_kinds s). \<forall>ls. lits s (kind_of s c) = Some ls \<longrightarrow> lits s' (kind_of s c) = Some ls)"

lemma growsD:
  assumes "grows s s'" "c < length (ss_kinds s)"
  shows "c < length (ss_kinds s')" "kind_of s' c = kind_of s c"
    "lits s (kind_of s c) = Some ls \<Longrightarrow> lits s' (kind_of s c) = Some ls"
  using assms by (auto simp: grows_def nth_append)

lemma grows_refl [simp]: "grows s s"
  by (simp add: grows_def)

lemma grows_trans:
  assumes "grows s s'" "grows s' s''"
  shows "grows s s''"
proof -
  have "ss_kinds s'' = ss_kinds s @ ks @ ks'" if "ss_kinds s' = ss_kinds s @ ks" "ss_kinds s'' = ss_kinds s' @ ks'" for ks ks'
    using that by simp
  then show ?thesis
    using assms growsD [OF assms(1)] growsD(3) [OF assms(2)] unfolding grows_def by metis
qed

lemma clause_holds_grows:
  "grows s s' \<Longrightarrow> c < length (ss_kinds s) \<Longrightarrow> clause_holds M s' c \<Longrightarrow> clause_holds M s c"
  using growsD [of s s' c] by (auto simp: clause_holds_def)

lemma models_grows: "grows s s' \<Longrightarrow> models M s' \<Longrightarrow> models M s"
  using clause_holds_grows growsD(1) unfolding models_def by blast

lemma implied_grows:
  "implied s cs R \<Longrightarrow> grows s s' \<Longrightarrow> \<forall>c \<in> cs. c < length (ss_kinds s) \<Longrightarrow> implied s' cs R"
  using clause_holds_grows unfolding implied_def by blast

lemma reason_ok_grows: "reason_ok s pre d \<Longrightarrow> grows s s' \<Longrightarrow> reason_ok s' pre d"
  using growsD unfolding reason_ok_def by metis

lemma trail_ok_grows:
  assumes "trail_ok s" "grows s s'" "ss_decision_tracker s' = ss_decision_tracker s"
  shows "trail_ok s'"
  using assms reason_ok_grows by (auto simp: trail_ok_def)

section \<open>What the search leaves alone\<close>

text \<open>The search adds learnt clauses, moves watches and the trail, and updates activities.\<close>

definition but_search :: "solver_state \<Rightarrow> solver_state" where
  "but_search s = s\<lparr>ss_kinds := [], ss_watched_literals := [], ss_watches := Map.empty, ss_learnt_clauses := [],
     ss_learnt_why := Map.empty, ss_learnt_clause_ids := [], ss_decision_tracker := DecisionTracker_default,
     ss_name_activity := Map.empty, ss_max_activity := 0, ss_decide_queue := DecideQueue_default\<rparr>"

definition search_frame :: "solver_state \<Rightarrow> solver_state \<Rightarrow> bool" where
  "search_frame s s' \<longleftrightarrow> but_search s' = but_search s \<and> hotter (ss_decide_queue s) (ss_decide_queue s')"

lemma search_frame_refl [simp]: "search_frame s s"
  by (simp add: search_frame_def)

lemma search_frame_trans: "search_frame s s' \<Longrightarrow> search_frame s' s'' \<Longrightarrow> search_frame s s''"
  using hotter_trans by (auto simp: search_frame_def)

lemma search_frameD:
  assumes "search_frame s s'"
  shows "ss_requirement_to_sorted_candidates s' = ss_requirement_to_sorted_candidates s"
    "ss_variable_map s' = ss_variable_map s" "ss_negative_assertions s' = ss_negative_assertions s"
    "ss_disjunctions s' = ss_disjunctions s" "ss_clauses_added_for_package s' = ss_clauses_added_for_package s"
    "ss_clauses_added_for_solvable s' = ss_clauses_added_for_solvable s"
    "ss_allow_multiple_names s' = ss_allow_multiple_names s" "ss_at_most_one_trackers s' = ss_at_most_one_trackers s"
    "ss_at_least_one_tracker s' = ss_at_least_one_tracker s" "ss_constrains_aux_vars s' = ss_constrains_aux_vars s"
    "ss_requires_aux_vars s' = ss_requires_aux_vars s" "ss_requires_gate_requirers s' = ss_requires_gate_requirers s"
    "ss_deferred_requirements s' = ss_deferred_requirements s" "hotter (ss_decide_queue s) (ss_decide_queue s')"
  using assms by (cases s; cases s'; simp add: search_frame_def but_search_def)+

section \<open>Backtracking a rooted trail\<close>

text \<open>The first entry of the trail is the root, installed at the first level.\<close>

definition rooted :: "decision_tracker \<Rightarrow> bool" where
  "rooted t \<longleftrightarrow> dt_stack t \<noteq> [] \<and> tracker_level t (d_variable (hd (dt_stack t))) = 1 \<and>
     d_variable (hd (dt_stack t)) = 0 \<and> d_value (hd (dt_stack t))"

lemma rooted_undone: "rooted t \<Longrightarrow> undone t t' \<Longrightarrow> dt_stack t' \<noteq> [] \<Longrightarrow> rooted t'"
  unfolding rooted_def undone_def by (cases "dt_stack t'") auto

lemma rooted_extends: "rooted t \<Longrightarrow> extends t t' \<Longrightarrow> rooted t'"
  unfolding rooted_def extends_def by (metis append_is_Nil_conv hd_append2 hd_in_set)

lemma undo_until_rooted:
  assumes "tracker_inv t" "rooted t" "1 \<le> l"
  obtains t' where "undo_until l t = Some t'" "undone t t'" "level_above t' l" "rooted t'"
    "\<And>v. assigned_value t' v = (if tracker_level t v \<le> l then assigned_value t v else None)"
    "\<And>d. d \<in> set (dt_stack t) \<Longrightarrow> tracker_level t (d_variable d) \<le> l \<Longrightarrow> d \<in> set (dt_stack t')"
    "dt_propagate_index t' = (if dt_stack t' = dt_stack t then dt_propagate_index t else length (dt_stack t'))"
proof -
  let ?h = "hd (dt_stack t)"
  have h: "?h \<in> set (dt_stack t)" "tracker_level t (d_variable ?h) \<le> l"
    using assms(2,3) by (auto simp: rooted_def)
  from undo_until_effect [OF assms(1) h] obtain t' where t': "undo_until l t = Some t'" "tracker_inv t'"
    "dt_stack t' = below_level t l"
    "\<forall>v. assigned_value t' v = (if tracker_level t v \<le> l then assigned_value t v else None)"
    "\<forall>v. tracker_level t' v = (if tracker_level t v \<le> l then tracker_level t v else 0)"
    "dt_propagate_index t' = (if dt_stack t' = dt_stack t then dt_propagate_index t else length (dt_stack t'))"
    "dt_sync_floor t' = min (dt_sync_floor t) (length (dt_stack t'))"
    by blast
  have eq: "below_level t l = filter (\<lambda>e. tracker_level t (d_variable e) \<le> l) (dt_stack t)"
    unfolding below_level_def by (rule takeWhile_eq_filter_sorted [OF tracker_invD(3) [OF assms(1)]])
  have "dt_stack t = below_level t l @ dropWhile (\<lambda>d. tracker_level t (d_variable d) \<le> l) (dt_stack t)"
    by (simp add: below_level_def)
  then have un: "undone t t'" using t'(2,3,5,7) eq by (auto simp: undone_def)
  moreover have "dt_stack t' \<noteq> []" using h t'(3) eq by (auto simp: filter_empty_conv)
  ultimately have "rooted t'" using rooted_undone [OF assms(2)] by blast
  with t' un eq show thesis
    by (intro that [of t']) (auto simp: level_above_def)
qed

end
