(* ===== verification/Propagation.thy ===== *)
theory Propagation
  imports Trail
begin

text \<open>
  Unit propagation, \<open>propagate_impl\<close>, \<open>decide_assertions\<close> and \<open>decide_learned\<close> of
  \<open>src/solver/mod.rs\<close>. A result is a pair of an outcome (\<open>Inl\<close> the error, \<open>Inr\<close> success)
  and the state, because the code keeps the changes it made before an error; the whole is an
  \<open>option\<close> whose \<open>None\<close> is a panic or a loop that does not end. The theory shows that neither
  happens, that every new decision has a correct reason, that a reported conflict is a
  falsified clause, and that the literals falsified by the processed decisions are watched
  only by satisfied clauses afterwards. Logging and the optional counters are left out.
\<close>

section \<open>The loops\<close>

datatype 'c propagation_error = PE_Conflict variable_id bool clause_id | PE_Cancelled 'c

type_synonym 'c outcome = "'c propagation_error + unit"

text \<open>\<open>decide_assertions\<close>: the loop over the negative assertions.\<close>

fun decide_assertions_loop ::
  "level \<Rightarrow> (variable_id \<times> clause_id) list \<Rightarrow> solver_state \<Rightarrow> 'c outcome \<times> solver_state" where
  "decide_assertions_loop level [] s = (Inr (), s)"
| "decide_assertions_loop level ((solvable_id, clause_id) # rest) s =
     (case try_add_decision (ss_decision_tracker s) (Decision_new solvable_id False clause_id) level of
        Inl _ \<Rightarrow> (Inl (PE_Conflict solvable_id False clause_id), s)
      | Inr (_, t) \<Rightarrow> decide_assertions_loop level rest (s\<lparr>ss_decision_tracker := t\<rparr>))"

definition decide_assertions :: "level \<Rightarrow> solver_state \<Rightarrow> 'c outcome \<times> solver_state" where
  "decide_assertions level s = decide_assertions_loop level (ss_negative_assertions s) s"

text \<open>\<open>decide_learned\<close>: the learnt clauses with a single literal.\<close>

fun decide_learned_loop ::
  "level \<Rightarrow> clause_id list \<Rightarrow> solver_state \<Rightarrow> ('c outcome \<times> solver_state) option" where
  "decide_learned_loop level [] s = Some (Inr (), s)"
| "decide_learned_loop level (clause_id # rest) s =
     Option.bind (slice_get (ss_kinds s) clause_id) (\<lambda>kind. case kind of
       Learnt learnt_index \<Rightarrow>
         Option.bind (slice_get (ss_learnt_clauses s) learnt_index) (\<lambda>literals.
           if length literals > 1 then decide_learned_loop level rest s
           else Option.bind (slice_get literals 0) (\<lambda>literal.
             case try_add_decision (ss_decision_tracker s)
                 (Decision_new (variable literal) (satisfying_value literal) clause_id) level of
               Inl _ \<Rightarrow> Some (Inl (PE_Conflict (variable literal) (satisfying_value literal) clause_id), s)
             | Inr (_, t) \<Rightarrow> decide_learned_loop level rest (s\<lparr>ss_decision_tracker := t\<rparr>)))
     | _ \<Rightarrow> None)"

definition decide_learned :: "level \<Rightarrow> solver_state \<Rightarrow> ('c outcome \<times> solver_state) option" where
  "decide_learned level s = decide_learned_loop level (ss_learnt_clause_ids s) s"

text \<open>One clause of a watch list: the body of the inner loop of \<open>propagate_impl\<close>.\<close>

definition visit_clause ::
  "level \<Rightarrow> watch_cursor \<Rightarrow> solver_state \<Rightarrow> (('c propagation_error + watch_cursor option) \<times> solver_state) option" where
  "visit_clause level cursor s =
     (let clause_id = wn_clause_id (cu_current cursor);
          watch_index = wn_watch_index (cu_current cursor) in
      Option.bind (slice_get (ss_kinds s) clause_id) (\<lambda>clause.
      Option.bind (cursor_watched_literals (ss_watched_literals s) cursor) (\<lambda>w.
      let other_watched_literal = arr2_get (wl_watched w) (1 - watch_index) in
      if lit_value (ss_decision_tracker s) other_watched_literal = Some True
      then map_option (\<lambda>next. (Inr next, s)) (cursor_next (ss_watched_literals s) cursor)
      else Option.bind
        (if is_binary clause then Some None
         else next_unwatched_literal w clause (ss_learnt_clauses s) (ss_requirement_to_sorted_candidates s)
           (ss_disjunctions s) (dt_map (ss_decision_tracker s)) watch_index) (\<lambda>found.
        case found of
          Some literal \<Rightarrow>
            map_option (\<lambda>(next, m, ws). (Inr next, s\<lparr>ss_watches := m, ss_watched_literals := ws\<rparr>))
              (cursor_update (ss_watches s) (ss_watched_literals s) cursor literal)
        | None \<Rightarrow>
            (case try_add_decision (ss_decision_tracker s)
                (Decision_new (variable other_watched_literal) (satisfying_value other_watched_literal) clause_id)
                level of
               Inl _ \<Rightarrow> Some (Inl (PE_Conflict (variable other_watched_literal) True clause_id), s)
             | Inr (_, t) \<Rightarrow>
                 map_option (\<lambda>next. (Inr next, s\<lparr>ss_decision_tracker := t\<rparr>))
                   (cursor_next (ss_watched_literals s) cursor))))))"

partial_function (option) walk_watches ::
  "level \<Rightarrow> watch_cursor option \<Rightarrow> solver_state \<Rightarrow> ('c outcome \<times> solver_state) option" where
  "walk_watches level next_cursor s = (case next_cursor of
     None \<Rightarrow> Some (Inr (), s)
   | Some cursor \<Rightarrow> Option.bind (visit_clause level cursor s) (\<lambda>r. case r of
       (Inl e, s') \<Rightarrow> Some (Inl e, s')
     | (Inr next, s') \<Rightarrow> walk_watches level next s'))"

partial_function (option) propagate_loop :: "level \<Rightarrow> solver_state \<Rightarrow> ('c outcome \<times> solver_state) option" where
  "propagate_loop level s =
     Option.bind (next_unpropagated (ss_decision_tracker s)) (\<lambda>(d, t).
       let s1 = s\<lparr>ss_decision_tracker := t\<rparr> in
       case d of
         None \<Rightarrow> Some (Inr (), s1)
       | Some decision \<Rightarrow>
           let watched_literal = Literal_new (d_variable decision) (d_value decision) in
           Option.bind (WatchMap_cursor (ss_watches s1) (ss_watched_literals s1) watched_literal) (\<lambda>cursor.
           Option.bind (walk_watches level cursor s1) (\<lambda>r. case r of
             (Inl e, s2) \<Rightarrow> Some (Inl e, s2)
           | (Inr _, s2) \<Rightarrow> propagate_loop level s2)))"

declare walk_watches.simps [code] propagate_loop.simps [code]

text \<open>The provider may cancel at the start of every propagation.\<close>

definition propagate_impl ::
  "'c option \<Rightarrow> level \<Rightarrow> solver_state \<Rightarrow> ('c outcome \<times> solver_state) option" where
  "propagate_impl should_cancel_with_value level s = (case should_cancel_with_value of
     Some value \<Rightarrow> Some (Inl (PE_Cancelled value), s)
   | None \<Rightarrow> (case decide_assertions level s of
       (Inl e, s1) \<Rightarrow> Some (Inl e, s1)
     | (Inr _, s1) \<Rightarrow> Option.bind (decide_learned level s1) (\<lambda>r. case r of
         (Inl e, s2) \<Rightarrow> Some (Inl e, s2)
       | (Inr _, s2) \<Rightarrow> propagate_loop level s2)))"

definition propagate :: "'c option \<Rightarrow> level \<Rightarrow> solver_state \<Rightarrow> ('c outcome \<times> solver_state) option" where
  "propagate should_cancel_with_value level s = propagate_impl should_cancel_with_value level s"

section \<open>The invariant of propagation\<close>

text \<open>The assertions: clauses with exactly one literal, which propagation asserts.\<close>

definition assertions_ok :: "solver_state \<Rightarrow> bool" where
  "assertions_ok s \<longleftrightarrow>
     (\<forall>(v, c) \<in> set (ss_negative_assertions s).
        c < length (ss_kinds s) \<and> lits s (kind_of s c) = Some [negative v]) \<and>
     (\<forall>c \<in> set (ss_learnt_clause_ids s). c < length (ss_kinds s) \<and>
        (\<exists>i < length (ss_learnt_clauses s). kind_of s c = Learnt i \<and> ss_learnt_clauses s ! i \<noteq> []))"

definition prop_inv :: "solver_state \<Rightarrow> (literal \<Rightarrow> clause_id list) \<Rightarrow> nat \<Rightarrow> bool" where
  "prop_inv s L n \<longleftrightarrow> db_inv s L \<and> tracker_inv (ss_decision_tracker s) \<and> trail_ok s \<and> bounded s n \<and>
     assertions_ok s"

text \<open>Propagation changes the watches and the trail only.\<close>

definition prop_frame :: "solver_state \<Rightarrow> solver_state \<Rightarrow> bool" where
  "prop_frame s s' \<longleftrightarrow> (\<exists>m ws t. s' = s\<lparr>ss_watches := m, ss_watched_literals := ws, ss_decision_tracker := t\<rparr>)"

lemma prop_frameD:
  assumes "prop_frame s s'"
  shows "ss_kinds s' = ss_kinds s" "lits s' k = lits s k" "same_clauses s s'"
    "ss_learnt_clauses s' = ss_learnt_clauses s" "ss_disjunctions s' = ss_disjunctions s"
    "ss_requirement_to_sorted_candidates s' = ss_requirement_to_sorted_candidates s"
    "assertions_ok s' = assertions_ok s" "ss_negative_assertions s' = ss_negative_assertions s"
    "ss_learnt_clause_ids s' = ss_learnt_clause_ids s" "ss_variable_map s' = ss_variable_map s"
  using assms by (auto simp: prop_frame_def lits_def same_clauses_def assertions_ok_def)

lemma prop_frame_refl [simp]: "prop_frame s s"
  unfolding prop_frame_def
  by (rule exI [of _ "ss_watches s"], rule exI [of _ "ss_watched_literals s"],
      rule exI [of _ "ss_decision_tracker s"]) simp

lemma prop_frame_trans: "prop_frame s s' \<Longrightarrow> prop_frame s' s'' \<Longrightarrow> prop_frame s s''"
  unfolding prop_frame_def
  by (elim exE, intro exI) (erule ssubst, erule ssubst, simp)

lemma prop_frame_update [simp]:
  "prop_frame s (s\<lparr>ss_decision_tracker := t\<rparr>)"
  "prop_frame s (s\<lparr>ss_watches := m, ss_watched_literals := ws\<rparr>)"
  unfolding prop_frame_def
  by (rule exI [of _ "ss_watches s"], rule exI [of _ "ss_watched_literals s"], rule exI [of _ t], simp)
    (rule exI [of _ m], rule exI [of _ ws], rule exI [of _ "ss_decision_tracker s"], simp)

lemma prop_invD [inv_dests]:
  assumes "prop_inv s L n"
  shows "db_inv s L" "tracker_inv (ss_decision_tracker s)" "trail_ok s" "bounded s n" "assertions_ok s"
  using assms by (simp_all add: prop_inv_def)

text \<open>A new decision with a good reason, on a tracker that has not decided the variable.\<close>

lemma prop_inv_push:
  assumes "prop_inv s L n" "valid_level l" "level_above (ss_decision_tracker s) l"
    "assigned_value (ss_decision_tracker s) (d_variable d) = None"
    "reason_ok s (dt_stack (ss_decision_tracker s)) d"
  shows "prop_inv (s\<lparr>ss_decision_tracker := push_decision (ss_decision_tracker s) d l\<rparr>) L n"
proof -
  let ?s = "s\<lparr>ss_decision_tracker := push_decision (ss_decision_tracker s) d l\<rparr>"
  note f = prop_frameD [OF prop_frame_update(1) [of s "push_decision (ss_decision_tracker s) d l"]]
  note i = prop_invD [OF assms(1)]
  have "d_variable d < n"
  proof -
    from assms(5) obtain ls where "kind_of s (d_derived_from d) \<in> set (ss_kinds s)"
      "lits s (kind_of s (d_derived_from d)) = Some ls" "true_lit d \<in> set ls"
      by (auto simp: reason_ok_def)
    with i(4) have "variable (true_lit d) < n" unfolding bounded_def by blast
    then show ?thesis by simp
  qed
  then have "bounded ?s n" using i(4) by (auto simp: bounded_def f)
  moreover have "trail_ok ?s"
    using trail_ok_push [OF i(3,2) assms(2,4) disjI1 [OF assms(5)] f(3)] by simp
  moreover have "db_inv ?s L" using i(1) by (simp add: db_inv_def)
  ultimately show ?thesis
    using i(5) push_decision_inv [OF i(2) assms(2,3,4)] by (simp add: prop_inv_def f)
qed

text \<open>All literals of a clause are false.\<close>

definition falsified :: "solver_state \<Rightarrow> clause_id \<Rightarrow> bool" where
  "falsified s c \<longleftrightarrow> c < length (ss_kinds s) \<and>
     (\<exists>ls. lits s (kind_of s c) = Some ls \<and>
       (\<forall>l \<in> set ls. lit_value (ss_decision_tracker s) l = Some False))"

text \<open>New decisions are made at the current level.\<close>

definition extends_at :: "level \<Rightarrow> decision_tracker \<Rightarrow> decision_tracker \<Rightarrow> bool" where
  "extends_at lv t t' \<longleftrightarrow> extends t t' \<and>
     (\<forall>d \<in> set (dt_stack t'). d \<in> set (dt_stack t) \<or> tracker_level t' (d_variable d) = lv)"

lemma extends_at_trans: "extends_at lv t t' \<Longrightarrow> extends_at lv t' t'' \<Longrightarrow> extends_at lv t t''"
  unfolding extends_at_def using extends_trans by (metis extends_def)

lemma extends_at_refl [simp]: "extends_at lv t t"
  by (simp add: extends_at_def)

lemma extends_atD: "extends_at lv t t' \<Longrightarrow> extends t t'"
  by (simp add: extends_at_def)

lemma extends_at_push:
  assumes "tracker_inv t" "valid_level l" "assigned_value t (d_variable d) = None"
  shows "extends_at l t (push_decision t d l)"
  using extends_push [OF assms] assms(2) by (simp add: extends_at_def)

text \<open>Asserting the only literal of a clause that is not false.\<close>

lemma try_add_unit:
  assumes "prop_inv s L n" "valid_level lv" "level_above (ss_decision_tracker s) lv"
    and c: "c < length (ss_kinds s)" "lits s (kind_of s c) = Some ls" "l \<in> set ls"
    and others: "\<And>k. k \<in> set ls \<Longrightarrow> k \<noteq> l \<Longrightarrow> lit_value (ss_decision_tracker s) k = Some False"
  shows "case try_add_decision (ss_decision_tracker s) (Decision_new (variable l) (satisfying_value l) c) lv of
      Inl _ \<Rightarrow> falsified s c
    | Inr (_, t) \<Rightarrow> prop_inv (s\<lparr>ss_decision_tracker := t\<rparr>) L n \<and> level_above t lv \<and>
        extends_at lv (ss_decision_tracker s) t \<and> lit_value t l = Some True \<and>
        dt_propagate_index t = dt_propagate_index (ss_decision_tracker s)"
proof -
  let ?t = "ss_decision_tracker s" and ?d = "Decision_new (variable l) (satisfying_value l) c"
  note i = prop_invD [OF assms(1)]
  have reason: "reason_ok s (dt_stack ?t) ?d"
    using c others lit_value_False_trail [OF i(2)] by (auto simp: reason_ok_def)
  show ?thesis
  proof (cases rule: try_add_decision_cases [of ?t ?d lv])
    case fresh
    then have fr: "assigned_value ?t (d_variable ?d) = None" by simp
    show ?thesis
      using fresh(2) prop_inv_push [OF assms(1-3) fr reason] extends_at_push [OF i(2) assms(2) fr] assms(2,3)
      by (simp add: level_above_push lit_value_assigned)
  next
    case same
    with assms show ?thesis by (simp add: lit_value_assigned)
  next
    case conflict
    then have "lit_value ?t l = Some False" by (simp add: lit_value_assigned satisfying_value_def)
    with conflict c others show ?thesis by (auto simp: falsified_def)
  qed
qed

section \<open>Visiting one clause\<close>

text \<open>
  A clause is quiet for a literal when its other watch is true. Once quiet for a false
  literal, a clause stays so: watches only move from false literals to others.
\<close>

definition quiet_at :: "solver_state \<Rightarrow> literal \<Rightarrow> clause_id \<Rightarrow> bool" where
  "quiet_at s l c \<longleftrightarrow> (\<exists>k. k \<noteq> l \<and> watches_lit (ss_watched_literals s) k c \<and>
     lit_value (ss_decision_tracker s) k = Some True)"

definition quiet :: "solver_state \<Rightarrow> literal \<Rightarrow> bool" where
  "quiet s l \<longleftrightarrow> (\<forall>c. watches_lit (ss_watched_literals s) l c \<longrightarrow> quiet_at s l c)"

definition keeps_quiet :: "solver_state \<Rightarrow> solver_state \<Rightarrow> bool" where
  "keeps_quiet s s' \<longleftrightarrow> (\<forall>l c. lit_value (ss_decision_tracker s) l = Some False \<longrightarrow>
     watches_lit (ss_watched_literals s') l c \<longrightarrow>
     watches_lit (ss_watched_literals s) l c \<and> (quiet_at s l c \<longrightarrow> quiet_at s' l c))"

definition progress :: "level \<Rightarrow> solver_state \<Rightarrow> solver_state \<Rightarrow> bool" where
  "progress lv s s' \<longleftrightarrow> prop_frame s s' \<and> level_above (ss_decision_tracker s') lv \<and>
     extends_at lv (ss_decision_tracker s) (ss_decision_tracker s') \<and> keeps_quiet s s' \<and>
     dom (watched_of (ss_watched_literals s')) = dom (watched_of (ss_watched_literals s))"

lemma progressD [inv_dests]:
  assumes "progress lv s s'"
  shows "prop_frame s s'" "level_above (ss_decision_tracker s') lv"
    "extends (ss_decision_tracker s) (ss_decision_tracker s')" "keeps_quiet s s'"
    "extends_at lv (ss_decision_tracker s) (ss_decision_tracker s')"
    "dom (watched_of (ss_watched_literals s')) = dom (watched_of (ss_watched_literals s))"
  using assms by (simp_all add: progress_def extends_at_def)

lemma progress_refl: "level_above (ss_decision_tracker s) lv \<Longrightarrow> progress lv s s"
  by (simp add: progress_def keeps_quiet_def)

lemma progress_trans:
  assumes "progress lv s s'" "progress lv s' s''"
  shows "progress lv s s''"
proof -
  note p = progressD [OF assms(1)] and q = progressD [OF assms(2)]
  have "keeps_quiet s s''"
    using p(4) q(4) extends_lit_value [OF p(3)] unfolding keeps_quiet_def by blast
  with p q show ?thesis
    unfolding progress_def by (metis prop_frame_trans extends_at_trans)
qed

lemma progress_tracker:
  assumes "extends_at lv (ss_decision_tracker s) t" "level_above t lv"
  shows "progress lv s (s\<lparr>ss_decision_tracker := t\<rparr>)"
  using assms extends_lit_value [OF extends_atD [OF assms(1)]]
  by (auto simp: progress_def keeps_quiet_def quiet_at_def)

lemma keeps_quiet_quiet:
  "keeps_quiet s s' \<Longrightarrow> lit_value (ss_decision_tracker s) l = Some False \<Longrightarrow> quiet s l \<Longrightarrow> quiet s' l"
  unfolding quiet_def keeps_quiet_def by blast

text \<open>Moving a watch of a clause from a false literal to one that is not false.\<close>

lemma progress_move:
  assumes ws: "watched_of ws' = (watched_of (ss_watched_literals s))(c \<mapsto> arr2_set (wl_watched w) i new)"
    and w: "c < length (ss_watched_literals s)" "ss_watched_literals s ! c = Some w" and i: "i < 2"
    and old: "lit_value (ss_decision_tracker s) (arr2_get (wl_watched w) i) = Some False"
    and new: "lit_value (ss_decision_tracker s) new \<noteq> Some False"
    and lv: "level_above (ss_decision_tracker s) lv"
  shows "progress lv s (s\<lparr>ss_watches := m, ss_watched_literals := ws'\<rparr>)"
proof -
  obtain a b where ab: "wl_watched w = (a, b)" by fastforce
  have c: "watched_of (ss_watched_literals s) c = Some (a, b)"
    using w ab by (simp add: watched_of_nth)
  have i01: "i = 0 \<or> i = 1" using i by auto
  have "keeps_quiet s (s\<lparr>ss_watches := m, ss_watched_literals := ws'\<rparr>)"
    unfolding keeps_quiet_def quiet_at_def watches_lit_watched_of
    using i01 old new ab c by (auto simp: ws split: if_splits)
  moreover have "c \<in> dom (watched_of (ss_watched_literals s))" using c by auto
  ultimately show ?thesis using lv by (simp add: progress_def ws insert_absorb)
qed

text \<open>The cursor after a visit: on the next clause, or past the end.\<close>

definition cursor_after ::
  "solver_state \<Rightarrow> (literal \<Rightarrow> clause_id list) \<Rightarrow> literal \<Rightarrow> clause_id list \<Rightarrow> clause_id list \<Rightarrow>
    watch_cursor option \<Rightarrow> bool" where
  "cursor_after s L l pre post nxt \<longleftrightarrow> (case post of
     [] \<Rightarrow> nxt = None \<and> L l = pre
   | d # ds \<Rightarrow> \<exists>cu. nxt = Some cu \<and> cu_literal cu = l \<and> cursor_at (ss_watched_literals s) L cu pre d ds)"

lemma cursor_after_next:
  assumes "watch_lists m (ss_watched_literals s) L" "cursor_at (ss_watched_literals s) L cu pre c post"
  obtains nxt where "cursor_next (ss_watched_literals s) cu = Some nxt"
    "cursor_after s L (cu_literal cu) (pre @ [c]) post nxt"
  using cursor_next_eq [OF assms] assms(2)
  by (cases post) (auto simp: cursor_after_def cursor_at_def)

lemma cursor_after_cong:
  "ss_watched_literals s' = ss_watched_literals s \<Longrightarrow>
    cursor_after s' L l pre post nxt = cursor_after s L l pre post nxt"
  by (simp add: cursor_after_def split: list.split)

lemma well_watched_frame: "prop_frame s s' \<Longrightarrow> well_watched s' k w = well_watched s k w"
  by (simp add: prop_frameD)

text \<open>What the clause under the cursor looks like.\<close>

lemma current_clause:
  assumes "prop_inv s L n" "cursor_at (ss_watched_literals s) L cu pre c post"
  obtains w ls i other where "c < length (ss_kinds s)" "ss_watched_literals s ! c = Some w"
    "cursor_watched_literals (ss_watched_literals s) cu = Some w" "wn_clause_id (cu_current cu) = c"
    "wn_watch_index (cu_current cu) = i" "i < 2" "arr2_get (wl_watched w) i = cu_literal cu"
    "other = arr2_get (wl_watched w) (1 - i)" "other \<noteq> cu_literal cu"
    "watches_lit (ss_watched_literals s) other c"
    "well_watched s (kind_of s c) w" "lits s (kind_of s c) = Some ls" "other \<in> set ls"
proof -
  note d = db_invD [OF prop_invD(1) [OF assms(1)]]
  obtain w where w: "c < length (ss_watched_literals s)" "ss_watched_literals s ! c = Some w"
    "cursor_watched_literals (ss_watched_literals s) cu = Some w" "wn_clause_id (cu_current cu) = c"
    "wn_watch_index (cu_current cu) = watch_index_of w (cu_literal cu)"
    "arr2_get (wl_watched w) (wn_watch_index (cu_current cu)) = cu_literal cu"
    "fst (wl_watched w) \<noteq> snd (wl_watched w)"
    by (rule cursor_current [OF d(2) assms(2)])
  let ?i = "wn_watch_index (cu_current cu)"
  let ?o = "arr2_get (wl_watched w) (1 - ?i)"
  have i: "?i < 2" using w(5) watch_index_of_simps(3) by simp
  have ne: "?o \<noteq> cu_literal cu" using w(6,7) i by (auto simp: arr2_get_def split: if_splits)
  have wo: "watches_lit (ss_watched_literals s) ?o c"
    using w(1,2) by (auto simp: watches_lit_def arr2_get_def)
  have ww: "well_watched s (kind_of s c) w" using d(1) d(3) w(1,2) by simp
  then obtain ls where ls: "lits s (kind_of s c) = Some ls" by (auto simp: watches_of_def lits_def)
  have "?o \<in> set ls" using watches_of_get [OF ww] ls by (simp add: lits_def)
  with w d(1) i ne wo ww ls show thesis by (intro that [of w ?i ?o ls]) simp_all
qed

text \<open>The search of \<open>visit_clause\<close>, with the shortcut for binary clauses.\<close>

lemma binary_shortcut:
  assumes "well_watched s k w"
  shows "(if is_binary k then Some None
          else next_unwatched_literal w k (ss_learnt_clauses s) (ss_requirement_to_sorted_candidates s)
            (ss_disjunctions s) m i) =
    next_unwatched_literal w k (ss_learnt_clauses s) (ss_requirement_to_sorted_candidates s)
      (ss_disjunctions s) m i"
  using watches_of_kind [OF assms] by (simp add: next_unwatched_literal_eq)

text \<open>After a move the database is still consistent.\<close>

lemma prop_inv_move:
  assumes inv: "prop_inv s L n" and lists: "watch_lists m ws' L'"
    and len: "length ws' = length (ss_watched_literals s)"
    and wo: "watched_of ws' = (watched_of (ss_watched_literals s))(c \<mapsto> wl_watched w')"
    and w': "well_watched s (kind_of s c) w'"
  shows "prop_inv (s\<lparr>ss_watches := m, ss_watched_literals := ws'\<rparr>) L' n"
proof -
  let ?s = "s\<lparr>ss_watches := m, ss_watched_literals := ws'\<rparr>"
  note i = prop_invD [OF inv] and f = prop_frameD [OF prop_frame_update(2) [where s = s and m = m and ws = ws']]
  note d = db_invD [OF i(1)]
  have "well_watched s (kind_of s e) v" if e: "e < length (ss_kinds s)" "ws' ! e = Some v" for e v
  proof (cases "e = c")
    case True
    with that wo d(1) len have "wl_watched v = wl_watched w'"
      using watched_of_nth [of e ws'] by simp
    with w' True show ?thesis by (simp add: watches_of_def)
  next
    case False
    have "watched_of (ss_watched_literals s) e = Some (wl_watched v)"
      using that False d(1) len arg_cong [OF wo, of "\<lambda>g. g e"] by (simp add: watched_of_nth)
    then obtain w where "ss_watched_literals s ! e = Some w" "wl_watched w = wl_watched v"
      using e(1) d(1) by (auto simp: watched_of_nth)
    with d(3) [OF e(1)] show ?thesis by (simp add: watches_of_def)
  qed
  then have "db_inv ?s L'" using lists len d(1) by (simp add: db_inv_def)
  moreover have "trail_ok ?s" using trail_ok_cong [OF i(3) f(3)] by simp
  moreover have "bounded ?s n" using i(4) by (simp add: bounded_def f)
  ultimately show ?thesis using i by (simp add: prop_inv_def f)
qed

text \<open>
  The body of the inner loop never panics. Either it reports the clause under the cursor,
  all of whose literals are false, or it goes on to the next clause, having kept this one
  (whose other watch is true now) or moved its watch away.
\<close>

definition visit_result ::
  "level \<Rightarrow> nat \<Rightarrow> solver_state \<Rightarrow> (literal \<Rightarrow> clause_id list) \<Rightarrow> literal \<Rightarrow> clause_id list \<Rightarrow> clause_id \<Rightarrow>
    clause_id list \<Rightarrow> ('c propagation_error + watch_cursor option) \<Rightarrow> solver_state \<Rightarrow> bool" where
  "visit_result lv n s L l pre c post r s' \<longleftrightarrow> (case r of
     Inl e \<Rightarrow> s' = s \<and> (\<exists>ls other. falsified s c \<and> lits s (kind_of s c) = Some ls \<and> other \<in> set ls \<and>
       l \<in> set ls \<and> e = PE_Conflict (variable other) True c)
   | Inr nxt \<Rightarrow> \<exists>L' pre'. prop_inv s' L' n \<and> progress lv s s' \<and>
       dt_propagate_index (ss_decision_tracker s') = dt_propagate_index (ss_decision_tracker s) \<and>
       cursor_after s' L' l pre' post nxt \<and>
       (pre' = pre \<or> pre' = pre @ [c] \<and> quiet_at s' l c))"

lemma visit_clause_keep:
  assumes inv: "prop_inv (s\<lparr>ss_decision_tracker := t\<rparr>) L n" and at: "cursor_at (ss_watched_literals s) L cu pre c post"
    and ext: "extends_at lv (ss_decision_tracker s) t" "level_above t lv"
      "dt_propagate_index t = dt_propagate_index (ss_decision_tracker s)"
    and other: "other \<noteq> cu_literal cu" "watches_lit (ss_watched_literals s) other c" "lit_value t other = Some True"
  obtains nxt where "cursor_next (ss_watched_literals s) cu = Some nxt"
    "visit_result lv n s L (cu_literal cu) pre c post (Inr nxt) (s\<lparr>ss_decision_tracker := t\<rparr>)"
proof -
  let ?s = "s\<lparr>ss_decision_tracker := t\<rparr>"
  have "watch_lists (ss_watches s) (ss_watched_literals s) L"
    using db_invD(2) [OF prop_invD(1) [OF inv]] by simp
  from cursor_after_next [OF this at] obtain nxt where nxt:
    "cursor_next (ss_watched_literals s) cu = Some nxt"
    "cursor_after s L (cu_literal cu) (pre @ [c]) post nxt" .
  moreover have "cursor_after ?s L (cu_literal cu) (pre @ [c]) post nxt"
    using nxt(2) cursor_after_cong [of ?s s] by simp
  moreover have "quiet_at ?s (cu_literal cu) c" using other by (auto simp: quiet_at_def)
  ultimately have "visit_result lv n s L (cu_literal cu) pre c post (Inr nxt :: 'a propagation_error + _) ?s"
    unfolding visit_result_def sum.case using inv progress_tracker [OF ext(1,2)] ext(3)
    by (intro exI [of _ L] exI [of _ "pre @ [c]"]) simp
  with nxt(1) show thesis by (rule that)
qed

lemma visit_clause_spec:
  assumes inv: "prop_inv s L n" and at: "cursor_at (ss_watched_literals s) L cu pre c post"
    and lv: "valid_level lv" "level_above (ss_decision_tracker s) lv"
    and l: "lit_value (ss_decision_tracker s) (cu_literal cu) = Some False"
  obtains r s' where "visit_clause lv cu s = Some (r, s')"
    "visit_result lv n s L (cu_literal cu) pre c post r s'"
proof -
  let ?t = "ss_decision_tracker s"
  obtain w ls i other where c: "c < length (ss_kinds s)" "ss_watched_literals s ! c = Some w"
    "cursor_watched_literals (ss_watched_literals s) cu = Some w" "wn_clause_id (cu_current cu) = c"
    "wn_watch_index (cu_current cu) = i" "i < 2" "arr2_get (wl_watched w) i = cu_literal cu"
    "other = arr2_get (wl_watched w) (1 - i)" "other \<noteq> cu_literal cu"
    "watches_lit (ss_watched_literals s) other c"
    "well_watched s (kind_of s c) w" "lits s (kind_of s c) = Some ls" "other \<in> set ls"
    by (rule current_clause [OF inv at])
  note d = db_invD [OF prop_invD(1) [OF inv]]
  let ?search = "next_unwatched_literal w (kind_of s c) (ss_learnt_clauses s)
      (ss_requirement_to_sorted_candidates s) (ss_disjunctions s) (dt_map ?t) i"
  have kind: "slice_get (ss_kinds s) c = Some (kind_of s c)" using c(1) by (simp add: slice_get_def)
  note visit = visit_clause_def [of lv cu s, unfolded c(4,5) Let_def kind c(3) bind.bind_lunit
      binary_shortcut [OF c(11)], folded c(8)]
  show thesis
  proof (cases "lit_value ?t other = Some True")
    case True
    from inv have "prop_inv (s\<lparr>ss_decision_tracker := ?t\<rparr>) L n" by simp
    from visit_clause_keep [OF this at extends_at_refl lv(2) refl c(9,10) True]
    show thesis using that True by (auto simp: visit)
  next
    case False
    obtain found where found: "?search = Some found" using next_unwatched_literal_total [OF c(11)] by blast
    have false: "eval (arr2_get (wl_watched w) i) (dt_map ?t) = Some False" using l c(7) by simp
    show thesis
    proof (cases found)
      case (Some new)
      note nw = next_unwatched_literal_found [OF c(11) found [unfolded Some] c(6) false]
      have new: "new \<noteq> cu_literal cu" "new \<noteq> arr2_get (wl_watched w) (1 - i)"
        using nw(2,3) c(6,7) by (auto simp: watches_of_def arr2_get_def arr2_set_def split: if_splits)
      obtain r m' ws' L' where u:
        "cursor_update (ss_watches s) (ss_watched_literals s) cu new = Some (r, m', ws')"
        "L' = L(cu_literal cu := pre @ post, new := c # L new)" "watch_lists m' ws' L'"
        "watched_of ws' = (watched_of (ss_watched_literals s))(c \<mapsto> arr2_set (wl_watched w) i new)"
        "length ws' = length (ss_watched_literals s)"
        "case post of [] \<Rightarrow> r = None
         | d # ds \<Rightarrow> \<exists>cu'. r = Some cu' \<and> cu_literal cu' = cu_literal cu \<and> cursor_at ws' L' cu' pre d ds"
        by (rule cursor_update_lists [OF d(2) at c(2) c(5) [symmetric] new]) (rule that)
      let ?s = "s\<lparr>ss_watches := m', ss_watched_literals := ws'\<rparr>"
      have "prop_inv ?s L' n"
        by (rule prop_inv_move [OF inv u(3,5) _ nw(3)]) (simp add: u(4))
      moreover have "progress lv s ?s"
        using progress_move [OF u(4) _ c(2,6) false nw(1) lv(2)] c(1) d(1) by simp
      moreover have "cursor_after ?s L' (cu_literal cu) pre post r"
        using u(2,6) new(1) by (auto simp: cursor_after_def split: list.splits)
      ultimately have "visit_result lv n s L (cu_literal cu) pre c post (Inr r :: 'a propagation_error + _) ?s"
        unfolding visit_result_def by auto
      with that show thesis using False found Some u(1) by (simp add: visit)
    next
      case None
      have rest: "lit_value ?t k = Some False" if "k \<in> set ls" "k \<noteq> other" for k
        using next_unwatched_literal_none [OF c(11) found [unfolded None] c(6) false _ that(1)] that(2) c(8,12)
        by (simp add: lits_def)
      let ?add = "try_add_decision ?t (Decision_new (variable other) (satisfying_value other) c) lv"
      note unit = try_add_unit [OF inv lv c(1,12,13) rest]
      show thesis
      proof (cases ?add)
        case (Inl u)
        with unit have "falsified s c" by simp
        moreover have "cu_literal cu \<in> set ls"
          using watches_of_get [OF c(11), of ls i] c(7,12) by (simp add: lits_def)
        ultimately have "visit_result lv n s L (cu_literal cu) pre c post
            (Inl (PE_Conflict (variable other) True c) :: 'a propagation_error + _) s"
          using c(12,13) by (auto simp: visit_result_def)
        with that Inl False found None show thesis by (simp add: visit)
      next
        case (Inr bt)
        obtain b t where bt: "bt = (b, t)" by fastforce
        from unit Inr bt have t: "prop_inv (s\<lparr>ss_decision_tracker := t\<rparr>) L n" "level_above t lv"
          "extends_at lv ?t t" "lit_value t other = Some True" "dt_propagate_index t = dt_propagate_index ?t" by auto
        from visit_clause_keep [OF t(1) at t(3,2,5) c(9,10) t(4)]
        show thesis using that Inr bt False found None by (auto simp: visit)
      qed
    qed
  qed
qed

section \<open>Walking a list\<close>

lemma falsified_mono:
  assumes "falsified s c" "progress lv s s'"
  shows "falsified s' c"
  using assms(1) extends_lit_value [OF progressD(3) [OF assms(2)]]
  by (auto simp: falsified_def prop_frameD [OF progressD(1) [OF assms(2)]])

text \<open>A reported conflict: its variable is assigned, its clause is false and has a literal in \<open>K\<close>.\<close>

definition conflict_at :: "solver_state \<Rightarrow> literal set \<Rightarrow> 'c propagation_error \<Rightarrow> bool" where
  "conflict_at s K e \<longleftrightarrow> (\<exists>v b c ls. e = PE_Conflict v b c \<and> falsified s c \<and>
     assigned_value (ss_decision_tracker s) v \<noteq> None \<and> lits s (kind_of s c) = Some ls \<and> set ls \<inter> K \<noteq> {})"

lemma conflict_at_mono: "conflict_at s K e \<Longrightarrow> K \<subseteq> K' \<Longrightarrow> conflict_at s K' e"
  unfolding conflict_at_def by blast

lemma conflict_at_insert: "conflict_at s K e \<Longrightarrow> conflict_at s (insert k K) e"
  by (erule conflict_at_mono) blast

lemma conflict_atI:
  assumes "falsified s c" "lits s (kind_of s c) = Some ls" "l \<in> set ls" "k \<in> set ls" "k \<in> K"
  shows "conflict_at s K (PE_Conflict (variable l) b c)"
proof -
  have "lit_value (ss_decision_tracker s) l = Some False" using assms(1-3) by (auto simp: falsified_def)
  then have "assigned_value (ss_decision_tracker s) (variable l) \<noteq> None" by (simp add: lit_value_assigned)
  with assms show ?thesis unfolding conflict_at_def by blast
qed

lemma walk_watches_None [simp]: "walk_watches lv None s = Some (Inr (), s)"
  by (subst walk_watches.simps) simp

lemma walk_watches_Some:
  "walk_watches lv (Some cu) s = Option.bind (visit_clause lv cu s) (\<lambda>r. case r of
     (Inl e, s') \<Rightarrow> Some (Inl e, s') | (Inr nxt, s') \<Rightarrow> walk_watches lv nxt s')"
  by (subst walk_watches.simps) simp

definition walk_result ::
  "level \<Rightarrow> nat \<Rightarrow> solver_state \<Rightarrow> literal \<Rightarrow> 'c outcome \<Rightarrow> solver_state \<Rightarrow> bool" where
  "walk_result lv n s l r s' \<longleftrightarrow> (\<exists>L. prop_inv s' L n) \<and> progress lv s s' \<and>
     dt_propagate_index (ss_decision_tracker s') = dt_propagate_index (ss_decision_tracker s) \<and>
     (case r of Inl e \<Rightarrow> conflict_at s' {l} e | Inr _ \<Rightarrow> quiet s' l)"

lemma walk_result_trans:
  assumes "progress lv s s1"
    "dt_propagate_index (ss_decision_tracker s1) = dt_propagate_index (ss_decision_tracker s)"
    "walk_result lv n s1 l r s'"
  shows "walk_result lv n s l r s'"
  using assms progress_trans [OF assms(1), of s'] by (auto simp: walk_result_def)

text \<open>The clauses behind the cursor are quiet, and those ahead are visited one by one.\<close>

lemma walk_watches_spec:
  assumes "prop_inv s L n" "valid_level lv" "level_above (ss_decision_tracker s) lv"
    "lit_value (ss_decision_tracker s) l = Some False"
    "cursor_after s L l pre post nxt" "\<forall>d \<in> set pre. quiet_at s l d"
  shows "\<exists>(r :: 'c outcome) s'. walk_watches lv nxt s = Some (r, s') \<and> walk_result lv n s l r s'"
  using assms
proof (induction post arbitrary: s L pre nxt)
  case Nil
  have "quiet s l"
    using Nil.prems(5,6) watch_listsD(4) [OF db_invD(2) [OF prop_invD(1) [OF Nil.prems(1)]], of l]
    by (auto simp: quiet_def cursor_after_def)
  with Nil.prems show ?case
    by (auto simp: cursor_after_def walk_result_def progress_refl)
next
  case (Cons c post)
  note lv = Cons.prems(2,3) and inv = Cons.prems(1)
  from Cons.prems(5) obtain cu where cu: "nxt = Some cu" "cu_literal cu = l"
    "cursor_at (ss_watched_literals s) L cu pre c post" by (auto simp: cursor_after_def)
  obtain r :: "'c propagation_error + _" and s1 where v: "visit_clause lv cu s = Some (r, s1)"
    "visit_result lv n s L l pre c post r s1"
    using visit_clause_spec [OF inv cu(3) lv] Cons.prems(4) cu(2) by metis
  show ?case
  proof (cases r)
    case (Inl e)
    with v(2) have "s1 = s" "conflict_at s {l} e" by (auto simp: visit_result_def intro: conflict_atI)
    with v(1) Inl cu(1) lv(2) inv show ?thesis
      by (auto simp: walk_watches_Some walk_result_def progress_refl)
  next
    case (Inr nxt1)
    with v(2) obtain L1 pre1 where one: "prop_inv s1 L1 n" "progress lv s s1"
      "dt_propagate_index (ss_decision_tracker s1) = dt_propagate_index (ss_decision_tracker s)"
      "cursor_after s1 L1 l pre1 post nxt1" "pre1 = pre \<or> pre1 = pre @ [c] \<and> quiet_at s1 l c"
      by (auto simp: visit_result_def)
    note p = progressD [OF one(2)]
    have l1: "lit_value (ss_decision_tracker s1) l = Some False"
      using extends_lit_value [OF p(3)] Cons.prems(4) by blast
    have sub: "watches_lit (ss_watched_literals s1) l d" if "d \<in> set pre1" for d
    proof -
      have "d \<in> set (L1 l)" using that one(4) by (auto simp: cursor_after_def cursor_at_def split: list.splits)
      then show ?thesis using watch_listsD(4) [OF db_invD(2) [OF prop_invD(1) [OF one(1)]], of l] by simp
    qed
    have "\<forall>d \<in> set pre1. quiet_at s1 l d"
      using one(5) sub Cons.prems(4,6) p(4) unfolding keeps_quiet_def by auto
    from Cons.IH [OF one(1) lv(1) p(2) l1 one(4) this]
    obtain r' :: "'c outcome" and s' where "walk_watches lv nxt1 s1 = Some (r', s')" "walk_result lv n s1 l r' s'" by blast
    with walk_result_trans [OF one(2,3)] v(1) Inr cu(1) show ?thesis
      by (auto simp: walk_watches_Some)
  qed
qed

lemma walk_from_head:
  assumes "prop_inv s L n" "valid_level lv" "level_above (ss_decision_tracker s) lv"
    "lit_value (ss_decision_tracker s) l = Some False"
  obtains cursor and r :: "'c outcome" and s' where
    "WatchMap_cursor (ss_watches s) (ss_watched_literals s) l = Some cursor"
    "walk_watches lv cursor s = Some (r, s')" "walk_result lv n s l r s'"
proof -
  note head = WatchMap_cursor_eq [OF db_invD(2) [OF prop_invD(1) [OF assms(1)]], of l]
  obtain cursor where c: "WatchMap_cursor (ss_watches s) (ss_watched_literals s) l = Some cursor"
    "cursor_after s L l [] (L l) cursor"
    using head by (auto simp: cursor_after_def split: list.splits)
  with walk_watches_spec [OF assms c(2)] that show thesis by auto
qed

section \<open>The main loop\<close>

lemma nth_in_drop: "i < length xs \<Longrightarrow> xs ! i = x \<Longrightarrow> x \<in> set (drop i xs)"
  by (subst Cons_nth_drop_Suc [symmetric]) simp_all

lemma propagate_loop_step:
  assumes "dt_propagate_index (ss_decision_tracker s) < length (dt_stack (ss_decision_tracker s))"
    "d = dt_stack (ss_decision_tracker s) ! dt_propagate_index (ss_decision_tracker s)"
    "s1 = s\<lparr>ss_decision_tracker := (ss_decision_tracker s)
       \<lparr>dt_propagate_index := dt_propagate_index (ss_decision_tracker s) + 1\<rparr>\<rparr>"
    "WatchMap_cursor (ss_watches s1) (ss_watched_literals s1) (false_lit d) = Some cursor"
    "walk_watches lv cursor s1 = Some (r, s2)"
  shows "propagate_loop lv s = (case r of Inl e \<Rightarrow> Some (Inl e, s2) | Inr _ \<Rightarrow> propagate_loop lv s2)"
  using assms
  by (subst propagate_loop.simps) (simp add: next_unpropagated_def Let_def false_lit_def split: sum.split)

lemma propagate_loop_end:
  assumes "dt_propagate_index (ss_decision_tracker s) = length (dt_stack (ss_decision_tracker s))"
  shows "propagate_loop lv s = Some (Inr (), s)"
  using assms by (subst propagate_loop.simps) (simp add: next_unpropagated_def)

definition loop_result ::
  "level \<Rightarrow> nat \<Rightarrow> solver_state \<Rightarrow> 'c outcome \<Rightarrow> solver_state \<Rightarrow> bool" where
  "loop_result lv n s r s' \<longleftrightarrow> (\<exists>L. prop_inv s' L n) \<and> progress lv s s' \<and>
     (case r of
        Inl e \<Rightarrow> conflict_at s' (false_lit ` set (drop (dt_propagate_index (ss_decision_tracker s))
          (dt_stack (ss_decision_tracker s')))) e
      | Inr _ \<Rightarrow> dt_propagate_index (ss_decision_tracker s') = length (dt_stack (ss_decision_tracker s')) \<and>
          (\<forall>d \<in> set (drop (dt_propagate_index (ss_decision_tracker s)) (dt_stack (ss_decision_tracker s'))).
             quiet s' (false_lit d)))"

text \<open>Taking the next decision off the propagation queue.\<close>

lemma advance_index:
  assumes inv: "prop_inv s L n" and lv: "level_above (ss_decision_tracker s) lv"
    and i: "dt_propagate_index (ss_decision_tracker s) < length (dt_stack (ss_decision_tracker s))"
    and s1: "s1 = s\<lparr>ss_decision_tracker := (ss_decision_tracker s)
       \<lparr>dt_propagate_index := dt_propagate_index (ss_decision_tracker s) + 1\<rparr>\<rparr>"
  shows "prop_inv s1 L n" "progress lv s s1"
proof -
  let ?t = "ss_decision_tracker s"
  let ?t1 = "?t\<lparr>dt_propagate_index := dt_propagate_index ?t + 1\<rparr>"
  note inv' = prop_invD [OF inv] and f = prop_frameD [OF prop_frame_update(1) [of s ?t1], folded s1]
  have v: "assigned_value (?t\<lparr>dt_propagate_index := x\<rparr>) = assigned_value ?t"
    "tracker_level (?t\<lparr>dt_propagate_index := x\<rparr>) = tracker_level ?t" for x
    by (simp_all add: assigned_value_def tracker_level_def fun_eq_iff)
  have "tracker_inv ?t1" using inv'(2) i by (simp add: tracker_inv_def v)
  moreover have "db_inv s1 L" using inv'(1) by (simp add: db_inv_def s1)
  moreover have "trail_ok s1" using trail_ok_cong [OF inv'(3) f(3)] by (simp add: s1)
  moreover have "bounded s1 n" using inv'(4) by (simp add: bounded_def f) (simp add: s1)
  ultimately show "prop_inv s1 L n" using inv'(5) by (simp add: prop_inv_def f) (simp add: s1)
  have "extends_at lv ?t ?t1" "level_above ?t1 lv"
    using lv by (simp_all add: extends_at_def extends_def level_above_def v)
  then show "progress lv s s1" unfolding s1 by (rule progress_tracker)
qed

lemma propagate_loop_spec:
  assumes "prop_inv s L n" "valid_level lv" "level_above (ss_decision_tracker s) lv"
  shows "\<exists>(r :: 'c outcome) s'. propagate_loop lv s = Some (r, s') \<and> loop_result lv n s r s'"
  using assms
proof (induction "n - dt_propagate_index (ss_decision_tracker s)" arbitrary: s L rule: less_induct)
  case less
  let ?t = "ss_decision_tracker s" and ?i = "dt_propagate_index (ss_decision_tracker s)"
  note inv = less.prems(1) and lv = less.prems(2,3)
  note i = prop_invD [OF inv]
  show ?case
  proof (cases "?i < length (dt_stack ?t)")
    case False
    then have "?i = length (dt_stack ?t)" using tracker_invD(5) [OF i(2)] by simp
    with propagate_loop_end [OF this] progress_refl [OF lv(2)] inv show ?thesis
      by (intro exI [of _ "Inr ()"] exI [of _ s]) (auto simp: loop_result_def)
  next
    case True
    define s1 where "s1 = s\<lparr>ss_decision_tracker := ?t\<lparr>dt_propagate_index := ?i + 1\<rparr>\<rparr>"
    define d where "d = dt_stack ?t ! ?i"
    note adv = advance_index [OF inv lv(2) True s1_def]
    have nth: "dt_stack t' ! ?i = d" "?i < length (dt_stack t')" if "extends ?t t'" for t'
      using that True by (auto simp: extends_def d_def nth_append)
    have "lit_value ?t (false_lit d) = Some False"
      using lit_value_False_trail [OF i(2)] True by (auto simp: d_def)
    then have "lit_value (ss_decision_tracker s1) (false_lit d) = Some False"
      using extends_lit_value [OF progressD(3) [OF adv(2)]] by blast
    from walk_from_head [OF adv(1) lv(1) progressD(2) [OF adv(2)] this]
    obtain cursor and r :: "'c outcome" and s2 where w:
      "WatchMap_cursor (ss_watches s1) (ss_watched_literals s1) (false_lit d) = Some cursor"
      "walk_watches lv cursor s1 = Some (r, s2)" "walk_result lv n s1 (false_lit d) r s2" .
    note step = propagate_loop_step [OF True d_def s1_def w(1,2)]
    from w(3) obtain L2 where two: "prop_inv s2 L2 n" "progress lv s1 s2"
      "dt_propagate_index (ss_decision_tracker s2) = ?i + 1"
      by (auto simp: walk_result_def s1_def)
    note prog = progress_trans [OF adv(2) two(2)]
    show ?thesis
    proof (cases r)
      case (Inl e)
      have "d \<in> set (drop ?i (dt_stack (ss_decision_tracker s2)))"
        by (rule nth_in_drop [OF nth(2,1) [OF progressD(3) [OF prog]]])
      then have "conflict_at s2 (false_lit ` set (drop ?i (dt_stack (ss_decision_tracker s2)))) e"
        using w(3) Inl conflict_at_mono [of s2 "{false_lit d}" e] by (simp add: walk_result_def)
      with step Inl prog two(1) show ?thesis by (auto simp: loop_result_def)
    next
      case (Inr u)
      with w(3) have quiet: "quiet s2 (false_lit d)" by (simp add: walk_result_def)
      have "length (dt_stack ?t) \<le> n" using trail_length_bound [OF i(2,4)] .
      then have "n - dt_propagate_index (ss_decision_tracker s2) < n - ?i" using True two(3) by simp
      from less.hyps [OF this two(1) lv(1) progressD(2) [OF two(2)]]
      obtain r' :: "'c outcome" and s' where l: "propagate_loop lv s2 = Some (r', s')" "loop_result lv n s2 r' s'" by blast
      from l(2) have p': "progress lv s2 s'" and ex: "\<exists>L. prop_inv s' L n" by (simp_all add: loop_result_def)
      have ext: "extends ?t (ss_decision_tracker s')" using progressD(3) [OF progress_trans [OF prog p']] .
      note nth' = nth [OF ext]
      have drop: "drop ?i (dt_stack (ss_decision_tracker s')) = d # drop (Suc ?i) (dt_stack (ss_decision_tracker s'))"
        using Cons_nth_drop_Suc [OF nth'(2)] nth'(1) by simp
      have "lit_value (ss_decision_tracker s2) (false_lit d) = Some False"
        using extends_lit_value [OF progressD(3) [OF prog]] \<open>lit_value ?t (false_lit d) = Some False\<close> by blast
      with quiet have "quiet s' (false_lit d)" using keeps_quiet_quiet [OF progressD(4) [OF p']] by blast
      with l two(3) have "loop_result lv n s r' s'"
        using progress_trans [OF prog p'] ex
        by (auto simp: loop_result_def drop intro: conflict_at_insert split: sum.splits)
      with l(1) step Inr show ?thesis by auto
    qed
  qed
qed

section \<open>The assertions\<close>

lemma lit_value_negative: "satisfying_value (negative v) = False" "variable (negative v) = v"
  by (simp_all add: negative_def satisfying_value_def)

definition assert_result ::
  "level \<Rightarrow> nat \<Rightarrow> solver_state \<Rightarrow> (literal \<Rightarrow> clause_id list) \<Rightarrow> literal set \<Rightarrow> 'c outcome \<Rightarrow> solver_state \<Rightarrow> bool" where
  "assert_result lv n s L ls r s' \<longleftrightarrow> prop_inv s' L n \<and> progress lv s s' \<and>
     dt_propagate_index (ss_decision_tracker s') = dt_propagate_index (ss_decision_tracker s) \<and>
     (case r of Inl e \<Rightarrow> conflict_at s' ls e
      | Inr _ \<Rightarrow> \<forall>l \<in> ls. lit_value (ss_decision_tracker s') l = Some True)"

lemma assert_result_step:
  assumes "prop_inv (s\<lparr>ss_decision_tracker := t\<rparr>) L n" "extends_at lv (ss_decision_tracker s) t" "level_above t lv"
    "dt_propagate_index t = dt_propagate_index (ss_decision_tracker s)" "lit_value t l = Some True"
    "assert_result lv n (s\<lparr>ss_decision_tracker := t\<rparr>) L ls r s'"
  shows "assert_result lv n s L (insert l ls) r s'"
proof -
  have p: "progress lv (s\<lparr>ss_decision_tracker := t\<rparr>) s'" using assms(6) by (simp add: assert_result_def)
  show ?thesis
    using assms(4-6) progress_trans [OF progress_tracker [OF assms(2,3)] p]
      extends_lit_value [OF progressD(3) [OF p]]
    by (auto simp: assert_result_def intro: conflict_at_insert split: sum.splits)
qed

lemma decide_assertions_spec:
  assumes "prop_inv s L n" "valid_level lv" "level_above (ss_decision_tracker s) lv"
    "set vs \<subseteq> set (ss_negative_assertions s)" "decide_assertions_loop lv vs s = (r, s')"
  shows "assert_result lv n s L ((negative \<circ> fst) ` set vs) (r :: 'c outcome) s'"
  using assms
proof (induction vs arbitrary: s)
  case Nil
  then show ?case by (auto simp: assert_result_def progress_refl)
next
  case (Cons vc vs)
  obtain v c where vc: "vc = (v, c)" by fastforce
  have c: "c < length (ss_kinds s)" "lits s (kind_of s c) = Some [negative v]"
    using prop_invD(5) [OF Cons.prems(1)] Cons.prems(4) vc by (auto simp: assertions_ok_def)
  note unit = try_add_unit [OF Cons.prems(1-3) c, of "negative v", unfolded lit_value_negative]
  show ?case
  proof (cases "try_add_decision (ss_decision_tracker s) (Decision_new v False c) lv")
    case (Inl u)
    with unit have "falsified s c" by simp
    then have "conflict_at s ((negative \<circ> fst) ` set (vc # vs))
        (PE_Conflict (variable (negative v)) False c :: 'c propagation_error)"
      by (rule conflict_atI [OF _ c(2), of "negative v" "negative v"]) (simp_all add: vc)
    then have "conflict_at s ((negative \<circ> fst) ` set (vc # vs)) (PE_Conflict v False c :: 'c propagation_error)"
      by (simp add: lit_value_negative)
    with Inl Cons.prems vc show ?thesis
      by (auto simp: assert_result_def progress_refl)
  next
    case (Inr bt)
    obtain b t where bt: "bt = (b, t)" by fastforce
    from unit Inr bt have t: "prop_inv (s\<lparr>ss_decision_tracker := t\<rparr>) L n" "level_above t lv"
      "extends_at lv (ss_decision_tracker s) t" "lit_value t (negative v) = Some True"
      "dt_propagate_index t = dt_propagate_index (ss_decision_tracker s)" by auto
    have "assert_result lv n (s\<lparr>ss_decision_tracker := t\<rparr>) L ((negative \<circ> fst) ` set vs) r s'"
      using Cons.IH [OF t(1) Cons.prems(2)] t(2) Cons.prems(4,5) vc Inr bt by simp
    from assert_result_step [OF t(1,3,2,5,4) this] show ?thesis by (simp add: vc)
  qed
qed

text \<open>The literals asserted by the learnt clauses of length one.\<close>

definition learnt_units :: "solver_state \<Rightarrow> clause_id list \<Rightarrow> literal set" where
  "learnt_units s cs = {l. \<exists>c \<in> set cs. c < length (ss_kinds s) \<and> lits s (kind_of s c) = Some [l]}"

lemma learnt_units_frame: "prop_frame s s' \<Longrightarrow> learnt_units s' cs = learnt_units s cs"
  by (simp add: learnt_units_def prop_frameD)

lemma decide_learned_spec:
  assumes "prop_inv s L n" "valid_level lv" "level_above (ss_decision_tracker s) lv"
    "set cs \<subseteq> set (ss_learnt_clause_ids s)"
  shows "\<exists>(r :: 'c outcome) s'. decide_learned_loop lv cs s = Some (r, s') \<and>
    assert_result lv n s L (learnt_units s cs) r s'"
  using assms
proof (induction cs arbitrary: s)
  case Nil
  then show ?case
    by (intro exI [of _ "Inr ()"] exI [of _ s])
      (simp add: assert_result_def progress_refl learnt_units_def)
next
  case (Cons c cs)
  from prop_invD(5) [OF Cons.prems(1)] Cons.prems(4)
  obtain i where i: "c < length (ss_kinds s)" "i < length (ss_learnt_clauses s)" "kind_of s c = Learnt i"
    "ss_learnt_clauses s ! i \<noteq> []" by (auto simp: assertions_ok_def)
  let ?ls = "ss_learnt_clauses s ! i"
  have get: "slice_get (ss_kinds s) c = Some (Learnt i)" "slice_get (ss_learnt_clauses s) i = Some ?ls"
    "lits s (kind_of s c) = Some ?ls"
    using i by (simp_all add: slice_get_def lits_def)
  show ?case
  proof (cases "length ?ls > 1")
    case True
    then have "learnt_units s (c # cs) = learnt_units s cs" using get by (auto simp: learnt_units_def)
    moreover have "decide_learned_loop lv (c # cs) s = (decide_learned_loop lv cs s :: ('c outcome \<times> _) option)"
      using True i by (simp add: slice_get_def)
    ultimately show ?thesis using Cons.IH [OF Cons.prems(1-3)] Cons.prems(4) by simp
  next
    case False
    with i(4) obtain l where l: "?ls = [l]" by (cases ?ls) auto
    let ?add = "try_add_decision (ss_decision_tracker s) (Decision_new (variable l) (satisfying_value l) c) lv"
    have loop: "decide_learned_loop lv (c # cs) s = (case ?add of
        Inl _ \<Rightarrow> Some (Inl (PE_Conflict (variable l) (satisfying_value l) c :: 'c propagation_error), s)
      | Inr (_, t) \<Rightarrow> decide_learned_loop lv cs (s\<lparr>ss_decision_tracker := t\<rparr>))"
      using l i by (simp add: slice_get_def)
    note unit = try_add_unit [OF Cons.prems(1-3) i(1), of "[l]" l]
    show ?thesis
    proof (cases ?add)
      case (Inl u)
      with unit get l have "falsified s c" by simp
      from conflict_atI [OF this get(3), of l l "learnt_units s (c # cs)"] get(3) l i(1)
      have "conflict_at s (learnt_units s (c # cs))
          (PE_Conflict (variable l) (satisfying_value l) c :: 'c propagation_error)"
        by (auto simp: learnt_units_def)
      with Inl Cons.prems show ?thesis
        unfolding loop by (auto simp: assert_result_def progress_refl)
    next
      case (Inr bt)
      obtain b t where bt: "bt = (b, t)" by fastforce
      from unit Inr bt get l have t: "prop_inv (s\<lparr>ss_decision_tracker := t\<rparr>) L n" "level_above t lv"
        "extends_at lv (ss_decision_tracker s) t" "lit_value t l = Some True"
        "dt_propagate_index t = dt_propagate_index (ss_decision_tracker s)" by auto
      have units: "learnt_units s (c # cs) = insert l (learnt_units (s\<lparr>ss_decision_tracker := t\<rparr>) cs)"
        using get l i(1) unfolding learnt_units_frame [OF prop_frame_update(1)] by (auto simp: learnt_units_def)
      obtain r :: "'c outcome" and s' where r: "decide_learned_loop lv cs (s\<lparr>ss_decision_tracker := t\<rparr>) = Some (r, s')"
        "assert_result lv n (s\<lparr>ss_decision_tracker := t\<rparr>) L (learnt_units (s\<lparr>ss_decision_tracker := t\<rparr>) cs) r s'"
        using Cons.IH [OF t(1) Cons.prems(2)] t(2) Cons.prems(4) by auto
      from assert_result_step [OF t(1,3,2,5,4) r(2)] r(1) Inr bt units show ?thesis
        unfolding loop by auto
    qed
  qed
qed

section \<open>Propagation\<close>

definition asserted :: "solver_state \<Rightarrow> literal set" where
  "asserted s = (negative \<circ> fst) ` set (ss_negative_assertions s) \<union> learnt_units s (ss_learnt_clause_ids s)"

definition propagated :: "nat \<Rightarrow> solver_state \<Rightarrow> bool" where
  "propagated i s \<longleftrightarrow> dt_propagate_index (ss_decision_tracker s) = length (dt_stack (ss_decision_tracker s)) \<and>
     (\<forall>l \<in> asserted s. lit_value (ss_decision_tracker s) l = Some True) \<and>
     (\<forall>d \<in> set (drop i (dt_stack (ss_decision_tracker s))). quiet s (false_lit d))"

text \<open>The literals a conflict can involve: asserted ones, and those just made false.\<close>

definition conflict_literals :: "nat \<Rightarrow> solver_state \<Rightarrow> literal set" where
  "conflict_literals i s = asserted s \<union> false_lit ` set (drop i (dt_stack (ss_decision_tracker s)))"

lemma propagate_spec:
  assumes inv: "prop_inv s L n" and lv: "valid_level lv" "level_above (ss_decision_tracker s) lv"
  shows "\<exists>(r :: 'c outcome) s'. propagate None lv s = Some (r, s') \<and> (\<exists>L'. prop_inv s' L' n) \<and> progress lv s s' \<and>
    (case r of Inl e \<Rightarrow> conflict_at s' (conflict_literals (dt_propagate_index (ss_decision_tracker s)) s') e
     | Inr _ \<Rightarrow> propagated (dt_propagate_index (ss_decision_tracker s)) s')"
proof -
  obtain r1 :: "'c outcome" and s1 where a: "decide_assertions lv s = (r1, s1)" by fastforce
  then have one: "assert_result lv n s L ((negative \<circ> fst) ` set (ss_negative_assertions s)) r1 s1"
    by (intro decide_assertions_spec [OF inv lv subset_refl]) (simp add: decide_assertions_def)
  then have p1: "prop_inv s1 L n" "progress lv s s1" by (simp_all add: assert_result_def)
  show ?thesis
  proof (cases r1)
    case (Inl e)
    with one have "conflict_at s1 ((negative \<circ> fst) ` set (ss_negative_assertions s)) e"
      by (simp add: assert_result_def)
    then have "conflict_at s1 (conflict_literals (dt_propagate_index (ss_decision_tracker s)) s1) e"
      by (rule conflict_at_mono)
        (auto simp: conflict_literals_def asserted_def prop_frameD [OF progressD(1) [OF p1(2)]])
    with a Inl p1 show ?thesis by (auto simp: propagate_def propagate_impl_def)
  next
    case r1: (Inr u)
    obtain r2 :: "'c outcome" and s2 where b: "decide_learned lv s1 = Some (r2, s2)"
      "assert_result lv n s1 L (learnt_units s1 (ss_learnt_clause_ids s1)) r2 s2"
      using decide_learned_spec [OF p1(1) lv(1) progressD(2) [OF p1(2)] subset_refl]
      unfolding decide_learned_def by blast
    then have p2: "prop_inv s2 L n" "progress lv s1 s2" by (simp_all add: assert_result_def)
    note p12 = progress_trans [OF p1(2) p2(2)]
    show ?thesis
    proof (cases r2)
      case (Inl e)
      with b(2) have "conflict_at s2 (learnt_units s1 (ss_learnt_clause_ids s1)) e"
        by (simp add: assert_result_def)
      then have "conflict_at s2 (conflict_literals (dt_propagate_index (ss_decision_tracker s)) s2) e"
        by (rule conflict_at_mono)
          (simp add: conflict_literals_def asserted_def le_supI1 le_supI2 prop_frameD(9) [OF progressD(1) [OF p2(2)]]
            learnt_units_frame [OF progressD(1) [OF p2(2)]])
      with a r1 b(1) Inl p12 p2(1) show ?thesis by (auto simp: propagate_def propagate_impl_def)
    next
      case r2: (Inr u')
      obtain r :: "'c outcome" and s' where c: "propagate_loop lv s2 = Some (r, s')" "loop_result lv n s2 r s'"
        using propagate_loop_spec [OF p2(1) lv(1) progressD(2) [OF p2(2)]] by blast
      then have p3: "progress lv s2 s'" by (simp add: loop_result_def)
      note p = progress_trans [OF p12 p3]
      note e3 = extends_lit_value [OF progressD(3) [OF p3]]
        and e2 = extends_lit_value [OF progressD(3) [OF p2(2)]]
      note f1 = progressD(1) [OF p1(2)] and f = progressD(1) [OF p]
      have asserted: "asserted s' = (negative \<circ> fst) ` set (ss_negative_assertions s) \<union>
          learnt_units s1 (ss_learnt_clause_ids s1)"
        by (simp add: asserted_def prop_frameD [OF f] prop_frameD [OF f1] learnt_units_frame [OF f] learnt_units_frame [OF f1])
      have hold: "lit_value (ss_decision_tracker s') l = Some True" if "l \<in> asserted s'" for l
        using that one b(2) r1 r2 e2 e3 unfolding asserted by (auto simp: assert_result_def)
      have idx: "dt_propagate_index (ss_decision_tracker s2) = dt_propagate_index (ss_decision_tracker s)"
        using one b(2) by (simp add: assert_result_def)
      have "case r of Inl e \<Rightarrow> conflict_at s' (conflict_literals (dt_propagate_index (ss_decision_tracker s)) s') e
          | Inr _ \<Rightarrow> propagated (dt_propagate_index (ss_decision_tracker s)) s'"
      proof (cases r)
        case (Inl e)
        with c(2) idx have "conflict_at s' (false_lit ` set (drop (dt_propagate_index (ss_decision_tracker s))
            (dt_stack (ss_decision_tracker s')))) e" by (simp add: loop_result_def)
        with Inl show ?thesis using conflict_at_mono by (simp add: conflict_literals_def) blast
      next
        case (Inr u'')
        with c(2) hold idx show ?thesis by (simp add: loop_result_def propagated_def)
      qed
      moreover have "propagate None lv s = Some (r, s')"
        using a r1 b(1) r2 c(1) by (simp add: propagate_def propagate_impl_def)
      ultimately show ?thesis using p c(2) unfolding loop_result_def by blast
    qed
  qed
qed

lemma falsified_refutes:
  assumes "tracker_inv (ss_decision_tracker s)" "falsified s c" "models M s"
  shows "\<not> agrees M (dt_stack (ss_decision_tracker s))"
proof -
  from assms(2,3) obtain ls l where "c < length (ss_kinds s)" "l \<in> set ls" "lit_true M l"
    "lit_value (ss_decision_tracker s) l = Some False"
    unfolding falsified_def models_def clause_holds_def clause_true_def by blast
  with lit_value_False_trail [OF assms(1)] show ?thesis by (auto simp: agrees_def)
qed

section \<open>Properties\<close>

text \<open>Property C6. Unit propagation is total, sound and complete. On every state that satisfies
  the solver's invariant it returns, without a panic and without looping; it only appends
  decisions to the trail, each implied by a clause whose other literals are already false
  (the invariant holds again); if it reports a conflict, every literal of the reported clause
  is false; and if it succeeds, all assertions and learnt unit clauses hold and every clause
  watching a literal falsified by one of the decisions it processed has its other watch true,
  so that none of these clauses is unit or falsified.\<close>

theorem propagate_total_sound_complete:
  assumes "prop_inv s L n" "valid_level lv" "level_above (ss_decision_tracker s) lv"
  shows "\<exists>(r :: 'c outcome) s' L'. propagate None lv s = Some (r, s') \<and> prop_inv s' L' n \<and>
    extends (ss_decision_tracker s) (ss_decision_tracker s') \<and>
    (case r of
       Inl e \<Rightarrow> \<exists>v b c. e = PE_Conflict v b c \<and> falsified s' c
     | Inr _ \<Rightarrow> dt_propagate_index (ss_decision_tracker s') = length (dt_stack (ss_decision_tracker s')) \<and>
         (\<forall>l \<in> asserted s'. lit_value (ss_decision_tracker s') l = Some True) \<and>
         (\<forall>d \<in> set (drop (dt_propagate_index (ss_decision_tracker s)) (dt_stack (ss_decision_tracker s'))).
            quiet s' (false_lit d)))"
proof -
  obtain r :: "'c outcome" and s' L' where r: "propagate None lv s = Some (r, s')" "prop_inv s' L' n"
    "progress lv s s'" "case r of Inl e \<Rightarrow> conflict_at s' (conflict_literals (dt_propagate_index (ss_decision_tracker s)) s') e
       | Inr _ \<Rightarrow> propagated (dt_propagate_index (ss_decision_tracker s)) s'"
    using propagate_spec [OF assms] by blast
  then show ?thesis
    using progressD(3) [OF r(3)] by (cases r) (auto simp: conflict_at_def propagated_def)
qed

text \<open>Clause 1 forbids that 1 and 2 are both true; the root and then 1 have been decided.\<close>

definition example_db :: solver_state where
  "example_db =
     (let s1 = snd (add_clause None InstallRoot SolverState_default)
      in snd (add_clause (fst (WatchedLiterals_forbid_multiple 1 (negative 2) 0))
           (snd (WatchedLiterals_forbid_multiple 1 (negative 2) 0)) s1))"

definition example_state :: solver_state where
  "example_state = example_db\<lparr>ss_decision_tracker :=
     push_decision (push_decision DecisionTracker_default (Decision_new 0 True 0) 1) (Decision_new 1 True 0) 2\<rparr>"

lemma example_clauses:
  "ss_kinds example_state = [InstallRoot, ForbidMultipleInstances 1 (negative 2) 0]"
  "ss_negative_assertions example_state = []" "ss_learnt_clause_ids example_state = []"
  "dt_stack (ss_decision_tracker example_state) = [Decision_new 0 True 0, Decision_new 1 True 0]"
  by (simp_all add: example_state_def example_db_def Let_def SolverState_default_def DecisionTracker_default_def
      WatchedLiterals_forbid_multiple_def Clause_forbid_multiple_def)

lemma example_tracker_ok:
  "tracker_inv (ss_decision_tracker example_state)" "level_above (ss_decision_tracker example_state) 2"
  "valid_level 1" "valid_level 2"
proof -
  show v: "valid_level 1" "valid_level 2" by (simp_all add: valid_level_def)
  have fresh: "assigned_value DecisionTracker_default x = None" "level_above DecisionTracker_default 1" for x
    by (simp_all add: DecisionTracker_default_def assigned_value_def level_above_def)
  show "tracker_inv (ss_decision_tracker example_state)"
    using v fresh by (simp add: example_state_def)
      (intro push_decision_inv tracker_inv_default; auto simp: level_above_def DecisionTracker_default_def)
  show "level_above (ss_decision_tracker example_state) 2"
    using v by (auto simp: example_state_def level_above_def DecisionTracker_default_def)
qed

lemma example_state_inv: "\<exists>L. prop_inv example_state L 3"
proof -
  let ?s1 = "snd (add_clause None InstallRoot SolverState_default)"
  obtain L1 where "db_inv ?s1 L1" using add_clause_inv [OF db_inv_default, of None] by auto
  then obtain L where "db_inv example_db L"
    using add_clause_inv [of ?s1 L1 "fst (WatchedLiterals_forbid_multiple 1 (negative 2) 0)"
        "ForbidMultipleInstances 1 (negative 2) 0"]
    by (auto simp: example_db_def Let_def WatchedLiterals_forbid_multiple_def Clause_forbid_multiple_def
        from_kind_and_initial_watches_def watches_of_def)
  then have "db_inv example_state L" by (simp add: db_inv_def example_state_def)
  moreover have "trail_ok example_state"
    using example_tracker_ok by (auto simp: trail_ok_def example_clauses less_Suc_eq first_of_level_def)
      (simp_all add: example_state_def)
  moreover have "bounded example_state 3"
    by (simp add: bounded_def example_clauses lits_def)
  ultimately show ?thesis
    using example_tracker_ok by (auto simp: prop_inv_def assertions_ok_def example_clauses)
qed

theorem propagate_total_sound_complete_witness:
  "\<exists>(r :: unit outcome) s' L'. propagate None 2 example_state = Some (r, s') \<and> prop_inv s' L' 3"
proof -
  from example_state_inv obtain L where "prop_inv example_state L 3" by blast
  from propagate_total_sound_complete [OF this example_tracker_ok(4,2)] show ?thesis by blast
qed

text \<open>Property C8. A conflict is a proof. When propagation reports a conflict, no assignment of
  the variables that satisfies every clause of the database agrees with the decisions the
  solver has taken, that is with the first entry of every level of the trail.\<close>

theorem propagate_conflict_refutes:
  assumes "prop_inv s L n" "valid_level lv" "level_above (ss_decision_tracker s) lv"
    "propagate None lv s = Some (Inl e :: 'c outcome, s')"
  shows "\<not> (\<exists>M. models M s' \<and> agrees M (decisions_of s'))"
proof -
  obtain r :: "'c outcome" and s'' L' where r: "propagate None lv s = Some (r, s'')" "prop_inv s'' L' n"
    "case r of Inl e \<Rightarrow> conflict_at s'' (conflict_literals (dt_propagate_index (ss_decision_tracker s)) s'') e
     | Inr _ \<Rightarrow> propagated (dt_propagate_index (ss_decision_tracker s)) s''"
    using propagate_spec [OF assms(1-3)] by blast
  with assms(4) have "conflict_at s' (conflict_literals (dt_propagate_index (ss_decision_tracker s)) s') e"
    "prop_inv s' L' n" by simp_all
  then show ?thesis
    using falsified_refutes trail_entailed prop_invD(2,3) unfolding conflict_at_def by blast
qed

text \<open>Deciding 2 as well contradicts clause 1.\<close>

definition example_conflict :: solver_state where
  "example_conflict = example_state\<lparr>ss_decision_tracker :=
     push_decision (ss_decision_tracker example_state) (Decision_new 2 True 0) 3\<rparr>"

lemma example_conflict_inv:
  "\<exists>L. prop_inv example_conflict L 3" "valid_level 3" "level_above (ss_decision_tracker example_conflict) 3"
proof -
  let ?t = "ss_decision_tracker example_state" and ?d = "Decision_new 2 True 0"
  show v: "valid_level 3" by (simp add: valid_level_def)
  have la: "level_above ?t 3" using example_tracker_ok(2) by (fastforce simp: level_above_def)
  then show "level_above (ss_decision_tracker example_conflict) 3"
    using level_above_push [OF la v] by (simp add: example_conflict_def)
  have fresh: "assigned_value ?t 2 = None"
    by (subst assigned_value_None_iff [OF example_tracker_ok(1)]) (simp add: example_clauses)
  obtain L where L: "prop_inv example_state L 3" using example_state_inv by blast
  note i = prop_invD [OF L]
    and f = prop_frameD [OF prop_frame_update(1) [of example_state "push_decision ?t ?d 3"], folded example_conflict_def]
  have lower: "\<forall>e \<in> set (dt_stack ?t). tracker_level ?t (d_variable e) < 3"
    using example_tracker_ok(2) by (fastforce simp: level_above_def)
  have "trail_ok example_conflict"
    by (rule trail_ok_push [OF i(3,2) v _ disjI2 [OF lower] f(3)])
      (simp_all add: fresh example_conflict_def)
  moreover have "tracker_inv (ss_decision_tracker example_conflict)"
    using push_decision_inv [OF i(2) v la, of ?d] fresh by (simp add: example_conflict_def)
  moreover have "db_inv example_conflict L" using i(1) by (simp add: db_inv_def example_conflict_def)
  moreover have "bounded example_conflict 3"
    using i(4) by (simp add: bounded_def f) (simp add: example_conflict_def)
  ultimately show "\<exists>L. prop_inv example_conflict L 3" using i(5) by (auto simp: prop_inv_def f)
qed

theorem propagate_conflict_refutes_witness:
  "\<exists>s'. propagate None 3 example_conflict = Some (Inl (PE_Conflict 2 True 1) :: unit outcome, s') \<and>
    \<not> (\<exists>M. models M s' \<and> agrees M (decisions_of s'))"
proof -
  have "map_option fst (propagate None 3 example_conflict) = Some (Inl (PE_Conflict 2 True 1) :: unit outcome)"
    by code_simp
  then obtain s' where s': "propagate None 3 example_conflict = Some (Inl (PE_Conflict 2 True 1) :: unit outcome, s')"
    by auto
  from example_conflict_inv(1) obtain L where "prop_inv example_conflict L 3" by blast
  from propagate_conflict_refutes [OF this example_conflict_inv(2,3) s'] s' show ?thesis by blast
qed

end
