(* ===== verification/Conflict_Analysis.thy ===== *)
theory Conflict_Analysis
  imports Propagation
begin

text \<open>
  Conflict analysis: \<open>analyze\<close> and \<open>decay_activity_scores\<close> of \<open>src/solver/mod.rs\<close>. The theory
  shows that the learnt clause follows from the clauses recorded as its causes, and that after
  backtracking it is unit with the returned literal the only one that is not false.
\<close>

section \<open>The analysis loop\<close>

record analysis =
  an_seen :: "variable_id set"
  an_causes_at_current_level :: nat
  an_learnt :: "literal list"
  an_back_track_to :: level
  an_highest_level_idx :: nat
  an_learnt_why :: "clause_id list"
  an_first_iteration :: bool
  an_current_level :: level
  an_conflicting_solvable :: variable_id
  an_s_value :: bool
  an_clause_id :: clause_id

definition analysis_start :: "level \<Rightarrow> variable_id \<Rightarrow> clause_id \<Rightarrow> analysis" where
  "analysis_start current_level conflicting_solvable clause_id =
     \<lparr>an_seen = {}, an_causes_at_current_level = 0, an_learnt = [], an_back_track_to = 0,
      an_highest_level_idx = 0, an_learnt_why = [], an_first_iteration = True,
      an_current_level = current_level, an_conflicting_solvable = conflicting_solvable,
      an_s_value = False, an_clause_id = clause_id\<rparr>"

text \<open>The closure passed to \<open>visit_literals\<close>; \<open>None\<close> is \<open>unreachable!\<close> or a failed \<open>unwrap\<close>.\<close>

definition analyze_literal :: "decision_tracker \<Rightarrow> analysis \<Rightarrow> literal \<Rightarrow> analysis option" where
  "analyze_literal t a literal =
     (if \<not> an_first_iteration a \<and> variable literal = an_conflicting_solvable a then Some a
      else if variable literal \<in> an_seen a then Some a
      else
        let a1 = a\<lparr>an_seen := insert (variable literal) (an_seen a)\<rparr>;
            decision_level = tracker_level t (variable literal)
        in if decision_level = an_current_level a
           then Some (a1\<lparr>an_causes_at_current_level := an_causes_at_current_level a + 1\<rparr>)
           else if an_current_level a > 1
           then Option.bind (assigned_value t (variable literal)) (\<lambda>value.
             let a2 = (if decision_level > an_back_track_to a
                       then a1\<lparr>an_back_track_to := decision_level,
                              an_highest_level_idx := length (an_learnt a)\<rparr>
                       else a1)
             in Some (a2\<lparr>an_learnt := an_learnt a @ [Literal_new (variable literal) value]\<rparr>))
           else None)"

definition analyze_clause :: "solver_state \<Rightarrow> decision_tracker \<Rightarrow> analysis \<Rightarrow> analysis option" where
  "analyze_clause s t a =
     Option.bind (slice_get (ss_kinds s) (an_clause_id a)) (\<lambda>clause.
     Option.bind (visit_literals (ss_learnt_clauses s) (ss_requirement_to_sorted_candidates s) (ss_disjunctions s)
       clause (Some (a\<lparr>an_learnt_why := an_learnt_why a @ [an_clause_id a]\<rparr>))
       (\<lambda>a l. Option.bind a (\<lambda>a. analyze_literal t a l))) (\<lambda>a. a))"

text \<open>The inner loop: undo decisions until one that was seen.\<close>

function undo_to_seen ::
  "variable_id set \<Rightarrow> decision_tracker \<Rightarrow> ((decision \<times> level) \<times> decision_tracker) option" where
  "undo_to_seen seen t = (case undo_last t of
     None \<Rightarrow> None
   | Some ((last_decision, last_decision_level), t') \<Rightarrow>
       if d_variable last_decision \<in> seen then Some ((last_decision, last_decision_level), t')
       else undo_to_seen seen t')"
  by pat_completeness auto
termination
  by (relation "measure (\<lambda>(seen, t). length (dt_stack t))") (auto simp: undo_last_eq split: if_splits)

declare undo_to_seen.simps [simp del]

lemma undo_to_seen_shorter:
  "undo_to_seen seen t = Some (r, t') \<Longrightarrow> length (dt_stack t') < length (dt_stack t)"
  by (induction seen t rule: undo_to_seen.induct)
    (subst (asm) (2) undo_to_seen.simps,
     fastforce simp: undo_last_eq split: if_splits option.splits)

function analyze_loop :: "solver_state \<Rightarrow> decision_tracker \<Rightarrow> analysis \<Rightarrow> (analysis \<times> decision_tracker) option" where
  "analyze_loop s t a = (case analyze_clause s t a of
     None \<Rightarrow> None
   | Some a1 \<Rightarrow> (case undo_to_seen (an_seen a1) t of
       None \<Rightarrow> None
     | Some ((last_decision, last_decision_level), t') \<Rightarrow>
         let a2 = a1\<lparr>an_first_iteration := False,
                    an_conflicting_solvable := d_variable last_decision,
                    an_s_value := d_value last_decision,
                    an_clause_id := d_derived_from last_decision,
                    an_current_level := last_decision_level,
                    an_causes_at_current_level := an_causes_at_current_level a1 - 1\<rparr>
         in if an_causes_at_current_level a2 = 0 then Some (a2, t') else analyze_loop s t' a2))"
  by pat_completeness auto
termination
  by (relation "measure (\<lambda>(s, t, a). length (dt_stack t))") (auto dest: undo_to_seen_shorter)

declare analyze_loop.simps [simp del]

section \<open>Learning\<close>

text \<open>\<open>Vec::swap\<close>.\<close>

definition vec_swap :: "'a list \<Rightarrow> nat \<Rightarrow> nat \<Rightarrow> 'a list" where
  "vec_swap xs i j = xs[i := xs ! j, j := xs ! i]"

definition bump_activity ::
  "provider \<Rightarrow> f32_ops \<Rightarrow> f32 \<Rightarrow> solver_state \<Rightarrow> literal \<Rightarrow> solver_state option" where
  "bump_activity pv fl activity_add s literal =
     (case as_solvable (ss_variable_map s) (variable literal) of
        None \<Rightarrow> Some s
      | Some solvable \<Rightarrow>
          (let name_id = pv_solvable_name pv solvable;
               activity = f32_add fl (activity_get (ss_name_activity s) name_id) activity_add
           in map_option (\<lambda>q. s\<lparr>ss_name_activity := (ss_name_activity s)(name_id \<mapsto> activity),
                ss_max_activity := (if f32_gt fl activity (ss_max_activity s) then activity else ss_max_activity s),
                ss_decide_queue := q\<rparr>) (mark_name_hot name_id (ss_decide_queue s))))"

definition decay_activity_scores :: "f32_ops \<Rightarrow> f32 \<Rightarrow> solver_state \<Rightarrow> solver_state" where
  "decay_activity_scores fl activity_decay s =
     s\<lparr>ss_name_activity := (\<lambda>n. map_option (\<lambda>a. f32_mul fl a activity_decay) (ss_name_activity s n)),
       ss_max_activity := f32_mul fl (ss_max_activity s) activity_decay\<rparr>"

text \<open>The part of \<open>analyze\<close> that stores the clause.\<close>

definition store_learnt ::
  "literal list \<Rightarrow> clause_id list \<Rightarrow> solver_state \<Rightarrow> (clause_id \<times> solver_state) option" where
  "store_learnt learnt learnt_why s =
     (let learnt_id = length (ss_learnt_clauses s);
          s1 = s\<lparr>ss_learnt_clauses := ss_learnt_clauses s @ [learnt],
                 ss_learnt_why := (ss_learnt_why s)(learnt_id \<mapsto> learnt_why)\<rparr>
      in Option.bind (WatchedLiterals_learnt learnt_id learnt) (\<lambda>(watched_literals, kind).
        case add_clause watched_literals kind s1 of (clause_id, s2) \<Rightarrow>
          Some (clause_id, s2\<lparr>ss_learnt_clause_ids := ss_learnt_clause_ids s2 @ [clause_id]\<rparr>)))"

record solver_params =
  sp_provider :: provider
  sp_f32 :: f32_ops
  sp_activity_add :: f32
  sp_activity_decay :: f32

definition analyze ::
  "solver_params \<Rightarrow> level \<Rightarrow> variable_id \<Rightarrow> clause_id \<Rightarrow> solver_state \<Rightarrow>
    ((level \<times> clause_id \<times> literal) \<times> solver_state) option" where
  "analyze sp current_level conflicting_solvable clause_id s =
     Option.bind (analyze_loop s (ss_decision_tracker s)
       (analysis_start current_level conflicting_solvable clause_id)) (\<lambda>(a, t).
     let learnt0 = (if an_learnt a \<noteq> [] then vec_swap (an_learnt a) 0 (an_highest_level_idx a) else an_learnt a);
         last_literal = Literal_new (an_conflicting_solvable a) (an_s_value a);
         learnt = learnt0 @ [last_literal]
     in Option.bind (fold_opt (bump_activity (sp_provider sp) (sp_f32 sp) (sp_activity_add sp))
          (s\<lparr>ss_decision_tracker := t\<rparr>) learnt) (\<lambda>s1.
        Option.bind (store_learnt learnt (an_learnt_why a) s1) (\<lambda>(clause_id, s2).
        let target_level = max (an_back_track_to a) 1
        in Option.bind (undo_until target_level (ss_decision_tracker s2)) (\<lambda>t'.
          Some ((target_level, clause_id, last_literal),
            decay_activity_scores (sp_f32 sp) (sp_activity_decay sp) (s2\<lparr>ss_decision_tracker := t'\<rparr>))))))"

section \<open>The seen decisions\<close>

text \<open>The decisions on the trail whose variable was seen, at the current level and below.\<close>

definition marked :: "decision_tracker \<Rightarrow> variable_id set \<Rightarrow> decision set" where
  "marked t S = {d \<in> set (dt_stack t). d_variable d \<in> S}"

definition at_level :: "decision_tracker \<Rightarrow> level \<Rightarrow> variable_id set \<Rightarrow> decision set" where
  "at_level t lv S = {d \<in> marked t S. tracker_level t (d_variable d) = lv}"

definition below :: "decision_tracker \<Rightarrow> level \<Rightarrow> variable_id set \<Rightarrow> decision set" where
  "below t lv S = {d \<in> marked t S. tracker_level t (d_variable d) < lv}"

lemma same_variable:
  "tracker_inv t \<Longrightarrow> d \<in> set (dt_stack t) \<Longrightarrow> e \<in> set (dt_stack t) \<Longrightarrow> d_variable d = d_variable e \<Longrightarrow> d = e"
  using tracker_invD(1) by (auto simp: distinct_map dest: inj_onD)

lemma marked_insert:
  assumes "tracker_inv t" "e \<in> set (dt_stack t)"
  shows "marked t (insert (d_variable e) S) = insert e (marked t S)"
  using assms by (auto simp: marked_def dest: same_variable)

lemma marked_finite [simp]: "finite (marked t S)" "finite (at_level t lv S)" "finite (below t lv S)"
  by (auto simp: marked_def at_level_def below_def)

lemma marked_split: "level_above t lv \<Longrightarrow> marked t S = at_level t lv S \<union> below t lv S"
  unfolding marked_def at_level_def below_def level_above_def using order_le_less by blast

text \<open>The bookkeeping of the loop.\<close>

definition analysis_inv :: "decision_tracker \<Rightarrow> level \<Rightarrow> analysis \<Rightarrow> bool" where
  "analysis_inv t lv a \<longleftrightarrow>
     an_causes_at_current_level a = card (at_level t lv (an_seen a)) \<and>
     set (an_learnt a) = false_lit ` below t lv (an_seen a) \<and>
     (\<forall>l \<in> set (an_learnt a). tracker_level t (variable l) \<le> an_back_track_to a) \<and>
     (if an_learnt a = [] then an_back_track_to a = 0
      else an_highest_level_idx a < length (an_learnt a) \<and>
        tracker_level t (variable (an_learnt a ! an_highest_level_idx a)) = an_back_track_to a) \<and>
     (an_back_track_to a < lv)"

definition skipped :: "analysis \<Rightarrow> literal \<Rightarrow> bool" where
  "skipped a l \<longleftrightarrow> \<not> an_first_iteration a \<and> variable l = an_conflicting_solvable a"

lemma false_lit_trail:
  assumes "tracker_inv t" "e \<in> set (dt_stack t)"
  shows "assigned_value t (d_variable e) = Some (d_value e)" "tracker_level t (d_variable e) > 0"
    "Literal_new (d_variable e) (d_value e) = false_lit e"
  using tracker_invD(2) [OF assms(1)] tracker_invD(4) [OF assms] assms(2)
  by (auto simp: false_lit_def valid_level_def)

definition same_position :: "analysis \<Rightarrow> analysis \<Rightarrow> bool" where
  "same_position a a' \<longleftrightarrow> an_first_iteration a' = an_first_iteration a \<and>
     an_conflicting_solvable a' = an_conflicting_solvable a \<and> an_current_level a' = an_current_level a \<and>
     an_clause_id a' = an_clause_id a \<and> an_learnt_why a' = an_learnt_why a"

lemma analyze_literal_inv:
  assumes t: "tracker_inv t" "level_above t lv" and a: "analysis_inv t lv a" "an_current_level a = lv" "lv > 1"
    and l: "skipped a l \<or> (\<exists>e \<in> set (dt_stack t). false_lit e = l)"
  obtains a' where "analyze_literal t a l = Some a'" "analysis_inv t lv a'" "same_position a a'"
    "an_seen a' = (if skipped a l then an_seen a else insert (variable l) (an_seen a))"
proof (cases "skipped a l \<or> variable l \<in> an_seen a")
  case True
  with a show thesis
    by (intro that [of a]) (auto simp: analyze_literal_def skipped_def same_position_def insert_absorb)
next
  case False
  with l obtain e where e: "e \<in> set (dt_stack t)" "l = false_lit e" by auto
  let ?x = "d_variable e" and ?S = "an_seen a"
  note v = false_lit_trail [OF t(1) e(1)]
  have x: "?x \<notin> ?S" "variable l = ?x" using False e(2) by auto
  have notin: "e \<notin> marked t ?S" using x by (simp add: marked_def)
  note ins = marked_insert [OF t(1) e(1), of ?S]
  have lev: "tracker_level t ?x \<le> lv" using t(2) e(1) by (simp add: level_above_def)
  show thesis
  proof (cases "tracker_level t ?x = lv")
    case True
    have sets: "at_level t lv (insert ?x ?S) = insert e (at_level t lv ?S)"
      "below t lv (insert ?x ?S) = below t lv ?S" "e \<notin> at_level t lv ?S"
      using True notin by (auto simp: at_level_def below_def ins)
    let ?a = "a\<lparr>an_seen := insert ?x ?S, an_causes_at_current_level := an_causes_at_current_level a + 1\<rparr>"
    have "analyze_literal t a l = Some ?a"
      using False x True a(2) by (auto simp: analyze_literal_def skipped_def)
    moreover have "analysis_inv t lv ?a" using a(1) by (simp add: analysis_inv_def sets)
    ultimately show thesis using False x by (intro that [of ?a]) (auto simp: same_position_def)
  next
    case lower: False
    have sets: "at_level t lv (insert ?x ?S) = at_level t lv ?S"
      "below t lv (insert ?x ?S) = insert e (below t lv ?S)"
      using lower lev by (auto simp: at_level_def below_def ins)
    let ?higher = "tracker_level t ?x > an_back_track_to a"
    let ?a = "a\<lparr>an_seen := insert ?x ?S, an_learnt := an_learnt a @ [false_lit e],
      an_back_track_to := (if ?higher then tracker_level t ?x else an_back_track_to a),
      an_highest_level_idx := (if ?higher then length (an_learnt a) else an_highest_level_idx a)\<rparr>"
    have "analyze_literal t a l = Some ?a"
      using False x lower a(2,3) v by (auto simp: analyze_literal_def skipped_def)
    moreover have "analysis_inv t lv ?a"
      using a(1) v(2) lower lev
      by (auto simp: analysis_inv_def sets nth_append split: if_splits)
        (meson less_imp_le order_trans)
    ultimately show thesis using False x by (intro that [of ?a]) (auto simp: same_position_def)
  qed
qed

text \<open>The literals of one clause.\<close>

lemma fold_None: "foldl (\<lambda>a l. Option.bind a (\<lambda>a. f a l)) None ls = None"
  by (induction ls) auto

lemma analyze_literals_inv:
  assumes t: "tracker_inv t" "level_above t lv" and lv: "lv > 1"
  shows "analysis_inv t lv a \<Longrightarrow> an_current_level a = lv \<Longrightarrow>
    \<forall>l \<in> set ls. skipped a l \<or> (\<exists>e \<in> set (dt_stack t). false_lit e = l) \<Longrightarrow>
    \<exists>a'. foldl (\<lambda>a l. Option.bind a (\<lambda>a. analyze_literal t a l)) (Some a) ls = Some a' \<and>
      analysis_inv t lv a' \<and> same_position a a' \<and>
      an_seen a' = an_seen a \<union> variable ` {l \<in> set ls. \<not> skipped a l}"
proof (induction ls arbitrary: a)
  case Nil
  then show ?case by (simp add: same_position_def)
next
  case (Cons l ls)
  from Cons.prems have l: "skipped a l \<or> (\<exists>e \<in> set (dt_stack t). false_lit e = l)" by simp
  from analyze_literal_inv [OF t Cons.prems(1,2) lv l]
  obtain a1 where a1: "analyze_literal t a l = Some a1" "analysis_inv t lv a1" "same_position a a1"
    "an_seen a1 = (if skipped a l then an_seen a else insert (variable l) (an_seen a))" .
  have sk: "skipped a1 = skipped a" using a1(3) by (simp add: same_position_def skipped_def fun_eq_iff)
  have "an_current_level a1 = lv" using a1(3) Cons.prems(2) by (simp add: same_position_def)
  from Cons.IH [OF a1(2) this] Cons.prems(3) sk obtain a' where a':
    "foldl (\<lambda>a l. Option.bind a (\<lambda>a. analyze_literal t a l)) (Some a1) ls = Some a'"
    "analysis_inv t lv a'" "same_position a1 a'"
    "an_seen a' = an_seen a1 \<union> variable ` {l \<in> set ls. \<not> skipped a l}" by auto
  have "{k \<in> set (l # ls). \<not> skipped a k} =
      (if skipped a l then {} else {l}) \<union> {k \<in> set ls. \<not> skipped a k}" by auto
  with a'(4) a1(4) have "an_seen a' = an_seen a \<union> variable ` {k \<in> set (l # ls). \<not> skipped a k}"
    by (simp add: image_Un Un_commute)
  moreover have "same_position a a'" using a1(3) a'(3) by (simp add: same_position_def)
  ultimately show ?case using a1(1) a'(1,2) by simp
qed

lemma analyze_clause_inv:
  assumes t: "tracker_inv t" "level_above t lv" and lv: "lv > 1"
    and a: "analysis_inv t lv a" "an_current_level a = lv"
    and c: "an_clause_id a < length (ss_kinds s)" "lits s (kind_of s (an_clause_id a)) = Some ls"
    and ls: "\<forall>l \<in> set ls. skipped a l \<or> (\<exists>e \<in> set (dt_stack t). false_lit e = l)"
  obtains a' where "analyze_clause s t a = Some a'" "analysis_inv t lv a'"
    "an_learnt_why a' = an_learnt_why a @ [an_clause_id a]"
    "an_seen a' = an_seen a \<union> variable ` {l \<in> set ls. \<not> skipped a l}"
proof -
  let ?a = "a\<lparr>an_learnt_why := an_learnt_why a @ [an_clause_id a]\<rparr>"
  have "analysis_inv t lv ?a" "skipped ?a = skipped a"
    using a by (simp_all add: analysis_inv_def skipped_def fun_eq_iff)
  with analyze_literals_inv [OF t lv, of ?a ls] a(2) ls obtain a' where a':
    "foldl (\<lambda>a l. Option.bind a (\<lambda>a. analyze_literal t a l)) (Some ?a) ls = Some a'" "analysis_inv t lv a'"
    "same_position ?a a'" "an_seen a' = an_seen a \<union> variable ` {l \<in> set ls. \<not> skipped a l}" by auto
  have "analyze_clause s t a = Some a'"
    using c a'(1) by (simp add: analyze_clause_def visit_literals_eq lits_def slice_get_def)
  with a' show thesis by (intro that [of a']) (simp_all add: same_position_def)
qed

section \<open>Undoing to the next cause\<close>

text \<open>
  The state of the trail during the analysis: some decision is below the current level, so
  that undoing stops before the trail is empty.
\<close>

definition trail_at :: "solver_state \<Rightarrow> level \<Rightarrow> decision_tracker \<Rightarrow> bool" where
  "trail_at s lv t \<longleftrightarrow> undone (ss_decision_tracker s) t \<and> level_above t lv \<and>
     (\<exists>e \<in> set (dt_stack t). tracker_level t (d_variable e) < lv) \<and>
     keeps_below (ss_decision_tracker s) t (lv - 1)"

lemma trail_at_pop:
  assumes "trail_at s lv t" "dt_stack t = ds @ [d]" "tracker_level t (d_variable d) = lv"
  shows "trail_at s lv (pop_decision t)" "undo_last t = Some ((d, tracker_level (pop_decision t) (d_variable (last ds))), pop_decision t)"
    "ds \<noteq> []"
proof -
  have inv: "tracker_inv t" and un: "undone (ss_decision_tracker s) t" and la: "level_above t lv"
    using assms(1) by (auto simp: trail_at_def undone_def)
  have u: "undone t (pop_decision t)" using undone_pop [OF inv] assms(2) by simp
  from assms(1) obtain e where e: "e \<in> set (dt_stack t)" "tracker_level t (d_variable e) < lv"
    by (auto simp: trail_at_def)
  with assms(2,3) have eds: "e \<in> set ds" by auto
  then show ds: "ds \<noteq> []" by auto
  have "tracker_level (pop_decision t) (d_variable e) < lv"
    using undoneD(3) [OF u, of e] eds e(2) assms(2) by simp
  moreover have "keeps_below (ss_decision_tracker s) (pop_decision t) (lv - 1)"
  proof -
    have "f \<in> set ds" if f: "f \<in> set (dt_stack (ss_decision_tracker s))"
      "tracker_level (ss_decision_tracker s) (d_variable f) \<le> lv - 1" for f
    proof -
      have mem: "f \<in> set (dt_stack t)" using assms(1) f by (simp add: trail_at_def keeps_below_def)
      then have "tracker_level t (d_variable f) < lv" using f(2) e(2) undoneD(3) [OF un mem] by simp
      with mem assms(2,3) show ?thesis by auto
    qed
    then show ?thesis using assms(2) by (simp add: keeps_below_def)
  qed
  ultimately show "trail_at s lv (pop_decision t)"
    unfolding trail_at_def
    using undone_trans [OF un u] undoneD(4) [OF u la] eds assms(2)
    by (intro conjI bexI [of _ e]) simp_all
  show "undo_last t = Some ((d, tracker_level (pop_decision t) (d_variable (last ds))), pop_decision t)"
    using assms(2) ds by (simp add: undo_last_eq Suc_le_eq)
qed

lemma marked_pop:
  assumes "tracker_inv t" "dt_stack t = ds @ [d]"
  shows "marked (pop_decision t) S = marked t S - {d}"
    "at_level (pop_decision t) lv S = at_level t lv S - {d}"
    "below (pop_decision t) lv S = below t lv S - {d}"
proof -
  note neq = trail_last(2) [OF assms]
  show m: "marked (pop_decision t) S = marked t S - {d}"
    using assms(2) neq by (auto simp: marked_def)
  show "at_level (pop_decision t) lv S = at_level t lv S - {d}" "below (pop_decision t) lv S = below t lv S - {d}"
    using neq assms(2) unfolding at_level_def below_def m by (auto simp: marked_def)
qed

text \<open>
  If a seen decision of the current level is left, undoing stops at the last of them. If
  another decision of the level is below it, it has a reason.
\<close>

lemma undo_to_seen_spec:
  assumes "trail_at s lv t" "trail_ok s" "at_level t lv S \<noteq> {}"
  shows "\<exists>d l t'. undo_to_seen S t = Some ((d, l), t') \<and> d \<in> at_level t lv S \<and> trail_at s lv t' \<and>
    assigned_value t' (d_variable d) = None \<and>
    marked t' S = marked t S - {d} \<and> at_level t' lv S = at_level t lv S - {d} \<and>
    dt_propagate_index t' = length (dt_stack t') \<and>
    (at_level t' lv S \<noteq> {} \<longrightarrow> l = lv \<and> reason_ok s (dt_stack t') d)"
  using assms(1,3)
proof (induction S t rule: undo_to_seen.induct)
  case (1 S t)
  have inv: "tracker_inv t" and un: "undone (ss_decision_tracker s) t" and la: "level_above t lv"
    using "1.prems"(1) by (auto simp: trail_at_def undone_def)
  from "1.prems"(2) obtain e where e: "e \<in> at_level t lv S" by blast
  then have "dt_stack t \<noteq> []" by (auto simp: at_level_def marked_def)
  then obtain ds d where st: "dt_stack t = ds @ [d]" by (cases "dt_stack t" rule: rev_cases) auto
  have lev: "tracker_level t (d_variable d) = lv"
  proof (rule antisym)
    show "tracker_level t (d_variable d) \<le> lv" using la st by (simp add: level_above_def)
    show "lv \<le> tracker_level t (d_variable d)"
      using e st trail_last(1) [OF inv st] by (auto simp: at_level_def marked_def)
  qed
  note pop = trail_at_pop [OF "1.prems"(1) st lev] and mp = marked_pop [OF inv st]
  show ?case
  proof (cases "d_variable d \<in> S")
    case False
    then have same: "marked (pop_decision t) S = marked t S" "at_level (pop_decision t) lv S = at_level t lv S"
      unfolding mp by (auto simp: marked_def at_level_def)
    have "undo_to_seen S t = undo_to_seen S (pop_decision t)"
      using False pop(2) by (subst undo_to_seen.simps) simp
    with "1.IH" [OF pop(2) refl refl False pop(1)] "1.prems"(2) same show ?thesis by simp
  next
    case True
    let ?l = "tracker_level (pop_decision t) (d_variable (last ds))"
    have "undo_to_seen S t = Some ((d, ?l), pop_decision t)"
      using True pop(2) by (subst undo_to_seen.simps) simp
    moreover have "d \<in> at_level t lv S" using True lev st by (simp add: at_level_def marked_def)
    moreover have "?l = lv \<and> reason_ok s (dt_stack (pop_decision t)) d" if "at_level (pop_decision t) lv S \<noteq> {}"
    proof -
      from that obtain f where f: "f \<in> set ds" "tracker_level (pop_decision t) (d_variable f) = lv"
        using st by (auto simp: at_level_def marked_def)
      have inv': "tracker_inv (pop_decision t)" and la': "level_above (pop_decision t) lv"
        using pop(1) by (auto simp: trail_at_def undone_def)
      obtain es g where es: "ds = es @ [g]" using pop(3) by (cases ds rule: rev_cases) auto
      have st': "dt_stack (pop_decision t) = es @ [g]" using es st by (simp add: butlast_append)
      from trail_last(1) [OF inv' this, of f] f es have "lv \<le> ?l" by (simp del: pop_decision_simps(5)) auto
      moreover have "?l \<le> lv" using la' es st' by (simp add: level_above_def del: pop_decision_simps)
      moreover have "tracker_level t (d_variable f) = lv" using f trail_last(2) [OF inv st f(1)] st by simp
      moreover have "trail_ok (s\<lparr>ss_decision_tracker := t\<rparr>)"
        using trail_ok_undone [OF assms(2) un] by (simp add: same_clauses_def lits_def)
      ultimately show ?thesis
        using trail_ok_last [of "s\<lparr>ss_decision_tracker := t\<rparr>" ds d f] inv st f(1) lev
        by (simp add: reason_ok_def lits_def)
    qed
    ultimately show ?thesis using pop(1) mp st by auto
  qed
qed

section \<open>The loop\<close>

text \<open>
  What one iteration starts from: the literals of the clause are the popped variable or
  false, and the clause resolves with what is known so far into the seen decisions.
\<close>

definition resolvable :: "solver_state \<Rightarrow> decision_tracker \<Rightarrow> analysis \<Rightarrow> literal list \<Rightarrow> bool" where
  "resolvable s t a ls \<longleftrightarrow>
     an_clause_id a < length (ss_kinds s) \<and> lits s (kind_of s (an_clause_id a)) = Some ls \<and>
     (\<forall>l \<in> set ls. skipped a l \<or> (\<exists>e \<in> set (dt_stack t). false_lit e = l)) \<and>
     (\<forall>S. an_seen a \<subseteq> S \<and> variable ` {l \<in> set ls. \<not> skipped a l} \<subseteq> S \<longrightarrow>
        implied s (insert (an_clause_id a) (set (an_learnt_why a))) (false_lit ` marked t S))"

lemma resolvable_conflict:
  assumes "tracker_inv t" "c < length (ss_kinds s)" "lits s (kind_of s c) = Some ls"
    "\<forall>l \<in> set ls. lit_value t l = Some False"
  shows "resolvable s t (analysis_start lv v c) ls"
proof -
  have false: "\<exists>e \<in> set (dt_stack t). false_lit e = l" if "l \<in> set ls" for l
    using assms(4) that lit_value_False_trail [OF assms(1)] by blast
  have "implied s {c} (false_lit ` marked t S)" if "variable ` set ls \<subseteq> S" for S
    unfolding implied_def
  proof (intro allI impI)
    fix M
    assume "\<forall>c \<in> {c}. clause_holds M s c"
    with assms(3) obtain l where l: "l \<in> set ls" "lit_true M l"
      by (auto simp: clause_holds_def clause_true_def)
    with false [OF l(1)] that show "\<exists>l \<in> false_lit ` marked t S. lit_true M l"
      by (force simp: marked_def)
  qed
  with assms(2,3) false show ?thesis
    by (simp add: resolvable_def analysis_start_def skipped_def)
qed

lemma resolvable_reason:
  assumes "tracker_inv t" and reason: "reason_ok s (dt_stack t) d" and d: "assigned_value t (d_variable d) = None"
    and known: "implied s (set (an_learnt_why a)) (false_lit ` insert d (marked t (an_seen a)))"
    and a: "\<not> an_first_iteration a" "an_conflicting_solvable a = d_variable d" "an_clause_id a = d_derived_from d"
  shows "\<exists>ls. resolvable s t a ls"
proof -
  from reason obtain ls where ls: "d_derived_from d < length (ss_kinds s)"
    "lits s (kind_of s (d_derived_from d)) = Some ls"
    "\<And>l. l \<in> set ls \<Longrightarrow> l \<noteq> true_lit d \<Longrightarrow> \<exists>e \<in> set (dt_stack t). false_lit e = l"
    by (auto simp: reason_ok_def)
  have sk: "skipped a l \<longleftrightarrow> l = true_lit d" if "l \<in> set ls" for l
  proof -
    have "variable l \<noteq> d_variable d" if "e \<in> set (dt_stack t)" "false_lit e = l" for e
      using that d assigned_value_None_iff [OF assms(1), of "d_variable d"] by (auto simp: not_in_image_iff)
    with ls(3) [OF that] a(1,2) show ?thesis by (auto simp: skipped_def)
  qed
  have "implied s (insert (an_clause_id a) (set (an_learnt_why a))) (false_lit ` marked t S)"
    if S: "an_seen a \<subseteq> S" "variable ` {l \<in> set ls. \<not> skipped a l} \<subseteq> S" for S
    unfolding implied_def
  proof (intro allI impI)
    fix M
    assume M: "\<forall>c \<in> insert (an_clause_id a) (set (an_learnt_why a)). clause_holds M s c"
    with known obtain e where e: "e \<in> insert d (marked t (an_seen a))" "lit_true M (false_lit e)"
      by (auto simp: implied_def)
    show "\<exists>l \<in> false_lit ` marked t S. lit_true M l"
    proof (cases "e \<in> marked t (an_seen a)")
      case True
      with e(2) S(1) show ?thesis by (auto simp: marked_def)
    next
      case False
      with e have "\<not> lit_true M (true_lit d)" by auto
      moreover obtain l where l: "l \<in> set ls" "lit_true M l"
        using M ls(2) a(3) by (auto simp: clause_holds_def clause_true_def)
      ultimately have "l \<noteq> true_lit d" by blast
      with ls(3) l sk obtain f where f: "f \<in> set (dt_stack t)" "false_lit f = l" "\<not> skipped a l" by blast
      then have "f \<in> marked t S" using S(2) l(1) by (auto simp: marked_def)
      with f(2) l(2) show ?thesis by blast
    qed
  qed
  moreover have "\<forall>l \<in> set ls. skipped a l \<or> (\<exists>e \<in> set (dt_stack t). false_lit e = l)"
    using ls(3) sk by blast
  ultimately show ?thesis
    unfolding resolvable_def a(3) using ls(1,2) by (intro exI [of _ ls] conjI) blast+
qed

text \<open>What the loop ends with.\<close>

definition analysis_result :: "solver_state \<Rightarrow> level \<Rightarrow> analysis \<Rightarrow> decision_tracker \<Rightarrow> bool" where
  "analysis_result s lv a t \<longleftrightarrow> (\<exists>d. trail_at s lv t \<and> analysis_inv t lv a \<and>
     an_conflicting_solvable a = d_variable d \<and> an_s_value a = d_value d \<and>
     d \<in> set (dt_stack (ss_decision_tracker s)) \<and>
     assigned_value t (d_variable d) = None \<and> at_level t lv (an_seen a) = {} \<and>
     dt_propagate_index t = length (dt_stack t) \<and>
     (\<forall>c \<in> set (an_learnt_why a). c < length (ss_kinds s)) \<and>
     implied s (set (an_learnt_why a)) (false_lit ` insert d (marked t (an_seen a))))"

lemma analysis_inv_step:
  assumes "analysis_inv t lv a" "marked t' (an_seen a) = marked t (an_seen a) - {d}"
    "at_level t' lv (an_seen a) = at_level t lv (an_seen a) - {d}" "d \<in> at_level t lv (an_seen a)"
    "undone u t" "undone u t'" "an_seen a' = an_seen a" "an_learnt a' = an_learnt a"
    "an_back_track_to a' = an_back_track_to a" "an_highest_level_idx a' = an_highest_level_idx a"
    "an_causes_at_current_level a' = an_causes_at_current_level a - 1"
  shows "analysis_inv t' lv a'"
proof -
  let ?S = "an_seen a"
  have lev: "tracker_level t' (d_variable e) = tracker_level t (d_variable e)" if "e \<in> marked t' ?S" for e
  proof -
    have "e \<in> set (dt_stack t)" "e \<in> set (dt_stack t')" using that assms(2) by (auto simp: marked_def)
    with undoneD(3) [OF assms(5)] undoneD(3) [OF assms(6)] show ?thesis by simp
  qed
  have eq: "below t' lv ?S = below t lv ?S"
  proof (rule set_eqI)
    fix e
    show "e \<in> below t' lv ?S \<longleftrightarrow> e \<in> below t lv ?S"
    proof (cases "e \<in> marked t' ?S")
      case True
      then have "e \<in> marked t ?S" using assms(2) by blast
      with True lev show ?thesis by (simp add: below_def)
    next
      case False
      then have "e \<notin> marked t ?S \<or> e = d" using assms(2) by blast
      with False assms(4) show ?thesis by (auto simp: below_def at_level_def)
    qed
  qed
  have lev': "tracker_level t' (variable l) = tracker_level t (variable l)" if "l \<in> set (an_learnt a)" for l
  proof -
    from that assms(1) obtain e where e: "l = false_lit e" "e \<in> below t lv ?S" by (auto simp: analysis_inv_def)
    then have "e \<in> marked t' ?S" using eq by (auto simp: below_def)
    with lev e(1) show ?thesis by simp
  qed
  have card: "card (at_level t' lv ?S) = card (at_level t lv ?S) - 1"
    unfolding assms(3) using assms(4) by simp
  have "tracker_level t' (variable (an_learnt a ! an_highest_level_idx a)) =
      tracker_level t (variable (an_learnt a ! an_highest_level_idx a))"
    if "an_highest_level_idx a < length (an_learnt a)"
    using lev' [OF nth_mem [OF that]] .
  with assms(1) lev' show ?thesis
    unfolding analysis_inv_def assms(7-11) card eq by (auto split: if_splits)
qed

lemma trail_at_undone: "trail_at s lv t \<Longrightarrow> undone (ss_decision_tracker s) t"
  by (simp add: trail_at_def)

lemma analyze_loop_spec:
  assumes ok: "trail_ok s" and lv: "lv > 1"
  shows "trail_at s lv t \<Longrightarrow> analysis_inv t lv a \<Longrightarrow> an_current_level a = lv \<Longrightarrow> resolvable s t a ls \<Longrightarrow>
    (\<forall>c \<in> set (an_learnt_why a). c < length (ss_kinds s)) \<Longrightarrow>
    at_level t lv (an_seen a \<union> variable ` {l \<in> set ls. \<not> skipped a l}) \<noteq> {} \<Longrightarrow>
    \<exists>a' t'. analyze_loop s t a = Some (a', t') \<and> analysis_result s lv a' t'"
proof (induction "length (dt_stack t)" arbitrary: t a ls rule: less_induct)
  case less
  note at = less.prems(1) and res = less.prems(4) [unfolded resolvable_def]
  have inv: "tracker_inv t" and la: "level_above t lv"
    using at undoneD(1) [OF trail_at_undone [OF at]] by (auto simp: trail_at_def)
  let ?S = "an_seen a \<union> variable ` {l \<in> set ls. \<not> skipped a l}"
  obtain a1 where a1: "analyze_clause s t a = Some a1" "analysis_inv t lv a1"
    "an_learnt_why a1 = an_learnt_why a @ [an_clause_id a]" "an_seen a1 = ?S"
    by (rule analyze_clause_inv [OF inv la lv less.prems(2,3)]) (use res in blast)+
  have known: "implied s (set (an_learnt_why a1)) (false_lit ` marked t ?S)"
    using res unfolding a1(3) by simp
  obtain d l t' where u: "undo_to_seen ?S t = Some ((d, l), t')" "d \<in> at_level t lv ?S"
    "trail_at s lv t'" "assigned_value t' (d_variable d) = None"
    "marked t' ?S = marked t ?S - {d}" "at_level t' lv ?S = at_level t lv ?S - {d}"
    "dt_propagate_index t' = length (dt_stack t')"
    "at_level t' lv ?S \<noteq> {} \<longrightarrow> l = lv \<and> reason_ok s (dt_stack t') d"
    using undo_to_seen_spec [OF at ok less.prems(6)] by blast
  define a2 where "a2 = a1\<lparr>an_first_iteration := False, an_conflicting_solvable := d_variable d,
    an_s_value := d_value d, an_clause_id := d_derived_from d, an_current_level := l,
    an_causes_at_current_level := an_causes_at_current_level a1 - 1\<rparr>"
  have seen2: "an_seen a2 = ?S" "an_learnt_why a2 = an_learnt_why a1" by (simp_all add: a2_def a1(4))
  have loop: "analyze_loop s t a = (if an_causes_at_current_level a2 = 0 then Some (a2, t') else analyze_loop s t' a2)"
    using a1(1,4) u(1) by (subst analyze_loop.simps) (simp add: a2_def Let_def)
  have inv2: "analysis_inv t' lv a2"
    by (rule analysis_inv_step [OF a1(2), unfolded a1(4), OF u(5,6,2) trail_at_undone [OF at] trail_at_undone [OF u(3)]])
      (simp_all add: a2_def a1(4))
  have ins: "marked t ?S = insert d (marked t' ?S)" using u(2,5) by (auto simp: at_level_def)
  have known2: "implied s (set (an_learnt_why a2)) (false_lit ` insert d (marked t' (an_seen a2)))"
    using known unfolding ins seen2 by simp
  have why2: "\<forall>c \<in> set (an_learnt_why a2). c < length (ss_kinds s)"
    using less.prems(5) res by (auto simp: seen2 a1(3))
  have cnt: "an_causes_at_current_level a2 = card (at_level t' lv ?S)"
    using inv2 by (simp add: analysis_inv_def seen2)
  show ?case
  proof (cases "at_level t' lv ?S = {}")
    case True
    have "d \<in> set (dt_stack (ss_decision_tracker s))"
      using u(2) undoneD(2) [OF trail_at_undone [OF at]] by (auto simp: at_level_def marked_def)
    then have "analysis_result s lv a2 t'"
      unfolding analysis_result_def using u(3,4,7) inv2 known2 why2 True seen2(1)
      by (intro exI [of _ d]) (simp add: a2_def)
    with loop True cnt show ?thesis by auto
  next
    case False
    with u(8) have l: "l = lv" "reason_ok s (dt_stack t') d" by simp_all
    have inv': "tracker_inv t'" using undoneD(1) [OF trail_at_undone [OF u(3)]] .
    obtain ls' where ls': "resolvable s t' a2 ls'"
      using resolvable_reason [OF inv' l(2) u(4) known2] by (auto simp: a2_def)
    have "at_level t' lv (an_seen a2 \<union> X) \<noteq> {}" for X
      using False by (auto simp: seen2 at_level_def marked_def)
    moreover have "length (dt_stack t') < length (dt_stack t)" using undo_to_seen_shorter [OF u(1)] .
    ultimately obtain a' t'' where "analyze_loop s t' a2 = Some (a', t'')" "analysis_result s lv a' t''"
      using less.hyps [OF _ u(3) inv2 _ ls' why2] l(1) by (auto simp: a2_def)
    with loop False cnt show ?thesis by auto
  qed
qed

section \<open>Storing the learnt clause\<close>

text \<open>Marking names hot looks up tracked clauses by the indices in the name lists.\<close>

definition name_lists_ok :: "decide_queue \<Rightarrow> bool" where
  "name_lists_ok q \<longleftrightarrow> (\<forall>name ids. dq_clauses_by_name q name = Some ids \<longrightarrow> (\<forall>i \<in> set ids. i < length (dq_clauses q)))"

lemma mark_clause_hot_total:
  assumes "i < length (dq_clauses q)"
  shows "\<exists>q'. mark_clause_hot q i = Some q' \<and> length (dq_clauses q') = length (dq_clauses q) \<and>
    dq_clauses_by_name q' = dq_clauses_by_name q"
proof (cases "tc_hot (dq_clauses q ! i)")
  case True
  with assms show ?thesis by (simp add: mark_clause_hot_def slice_get_def)
next
  case False
  with assms show ?thesis
    by (cases "map_of (dq_queue q) (tc_position (dq_clauses q ! i))")
      (simp_all add: mark_clause_hot_def slice_get_def Let_def)
qed

lemma mark_clauses_hot:
  "\<forall>i \<in> set ids. i < length (dq_clauses q) \<Longrightarrow>
    \<exists>q'. fold_opt mark_clause_hot q ids = Some q' \<and> length (dq_clauses q') = length (dq_clauses q) \<and>
      dq_clauses_by_name q' = dq_clauses_by_name q"
proof (induction ids arbitrary: q)
  case (Cons i ids)
  obtain q1 where q1: "mark_clause_hot q i = Some q1" "length (dq_clauses q1) = length (dq_clauses q)"
    "dq_clauses_by_name q1 = dq_clauses_by_name q"
    using mark_clause_hot_total [of i q] Cons.prems by auto
  with Cons.IH [of q1] Cons.prems show ?case by auto
qed simp

lemma mark_name_hot_total:
  assumes "name_lists_ok q"
  shows "\<exists>q'. mark_name_hot name q = Some q' \<and> name_lists_ok q'"
proof (cases "name \<in> dq_hot_names q \<or> dq_clauses_by_name q name = None")
  case True
  with assms show ?thesis by (auto simp: mark_name_hot_def name_lists_ok_def Let_def)
next
  case False
  then obtain ids where ids: "dq_clauses_by_name q name = Some ids" by auto
  let ?q = "q\<lparr>dq_hot_names := insert name (dq_hot_names q)\<rparr>"
  have "\<forall>i \<in> set ids. i < length (dq_clauses ?q)" using assms ids by (auto simp: name_lists_ok_def)
  from mark_clauses_hot [OF this] False ids assms show ?thesis
    by (auto simp: mark_name_hot_def name_lists_ok_def Let_def)
qed

lemma name_lists_ok_hotter:
  assumes "name_lists_ok q" "hotter q q'"
  shows "name_lists_ok q'"
proof -
  from assms(2) obtain names where "fold_opt (\<lambda>q name. mark_name_hot name q) q names = Some q'" by (auto simp: hotter_def)
  with assms(1) show ?thesis
  proof (induction names arbitrary: q)
    case (Cons name names)
    with mark_name_hot_total [OF Cons.prems(1), of name] show ?case by auto
  qed simp
qed

definition but_activity :: "solver_state \<Rightarrow> solver_state" where
  "but_activity s = s\<lparr>ss_name_activity := Map.empty, ss_max_activity := 0, ss_decide_queue := DecideQueue_default\<rparr>"

definition activity_frame :: "solver_state \<Rightarrow> solver_state \<Rightarrow> bool" where
  "activity_frame s s' \<longleftrightarrow> but_activity s' = but_activity s \<and> hotter (ss_decide_queue s) (ss_decide_queue s')"

lemma activity_frame_refl [simp]: "activity_frame s s"
  by (simp add: activity_frame_def)

lemma activity_frame_trans: "activity_frame s s' \<Longrightarrow> activity_frame s' s'' \<Longrightarrow> activity_frame s s''"
  using hotter_trans by (auto simp: activity_frame_def)

lemma activity_frame_fields:
  assumes "activity_frame s s'"
  shows "ss_kinds s' = ss_kinds s" "ss_learnt_clauses s' = ss_learnt_clauses s"
    "ss_decision_tracker s' = ss_decision_tracker s" "ss_variable_map s' = ss_variable_map s"
    "ss_learnt_why s' = ss_learnt_why s" "ss_learnt_clause_ids s' = ss_learnt_clause_ids s"
    "ss_negative_assertions s' = ss_negative_assertions s" "ss_watched_literals s' = ss_watched_literals s"
    "ss_watches s' = ss_watches s" "ss_requirement_to_sorted_candidates s' = ss_requirement_to_sorted_candidates s"
    "ss_disjunctions s' = ss_disjunctions s" "search_frame s s'"
  using assms
  by (cases s; cases s'; simp add: activity_frame_def but_activity_def search_frame_def but_search_def)+

lemma activity_frame_lits: "activity_frame s s' \<Longrightarrow> lits s' k = lits s k"
  by (simp add: lits_def activity_frame_fields)

lemma activity_frame_queue:
  "activity_frame s s' \<Longrightarrow> name_lists_ok (ss_decide_queue s) \<Longrightarrow> name_lists_ok (ss_decide_queue s')"
  using name_lists_ok_hotter by (auto simp: activity_frame_def)

lemma bump_activity_total:
  assumes "name_lists_ok (ss_decide_queue s)"
  shows "\<exists>s'. bump_activity pv fl add s l = Some s' \<and> activity_frame s s'"
proof (cases "as_solvable (ss_variable_map s) (variable l)")
  case None
  then show ?thesis by (simp add: bump_activity_def)
next
  case (Some v)
  obtain q where q: "mark_name_hot (pv_solvable_name pv v) (ss_decide_queue s) = Some q"
    using mark_name_hot_total [OF assms] by blast
  with Some hotter_step [OF q] show ?thesis
    unfolding bump_activity_def Let_def by (simp add: activity_frame_def but_activity_def)
qed

lemma bump_activities_total:
  "name_lists_ok (ss_decide_queue s) \<Longrightarrow>
    \<exists>s'. fold_opt (bump_activity pv fl add) s ls = Some s' \<and> activity_frame s s'"
proof (induction ls arbitrary: s)
  case Nil
  then show ?case by simp
next
  case (Cons l ls)
  obtain s1 where s1: "bump_activity pv fl add s l = Some s1" "activity_frame s s1"
    using bump_activity_total [OF Cons.prems] by blast
  from Cons.IH [OF activity_frame_queue [OF s1(2) Cons.prems]] obtain s2 where
    "fold_opt (bump_activity pv fl add) s1 ls = Some s2" "activity_frame s1 s2" by blast
  with s1 activity_frame_trans [OF s1(2)] show ?case by simp
qed

text \<open>A new learnt clause leaves the literals of the others alone.\<close>

lemma lits_learnt:
  "lits (s\<lparr>ss_learnt_clauses := ss_learnt_clauses s @ [x], ss_learnt_why := w\<rparr>) k =
    (if k = Learnt (length (ss_learnt_clauses s)) then Some x else lits s k)"
  by (cases k) (auto simp: lits_def slice_get_def nth_append)

text \<open>The watches of a new clause, if it has two literals: its last literal is the second.\<close>

definition learnt_watch :: "literal list \<Rightarrow> solver_state \<Rightarrow> solver_state \<Rightarrow> bool" where
  "learnt_watch ls s s' \<longleftrightarrow> watched_of (ss_watched_literals s') =
     (watched_of (ss_watched_literals s))(length (ss_kinds s) := if length ls = 1 then None else Some (hd ls, last ls))"

lemma learnt_watch_add:
  assumes "db_inv s L" "w = from_kind_and_initial_watches (if length ls = 1 then None else Some (hd ls, last ls))"
    "length ls \<noteq> 1 \<Longrightarrow> hd ls \<noteq> last ls"
  shows "learnt_watch ls s (snd (add_clause w k s))"
proof -
  note d = db_invD [OF assms(1)]
  have "watched_of (ss_watched_literals (snd (add_clause w k s))) c =
      ((watched_of (ss_watched_literals s))(length (ss_kinds s) := if length ls = 1 then None else Some (hd ls, last ls))) c" for c
  proof (cases "c = length (ss_kinds s)")
    case True
    then show ?thesis
      using assms(3) start_watching_eq [of "\<lparr>wl_watched = (hd ls, last ls), wl_next = (None, None)\<rparr>"]
      by (auto simp: add_clause_watched [OF d(1)] watched_of_def slice_get_def nth_append d(1) assms(2)
          from_kind_and_initial_watches_def)
  next
    case False
    then show ?thesis
      by (auto simp: add_clause_watched [OF d(1)] watched_of_def slice_get_def nth_append d(1))
  qed
  then show ?thesis unfolding learnt_watch_def by (rule ext)
qed

lemma store_learnt_effect:
  assumes db: "db_inv s L" and ls: "ls \<noteq> []" "length ls > 1 \<Longrightarrow> hd ls \<noteq> last ls"
  obtains s2 L' where "store_learnt ls why s = Some (length (ss_kinds s), s2)" "db_inv s2 L'"
    "ss_kinds s2 = ss_kinds s @ [Learnt (length (ss_learnt_clauses s))]"
    "ss_learnt_clauses s2 = ss_learnt_clauses s @ [ls]"
    "ss_learnt_why s2 = (ss_learnt_why s)(length (ss_learnt_clauses s) \<mapsto> why)"
    "ss_learnt_clause_ids s2 = ss_learnt_clause_ids s @ [length (ss_kinds s)]"
    "ss_decision_tracker s2 = ss_decision_tracker s"
    "ss_negative_assertions s2 = ss_negative_assertions s" "ss_decide_queue s2 = ss_decide_queue s"
    "ss_variable_map s2 = ss_variable_map s"
    "\<And>k. lits s2 k = (if k = Learnt (length (ss_learnt_clauses s)) then Some ls else lits s k)"
    "search_frame s s2" "learnt_watch ls s s2"
proof -
  let ?i = "length (ss_learnt_clauses s)"
  let ?s1 = "s\<lparr>ss_learnt_clauses := ss_learnt_clauses s @ [ls], ss_learnt_why := (ss_learnt_why s)(?i \<mapsto> why)\<rparr>"
  define w where "w = from_kind_and_initial_watches (if length ls = 1 then None else Some (hd ls, last ls))"
  have wl: "WatchedLiterals_learnt ?i ls = Some (w, Learnt ?i)"
    using ls(1) by (simp add: WatchedLiterals_learnt_def Clause_learnt_def w_def)
  note d = db_invD [OF db]
  have mono: "well_watched ?s1 k v" if "well_watched s k v" for k v
    using that lits_learnt [where s = s and x = ls and w = "(ss_learnt_why s)(?i \<mapsto> why)" and k = k]
    by (auto simp: watches_of_def lits_def slice_get_def split: if_splits)
  have db1: "db_inv ?s1 L" using d mono by (simp add: db_inv_def)
  moreover have "well_watched ?s1 (Learnt ?i) wl" if "w = Some wl" for wl
  proof -
    from that have "wl_watched wl = (hd ls, last ls)" "length ls \<noteq> 1"
      by (auto simp: w_def from_kind_and_initial_watches_def split: if_splits)
    moreover from this(2) ls(1) have "length ls > 1" by (cases ls) auto
    ultimately show ?thesis using ls by (simp add: watches_of_def slice_get_def)
  qed
  ultimately obtain L' where L': "db_inv (snd (add_clause w (Learnt ?i) ?s1)) L'" using add_clause_inv by blast
  let ?s2 = "snd (add_clause w (Learnt ?i) ?s1)"
  let ?s3 = "?s2\<lparr>ss_learnt_clause_ids := ss_learnt_clause_ids ?s2 @ [length (ss_kinds s)]\<rparr>"
  show thesis
  proof (rule that [of ?s3 L'])
    show "store_learnt ls why s = Some (length (ss_kinds s), ?s3)"
      by (simp add: store_learnt_def Let_def wl split_beta)
    show "db_inv ?s3 L'" using L' by (simp add: db_inv_def)
    show "lits ?s3 k = (if k = Learnt ?i then Some ls else lits s k)" for k
      using lits_learnt [where s = s and x = ls and w = "(ss_learnt_why s)(?i \<mapsto> why)" and k = k] lits_add_clause [of w "Learnt ?i" ?s1 k]
      by (simp add: lits_def)
    show "search_frame s ?s3"
      by (simp add: search_frame_def but_search_def add_clause_def Clauses_alloc_def split_beta split: option.split)
    have "length ls \<noteq> 1 \<Longrightarrow> hd ls \<noteq> last ls" using ls by (cases ls) auto
    from learnt_watch_add [OF db1 w_def this] show "learnt_watch ls s ?s3"
      by (simp add: learnt_watch_def)
  qed simp_all
qed

section \<open>The result of an analysis\<close>

text \<open>
  Every learnt clause follows from older clauses, the ones recorded as its causes.
\<close>

definition learnt_ok :: "solver_state \<Rightarrow> bool" where
  "learnt_ok s \<longleftrightarrow> (\<forall>c i. c < length (ss_kinds s) \<longrightarrow> kind_of s c = Learnt i \<longrightarrow>
     i < length (ss_learnt_clauses s) \<and>
     (\<exists>cs. ss_learnt_why s i = Some cs \<and> (\<forall>c' \<in> set cs. c' < c) \<and> implied s (set cs) (set (ss_learnt_clauses s ! i))))"

definition solver_inv :: "solver_state \<Rightarrow> (literal \<Rightarrow> clause_id list) \<Rightarrow> nat \<Rightarrow> bool" where
  "solver_inv s L n \<longleftrightarrow> prop_inv s L n \<and> learnt_ok s \<and> rooted (ss_decision_tracker s) \<and>
     name_lists_ok (ss_decide_queue s) \<and> (\<exists>ks. ss_kinds s = InstallRoot # ks)"

lemma solver_invD [inv_dests]:
  assumes "solver_inv s L n"
  shows "prop_inv s L n" "learnt_ok s" "rooted (ss_decision_tracker s)" "name_lists_ok (ss_decide_queue s)"
    "\<exists>ks. ss_kinds s = InstallRoot # ks"
  using assms by (simp_all add: solver_inv_def)

text \<open>The clause the loop assembles.\<close>

definition learnt_clause :: "analysis \<Rightarrow> literal list" where
  "learnt_clause a =
     (if an_learnt a \<noteq> [] then vec_swap (an_learnt a) 0 (an_highest_level_idx a) else an_learnt a) @
     [Literal_new (an_conflicting_solvable a) (an_s_value a)]"

lemma vec_swap_set: "i < length xs \<Longrightarrow> j < length xs \<Longrightarrow> set (vec_swap xs i j) = set xs"
  by (simp add: vec_swap_def set_swap)

lemma learnt_clause_facts:
  assumes "analysis_result s lv a t"
  obtains d where "an_conflicting_solvable a = d_variable d" "an_s_value a = d_value d"
    "last (learnt_clause a) = false_lit d" "learnt_clause a \<noteq> []"
    "assigned_value t (d_variable d) = None" "d \<in> set (dt_stack (ss_decision_tracker s))"
    "set (learnt_clause a) = insert (false_lit d) (false_lit ` marked t (an_seen a))"
    "\<And>e. e \<in> marked t (an_seen a) \<Longrightarrow> tracker_level t (d_variable e) \<le> an_back_track_to a"
    "length (learnt_clause a) > 1 \<Longrightarrow> hd (learnt_clause a) \<noteq> last (learnt_clause a)"
    "implied s (set (an_learnt_why a)) (set (learnt_clause a))"
    "\<forall>c \<in> set (an_learnt_why a). c < length (ss_kinds s)"
    "an_back_track_to a < lv"
proof -
  let ?S = "an_seen a"
  from assms obtain d where d: "trail_at s lv t" "analysis_inv t lv a"
     "an_conflicting_solvable a = d_variable d" "an_s_value a = d_value d"
     "d \<in> set (dt_stack (ss_decision_tracker s))"
     "assigned_value t (d_variable d) = None" "at_level t lv ?S = {}"
     "\<forall>c \<in> set (an_learnt_why a). c < length (ss_kinds s)"
     "implied s (set (an_learnt_why a)) (false_lit ` insert d (marked t ?S))"
    unfolding analysis_result_def by blast
  have un: "undone (ss_decision_tracker s) t" and la: "level_above t lv" using d(1) by (simp_all add: trail_at_def)
  have m: "marked t ?S = below t lv ?S" using marked_split [OF la] d(7) by simp
  let ?init = "if an_learnt a \<noteq> [] then vec_swap (an_learnt a) 0 (an_highest_level_idx a) else an_learnt a"
  have set: "set ?init = set (an_learnt a)"
    using d(2) by (auto simp: analysis_inv_def vec_swap_set split: if_splits)
  have learnt: "set (an_learnt a) = false_lit ` marked t ?S" using d(2) m by (simp add: analysis_inv_def)
  have last: "last (learnt_clause a) = false_lit d" "learnt_clause a = ?init @ [false_lit d]"
    using d(3,4) by (simp_all add: learnt_clause_def false_lit_def)
  have notin: "false_lit d \<notin> false_lit ` marked t ?S"
    using d(6) assigned_value_None_iff [OF undoneD(1) [OF un], of "d_variable d"]
    by (auto simp: not_in_image_iff marked_def false_lit_iff)
  have levs: "tracker_level t (d_variable e) \<le> an_back_track_to a" if "e \<in> marked t ?S" for e
  proof -
    have "false_lit e \<in> set (an_learnt a)" using that learnt by simp
    with d(2) have "tracker_level t (variable (false_lit e)) \<le> an_back_track_to a"
      unfolding analysis_inv_def by blast
    then show ?thesis by simp
  qed
  have hd_last: "hd (learnt_clause a) \<noteq> last (learnt_clause a)" if "length (learnt_clause a) > 1"
  proof -
    have "?init \<noteq> []" using that last(2) by auto
    then have "hd (learnt_clause a) = hd ?init" unfolding last(2) by (rule hd_append2)
    moreover have "hd ?init \<in> set ?init" using \<open>?init \<noteq> []\<close> by (rule hd_in_set)
    ultimately have "hd (learnt_clause a) \<in> false_lit ` marked t ?S" unfolding set learnt by (simp only:)
    with notin show ?thesis unfolding last(1) by (metis (no_types))
  qed
  have all: "set (learnt_clause a) = insert (false_lit d) (false_lit ` marked t ?S)"
    using last(2) set learnt by simp
  have bt: "an_back_track_to a < lv" using d(2) by (simp add: analysis_inv_def)
  have ne: "learnt_clause a \<noteq> []" by (simp add: learnt_clause_def)
  have "implied s (set (an_learnt_why a)) (set (learnt_clause a))" using d(9) unfolding all by simp
  from that [OF d(3,4) last(1) ne d(6,5) all levs hd_last this d(8) bt] show thesis .
qed

text \<open>
  The state after the clause is stored and the trail is cut back: the clause is there, its
  last literal is the only one that is not false.
\<close>

definition unit_at :: "solver_state \<Rightarrow> clause_id \<Rightarrow> literal \<Rightarrow> bool" where
  "unit_at s c l \<longleftrightarrow> c < length (ss_kinds s) \<and> (\<exists>ls. lits s (kind_of s c) = Some ls \<and> l \<in> set ls \<and>
     lit_value (ss_decision_tracker s) l = None \<and>
     (\<forall>k \<in> set ls. k \<noteq> l \<longrightarrow> lit_value (ss_decision_tracker s) k = Some False))"

lemma prop_inv_learn:
  assumes inv: "prop_inv s L n" and db: "db_inv s' L'"
    and kinds: "ss_kinds s' = ss_kinds s @ [Learnt i]" and i: "i = length (ss_learnt_clauses s)"
    and lc: "ss_learnt_clauses s' = ss_learnt_clauses s @ [ls]"
    and lits: "\<And>k. lits s' k = (if k = Learnt i then Some ls else lits s k)"
    and ids: "ss_learnt_clause_ids s' = ss_learnt_clause_ids s @ [length (ss_kinds s)]"
    and na: "ss_negative_assertions s' = ss_negative_assertions s"
    and t: "undone (ss_decision_tracker s) (ss_decision_tracker s')"
    and ls: "ls \<noteq> []" "\<forall>l \<in> set ls. variable l < n"
  shows "prop_inv s' L' n" "grows s s'"
proof -
  note p = prop_invD [OF inv]
  have fresh: "lits s (kind_of s c) = Some xs \<Longrightarrow> kind_of s c \<noteq> Learnt i" for c xs
    using i by (auto simp: lits_def slice_get_def split: if_splits)
  show g: "grows s s'" using fresh by (auto simp: grows_def kinds lits)
  let ?s = "s'\<lparr>ss_decision_tracker := ss_decision_tracker s\<rparr>"
  have ge: "grows s ?s" using g by (simp add: grows_def lits_def)
  have "trail_ok ?s" by (rule trail_ok_grows [OF p(3) ge]) simp
  then have "trail_ok s'" by (rule trail_ok_undone) (use t in \<open>simp_all add: same_clauses_def lits_def\<close>)
  moreover have "bounded s' n"
    using p(4) ls(2) undoneD(2) [OF t] fresh
    by (auto simp: bounded_def kinds lits in_set_conv_nth split: if_splits)
  moreover have "assertions_ok s'"
  proof -
    have "c < length (ss_kinds s') \<and> lits s' (kind_of s' c) = Some [negative v]"
      if "(v, c) \<in> set (ss_negative_assertions s')" for v c
      using that p(5) growsD [OF g] by (auto simp: assertions_ok_def na)
    moreover have "c < length (ss_kinds s') \<and> (\<exists>j < length (ss_learnt_clauses s'). kind_of s' c = Learnt j \<and>
        ss_learnt_clauses s' ! j \<noteq> [])" if "c \<in> set (ss_learnt_clause_ids s')" for c
    proof (cases "c = length (ss_kinds s)")
      case True
      then show ?thesis using ls(1) i by (simp add: kinds lc)
    next
      case False
      with that p(5) show ?thesis by (fastforce simp: assertions_ok_def ids kinds lc nth_append)
    qed
    ultimately show ?thesis by (auto simp: assertions_ok_def)
  qed
  ultimately show "prop_inv s' L' n" using db undoneD(1) [OF t] by (simp add: prop_inv_def)
qed

lemma learnt_ok_learn:
  assumes ok: "learnt_ok s" and g: "grows s s'"
    and kinds: "ss_kinds s' = ss_kinds s @ [Learnt i]" and i: "i = length (ss_learnt_clauses s)"
    and lc: "ss_learnt_clauses s' = ss_learnt_clauses s @ [ls]"
    and why: "ss_learnt_why s' = (ss_learnt_why s)(i \<mapsto> cs)"
    and cs: "\<forall>c \<in> set cs. c < length (ss_kinds s)" "implied s (set cs) (set ls)"
  shows "learnt_ok s'"
  unfolding learnt_ok_def
proof (intro allI impI)
  fix c j
  assume c: "c < length (ss_kinds s')" "kind_of s' c = Learnt j"
  show "j < length (ss_learnt_clauses s') \<and> (\<exists>cs. ss_learnt_why s' j = Some cs \<and> (\<forall>c' \<in> set cs. c' < c) \<and>
      implied s' (set cs) (set (ss_learnt_clauses s' ! j)))"
  proof (cases "c = length (ss_kinds s)")
    case True
    with c have "j = i" by (simp add: kinds)
    with True cs implied_grows [OF cs(2) g] show ?thesis by (simp add: lc why i)
  next
    case False
    with c have old: "c < length (ss_kinds s)" "kind_of s c = Learnt j" by (auto simp: kinds nth_append)
    then obtain ds where ds: "j < length (ss_learnt_clauses s)" "ss_learnt_why s j = Some ds"
      "\<forall>c' \<in> set ds. c' < c" "implied s (set ds) (set (ss_learnt_clauses s ! j))"
      using ok unfolding learnt_ok_def by blast
    moreover have "implied s' (set ds) (set (ss_learnt_clauses s ! j))"
      using implied_grows [OF ds(4) g] ds(3) old(1) by fastforce
    ultimately show ?thesis by (simp add: lc why i nth_append)
  qed
qed

lemma solver_inv_cong:
  assumes "solver_inv s L n" "activity_frame s s'"
  shows "solver_inv s' L n"
proof -
  note f = activity_frame_fields [OF assms(2)] and same = activity_frame_lits [OF assms(2)]
  have "grows s s'" by (simp add: grows_def same f)
  with trail_ok_grows prop_invD(3) [OF solver_invD(1) [OF assms(1)]] f(3) have "trail_ok s'" by blast
  moreover have "learnt_ok s'" using solver_invD(2) [OF assms(1)]
    by (simp add: learnt_ok_def implied_def clause_holds_def same f)
  moreover have "bounded s' n" "assertions_ok s'" "db_inv s' L"
    using prop_invD [OF solver_invD(1) [OF assms(1)]]
    by (simp_all add: bounded_def assertions_ok_def db_inv_def same f)
  ultimately show ?thesis
    using assms(1) activity_frame_queue [OF assms(2)] prop_invD(2) [OF solver_invD(1) [OF assms(1)]]
    by (simp add: solver_inv_def prop_inv_def f)
qed

lemma activity_frame_decay: "activity_frame s (decay_activity_scores fl decay s)"
  by (simp add: decay_activity_scores_def activity_frame_def but_activity_def)

text \<open>The conflicts \<open>analyze\<close> is called with: above the first level, with a literal of that level.\<close>

definition analyzable :: "solver_state \<Rightarrow> level \<Rightarrow> clause_id \<Rightarrow> bool" where
  "analyzable s lv c \<longleftrightarrow> falsified s c \<and> lv > 1 \<and> level_above (ss_decision_tracker s) lv \<and>
     (\<exists>ls. lits s (kind_of s c) = Some ls \<and> (\<exists>l \<in> set ls. tracker_level (ss_decision_tracker s) (variable l) = lv))"

lemma analyze_loop_start:
  assumes inv: "solver_inv s L n" and an: "analyzable s lv c"
  obtains a t where "analyze_loop s (ss_decision_tracker s) (analysis_start lv v c) = Some (a, t)"
    "analysis_result s lv a t"
proof -
  let ?t = "ss_decision_tracker s" and ?a = "analysis_start lv v c"
  note p = prop_invD [OF solver_invD(1) [OF inv]]
  from an obtain ls l where ls: "c < length (ss_kinds s)" "lits s (kind_of s c) = Some ls"
    "\<forall>l \<in> set ls. lit_value ?t l = Some False" "l \<in> set ls" "tracker_level ?t (variable l) = lv" "lv > 1"
    "level_above ?t lv"
    by (auto simp: analyzable_def falsified_def)
  from ls(3,4) lit_value_False_trail [OF p(2)] obtain e where e: "e \<in> set (dt_stack ?t)" "false_lit e = l" by blast
  have "trail_at s lv ?t"
    using ls(6,7) undone_refl [OF p(2)] solver_invD(3) [OF inv]
    by (auto simp: trail_at_def rooted_def keeps_below_def intro!: bexI [of _ "hd (dt_stack ?t)"])
  moreover have "analysis_inv ?t lv ?a"
    using ls(6) by (simp add: analysis_inv_def analysis_start_def at_level_def below_def marked_def)
  moreover have "an_seen ?a = {}" "an_learnt_why ?a = []" "an_current_level ?a = lv" "\<not> skipped ?a k" for k
    by (simp_all add: analysis_start_def skipped_def)
  moreover have "at_level ?t lv (variable ` set ls) \<noteq> {}"
    using e ls(4,5) by (force simp: at_level_def marked_def)
  ultimately show thesis
    using analyze_loop_spec [OF p(3) ls(6), of ?t ?a ls] resolvable_conflict [OF p(2) ls(1-3), of lv v] that by auto
qed

lemma analyze_eq:
  assumes "analyze_loop s (ss_decision_tracker s) (analysis_start lv v c) = Some (a, t)"
    "fold_opt (bump_activity (sp_provider sp) (sp_f32 sp) (sp_activity_add sp)) (s\<lparr>ss_decision_tracker := t\<rparr>)
       (learnt_clause a) = Some s1"
    "store_learnt (learnt_clause a) (an_learnt_why a) s1 = Some (c', s2)"
    "undo_until (max (an_back_track_to a) 1) (ss_decision_tracker s2) = Some t'"
  shows "analyze sp lv v c s = Some ((max (an_back_track_to a) 1, c', last (learnt_clause a)),
    decay_activity_scores (sp_f32 sp) (sp_activity_decay sp) (s2\<lparr>ss_decision_tracker := t'\<rparr>))"
  using assms unfolding analyze_def Let_def learnt_clause_def by simp

definition analyze_result ::
  "solver_state \<Rightarrow> level \<Rightarrow> nat \<Rightarrow> level \<Rightarrow> literal \<Rightarrow> solver_state \<Rightarrow> bool" where
  "analyze_result s lv n lv' l s' \<longleftrightarrow> (\<exists>L'. solver_inv s' L' n) \<and> 1 \<le> lv' \<and> lv' < lv \<and>
     level_above (ss_decision_tracker s') lv' \<and> grows s s' \<and> unit_at s' (length (ss_kinds s)) l \<and>
     (\<exists>ls. lits s' (kind_of s' (length (ss_kinds s))) = Some ls \<and> implied s {..<length (ss_kinds s)} (set ls)) \<and>
     ss_variable_map s' = ss_variable_map s \<and> undone (ss_decision_tracker s) (ss_decision_tracker s') \<and>
     asserted s' \<subseteq> insert l (asserted s) \<and> (\<forall>M. models M s \<longrightarrow> models M s') \<and>
     dt_propagate_index (ss_decision_tracker s') = length (dt_stack (ss_decision_tracker s')) \<and>
     keeps_below (ss_decision_tracker s) (ss_decision_tracker s') lv' \<and> search_frame s s' \<and>
     asserted s \<subseteq> asserted s' \<and>
     (\<exists>ls. lits s' (kind_of s' (length (ss_kinds s))) = Some ls \<and> last ls = l \<and> learnt_watch ls s s' \<and>
       (length ls = 1 \<longrightarrow> ls = [l] \<and> l \<in> asserted s')) \<and> length (ss_kinds s') = length (ss_kinds s) + 1"

text \<open>What a new learnt clause asserts, and that it excludes no model.\<close>

lemma asserted_learn:
  assumes "prop_inv s L n" "ss_kinds s' = ss_kinds s @ [Learnt (length (ss_learnt_clauses s))]"
    "\<And>k. lits s' k = (if k = Learnt (length (ss_learnt_clauses s)) then Some ls else lits s k)"
    "ss_learnt_clause_ids s' = ss_learnt_clause_ids s @ [length (ss_kinds s)]"
    "ss_negative_assertions s' = ss_negative_assertions s" "ls \<noteq> []"
  shows "asserted s' \<subseteq> insert (last ls) (asserted s)"
proof
  fix l
  assume "l \<in> asserted s'"
  then consider "l \<in> (negative \<circ> fst) ` set (ss_negative_assertions s)" |
    c where "c \<in> set (ss_learnt_clause_ids s)" "lits s' (kind_of s' c) = Some [l]" |
    "lits s' (kind_of s' (length (ss_kinds s))) = Some [l]"
    by (auto simp: asserted_def learnt_units_def assms(4,5))
  then show "l \<in> insert (last ls) (asserted s)"
  proof cases
    case 1
    then show ?thesis by (simp add: asserted_def)
  next
    case (2 c)
    then obtain j where "c < length (ss_kinds s)" "j < length (ss_learnt_clauses s)" "kind_of s c = Learnt j"
      using prop_invD(5) [OF assms(1)] by (auto simp: assertions_ok_def)
    with 2 show ?thesis
      by (auto simp: asserted_def learnt_units_def assms(2,3) nth_append)
  next
    case 3
    then show ?thesis by (simp add: assms(2,3))
  qed
qed

lemma asserted_learn_mono:
  assumes "grows s s'" "ss_learnt_clause_ids s' = ss_learnt_clause_ids s @ [length (ss_kinds s)]"
    "ss_negative_assertions s' = ss_negative_assertions s"
  shows "asserted s \<subseteq> asserted s'"
  using growsD [OF assms(1)] by (fastforce simp: asserted_def learnt_units_def assms(2,3))

lemma models_learn:
  assumes "learnt_ok s" "ss_kinds s' = ss_kinds s @ [Learnt (length (ss_learnt_clauses s))]"
    "\<And>k. lits s' k = (if k = Learnt (length (ss_learnt_clauses s)) then Some ls else lits s k)"
    "implied s {..<length (ss_kinds s)} (set ls)" "models M s"
  shows "models M s'"
proof -
  have "clause_true M ls"
    using assms(4,5) by (auto simp: implied_def models_def clause_true_def)
  moreover have "kind_of s c \<noteq> Learnt (length (ss_learnt_clauses s))" if "c < length (ss_kinds s)" for c
    using assms(1) that unfolding learnt_ok_def by blast
  ultimately show ?thesis
    using assms(5) by (auto simp: models_def clause_holds_def assms(2,3) nth_append)
qed

lemma implied_mono: "implied s cs R \<Longrightarrow> cs \<subseteq> cs' \<Longrightarrow> implied s cs' R"
  unfolding implied_def by blast

text \<open>Bumping the activities and storing the clause, relative to the state before.\<close>

lemma analyze_store:
  assumes inv: "solver_inv s L n" and ls: "ls \<noteq> []" "length ls > 1 \<Longrightarrow> hd ls \<noteq> last ls"
  obtains s1 s2 L2 where
    "fold_opt (bump_activity pv fl add) (s\<lparr>ss_decision_tracker := t\<rparr>) ls = Some s1"
    "store_learnt ls why s1 = Some (length (ss_kinds s), s2)" "db_inv s2 L2"
    "ss_kinds s2 = ss_kinds s @ [Learnt (length (ss_learnt_clauses s))]"
    "ss_learnt_clauses s2 = ss_learnt_clauses s @ [ls]"
    "ss_learnt_why s2 = (ss_learnt_why s)(length (ss_learnt_clauses s) \<mapsto> why)"
    "ss_learnt_clause_ids s2 = ss_learnt_clause_ids s @ [length (ss_kinds s)]"
    "ss_decision_tracker s2 = t" "ss_negative_assertions s2 = ss_negative_assertions s"
    "name_lists_ok (ss_decide_queue s2)" "ss_variable_map s2 = ss_variable_map s"
    "\<And>k. lits s2 k = (if k = Learnt (length (ss_learnt_clauses s)) then Some ls else lits s k)"
    "search_frame s s2" "learnt_watch ls s s2"
proof -
  note p = prop_invD [OF solver_invD(1) [OF inv]] and q = solver_invD [OF inv]
  let ?s0 = "s\<lparr>ss_decision_tracker := t\<rparr>"
  obtain s1 where s1: "fold_opt (bump_activity pv fl add) ?s0 ls = Some s1" "activity_frame ?s0 s1"
    using bump_activities_total [of ?s0 pv fl add ls] q(4) by auto
  note f = activity_frame_fields [OF s1(2)]
  have ok1: "name_lists_ok (ss_decide_queue s1)" using activity_frame_queue [OF s1(2)] q(4) by simp
  have same1: "lits s1 k = lits s k" for k using activity_frame_lits [OF s1(2)] by (simp add: lits_def)
  have rest: "db_inv s1 L" using p(1) by (simp add: db_inv_def f)
  have "search_frame s ?s0" by (simp add: search_frame_def but_search_def)
  with f(12) have frame1: "search_frame s s1" by (rule search_frame_trans [rotated])
  obtain s2 L2 where s2: "store_learnt ls why s1 = Some (length (ss_kinds s1), s2)"
    "db_inv s2 L2" "ss_kinds s2 = ss_kinds s1 @ [Learnt (length (ss_learnt_clauses s1))]"
    "ss_learnt_clauses s2 = ss_learnt_clauses s1 @ [ls]"
    "ss_learnt_why s2 = (ss_learnt_why s1)(length (ss_learnt_clauses s1) \<mapsto> why)"
    "ss_learnt_clause_ids s2 = ss_learnt_clause_ids s1 @ [length (ss_kinds s1)]"
    "ss_decision_tracker s2 = ss_decision_tracker s1"
    "ss_negative_assertions s2 = ss_negative_assertions s1" "ss_decide_queue s2 = ss_decide_queue s1"
    "ss_variable_map s2 = ss_variable_map s1"
    "\<And>k. lits s2 k = (if k = Learnt (length (ss_learnt_clauses s1)) then Some ls else lits s1 k)"
    "search_frame s1 s2" "learnt_watch ls s1 s2"
    by (rule store_learnt_effect [OF rest ls]) (assumption, rule that)
  show thesis
    by (rule that [OF s1(1), of s2 L2])
      (use s2 f same1 ok1 search_frame_trans [OF frame1 s2(12)] in \<open>simp_all add: learnt_watch_def\<close>)
qed

lemma analyze_spec:
  assumes inv: "solver_inv s L n" and an: "analyzable s lv c"
  obtains lv' l s' where "analyze sp lv v c s = Some ((lv', length (ss_kinds s), l), s')"
    "analyze_result s lv n lv' l s'"
proof -
  let ?t = "ss_decision_tracker s" and ?i = "length (ss_learnt_clauses s)"
  note p = prop_invD [OF solver_invD(1) [OF inv]] and q = solver_invD [OF inv]
  obtain a t where loop: "analyze_loop s ?t (analysis_start lv v c) = Some (a, t)" and res: "analysis_result s lv a t"
    by (rule analyze_loop_start [OF inv an])
  obtain d where d: "an_conflicting_solvable a = d_variable d" "an_s_value a = d_value d"
    "last (learnt_clause a) = false_lit d" "learnt_clause a \<noteq> []"
    "assigned_value t (d_variable d) = None" "d \<in> set (dt_stack ?t)"
    "set (learnt_clause a) = insert (false_lit d) (false_lit ` marked t (an_seen a))"
    "\<And>e. e \<in> marked t (an_seen a) \<Longrightarrow> tracker_level t (d_variable e) \<le> an_back_track_to a"
    "length (learnt_clause a) > 1 \<Longrightarrow> hd (learnt_clause a) \<noteq> last (learnt_clause a)"
    "implied s (set (an_learnt_why a)) (set (learnt_clause a))"
    "\<forall>c \<in> set (an_learnt_why a). c < length (ss_kinds s)" "an_back_track_to a < lv"
    by (rule learnt_clause_facts [OF res]) (rule that)
  have at: "trail_at s lv t" and idx: "dt_propagate_index t = length (dt_stack t)"
    using res by (auto simp: analysis_result_def)
  have un: "undone ?t t" and ne: "dt_stack t \<noteq> []" using at by (auto simp: trail_at_def)
  obtain s1 s2 L2 where s2: "fold_opt (bump_activity (sp_provider sp) (sp_f32 sp) (sp_activity_add sp))
       (s\<lparr>ss_decision_tracker := t\<rparr>) (learnt_clause a) = Some s1"
    "store_learnt (learnt_clause a) (an_learnt_why a) s1 = Some (length (ss_kinds s), s2)" "db_inv s2 L2"
    "ss_kinds s2 = ss_kinds s @ [Learnt ?i]" "ss_learnt_clauses s2 = ss_learnt_clauses s @ [learnt_clause a]"
    "ss_learnt_why s2 = (ss_learnt_why s)(?i \<mapsto> an_learnt_why a)"
    "ss_learnt_clause_ids s2 = ss_learnt_clause_ids s @ [length (ss_kinds s)]"
    "ss_decision_tracker s2 = t" "ss_negative_assertions s2 = ss_negative_assertions s"
    "name_lists_ok (ss_decide_queue s2)" "ss_variable_map s2 = ss_variable_map s"
    "\<And>k. lits s2 k = (if k = Learnt ?i then Some (learnt_clause a) else lits s k)" "search_frame s s2"
    "learnt_watch (learnt_clause a) s s2"
    by (rule analyze_store [OF inv d(4,9)]) (assumption, rule that)
  let ?l = "max (an_back_track_to a) 1"
  obtain t' where t': "undo_until ?l t = Some t'" "undone t t'" "level_above t' ?l" "rooted t'"
    "\<And>v. assigned_value t' v = (if tracker_level t v \<le> ?l then assigned_value t v else None)"
    "\<And>e. e \<in> set (dt_stack t) \<Longrightarrow> tracker_level t (d_variable e) \<le> ?l \<Longrightarrow> e \<in> set (dt_stack t')"
    "dt_propagate_index t' = (if dt_stack t' = dt_stack t then dt_propagate_index t else length (dt_stack t'))"
    by (rule undo_until_rooted [OF undoneD(1) [OF un] rooted_undone [OF q(3) un ne], of ?l]) (simp, rule that)
  let ?s3 = "s2\<lparr>ss_decision_tracker := t'\<rparr>"
  define s' where "s' = decay_activity_scores (sp_f32 sp) (sp_activity_decay sp) ?s3"
  have run: "analyze sp lv v c s = Some ((?l, length (ss_kinds s), false_lit d), s')"
    using analyze_eq [OF loop s2(1,2)] t'(1) s2(8) d(3) by (simp add: s'_def)
  have vars: "\<forall>l \<in> set (learnt_clause a). variable l < n"
    using p(4) d(6,7) undoneD(2) [OF un] by (auto simp: bounded_def marked_def)
  have lits3: "lits ?s3 k = (if k = Learnt ?i then Some (learnt_clause a) else lits s k)" for k
    using s2(12) [of k] by (simp add: lits_def)
  have db3: "db_inv ?s3 L2" using s2(3) by (simp add: db_inv_def)
  have inv3: "prop_inv ?s3 L2 n" and g3: "grows s ?s3"
    using prop_inv_learn [OF q(1) db3 _ refl _ lits3] s2 undone_trans [OF un t'(2)] d(4) vars by simp_all
  have "learnt_ok ?s3"
    by (rule learnt_ok_learn [OF q(2) g3 _ refl _ _ d(11,10)]) (simp_all add: s2)
  then have "solver_inv ?s3 L2 n" using inv3 t'(4) s2(4,10) q(5) by (auto simp: solver_inv_def)
  then have sinv: "solver_inv s' L2 n" unfolding s'_def by (rule solver_inv_cong) (rule activity_frame_decay)
  note af = activity_frame_decay [of ?s3 "sp_f32 sp" "sp_activity_decay sp", folded s'_def]
  note fd = activity_frame_fields(1) [OF af] activity_frame_lits [OF af] activity_frame_fields(2,3,4) [OF af]
  have "search_frame s2 ?s3" by (simp add: search_frame_def but_search_def)
  then have frame: "search_frame s s'"
    using search_frame_trans [OF s2(13)] search_frame_trans activity_frame_fields(12) [OF af] by blast
  have "keeps_below ?t t (lv - 1)" using at by (simp add: trail_at_def)
  then have keep: "keeps_below ?t t' ?l"
    using t'(6) d(12) an undoneD(3) [OF un] by (fastforce simp: keeps_below_def analyzable_def)
  have lits': "lits s' (kind_of s' (length (ss_kinds s))) = Some (learnt_clause a)"
    using lits3 [of "Learnt ?i"] fd(1,2) s2(4) by simp
  have vals: "lit_value t' k = Some False" if "k \<in> set (learnt_clause a)" "k \<noteq> false_lit d" for k
  proof -
    from that d(7) obtain e where e: "e \<in> marked t (an_seen a)" "k = false_lit e" by auto
    then have "e \<in> set (dt_stack t')" using t'(6) [of e] d(8) [of e] by (auto simp: marked_def)
    with e(2) lit_value_False_trail [OF undoneD(1) [OF t'(2)]] show ?thesis by blast
  qed
  have "lit_value t' (false_lit d) = None" using t'(5) d(5) by (simp add: lit_value_assigned)
  with vals lits' d(7) fd(1,4) s2(4) have unit: "unit_at s' (length (ss_kinds s)) (false_lit d)"
    by (simp add: unit_at_def)
  have "grows s s'" using g3 fd(1,2) by (simp add: grows_def)
  moreover have imp: "implied s {..<length (ss_kinds s)} (set (learnt_clause a))"
    by (rule implied_mono [OF d(10)]) (use d(11) in auto)
  moreover have "asserted s' \<subseteq> insert (false_lit d) (asserted s)"
    using asserted_learn [OF q(1) _ _ _ _ d(4), of s'] s2(4,7,9) fd(1,2) lits3 d(3)
    by (simp add: s'_def decay_activity_scores_def)
  moreover have "\<forall>M. models M s \<longrightarrow> models M s'"
    using models_learn [OF q(2) _ _ imp, of s'] s2(4) fd(1,2) lits3 by simp
  moreover have "1 \<le> ?l" "?l < lv" using d(12) an by (auto simp: analyzable_def)
  moreover have "dt_propagate_index t' = length (dt_stack t')" using t'(7) idx by simp
  moreover have ids: "ss_learnt_clause_ids s' = ss_learnt_clause_ids s @ [length (ss_kinds s)]"
    "ss_negative_assertions s' = ss_negative_assertions s"
    using s2(7,9) by (simp_all add: s'_def decay_activity_scores_def)
  moreover have "learnt_watch (learnt_clause a) s s'"
    using s2(14) activity_frame_fields(8) [OF af] by (simp add: learnt_watch_def)
  moreover have "learnt_clause a = [false_lit d] \<and> false_lit d \<in> asserted s'" if "length (learnt_clause a) = 1"
  proof -
    have eq: "learnt_clause a = [false_lit d]" using that d(3) by (cases "learnt_clause a") auto
    then have "false_lit d \<in> learnt_units s' (ss_learnt_clause_ids s')"
      using lits' s2(4) fd(1) ids(1) by (auto simp: learnt_units_def)
    with eq show ?thesis by (simp add: asserted_def)
  qed
  ultimately have "analyze_result s lv n ?l (false_lit d) s'"
    unfolding analyze_result_def
    using sinv unit lits' fd(1,4,5) s2(4,11) t'(3) undone_trans [OF un t'(2)] keep frame d(3)
      asserted_learn_mono [of s s'] by auto
  with run show thesis by (rule that)
qed

section \<open>Properties\<close>

text \<open>Property C5. Conflict analysis learns a correct, asserting clause. For a clause that is
  false under the current decisions and has a literal of the current level, which is not the
  first one, \<open>analyze\<close> returns without a panic; it adds one clause, which follows from the
  clauses known before; it returns a lower level, at least the first, to which the trail is cut
  back; there the returned literal is undecided and all other literals of the learnt clause
  are false; and the invariant of the solver holds again.\<close>

theorem analyze_learns_asserting_clause:
  assumes "solver_inv s L n" "analyzable s lv c"
  shows "\<exists>lv' l s' L' ls. analyze sp lv v c s = Some ((lv', length (ss_kinds s), l), s') \<and> solver_inv s' L' n \<and>
    1 \<le> lv' \<and> lv' < lv \<and> level_above (ss_decision_tracker s') lv' \<and>
    lits s' (kind_of s' (length (ss_kinds s))) = Some ls \<and> (\<forall>M. models M s \<longrightarrow> clause_true M ls) \<and>
    l \<in> set ls \<and> lit_value (ss_decision_tracker s') l = None \<and>
    (\<forall>k \<in> set ls. k \<noteq> l \<longrightarrow> lit_value (ss_decision_tracker s') k = Some False)"
proof -
  obtain lv' l s' where run: "analyze sp lv v c s = Some ((lv', length (ss_kinds s), l), s')"
    and res: "analyze_result s lv n lv' l s'" by (rule analyze_spec [OF assms])
  from res obtain L' ls where r: "solver_inv s' L' n" "1 \<le> lv'" "lv' < lv" "level_above (ss_decision_tracker s') lv'"
    "unit_at s' (length (ss_kinds s)) l" "lits s' (kind_of s' (length (ss_kinds s))) = Some ls"
    "implied s {..<length (ss_kinds s)} (set ls)" by (auto simp: analyze_result_def)
  have "clause_true M ls" if "models M s" for M
    using that r(7) by (auto simp: implied_def models_def clause_true_def)
  with run r show ?thesis by (auto simp: unit_at_def)
qed

lemma example_conflict_solver_inv: "\<exists>L. solver_inv example_conflict L 3"
proof -
  obtain L where L: "prop_inv example_conflict L 3" using example_conflict_inv(1) by blast
  have "ss_kinds example_conflict = ss_kinds example_state"
    "dt_stack (ss_decision_tracker example_conflict) = dt_stack (ss_decision_tracker example_state) @ [Decision_new 2 True 0]"
    "ss_decide_queue example_conflict = DecideQueue_default"
    by (simp_all add: example_conflict_def example_state_def example_db_def Let_def SolverState_default_def)
  then have k: "ss_kinds example_conflict = [InstallRoot, ForbidMultipleInstances 1 (negative 2) 0]"
    "dt_stack (ss_decision_tracker example_conflict) =
      [Decision_new 0 True 0, Decision_new 1 True 0, Decision_new 2 True 0]"
    "ss_decide_queue example_conflict = DecideQueue_default"
    by (simp_all add: example_clauses)
  moreover have "tracker_level (ss_decision_tracker example_conflict) 0 = 1"
    using example_tracker_ok(3,4) example_conflict_inv(2) by (simp add: example_conflict_def example_state_def)
  ultimately show ?thesis
    using L by (auto simp: solver_inv_def learnt_ok_def rooted_def name_lists_ok_def DecideQueue_default_def
        nth_Cons split: nat.splits)
qed

definition example_params :: solver_params where
  "example_params = \<lparr>sp_provider = \<lparr>pv_solvable_name = (\<lambda>_. 0), pv_version_set_name = (\<lambda>_. 0),
       pv_version_sets_in_union = (\<lambda>_. []), pv_resolve_condition = (\<lambda>_. Condition_Requirement 0)\<rparr>,
     sp_f32 = \<lparr>f32_zero = 0, f32_add = (+), f32_mul = (\<lambda>a _. a), f32_gt = (\<lambda>a b. b < a), f32_ge = (\<lambda>a b. b \<le> a),
       f32_eq = (=)\<rparr>,
     sp_activity_add = 1, sp_activity_decay = 1\<rparr>"

lemma example_conflict_analyzable: "analyzable example_conflict 3 1"
proof -
  have lv: "tracker_level (ss_decision_tracker example_conflict) 2 = 3"
    "assigned_value (ss_decision_tracker example_conflict) 1 = Some True"
    "assigned_value (ss_decision_tracker example_conflict) 2 = Some True"
    using example_tracker_ok(3,4) example_conflict_inv(2) by (simp_all add: example_conflict_def example_state_def)
  have k: "ss_kinds example_conflict = [InstallRoot, ForbidMultipleInstances 1 (negative 2) 0]"
    by (simp add: example_conflict_def example_clauses)
  have "negate (negative v) = True" "variable (negative v) = v" for v by (simp_all add: negative_def)
  with k lv example_conflict_inv(3) show ?thesis
    by (auto simp: analyzable_def falsified_def lits_def lit_value_assigned)
qed

theorem analyze_learns_asserting_clause_witness:
  "\<exists>lv' l s' ls. analyze example_params 3 2 1 example_conflict = Some ((lv', 2, l), s') \<and> lv' < 3 \<and>
    lits s' (kind_of s' 2) = Some ls \<and> l \<in> set ls \<and> lit_value (ss_decision_tracker s') l = None"
proof -
  obtain L where "solver_inv example_conflict L 3" using example_conflict_solver_inv by blast
  from analyze_learns_asserting_clause [OF this example_conflict_analyzable, of example_params 2]
  show ?thesis by (auto simp: example_conflict_def example_clauses numeral_2_eq_2)
qed

end
