(* ===== verification/Unsolvable.thy ===== *)
theory Unsolvable
  imports Conflict_Analysis
begin

text \<open>
  Unsolvable problems: \<open>analyze_unsolvable\<close> and \<open>analyze_unsolvable_clause\<close> of
  \<open>src/solver/mod.rs\<close>, and \<open>Conflict::add_clause\<close> of \<open>src/conflict.rs\<close>. The theory shows that
  neither panics and that the reported clauses contradict the installation of the root.
\<close>

section \<open>Unsolvable problems\<close>

text \<open>\<open>Conflict::add_clause\<close> on the list of clauses of a conflict.\<close>

definition Conflict_add_clause :: "clause_id \<Rightarrow> clause_id list \<Rightarrow> clause_id list" where
  "Conflict_add_clause clause_id conflict = (if clause_id \<in> set conflict then conflict else conflict @ [clause_id])"

text \<open>
  The recursion of \<open>analyze_unsolvable_clause\<close> through the causes of learnt clauses, with the
  pending calls as an explicit list (\<open>analyze_unsolvable_clauses_append\<close> below is the nesting
  of the source). Every clause has a finite number of pending causes, and a learnt clause is
  expanded once.
\<close>

fun learnt_id_of :: "clause \<Rightarrow> learnt_clause_id option" where
  "learnt_id_of (Learnt learnt_clause_id) = Some learnt_clause_id"
| "learnt_id_of _ = None"

lemma card_unseen: "c < n \<Longrightarrow> c \<notin> S \<Longrightarrow> card ({..<n} - insert c S) < card ({..<n} - S)" for c n :: nat
  by (rule psubset_card_mono) auto

function analyze_unsolvable_clauses ::
  "clause list \<Rightarrow> (learnt_clause_id \<rightharpoonup> clause_id list) \<Rightarrow> clause_id list \<Rightarrow> clause_id list \<Rightarrow> clause_id set \<Rightarrow>
    (clause_id list \<times> clause_id set) option" where
  "analyze_unsolvable_clauses clauses learnt_why [] conflict seen = Some (conflict, seen)"
| "analyze_unsolvable_clauses clauses learnt_why (clause_id # rest) conflict seen =
     (case slice_get clauses clause_id of
        None \<Rightarrow> None
      | Some clause \<Rightarrow> (case learnt_id_of clause of
          Some learnt_clause_id \<Rightarrow>
            if clause_id \<in> seen then analyze_unsolvable_clauses clauses learnt_why rest conflict seen
            else (case learnt_why learnt_clause_id of
                None \<Rightarrow> None
              | Some causes \<Rightarrow>
                  analyze_unsolvable_clauses clauses learnt_why (causes @ rest) conflict (insert clause_id seen))
        | None \<Rightarrow> analyze_unsolvable_clauses clauses learnt_why rest (Conflict_add_clause clause_id conflict) seen))"
  by pat_completeness auto

termination
  by (relation "measures [\<lambda>(cs, lw, todo, cf, seen). card ({..<length cs} - seen),
      \<lambda>(cs, lw, todo, cf, seen). length todo]")
    (auto simp: card_unseen simp del: card_Diff_insert)

definition analyze_unsolvable_clause ::
  "clause list \<Rightarrow> (learnt_clause_id \<rightharpoonup> clause_id list) \<Rightarrow> clause_id \<Rightarrow> clause_id list \<times> clause_id set \<Rightarrow>
    (clause_id list \<times> clause_id set) option" where
  "analyze_unsolvable_clause clauses learnt_why clause_id =
     (\<lambda>(conflict, seen). analyze_unsolvable_clauses clauses learnt_why [clause_id] conflict seen)"

text \<open>One decision of the reverse walk; the assertions of the source are panics.\<close>

definition involve_literal ::
  "decision_tracker \<Rightarrow> variable_id \<Rightarrow> variable_id set option \<Rightarrow> literal \<Rightarrow> variable_id set option" where
  "involve_literal t v involved literal = Option.bind involved (\<lambda>involved.
     if eval literal (dt_map t) = Some True
     then (if variable literal = v then Some involved else None)
     else Some (insert (variable literal) involved))"

definition explain_decision ::
  "solver_state \<Rightarrow> variable_id set \<times> clause_id list \<times> clause_id set \<Rightarrow> decision \<Rightarrow>
    (variable_id set \<times> clause_id list \<times> clause_id set) option" where
  "explain_decision s = (\<lambda>(involved, conflict, seen) decision.
     if d_variable decision = 0 then Some (involved, conflict, seen)
     else if d_variable decision \<notin> involved then Some (involved, conflict, seen)
     else if d_derived_from decision = 0 then None
     else Option.bind (analyze_unsolvable_clause (ss_kinds s) (ss_learnt_why s) (d_derived_from decision)
         (conflict, seen)) (\<lambda>(conflict, seen).
       Option.bind (slice_get (ss_kinds s) (d_derived_from decision)) (\<lambda>clause.
       Option.bind (visit_literals (ss_learnt_clauses s) (ss_requirement_to_sorted_candidates s)
         (ss_disjunctions s) clause (Some involved)
         (involve_literal (ss_decision_tracker s) (d_variable decision))) (\<lambda>r.
       map_option (\<lambda>involved. (involved, conflict, seen)) r))))"

definition analyze_unsolvable :: "clause_id \<Rightarrow> solver_state \<Rightarrow> clause_id list option" where
  "analyze_unsolvable clause_id s =
     (if dt_stack (ss_decision_tracker s) = [] then None
      else do {
        clause \<leftarrow> slice_get (ss_kinds s) clause_id;
        involved \<leftarrow> visit_literals (ss_learnt_clauses s) (ss_requirement_to_sorted_candidates s)
          (ss_disjunctions s) clause {} (\<lambda>involved literal. insert (variable literal) involved);
        (conflict, seen) \<leftarrow> analyze_unsolvable_clause (ss_kinds s) (ss_learnt_why s) clause_id ([], {});
        (_, conflict, _) \<leftarrow> fold_opt (explain_decision s) (involved, conflict, seen)
          (rev (dt_stack (ss_decision_tracker s)));
        Some conflict
      })"

section \<open>Unsolvable problems: the reported clauses contradict each other\<close>

lemma analyze_unsolvable_clauses_append:
  "analyze_unsolvable_clauses clauses lw (xs @ ys) cf seen =
    Option.bind (analyze_unsolvable_clauses clauses lw xs cf seen)
      (\<lambda>(cf', seen'). analyze_unsolvable_clauses clauses lw ys cf' seen')"
  by (induction clauses lw xs cf seen rule: analyze_unsolvable_clauses.induct)
    (auto split: option.split)

text \<open>
  \<open>explained s cf S\<close>: every clause of \<open>S\<close> follows from the clauses of the conflict. The
  collection over the causes explains what it was asked for and keeps what was explained.
  While a learnt clause is being expanded it is marked as seen but not explained yet; its
  causes are older, so they never meet it.
\<close>

definition explained :: "solver_state \<Rightarrow> clause_id list \<Rightarrow> clause_id set \<Rightarrow> bool" where
  "explained s cf S \<longleftrightarrow> (\<forall>M. (\<forall>c \<in> set cf. clause_holds M s c) \<longrightarrow> (\<forall>c \<in> S. clause_holds M s c))"

lemma explained_mono: "explained s cf S \<Longrightarrow> set cf \<subseteq> set cf' \<Longrightarrow> S' \<subseteq> S \<Longrightarrow> explained s cf' S'"
  unfolding explained_def by blast

lemma explained_Un: "explained s cf (S \<union> T) \<longleftrightarrow> explained s cf S \<and> explained s cf T"
  unfolding explained_def by blast

lemma explained_literal:
  assumes "explained s cf {c}" "\<forall>c \<in> set cf. clause_holds M s c" "lits s (kind_of s c) = Some ls"
  obtains l where "l \<in> set ls" "lit_true M l"
  using assms unfolding explained_def clause_holds_def clause_true_def by blast

lemma explained_learnt:
  assumes "learnt_ok s" "c < length (ss_kinds s)" "kind_of s c = Learnt i" "ss_learnt_why s i = Some cs"
    "explained s cf (set cs)"
  shows "explained s cf {c}"
proof -
  from assms(1-4) have "i < length (ss_learnt_clauses s)" "implied s (set cs) (set (ss_learnt_clauses s ! i))"
    unfolding learnt_ok_def by fastforce+
  with assms(3,5) show ?thesis
    by (auto simp: explained_def implied_def clause_holds_def clause_true_def lits_def slice_get_def)
qed

definition collected :: "solver_state \<Rightarrow> nat \<Rightarrow> clause_id list \<Rightarrow> clause_id list \<Rightarrow> clause_id set \<Rightarrow>
    clause_id list \<times> clause_id set \<Rightarrow> bool" where
  "collected s n todo cf seen = (\<lambda>(cf', seen'). set cf \<subseteq> set cf' \<and> seen \<subseteq> seen' \<and> seen' \<subseteq> seen \<union> {..<n} \<and>
     explained s cf' (seen' \<inter> {..<n} \<union> set todo) \<and>
     (\<forall>c \<in> set cf'. c \<in> set cf \<or> c < length (ss_kinds s) \<and> learnt_id_of (kind_of s c) = None))"

lemma collected_Cons:
  assumes "collected s n rest cf1 seen1 r" "set cf \<subseteq> set cf1" "seen \<subseteq> seen1" "seen1 \<subseteq> seen \<union> {..<n}"
    "explained s cf1 {c}"
    "\<And>d. d \<in> set cf1 \<Longrightarrow> d \<in> set cf \<or> d < length (ss_kinds s) \<and> learnt_id_of (kind_of s d) = None"
  shows "collected s n (c # rest) cf seen r"
proof -
  obtain cf' seen' where r: "r = (cf', seen')" by fastforce
  have "explained s cf' {c}"
    by (rule explained_mono [OF assms(5)]) (use assms(1) r in \<open>auto simp: collected_def\<close>)
  moreover have "seen' \<inter> {..<n} \<union> set (c # rest) = (seen' \<inter> {..<n} \<union> set rest) \<union> {c}" by auto
  moreover have "explained s cf' (seen' \<inter> {..<n} \<union> set rest)" "set cf1 \<subseteq> set cf'" "seen1 \<subseteq> seen'"
    "seen' \<subseteq> seen1 \<union> {..<n}"
    "\<And>d. d \<in> set cf' \<Longrightarrow> d \<in> set cf1 \<or> d < length (ss_kinds s) \<and> learnt_id_of (kind_of s d) = None"
    using assms(1) r by (auto simp: collected_def)
  ultimately have "explained s cf' (seen' \<inter> {..<n} \<union> set (c # rest))" "set cf \<subseteq> set cf'" "seen \<subseteq> seen'"
    "seen' \<subseteq> seen \<union> {..<n}"
    "\<And>d. d \<in> set cf' \<Longrightarrow> d \<in> set cf \<or> d < length (ss_kinds s) \<and> learnt_id_of (kind_of s d) = None"
    using assms(2-4,6) by (simp only: explained_Un, blast+)
  then show ?thesis by (simp only: collected_def r prod.case) blast
qed

lemma analyze_unsolvable_clauses_spec:
  assumes ok: "learnt_ok s"
  shows "n \<le> length (ss_kinds s) \<Longrightarrow> set todo \<subseteq> {..<n} \<Longrightarrow> explained s cf (seen \<inter> {..<n}) \<Longrightarrow>
    \<exists>r. analyze_unsolvable_clauses (ss_kinds s) (ss_learnt_why s) todo cf seen = Some r \<and>
      collected s n todo cf seen r"
proof (induction n arbitrary: todo cf seen rule: less_induct)
  case (less n)
  from less.prems show ?case
  proof (induction todo arbitrary: cf seen)
    case Nil
    then show ?case by (simp add: collected_def)
  next
    case (Cons c rest)
    let ?run = "analyze_unsolvable_clauses (ss_kinds s) (ss_learnt_why s)"
    from Cons.prems have c: "c < n" "c < length (ss_kinds s)" "set rest \<subseteq> {..<n}" by auto
    note IH = Cons.IH [OF Cons.prems(1) c(3)]
    show ?case
    proof (cases "learnt_id_of (kind_of s c)")
      case None
      let ?cf = "Conflict_add_clause c cf"
      have cf: "set ?cf = insert c (set cf)" by (auto simp: Conflict_add_clause_def)
      have "explained s ?cf (seen \<inter> {..<n})"
        by (rule explained_mono [OF Cons.prems(3)]) (auto simp: cf)
      from IH [OF this] obtain r where r: "?run rest ?cf seen = Some r" "collected s n rest ?cf seen r" by blast
      have "explained s ?cf {c}" by (simp add: explained_def cf)
      from collected_Cons [OF r(2) _ _ _ this] have "collected s n (c # rest) cf seen r"
        using cf c(2) None by auto
      with r(1) c(2) None show ?thesis by (simp add: slice_get_def)
    next
      case (Some i)
      then have k: "kind_of s c = Learnt i" by (cases "kind_of s c") auto
      show ?thesis
      proof (cases "c \<in> seen")
        case True
        from IH [OF Cons.prems(3)] obtain r where r: "?run rest cf seen = Some r" "collected s n rest cf seen r" by blast
        have "explained s cf {c}" by (rule explained_mono [OF Cons.prems(3)]) (use True c(1) in auto)
        from collected_Cons [OF r(2) _ _ _ this] have "collected s n (c # rest) cf seen r" by auto
        with r(1) c(2) Some True show ?thesis by (simp add: slice_get_def)
      next
        case False
        from ok c(2) k obtain cs where cs: "ss_learnt_why s i = Some cs" "\<forall>c' \<in> set cs. c' < c"
          unfolding learnt_ok_def by blast
        have "explained s cf (insert c seen \<inter> {..<c})"
          by (rule explained_mono [OF Cons.prems(3)]) (use c(1) in auto)
        from less.IH [OF c(1) _ _ this, of cs] c(2) cs(2) obtain cf1 seen1 where one:
          "?run cs cf (insert c seen) = Some (cf1, seen1)" "collected s c cs cf (insert c seen) (cf1, seen1)" by force
        have "explained s cf1 {c}"
          using explained_learnt [OF ok c(2) k cs(1)] one(2) by (auto simp: collected_def explained_Un)
        moreover have "explained s cf1 (seen1 \<inter> {..<c})" using one(2) by (simp add: collected_def explained_Un)
        moreover have "explained s cf1 (seen \<inter> {..<n})"
          by (rule explained_mono [OF Cons.prems(3)]) (use one(2) in \<open>auto simp: collected_def\<close>)
        ultimately have "explained s cf1 ({c} \<union> seen1 \<inter> {..<c} \<union> seen \<inter> {..<n})" by (simp only: explained_Un)
        then have "explained s cf1 (seen1 \<inter> {..<n})"
          by (rule explained_mono) (use one(2) in \<open>auto simp: collected_def\<close>)
        with \<open>explained s cf1 {c}\<close> have ex1: "explained s cf1 (seen1 \<inter> {..<n})" "explained s cf1 {c}" by simp_all
        from IH [OF ex1(1)] obtain r where r: "?run rest cf1 seen1 = Some r" "collected s n rest cf1 seen1 r" by blast
        have "collected s n (c # rest) cf seen r"
          by (rule collected_Cons [OF r(2) _ _ _ ex1(2)]) (use one(2) c(1) in \<open>auto simp: collected_def\<close>)
        moreover have "?run (c # rest) cf seen = Some r"
          using c(2) Some False cs(1) one(1) r(1) by (simp add: slice_get_def analyze_unsolvable_clauses_append)
        ultimately show ?thesis by blast
      qed
    qed
  qed
qed

lemma analyze_unsolvable_clause_spec:
  assumes "learnt_ok s" "c < length (ss_kinds s)" "explained s cf seen" "seen \<subseteq> {..<length (ss_kinds s)}"
  obtains cf' seen' where "analyze_unsolvable_clause (ss_kinds s) (ss_learnt_why s) c (cf, seen) = Some (cf', seen')"
    "set cf \<subseteq> set cf'" "explained s cf' seen'" "seen' \<subseteq> {..<length (ss_kinds s)}" "explained s cf' {c}"
    "\<And>d. d \<in> set cf' \<Longrightarrow> d \<in> set cf \<or> d < length (ss_kinds s) \<and> learnt_id_of (kind_of s d) = None"
proof -
  have "explained s cf (seen \<inter> {..<length (ss_kinds s)})" by (rule explained_mono [OF assms(3)]) auto
  from analyze_unsolvable_clauses_spec [OF assms(1) order_refl _ this, of "[c]"] assms(2)
  obtain cf' seen' where r: "analyze_unsolvable_clauses (ss_kinds s) (ss_learnt_why s) [c] cf seen = Some (cf', seen')"
    "collected s (length (ss_kinds s)) [c] cf seen (cf', seen')" by fastforce
  have "seen' \<inter> {..<length (ss_kinds s)} = seen'" using r(2) assms(4) by (auto simp: collected_def)
  with r(2) have e: "explained s cf' (seen' \<union> {c})" by (simp add: collected_def)
  show thesis
    by (rule that [of cf' seen'])
      (use r assms(4) e in \<open>auto simp: analyze_unsolvable_clause_def collected_def explained_def\<close>)
qed

text \<open>
  The reverse walk over a first-level trail: the clauses found so far and the root force
  one of the involved decisions that are still to be explained to be different.
\<close>

definition walk_inv ::
  "solver_state \<Rightarrow> decision list \<Rightarrow> variable_id set \<times> clause_id list \<times> clause_id set \<Rightarrow> bool" where
  "walk_inv s pre = (\<lambda>(involved, cf, seen).
     explained s cf seen \<and> seen \<subseteq> {..<length (ss_kinds s)} \<and>
     (\<forall>c \<in> set cf. c < length (ss_kinds s) \<and> learnt_id_of (kind_of s c) = None) \<and>
     (\<forall>M. M 0 \<and> (\<forall>c \<in> set cf. clause_holds M s c) \<longrightarrow>
        (\<exists>e \<in> set pre. d_variable e \<in> involved \<and> M (d_variable e) \<noteq> d_value e)))"

lemma involve_literals:
  "(\<And>l. l \<in> set ls \<Longrightarrow> lit_value t l = Some True \<Longrightarrow> variable l = v) \<Longrightarrow>
    foldl (involve_literal t v) (Some involved) ls =
      Some (involved \<union> variable ` {l \<in> set ls. lit_value t l \<noteq> Some True})"
proof (induction ls arbitrary: involved)
  case (Cons l ls)
  have set: "{k \<in> set (l # ls). lit_value t k \<noteq> Some True} =
      (if lit_value t l = Some True then {} else {l}) \<union> {k \<in> set ls. lit_value t k \<noteq> Some True}" by auto
  show ?case unfolding set using Cons by (simp add: involve_literal_def)
qed simp

lemma explain_decision_spec:
  assumes inv: "tracker_inv (ss_decision_tracker s)" and ok: "learnt_ok s"
    and st: "dt_stack (ss_decision_tracker s) = pre @ d # post" and root: "d_variable d = 0 \<Longrightarrow> d_value d"
    and reason: "d_variable d \<noteq> 0 \<Longrightarrow> reason_ok s pre d" and zero: "lits s (kind_of s 0) = None"
    and w: "walk_inv s (pre @ [d]) a"
  shows "\<exists>a'. explain_decision s a d = Some a' \<and> walk_inv s pre a'"
proof -
  obtain involved cf seen where a: "a = (involved, cf, seen)" by (cases a)
  consider "d_variable d = 0" | "d_variable d \<noteq> 0" "d_variable d \<notin> involved" |
    "d_variable d \<noteq> 0" "d_variable d \<in> involved" by blast
  then show ?thesis
  proof cases
    case 1
    with root w show ?thesis by (fastforce simp: explain_decision_def a walk_inv_def)
  next
    case 2
    with w show ?thesis by (fastforce simp: explain_decision_def a walk_inv_def)
  next
    case 3
    let ?c = "d_derived_from d" and ?t = "ss_decision_tracker s"
    from reason [OF 3(1)] obtain ls where ls: "?c < length (ss_kinds s)" "lits s (kind_of s ?c) = Some ls"
      "true_lit d \<in> set ls" "\<And>l. l \<in> set ls \<Longrightarrow> l \<noteq> true_lit d \<Longrightarrow> \<exists>e \<in> set pre. false_lit e = l"
      by (auto simp: reason_ok_def)
    have c0: "?c \<noteq> 0" using zero ls(2) by (cases "?c = 0") simp_all
    from w have w': "explained s cf seen" "seen \<subseteq> {..<length (ss_kinds s)}"
      "\<forall>c \<in> set cf. c < length (ss_kinds s) \<and> learnt_id_of (kind_of s c) = None"
      "\<And>M. M 0 \<Longrightarrow> \<forall>c \<in> set cf. clause_holds M s c \<Longrightarrow>
        \<exists>e \<in> set (pre @ [d]). d_variable e \<in> involved \<and> M (d_variable e) \<noteq> d_value e"
      by (auto simp: walk_inv_def a)
    obtain cf' seen' where cl: "analyze_unsolvable_clause (ss_kinds s) (ss_learnt_why s) ?c (cf, seen) = Some (cf', seen')"
      "set cf \<subseteq> set cf'" "explained s cf' seen'" "seen' \<subseteq> {..<length (ss_kinds s)}" "explained s cf' {?c}"
      "\<And>d. d \<in> set cf' \<Longrightarrow> d \<in> set cf \<or> d < length (ss_kinds s) \<and> learnt_id_of (kind_of s d) = None"
      by (rule analyze_unsolvable_clause_spec [OF ok ls(1) w'(1,2)]) (rule that)
    have false: "lit_value ?t l = Some False" if "l \<in> set ls" "l \<noteq> true_lit d" for l
      using ls(4) [OF that] lit_value_False_trail [OF inv] st by auto
    have involve: "foldl (involve_literal ?t (d_variable d)) (Some involved) ls =
        Some (involved \<union> variable ` {l \<in> set ls. lit_value ?t l \<noteq> Some True})" (is "_ = Some ?inv")
      by (rule involve_literals) (use false in force)
    have run: "explain_decision s a d = Some (?inv, cf', seen')"
      using 3 c0 cl(1) ls(1,2) involve
      by (simp add: explain_decision_def a slice_get_def visit_literals_eq lits_def)
    have "\<exists>e \<in> set pre. d_variable e \<in> ?inv \<and> M (d_variable e) \<noteq> d_value e"
      if M: "M 0" "\<forall>c \<in> set cf'. clause_holds M s c" for M
    proof -
      from M(2) cl(2) w'(4) [of M, OF M(1)] obtain e where e: "e \<in> set (pre @ [d])" "d_variable e \<in> involved"
        "M (d_variable e) \<noteq> d_value e" by blast
      show ?thesis
      proof (cases "e \<in> set pre")
        case True
        with e show ?thesis by auto
      next
        case False
        with e have "\<not> lit_true M (true_lit d)" by auto
        moreover obtain l where l: "l \<in> set ls" "lit_true M l" by (rule explained_literal [OF cl(5) M(2) ls(2)])
        ultimately have ne: "l \<noteq> true_lit d" by blast
        with ls(4) l(1) obtain e' where e': "e' \<in> set pre" "false_lit e' = l" by blast
        with l false [OF l(1) ne] have "d_variable e' \<in> ?inv" by force
        with e' l(2) show ?thesis by auto
      qed
    qed
    with cl w'(3) have "walk_inv s pre (?inv, cf', seen')" unfolding walk_inv_def by blast
    with run show ?thesis by blast
  qed
qed

text \<open>On a trail of the first level every entry but the root has a reason.\<close>

lemma first_level_reason:
  assumes inv: "solver_inv s L n" and root: "level_above (ss_decision_tracker s) 1"
    and st: "dt_stack (ss_decision_tracker s) = pre @ d # post"
  shows "d_variable d = 0 \<Longrightarrow> d_value d" "d_variable d \<noteq> 0 \<Longrightarrow> reason_ok s pre d"
proof -
  let ?t = "ss_decision_tracker s"
  note p = prop_invD [OF solver_invD(1) [OF inv]]
  from solver_invD(3) [OF inv] obtain h ds where h: "dt_stack ?t = h # ds" "d_variable h = 0" "d_value h"
    unfolding rooted_def by (metis list.collapse)
  show "d_value d" if "d_variable d = 0"
  proof -
    have "d \<in> set (dt_stack ?t)" using st by simp
    moreover have "h \<in> set (dt_stack ?t)" using h(1) by simp
    ultimately show ?thesis using that h(2,3) same_variable [OF p(2), of d h] by simp
  qed
  assume "d_variable d \<noteq> 0"
  with h st have pre: "pre \<noteq> []" by (cases pre) auto
  have "tracker_level ?t (d_variable h) = 1" using solver_invD(3) [OF inv] h(1) by (simp add: rooted_def) auto
  moreover have "tracker_level ?t (d_variable d) \<le> 1" using root st by (simp add: level_above_def)
  moreover have d: "dt_stack ?t ! length pre = d" "length pre < length (dt_stack ?t)" using st by simp_all
  moreover have "dt_stack ?t ! 0 = h" using h(1) by simp
  ultimately have "\<not> first_of_level ?t (length pre)"
    using pre by (auto simp: first_of_level_def intro!: exI [of _ 0])
  moreover have "take (length pre) (dt_stack ?t) = pre" using st by simp
  ultimately show "reason_ok s pre d" using p(3) d unfolding trail_ok_def by metis
qed

lemma explain_decisions_spec:
  assumes inv: "solver_inv s L n" and root: "level_above (ss_decision_tracker s) 1"
  shows "dt_stack (ss_decision_tracker s) = pre @ post \<Longrightarrow> walk_inv s pre a \<Longrightarrow>
    \<exists>a'. fold_opt (explain_decision s) a (rev pre) = Some a' \<and> walk_inv s [] a'"
proof (induction pre arbitrary: a post rule: rev_induct)
  case (snoc d pre)
  have st: "dt_stack (ss_decision_tracker s) = pre @ d # post" using snoc.prems(1) by simp
  have "lits s (kind_of s 0) = None" using solver_invD(5) [OF inv] by (auto simp: lits_def)
  from explain_decision_spec [OF prop_invD(2) [OF solver_invD(1) [OF inv]] solver_invD(2) [OF inv] st
      first_level_reason [OF inv root st] this snoc.prems(2)]
  obtain a1 where "explain_decision s a d = Some a1" "walk_inv s pre a1" by blast
  with snoc.IH [OF st] show ?case by simp
qed simp

lemma analyze_unsolvable_spec:
  assumes inv: "solver_inv s L n" and root: "level_above (ss_decision_tracker s) 1" and c: "falsified s c"
  shows "\<exists>cf. analyze_unsolvable c s = Some cf \<and>
    (\<forall>c \<in> set cf. c < length (ss_kinds s) \<and> learnt_id_of (kind_of s c) = None) \<and>
    \<not> (\<exists>M. M 0 \<and> (\<forall>c \<in> set cf. clause_holds M s c))"
proof -
  let ?t = "ss_decision_tracker s"
  note p = prop_invD [OF solver_invD(1) [OF inv]]
  from c obtain ls where ls: "c < length (ss_kinds s)" "lits s (kind_of s c) = Some ls"
    "\<And>l. l \<in> set ls \<Longrightarrow> \<exists>e \<in> set (dt_stack ?t). false_lit e = l"
    using lit_value_False_trail [OF p(2)] by (auto simp: falsified_def)
  obtain cf seen where cl: "analyze_unsolvable_clause (ss_kinds s) (ss_learnt_why s) c ([], {}) = Some (cf, seen)"
    "explained s cf seen" "seen \<subseteq> {..<length (ss_kinds s)}" "explained s cf {c}"
    "\<And>d. d \<in> set cf \<Longrightarrow> d < length (ss_kinds s) \<and> learnt_id_of (kind_of s d) = None"
    by (rule analyze_unsolvable_clause_spec [OF solver_invD(2) [OF inv] ls(1), of "[]" "{}"])
      (auto simp: explained_def)
  have fold: "foldl (\<lambda>involved l. insert (variable l) involved) S ls = S \<union> variable ` set ls" for S
    by (induction ls arbitrary: S) auto
  have "\<exists>e \<in> set (dt_stack ?t). d_variable e \<in> variable ` set ls \<and> M (d_variable e) \<noteq> d_value e"
    if M: "\<forall>c \<in> set cf. clause_holds M s c" for M
  proof -
    obtain l where l: "l \<in> set ls" "lit_true M l" by (rule explained_literal [OF cl(4) M ls(2)])
    with ls(3) [OF l(1)] show ?thesis by force
  qed
  with cl have "walk_inv s (dt_stack ?t) (variable ` set ls, cf, seen)" unfolding walk_inv_def by blast
  from explain_decisions_spec [OF inv root _ this, of "[]"] obtain iv cf' seen' where w:
    "fold_opt (explain_decision s) (variable ` set ls, cf, seen) (rev (dt_stack ?t)) = Some (iv, cf', seen')"
    "walk_inv s [] (iv, cf', seen')" by auto
  have "analyze_unsolvable c s = Some cf'"
    using ls(1,2) cl(1) w(1) solver_invD(3) [OF inv] fold [of "{}"]
    by (simp add: analyze_unsolvable_def rooted_def visit_literals_eq lits_def slice_get_def)
  with w(2) show ?thesis by (auto simp: walk_inv_def)
qed

section \<open>Properties\<close>

text \<open>Property C7. The explanation of an unsolvable problem is a real contradiction. When all
  decisions are of the first level and a clause is false under them, \<open>analyze_unsolvable\<close>
  returns without a panic; every clause it reports is an original clause, not a learnt one;
  and no assignment that installs the root satisfies all of them.\<close>

theorem analyze_unsolvable_contradiction:
  assumes "solver_inv s L n" "level_above (ss_decision_tracker s) 1" "falsified s c"
  shows "\<exists>cf. analyze_unsolvable c s = Some cf \<and>
    (\<forall>c \<in> set cf. c < length (ss_kinds s) \<and> (\<forall>i. kind_of s c \<noteq> Learnt i)) \<and>
    \<not> (\<exists>M. M 0 \<and> (\<forall>c \<in> set cf. clause_holds M s c))"
  using analyze_unsolvable_spec [OF assms] by (metis learnt_id_of.simps(1) option.distinct(1))

text \<open>The root requires something without candidates.\<close>

definition example_unsolvable :: solver_state where
  "example_unsolvable =
     (let s0 = SolverState_default\<lparr>ss_requirement_to_sorted_candidates := [Single 0 \<mapsto> [[]]]\<rparr>;
          s1 = snd (add_clause None InstallRoot s0);
          (w, _, kind) = WatchedLiterals_requires 0 (Single 0) [] None (ss_decision_tracker s1);
          s2 = snd (add_clause w kind s1)
      in s2\<lparr>ss_decision_tracker := push_decision DecisionTracker_default (Decision_new 0 True 0) 1\<rparr>)"

lemma example_unsolvable_fields:
  "ss_kinds example_unsolvable = [InstallRoot, Requires 0 None (Single 0)]"
  "ss_watched_literals example_unsolvable = [None, None]" "ss_watches example_unsolvable = Map.empty"
  "ss_negative_assertions example_unsolvable = []" "ss_learnt_clause_ids example_unsolvable = []"
  "ss_decide_queue example_unsolvable = DecideQueue_default"
  "ss_decision_tracker example_unsolvable = push_decision DecisionTracker_default (Decision_new 0 True 0) 1"
  "lits example_unsolvable InstallRoot = None"
  "lits example_unsolvable (Requires 0 None (Single 0)) = Some [negative 0]"
  by (simp_all add: example_unsolvable_def Let_def WatchedLiterals_requires_def Clause_requires_def
      from_kind_and_initial_watches_def add_clause_watched SolverState_default_def lits_def disjunction_literals_def)

lemma example_unsolvable_inv:
  "solver_inv example_unsolvable (\<lambda>_. []) 1" "level_above (ss_decision_tracker example_unsolvable) 1"
  "falsified example_unsolvable 1"
proof -
  have v: "valid_level 1" by (simp add: valid_level_def)
  let ?t = "push_decision DecisionTracker_default (Decision_new 0 True 0) 1"
  have st: "dt_stack ?t = [Decision_new 0 True 0]" "tracker_level ?t 0 = 1" "assigned_value ?t 0 = Some True"
    using v by (simp_all add: DecisionTracker_default_def)
  have t: "tracker_inv ?t"
    by (intro push_decision_inv tracker_inv_default v)
      (simp_all add: level_above_def DecisionTracker_default_def assigned_value_def)
  show la: "level_above (ss_decision_tracker example_unsolvable) 1"
    using st by (simp add: example_unsolvable_fields level_above_def)
  have "trail_ok example_unsolvable" using st by (simp add: trail_ok_def first_of_level_def example_unsolvable_fields)
  moreover have "bounded example_unsolvable 1"
    using st by (auto simp: bounded_def example_unsolvable_fields)
  moreover have "db_inv example_unsolvable (\<lambda>_. [])"
    by (auto simp: db_inv_def example_unsolvable_fields watch_lists_def watches_lit_def less_Suc_eq nth_Cons
        split: nat.splits)
  ultimately have "prop_inv example_unsolvable (\<lambda>_. []) 1"
    using t by (simp add: prop_inv_def assertions_ok_def example_unsolvable_fields)
  then show "solver_inv example_unsolvable (\<lambda>_. []) 1"
    using st by (auto simp: solver_inv_def learnt_ok_def rooted_def name_lists_ok_def DecideQueue_default_def
        example_unsolvable_fields less_Suc_eq nth_Cons split: nat.splits)
  show "falsified example_unsolvable 1"
    using st by (simp add: falsified_def example_unsolvable_fields lit_value_assigned)
qed

theorem analyze_unsolvable_contradiction_witness:
  "\<exists>cf. analyze_unsolvable 1 example_unsolvable = Some cf \<and>
    \<not> (\<exists>M. M 0 \<and> (\<forall>c \<in> set cf. clause_holds M example_unsolvable c))"
  using analyze_unsolvable_contradiction [OF example_unsolvable_inv] by blast

end
