(* ===== verification/Search_Order.thy ===== *)
theory Search_Order
  imports Trail
begin

text \<open>
  Why the search ends. The number of trail entries up to each level, read as the digits of a
  number, most significant level first, grows with every propagation, with every decision and
  with every backjump that asserts a literal at a lower level; and it is bounded.
\<close>

section \<open>Counting the trail by level\<close>

definition count_upto :: "decision_tracker \<Rightarrow> level \<Rightarrow> nat" where
  "count_upto t i = length (filter (\<lambda>d. tracker_level t (d_variable d) \<le> i) (dt_stack t))"

fun weight :: "nat \<Rightarrow> decision_tracker \<Rightarrow> level \<Rightarrow> nat" where
  "weight n t 0 = count_upto t 0"
| "weight n t (Suc i) = weight n t i * Suc n + count_upto t (Suc i)"

lemma weight_mono: "(\<And>j. j \<le> i \<Longrightarrow> count_upto t j \<le> count_upto t' j) \<Longrightarrow> weight n t i \<le> weight n t' i"
  by (induction i) (simp_all add: add_mono mult_le_mono)

lemma weight_less:
  assumes "k \<le> i" "\<And>j. j < k \<Longrightarrow> count_upto t j \<le> count_upto t' j" "count_upto t k < count_upto t' k"
    "\<And>j. count_upto t j \<le> n"
  shows "weight n t i < weight n t' i"
  using assms(1)
proof (induction i rule: dec_induct)
  case base
  show ?case
  proof (cases k)
    case (Suc j)
    have "weight n t j \<le> weight n t' j" by (rule weight_mono) (use assms(2) Suc in simp)
    then have "weight n t j * Suc n \<le> weight n t' j * Suc n" by (rule mult_le_mono1)
    with assms(3) show ?thesis unfolding Suc weight.simps by linarith
  qed (use assms(3) in simp)
next
  case (step i)
  then have "Suc (weight n t i) * Suc n \<le> weight n t' i * Suc n" by (intro mult_le_mono1) simp
  then have "weight n t i * Suc n + Suc n \<le> weight n t' i * Suc n" by simp
  with assms(4) [of "Suc i"] show ?case unfolding weight.simps by linarith
qed

lemma weight_bound: "(\<And>j. count_upto t j \<le> n) \<Longrightarrow> weight n t i < Suc n ^ Suc i"
proof (induction i)
  case (Suc i)
  then have "Suc (weight n t i) * Suc n \<le> Suc n ^ Suc i * Suc n" by (intro mult_le_mono1) simp
  then have "weight n t i * Suc n + Suc n \<le> Suc n ^ Suc (Suc i)" by (simp only: mult_Suc power_Suc2 add.commute)
  with Suc.prems [of "Suc i"] show ?case unfolding weight.simps by linarith
qed (simp add: less_Suc_eq_le)

lemma count_upto_length: "count_upto t i \<le> length (dt_stack t)"
  by (simp add: count_upto_def)

lemma count_extends:
  assumes "extends t t'"
  shows "count_upto t j \<le> count_upto t' j"
proof -
  from assms obtain ds where ds: "dt_stack t' = dt_stack t @ ds" by (auto simp: extends_def)
  have "filter (\<lambda>d. tracker_level t' (d_variable d) \<le> j) (dt_stack t) = filter (\<lambda>d. tracker_level t (d_variable d) \<le> j) (dt_stack t)"
    by (rule filter_cong) (use assms in \<open>auto simp: extends_def\<close>)
  then show ?thesis by (simp add: count_upto_def ds)
qed

lemma count_undone:
  assumes "undone t t'" "keeps_below t t' l" "tracker_inv t" "j \<le> l"
  shows "count_upto t' j = count_upto t j"
proof -
  from assms(1) obtain ds where ds: "dt_stack t = dt_stack t' @ ds" by (auto simp: undone_def)
  have "\<not> tracker_level t (d_variable d) \<le> j" if "d \<in> set ds" for d
  proof
    assume "tracker_level t (d_variable d) \<le> j"
    then have "d \<in> set (dt_stack t')" using assms(2,4) that ds by (simp add: keeps_below_def)
    with that tracker_invD(1) [OF assms(3)] show False by (auto simp: ds)
  qed
  then have "filter (\<lambda>d. tracker_level t (d_variable d) \<le> j) ds = []" by (simp add: filter_empty_conv)
  moreover have "filter (\<lambda>d. tracker_level t' (d_variable d) \<le> j) (dt_stack t') = filter (\<lambda>d. tracker_level t (d_variable d) \<le> j) (dt_stack t')"
    by (rule filter_cong) (use assms(1) in \<open>auto simp: undone_def\<close>)
  ultimately show ?thesis by (simp add: count_upto_def ds)
qed

lemma count_push:
  assumes "valid_level l" "tracker_inv t" "assigned_value t (d_variable d) = None"
  shows "count_upto (push_decision t d l) j = count_upto t j + (if l \<le> j then 1 else 0)"
proof -
  have "\<forall>e \<in> set (dt_stack t). d_variable e \<noteq> d_variable d"
    using assms(2,3) by (simp only: assigned_value_None_iff not_in_image_iff)
  then have "filter (\<lambda>e. tracker_level (push_decision t d l) (d_variable e) \<le> j) (dt_stack t) =
      filter (\<lambda>e. tracker_level t (d_variable e) \<le> j) (dt_stack t)"
    using assms(1) by (intro filter_cong) auto
  with assms(1) show ?thesis by (simp add: count_upto_def)
qed

section \<open>Every level is in use\<close>

definition full :: "decision_tracker \<Rightarrow> level \<Rightarrow> bool" where
  "full t lv \<longleftrightarrow> (\<forall>i \<in> {1..lv}. \<exists>d \<in> set (dt_stack t). tracker_level t (d_variable d) = i)"

lemma full_bound:
  assumes "full t lv"
  shows "lv \<le> length (dt_stack t)"
proof -
  have "{1..lv} \<subseteq> (\<lambda>d. tracker_level t (d_variable d)) ` set (dt_stack t)" using assms by (auto simp: full_def)
  then have "card {1..lv} \<le> card ((\<lambda>d. tracker_level t (d_variable d)) ` set (dt_stack t))" by (intro card_mono) auto
  also have "\<dots> \<le> card (set (dt_stack t))" by (rule card_image_le) simp
  also have "\<dots> \<le> length (dt_stack t)" by (rule card_length)
  finally show ?thesis by simp
qed

lemma full_extends: "full t lv \<Longrightarrow> extends t t' \<Longrightarrow> full t' lv"
  unfolding full_def extends_def by fastforce

lemma full_undone:
  assumes "full t lv" "undone t t'" "keeps_below t t' l" "l \<le> lv"
  shows "full t' l"
  unfolding full_def
proof
  fix i
  assume i: "i \<in> {1..l}"
  with assms(4) have "i \<in> {1..lv}" by auto
  then obtain d where d: "d \<in> set (dt_stack t)" "tracker_level t (d_variable d) = i"
    using assms(1) unfolding full_def by blast
  then have "d \<in> set (dt_stack t')" using assms(3) i by (simp add: keeps_below_def)
  with d undoneD(3) [OF assms(2)] show "\<exists>d \<in> set (dt_stack t'). tracker_level t' (d_variable d) = i" by auto
qed

lemma full_push:
  assumes "full t lv" "valid_level (lv + 1)" "tracker_inv t" "assigned_value t (d_variable d) = None"
  shows "full (push_decision t d (lv + 1)) (lv + 1)"
  unfolding full_def
proof
  fix i
  assume i: "i \<in> {1..lv + 1}"
  show "\<exists>e \<in> set (dt_stack (push_decision t d (lv + 1))). tracker_level (push_decision t d (lv + 1)) (d_variable e) = i"
  proof (cases "i = lv + 1")
    case True
    with assms(2) show ?thesis by (intro bexI [of _ d]) auto
  next
    case False
    with i have "i \<in> {1..lv}" by auto
    then obtain e where e: "e \<in> set (dt_stack t)" "tracker_level t (d_variable e) = i"
      using assms(1) unfolding full_def by blast
    moreover have "\<forall>e \<in> set (dt_stack t). d_variable e \<noteq> d_variable d"
      using assms(3,4) by (simp only: assigned_value_None_iff not_in_image_iff)
    ultimately show ?thesis using assms(2) by (intro bexI [of _ e]) auto
  qed
qed

end
