(* ===== verification/Learning.thy ===== *)
theory Learning
  imports Unsolvable Search_Order
begin

text \<open>
  Learning from a conflict: \<open>learn_from_conflict\<close> and \<open>propagate_and_learn\<close> of
  \<open>src/solver/mod.rs\<close>. The theory shows that the conflicts of propagation can be analysed, that
  the learnt literal is asserted with a reason at the level the trail is cut back to, and
  that the loop ends, in a propagated state or with a contradiction.
\<close>

section \<open>Learning from a conflict\<close>

text \<open>
  \<open>learn_from_conflict\<close>: \<open>Inl\<close> is the conflict returned at the first level. The clause of the
  previous assignment is looked up for a log message only, but \<open>unwrap\<close> would panic.
\<close>

definition learn_from_conflict ::
  "solver_params \<Rightarrow> level \<Rightarrow> variable_id \<Rightarrow> bool \<Rightarrow> clause_id \<Rightarrow> solver_state \<Rightarrow>
    ((clause_id list + level) \<times> solver_state) option" where
  "learn_from_conflict sp level conflicting_solvable attempted_value conflicting_clause s =
     Option.bind (find_clause_for_assignment (ss_decision_tracker s) conflicting_solvable) (\<lambda>_.
     if level = 1 then map_option (\<lambda>conflict. (Inl conflict, s)) (analyze_unsolvable conflicting_clause s)
     else Option.bind (analyze sp level conflicting_solvable conflicting_clause s)
       (\<lambda>((new_level, learned_clause_id, literal), s1).
         case try_add_decision (ss_decision_tracker s1)
             (Decision_new (variable literal) (satisfying_value literal) learned_clause_id) new_level of
           Inl _ \<Rightarrow> None
         | Inr (_, t) \<Rightarrow> Some (Inr new_level, s1\<lparr>ss_decision_tracker := t\<rparr>)))"

section \<open>The propagate and learn loop\<close>

datatype 'c unsolvable_or_cancelled = Unsolvable "clause_id list" | Cancelled 'c

text \<open>
  The answers of \<open>should_cancel_with_value\<close> are given by the number of the call; \<open>calls\<close>
  counts them.
\<close>

partial_function (option) propagate_and_learn ::
  "solver_params \<Rightarrow> (nat \<Rightarrow> 'c option) \<Rightarrow> nat \<Rightarrow> level \<Rightarrow> solver_state \<Rightarrow>
    (('c unsolvable_or_cancelled + level) \<times> nat \<times> solver_state) option" where
  "propagate_and_learn sp cancel calls level s =
     Option.bind (propagate (cancel calls) level s) (\<lambda>(r, s1). case r of
       Inr _ \<Rightarrow> Some (Inr level, calls + 1, s1)
     | Inl e \<Rightarrow> (case e of
         PE_Cancelled value \<Rightarrow> Some (Inl (Cancelled value), calls + 1, s1)
       | PE_Conflict conflicting_solvable attempted_value conflicting_clause \<Rightarrow>
           Option.bind (learn_from_conflict sp level conflicting_solvable attempted_value conflicting_clause s1)
             (\<lambda>(r, s2). case r of
               Inl conflict \<Rightarrow> Some (Inl (Unsolvable conflict), calls + 1, s2)
             | Inr level' \<Rightarrow> propagate_and_learn sp cancel (calls + 1) level' s2)))"

declare propagate_and_learn.simps [code]

text \<open>The level is a \<open>u32\<close>; a decision map level must stay below \<open>2^31\<close> (theory \<open>Decision_Map\<close>).\<close>

definition set_propagate_learn ::
  "solver_params \<Rightarrow> (nat \<Rightarrow> 'c option) \<Rightarrow> nat \<Rightarrow> level \<Rightarrow> variable_id \<Rightarrow> clause_id \<Rightarrow> solver_state \<Rightarrow>
    (('c unsolvable_or_cancelled + level) \<times> nat \<times> solver_state) option" where
  "set_propagate_learn sp cancel calls level solvable clause_id s =
     (case try_add_decision (ss_decision_tracker s) (Decision_new solvable True clause_id) (level + 1) of
        Inl _ \<Rightarrow> None
      | Inr (_, t) \<Rightarrow> propagate_and_learn sp cancel calls (level + 1) (s\<lparr>ss_decision_tracker := t\<rparr>))"

section \<open>Which clauses can be false\<close>

text \<open>
  A clause whose two watches are false is still to be visited: one of them was falsified by a
  decision that is not propagated yet. A clause without watches is a unit clause whose literal
  is asserted by every propagation.
\<close>

definition guarded :: "nat \<Rightarrow> solver_state \<Rightarrow> bool" where
  "guarded i s \<longleftrightarrow> (\<forall>c a b. watched_of (ss_watched_literals s) c = Some (a, b) \<longrightarrow>
     lit_value (ss_decision_tracker s) a = Some False \<longrightarrow> lit_value (ss_decision_tracker s) b = Some False \<longrightarrow>
     (\<exists>d \<in> set (drop i (dt_stack (ss_decision_tracker s))). false_lit d = a \<or> false_lit d = b))"

definition covered :: "solver_state \<Rightarrow> bool" where
  "covered s \<longleftrightarrow> (\<forall>c < length (ss_kinds s). watched_of (ss_watched_literals s) c = None \<longrightarrow>
     kind_of s c = InstallRoot \<or> (\<exists>l \<in> asserted s. lits s (kind_of s c) = Some [l]))"

lemma guardedD:
  assumes "guarded i s" "watched_of (ss_watched_literals s) c = Some (a, b)"
    "lit_value (ss_decision_tracker s) a = Some False" "lit_value (ss_decision_tracker s) b = Some False"
  obtains d where "d \<in> set (drop i (dt_stack (ss_decision_tracker s)))" "false_lit d = a \<or> false_lit d = b"
  using assms unfolding guarded_def by blast

lemma watched_lits:
  assumes "db_inv s L" "watched_of (ss_watched_literals s) c = Some (a, b)"
  obtains ls where "c < length (ss_kinds s)" "lits s (kind_of s c) = Some ls" "a \<in> set ls" "b \<in> set ls" "a \<noteq> b"
proof -
  note d = db_invD [OF assms(1)]
  from assms(2) obtain w where w: "c < length (ss_kinds s)" "ss_watched_literals s ! c = Some w" "wl_watched w = (a, b)"
    by (auto simp: watched_of_def slice_get_def d(1) bind_eq_Some_conv split: if_splits)
  from d(3) [OF w(1,2)] w(3) obtain ls where "lits s (kind_of s c) = Some ls" "a \<in> set ls" "b \<in> set ls" "a \<noteq> b"
    by (auto simp: watches_of_def lits_def)
  with w(1) show thesis by (rule that)
qed

text \<open>A decision that is not among the new ones was on the trail before.\<close>

lemma false_before:
  assumes "tracker_inv t'" "extends t t'" "i \<le> length (dt_stack t)" "lit_value t' l = Some False"
    "\<forall>d \<in> set (drop i (dt_stack t')). false_lit d \<noteq> l" "tracker_inv t"
  shows "lit_value t l = Some False"
proof -
  from assms(2) obtain ds where ds: "dt_stack t' = dt_stack t @ ds" by (auto simp: extends_def)
  from assms(1,4) lit_value_False_trail obtain d where d: "d \<in> set (dt_stack t')" "false_lit d = l" by blast
  have "set (dt_stack t') = set (take i (dt_stack t')) \<union> set (drop i (dt_stack t'))"
    by (metis append_take_drop_id set_append)
  with d assms(5) have "d \<in> set (take i (dt_stack t'))" by blast
  then have "d \<in> set (dt_stack t)" using assms(3) ds by (auto dest: in_set_takeD)
  with d(2) lit_value_False_trail [OF assms(6)] show ?thesis by blast
qed

lemma guarded_progress:
  assumes inv: "prop_inv s L n" "prop_inv s' L' n" and p: "progress lv s s'" and g: "guarded i s"
    and i: "i \<le> length (dt_stack (ss_decision_tracker s))"
  shows "guarded i s'"
  unfolding guarded_def
proof (intro allI impI, rule ccontr)
  let ?t = "ss_decision_tracker s" and ?t' = "ss_decision_tracker s'"
  fix c a b
  assume w: "watched_of (ss_watched_literals s') c = Some (a, b)"
    and v: "lit_value ?t' a = Some False" "lit_value ?t' b = Some False"
    and no: "\<not> (\<exists>d \<in> set (drop i (dt_stack ?t')). false_lit d = a \<or> false_lit d = b)"
  note q = progressD [OF p] and t = prop_invD(2) [OF inv(1)] prop_invD(2) [OF inv(2)]
  have f: "lit_value ?t a = Some False" "lit_value ?t b = Some False"
    using false_before [OF t(2) q(3) i v(1) _ t(1)] false_before [OF t(2) q(3) i v(2) _ t(1)] no by blast+
  have "watches_lit (ss_watched_literals s') a c" "watches_lit (ss_watched_literals s') b c"
    using w by (auto simp: watches_lit_watched_of)
  with f q(4) have "watches_lit (ss_watched_literals s) a c" "watches_lit (ss_watched_literals s) b c"
    unfolding keeps_quiet_def by blast+
  moreover have "a \<noteq> b" by (rule watched_lits [OF prop_invD(1) [OF inv(2)] w])
  ultimately have "watched_of (ss_watched_literals s) c = Some (a, b) \<or> watched_of (ss_watched_literals s) c = Some (b, a)"
    by (auto simp: watches_lit_watched_of)
  then obtain d where d: "d \<in> set (drop i (dt_stack ?t))" "false_lit d = a \<or> false_lit d = b"
    using guardedD [OF g] f by metis
  from q(3) obtain ds where "dt_stack ?t' = dt_stack ?t @ ds" by (auto simp: extends_def)
  with d(1) have "d \<in> set (drop i (dt_stack ?t'))" by simp
  with no d(2) show False by blast
qed

lemma covered_progress:
  assumes "covered s" "progress lv s s'"
  shows "covered s'"
proof -
  note q = progressD [OF assms(2)]
  have "asserted s' = asserted s" by (simp add: asserted_def prop_frameD [OF q(1)] learnt_units_frame [OF q(1)])
  moreover have "watched_of (ss_watched_literals s) c = None" if "watched_of (ss_watched_literals s') c = None" for c
    using q(6) that by (metis domIff)
  ultimately show ?thesis using assms(1) by (simp add: covered_def prop_frameD [OF q(1)])
qed

text \<open>After propagation no clause has two false watches.\<close>

lemma propagated_guarded:
  assumes "prop_inv s L n" "propagated i s" "guarded i s"
  shows "guarded j s"
  unfolding guarded_def
proof (intro allI impI)
  fix c a b
  assume w: "watched_of (ss_watched_literals s) c = Some (a, b)"
    and v: "lit_value (ss_decision_tracker s) a = Some False" "lit_value (ss_decision_tracker s) b = Some False"
  from guardedD [OF assms(3) w v] obtain d where d: "d \<in> set (drop i (dt_stack (ss_decision_tracker s)))"
    "false_lit d = a \<or> false_lit d = b" .
  with assms(2) have "quiet s (false_lit d)" by (simp add: propagated_def)
  moreover have "watches_lit (ss_watched_literals s) (false_lit d) c" using d(2) w by (auto simp: watches_lit_watched_of)
  ultimately obtain k where "watches_lit (ss_watched_literals s) k c" "lit_value (ss_decision_tracker s) k = Some True"
    unfolding quiet_def quiet_at_def by blast
  with w v have False by (auto simp: watches_lit_watched_of)
  then show "\<exists>d \<in> set (drop j (dt_stack (ss_decision_tracker s))). false_lit d = a \<or> false_lit d = b" ..
qed

text \<open>Cutting back the levels of the new decisions leaves no clause with two false watches.\<close>

lemma guarded_undone:
  assumes t: "tracker_inv (ss_decision_tracker s)" and un: "undone (ss_decision_tracker s) (ss_decision_tracker s')"
    and g: "guarded i s"
    and lv: "\<forall>d \<in> set (drop i (dt_stack (ss_decision_tracker s))). tracker_level (ss_decision_tracker s) (d_variable d) = lv"
    and la: "level_above (ss_decision_tracker s') lv'" "lv' < lv"
    and w: "\<And>c a b. watched_of (ss_watched_literals s') c = Some (a, b) \<Longrightarrow>
      watched_of (ss_watched_literals s) c = Some (a, b) \<or> lit_value (ss_decision_tracker s') b = None"
  shows "guarded j s'"
  unfolding guarded_def
proof (intro allI impI)
  let ?t = "ss_decision_tracker s" and ?t' = "ss_decision_tracker s'"
  fix c a b
  assume c: "watched_of (ss_watched_literals s') c = Some (a, b)"
    and v: "lit_value ?t' a = Some False" "lit_value ?t' b = Some False"
  with w have old: "watched_of (ss_watched_literals s) c = Some (a, b)" by force
  have before: "lit_value ?t l = Some False \<and> tracker_level ?t (variable l) \<le> lv'" if l: "lit_value ?t' l = Some False" for l
  proof -
    from l lit_value_False_trail [OF undoneD(1) [OF un]] obtain d where d: "d \<in> set (dt_stack ?t')" "false_lit d = l" by blast
    have "tracker_level ?t (d_variable d) \<le> lv'"
      using undoneD(3) [OF un d(1)] bspec [OF la(1) [unfolded level_above_def] d(1)] by simp
    with d undoneD(2) [OF un] lit_value_False_trail [OF t] show ?thesis by auto
  qed
  from guardedD [OF g old] before v obtain d where d: "d \<in> set (drop i (dt_stack ?t))" "false_lit d = a \<or> false_lit d = b" by metis
  with lv have "tracker_level ?t (variable a) = lv \<or> tracker_level ?t (variable b) = lv" by auto
  with before [OF v(1)] before [OF v(2)] la(2) show "\<exists>d \<in> set (drop j (dt_stack ?t')). false_lit d = a \<or> false_lit d = b" by auto
qed

text \<open>A decision can only falsify what it was pushed for.\<close>

lemma guarded_push:
  assumes "tracker_inv (ss_decision_tracker s)" "valid_level l" "assigned_value (ss_decision_tracker s) (d_variable d) = None"
    "guarded (length (dt_stack (ss_decision_tracker s))) s" "tracker_inv (push_decision (ss_decision_tracker s) d l)"
  shows "guarded (length (dt_stack (ss_decision_tracker s))) (s\<lparr>ss_decision_tracker := push_decision (ss_decision_tracker s) d l\<rparr>)"
  unfolding guarded_def
proof (intro allI impI, rule ccontr)
  let ?t = "ss_decision_tracker s" and ?t' = "push_decision (ss_decision_tracker s) d l"
  let ?s = "s\<lparr>ss_decision_tracker := ?t'\<rparr>"
  fix c a b
  assume w: "watched_of (ss_watched_literals ?s) c = Some (a, b)"
    and v: "lit_value (ss_decision_tracker ?s) a = Some False" "lit_value (ss_decision_tracker ?s) b = Some False"
    and no: "\<not> (\<exists>e \<in> set (drop (length (dt_stack ?t)) (dt_stack (ss_decision_tracker ?s))). false_lit e = a \<or> false_lit e = b)"
  note ext = extends_push [OF assms(1-3)]
  have "lit_value ?t a = Some False" "lit_value ?t b = Some False"
    using false_before [OF assms(5) ext order_refl _ _ assms(1), of a] false_before [OF assms(5) ext order_refl _ _ assms(1), of b] v no
    by auto
  with guardedD [OF assms(4)] w show False by simp
qed

section \<open>From a conflict of propagation to the learnt decision\<close>

text \<open>
  What is not propagated yet, and every asserted literal that is false, is of the current
  level. So the conflicts propagation reports can be analysed.
\<close>

definition current :: "solver_state \<Rightarrow> level \<Rightarrow> bool" where
  "current s lv \<longleftrightarrow> valid_level lv \<and> level_above (ss_decision_tracker s) lv \<and>
     (\<forall>d \<in> set (drop (dt_propagate_index (ss_decision_tracker s)) (dt_stack (ss_decision_tracker s))).
        tracker_level (ss_decision_tracker s) (d_variable d) = lv) \<and>
     (\<forall>l \<in> asserted s. lit_value (ss_decision_tracker s) l = Some False \<longrightarrow>
        tracker_level (ss_decision_tracker s) (variable l) = lv) \<and>
     guarded (dt_propagate_index (ss_decision_tracker s)) s \<and> covered s \<and> full (ss_decision_tracker s) lv"

lemma solver_inv_frame:
  assumes "solver_inv s L n" "prop_frame s s'" "extends (ss_decision_tracker s) (ss_decision_tracker s')"
    "prop_inv s' L' n"
  shows "solver_inv s' L' n"
proof -
  note f = prop_frameD [OF assms(2)]
  have why: "ss_learnt_why s' = ss_learnt_why s" "ss_decide_queue s' = ss_decide_queue s"
    using assms(2) by (auto simp: prop_frame_def)
  have "rooted (ss_decision_tracker s')"
    using rooted_extends [OF solver_invD(3) [OF assms(1)] assms(3)] .
  moreover have "learnt_ok s'"
    using solver_invD(2) [OF assms(1)] by (simp add: learnt_ok_def implied_def clause_holds_def f why)
  ultimately show ?thesis using assms(1,4) by (simp add: solver_inv_def why f)
qed

lemma asserted_frame: "prop_frame s s' \<Longrightarrow> asserted s' = asserted s"
  by (simp add: asserted_def prop_frameD learnt_units_frame)

text \<open>A literal false now was false before, or became so at the current level.\<close>

lemma extends_at_False:
  assumes "tracker_inv t" "tracker_inv t'" "extends_at lv t t'" "lit_value t' l = Some False"
  shows "lit_value t l = Some False \<and> tracker_level t' (variable l) = tracker_level t (variable l) \<or>
    tracker_level t' (variable l) = lv"
proof -
  from assms(4) lit_value_False_trail [OF assms(2)] obtain d where d: "d \<in> set (dt_stack t')" "false_lit d = l" by blast
  show ?thesis
  proof (cases "d \<in> set (dt_stack t)")
    case True
    with d(2) lit_value_False_trail [OF assms(1)] assms(3) show ?thesis
      by (auto simp: extends_at_def extends_def)
  next
    case False
    with d assms(3) show ?thesis by (auto simp: extends_at_def)
  qed
qed

lemma current_progress:
  assumes inv: "prop_inv s L n" "prop_inv s' L' n" and cur: "current s lv" and p: "progress lv s s'"
    and d: "d \<in> set (drop (dt_propagate_index (ss_decision_tracker s)) (dt_stack (ss_decision_tracker s')))"
  shows "tracker_level (ss_decision_tracker s') (d_variable d) = lv"
proof -
  let ?t = "ss_decision_tracker s" and ?t' = "ss_decision_tracker s'"
  from progressD(3) [OF p] obtain ds where ds: "dt_stack ?t' = dt_stack ?t @ ds" by (auto simp: extends_def)
  have le: "dt_propagate_index ?t \<le> length (dt_stack ?t)" using tracker_invD(5) [OF prop_invD(2) [OF inv(1)]] .
  from d ds le consider "d \<in> set (drop (dt_propagate_index ?t) (dt_stack ?t))" | "d \<in> set ds" by auto
  then show ?thesis
  proof cases
    case 1
    with cur progressD(3) [OF p] in_set_dropD [OF 1] show ?thesis by (auto simp: current_def extends_def)
  next
    case 2
    have "d \<notin> set (dt_stack ?t)"
      using 2 tracker_invD(1) [OF prop_invD(2) [OF inv(2)]] ds by (auto simp: distinct_map)
    with 2 ds progressD(5) [OF p] show ?thesis by (auto simp: extends_at_def)
  qed
qed

text \<open>A state in which propagation found a conflict.\<close>

definition conflicting :: "solver_state \<Rightarrow> level \<Rightarrow> bool" where
  "conflicting s lv \<longleftrightarrow>
     (\<forall>l \<in> asserted s. lit_value (ss_decision_tracker s) l = Some False \<longrightarrow>
        tracker_level (ss_decision_tracker s) (variable l) = lv) \<and>
     (\<exists>i. guarded i s \<and> (\<forall>d \<in> set (drop i (dt_stack (ss_decision_tracker s))).
        tracker_level (ss_decision_tracker s) (d_variable d) = lv)) \<and>
     covered s \<and> full (ss_decision_tracker s) lv"

lemma propagate_current:
  assumes inv: "solver_inv s L n" and cur: "current s lv"
  obtains r :: "'c outcome" and s' L' where "propagate None lv s = Some (r, s')" "solver_inv s' L' n"
    "progress lv s s'"
    "case r of
       Inl e \<Rightarrow> \<exists>v b c. e = PE_Conflict v b c \<and> falsified s' c \<and> assigned_value (ss_decision_tracker s') v \<noteq> None \<and>
         (\<exists>ls l. lits s' (kind_of s' c) = Some ls \<and> l \<in> set ls \<and> tracker_level (ss_decision_tracker s') (variable l) = lv)
         \<and> conflicting s' lv
     | Inr _ \<Rightarrow> propagated (dt_propagate_index (ss_decision_tracker s)) s'"
    "guarded (dt_propagate_index (ss_decision_tracker s)) s'" "covered s'" "full (ss_decision_tracker s') lv"
proof -
  let ?i = "dt_propagate_index (ss_decision_tracker s)"
  have lv: "valid_level lv" "level_above (ss_decision_tracker s) lv" using cur by (simp_all add: current_def)
  note pinv = solver_invD(1) [OF inv]
  obtain r :: "'c outcome" and s' L' where r: "propagate None lv s = Some (r, s')" "prop_inv s' L' n" "progress lv s s'"
    "case r of Inl e \<Rightarrow> conflict_at s' (conflict_literals ?i s') e | Inr _ \<Rightarrow> propagated ?i s'"
    using propagate_spec [OF pinv lv] by blast
  note p = progressD [OF r(3)]
  have sinv: "solver_inv s' L' n" using solver_inv_frame [OF inv p(1,3) r(2)] .
  have false: "tracker_level (ss_decision_tracker s') (variable l) = lv"
    if "l \<in> asserted s'" "lit_value (ss_decision_tracker s') l = Some False" for l
    using that cur asserted_frame [OF p(1)]
      extends_at_False [OF prop_invD(2) [OF pinv] prop_invD(2) [OF r(2)] p(5) that(2)]
    by (auto simp: current_def)
  have more: "guarded ?i s'" "covered s'" "full (ss_decision_tracker s') lv"
    using cur guarded_progress [OF pinv r(2,3)] tracker_invD(5) [OF prop_invD(2) [OF pinv]]
      covered_progress [OF _ r(3)] full_extends [OF _ p(3)]
    by (simp_all add: current_def)
  have pend: "\<forall>d \<in> set (drop ?i (dt_stack (ss_decision_tracker s'))). tracker_level (ss_decision_tracker s') (d_variable d) = lv"
    using current_progress [OF pinv r(2) cur r(3)] by blast
  have conf: "conflicting s' lv" using false more pend unfolding conflicting_def by blast
  show thesis
  proof (cases r)
    case (Inl e)
    with r(4) have "conflict_at s' (conflict_literals ?i s') e" by simp
    then obtain v b c ls l where e: "e = PE_Conflict v b c" "falsified s' c"
      "assigned_value (ss_decision_tracker s') v \<noteq> None" "lits s' (kind_of s' c) = Some ls" "l \<in> set ls"
      "l \<in> conflict_literals ?i s'"
      unfolding conflict_at_def by blast
    have "lit_value (ss_decision_tracker s') l = Some False" using e(2,4,5) by (auto simp: falsified_def)
    with e(6) false current_progress [OF pinv r(2) cur r(3)]
    have "tracker_level (ss_decision_tracker s') (variable l) = lv" by (auto simp: conflict_literals_def)
    with e conf more Inl r(1,3) sinv show thesis by (intro that [of r s' L']) auto
  next
    case (Inr u)
    with r sinv more show thesis by (intro that [of r s' L']) auto
  qed
qed

text \<open>
  \<open>learn_from_conflict\<close> above the first level: the learnt literal is asserted at the level
  the trail was cut back to, and the state is ready to be propagated there.
\<close>

lemma find_clause_for_assignment_Some:
  assumes "tracker_inv t" "assigned_value t v \<noteq> None"
  shows "find_clause_for_assignment t v \<noteq> None"
proof -
  from assms obtain d where "d \<in> set (dt_stack t)" "d_variable d = v"
    using tracker_invD(2) [OF assms(1), of v] by (cases "assigned_value t v") auto
  then show ?thesis
    by (auto simp: find_clause_for_assignment_def find_None_iff)
qed

lemma asserted_undone_true:
  assumes "\<forall>l \<in> asserted s. lit_value (ss_decision_tracker s) l = Some False \<longrightarrow>
      tracker_level (ss_decision_tracker s) (variable l) = lv"
    "undone (ss_decision_tracker s) t" "tracker_inv (ss_decision_tracker s)" "level_above t lv'" "lv' < lv" "l \<in> asserted s"
  shows "lit_value t l \<noteq> Some False"
proof
  assume "lit_value t l = Some False"
  then obtain d where d: "d \<in> set (dt_stack t)" "false_lit d = l"
    using lit_value_False_trail [OF undoneD(1) [OF assms(2)]] by blast
  then have "lit_value (ss_decision_tracker s) l = Some False"
    using lit_value_False_trail [OF assms(3)] undoneD(2) [OF assms(2)] by blast
  with assms(1,6) have "tracker_level (ss_decision_tracker s) (variable l) = lv" by blast
  moreover have "tracker_level (ss_decision_tracker s) (d_variable d) \<le> lv'"
    using undoneD(3) [OF assms(2) d(1)] bspec [OF assms(4) [unfolded level_above_def] d(1)] by simp
  ultimately show False using d(2) assms(5) by auto
qed

text \<open>The search moved on: it never returns to a trail it has left behind.\<close>

definition search_on :: "nat \<Rightarrow> solver_state \<Rightarrow> solver_state \<Rightarrow> bool" where
  "search_on n s s' \<longleftrightarrow> search_frame s s' \<and> moves (ss_decision_tracker s) (ss_decision_tracker s') \<and>
     weight n (ss_decision_tracker s) n \<le> weight n (ss_decision_tracker s') n"

lemma search_on_refl: "tracker_inv (ss_decision_tracker s) \<Longrightarrow> search_on n s s"
  by (simp add: search_on_def moves_refl)

lemma search_on_trans: "search_on n s s' \<Longrightarrow> search_on n s' s'' \<Longrightarrow> search_on n s s''"
  unfolding search_on_def using search_frame_trans moves_trans order_trans by blast

lemma search_on_progress:
  assumes "prop_inv s L n" "prop_inv s' L' n" "progress lv s s'"
  shows "search_on n s s'"
proof -
  note p = progressD [OF assms(3)]
  have "search_frame s s'" using p(1) by (auto simp: prop_frame_def search_frame_def but_search_def)
  then show ?thesis
    using extends_moves [OF p(3) prop_invD(2) [OF assms(1)] prop_invD(2) [OF assms(2)]]
      weight_mono [OF count_extends [OF p(3)]] by (simp add: search_on_def)
qed

lemma search_on_backjump:
  assumes inv: "prop_inv s2 L n" "tracker_inv (ss_decision_tracker s)" and b: "bounded s n"
    and un: "undone (ss_decision_tracker s) (ss_decision_tracker s1)" "keeps_below (ss_decision_tracker s) (ss_decision_tracker s1) l"
    and fr: "search_frame s s1" and s2: "s2 = s1\<lparr>ss_decision_tracker := push_decision (ss_decision_tracker s1) d l\<rparr>"
    and d: "valid_level l" "assigned_value (ss_decision_tracker s1) (d_variable d) = None"
    and full: "full (ss_decision_tracker s) lv" "l \<le> lv" and l: "1 \<le> l"
  shows "search_on n s s2" "weight n (ss_decision_tracker s) n < weight n (ss_decision_tracker s2) n"
    "full (ss_decision_tracker s2) l"
proof -
  let ?t = "ss_decision_tracker s" and ?t1 = "ss_decision_tracker s1" and ?t2 = "ss_decision_tracker s2"
  note i1 = undoneD(1) [OF un(1)] and i2 = prop_invD(2) [OF inv(1)]
  have t2: "?t2 = push_decision ?t1 d l" by (simp add: s2)
  have ext: "extends ?t1 ?t2" using extends_push [OF i1 d] by (simp add: t2)
  show full2: "full ?t2 l" using full_extends [OF full_undone [OF full(1) un full(2)] ext] .
  have ln: "l \<le> n" using full_bound [OF full2] trail_length_bound [OF i2 prop_invD(4) [OF inv(1)]] by simp
  have below: "count_upto ?t j \<le> count_upto ?t2 j" if "j \<le> l" for j
    using count_undone [OF un inv(2) that] count_extends [OF ext, of j] by simp
  have at: "count_upto ?t l < count_upto ?t2 l"
    using count_undone [OF un inv(2) order_refl] count_push [OF d(1) i1 d(2), of l] by (simp add: t2)
  have "count_upto ?t j \<le> n" for j
    using count_upto_length [of ?t j] trail_length_bound [OF inv(2) b] by simp
  with weight_less [OF ln below at] show less: "weight n ?t n < weight n ?t2 n" by simp
  have "search_frame s1 s2" by (simp add: s2 search_frame_def but_search_def)
  then show "search_on n s s2"
    using less search_frame_trans [OF fr] moves_trans [OF undone_moves [OF un(1)] extends_moves [OF ext i1 i2]]
    by (simp add: search_on_def)
qed

lemma covered_learn:
  assumes "covered s" "grows s s1" "asserted s \<subseteq> asserted s1" "length (ss_kinds s1) = length (ss_kinds s) + 1"
    "lits s1 (kind_of s1 (length (ss_kinds s))) = Some ls" "learnt_watch ls s s1"
    "length ls = 1 \<longrightarrow> ls = [l] \<and> l \<in> asserted s1"
  shows "covered s1"
  unfolding covered_def
proof (intro allI impI)
  fix c
  assume c: "c < length (ss_kinds s1)" "watched_of (ss_watched_literals s1) c = None"
  show "kind_of s1 c = InstallRoot \<or> (\<exists>l \<in> asserted s1. lits s1 (kind_of s1 c) = Some [l])"
  proof (cases "c = length (ss_kinds s)")
    case True
    with c(2) assms(5-7) show ?thesis by (auto simp: learnt_watch_def split: if_splits)
  next
    case False
    then have old: "c < length (ss_kinds s)" using c(1) assms(4) by simp
    with c(2) assms(6) False have "watched_of (ss_watched_literals s) c = None" by (simp add: learnt_watch_def)
    with assms(1,3) old growsD [OF assms(2) old] show ?thesis by (auto simp: covered_def)
  qed
qed

definition learn_result :: "solver_state \<Rightarrow> level \<Rightarrow> nat \<Rightarrow> level \<Rightarrow> solver_state \<Rightarrow> bool" where
  "learn_result s lv n lv' s' \<longleftrightarrow> (\<exists>L'. solver_inv s' L' n) \<and> 1 \<le> lv' \<and> lv' < lv \<and> current s' lv' \<and> grows s s' \<and>
     (\<forall>M. models M s \<longrightarrow> models M s') \<and> ss_variable_map s' = ss_variable_map s \<and> search_on n s s'"

lemma learn_from_conflict_spec:
  assumes inv: "solver_inv s L n" and an: "analyzable s lv c" and vl: "valid_level lv"
    and v: "assigned_value (ss_decision_tracker s) v \<noteq> None" and conf: "conflicting s lv"
  obtains lv' s' where "learn_from_conflict sp lv v b c s = Some (Inr lv', s')" "learn_result s lv n lv' s'"
proof -
  let ?c = "length (ss_kinds s)"
  obtain lv' l s1 where run: "analyze sp lv v c s = Some ((lv', ?c, l), s1)" and res: "analyze_result s lv n lv' l s1"
    by (rule analyze_spec [OF inv an])
  from res obtain L1 where r: "solver_inv s1 L1 n" "1 \<le> lv'" "lv' < lv" "level_above (ss_decision_tracker s1) lv'"
    "grows s s1" "unit_at s1 ?c l" "ss_variable_map s1 = ss_variable_map s"
    "undone (ss_decision_tracker s) (ss_decision_tracker s1)" "asserted s1 \<subseteq> insert l (asserted s)"
    "\<And>M. models M s \<Longrightarrow> models M s1"
    "dt_propagate_index (ss_decision_tracker s1) = length (dt_stack (ss_decision_tracker s1))"
    by (auto simp: analyze_result_def)
  from res obtain lc where k: "keeps_below (ss_decision_tracker s) (ss_decision_tracker s1) lv'" "search_frame s s1"
    "asserted s \<subseteq> asserted s1" "lits s1 (kind_of s1 ?c) = Some lc" "last lc = l" "learnt_watch lc s s1"
    "length lc = 1 \<longrightarrow> lc = [l] \<and> l \<in> asserted s1" "length (ss_kinds s1) = ?c + 1"
    unfolding analyze_result_def by blast
  from conf obtain i where cf: "\<forall>l \<in> asserted s. lit_value (ss_decision_tracker s) l = Some False \<longrightarrow>
      tracker_level (ss_decision_tracker s) (variable l) = lv" "guarded i s"
    "\<forall>d \<in> set (drop i (dt_stack (ss_decision_tracker s))). tracker_level (ss_decision_tracker s) (d_variable d) = lv"
    "covered s" "full (ss_decision_tracker s) lv"
    unfolding conflicting_def by blast
  let ?t1 = "ss_decision_tracker s1" and ?d = "Decision_new (variable l) (satisfying_value l) ?c"
  note p1 = prop_invD [OF solver_invD(1) [OF r(1)]] and p = prop_invD [OF solver_invD(1) [OF inv]]
  from r(6) obtain ls where u: "?c < length (ss_kinds s1)" "lits s1 (kind_of s1 ?c) = Some ls" "l \<in> set ls"
    "lit_value ?t1 l = None" "\<forall>k \<in> set ls. k \<noteq> l \<longrightarrow> lit_value ?t1 k = Some False"
    by (auto simp: unit_at_def)
  have vl': "valid_level lv'" using vl r(2,3) by (auto simp: valid_level_def)
  have fresh: "assigned_value ?t1 (d_variable ?d) = None" using u(4) by (simp add: lit_value_assigned)
  have reason: "reason_ok s1 (dt_stack ?t1) ?d"
    using u lit_value_False_trail [OF p1(2)] by (auto simp: reason_ok_def)
  let ?t2 = "push_decision ?t1 ?d lv'"
  let ?s2 = "s1\<lparr>ss_decision_tracker := ?t2\<rparr>"
  have inv2: "prop_inv ?s2 L1 n" using prop_inv_push [OF solver_invD(1) [OF r(1)] vl' r(4) fresh reason] .
  have ext: "extends_at lv' ?t1 ?t2" using extends_at_push [OF p1(2) vl' fresh] .
  have sinv2: "solver_inv ?s2 L1 n"
    using solver_inv_frame [OF r(1) prop_frame_update(1) _ inv2] extends_atD [OF ext] by simp
  have as2: "asserted ?s2 = asserted s1" using asserted_frame [OF prop_frame_update(1)] .
  have lfalse: "lit_value ?t2 k = Some False \<longrightarrow> tracker_level ?t2 (variable k) = lv'" if "k \<in> asserted ?s2" for k
  proof -
    have k: "k = l \<or> k \<in> asserted s" using that r(9) as2 by auto
    have "lit_value ?t1 k \<noteq> Some False"
      using k u(4) asserted_undone_true [OF cf(1) r(8) p(2) r(4,3)] by auto
    with extends_at_False [OF p1(2) prop_invD(2) [OF inv2, simplified] ext] show ?thesis by blast
  qed
  have w: "watched_of (ss_watched_literals s) e = Some (a, b) \<or> lit_value ?t1 b = None"
    if "watched_of (ss_watched_literals s1) e = Some (a, b)" for e a b
    using that k(5,6) u(4) by (auto simp: learnt_watch_def split: if_splits)
  have "guarded (length (dt_stack ?t1)) s1" by (rule guarded_undone [OF p(2) r(8) cf(2,3) r(4,3) w])
  then have g: "guarded (length (dt_stack ?t1)) ?s2"
    using guarded_push [OF p1(2) vl' fresh _ prop_invD(2) [OF inv2, simplified]] by simp
  have "covered s1" using covered_learn [OF cf(4) r(5) k(3,8,4,6,7)] .
  then have cov: "covered ?s2" using as2 by (simp add: covered_def lits_def)
  note on = search_on_backjump [OF inv2 p(2,4) r(8) k(1,2) refl vl' fresh cf(5) less_imp_le [OF r(3)] r(2)]
  have "current ?s2 lv'"
    using vl' level_above_push [OF r(4) vl'] lfalse r(11) g cov on(3) by (simp add: current_def)
  moreover have "grows s ?s2" "\<And>M. models M s \<Longrightarrow> models M ?s2"
    using r(5,10) by (simp_all add: grows_def lits_def models_def clause_holds_def)
  ultimately have "learn_result s lv n lv' ?s2"
    using sinv2 r(2,3,7) on(1) by (auto simp: learn_result_def)
  moreover have "learn_from_conflict sp lv v b c s = Some (Inr lv', ?s2)"
    using find_clause_for_assignment_Some [OF p(2) v] an run fresh
    by (auto simp: learn_from_conflict_def analyzable_def try_add_decision_eq)
  ultimately show thesis by (rule that [rotated])
qed

section \<open>The loop ends\<close>

text \<open>The state is propagated at a level: nothing is pending and all assertions hold.\<close>

definition settled :: "solver_state \<Rightarrow> level \<Rightarrow> bool" where
  "settled s lv \<longleftrightarrow> current s lv \<and>
     dt_propagate_index (ss_decision_tracker s) = length (dt_stack (ss_decision_tracker s)) \<and>
     (\<forall>l \<in> asserted s. lit_value (ss_decision_tracker s) l = Some True)"

text \<open>The state only gained implied clauses; what the loop returns.\<close>

definition refines_db :: "solver_state \<Rightarrow> solver_state \<Rightarrow> bool" where
  "refines_db s s' \<longleftrightarrow> grows s s' \<and> (\<forall>M. models M s \<longrightarrow> models M s') \<and> ss_variable_map s' = ss_variable_map s"

lemma refines_db_trans: "refines_db s s' \<Longrightarrow> refines_db s' s'' \<Longrightarrow> refines_db s s''"
  using grows_trans unfolding refines_db_def by metis

lemma refines_db_frame: "prop_frame s s' \<Longrightarrow> refines_db s s'"
  by (simp add: refines_db_def grows_def models_def clause_holds_def prop_frameD)

definition contradictory :: "solver_state \<Rightarrow> clause_id list \<Rightarrow> bool" where
  "contradictory s cf \<longleftrightarrow> (\<forall>c \<in> set cf. c < length (ss_kinds s) \<and> learnt_id_of (kind_of s c) = None) \<and>
     \<not> (\<exists>M. M 0 \<and> (\<forall>c \<in> set cf. clause_holds M s c))"

definition loop_outcome ::
  "solver_state \<Rightarrow> nat \<Rightarrow> (nat \<Rightarrow> 'c option) \<Rightarrow> nat \<Rightarrow> level \<Rightarrow> ('c unsolvable_or_cancelled + level) \<Rightarrow> nat \<Rightarrow>
    solver_state \<Rightarrow> bool" where
  "loop_outcome s n cancel calls lv r calls' s' \<longleftrightarrow> refines_db s s' \<and> search_on n s s' \<and> calls < calls' \<and>
     (\<exists>L. solver_inv s' L n) \<and>
     (case r of
        Inr lv' \<Rightarrow> 1 \<le> lv' \<and> lv' \<le> lv \<and> settled s' lv'
      | Inl (Unsolvable cf) \<Rightarrow> contradictory s' cf
      | Inl (Cancelled v) \<Rightarrow> cancel (calls' - 1) = Some v)"

lemma propagate_and_learn_eq:
  "propagate (cancel calls) lv s = Some (r, s1) \<Longrightarrow>
    propagate_and_learn sp cancel calls lv s = (case r of
       Inr _ \<Rightarrow> Some (Inr lv, calls + 1, s1)
     | Inl e \<Rightarrow> (case e of
         PE_Cancelled value \<Rightarrow> Some (Inl (Cancelled value), calls + 1, s1)
       | PE_Conflict v b c \<Rightarrow> Option.bind (learn_from_conflict sp lv v b c s1) (\<lambda>(r, s2). case r of
               Inl conflict \<Rightarrow> Some (Inl (Unsolvable conflict), calls + 1, s2)
             | Inr lv' \<Rightarrow> propagate_and_learn sp cancel (calls + 1) lv' s2)))"
  by (subst propagate_and_learn.simps) simp

lemma settled_propagated:
  assumes "current s lv" "progress lv s s'" "propagated i s'" "prop_inv s' L n" "guarded i s'" "covered s'"
    "full (ss_decision_tracker s') lv"
  shows "settled s' lv"
  using assms progressD(2) [OF assms(2)] propagated_guarded [OF assms(4,3,5)]
  by (auto simp: settled_def current_def propagated_def)

lemma propagate_and_learn_spec:
  assumes "solver_inv s L n" "current s lv" "1 \<le> lv"
  shows "\<exists>r calls' s'. propagate_and_learn sp (cancel :: nat \<Rightarrow> 'c option) calls lv s = Some (r, calls', s') \<and>
    loop_outcome s n cancel calls lv r calls' s'"
  using assms
proof (induction lv arbitrary: s L calls rule: less_induct)
  case (less lv)
  note inv = less.prems(1) and cur = less.prems(2)
  show ?case
  proof (cases "cancel calls")
    case (Some v)
    then have "propagate (cancel calls) lv s = Some (Inl (PE_Cancelled v), s)"
      by (simp add: propagate_def propagate_impl_def)
    from propagate_and_learn_eq [of cancel calls, OF this] Some inv
      search_on_refl [OF prop_invD(2) [OF solver_invD(1) [OF inv]]] show ?thesis
      by (auto simp: loop_outcome_def intro: refines_db_frame)
  next
    case None
    obtain r :: "'c outcome" and s1 L1 where p: "propagate None lv s = Some (r, s1)" "solver_inv s1 L1 n"
      "progress lv s s1"
      "case r of
         Inl e \<Rightarrow> \<exists>v b c. e = PE_Conflict v b c \<and> falsified s1 c \<and> assigned_value (ss_decision_tracker s1) v \<noteq> None \<and>
           (\<exists>ls l. lits s1 (kind_of s1 c) = Some ls \<and> l \<in> set ls \<and> tracker_level (ss_decision_tracker s1) (variable l) = lv)
           \<and> conflicting s1 lv
       | Inr _ \<Rightarrow> propagated (dt_propagate_index (ss_decision_tracker s)) s1"
      "guarded (dt_propagate_index (ss_decision_tracker s)) s1" "covered s1" "full (ss_decision_tracker s1) lv"
      by (rule propagate_current [OF inv cur]) (rule that)
    note run = propagate_and_learn_eq [of cancel calls, unfolded None, OF p(1)]
    have ref: "refines_db s s1" using progressD(1) [OF p(3)] by (rule refines_db_frame)
    have on: "search_on n s s1" using search_on_progress [OF solver_invD(1) [OF inv] solver_invD(1) [OF p(2)] p(3)] .
    show ?thesis
    proof (cases r)
      case (Inr u)
      with p(4) have "settled s1 lv" using settled_propagated [OF cur p(3) _ solver_invD(1) [OF p(2)] p(5-7)] by simp
      with run Inr ref on p(2) less.prems(3) show ?thesis by (auto simp: loop_outcome_def)
    next
      case (Inl e)
      from p(4) [unfolded Inl sum.case] obtain v b c where e: "e = PE_Conflict v b c" "falsified s1 c" "assigned_value (ss_decision_tracker s1) v \<noteq> None"
        "\<exists>ls l. lits s1 (kind_of s1 c) = Some ls \<and> l \<in> set ls \<and> tracker_level (ss_decision_tracker s1) (variable l) = lv"
        "conflicting s1 lv" by blast
      note run' = run [unfolded Inl e(1) sum.case propagation_error.case]
      have la: "level_above (ss_decision_tracker s1) lv" using progressD(2) [OF p(3)] .
      show ?thesis
      proof (cases "lv = 1")
        case True
        obtain cf where cf: "analyze_unsolvable c s1 = Some cf" "contradictory s1 cf"
          using analyze_unsolvable_spec [OF p(2) _ e(2)] la True by (auto simp: contradictory_def)
        have "learn_from_conflict sp lv v b c s1 = Some (Inl cf, s1)"
          using find_clause_for_assignment_Some [OF prop_invD(2) [OF solver_invD(1) [OF p(2)]] e(3)] cf(1) True
          by (auto simp: learn_from_conflict_def)
        with run' ref on p(2) cf(2) show ?thesis by (auto simp: loop_outcome_def)
      next
        case False
        have vl: "valid_level lv" using cur by (simp add: current_def)
        have "analyzable s1 lv c" using e(2,4) la False less.prems(3) by (auto simp: analyzable_def)
        from learn_from_conflict_spec [OF p(2) this vl e(3,5)] obtain lv' s2 where
          l: "learn_from_conflict sp lv v b c s1 = Some (Inr lv', s2)" "learn_result s1 lv n lv' s2" .
        then obtain L2 where l2: "solver_inv s2 L2 n" "1 \<le> lv'" "lv' < lv" "current s2 lv'" "refines_db s1 s2"
          "search_on n s1 s2"
          by (auto simp: learn_result_def refines_db_def)
        from less.IH [OF l2(3,1,4,2), of "calls + 1"] obtain r calls' s' where
          fin: "propagate_and_learn sp cancel (calls + 1) lv' s2 = Some (r, calls', s')"
          "loop_outcome s2 n cancel (calls + 1) lv' r calls' s'" by blast
        have "loop_outcome s n cancel calls lv r calls' s'"
          using fin(2) l2(3) refines_db_trans [OF ref refines_db_trans [OF l2(5)]]
            search_on_trans [OF on search_on_trans [OF l2(6)]]
          by (auto simp: loop_outcome_def split: sum.splits)
        with fin(1) run' l(1) show ?thesis by auto
      qed
    qed
  qed
qed

section \<open>Properties\<close>

text \<open>Property C4. The propagate and learn loop always ends, with the right answer. From a state
  of the solver whose pending decisions are of the current level, the loop returns: with a
  level not above the current one at which everything is propagated and every asserted literal
  holds; or with a conflict whose clauses, none of them learnt, cannot be satisfied together
  with the root; or with the value the provider cancelled with. The clause database only gains
  clauses that exclude no model.\<close>

theorem propagate_and_learn_ends:
  assumes "solver_inv s L n" "current s lv" "1 \<le> lv"
  shows "\<exists>r calls' s' L'. propagate_and_learn sp (cancel :: nat \<Rightarrow> 'c option) calls lv s = Some (r, calls', s') \<and>
    solver_inv s' L' n \<and> grows s s' \<and> (\<forall>M. models M s \<longrightarrow> models M s') \<and>
    (case r of
       Inr lv' \<Rightarrow> 1 \<le> lv' \<and> lv' \<le> lv \<and> settled s' lv'
     | Inl (Unsolvable cf) \<Rightarrow> (\<forall>c \<in> set cf. c < length (ss_kinds s') \<and> (\<forall>i. kind_of s' c \<noteq> Learnt i)) \<and>
         \<not> (\<exists>M. M 0 \<and> (\<forall>c \<in> set cf. clause_holds M s' c))
     | Inl (Cancelled v) \<Rightarrow> cancel (calls' - 1) = Some v)"
proof -
  obtain r calls' s' where r: "propagate_and_learn sp cancel calls lv s = Some (r, calls', s')"
    "loop_outcome s n cancel calls lv r calls' s'"
    using propagate_and_learn_spec [OF assms] by blast
  have "\<forall>i. kind_of s' c \<noteq> Learnt i" if "learnt_id_of (kind_of s' c) = None" for c
    using that by (metis learnt_id_of.simps(1) option.distinct(1))
  with r show ?thesis
    by (auto simp: loop_outcome_def refines_db_def contradictory_def
        split: sum.splits unsolvable_or_cancelled.splits)
qed

text \<open>The root is propagated already, the decision at level 2 is pending.\<close>

definition example_pending :: solver_state where
  "example_pending = example_state\<lparr>ss_decision_tracker := (ss_decision_tracker example_state)\<lparr>dt_propagate_index := 1\<rparr>\<rparr>"

lemma example_pending_inv: "\<exists>L. solver_inv example_pending L 3" "current example_pending 2"
proof -
  let ?t = "ss_decision_tracker example_state"
  obtain L where L: "prop_inv example_state L 3" using example_state_inv by blast
  have idx: "dt_propagate_index ?t = 0" by (simp add: example_state_def DecisionTracker_default_def)
  have lev: "tracker_level ?t 0 = 1" "tracker_level ?t 1 = 2"
    using example_tracker_ok(3,4) by (simp_all add: example_state_def)
  have t1: "tracker_level (?t\<lparr>dt_propagate_index := x\<rparr>) = tracker_level ?t" for x
    by (simp add: tracker_level_def fun_eq_iff)
  have pend: "example_pending = example_state\<lparr>ss_decision_tracker := ?t\<lparr>dt_propagate_index := dt_propagate_index ?t + 1\<rparr>\<rparr>"
    by (simp add: example_pending_def idx)
  have "prop_inv example_pending L 3"
    by (rule advance_index(1) [OF L example_tracker_ok(2) _ pend]) (simp add: idx example_clauses)
  moreover have "ss_kinds example_pending = [InstallRoot, ForbidMultipleInstances 1 (negative 2) 0]"
    "ss_decide_queue example_pending = DecideQueue_default"
    by (simp_all add: example_pending_def example_clauses)
      (simp_all add: example_state_def example_db_def Let_def SolverState_default_def)
  ultimately show "\<exists>L. solver_inv example_pending L 3"
    using lev by (auto simp: solver_inv_def learnt_ok_def rooted_def name_lists_ok_def DecideQueue_default_def
        example_pending_def example_clauses t1 nth_Cons split: nat.splits)
  have "asserted example_pending = {}"
    by (simp add: asserted_def learnt_units_def example_pending_def example_clauses)
  moreover have "guarded 1 example_pending" "covered example_pending" "full (ss_decision_tracker example_pending) 2"
  proof -
    have ws: "map (map_option wl_watched) (ss_watched_literals example_pending) = [None, Some (negative 1, negative 2)]"
      by code_simp
    have "assigned_value (ss_decision_tracker example_pending) 2 = None" by code_simp
    moreover have "watched_of (ss_watched_literals example_pending) c = (if c = 1 then Some (negative 1, negative 2) else None)" for c
      using arg_cong [OF ws, of length] arg_cong [OF ws, of "\<lambda>xs. xs ! c"]
      by (auto simp: watched_of_def slice_get_def nth_Cons split: nat.splits if_splits)
    moreover have "ss_kinds example_pending = [InstallRoot, ForbidMultipleInstances 1 (negative 2) 0]"
      by (simp add: example_pending_def example_clauses)
    ultimately show "guarded 1 example_pending" "covered example_pending"
      by (auto simp: guarded_def covered_def lit_value_assigned lit_value_negative less_Suc_eq)
    have "i = 1 \<or> i = 2" if "i \<in> {1..2}" for i :: nat using that by auto
    then show "full (ss_decision_tracker example_pending) 2"
      using lev unfolding full_def by (fastforce simp: example_pending_def example_clauses t1)
  qed
  ultimately show "current example_pending 2"
    using lev example_tracker_ok(2,4) by (simp add: current_def example_pending_def example_clauses t1 level_above_def)
qed

theorem propagate_and_learn_ends_witness:
  "\<exists>r calls' s' L'. propagate_and_learn example_params (\<lambda>_. None :: unit option) 0 2 example_pending = Some (r, calls', s') \<and>
    solver_inv s' L' 3"
proof -
  from example_pending_inv(1) obtain L where "solver_inv example_pending L 3" by blast
  from propagate_and_learn_ends [OF this example_pending_inv(2), of example_params "\<lambda>_. None" 0] show ?thesis by fastforce
qed

end
