(* ===== verification/Resolve.thy ===== *)
theory Resolve
  imports Learning
begin

text \<open>
  The decision loop: \<open>decide\<close> and \<open>resolve_dependencies\<close> of \<open>src/solver/mod.rs\<close>. The theory
  composes the work queue, propagation and learning: after every propagation the queue can be
  asked for a decision without a panic, each round moves the search forward, and when no
  decision is left every requirement of an installed package is satisfied. The log messages
  are left out.
\<close>

section \<open>The loop\<close>

definition decide ::
  "solver_params \<Rightarrow> solver_state \<Rightarrow> ((variable_id \<times> variable_id \<times> clause_id) option \<times> solver_state) option" where
  "decide sp s = (case take_sync_floor (ss_decision_tracker s) of (floor, t) \<Rightarrow>
     Option.bind (sync floor (dt_stack t) (dt_map t) (ss_decide_queue s)) (\<lambda>q1.
     Option.bind (next_decision (sp_provider sp) (sp_f32 sp) (dt_map t) (ss_requirement_to_sorted_candidates s)
       (ss_disjunctions s) (activity_get (ss_name_activity s)) (ss_max_activity s) q1) (\<lambda>(decision, q2).
     Some (map_option (\<lambda>d. (qd_candidate d, qd_required_by d, qd_clause_id d)) decision,
       s\<lparr>ss_decision_tracker := t, ss_decide_queue := q2\<rparr>))))"

partial_function (option) resolve_dependencies ::
  "solver_params \<Rightarrow> (nat \<Rightarrow> 'c option) \<Rightarrow> nat \<Rightarrow> level \<Rightarrow> solver_state \<Rightarrow>
    (('c unsolvable_or_cancelled + level) \<times> nat \<times> solver_state) option" where
  "resolve_dependencies sp cancel calls level s =
     Option.bind (decide sp s) (\<lambda>(d, s1). case d of
       None \<Rightarrow> Some (Inr level, calls, s1)
     | Some (candidate, required_by, clause_id) \<Rightarrow>
         Option.bind (set_propagate_learn sp cancel calls level candidate clause_id s1) (\<lambda>(r, calls', s2). case r of
           Inr new_level \<Rightarrow> resolve_dependencies sp cancel calls' new_level s2
         | Inl e \<Rightarrow> Some (Inl e, calls', s2)))"

declare resolve_dependencies.simps [code]

section \<open>No clause is false\<close>

lemma settled_not_falsified:
  assumes inv: "solver_inv s L n" and st: "settled s lv"
  shows "\<not> falsified s c"
proof
  assume "falsified s c"
  then obtain ls where c: "c < length (ss_kinds s)" "lits s (kind_of s c) = Some ls"
    "\<And>l. l \<in> set ls \<Longrightarrow> lit_value (ss_decision_tracker s) l = Some False"
    by (auto simp: falsified_def)
  note db = prop_invD(1) [OF solver_invD(1) [OF inv]]
  show False
  proof (cases "watched_of (ss_watched_literals s) c")
    case None
    with st c(1) have "kind_of s c = InstallRoot \<or> (\<exists>l \<in> asserted s. lits s (kind_of s c) = Some [l])"
      by (simp add: settled_def current_def covered_def)
    with c(2,3) st show False by (auto simp: settled_def lits_def)
  next
    case (Some ab)
    obtain a b where ab: "watched_of (ss_watched_literals s) c = Some (a, b)" using Some by (cases ab) simp
    have "a \<in> set ls \<and> b \<in> set ls" by (rule watched_lits [OF db ab]) (use c(2) in simp)
    then have f: "lit_value (ss_decision_tracker s) a = Some False" "lit_value (ss_decision_tracker s) b = Some False"
      using c(3) by simp_all
    have "guarded (length (dt_stack (ss_decision_tracker s))) s" using st unfolding settled_def current_def by metis
    then show False by (rule guardedD [OF _ ab f]) simp
  qed
qed

section \<open>The tracked clauses\<close>

text \<open>Every clause of the work queue is a requires clause of the database.\<close>

definition tracked_ok :: "solver_state \<Rightarrow> bool" where
  "tracked_ok s \<longleftrightarrow> (\<forall>c \<in> set (dq_clauses (ss_decide_queue s)). tc_clause_id c < length (ss_kinds s) \<and>
     kind_of s (tc_clause_id c) = Requires (tc_parent c) (tc_condition c) (tc_requirement c))"

lemma tracked_ok_grows:
  assumes "tracked_ok s" "grows s s'" "but_hot (ss_decide_queue s') = but_hot (ss_decide_queue s)"
  shows "tracked_ok s'"
  unfolding tracked_ok_def
proof
  fix c'
  assume "c' \<in> set (dq_clauses (ss_decide_queue s'))"
  then have "c'\<lparr>tc_hot := False\<rparr> \<in> set (but_hot (ss_decide_queue s'))" by (simp add: but_hot_def)
  then obtain c where c: "c \<in> set (dq_clauses (ss_decide_queue s))" "c'\<lparr>tc_hot := False\<rparr> = c\<lparr>tc_hot := False\<rparr>"
    unfolding assms(3) by (auto simp: but_hot_def)
  have eq: "tc_clause_id c' = tc_clause_id c" "tc_parent c' = tc_parent c" "tc_condition c' = tc_condition c"
    "tc_requirement c' = tc_requirement c"
    using arg_cong [OF c(2), of tc_clause_id] arg_cong [OF c(2), of tc_parent]
      arg_cong [OF c(2), of tc_condition] arg_cong [OF c(2), of tc_requirement] by simp_all
  from assms(1) c(1) have "tc_clause_id c < length (ss_kinds s)"
    "kind_of s (tc_clause_id c) = Requires (tc_parent c) (tc_condition c) (tc_requirement c)" by (simp_all add: tracked_ok_def)
  with growsD [OF assms(2)] show "tc_clause_id c' < length (ss_kinds s') \<and>
      kind_of s' (tc_clause_id c') = Requires (tc_parent c') (tc_condition c') (tc_requirement c')" by (simp add: eq)
qed

abbreviation state_tracks :: "provider \<Rightarrow> solver_state \<Rightarrow> bool" where
  "state_tracks pv s \<equiv> tracks pv (ss_requirement_to_sorted_candidates s) (ss_disjunctions s) (ss_decide_queue s)
     (ss_decision_tracker s)"

abbreviation values_of :: "solver_state \<Rightarrow> assignment" where
  "values_of s \<equiv> assigned_value (ss_decision_tracker s)"

lemma tracks_wf: "tracks pv rcs djs q t \<Longrightarrow> queue_wf pv rcs djs q"
  by (auto simp: tracks_def queue_inv_def)

text \<open>The literals of a tracked clause.\<close>

lemma tracked_lits:
  assumes "tracked_ok s" "queue_wf pv (ss_requirement_to_sorted_candidates s) (ss_disjunctions s) (ss_decide_queue s)"
    "c \<in> set (dq_clauses (ss_decide_queue s))"
  obtains ds cs where "tc_clause_id c < length (ss_kinds s)"
    "lits s (kind_of s (tc_clause_id c)) = Some (negative (tc_parent c) # ds @ map positive (concat cs))"
    "disjunction_literals (ss_disjunctions s) (tc_condition c) = Some ds"
    "candidates_of (ss_requirement_to_sorted_candidates s) (tc_requirement c) = set (concat cs)"
proof -
  have k: "tc_clause_id c < length (ss_kinds s)"
    "kind_of s (tc_clause_id c) = Requires (tc_parent c) (tc_condition c) (tc_requirement c)"
    using assms(1,3) by (simp_all add: tracked_ok_def)
  from queue_wfD(5) [OF assms(2)] assms(3) obtain e ds where e:
    "dq_requirement_states (ss_decide_queue s) (tc_requirement c) = Some e"
    "disjunction_literals (ss_disjunctions s) (tc_condition c) = Some ds"
    unfolding cache_ok_def by fast
  obtain cs where "ss_requirement_to_sorted_candidates s (tc_requirement c) = Some cs"
    by (rule cache_okE [OF queue_wfD(5) [OF assms(2)] e(1)])
  with k e(2) show thesis by (intro that [of ds cs]) (simp_all add: lits_def candidates_of_def)
qed

lemma lit_value_positive: "variable (positive v) = v" "negate (positive v) = False"
  by (simp_all add: positive_def)

text \<open>So the queue is never asked about a requirement without a candidate left.\<close>

lemma settled_live:
  assumes inv: "solver_inv s L n" and st: "settled s lv" and ok: "tracked_ok s" and tr: "state_tracks pv s"
  shows "live (ss_requirement_to_sorted_candidates s) (ss_disjunctions s) (values_of s) (ss_decide_queue s)"
  unfolding live_def
proof (intro ballI impI, rule ccontr)
  fix c
  assume c: "c \<in> set (dq_clauses (ss_decide_queue s))" and act: "active (ss_disjunctions s) (values_of s) c"
    and no: "\<not> (\<exists>v \<in> candidates_of (ss_requirement_to_sorted_candidates s) (tc_requirement c). values_of s v \<noteq> Some False)"
  obtain ds cs where d: "tc_clause_id c < length (ss_kinds s)"
    "lits s (kind_of s (tc_clause_id c)) = Some (negative (tc_parent c) # ds @ map positive (concat cs))"
    "disjunction_literals (ss_disjunctions s) (tc_condition c) = Some ds"
    "candidates_of (ss_requirement_to_sorted_candidates s) (tc_requirement c) = set (concat cs)"
    by (rule tracked_lits [OF ok tracks_wf [OF tr] c]) (rule that)
  have "lit_value (ss_decision_tracker s) l = Some False" if "l \<in> set (negative (tc_parent c) # ds @ map positive (concat cs))" for l
    using that act d(3) no unfolding d(4)
    by (auto simp: active_def condition_holds_def lit_value_assigned lit_value_positive lit_value_negative negative_def)
  with d(1,2) have "falsified s (tc_clause_id c)" by (auto simp: falsified_def)
  with settled_not_falsified [OF inv st] show False by blast
qed

section \<open>Asking the queue\<close>

text \<open>The bookkeeping fields that change: the floor of the tracker and the queue.\<close>

lemma floor_update [simp]:
  "assigned_value (t\<lparr>dt_sync_floor := x\<rparr>) = assigned_value t"
  "tracker_level (t\<lparr>dt_sync_floor := x\<rparr>) = tracker_level t"
  by (simp_all add: assigned_value_def tracker_level_def fun_eq_iff)

definition asked :: "solver_state \<Rightarrow> decide_queue \<Rightarrow> solver_state" where
  "asked s q = s\<lparr>ss_decision_tracker := (ss_decision_tracker s)
     \<lparr>dt_sync_floor := length (dt_stack (ss_decision_tracker s))\<rparr>, ss_decide_queue := q\<rparr>"

lemma asked_fields [simp]:
  "ss_kinds (asked s q) = ss_kinds s" "lits (asked s q) k = lits s k" "ss_learnt_why (asked s q) = ss_learnt_why s"
  "ss_learnt_clauses (asked s q) = ss_learnt_clauses s" "ss_decide_queue (asked s q) = q"
  "ss_watched_literals (asked s q) = ss_watched_literals s" "asserted (asked s q) = asserted s"
  "ss_disjunctions (asked s q) = ss_disjunctions s" "ss_variable_map (asked s q) = ss_variable_map s"
  "ss_requirement_to_sorted_candidates (asked s q) = ss_requirement_to_sorted_candidates s"
  "dt_stack (ss_decision_tracker (asked s q)) = dt_stack (ss_decision_tracker s)"
  "dt_map (ss_decision_tracker (asked s q)) = dt_map (ss_decision_tracker s)"
  "dt_propagate_index (ss_decision_tracker (asked s q)) = dt_propagate_index (ss_decision_tracker s)"
  "assigned_value (ss_decision_tracker (asked s q)) = assigned_value (ss_decision_tracker s)"
  "tracker_level (ss_decision_tracker (asked s q)) = tracker_level (ss_decision_tracker s)"
  by (simp_all add: asked_def lits_def asserted_def learnt_units_def)

lemma asked_inv:
  assumes "solver_inv s L n" "settled s lv" "name_lists_ok q"
  shows "solver_inv (asked s q) L n" "settled (asked s q) lv" "grows s (asked s q)"
    "models M (asked s q) = models M s" "weight n (ss_decision_tracker (asked s q)) i = weight n (ss_decision_tracker s) i"
proof -
  note p = prop_invD [OF solver_invD(1) [OF assms(1)]]
  show g: "grows s (asked s q)" by (simp add: grows_def)
  have "trail_ok (asked s q)" using p(3) by (simp add: trail_ok_def reason_ok_def first_of_level_def)
  moreover have "bounded (asked s q) n" using p(4) by (simp add: bounded_def)
  moreover have "assertions_ok (asked s q)" using p(5) by (simp add: assertions_ok_def) (simp add: asked_def)
  moreover have "db_inv (asked s q) L" using p(1) by (simp add: db_inv_def) (simp add: asked_def)
  moreover have "tracker_inv (ss_decision_tracker (asked s q))"
    using p(2) by (simp add: tracker_inv_def) (simp add: asked_def)
  moreover have "learnt_ok (asked s q)" using solver_invD(2) [OF assms(1)] by (simp add: learnt_ok_def implied_def clause_holds_def)
  moreover have "rooted (ss_decision_tracker (asked s q))"
    using solver_invD(3) [OF assms(1)] unfolding rooted_def asked_fields .
  ultimately show "solver_inv (asked s q) L n"
    using solver_invD(5) [OF assms(1)] assms(3) by (simp add: solver_inv_def prop_inv_def)
  show "settled (asked s q) lv"
    using assms(2) unfolding settled_def current_def guarded_def covered_def full_def level_above_def asked_fields .
  show "models M (asked s q) = models M s" by (simp add: models_def clause_holds_def)
  show "weight n (ss_decision_tracker (asked s q)) i = weight n (ss_decision_tracker s) i"
    by (induction i) (simp_all add: count_upto_def)
qed

lemma queue_wf_name_lists: "queue_wf pv rcs djs q \<Longrightarrow> name_lists_ok q"
  using queue_wfD(3) [of pv rcs djs q] by (auto simp: name_lists_ok_def occurrences_ok_def occurs_def)

text \<open>
  What \<open>decide\<close> answers: nothing if no clause asks for a candidate, otherwise an undecided
  candidate of a clause that does.
\<close>

definition decision_ok :: "solver_state \<Rightarrow> (variable_id \<times> variable_id \<times> clause_id) option \<Rightarrow> bool" where
  "decision_ok s d \<longleftrightarrow> (case d of
     None \<Rightarrow> \<forall>c \<in> set (dq_clauses (ss_decide_queue s)).
       \<not> eligible (ss_requirement_to_sorted_candidates s) (ss_disjunctions s) (values_of s) c
   | Some (candidate, required_by, clause_id) \<Rightarrow> \<exists>c \<in> set (dq_clauses (ss_decide_queue s)).
       eligible (ss_requirement_to_sorted_candidates s) (ss_disjunctions s) (values_of s) c \<and>
       required_by = tc_parent c \<and> clause_id = tc_clause_id c \<and> values_of s candidate = None \<and>
       candidate \<in> candidates_of (ss_requirement_to_sorted_candidates s) (tc_requirement c))"

lemma decide_spec:
  assumes inv: "solver_inv s L n" and st: "settled s lv" and ok: "tracked_ok s" and tr: "state_tracks (sp_provider sp) s"
  obtains d q where "decide sp s = Some (d, asked s q)" "state_tracks (sp_provider sp) (asked s q)"
    "dq_clauses q = dq_clauses (ss_decide_queue s)" "decision_ok s d" "name_lists_ok q"
proof -
  let ?t = "ss_decision_tracker s" and ?pv = "sp_provider sp" and ?rcs = "ss_requirement_to_sorted_candidates s"
  let ?djs = "ss_disjunctions s" and ?q = "ss_decide_queue s"
  let ?t' = "?t\<lparr>dt_sync_floor := length (dt_stack ?t)\<rparr>"
  let ?next = "next_decision ?pv (sp_f32 sp) (dt_map ?t) ?rcs ?djs (activity_get (ss_name_activity s)) (ss_max_activity s)"
  have ti: "tracker_inv ?t" using prop_invD(2) [OF solver_invD(1) [OF inv]] .
  have tsf: "take_sync_floor ?t = (dt_sync_floor ?t, ?t')" by (simp add: take_sync_floor_def)
  obtain q1 where q1: "sync (dt_sync_floor ?t) (dt_stack ?t) (dt_map ?t) ?q = Some q1"
    "queue_inv ?pv ?rcs ?djs (values_of s) {} q1" "dq_clauses q1 = dq_clauses ?q"
    by (rule tracks_sync [OF tr ti]) (use tsf that in auto)
  have wf1: "queue_wf ?pv ?rcs ?djs q1" using q1(2) by (simp add: queue_inv_def)
  have live: "live ?rcs ?djs (values_of s) q1" using settled_live [OF inv st ok tr] q1(3) by (simp add: live_def)
  let ?all = "contenders ?pv ?rcs ?djs (values_of s) (activity_get (ss_name_activity s)) (sort_key tc_position (dq_clauses q1))"
  obtain r q2 where r: "?next q1 = Some (map_option decision_of r, q2)" "queue_inv ?pv ?rcs ?djs (values_of s) {} q2"
    "dq_clauses q2 = dq_clauses q1" "r = None \<longleftrightarrow> ?all = []" "\<And>b. r = Some b \<Longrightarrow> b \<in> set ?all"
    by (rule next_decision_spec [of ?pv ?rcs ?djs "dt_map ?t" q1 "sp_f32 sp" "activity_get (ss_name_activity s)" "ss_max_activity s",
        unfolded value_assigned, OF q1(2) live]) (rule that)
  let ?d = "map_option (\<lambda>d. (qd_candidate d, qd_required_by d, qd_clause_id d)) (map_option decision_of r)"
  have run: "decide sp s = Some (?d, asked s q2)"
    by (simp add: decide_def tsf q1(1) r(1) asked_def)
  have tr2: "state_tracks ?pv (asked s q2)"
    using tracks_decide [OF tr ti tsf q1(1) live r(1)] by (simp add: asked_def)
  have fr: "clause_frontier ?pv ?rcs ?djs (values_of s) c = None \<longleftrightarrow> \<not> eligible ?rcs ?djs (values_of s) c"
    if "c \<in> set (dq_clauses ?q)" for c
    using clause_frontier_eligible [OF wf1 _ live] that q1(3) by simp
  have "decision_ok s ?d"
  proof (cases r)
    case None
    with r(4) fr q1(3) show ?thesis by (simp add: decision_ok_def contenders_Nil_iff)
  next
    case (Some b)
    from contenders_in [OF r(5) [OF Some]] q1(3) obtain c v vs k where c: "c \<in> set (dq_clauses ?q)"
      "clause_frontier ?pv ?rcs ?djs (values_of s) c = Some (v, vs, k)"
      "b = contender ?pv (activity_get (ss_name_activity s)) c (v, vs, k)"
      by auto
    have "walk_list (values_of s) (walk ?pv ?rcs (tc_requirement c)) None = Inr (Some (v, vs, k))"
      using c(2) by (auto simp: clause_frontier_def split: if_splits sum.splits)
    note w = walk_list_Some(1,2) [OF this]
    obtain e where e: "dq_requirement_states q1 (tc_requirement c) = Some e"
      using queue_wfD(5) [OF wf1] c(1) q1(3) unfolding cache_ok_def by auto
    obtain cs where cs: "?rcs (tc_requirement c) = Some cs"
      "length cs = length (requirement_version_sets ?pv (tc_requirement c))"
      by (rule cache_okE [OF queue_wfD(5) [OF wf1] e])
    have "values_of s v = None \<and> v \<in> candidates_of ?rcs (tc_requirement c)"
      using w walk_variables [of ?rcs "tc_requirement c" cs ?pv, OF cs] by force
    with c fr [OF c(1)] Some show ?thesis by (auto simp: decision_ok_def decision_of_def contender_def)
  qed
  moreover have "name_lists_ok q2" using queue_wf_name_lists r(2) by (auto simp: queue_inv_def)
  ultimately show thesis using run tr2 r(3) q1(3) by (intro that [of ?d q2]) simp_all
qed

section \<open>Taking the decision\<close>

lemma solver_inv_decide:
  assumes inv: "solver_inv s L n" and vl: "valid_level l" and la: "\<forall>e \<in> set (dt_stack (ss_decision_tracker s)).
      tracker_level (ss_decision_tracker s) (d_variable e) < l"
    and d: "assigned_value (ss_decision_tracker s) (d_variable d) = None" "d_variable d < n"
  shows "solver_inv (s\<lparr>ss_decision_tracker := push_decision (ss_decision_tracker s) d l\<rparr>) L n"
proof -
  let ?t = "ss_decision_tracker s"
  let ?s = "s\<lparr>ss_decision_tracker := push_decision ?t d l\<rparr>"
  note p = prop_invD [OF solver_invD(1) [OF inv]]
    and f = prop_frameD [OF prop_frame_update(1) [of s "push_decision ?t d l"]]
  have ext: "extends ?t (push_decision ?t d l)" using extends_push [OF p(2) vl d(1)] .
  have la': "level_above ?t l" using la by (auto simp: level_above_def)
  have "trail_ok ?s" by (rule trail_ok_push [OF p(3,2) vl d(1) disjI2 [OF la] f(3)]) simp
  moreover have "bounded ?s n" using p(4) d(2) by (auto simp: bounded_def f)
  moreover have "db_inv ?s L" using p(1) by (simp add: db_inv_def)
  ultimately have "prop_inv ?s L n"
    using p(5) push_decision_inv [OF p(2) vl la' d(1)] by (simp add: prop_inv_def f)
  then show ?thesis using solver_inv_frame [OF inv prop_frame_update(1)] ext by simp
qed

text \<open>An undecided variable leaves room for another level.\<close>

lemma full_undecided:
  assumes "tracker_inv (ss_decision_tracker s)" "bounded s n" "full (ss_decision_tracker s) lv"
    "assigned_value (ss_decision_tracker s) v = None" "v < n"
  shows "lv + 1 \<le> n"
proof -
  let ?vs = "map d_variable (dt_stack (ss_decision_tracker s))"
  have "set ?vs \<subseteq> {..<n} - {v}"
    using assms(2,4) assigned_value_None_iff [OF assms(1), of v] by (auto simp: bounded_def)
  then have "card (set ?vs) \<le> card ({..<n} - {v})" by (intro card_mono) auto
  moreover have "card (set ?vs) = length ?vs" using tracker_invD(1) [OF assms(1)] by (rule distinct_card)
  ultimately show ?thesis using full_bound [OF assms(3)] assms(5) by simp
qed

lemma decide_push:
  assumes inv: "solver_inv s L n" and st: "settled s lv" and n: "n < 2 ^ 31"
    and d: "assigned_value (ss_decision_tracker s) (d_variable d) = None" "d_variable d < n"
    and s': "s' = s\<lparr>ss_decision_tracker := push_decision (ss_decision_tracker s) d (lv + 1)\<rparr>"
  shows "solver_inv s' L n" "current s' (lv + 1)" "search_on n s s'"
    "weight n (ss_decision_tracker s) n < weight n (ss_decision_tracker s') n" "grows s s'"
proof -
  let ?t = "ss_decision_tracker s"
  let ?t' = "push_decision ?t d (lv + 1)"
  note p = prop_invD [OF solver_invD(1) [OF inv]]
  from st have c: "level_above ?t lv" "full ?t lv" "covered s" "guarded (length (dt_stack ?t)) s"
    "dt_propagate_index ?t = length (dt_stack ?t)" "\<forall>l \<in> asserted s. lit_value ?t l = Some True"
    unfolding settled_def current_def by metis+
  have ln: "lv + 1 \<le> n" using full_undecided [OF p(2,4) c(2) d] .
  have vl: "valid_level (lv + 1)" using ln n by (simp add: valid_level_def)
  have lt: "\<forall>e \<in> set (dt_stack ?t). tracker_level ?t (d_variable e) < lv + 1"
    using c(1) by (auto simp: level_above_def less_Suc_eq_le)
  show inv': "solver_inv s' L n" unfolding s' by (rule solver_inv_decide [OF inv vl lt d])
  have ti': "tracker_inv ?t'" using prop_invD(2) [OF solver_invD(1) [OF inv']] by (simp add: s')
  have ext: "extends ?t ?t'" using extends_push [OF p(2) vl d(1)] .
  have as: "asserted s' = asserted s" unfolding s' by (rule asserted_frame) simp
  have "\<forall>l \<in> asserted s'. lit_value ?t' l = Some True" using c(6) extends_lit_value [OF ext] unfolding as by blast
  moreover have "guarded (length (dt_stack ?t)) s'" unfolding s' by (rule guarded_push [OF p(2) vl d(1) c(4) ti'])
  moreover have "covered s'" using c(3) as by (simp add: covered_def s' lits_def)
  moreover have "full ?t' (lv + 1)" by (rule full_push [OF c(2) vl p(2) d(1)])
  moreover have "level_above ?t' (lv + 1)"
    by (rule level_above_push [OF _ vl]) (use lt in \<open>auto simp: level_above_def\<close>)
  ultimately show "current s' (lv + 1)" using vl c(5) by (simp add: current_def) (simp add: s' c(5))
  have "count_upto ?t j \<le> n" for j
    using count_upto_length [of ?t j] trail_length_bound [OF p(2,4)] by simp
  then have less: "weight n ?t n < weight n ?t' n"
    by (intro weight_less [OF ln]) (auto simp: count_push [OF vl p(2) d(1), simplified])
  then show "weight n ?t n < weight n (ss_decision_tracker s') n" by (simp add: s')
  show "search_on n s s'"
    using less extends_moves [OF ext p(2) ti'] by (simp add: search_on_def s' search_frame_def but_search_def)
  show "grows s s'" by (simp add: grows_def s' lits_def)
qed

section \<open>The loop ends\<close>

text \<open>The states between two rounds.\<close>

definition resolving :: "solver_params \<Rightarrow> nat \<Rightarrow> level \<Rightarrow> solver_state \<Rightarrow> bool" where
  "resolving sp n lv s \<longleftrightarrow> (\<exists>L. solver_inv s L n) \<and> settled s lv \<and> 1 \<le> lv \<and> tracked_ok s \<and>
     state_tracks (sp_provider sp) s"

text \<open>What the loop ends with.\<close>

definition resolved ::
  "solver_state \<Rightarrow> solver_params \<Rightarrow> nat \<Rightarrow> (nat \<Rightarrow> 'c option) \<Rightarrow> ('c unsolvable_or_cancelled + level) \<Rightarrow> nat \<Rightarrow>
    solver_state \<Rightarrow> bool" where
  "resolved s sp n cancel r calls' s' \<longleftrightarrow> refines_db s s' \<and> (\<exists>L. solver_inv s' L n) \<and>
     (case r of
        Inr lv' \<Rightarrow> resolving sp n lv' s' \<and> decision_ok s' None
      | Inl (Unsolvable cf) \<Rightarrow> contradictory s' cf
      | Inl (Cancelled v) \<Rightarrow> cancel (calls' - 1) = Some v)"

lemma tracks_search_on:
  assumes "state_tracks pv s" "tracker_inv (ss_decision_tracker s)" "search_on n s s'"
  shows "state_tracks pv s'" "but_hot (ss_decide_queue s') = but_hot (ss_decide_queue s)"
proof -
  have f: "search_frame s s'" "moves (ss_decision_tracker s) (ss_decision_tracker s')"
    using assms(3) by (simp_all add: search_on_def)
  note fd = search_frameD [OF f(1)]
  have "tracks pv (ss_requirement_to_sorted_candidates s) (ss_disjunctions s) (ss_decide_queue s) (ss_decision_tracker s')"
    by (rule tracks_moves [OF assms(1,2) f(2)])
  from tracks_hotter [OF this fd(14)] show "state_tracks pv s'" "but_hot (ss_decide_queue s') = but_hot (ss_decide_queue s)"
    by (simp_all add: fd)
qed

text \<open>One round of the loop.\<close>

lemma resolve_round:
  assumes inv: "solver_inv s L n" and st: "settled s lv" "1 \<le> lv" and ok: "tracked_ok s"
    and tr: "state_tracks (sp_provider sp) s" and n: "n < 2 ^ 31"
    and d: "decision_ok s (Some (candidate, required_by, clause_id))"
  obtains r calls' s' where
    "set_propagate_learn sp (cancel :: nat \<Rightarrow> 'c option) calls lv candidate clause_id s = Some (r, calls', s')"
    "refines_db s s'" "weight n (ss_decision_tracker s) n < weight n (ss_decision_tracker s') n" "\<exists>L. solver_inv s' L n"
    "case r of
       Inr lv' \<Rightarrow> resolving sp n lv' s'
     | Inl (Unsolvable cf) \<Rightarrow> contradictory s' cf
     | Inl (Cancelled v) \<Rightarrow> cancel (calls' - 1) = Some v"
proof -
  let ?t = "ss_decision_tracker s" and ?d = "Decision_new candidate True clause_id"
  note p = prop_invD [OF solver_invD(1) [OF inv]]
  from d obtain c where c: "c \<in> set (dq_clauses (ss_decide_queue s))" "values_of s candidate = None"
    "candidate \<in> candidates_of (ss_requirement_to_sorted_candidates s) (tc_requirement c)"
    by (auto simp: decision_ok_def)
  obtain ds cs where l: "tc_clause_id c < length (ss_kinds s)"
    "lits s (kind_of s (tc_clause_id c)) = Some (negative (tc_parent c) # ds @ map positive (concat cs))"
    "candidates_of (ss_requirement_to_sorted_candidates s) (tc_requirement c) = set (concat cs)"
    by (rule tracked_lits [OF ok tracks_wf [OF tr] c(1)]) (rule that)
  have "positive candidate \<in> set (negative (tc_parent c) # ds @ map positive (concat cs))" using c(3) l(3) by auto
  with p(4) l(1,2) have "variable (positive candidate) < n" unfolding bounded_def by (meson nth_mem)
  then have dn: "d_variable ?d < n" "values_of s (d_variable ?d) = None" using c(2) by (simp_all add: lit_value_positive)
  define s1 where "s1 = s\<lparr>ss_decision_tracker := push_decision ?t ?d (lv + 1)\<rparr>"
  note one = decide_push [OF inv st(1) n dn(2,1) s1_def]
  obtain r calls' s' where r: "propagate_and_learn sp cancel calls (lv + 1) s1 = Some (r, calls', s')"
    "loop_outcome s1 n cancel calls (lv + 1) r calls' s'"
    using propagate_and_learn_spec [OF one(1,2)] by fastforce
  have run: "set_propagate_learn sp cancel calls lv candidate clause_id s = Some (r, calls', s')"
    using c(2) r(1) by (simp add: set_propagate_learn_def try_add_decision_eq s1_def)
  have on: "search_on n s s'" and less: "weight n ?t n < weight n (ss_decision_tracker s') n"
    using r(2) search_on_trans [OF one(3)] one(4) by (auto simp: loop_outcome_def search_on_def)
  have "refines_db s s1" using refines_db_frame [of s s1] by (simp add: s1_def)
  with r(2) have ref: "refines_db s s'" using refines_db_trans by (auto simp: loop_outcome_def)
  note t = tracks_search_on [OF tr p(2) on]
  have ok': "tracked_ok s'" using tracked_ok_grows [OF ok _ t(2)] ref by (simp add: refines_db_def)
  show thesis
  proof (rule that [OF run ref less])
    show "\<exists>L. solver_inv s' L n" using r(2) by (simp add: loop_outcome_def)
    show "case r of Inr lv' \<Rightarrow> resolving sp n lv' s' | Inl (Unsolvable cf) \<Rightarrow> contradictory s' cf
       | Inl (Cancelled v) \<Rightarrow> cancel (calls' - 1) = Some v"
      using r(2) ok' t(1) by (auto simp: loop_outcome_def resolving_def split: sum.splits unsolvable_or_cancelled.splits)
  qed
qed

lemma resolve_dependencies_eq:
  "decide sp s = Some (d, s1) \<Longrightarrow> resolve_dependencies sp cancel calls lv s = (case d of
     None \<Rightarrow> Some (Inr lv, calls, s1)
   | Some (candidate, required_by, clause_id) \<Rightarrow>
       Option.bind (set_propagate_learn sp cancel calls lv candidate clause_id s1) (\<lambda>(r, calls', s2). case r of
         Inr new_level \<Rightarrow> resolve_dependencies sp cancel calls' new_level s2
       | Inl e \<Rightarrow> Some (Inl e, calls', s2)))"
  by (subst resolve_dependencies.simps) simp

lemma weight_room:
  assumes "solver_inv s L n"
  shows "weight n (ss_decision_tracker s) n < Suc n ^ Suc n"
proof (rule weight_bound)
  fix j
  note p = prop_invD [OF solver_invD(1) [OF assms]]
  show "count_upto (ss_decision_tracker s) j \<le> n"
    using count_upto_length [of _ j] trail_length_bound [OF p(2,4)] by (rule order_trans)
qed

lemma resolve_dependencies_spec:
  assumes "resolving sp n lv s" "n < 2 ^ 31"
  shows "\<exists>r calls' s'. resolve_dependencies sp (cancel :: nat \<Rightarrow> 'c option) calls lv s = Some (r, calls', s') \<and>
    resolved s sp n cancel r calls' s'"
  using assms(1)
proof (induction "Suc n ^ Suc n - weight n (ss_decision_tracker s) n" arbitrary: s lv calls rule: less_induct)
  case less
  then obtain L where inv: "solver_inv s L n" and st: "settled s lv" "1 \<le> lv" and ok: "tracked_ok s"
    and tr: "state_tracks (sp_provider sp) s" by (auto simp: resolving_def)
  obtain d q where d: "decide sp s = Some (d, asked s q)" "state_tracks (sp_provider sp) (asked s q)"
    "dq_clauses q = dq_clauses (ss_decide_queue s)" "decision_ok s d" "name_lists_ok q"
    by (rule decide_spec [OF inv st(1) ok tr])
  let ?s = "asked s q"
  note a = asked_inv [OF inv st(1) d(5)]
  have ok1: "tracked_ok ?s" using ok d(3) by (simp add: tracked_ok_def)
  have d1: "decision_ok ?s d" using d(4) unfolding decision_ok_def asked_fields d(3) .
  have ref: "refines_db s ?s" using a(3,4) by (simp add: refines_db_def)
  note run = resolve_dependencies_eq [OF d(1), of cancel calls lv]
  show ?case
  proof (cases d)
    case None
    with run d1 ok1 a(1,2) st(2) d(2) ref show ?thesis by (auto simp: resolved_def resolving_def)
  next
    case (Some x)
    obtain candidate required_by clause_id where x: "x = (candidate, required_by, clause_id)" by (cases x) auto
    obtain r calls' s' where r: "set_propagate_learn sp cancel calls lv candidate clause_id ?s = Some (r, calls', s')"
      "refines_db ?s s'" "weight n (ss_decision_tracker ?s) n < weight n (ss_decision_tracker s') n" "\<exists>L. solver_inv s' L n"
      "case r of Inr lv' \<Rightarrow> resolving sp n lv' s' | Inl (Unsolvable cf) \<Rightarrow> contradictory s' cf
       | Inl (Cancelled v) \<Rightarrow> cancel (calls' - 1) = Some v"
      by (rule resolve_round [OF a(1,2) st(2) ok1 d(2) assms(2) d1 [unfolded Some x]]) (rule that)
    note ref' = refines_db_trans [OF ref r(2)]
    show ?thesis
    proof (cases r)
      case (Inl e)
      with run Some x r ref' show ?thesis by (auto simp: resolved_def)
    next
      case (Inr lv')
      from r(4) obtain L' where "solver_inv s' L' n" by blast
      from weight_room [OF this] r(3) a(5) [of n]
      have "Suc n ^ Suc n - weight n (ss_decision_tracker s') n < Suc n ^ Suc n - weight n (ss_decision_tracker s) n" by linarith
      from less.hyps [OF this, of lv' calls'] r(5) Inr obtain r2 calls2 s2 where
        fin: "resolve_dependencies sp cancel calls' lv' s' = Some (r2, calls2, s2)" "resolved s' sp n cancel r2 calls2 s2" by auto
      then have "resolved s sp n cancel r2 calls2 s2" using refines_db_trans [OF ref'] by (auto simp: resolved_def)
      with fin(1) run Some x r(1) Inr show ?thesis by auto
    qed
  qed
qed

section \<open>Properties\<close>

text \<open>Property C3. The decision loop always ends, with an answer. From a propagated state whose work
  queue follows the trail, \<open>resolve_dependencies\<close> returns: with a level at which everything is
  propagated, no clause is false, and every requires clause of the queue whose parent variable
  is true and whose condition holds has an installed candidate; or with a conflict whose clauses,
  none of them learnt, cannot be satisfied together with the root; or with the value the provider
  cancelled with. The clause database only gains clauses that exclude no model. The parent
  variable is the root, an installed solvable or the gate of a shared requirement: a gate that
  a backjump left undecided is not covered here but repaired by \<open>force_stuck_gates\<close>, and packages
  not encoded yet have no clauses in the queue.\<close>

theorem resolve_dependencies_ends:
  assumes "resolving sp n lv s" "n < 2 ^ 31"
  shows "\<exists>r calls' s' L'. resolve_dependencies sp (cancel :: nat \<Rightarrow> 'c option) calls lv s = Some (r, calls', s') \<and>
    solver_inv s' L' n \<and> grows s s' \<and> (\<forall>M. models M s \<longrightarrow> models M s') \<and>
    (case r of
       Inr lv' \<Rightarrow> settled s' lv' \<and> (\<forall>c. \<not> falsified s' c) \<and>
         (\<forall>c \<in> set (dq_clauses (ss_decide_queue s')). values_of s' (tc_parent c) = Some True \<longrightarrow>
            condition_holds (ss_disjunctions s') (values_of s') (tc_condition c) \<longrightarrow>
            (\<exists>v \<in> candidates_of (ss_requirement_to_sorted_candidates s') (tc_requirement c). values_of s' v = Some True))
     | Inl (Unsolvable cf) \<Rightarrow> (\<forall>c \<in> set cf. c < length (ss_kinds s') \<and> learnt_id_of (kind_of s' c) = None) \<and>
         \<not> (\<exists>M. M 0 \<and> (\<forall>c \<in> set cf. clause_holds M s' c))
     | Inl (Cancelled v) \<Rightarrow> cancel (calls' - 1) = Some v)"
proof -
  obtain r calls' s' where r: "resolve_dependencies sp cancel calls lv s = Some (r, calls', s')"
    "resolved s sp n cancel r calls' s'"
    using resolve_dependencies_spec [OF assms] by blast
  then obtain L' where L': "solver_inv s' L' n" by (auto simp: resolved_def)
  have "\<not> falsified s' c" if "settled s' lv'" for lv' c using settled_not_falsified [OF L' that] .
  with r L' show ?thesis
    by (auto simp: resolved_def refines_db_def contradictory_def resolving_def decision_ok_def eligible_def active_def
        split: sum.splits unsolvable_or_cancelled.splits)
qed

text \<open>The root requires one of two packages; it is installed and propagated.\<close>

definition example_requires :: solver_state where
  "example_requires =
     (let s1 = snd (add_clause None InstallRoot SolverState_default);
          (w, _, k) = WatchedLiterals_requires 0 (Single 0) [1, 2] None DecisionTracker_default
      in snd (add_clause w k (s1\<lparr>ss_requirement_to_sorted_candidates := example_candidates\<rparr>)))"

definition example_resolve :: solver_state where
  "example_resolve = example_requires\<lparr>ss_decision_tracker := example_installed\<lparr>dt_propagate_index := 1\<rparr>,
     ss_decide_queue := the (register_clause 0 (Single 0) None 1 (names_of example_provider (Single 0)) [] None
       DecideQueue_default)\<rparr>"

definition example_resolve_params :: solver_params where
  "example_resolve_params = \<lparr>sp_provider = example_provider, sp_f32 = pattern_f32, sp_activity_add = 1, sp_activity_decay = 1\<rparr>"

lemma example_resolve_fields:
  "ss_kinds example_resolve = [InstallRoot, Requires 0 None (Single 0)]" "ss_negative_assertions example_resolve = []"
  "ss_learnt_clause_ids example_resolve = []" "ss_learnt_clauses example_resolve = []" "ss_disjunctions example_resolve = []"
  "ss_requirement_to_sorted_candidates example_resolve = example_candidates"
  "ss_decision_tracker example_resolve = example_installed\<lparr>dt_propagate_index := 1\<rparr>"
  "dt_stack example_installed = [Decision_new 0 True 0]"
  "Some (ss_decide_queue example_resolve) =
     register_clause 0 (Single 0) None 1 (names_of example_provider (Single 0)) [] None DecideQueue_default"
proof -
  obtain q where "register_clause 0 (Single 0) None 1 (names_of example_provider (Single 0)) [] None DecideQueue_default = Some q"
    by (rule example_register)
  then show "Some (ss_decide_queue example_resolve) =
      register_clause 0 (Single 0) None 1 (names_of example_provider (Single 0)) [] None DecideQueue_default"
    by (simp add: example_resolve_def Let_def split_beta)
qed (simp_all add: example_resolve_def example_requires_def Let_def split_beta SolverState_default_def WatchedLiterals_requires_def
    Clause_requires_def example_installed_def DecisionTracker_default_def Decision_new_def)

lemma example_resolve_values:
  "assigned_value (ss_decision_tracker example_resolve) v = (if v = 0 then Some True else None)"
  "tracker_level (ss_decision_tracker example_resolve) 0 = 1"
  "tracker_inv (ss_decision_tracker example_resolve)"
proof -
  have v: "valid_level 1" by (simp add: valid_level_def)
  have t: "assigned_value (t\<lparr>dt_propagate_index := x\<rparr>) = assigned_value t"
    "tracker_level (t\<lparr>dt_propagate_index := x\<rparr>) = tracker_level t" for t x
    by (simp_all add: assigned_value_def tracker_level_def fun_eq_iff)
  have none: "assigned_value DecisionTracker_default x = None" for x by (simp add: DecisionTracker_default_def assigned_value_def)
  show "assigned_value (ss_decision_tracker example_resolve) v = (if v = 0 then Some True else None)"
    using v none by (simp add: example_resolve_fields t) (simp add: example_installed_def)
  show "tracker_level (ss_decision_tracker example_resolve) 0 = 1"
    using v by (simp add: example_resolve_fields t) (simp add: example_installed_def)
  have "tracker_inv example_installed"
    unfolding example_installed_def
    by (rule push_decision_inv [OF tracker_inv_default v]) (simp_all add: none, simp add: level_above_def DecisionTracker_default_def)
  then show "tracker_inv (ss_decision_tracker example_resolve)"
    by (simp add: example_resolve_fields tracker_inv_def t)
qed

lemma example_resolve_watched:
  "watched_of (ss_watched_literals example_resolve) c = (if c = 1 then Some (negative 0, positive 1) else None)"
proof -
  have "map (map_option wl_watched) (ss_watched_literals example_requires) = [None, Some (negative 0, positive 1)]"
    by code_simp
  then have ws: "map (map_option wl_watched) (ss_watched_literals example_resolve) = [None, Some (negative 0, positive 1)]"
    by (simp add: example_resolve_def)
  show ?thesis
    using arg_cong [OF ws, of length] arg_cong [OF ws, of "\<lambda>xs. xs ! c"]
    by (auto simp: watched_of_def slice_get_def nth_Cons split: nat.splits if_splits)
qed

lemma example_requires_db: "\<exists>L. db_inv example_requires L"
proof -
  let ?k = "Requires 0 None (Single 0)" and ?w = "\<lparr>wl_watched = (negative 0, positive 1), wl_next = (None, None)\<rparr>"
  let ?s1 = "(snd (add_clause None InstallRoot SolverState_default))\<lparr>ss_requirement_to_sorted_candidates := example_candidates\<rparr>"
  have "WatchedLiterals_requires 0 (Single 0) [1, 2] None DecisionTracker_default = (Some ?w, False, ?k)" by code_simp
  then have eq: "example_requires = snd (add_clause (Some ?w) ?k ?s1)" unfolding example_requires_def Let_def by (simp only: prod.case)
  obtain L1 where "db_inv (snd (add_clause None InstallRoot SolverState_default)) L1"
    using add_clause_inv [OF db_inv_default, of None] by auto
  then have "db_inv ?s1 L1"
    by (auto simp: db_inv_def add_clause_def Clauses_alloc_def SolverState_default_def split: if_splits)
  moreover have "well_watched ?s1 ?k ?w"
    by (auto simp: watches_of_def disjunction_literals_def example_candidates_def negative_def positive_def)
  ultimately show ?thesis unfolding eq by (intro add_clause_inv) auto
qed

lemma example_resolve_tracks: "state_tracks example_provider example_resolve"
proof -
  let ?t = "ss_decision_tracker example_resolve"
  have none: "assigned_value DecisionTracker_default 0 = None" by (simp add: assigned_value_def DecisionTracker_default_def)
  have "tracks example_provider example_candidates [] (ss_decide_queue example_resolve) DecisionTracker_default"
    by (rule tracks_register [OF tracks_default, where parent = 0 and r = "Single 0" and d = None and cid = 1 and cs = "[[1, 2]]"])
      (simp_all only: none example_resolve_fields(9) [symmetric], simp_all add: example_candidates_def)
  moreover have "moves DecisionTracker_default ?t"
    using example_resolve_values(3)
    by (simp add: moves_def example_resolve_fields) (simp add: example_installed_def DecisionTracker_default_def push_decision_def)
  ultimately show ?thesis using tracks_moves [OF _ tracker_inv_default] by (simp add: example_resolve_fields)
qed

lemma example_resolving: "resolving example_resolve_params 3 1 example_resolve"
proof -
  let ?s = example_resolve
  note f = example_resolve_fields and v = example_resolve_values and tr = example_resolve_tracks
  obtain L where "db_inv example_requires L" using example_requires_db by blast
  then have db: "db_inv ?s L" by (simp add: db_inv_def example_resolve_def)
  have lits1: "lits ?s (Requires 0 None (Single 0)) = Some [negative 0, positive 1, positive 2]" "lits ?s InstallRoot = None"
    by (simp_all add: lits_def f disjunction_literals_def example_candidates_def)
  have stack: "dt_stack (ss_decision_tracker ?s) = [Decision_new 0 True 0]"
    "dt_propagate_index (ss_decision_tracker ?s) = 1" by (simp_all add: f)
  have "trail_ok ?s" by (simp add: trail_ok_def stack first_of_level_def)
  moreover have "bounded ?s 3" using lits1 by (auto simp: bounded_def f(1) stack lit_value_positive lit_value_negative)
  ultimately have "prop_inv ?s L 3" using db v(3) by (simp add: prop_inv_def assertions_ok_def f)
  moreover have q: "dq_clauses (ss_decide_queue ?s) = [example_clause]"
    using f(9) by (metis example_register option.inject)
  moreover have "learnt_ok ?s" by (auto simp: learnt_ok_def f nth_Cons split: nat.splits)
  moreover have "rooted (ss_decision_tracker ?s)" using v(2) by (simp add: rooted_def stack)
  ultimately have "solver_inv ?s L 3" using queue_wf_name_lists [OF tracks_wf [OF tr]] by (simp add: solver_inv_def f)
  moreover have "asserted ?s = {}" by (simp add: asserted_def learnt_units_def f)
  moreover have "tracked_ok ?s" by (simp add: tracked_ok_def q example_clause_def f)
  moreover have "guarded 1 ?s"
    by (auto simp: guarded_def example_resolve_watched lit_value_assigned lit_value_positive v)
  moreover have "covered ?s" by (auto simp: covered_def example_resolve_watched f less_Suc_eq)
  moreover have "full (ss_decision_tracker ?s) 1" using v(2) by (auto simp: full_def stack)
  moreover have "level_above (ss_decision_tracker ?s) 1" using v(2) by (simp add: level_above_def stack)
  ultimately show ?thesis
    using tr by (auto simp: resolving_def settled_def current_def stack valid_level_def example_resolve_params_def)
qed

theorem resolve_dependencies_ends_witness:
  "\<exists>r calls' s' L'. resolve_dependencies example_resolve_params (\<lambda>_. None :: unit option) 0 1 example_resolve = Some (r, calls', s') \<and>
    solver_inv s' L' 3"
proof -
  from resolve_dependencies_ends [OF example_resolving, of "\<lambda>_. None" 0] show ?thesis by fastforce
qed

end
