(* ===== verification/Cache.thy ===== *)
theory Cache
  imports Provider Id_Storage "HOL-Library.Multiset"
begin

text \<open>
  The cache of provider answers, \<open>src/solver/cache.rs\<close>. A query is a function on the cache
  whose result is the answer or the value the provider cancelled with; \<open>None\<close> is a panic, or a
  wait that does not end. The queries are asynchronous in the source; here each runs to its end
  before the next starts, and none is abandoned on the way. Theory \<open>Cache_In_Flight\<close> drops this
  for \<open>get_or_cache_candidates\<close>, the only query that waits for another one. The provider is asked
  whether to cancel before every request; the answers are given by the number of the question
  (\<open>sc_calls\<close>). The provider's answers depend on the question alone: a \<open>sort_candidates\<close> that
  queries the cache it is given is not modelled. The theory shows that caching is invisible:
  whatever was asked before, a query that is not cancelled returns what the provider would say.
\<close>

section \<open>The cache\<close>

record cache =
  sc_candidates :: "candidates list"
  sc_package_name_to_candidates :: "name_id \<rightharpoonup> nat"
  sc_package_name_to_candidates_in_flight :: "name_id set"
  sc_version_set_candidates :: "version_set_id \<rightharpoonup> solvable_id list"
  sc_version_set_inverse_candidates :: "version_set_id \<rightharpoonup> solvable_id list"
  sc_requirement_to_sorted_candidates :: "requirement \<rightharpoonup> solvable_id list"
  sc_solvable_dependencies :: "dependencies list"
  sc_solvable_to_dependencies :: "solvable_id \<rightharpoonup> nat"
  sc_hint_dependencies_available :: "solvable_id set"
  sc_calls :: nat

definition SolverCache_new :: cache where
  "SolverCache_new = \<lparr>sc_candidates = [], sc_package_name_to_candidates = Map.empty,
     sc_package_name_to_candidates_in_flight = {},
     sc_version_set_candidates = Map.empty, sc_version_set_inverse_candidates = Map.empty,
     sc_requirement_to_sorted_candidates = Map.empty, sc_solvable_dependencies = [],
     sc_solvable_to_dependencies = Map.empty, sc_hint_dependencies_available = {}, sc_calls = 0\<rparr>"

type_synonym ('c, 'a) query = "cache \<Rightarrow> (('c + 'a) \<times> cache) option"

text \<open>The operator \<open>?\<close> of the source, and \<open>try_join_all\<close>.\<close>

definition and_then :: "('c, 'a) query \<Rightarrow> ('a \<Rightarrow> ('c, 'b) query) \<Rightarrow> ('c, 'b) query" where
  "and_then m f c = Option.bind (m c) (\<lambda>(r, c1). case r of Inl e \<Rightarrow> Some (Inl e, c1) | Inr x \<Rightarrow> f x c1)"

definition answer :: "'a \<Rightarrow> ('c, 'a) query" where
  "answer x c = Some (Inr x, c)"

fun try_join_all :: "('a \<Rightarrow> ('c, 'b) query) \<Rightarrow> 'a list \<Rightarrow> ('c, 'b list) query" where
  "try_join_all f [] = answer []"
| "try_join_all f (x # xs) = and_then (f x) (\<lambda>y. and_then (try_join_all f xs) (\<lambda>ys. answer (y # ys)))"

definition hinted_candidates :: "candidates \<Rightarrow> solvable_id list" where
  "hinted_candidates cs = (case ca_hint_dependencies_available cs of
     Hint_None \<Rightarrow> [] | Hint_All \<Rightarrow> ca_candidates cs | Hint_Some hinted \<Rightarrow> hinted)"

text \<open>
  The pieces of \<open>get_or_cache_candidates\<close> between its suspensions. \<open>begin_candidates\<close> finds the
  candidates stored, is cancelled, finds a request in flight to wait for, or marks the package
  as in flight and asks the provider. \<open>store_candidates\<close> is what follows the answer; \<open>None\<close> is
  the panic of a mark that is gone.
\<close>

datatype candidates_begin = Found nat | Awaiting | Asking

definition begin_candidates :: "(nat \<Rightarrow> 'c option) \<Rightarrow> name_id \<Rightarrow> cache \<Rightarrow> ('c + candidates_begin) \<times> cache" where
  "begin_candidates cancel package_name c = (case sc_package_name_to_candidates c package_name of
     Some candidates_id \<Rightarrow> (Inr (Found candidates_id), c)
   | None \<Rightarrow>
       let c1 = c\<lparr>sc_calls := sc_calls c + 1\<rparr> in
       (case cancel (sc_calls c) of
          Some value \<Rightarrow> (Inl value, c1)
        | None \<Rightarrow>
            if package_name \<in> sc_package_name_to_candidates_in_flight c1 then (Inr Awaiting, c1)
            else (Inr Asking, c1\<lparr>sc_package_name_to_candidates_in_flight :=
              insert package_name (sc_package_name_to_candidates_in_flight c1)\<rparr>)))"

definition store_candidates :: "dependency_provider \<Rightarrow> name_id \<Rightarrow> cache \<Rightarrow> (nat \<times> cache) option" where
  "store_candidates dp package_name c =
     (let cs = (case dp_get_candidates dp package_name of None \<Rightarrow> Candidates_default | Some cs \<Rightarrow> cs);
          candidates_id = length (sc_candidates c);
          c1 = c\<lparr>sc_hint_dependencies_available := sc_hint_dependencies_available c \<union> set (hinted_candidates cs),
                 sc_candidates := sc_candidates c @ [cs],
                 sc_package_name_to_candidates := (sc_package_name_to_candidates c)(package_name \<mapsto> candidates_id)\<rparr>
      in if package_name \<in> sc_package_name_to_candidates_in_flight c1
         then Some (candidates_id, c1\<lparr>sc_package_name_to_candidates_in_flight :=
           sc_package_name_to_candidates_in_flight c1 - {package_name}\<rparr>)
         else None)"

text \<open>
  Run to its end on its own; \<open>None\<close> is a panic, or waiting for a request that nobody will end.
\<close>

definition get_or_cache_candidates ::
  "dependency_provider \<Rightarrow> (nat \<Rightarrow> 'c option) \<Rightarrow> name_id \<Rightarrow> ('c, candidates) query" where
  "get_or_cache_candidates dp cancel package_name c = (case begin_candidates cancel package_name c of
     (Inl value, c1) \<Rightarrow> Some (Inl value, c1)
   | (Inr (Found candidates_id), c1) \<Rightarrow> map_option (\<lambda>cs. (Inr cs, c1)) (slice_get (sc_candidates c1) candidates_id)
   | (Inr Awaiting, c1) \<Rightarrow> None
   | (Inr Asking, c1) \<Rightarrow> Option.bind (store_candidates dp package_name c1) (\<lambda>(candidates_id, c2).
       map_option (\<lambda>cs. (Inr cs, c2)) (slice_get (sc_candidates c2) candidates_id)))"

text \<open>\<open>FrozenMap::insert\<close> keeps an entry that exists.\<close>

definition frozen_insert :: "('k \<rightharpoonup> 'v) \<Rightarrow> 'k \<Rightarrow> 'v \<Rightarrow> ('k \<rightharpoonup> 'v)" where
  "frozen_insert m k v = (case m k of None \<Rightarrow> m(k \<mapsto> v) | Some _ \<Rightarrow> m)"

definition get_or_cache_matching_candidates ::
  "dependency_provider \<Rightarrow> (nat \<Rightarrow> 'c option) \<Rightarrow> version_set_id \<Rightarrow> ('c, solvable_id list) query" where
  "get_or_cache_matching_candidates dp cancel version_set_id c = (case sc_version_set_candidates c version_set_id of
     Some cs \<Rightarrow> Some (Inr cs, c)
   | None \<Rightarrow> and_then (get_or_cache_candidates dp cancel (pv_version_set_name (dp_interner dp) version_set_id))
       (\<lambda>cs c1.
         let m = frozen_insert (sc_version_set_candidates c1) version_set_id
               (dp_filter_candidates dp (ca_candidates cs) version_set_id False)
         in map_option (\<lambda>x. (Inr x, c1\<lparr>sc_version_set_candidates := m\<rparr>)) (m version_set_id)) c)"

definition get_or_cache_non_matching_candidates ::
  "dependency_provider \<Rightarrow> (nat \<Rightarrow> 'c option) \<Rightarrow> version_set_id \<Rightarrow> ('c, solvable_id list) query" where
  "get_or_cache_non_matching_candidates dp cancel version_set_id c =
     (case sc_version_set_inverse_candidates c version_set_id of
        Some cs \<Rightarrow> Some (Inr cs, c)
      | None \<Rightarrow> and_then (get_or_cache_candidates dp cancel (pv_version_set_name (dp_interner dp) version_set_id))
          (\<lambda>cs c1.
            let m = frozen_insert (sc_version_set_inverse_candidates c1) version_set_id
                  (dp_filter_candidates dp (ca_candidates cs) version_set_id True)
            in map_option (\<lambda>x. (Inr x, c1\<lparr>sc_version_set_inverse_candidates := m\<rparr>)) (m version_set_id)) c)"

text \<open>\<open>iter().position(..)\<close> and the rotation of the prefix that ends there by one to the right.\<close>

fun position :: "('a \<Rightarrow> bool) \<Rightarrow> 'a list \<Rightarrow> nat option" where
  "position P [] = None"
| "position P (x # xs) = (if P x then Some 0 else map_option Suc (position P xs))"

definition rotate_prefix :: "nat \<Rightarrow> 'a list \<Rightarrow> 'a list" where
  "rotate_prefix pos xs = (xs ! pos) # take pos xs @ drop (Suc pos) xs"

definition favored_first :: "solvable_id option \<Rightarrow> solvable_id list \<Rightarrow> solvable_id list" where
  "favored_first favored xs = (case favored of
     None \<Rightarrow> xs
   | Some favored_id \<Rightarrow> (case position (\<lambda>s. s = favored_id) xs of
       None \<Rightarrow> xs | Some pos \<Rightarrow> rotate_prefix pos xs))"

definition get_or_cache_sorted_candidates_for_version_set ::
  "dependency_provider \<Rightarrow> (nat \<Rightarrow> 'c option) \<Rightarrow> version_set_id \<Rightarrow> ('c, solvable_id list) query" where
  "get_or_cache_sorted_candidates_for_version_set dp cancel version_set_id c =
     (case sc_requirement_to_sorted_candidates c (Single version_set_id) of
        Some cs \<Rightarrow> Some (Inr cs, c)
      | None \<Rightarrow>
          and_then (get_or_cache_matching_candidates dp cancel version_set_id) (\<lambda>matching_candidates.
          and_then (get_or_cache_candidates dp cancel (pv_version_set_name (dp_interner dp) version_set_id)) (\<lambda>cs c2.
            let sorted_candidates = favored_first (ca_favored cs) (dp_sort_candidates dp matching_candidates);
                m = frozen_insert (sc_requirement_to_sorted_candidates c2) (Single version_set_id) sorted_candidates
            in map_option (\<lambda>x. (Inr x, c2\<lparr>sc_requirement_to_sorted_candidates := m\<rparr>)) (m (Single version_set_id)))) c)"

definition get_or_cache_sorted_candidates ::
  "dependency_provider \<Rightarrow> (nat \<Rightarrow> 'c option) \<Rightarrow> requirement \<Rightarrow> ('c, solvable_id list) query" where
  "get_or_cache_sorted_candidates dp cancel requirement c = (case requirement of
     Single version_set_id \<Rightarrow> get_or_cache_sorted_candidates_for_version_set dp cancel version_set_id c
   | Union version_set_union_id \<Rightarrow> (case sc_requirement_to_sorted_candidates c requirement of
       Some cs \<Rightarrow> Some (Inr cs, c)
     | None \<Rightarrow> and_then (try_join_all (get_or_cache_sorted_candidates_for_version_set dp cancel)
         (pv_version_sets_in_union (dp_interner dp) version_set_union_id)) (\<lambda>lists c1.
           let m = frozen_insert (sc_requirement_to_sorted_candidates c1) requirement (concat lists)
           in map_option (\<lambda>x. (Inr x, c1\<lparr>sc_requirement_to_sorted_candidates := m\<rparr>)) (m requirement)) c))"

definition get_or_cache_dependencies ::
  "dependency_provider \<Rightarrow> (nat \<Rightarrow> 'c option) \<Rightarrow> solvable_id \<Rightarrow> ('c, dependencies) query" where
  "get_or_cache_dependencies dp cancel solvable_id c = (case sc_solvable_to_dependencies c solvable_id of
     Some dependencies_id \<Rightarrow> map_option (\<lambda>d. (Inr d, c)) (slice_get (sc_solvable_dependencies c) dependencies_id)
   | None \<Rightarrow>
       let c1 = c\<lparr>sc_calls := sc_calls c + 1\<rparr> in
       (case cancel (sc_calls c) of
          Some value \<Rightarrow> Some (Inl value, c1)
        | None \<Rightarrow>
            let dependencies_id = length (sc_solvable_dependencies c1);
                c2 = c1\<lparr>sc_solvable_dependencies := sc_solvable_dependencies c1 @ [dp_get_dependencies dp solvable_id],
                       sc_solvable_to_dependencies := (sc_solvable_to_dependencies c1)(solvable_id \<mapsto> dependencies_id)\<rparr>
            in map_option (\<lambda>d. (Inr d, c2)) (slice_get (sc_solvable_dependencies c2) dependencies_id)))"

definition are_dependencies_available_for :: "cache \<Rightarrow> solvable_id \<Rightarrow> bool" where
  "are_dependencies_available_for c solvable =
     (if sc_solvable_to_dependencies c solvable \<noteq> None then True else solvable \<in> sc_hint_dependencies_available c)"

section \<open>What the provider would say\<close>

definition candidates_for :: "dependency_provider \<Rightarrow> name_id \<Rightarrow> candidates" where
  "candidates_for dp name = (case dp_get_candidates dp name of None \<Rightarrow> Candidates_default | Some cs \<Rightarrow> cs)"

abbreviation package_of :: "dependency_provider \<Rightarrow> version_set_id \<Rightarrow> candidates" where
  "package_of dp vs \<equiv> candidates_for dp (pv_version_set_name (dp_interner dp) vs)"

definition matching_for :: "dependency_provider \<Rightarrow> version_set_id \<Rightarrow> solvable_id list" where
  "matching_for dp vs = dp_filter_candidates dp (ca_candidates (package_of dp vs)) vs False"

definition non_matching_for :: "dependency_provider \<Rightarrow> version_set_id \<Rightarrow> solvable_id list" where
  "non_matching_for dp vs = dp_filter_candidates dp (ca_candidates (package_of dp vs)) vs True"

definition sorted_for :: "dependency_provider \<Rightarrow> version_set_id \<Rightarrow> solvable_id list" where
  "sorted_for dp vs = favored_first (ca_favored (package_of dp vs)) (dp_sort_candidates dp (matching_for dp vs))"

definition sorted_for_requirement :: "dependency_provider \<Rightarrow> requirement \<Rightarrow> solvable_id list" where
  "sorted_for_requirement dp r = concat (map (sorted_for dp) (requirement_version_sets (dp_interner dp) r))"

text \<open>Every entry of the cache is what the provider would say, and no request is in flight.\<close>

definition cache_inv :: "dependency_provider \<Rightarrow> cache \<Rightarrow> bool" where
  "cache_inv dp c \<longleftrightarrow>
     (\<forall>n i. sc_package_name_to_candidates c n = Some i \<longrightarrow>
        i < length (sc_candidates c) \<and> sc_candidates c ! i = candidates_for dp n) \<and>
     (\<forall>vs xs. sc_version_set_candidates c vs = Some xs \<longrightarrow> xs = matching_for dp vs) \<and>
     (\<forall>vs xs. sc_version_set_inverse_candidates c vs = Some xs \<longrightarrow> xs = non_matching_for dp vs) \<and>
     (\<forall>r xs. sc_requirement_to_sorted_candidates c r = Some xs \<longrightarrow> xs = sorted_for_requirement dp r) \<and>
     (\<forall>s i. sc_solvable_to_dependencies c s = Some i \<longrightarrow>
        i < length (sc_solvable_dependencies c) \<and> sc_solvable_dependencies c ! i = dp_get_dependencies dp s) \<and>
     sc_hint_dependencies_available c =
       (\<Union>n \<in> dom (sc_package_name_to_candidates c). set (hinted_candidates (candidates_for dp n))) \<and>
     sc_package_name_to_candidates_in_flight c = {}"

lemma cache_invD [inv_dests]:
  assumes "cache_inv dp c"
  shows "sc_requirement_to_sorted_candidates c r = Some xs \<Longrightarrow> xs = sorted_for_requirement dp r"
  using assms by (simp add: cache_inv_def)

lemma cache_inv_new: "cache_inv dp SolverCache_new"
  by (simp add: cache_inv_def SolverCache_new_def)

section \<open>Queries\<close>

text \<open>
  A query has the answer \<open>x\<close>: on every good cache it returns \<open>x\<close> or a value the provider
  cancelled with meanwhile, and leaves a good cache.
\<close>

definition answers :: "(cache \<Rightarrow> bool) \<Rightarrow> (nat \<Rightarrow> 'c option) \<Rightarrow> ('c, 'a) query \<Rightarrow> 'a \<Rightarrow> bool" where
  "answers ok cancel m x \<longleftrightarrow> (\<forall>c. ok c \<longrightarrow> (\<exists>r c'. m c = Some (r, c') \<and> ok c' \<and> sc_calls c \<le> sc_calls c' \<and>
     (case r of Inr y \<Rightarrow> y = x | Inl v \<Rightarrow> \<exists>j \<in> {sc_calls c..<sc_calls c'}. cancel j = Some v)))"

lemma answersE:
  assumes "answers ok cancel m x" "ok c"
  obtains (answer) c' where "m c = Some (Inr x, c')" "ok c'" "sc_calls c \<le> sc_calls c'"
  | (cancelled) v c' j where "m c = Some (Inl v, c')" "ok c'" "sc_calls c \<le> sc_calls c'"
      "j \<in> {sc_calls c..<sc_calls c'}" "cancel j = Some v"
proof -
  from assms obtain r c' where r: "m c = Some (r, c')" "ok c'" "sc_calls c \<le> sc_calls c'"
    "case r of Inr y \<Rightarrow> y = x | Inl v \<Rightarrow> \<exists>j \<in> {sc_calls c..<sc_calls c'}. cancel j = Some v"
    unfolding answers_def by blast
  then show thesis by (cases r) (auto intro: answer cancelled)
qed

lemma answersI:
  assumes "\<And>c. ok c \<Longrightarrow> \<exists>c'. ok c' \<and> sc_calls c \<le> sc_calls c' \<and>
    (m c = Some (Inr x, c') \<or> (\<exists>v j. m c = Some (Inl v, c') \<and> j \<in> {sc_calls c..<sc_calls c'} \<and> cancel j = Some v))"
  shows "answers ok cancel m x"
  unfolding answers_def
proof (intro allI impI)
  fix c
  assume "ok c"
  from assms [OF this] show "\<exists>r c'. m c = Some (r, c') \<and> ok c' \<and> sc_calls c \<le> sc_calls c' \<and>
      (case r of Inr y \<Rightarrow> y = x | Inl v \<Rightarrow> \<exists>j \<in> {sc_calls c..<sc_calls c'}. cancel j = Some v)"
    by (elim exE conjE disjE) auto
qed

lemma answers_answer: "answers ok cancel (answer x) x"
  by (rule answersI) (auto simp: answer_def)

lemma answers_and_then:
  assumes "answers ok cancel m x" "answers ok cancel (f x) y"
  shows "answers ok cancel (and_then m f) y"
proof (rule answersI)
  fix c
  assume "ok c"
  from assms(1) this show "\<exists>c'. ok c' \<and> sc_calls c \<le> sc_calls c' \<and> (and_then m f c = Some (Inr y, c') \<or>
      (\<exists>v j. and_then m f c = Some (Inl v, c') \<and> j \<in> {sc_calls c..<sc_calls c'} \<and> cancel j = Some v))"
  proof (cases rule: answersE)
    case (answer c1)
    from assms(2) answer(2) show ?thesis
    proof (cases rule: answersE)
      case a: (answer c2)
      with answer show ?thesis by (intro exI [of _ c2]) (simp add: and_then_def)
    next
      case b: (cancelled v c2 j)
      with answer have "\<exists>j \<in> {sc_calls c..<sc_calls c2}. cancel j = Some v" by force
      moreover have "and_then m f c = Some (Inl v, c2)" using answer b by (simp add: and_then_def)
      moreover have "sc_calls c \<le> sc_calls c2" using answer b by simp
      ultimately show ?thesis using b(2) by blast
    qed
  next
    case (cancelled v c1 j)
    then show ?thesis by (intro exI [of _ c1]) (auto simp: and_then_def)
  qed
qed

text \<open>A query that looks for its result in one of the tables first, and stores it there.\<close>

lemma answers_memo:
  assumes m: "answers ok cancel m y" and x: "h y = x"
    and get: "\<And>c z. ok c \<Longrightarrow> get c k = Some z \<Longrightarrow> z = x" and ok: "\<And>c. ok c \<Longrightarrow> ok (upd c ((get c)(k \<mapsto> x)))"
    and upd: "\<And>c g. sc_calls (upd c g) = sc_calls c" "\<And>c. upd c (get c) = c"
  shows "answers ok cancel (\<lambda>c. case get c k of Some z \<Rightarrow> Some (Inr z, c)
    | None \<Rightarrow> and_then m (\<lambda>y c1. let g = frozen_insert (get c1) k (h y) in map_option (\<lambda>z. (Inr z, upd c1 g)) (g k)) c) x"
    (is "answers ok cancel ?q x")
proof -
  let ?f = "\<lambda>y c1. let g = frozen_insert (get c1) k (h y) in map_option (\<lambda>z. (Inr z, upd c1 g)) (g k)"
  have f: "answers ok cancel (?f y) x"
  proof (rule answersI)
    fix c
    assume c: "ok c"
    show "\<exists>c'. ok c' \<and> sc_calls c \<le> sc_calls c' \<and> (?f y c = Some (Inr x, c') \<or>
        (\<exists>v j. ?f y c = Some (Inl v, c') \<and> j \<in> {sc_calls c..<sc_calls c'} \<and> cancel j = Some v))"
    proof (cases "get c k")
      case None
      with x ok [OF c] upd show ?thesis
        by (intro exI [of _ "upd c ((get c)(k \<mapsto> x))"]) (simp add: frozen_insert_def Let_def)
    next
      case (Some z)
      with get [OF c] upd c show ?thesis by (intro exI [of _ c]) (simp add: frozen_insert_def Let_def)
    qed
  qed
  have all: "answers ok cancel (and_then m ?f) x" using m f by (rule answers_and_then)
  show ?thesis
  proof (rule answersI)
    fix c
    assume c: "ok c"
    show "\<exists>c'. ok c' \<and> sc_calls c \<le> sc_calls c' \<and> (?q c = Some (Inr x, c') \<or>
        (\<exists>v j. ?q c = Some (Inl v, c') \<and> j \<in> {sc_calls c..<sc_calls c'} \<and> cancel j = Some v))"
    proof (cases "get c k")
      case None
      from all c show ?thesis by (cases rule: answersE) (use None in auto)
    next
      case (Some z)
      with get [OF c] c show ?thesis by auto
    qed
  qed
qed

section \<open>The interface of the cache\<close>

locale query_service =
  fixes ok :: "cache \<Rightarrow> bool" and cancel :: "nat \<Rightarrow> 'c option" and ask :: "'k \<Rightarrow> ('c, 'a) query" and spec :: "'k \<Rightarrow> 'a"
  assumes ask_answers: "answers ok cancel (ask k) (spec k)"
begin

lemma join_answers: "answers ok cancel (try_join_all ask ks) (map spec ks)"
proof (induction ks)
  case Nil
  show ?case by (simp add: answers_answer)
next
  case (Cons k ks)
  have "answers ok cancel (and_then (try_join_all ask ks) (\<lambda>ys. answer (spec k # ys))) (spec k # map spec ks)"
    by (rule answers_and_then [OF Cons answers_answer])
  with ask_answers have "answers ok cancel (and_then (ask k) (\<lambda>y. and_then (try_join_all ask ks) (\<lambda>ys. answer (y # ys))))
      (spec k # map spec ks)" by (rule answers_and_then)
  then show ?case by simp
qed

end

lemma fetch_candidates: "answers (cache_inv dp) cancel (get_or_cache_candidates dp cancel n) (candidates_for dp n)"
proof (rule answersI)
  fix c
  assume c: "cache_inv dp c"
  let ?q = "get_or_cache_candidates dp cancel n"
  show "\<exists>c'. cache_inv dp c' \<and> sc_calls c \<le> sc_calls c' \<and> (?q c = Some (Inr (candidates_for dp n), c') \<or>
      (\<exists>v j. ?q c = Some (Inl v, c') \<and> j \<in> {sc_calls c..<sc_calls c'} \<and> cancel j = Some v))"
  proof (cases "sc_package_name_to_candidates c n")
    case (Some i)
    with c show ?thesis
      by (intro exI [of _ c]) (auto simp: get_or_cache_candidates_def begin_candidates_def cache_inv_def slice_get_def)
  next
    case None
    let ?c1 = "c\<lparr>sc_calls := sc_calls c + 1\<rparr>"
    show ?thesis
    proof (cases "cancel (sc_calls c)")
      case (Some v)
      with None c show ?thesis
        by (intro exI [of _ ?c1]) (auto simp: get_or_cache_candidates_def begin_candidates_def cache_inv_def)
    next
      case False: None
      let ?cs = "candidates_for dp n"
      let ?c2 = "?c1\<lparr>sc_hint_dependencies_available := sc_hint_dependencies_available c \<union> set (hinted_candidates ?cs),
        sc_candidates := sc_candidates c @ [?cs],
        sc_package_name_to_candidates := (sc_package_name_to_candidates c)(n \<mapsto> length (sc_candidates c))\<rparr>"
      have "sc_hint_dependencies_available ?c2 =
          (\<Union>n \<in> dom (sc_package_name_to_candidates ?c2). set (hinted_candidates (candidates_for dp n)))"
        using c by (auto simp: cache_inv_def)
      moreover have "i < length (sc_candidates ?c2) \<and> sc_candidates ?c2 ! i = candidates_for dp m"
        if "sc_package_name_to_candidates ?c2 m = Some i" for m i
        using c that by (fastforce simp: cache_inv_def nth_append split: if_splits)
      ultimately have "cache_inv dp ?c2" using c by (simp add: cache_inv_def)
      moreover have "?q c = Some (Inr ?cs, ?c2)"
        using None False c
        by (simp add: get_or_cache_candidates_def begin_candidates_def store_candidates_def Let_def slice_get_def
          candidates_for_def cache_inv_def)
      ultimately show ?thesis by (intro exI [of _ ?c2]) simp
    qed
  qed
qed

interpretation package: query_service "cache_inv dp" cancel "get_or_cache_candidates dp cancel" "candidates_for dp"
  for dp cancel
  by unfold_locales (rule fetch_candidates)

interpretation matching: query_service "cache_inv dp" cancel "get_or_cache_matching_candidates dp cancel" "matching_for dp"
  for dp cancel
proof unfold_locales
  fix vs
  show "answers (cache_inv dp) cancel (get_or_cache_matching_candidates dp cancel vs) (matching_for dp vs)"
    unfolding get_or_cache_matching_candidates_def [abs_def]
    by (rule answers_memo [OF fetch_candidates, where get = sc_version_set_candidates
          and h = "\<lambda>cs. dp_filter_candidates dp (ca_candidates cs) vs False"
          and upd = "\<lambda>c m. c\<lparr>sc_version_set_candidates := m\<rparr>"])
      (auto simp: matching_for_def cache_inv_def)
qed

interpretation non_matching: query_service "cache_inv dp" cancel "get_or_cache_non_matching_candidates dp cancel"
  "non_matching_for dp" for dp cancel
proof unfold_locales
  fix vs
  show "answers (cache_inv dp) cancel (get_or_cache_non_matching_candidates dp cancel vs) (non_matching_for dp vs)"
    unfolding get_or_cache_non_matching_candidates_def [abs_def]
    by (rule answers_memo [OF fetch_candidates, where get = sc_version_set_inverse_candidates
          and h = "\<lambda>cs. dp_filter_candidates dp (ca_candidates cs) vs True"
          and upd = "\<lambda>c m. c\<lparr>sc_version_set_inverse_candidates := m\<rparr>"])
      (auto simp: non_matching_for_def cache_inv_def)
qed

lemma cache_inv_sorted:
  "cache_inv dp c \<Longrightarrow> cache_inv dp (c\<lparr>sc_requirement_to_sorted_candidates :=
     (sc_requirement_to_sorted_candidates c)(r \<mapsto> sorted_for_requirement dp r)\<rparr>)"
  by (simp add: cache_inv_def)

lemma sorted_for_single: "sorted_for_requirement dp (Single vs) = sorted_for dp vs"
  by (simp add: sorted_for_requirement_def)

interpretation sorted_set: query_service "cache_inv dp" cancel "get_or_cache_sorted_candidates_for_version_set dp cancel"
  "sorted_for dp" for dp cancel
proof unfold_locales
  fix vs
  let ?rest = "\<lambda>xs. and_then (get_or_cache_candidates dp cancel (pv_version_set_name (dp_interner dp) vs)) (\<lambda>cs. answer (xs, cs))"
  have pair: "answers (cache_inv dp) cancel (and_then (get_or_cache_matching_candidates dp cancel vs) ?rest)
      (matching_for dp vs, package_of dp vs)"
    by (rule answers_and_then [OF matching.ask_answers], rule answers_and_then [OF fetch_candidates answers_answer])
  have eq: "get_or_cache_sorted_candidates_for_version_set dp cancel vs =
    (\<lambda>c. case sc_requirement_to_sorted_candidates c (Single vs) of Some z \<Rightarrow> Some (Inr z, c)
    | None \<Rightarrow> and_then (and_then (get_or_cache_matching_candidates dp cancel vs) ?rest)
        (\<lambda>y c1. let g = frozen_insert (sc_requirement_to_sorted_candidates c1) (Single vs)
              (case y of (xs, cs) \<Rightarrow> favored_first (ca_favored cs) (dp_sort_candidates dp xs))
          in map_option (\<lambda>z. (Inr z, c1\<lparr>sc_requirement_to_sorted_candidates := g\<rparr>)) (g (Single vs))) c)"
    by (rule ext) (simp add: get_or_cache_sorted_candidates_for_version_set_def and_then_def answer_def Let_def
        split: option.split bind_splits sum.split prod.split)
  show "answers (cache_inv dp) cancel (get_or_cache_sorted_candidates_for_version_set dp cancel vs) (sorted_for dp vs)"
    unfolding eq
    by (rule answers_memo [OF pair, where get = sc_requirement_to_sorted_candidates
          and upd = "\<lambda>c m. c\<lparr>sc_requirement_to_sorted_candidates := m\<rparr>"])
      (simp_all add: sorted_for_def [symmetric] cache_invD sorted_for_single [symmetric] cache_inv_sorted)
qed

interpretation sorted_requirement: query_service "cache_inv dp" cancel "get_or_cache_sorted_candidates dp cancel"
  "sorted_for_requirement dp" for dp cancel
proof unfold_locales
  fix r
  show "answers (cache_inv dp) cancel (get_or_cache_sorted_candidates dp cancel r) (sorted_for_requirement dp r)"
  proof (cases r)
    case (Single vs)
    then show ?thesis
      using sorted_set.ask_answers [of dp cancel vs]
      by (simp add: get_or_cache_sorted_candidates_def [abs_def] sorted_for_single)
  next
    case (Union u)
    show ?thesis
      unfolding get_or_cache_sorted_candidates_def [abs_def] Union requirement.case
      by (rule answers_memo [OF sorted_set.join_answers, where get = sc_requirement_to_sorted_candidates
            and h = concat and upd = "\<lambda>c m. c\<lparr>sc_requirement_to_sorted_candidates := m\<rparr>"])
        (simp_all add: cache_invD cache_inv_sorted, simp add: sorted_for_requirement_def)
  qed
qed

interpretation dependency: query_service "cache_inv dp" cancel "get_or_cache_dependencies dp cancel"
  "dp_get_dependencies dp" for dp cancel
proof (unfold_locales, rule answersI)
  fix s c
  assume c: "cache_inv dp c"
  let ?q = "get_or_cache_dependencies dp cancel s" and ?c1 = "c\<lparr>sc_calls := sc_calls c + 1\<rparr>"
  let ?d = "dp_get_dependencies dp s"
  let ?c2 = "?c1\<lparr>sc_solvable_dependencies := sc_solvable_dependencies c @ [?d],
    sc_solvable_to_dependencies := (sc_solvable_to_dependencies c)(s \<mapsto> length (sc_solvable_dependencies c))\<rparr>"
  have "i < length (sc_solvable_dependencies ?c2) \<and> sc_solvable_dependencies ?c2 ! i = dp_get_dependencies dp m"
    if "sc_solvable_to_dependencies ?c2 m = Some i" for m i
    using c that by (fastforce simp: cache_inv_def nth_append split: if_splits)
  then have "cache_inv dp ?c2" "cache_inv dp ?c1" using c by (simp_all add: cache_inv_def)
  moreover have "?q c = (case sc_solvable_to_dependencies c s of Some i \<Rightarrow> Some (Inr ?d, c)
      | None \<Rightarrow> (case cancel (sc_calls c) of Some v \<Rightarrow> Some (Inl v, ?c1) | None \<Rightarrow> Some (Inr ?d, ?c2)))"
    using c by (simp add: get_or_cache_dependencies_def Let_def slice_get_def cache_inv_def split: option.split)
  ultimately show "\<exists>c'. cache_inv dp c' \<and> sc_calls c \<le> sc_calls c' \<and> (?q c = Some (Inr ?d, c') \<or>
      (\<exists>v j. ?q c = Some (Inl v, c') \<and> j \<in> {sc_calls c..<sc_calls c'} \<and> cancel j = Some v))"
    using c by (cases "sc_solvable_to_dependencies c s"; cases "cancel (sc_calls c)")
      (auto intro: exI [of _ c] exI [of _ ?c1] exI [of _ ?c2])
qed

section \<open>Favoured candidates\<close>

lemma position_Some: "position P xs = Some i \<Longrightarrow> i < length xs \<and> P (xs ! i)"
  by (induction xs arbitrary: i) (auto split: if_splits)

lemma position_None: "position P xs = None \<longleftrightarrow> (\<forall>x \<in> set xs. \<not> P x)"
  by (induction xs) auto

lemma rotate_prefix_mset: "i < length xs \<Longrightarrow> mset (rotate_prefix i xs) = mset xs"
  unfolding rotate_prefix_def by (metis append_take_drop_id Cons_nth_drop_Suc mset.simps(2) mset_append union_mset_add_mset_right)

lemma favored_first_mset: "mset (favored_first f xs) = mset xs"
  by (simp add: favored_first_def rotate_prefix_mset position_Some split: option.split)

lemma favored_first_hd: "v \<in> set xs \<Longrightarrow> hd (favored_first (Some v) xs) = v"
  using position_None [of "\<lambda>s. s = v" xs] position_Some [of "\<lambda>s. s = v" xs]
  by (auto simp: favored_first_def rotate_prefix_def split: option.split)

section \<open>Properties\<close>

datatype cache_request = Ask_Candidates name_id | Ask_Matching version_set_id | Ask_NonMatching version_set_id
  | Ask_Sorted requirement | Ask_Dependencies solvable_id

fun cache_exec :: "dependency_provider \<Rightarrow> (nat \<Rightarrow> 'c option) \<Rightarrow> cache_request \<Rightarrow> cache \<Rightarrow> cache option" where
  "cache_exec dp cancel (Ask_Candidates n) c = map_option snd (get_or_cache_candidates dp cancel n c)"
| "cache_exec dp cancel (Ask_Matching vs) c = map_option snd (get_or_cache_matching_candidates dp cancel vs c)"
| "cache_exec dp cancel (Ask_NonMatching vs) c = map_option snd (get_or_cache_non_matching_candidates dp cancel vs c)"
| "cache_exec dp cancel (Ask_Sorted r) c = map_option snd (get_or_cache_sorted_candidates dp cancel r c)"
| "cache_exec dp cancel (Ask_Dependencies s) c = map_option snd (get_or_cache_dependencies dp cancel s c)"

fun cache_run :: "dependency_provider \<Rightarrow> (nat \<Rightarrow> 'c option) \<Rightarrow> cache_request list \<Rightarrow> cache \<Rightarrow> cache option" where
  "cache_run dp cancel [] c = Some c"
| "cache_run dp cancel (q # qs) c = Option.bind (cache_exec dp cancel q c) (cache_run dp cancel qs)"

text \<open>The result of a query on a cache: the given answer, or a value the provider cancels with from now on.\<close>

definition says :: "(nat \<Rightarrow> 'c option) \<Rightarrow> cache \<Rightarrow> ('c, 'a) query \<Rightarrow> 'a \<Rightarrow> bool" where
  "says cancel c m x \<longleftrightarrow> (\<exists>r c'. m c = Some (r, c') \<and>
     (case r of Inr y \<Rightarrow> y = x | Inl v \<Rightarrow> \<exists>j \<ge> sc_calls c. cancel j = Some v))"

lemma answers_says:
  assumes "answers ok cancel m x" "ok c"
  shows "says cancel c m x" "\<exists>c'. map_option snd (m c) = Some c' \<and> ok c'"
  using assms by (cases rule: answersE; auto simp: says_def)+

lemma cache_run_inv:
  "cache_inv dp c \<Longrightarrow> \<exists>c'. cache_run dp cancel qs c = Some c' \<and> cache_inv dp c'"
proof (induction qs arbitrary: c)
  case (Cons q qs)
  have "\<exists>c1. cache_exec dp cancel q c = Some c1 \<and> cache_inv dp c1"
    by (cases q) (simp_all only: cache_exec.simps,
      (rule answers_says(2) [where ok = "cache_inv dp", OF _ Cons.prems],
        rule package.ask_answers matching.ask_answers non_matching.ask_answers
          sorted_requirement.ask_answers dependency.ask_answers)+)
  with Cons.IH show ?case by auto
qed simp

text \<open>Property C28. Caching is invisible when queries do not overlap. After any sequence of queries on a
  new cache, each run to its end before the next begins and none abandoned on the way, no query
  has panicked and every query returns what the provider itself would say, unless the provider
  cancels: the candidates of a package, those that match or do not match a version set, the
  matching ones of a requirement sorted version set by version set with the favoured one of
  each first, and the dependencies of a solvable.\<close>

theorem cache_transparent:
  "\<exists>c. cache_run dp cancel qs SolverCache_new = Some c \<and>
    says cancel c (get_or_cache_candidates dp cancel n) (candidates_for dp n) \<and>
    says cancel c (get_or_cache_matching_candidates dp cancel vs) (matching_for dp vs) \<and>
    says cancel c (get_or_cache_non_matching_candidates dp cancel vs) (non_matching_for dp vs) \<and>
    says cancel c (get_or_cache_sorted_candidates dp cancel r) (sorted_for_requirement dp r) \<and>
    says cancel c (get_or_cache_dependencies dp cancel s) (dp_get_dependencies dp s) \<and>
    mset (sorted_for dp vs) = mset (dp_sort_candidates dp (matching_for dp vs)) \<and>
    (\<forall>v. ca_favored (package_of dp vs) = Some v \<and> v \<in> set (dp_sort_candidates dp (matching_for dp vs)) \<longrightarrow>
       hd (sorted_for dp vs) = v)"
proof -
  obtain c where c: "cache_run dp cancel qs SolverCache_new = Some c" "cache_inv dp c"
    using cache_run_inv [OF cache_inv_new] by blast
  note says = answers_says(1) [OF package.ask_answers c(2)] answers_says(1) [OF matching.ask_answers c(2)]
    answers_says(1) [OF non_matching.ask_answers c(2)] answers_says(1) [OF sorted_requirement.ask_answers c(2)]
    answers_says(1) [OF dependency.ask_answers c(2)]
  have "mset (sorted_for dp vs) = mset (dp_sort_candidates dp (matching_for dp vs))"
    by (simp add: sorted_for_def favored_first_mset)
  moreover have "hd (sorted_for dp vs) = v"
    if "ca_favored (package_of dp vs) = Some v" "v \<in> set (dp_sort_candidates dp (matching_for dp vs))" for v
    using that favored_first_hd by (simp add: sorted_for_def)
  ultimately show ?thesis using c(1) says by blast
qed

text \<open>Package 0 has candidates 1, 2 and 3, of which version set 0 matches 1 and 2; 2 is favoured.\<close>

definition example_dependency_provider :: dependency_provider where
  "example_dependency_provider = \<lparr>dp_interner = \<lparr>pv_solvable_name = (\<lambda>_. 0), pv_version_set_name = (\<lambda>_. 0),
       pv_version_sets_in_union = (\<lambda>_. []), pv_resolve_condition = (\<lambda>_. Condition_Requirement 0)\<rparr>,
     dp_filter_candidates = (\<lambda>xs _ inverse. filter (\<lambda>x. (x < 3) \<noteq> inverse) xs),
     dp_get_candidates = (\<lambda>_. Some (Candidates_default\<lparr>ca_candidates := [1, 2, 3], ca_favored := Some 2\<rparr>)),
     dp_sort_candidates = sort, dp_get_dependencies = (\<lambda>_. Known \<lparr>kd_requirements = [], kd_constrains = []\<rparr>)\<rparr>"

theorem cache_transparent_witness:
  "hd (sorted_for example_dependency_provider 0) = 2 \<and> set (sorted_for example_dependency_provider 0) = {1, 2}"
proof -
  have m: "matching_for example_dependency_provider 0 = [1, 2]" "ca_favored (package_of example_dependency_provider 0) = Some 2"
    by (simp_all add: matching_for_def candidates_for_def example_dependency_provider_def)
  have "dp_sort_candidates example_dependency_provider [1, 2] = [1, 2]" by (simp add: example_dependency_provider_def)
  with m cache_transparent [of example_dependency_provider "\<lambda>_. None :: unit option" "[]" 0 0 "Single 0" 0] show ?thesis
    by (auto simp: set_mset_mset [symmetric] simp del: set_mset_mset)
qed

end
