(* ===== verification/Cache_In_Flight.thy ===== *)
theory Cache_In_Flight
  imports Cache
begin

text \<open>
  Overlapping calls of \<open>get_or_cache_candidates\<close>, \<open>src/solver/cache.rs\<close>: the futures that share
  one cache. A call is a value of \<open>fetch\<close>, its point of suspension; a run is a list of events, in
  any order: a call is made, a call is polled, the provider answers a call that asked it, a
  call is dropped. A call that finds its package in flight waits on the event of that request;
  \<open>notify\<close> wakes all calls that wait. Without drops, every call ends with the provider's
  answer; a call dropped while it asks leaves its package in flight for ever.
\<close>

section \<open>Calls and events\<close>

datatype 'c fetch =
    Fetch_Called name_id
  | Fetch_Asking name_id
  | Fetch_Waiting name_id
  | Fetch_Woken name_id
  | Fetch_Done name_id "'c + candidates"
  | Fetch_Dropped name_id

datatype fetch_event = Call name_id | Poll nat | Provider_Answers nat | Drop nat

text \<open>\<open>fs_asked\<close> lists the packages the provider was asked for.\<close>

record 'c fetches =
  fs_cache :: cache
  fs_calls :: "'c fetch list"
  fs_asked :: "name_id list"

definition fetches_new :: "cache \<Rightarrow> 'c fetches" where
  "fetches_new c = \<lparr>fs_cache = c, fs_calls = [], fs_asked = []\<rparr>"

definition wake :: "name_id \<Rightarrow> 'c fetch \<Rightarrow> 'c fetch" where
  "wake n f = (if f = Fetch_Waiting n then Fetch_Woken n else f)"

text \<open>A call ends with what the arena holds at the number it found; \<open>None\<close> is a panic.\<close>

definition end_fetch :: "nat \<Rightarrow> name_id \<Rightarrow> nat \<Rightarrow> 'c fetches \<Rightarrow> 'c fetches option" where
  "end_fetch i n candidates_id s = map_option (\<lambda>cs. s\<lparr>fs_calls := (fs_calls s)[i := Fetch_Done n (Inr cs)]\<rparr>)
     (slice_get (sc_candidates (fs_cache s)) candidates_id)"

definition poll_fetch :: "(nat \<Rightarrow> 'c option) \<Rightarrow> nat \<Rightarrow> 'c fetches \<Rightarrow> 'c fetches option" where
  "poll_fetch cancel i s = (case fs_calls s ! i of
     Fetch_Called n \<Rightarrow> (case begin_candidates cancel n (fs_cache s) of
         (Inl value, c) \<Rightarrow> Some (s\<lparr>fs_cache := c, fs_calls := (fs_calls s)[i := Fetch_Done n (Inl value)]\<rparr>)
       | (Inr (Found candidates_id), c) \<Rightarrow> end_fetch i n candidates_id (s\<lparr>fs_cache := c\<rparr>)
       | (Inr Awaiting, c) \<Rightarrow> Some (s\<lparr>fs_cache := c, fs_calls := (fs_calls s)[i := Fetch_Waiting n]\<rparr>)
       | (Inr Asking, c) \<Rightarrow> Some (s\<lparr>fs_cache := c, fs_calls := (fs_calls s)[i := Fetch_Asking n], fs_asked := fs_asked s @ [n]\<rparr>))
   | Fetch_Woken n \<Rightarrow> Option.bind (sc_package_name_to_candidates (fs_cache s) n) (\<lambda>candidates_id. end_fetch i n candidates_id s)
   | _ \<Rightarrow> Some s)"

definition answer_fetch :: "dependency_provider \<Rightarrow> nat \<Rightarrow> 'c fetches \<Rightarrow> 'c fetches option" where
  "answer_fetch dp i s = (case fs_calls s ! i of
     Fetch_Asking n \<Rightarrow> Option.bind (store_candidates dp n (fs_cache s)) (\<lambda>(candidates_id, c).
       end_fetch i n candidates_id (s\<lparr>fs_cache := c, fs_calls := map (wake n) (fs_calls s)\<rparr>))
   | _ \<Rightarrow> Some s)"

fun fetch_name :: "'c fetch \<Rightarrow> name_id" where
  "fetch_name (Fetch_Called n) = n"
| "fetch_name (Fetch_Asking n) = n"
| "fetch_name (Fetch_Waiting n) = n"
| "fetch_name (Fetch_Woken n) = n"
| "fetch_name (Fetch_Done n _) = n"
| "fetch_name (Fetch_Dropped n) = n"

fun ended :: "'c fetch \<Rightarrow> bool" where
  "ended (Fetch_Done _ _) = True"
| "ended (Fetch_Dropped _) = True"
| "ended _ = False"

definition drop_fetch :: "'c fetch \<Rightarrow> 'c fetch" where
  "drop_fetch f = (if ended f then f else Fetch_Dropped (fetch_name f))"

text \<open>An event that names no call changes nothing.\<close>

fun fetch_step :: "dependency_provider \<Rightarrow> (nat \<Rightarrow> 'c option) \<Rightarrow> fetch_event \<Rightarrow> 'c fetches \<Rightarrow> 'c fetches option" where
  "fetch_step dp cancel (Call n) s = Some (s\<lparr>fs_calls := fs_calls s @ [Fetch_Called n]\<rparr>)"
| "fetch_step dp cancel (Poll i) s = (if i < length (fs_calls s) then poll_fetch cancel i s else Some s)"
| "fetch_step dp cancel (Provider_Answers i) s = (if i < length (fs_calls s) then answer_fetch dp i s else Some s)"
| "fetch_step dp cancel (Drop i) s =
     Some (if i < length (fs_calls s) then s\<lparr>fs_calls := (fs_calls s)[i := drop_fetch (fs_calls s ! i)]\<rparr> else s)"

fun fetch_run :: "dependency_provider \<Rightarrow> (nat \<Rightarrow> 'c option) \<Rightarrow> fetch_event list \<Rightarrow> 'c fetches \<Rightarrow> 'c fetches option" where
  "fetch_run dp cancel [] s = Some s"
| "fetch_run dp cancel (e # es) s = Option.bind (fetch_step dp cancel e s) (fetch_run dp cancel es)"

lemma fetch_run_append:
  "fetch_run dp cancel (es @ es') s = Option.bind (fetch_run dp cancel es s) (fetch_run dp cancel es')"
  by (induction es arbitrary: s) (auto split: Option.bind_splits)

section \<open>The invariant of all runs\<close>

text \<open>
  What holds of one call: a package asked or waited for is in flight; the package of a call
  that was woken is stored; a result is the provider's answer, stored, or a cancellation.
\<close>

fun call_ok :: "dependency_provider \<Rightarrow> (nat \<Rightarrow> 'c option) \<Rightarrow> cache \<Rightarrow> 'c fetch \<Rightarrow> bool" where
  "call_ok dp cancel c (Fetch_Asking n) \<longleftrightarrow> n \<in> sc_package_name_to_candidates_in_flight c"
| "call_ok dp cancel c (Fetch_Waiting n) \<longleftrightarrow> n \<in> sc_package_name_to_candidates_in_flight c"
| "call_ok dp cancel c (Fetch_Woken n) \<longleftrightarrow> n \<in> dom (sc_package_name_to_candidates c)"
| "call_ok dp cancel c (Fetch_Done n (Inr cs)) \<longleftrightarrow> cs = candidates_for dp n \<and> n \<in> dom (sc_package_name_to_candidates c)"
| "call_ok dp cancel c (Fetch_Done n (Inl v)) \<longleftrightarrow> (\<exists>k < sc_calls c. cancel k = Some v)"
| "call_ok dp cancel c _ \<longleftrightarrow> True"

text \<open>The entries of the cache are right; a package is stored or in flight, not both.\<close>

definition stored_ok :: "dependency_provider \<Rightarrow> cache \<Rightarrow> bool" where
  "stored_ok dp c \<longleftrightarrow> cache_inv dp (c\<lparr>sc_package_name_to_candidates_in_flight := {}\<rparr>) \<and>
     dom (sc_package_name_to_candidates c) \<inter> sc_package_name_to_candidates_in_flight c = {}"

definition fetches_inv :: "dependency_provider \<Rightarrow> (nat \<Rightarrow> 'c option) \<Rightarrow> 'c fetches \<Rightarrow> bool" where
  "fetches_inv dp cancel s \<longleftrightarrow> stored_ok dp (fs_cache s) \<and> distinct (fs_asked s) \<and>
     set (fs_asked s) \<subseteq> dom (sc_package_name_to_candidates (fs_cache s)) \<union> sc_package_name_to_candidates_in_flight (fs_cache s) \<and>
     (\<forall>f \<in> set (fs_calls s). call_ok dp cancel (fs_cache s) f) \<and>
     (\<forall>i < length (fs_calls s). \<forall>j < length (fs_calls s). \<forall>n. fs_calls s ! i = Fetch_Asking n \<longrightarrow>
        fs_calls s ! j = Fetch_Asking n \<longrightarrow> i = j)"

lemma fetches_invD:
  assumes "fetches_inv dp cancel s"
  shows "stored_ok dp (fs_cache s)" "distinct (fs_asked s)"
    "set (fs_asked s) \<subseteq> dom (sc_package_name_to_candidates (fs_cache s)) \<union> sc_package_name_to_candidates_in_flight (fs_cache s)"
    "i < length (fs_calls s) \<Longrightarrow> call_ok dp cancel (fs_cache s) (fs_calls s ! i)"
    "i < length (fs_calls s) \<Longrightarrow> j < length (fs_calls s) \<Longrightarrow> fs_calls s ! i = Fetch_Asking n \<Longrightarrow>
        fs_calls s ! j = Fetch_Asking n \<Longrightarrow> i = j"
  using assms by (auto simp: fetches_inv_def)

lemma stored_ok_new: "cache_inv dp c \<Longrightarrow> stored_ok dp c"
  by (simp add: stored_ok_def cache_inv_def)

lemma stored_ok_calls [simp]: "stored_ok dp (c\<lparr>sc_calls := k\<rparr>) = stored_ok dp c"
  by (simp add: stored_ok_def cache_inv_def)

lemma stored_ok_get:
  "stored_ok dp c \<Longrightarrow> sc_package_name_to_candidates c n = Some i \<Longrightarrow> slice_get (sc_candidates c) i = Some (candidates_for dp n)"
  by (simp add: stored_ok_def cache_inv_def slice_get_def)

text \<open>The number a call begins with, and the four outcomes.\<close>

lemma begin_candidates_cases:
  assumes "stored_ok dp c"
  obtains (found) i where "begin_candidates cancel n c = (Inr (Found i), c)" "sc_package_name_to_candidates c n = Some i"
  | (cancelled) v where "begin_candidates cancel n c = (Inl v, c\<lparr>sc_calls := sc_calls c + 1\<rparr>)" "cancel (sc_calls c) = Some v"
  | (awaiting) "begin_candidates cancel n c = (Inr Awaiting, c\<lparr>sc_calls := sc_calls c + 1\<rparr>)"
      "n \<in> sc_package_name_to_candidates_in_flight c"
  | (asking) "begin_candidates cancel n c = (Inr Asking, c\<lparr>sc_calls := sc_calls c + 1,
        sc_package_name_to_candidates_in_flight := insert n (sc_package_name_to_candidates_in_flight c)\<rparr>)"
      "n \<notin> sc_package_name_to_candidates_in_flight c" "sc_package_name_to_candidates c n = None"
proof (cases "sc_package_name_to_candidates c n")
  case (Some i)
  then show thesis by (intro found) (simp_all add: begin_candidates_def)
next
  case stored: None
  show thesis
  proof (cases "cancel (sc_calls c)")
    case (Some v)
    with stored show thesis by (intro cancelled) (simp_all add: begin_candidates_def)
  next
    case None
    with stored show thesis
      by (cases "n \<in> sc_package_name_to_candidates_in_flight c")
        (rule awaiting asking; simp add: begin_candidates_def)+
  qed
qed

lemma store_candidates_effect:
  assumes "stored_ok dp c" "n \<in> sc_package_name_to_candidates_in_flight c"
  obtains i c' where "store_candidates dp n c = Some (i, c')" "stored_ok dp c'" "sc_package_name_to_candidates c' n = Some i"
    "dom (sc_package_name_to_candidates c') = insert n (dom (sc_package_name_to_candidates c))"
    "sc_package_name_to_candidates_in_flight c' = sc_package_name_to_candidates_in_flight c - {n}" "sc_calls c' = sc_calls c"
proof -
  let ?cs = "candidates_for dp n"
  let ?c = "c\<lparr>sc_hint_dependencies_available := sc_hint_dependencies_available c \<union> set (hinted_candidates ?cs),
      sc_candidates := sc_candidates c @ [?cs],
      sc_package_name_to_candidates := (sc_package_name_to_candidates c)(n \<mapsto> length (sc_candidates c)),
      sc_package_name_to_candidates_in_flight := sc_package_name_to_candidates_in_flight c - {n}\<rparr>"
  have c: "cache_inv dp (c\<lparr>sc_package_name_to_candidates_in_flight := {}\<rparr>)" using assms(1) by (simp add: stored_ok_def)
  have "sc_hint_dependencies_available ?c =
      (\<Union>n \<in> dom (sc_package_name_to_candidates ?c). set (hinted_candidates (candidates_for dp n)))"
    using c by (auto simp: cache_inv_def)
  moreover have "i < length (sc_candidates ?c) \<and> sc_candidates ?c ! i = candidates_for dp m"
    if "sc_package_name_to_candidates ?c m = Some i" for m i
    using c that by (fastforce simp: cache_inv_def nth_append split: if_splits)
  ultimately have "cache_inv dp (?c\<lparr>sc_package_name_to_candidates_in_flight := {}\<rparr>)" using c by (simp add: cache_inv_def)
  then have "stored_ok dp ?c" using assms(1) by (auto simp: stored_ok_def)
  moreover have "store_candidates dp n c = Some (length (sc_candidates c), ?c)"
    using assms(2) by (simp add: store_candidates_def candidates_for_def Let_def)
  ultimately show thesis by (intro that [of "length (sc_candidates c)" ?c]) simp_all
qed

section \<open>The invariant is kept, and nothing panics\<close>

lemma call_ok_mono:
  assumes "call_ok dp cancel c f" "dom (sc_package_name_to_candidates c) \<subseteq> dom (sc_package_name_to_candidates c')"
    "sc_package_name_to_candidates_in_flight c \<subseteq> sc_package_name_to_candidates_in_flight c'" "sc_calls c \<le> sc_calls c'"
  shows "call_ok dp cancel c' f"
  using assms by (cases "(dp, cancel, c, f)" rule: call_ok.cases) (auto intro: less_le_trans)

text \<open>Replacing one call, which does not ask or asks for a package no other call asks for.\<close>

lemma fetches_inv_update:
  assumes "fetches_inv dp cancel s" "stored_ok dp c'" "call_ok dp cancel c' f"
    "\<forall>g \<in> set (fs_calls s). call_ok dp cancel c' g"
    "\<forall>n. f = Fetch_Asking n \<longrightarrow> Fetch_Asking n \<notin> set (fs_calls s)"
    "distinct asked'" "set asked' \<subseteq> dom (sc_package_name_to_candidates c') \<union> sc_package_name_to_candidates_in_flight c'"
  shows "fetches_inv dp cancel (s\<lparr>fs_cache := c', fs_calls := (fs_calls s)[i := f], fs_asked := asked'\<rparr>)"
  unfolding fetches_inv_def
proof (simp add: assms(2,6,7), intro conjI allI impI)
  show "\<forall>g \<in> set ((fs_calls s)[i := f]). call_ok dp cancel c' g"
    using assms(3,4) set_update_subset_insert [of "fs_calls s" i f] by blast
  fix j k n
  assume jk: "j < length (fs_calls s)" "k < length (fs_calls s)" "(fs_calls s)[i := f] ! j = Fetch_Asking n"
    "(fs_calls s)[i := f] ! k = Fetch_Asking n"
  have other: "fs_calls s ! l \<noteq> Fetch_Asking n" if "l < length (fs_calls s)" "f = Fetch_Asking n" for l
    using assms(5) that(2) nth_mem [OF that(1)] by metis
  show "j = k"
    using jk other [OF jk(1)] other [OF jk(2)] fetches_invD(5) [OF assms(1) jk(1,2), of n]
    by (cases "i = j"; cases "i = k") auto
qed

text \<open>Polling and answering a call changes that call; an answer also wakes the calls that wait for it.\<close>

lemma end_fetch_stored:
  assumes "stored_ok dp (fs_cache s)" "sc_package_name_to_candidates (fs_cache s) n = Some k"
  shows "end_fetch i n k s = Some (s\<lparr>fs_calls := (fs_calls s)[i := Fetch_Done n (Inr (candidates_for dp n))]\<rparr>)"
  by (simp add: end_fetch_def stored_ok_get [OF assms])

fun fetch_rank :: "'c fetch \<Rightarrow> nat" where
  "fetch_rank (Fetch_Called _) = 3"
| "fetch_rank (Fetch_Waiting _) = 2"
| "fetch_rank (Fetch_Asking _) = 1"
| "fetch_rank (Fetch_Woken _) = 1"
| "fetch_rank _ = 0"

lemma poll_keeps:
  assumes "fetches_inv dp cancel s" "i < length (fs_calls s)"
  obtains s' f where "poll_fetch cancel i s = Some s'" "fetches_inv dp cancel s'" "fs_calls s' = (fs_calls s)[i := f]"
    "fetch_name f = fetch_name (fs_calls s ! i)"
    "sc_package_name_to_candidates (fs_cache s') = sc_package_name_to_candidates (fs_cache s)"
    "sc_package_name_to_candidates_in_flight (fs_cache s') =
      sc_package_name_to_candidates_in_flight (fs_cache s) \<union> {m. f = Fetch_Asking m}"
    "f = fs_calls s ! i \<and> fetch_rank f \<in> {0, 1, 2} \<and> (\<forall>m. f \<noteq> Fetch_Woken m) \<or>
      fetch_rank f < fetch_rank (fs_calls s ! i) \<and> (\<forall>m. fs_calls s ! i \<noteq> Fetch_Asking m \<and> f \<noteq> Fetch_Dropped m \<and>
        (f = Fetch_Asking m \<longrightarrow> m \<notin> sc_package_name_to_candidates_in_flight (fs_cache s)))"
proof -
  let ?u = "\<lambda>c f asked. s\<lparr>fs_cache := c, fs_calls := (fs_calls s)[i := f], fs_asked := asked\<rparr>"
  note d = fetches_invD [OF assms(1)]
  have same: "?u (fs_cache s) f (fs_asked s) = s\<lparr>fs_calls := (fs_calls s)[i := f]\<rparr>" for f by simp
  have calls: "\<forall>g \<in> set (fs_calls s). call_ok dp cancel (fs_cache s) g" using assms(1) by (simp add: fetches_inv_def)
  have update: "fetches_inv dp cancel (?u c f (fs_asked s))"
    if "c = fs_cache s \<or> c = (fs_cache s)\<lparr>sc_calls := sc_calls (fs_cache s) + 1\<rparr>" "call_ok dp cancel c f"
      "\<forall>m. f \<noteq> Fetch_Asking m" for c f
  proof (rule fetches_inv_update [OF assms(1)])
    show "stored_ok dp c" using that(1) d(1) by auto
    show "\<forall>g \<in> set (fs_calls s). call_ok dp cancel c g" using calls that(1) by (auto intro: call_ok_mono)
  qed (use that d in auto)
  show thesis
  proof (cases "fs_calls s ! i")
    case (Fetch_Called n)
    from d(1) show thesis
    proof (cases rule: begin_candidates_cases [where cancel = cancel and n = n])
      case (found k)
      then show thesis
        by (intro that [of "?u (fs_cache s) (Fetch_Done n (Inr (candidates_for dp n))) (fs_asked s)"] update)
          (auto simp: poll_fetch_def Fetch_Called end_fetch_stored [OF d(1)])
    next
      case (cancelled v)
      then show thesis
        by (intro that [of "?u ((fs_cache s)\<lparr>sc_calls := sc_calls (fs_cache s) + 1\<rparr>) (Fetch_Done n (Inl v)) (fs_asked s)"] update)
          (auto simp: poll_fetch_def Fetch_Called)
    next
      case awaiting
      then show thesis
        by (intro that [of "?u ((fs_cache s)\<lparr>sc_calls := sc_calls (fs_cache s) + 1\<rparr>) (Fetch_Waiting n) (fs_asked s)"] update)
          (auto simp: poll_fetch_def Fetch_Called)
    next
      case asking
      let ?c = "(fs_cache s)\<lparr>sc_calls := sc_calls (fs_cache s) + 1,
        sc_package_name_to_candidates_in_flight := insert n (sc_package_name_to_candidates_in_flight (fs_cache s))\<rparr>"
      have "fetches_inv dp cancel (?u ?c (Fetch_Asking n) (fs_asked s @ [n]))"
      proof (rule fetches_inv_update [OF assms(1)])
        show "stored_ok dp ?c" using asking d(1) by (auto simp: stored_ok_def cache_inv_def)
        show "\<forall>g \<in> set (fs_calls s). call_ok dp cancel ?c g" using calls by (auto intro: call_ok_mono)
        show "\<forall>m. Fetch_Asking n = Fetch_Asking m \<longrightarrow> Fetch_Asking m \<notin> set (fs_calls s)" using calls asking(2) by auto
      qed (use asking d(2,3) in auto)
      with asking show thesis
        by (intro that [of "?u ?c (Fetch_Asking n) (fs_asked s @ [n])"]) (auto simp: poll_fetch_def Fetch_Called)
    qed
  next
    case (Fetch_Woken n)
    with d(4) [OF assms(2)] obtain k where "sc_package_name_to_candidates (fs_cache s) n = Some k" by auto
    with Fetch_Woken show thesis
      by (intro that [of "?u (fs_cache s) (Fetch_Done n (Inr (candidates_for dp n))) (fs_asked s)"] update)
        (auto simp: poll_fetch_def end_fetch_stored [OF d(1)])
  qed (use that [of s "fs_calls s ! i"] assms d(4) [OF assms(2)] list_update_id [of "fs_calls s" i] in
      \<open>auto simp: poll_fetch_def\<close>)
qed

lemma answer_keeps:
  assumes "fetches_inv dp cancel s" "i < length (fs_calls s)" "fs_calls s ! i = Fetch_Asking n"
  obtains s' where "answer_fetch dp i s = Some s'" "fetches_inv dp cancel s'"
    "fs_calls s' = (map (wake n) (fs_calls s))[i := Fetch_Done n (Inr (candidates_for dp n))]"
    "sc_package_name_to_candidates_in_flight (fs_cache s') = sc_package_name_to_candidates_in_flight (fs_cache s) - {n}"
    "dom (sc_package_name_to_candidates (fs_cache s')) = insert n (dom (sc_package_name_to_candidates (fs_cache s)))"
proof -
  note d = fetches_invD [OF assms(1)]
  from assms(3) d(4) [OF assms(2)] have "n \<in> sc_package_name_to_candidates_in_flight (fs_cache s)" by simp
  with d(1) obtain k c where c: "store_candidates dp n (fs_cache s) = Some (k, c)" "stored_ok dp c"
    "sc_package_name_to_candidates c n = Some k"
    "dom (sc_package_name_to_candidates c) = insert n (dom (sc_package_name_to_candidates (fs_cache s)))"
    "sc_package_name_to_candidates_in_flight c = sc_package_name_to_candidates_in_flight (fs_cache s) - {n}"
    "sc_calls c = sc_calls (fs_cache s)" by (rule store_candidates_effect)
  let ?calls = "(map (wake n) (fs_calls s))[i := Fetch_Done n (Inr (candidates_for dp n))]"
  let ?s = "s\<lparr>fs_cache := c, fs_calls := ?calls\<rparr>"
  have asks: "fs_calls s ! j = Fetch_Asking m \<and> m \<noteq> n" if "j < length (fs_calls s)" "?calls ! j = Fetch_Asking m" for j m
  proof -
    have "j \<noteq> i" using that by auto
    with that have "fs_calls s ! j = Fetch_Asking m" by (auto simp: wake_def split: if_splits)
    with d(5) [OF assms(2) that(1), of n] assms(3) \<open>j \<noteq> i\<close> show ?thesis by auto
  qed
  have "call_ok dp cancel c (?calls ! j)" if j: "j < length (fs_calls s)" for j
  proof (cases "j = i")
    case False
    show ?thesis
    proof (cases "fs_calls s ! j")
      case (Fetch_Asking m)
      with d(5) [OF assms(2) j, of n] assms(3) False have "m \<noteq> n" by auto
      with Fetch_Asking d(4) [OF j] False j show ?thesis by (simp add: wake_def c(5))
    next
      case (Fetch_Waiting m)
      with d(4) [OF j] False j show ?thesis by (simp add: wake_def c(4,5))
    next
      case (Fetch_Done m r)
      with d(4) [OF j] False j c(4,6) show ?thesis by (cases r) (auto simp: wake_def)
    qed (use d(4) [OF j] False j c(4) in \<open>auto simp: wake_def\<close>)
  qed (use j c(4) in simp)
  then have calls: "\<forall>f \<in> set ?calls. call_ok dp cancel c f" by (auto simp: in_set_conv_nth)
  have "\<forall>j < length ?calls. \<forall>k < length ?calls. \<forall>m. ?calls ! j = Fetch_Asking m \<longrightarrow> ?calls ! k = Fetch_Asking m \<longrightarrow> j = k"
    using asks d(5) by (metis length_list_update length_map)
  with calls c d(2,3) have "fetches_inv dp cancel ?s" unfolding fetches_inv_def by auto
  moreover have "answer_fetch dp i s = Some ?s"
    using assms(3) by (simp add: answer_fetch_def c(1) end_fetch_def stored_ok_get [OF c(2,3)])
  ultimately show thesis using c(4,5) by (intro that [of ?s]) simp_all
qed

lemma fetch_step_keeps:
  assumes "fetches_inv dp cancel s"
  shows "\<exists>s'. fetch_step dp cancel e s = Some s' \<and> fetches_inv dp cancel s'"
proof (cases e)
  case (Call n)
  from assms show ?thesis unfolding Call fetches_inv_def by (auto simp: nth_append)
next
  case (Poll i)
  with poll_keeps [OF assms] assms show ?thesis by (metis fetch_step.simps(2))
next
  case (Provider_Answers i)
  show ?thesis
  proof (cases "i < length (fs_calls s) \<and> (\<exists>n. fs_calls s ! i = Fetch_Asking n)")
    case True
    with answer_keeps [OF assms] Provider_Answers show ?thesis by (metis fetch_step.simps(3))
  next
    case False
    with assms Provider_Answers show ?thesis by (auto simp: answer_fetch_def split: fetch.split)
  qed
next
  case (Drop i)
  have "fetches_inv dp cancel (s\<lparr>fs_cache := fs_cache s, fs_calls := (fs_calls s)[i := drop_fetch (fs_calls s ! i)],
      fs_asked := fs_asked s\<rparr>)" if i: "i < length (fs_calls s)"
  proof (rule fetches_inv_update [OF assms])
    show "call_ok dp cancel (fs_cache s) (drop_fetch (fs_calls s ! i))"
      using fetches_invD(4) [OF assms i] by (auto simp: drop_fetch_def)
    show "\<forall>n. drop_fetch (fs_calls s ! i) = Fetch_Asking n \<longrightarrow> Fetch_Asking n \<notin> set (fs_calls s)"
      by (auto simp: drop_fetch_def)
  qed (use assms in \<open>auto simp: fetches_inv_def\<close>)
  with assms Drop show ?thesis by simp
qed

lemma fetch_run_keeps:
  "fetches_inv dp cancel s \<Longrightarrow> \<exists>s'. fetch_run dp cancel es s = Some s' \<and> fetches_inv dp cancel s'"
proof (induction es arbitrary: s)
  case (Cons e es)
  from fetch_step_keeps [OF Cons.prems, of e] Cons.IH show ?case by fastforce
qed simp

lemma fetches_inv_new: "cache_inv dp c \<Longrightarrow> fetches_inv dp cancel (fetches_new c)"
  by (simp add: fetches_inv_def fetches_new_def stored_ok_new)

section \<open>Requests that nobody abandons\<close>

text \<open>No request was abandoned: whatever is in flight, a call is asking for it.\<close>

definition tended :: "'c fetches \<Rightarrow> bool" where
  "tended s \<longleftrightarrow> (\<forall>n \<in> sc_package_name_to_candidates_in_flight (fs_cache s). Fetch_Asking n \<in> set (fs_calls s))"

definition dropped :: "'c fetch \<Rightarrow> bool" where
  "dropped f \<longleftrightarrow> (\<exists>n. f = Fetch_Dropped n)"

definition live :: "dependency_provider \<Rightarrow> (nat \<Rightarrow> 'c option) \<Rightarrow> 'c fetches \<Rightarrow> bool" where
  "live dp cancel s \<longleftrightarrow> fetches_inv dp cancel s \<and> tended s \<and> (\<forall>f \<in> set (fs_calls s). \<not> dropped f)"

definition total_rank :: "'c fetches \<Rightarrow> nat" where
  "total_rank s = sum_list (map fetch_rank (fs_calls s))"

definition names :: "'c fetches \<Rightarrow> name_id list" where
  "names s = map fetch_name (fs_calls s)"

lemma set_update_mem: "i < length xs \<Longrightarrow> x \<in> set xs \<Longrightarrow> xs ! i \<noteq> x \<Longrightarrow> x \<in> set (xs[i := y])"
  by (metis in_set_conv_nth length_list_update nth_list_update_neq)

lemma sum_list_update: "i < length xs \<Longrightarrow> sum_list (xs[i := y]) + xs ! i = sum_list xs + (y :: nat)"
  by (induction xs arbitrary: i) (auto split: nat.split)

lemma wake_facts [simp]:
  "fetch_name (wake n f) = fetch_name f" "fetch_rank (wake n f) \<le> fetch_rank f" "dropped (wake n f) = dropped f"
  "m \<noteq> n \<Longrightarrow> wake n (Fetch_Asking m) = Fetch_Asking m"
  by (auto simp: wake_def dropped_def)

lemma live_poll:
  assumes "live dp cancel s" "i < length (fs_calls s)"
  obtains s' where "poll_fetch cancel i s = Some s'" "live dp cancel s'" "names s' = names s" "total_rank s' \<le> total_rank s"
    "fetch_rank (fs_calls s ! i) = 3 \<or> (\<exists>n. fs_calls s ! i = Fetch_Woken n) \<Longrightarrow> total_rank s' < total_rank s"
proof -
  have inv: "fetches_inv dp cancel s" using assms(1) by (simp add: live_def)
  obtain s' f where s': "poll_fetch cancel i s = Some s'" "fetches_inv dp cancel s'" "fs_calls s' = (fs_calls s)[i := f]"
    "fetch_name f = fetch_name (fs_calls s ! i)"
    "sc_package_name_to_candidates (fs_cache s') = sc_package_name_to_candidates (fs_cache s)"
    "sc_package_name_to_candidates_in_flight (fs_cache s') =
      sc_package_name_to_candidates_in_flight (fs_cache s) \<union> {m. f = Fetch_Asking m}"
    "f = fs_calls s ! i \<and> fetch_rank f \<in> {0, 1, 2} \<and> (\<forall>m. f \<noteq> Fetch_Woken m) \<or>
      fetch_rank f < fetch_rank (fs_calls s ! i) \<and> (\<forall>m. fs_calls s ! i \<noteq> Fetch_Asking m \<and> f \<noteq> Fetch_Dropped m \<and>
        (f = Fetch_Asking m \<longrightarrow> m \<notin> sc_package_name_to_candidates_in_flight (fs_cache s)))"
    by (rule poll_keeps [OF inv assms(2)])
  have "tended s'" unfolding tended_def
  proof
    fix n
    assume "n \<in> sc_package_name_to_candidates_in_flight (fs_cache s')"
    then consider "f = Fetch_Asking n" | "Fetch_Asking n \<in> set (fs_calls s)"
      using s'(6) assms(1) by (auto simp: live_def tended_def)
    then show "Fetch_Asking n \<in> set (fs_calls s')"
    proof cases
      case 2
      then show ?thesis using s'(3,7) assms(2) set_update_mem [OF assms(2) 2] list_update_id [of "fs_calls s" i]
        by (cases "fs_calls s ! i = Fetch_Asking n") auto
    qed (use s'(3) assms(2) in \<open>simp add: set_update_memI\<close>)
  qed
  moreover have "\<forall>g \<in> set (fs_calls s'). \<not> dropped g"
  proof -
    have "\<not> dropped f" using s'(7) assms nth_mem [OF assms(2)] by (auto simp: live_def dropped_def)
    then show ?thesis using s'(3) assms(1) set_update_subset_insert [of "fs_calls s" i f] by (auto simp: live_def)
  qed
  ultimately have "live dp cancel s'" using s'(2) by (simp add: live_def)
  moreover have "names s' = names s"
    using s'(3,4) assms(2) by (simp add: names_def map_update) (metis list_update_id nth_map)
  moreover have "total_rank s' + fetch_rank (fs_calls s ! i) = total_rank s + fetch_rank f"
    using s'(3) assms(2) sum_list_update [of i "map fetch_rank (fs_calls s)"] by (simp add: total_rank_def map_update)
  ultimately show thesis using s'(1,7) by (intro that [of s']) auto
qed

lemma live_answer:
  assumes "live dp cancel s" "i < length (fs_calls s)" "fs_calls s ! i = Fetch_Asking n"
  obtains s' where "answer_fetch dp i s = Some s'" "live dp cancel s'" "names s' = names s" "total_rank s' < total_rank s"
proof -
  have inv: "fetches_inv dp cancel s" using assms(1) by (simp add: live_def)
  let ?d = "Fetch_Done n (Inr (candidates_for dp n))" and ?calls = "map (wake n) (fs_calls s)"
  obtain s' where s': "answer_fetch dp i s = Some s'" "fetches_inv dp cancel s'" "fs_calls s' = ?calls[i := ?d]"
    "sc_package_name_to_candidates_in_flight (fs_cache s') = sc_package_name_to_candidates_in_flight (fs_cache s) - {n}"
    by (rule answer_keeps [OF inv assms(2,3)])
  have "tended s'" unfolding tended_def
  proof
    fix m
    assume "m \<in> sc_package_name_to_candidates_in_flight (fs_cache s')"
    with s'(4) have m: "m \<noteq> n" "Fetch_Asking m \<in> set (fs_calls s)" using assms(1) by (auto simp: live_def tended_def)
    then have "Fetch_Asking m \<in> set ?calls" by (force simp: image_iff)
    moreover have "?calls ! i \<noteq> Fetch_Asking m" using m(1) assms(2,3) by (simp add: wake_def)
    ultimately show "Fetch_Asking m \<in> set (fs_calls s')" unfolding s'(3) using assms(2) by (simp add: set_update_mem)
  qed
  moreover have "\<forall>g \<in> set (fs_calls s'). \<not> dropped g"
  proof -
    have "\<not> dropped ?d" by (simp add: dropped_def)
    then show ?thesis using assms(1) set_update_subset_insert [of ?calls i ?d] unfolding s'(3) by (auto simp: live_def)
  qed
  ultimately have "live dp cancel s'" using s'(2) by (simp add: live_def)
  moreover have "names s' = names s"
    using assms(2,3) s'(3) by (auto simp: names_def map_update intro!: nth_equalityI simp: nth_list_update)
  moreover have "total_rank s' < total_rank s"
  proof -
    have "total_rank s' + fetch_rank (?calls ! i) = sum_list (map fetch_rank ?calls)"
      using s'(3) assms(2) sum_list_update [of i "map fetch_rank ?calls" 0] by (simp add: total_rank_def map_update del: map_map)
    moreover have "sum_list (map fetch_rank ?calls) \<le> total_rank s"
      unfolding total_rank_def by (simp add: sum_list_mono comp_def)
    ultimately show ?thesis using assms(2,3) by (simp add: wake_def)
  qed
  ultimately show thesis using s'(1) by (intro that)
qed

text \<open>As long as a call has not ended, some poll or answer moves a call on.\<close>

lemma live_progress:
  assumes "live dp cancel s" "\<exists>f \<in> set (fs_calls s). \<not> ended f"
  obtains i e s' where "e \<in> {Poll i, Provider_Answers i}" "fetch_step dp cancel e s = Some s'" "live dp cancel s'"
    "names s' = names s" "total_rank s' < total_rank s"
proof -
  from assms(2) obtain i where i: "i < length (fs_calls s)" "\<not> ended (fs_calls s ! i)" by (auto simp: in_set_conv_nth)
  consider "fetch_rank (fs_calls s ! i) = 3 \<or> (\<exists>n. fs_calls s ! i = Fetch_Woken n)"
    | n where "fs_calls s ! i = Fetch_Asking n" | n where "fs_calls s ! i = Fetch_Waiting n"
    using i(2) by (cases "fs_calls s ! i") auto
  then show thesis
  proof cases
    case 1
    with live_poll [OF assms(1) i(1)] i(1) show thesis by (metis that fetch_step.simps(2) insertI1)
  next
    case 2
    with live_answer [OF assms(1) i(1) 2] i(1) show thesis by (metis that fetch_step.simps(3) insert_iff)
  next
    case 3
    then have "n \<in> sc_package_name_to_candidates_in_flight (fs_cache s)"
      using fetches_invD(4) [of dp cancel s i] assms(1) i(1) by (simp add: live_def)
    then obtain j where j: "j < length (fs_calls s)" "fs_calls s ! j = Fetch_Asking n"
      using assms(1) by (auto simp: live_def tended_def in_set_conv_nth)
    with live_answer [OF assms(1) j] show thesis by (metis that fetch_step.simps(3) insert_iff)
  qed
qed

lemma live_completes:
  assumes "live dp cancel s"
  shows "\<exists>es s'. set es \<subseteq> range Poll \<union> range Provider_Answers \<and> length es \<le> total_rank s \<and>
    fetch_run dp cancel es s = Some s' \<and> live dp cancel s' \<and> names s' = names s \<and> (\<forall>f \<in> set (fs_calls s'). ended f)"
  using assms
proof (induction "total_rank s" arbitrary: s rule: less_induct)
  case less
  show ?case
  proof (cases "\<exists>f \<in> set (fs_calls s). \<not> ended f")
    case True
    from live_progress [OF less.prems True] obtain i e s1 where s1: "e \<in> {Poll i, Provider_Answers i}"
      "fetch_step dp cancel e s = Some s1" "live dp cancel s1" "names s1 = names s" "total_rank s1 < total_rank s" .
    from less.hyps [OF s1(5,3)] obtain es s' where es: "set es \<subseteq> range Poll \<union> range Provider_Answers"
      "length es \<le> total_rank s1" "fetch_run dp cancel es s1 = Some s'" "live dp cancel s'" "names s' = names s1"
      "\<forall>f \<in> set (fs_calls s'). ended f" by blast
    with s1 show ?thesis by (intro exI [of _ "e # es"] exI [of _ s']) auto
  next
    case False
    with less.prems show ?thesis by (intro exI [of _ "[]"] exI [of _ s]) auto
  qed
qed

lemma live_step:
  assumes "live dp cancel s" "\<forall>i. e \<noteq> Drop i" "fetch_step dp cancel e s = Some s'"
  shows "live dp cancel s'"
proof (cases e)
  case (Call n)
  with assms fetch_step_keeps [of dp cancel s e] show ?thesis by (auto simp: live_def tended_def dropped_def)
next
  case (Poll i)
  with assms live_poll [OF assms(1), of i] show ?thesis by (metis fetch_step.simps(2) option.inject)
next
  case (Provider_Answers i)
  show ?thesis
  proof (cases "i < length (fs_calls s) \<and> (\<exists>n. fs_calls s ! i = Fetch_Asking n)")
    case True
    with assms(1,3) live_answer [OF assms(1)] Provider_Answers show ?thesis by (metis fetch_step.simps(3) option.inject)
  next
    case False
    with assms Provider_Answers show ?thesis by (auto simp: answer_fetch_def split: fetch.splits if_splits)
  qed
qed (use assms(2) in simp)

lemma live_run:
  "live dp cancel s \<Longrightarrow> \<forall>i. Drop i \<notin> set es \<Longrightarrow> fetch_run dp cancel es s = Some s' \<Longrightarrow> live dp cancel s'"
proof (induction es arbitrary: s)
  case (Cons e es)
  then obtain s1 where "fetch_step dp cancel e s = Some s1" "fetch_run dp cancel es s1 = Some s'"
    by (auto split: Option.bind_splits)
  with Cons live_step [OF Cons.prems(1), of e s1] show ?case by (metis list.set_intros)
qed simp

lemma live_new: "cache_inv dp c \<Longrightarrow> live dp cancel (fetches_new c)"
  by (simp add: live_def fetches_inv_new) (simp add: fetches_new_def tended_def cache_inv_def)

section \<open>Requests that are abandoned\<close>

text \<open>A package in flight for which no call asks: the mark stays, and nothing is ever stored.\<close>

definition stranded :: "name_id \<Rightarrow> 'c fetches \<Rightarrow> bool" where
  "stranded n s \<longleftrightarrow> n \<in> sc_package_name_to_candidates_in_flight (fs_cache s) \<and> Fetch_Asking n \<notin> set (fs_calls s)"

lemma stranded_step:
  assumes "fetches_inv dp cancel s" "stranded n s" "fetch_step dp cancel e s = Some s'"
  shows "stranded n s'"
proof (cases e)
  case (Call m)
  with assms(2,3) show ?thesis by (auto simp: stranded_def)
next
  case (Poll i)
  show ?thesis
  proof (cases "i < length (fs_calls s)")
    case True
    obtain s1 f where s1: "poll_fetch cancel i s = Some s1" "fs_calls s1 = (fs_calls s)[i := f]"
      "sc_package_name_to_candidates_in_flight (fs_cache s1) =
        sc_package_name_to_candidates_in_flight (fs_cache s) \<union> {m. f = Fetch_Asking m}"
      "f = fs_calls s ! i \<or> f \<noteq> Fetch_Asking n"
      by (rule poll_keeps [OF assms(1) True]) (use assms(2) in \<open>auto simp: stranded_def\<close>)
    then have "f \<noteq> Fetch_Asking n" using assms(2) nth_mem [OF True] by (auto simp: stranded_def)
    with s1 True Poll assms(2,3) set_update_subset_insert [of "fs_calls s" i f] show ?thesis by (auto simp: stranded_def)
  qed (use Poll assms in simp)
next
  case (Provider_Answers i)
  show ?thesis
  proof (cases "i < length (fs_calls s) \<and> (\<exists>m. fs_calls s ! i = Fetch_Asking m)")
    case True
    then obtain m where m: "i < length (fs_calls s)" "fs_calls s ! i = Fetch_Asking m" by blast
    with assms(2) nth_mem [OF m(1)] have "m \<noteq> n" by (auto simp: stranded_def)
    let ?calls = "map (wake m) (fs_calls s)" and ?d = "Fetch_Done m (Inr (candidates_for dp m))"
    obtain s1 where s1: "answer_fetch dp i s = Some s1" "fs_calls s1 = ?calls[i := ?d]"
      "sc_package_name_to_candidates_in_flight (fs_cache s1) = sc_package_name_to_candidates_in_flight (fs_cache s) - {m}"
      by (rule answer_keeps [OF assms(1) m])
    have "Fetch_Asking n \<notin> set ?calls" using assms(2) by (auto simp: stranded_def wake_def split: if_splits)
    with s1 m(1) \<open>m \<noteq> n\<close> Provider_Answers assms(2,3) set_update_subset_insert [of ?calls i ?d] show ?thesis
      by (auto simp: stranded_def)
  next
    case False
    with assms Provider_Answers show ?thesis by (auto simp: answer_fetch_def split: fetch.splits if_splits)
  qed
next
  case (Drop i)
  with assms(2,3) set_update_subset_insert [of "fs_calls s" i "drop_fetch (fs_calls s ! i)"] nth_mem [of i "fs_calls s"]
  show ?thesis by (auto simp: stranded_def drop_fetch_def split: if_splits)
qed

lemma stranded_run:
  "fetches_inv dp cancel s \<Longrightarrow> stranded n s \<Longrightarrow> fetch_run dp cancel es s = Some s' \<Longrightarrow> fetches_inv dp cancel s' \<and> stranded n s'"
proof (induction es arbitrary: s)
  case (Cons e es)
  then obtain s1 where "fetch_step dp cancel e s = Some s1" "fetch_run dp cancel es s1 = Some s'"
    by (auto split: Option.bind_splits)
  with Cons.IH [of s1] Cons.prems(1,2) stranded_step [of dp cancel s n e s1] fetch_step_keeps [of dp cancel s e]
  show ?case by auto
qed simp

lemma stranded_unanswered:
  assumes "fetches_inv dp cancel s" "stranded n s" "j < length (fs_calls s)"
  shows "fs_calls s ! j \<noteq> Fetch_Done n (Inr cs)"
proof
  assume "fs_calls s ! j = Fetch_Done n (Inr cs)"
  with fetches_invD(4) [OF assms(1,3)] have "n \<in> dom (sc_package_name_to_candidates (fs_cache s))" by simp
  with fetches_invD(1) [OF assms(1)] assms(2) show False by (auto simp only: stored_ok_def stranded_def)
qed

lemma drop_strands:
  assumes "fetches_inv dp cancel s" "i < length (fs_calls s)" "fs_calls s ! i = Fetch_Asking n"
    "fetch_step dp cancel (Drop i) s = Some s'"
  shows "stranded n s'"
proof -
  have "Fetch_Asking n \<notin> set ((fs_calls s)[i := Fetch_Dropped n])"
  proof
    assume "Fetch_Asking n \<in> set ((fs_calls s)[i := Fetch_Dropped n])"
    then obtain j where "j < length (fs_calls s)" "(fs_calls s)[i := Fetch_Dropped n] ! j = Fetch_Asking n"
      by (auto simp: in_set_conv_nth)
    with fetches_invD(5) [OF assms(1) assms(2), of j n] assms(2,3) show False by (cases "i = j") auto
  qed
  moreover have "n \<in> sc_package_name_to_candidates_in_flight (fs_cache s)"
    using fetches_invD(4) [OF assms(1,2)] assms(3) by simp
  ultimately show ?thesis using assms(2-4) by (auto simp: stranded_def drop_fetch_def)
qed

section \<open>Properties\<close>

text \<open>A call made, polled and answered with no other call around is \<open>get_or_cache_candidates\<close>.\<close>

lemma lone_call_is_query:
  assumes "cache_inv dp c"
  shows "\<exists>s. fetch_run dp cancel [Call n, Poll 0, Provider_Answers 0] (fetches_new c) = Some s \<and>
    (\<exists>r. fs_calls s = [Fetch_Done n r] \<and> get_or_cache_candidates dp cancel n c = Some (r, fs_cache s))"
proof -
  have ok: "stored_ok dp c" "sc_package_name_to_candidates_in_flight c = {}"
    using assms by (simp_all add: stored_ok_new cache_inv_def)
  from ok(1) show ?thesis
  proof (cases rule: begin_candidates_cases [where cancel = cancel and n = n, consumes 1])
    case (found i)
    then show ?thesis
      by (simp add: fetches_new_def poll_fetch_def answer_fetch_def get_or_cache_candidates_def end_fetch_def
        stored_ok_get [OF ok(1)])
  next
    case asking
    let ?c = "c\<lparr>sc_calls := sc_calls c + 1,
        sc_package_name_to_candidates_in_flight := insert n (sc_package_name_to_candidates_in_flight c)\<rparr>"
    have "stored_ok dp ?c" using asking ok(1) by (auto simp: stored_ok_def cache_inv_def)
    then obtain k c' where "store_candidates dp n ?c = Some (k, c')" "stored_ok dp c'" "sc_package_name_to_candidates c' n = Some k"
      by (rule store_candidates_effect [where n = n]) simp
    with asking show ?thesis
      by (simp add: fetches_new_def poll_fetch_def answer_fetch_def get_or_cache_candidates_def end_fetch_def stored_ok_get)
  qed (use ok(2) in \<open>simp_all add: fetches_new_def poll_fetch_def answer_fetch_def get_or_cache_candidates_def\<close>)
qed

text \<open>Property C34. Overlapping queries for candidates share one request. However calls, polls, answers
  of the provider and drops of calls interleave on a new cache, nothing panics, the provider is
  asked at most once for each package, and a call that ended has the provider's answer or was
  cancelled. When no call was dropped, at most three further polls and answers per call make
  every call end, so none waits for ever.\<close>

theorem overlapping_fetches_share:
  "\<exists>s. fetch_run dp cancel es (fetches_new SolverCache_new) = Some s \<and> distinct (fs_asked s) \<and>
    (\<forall>n r. Fetch_Done n r \<in> set (fs_calls s) \<longrightarrow>
       (case r of Inr cs \<Rightarrow> cs = candidates_for dp n | Inl v \<Rightarrow> \<exists>k. cancel k = Some v)) \<and>
    ((\<forall>i. Drop i \<notin> set es) \<longrightarrow>
       (\<exists>es' s'. set es' \<subseteq> range Poll \<union> range Provider_Answers \<and> length es' \<le> 3 * length (fs_calls s) \<and>
          fetch_run dp cancel es' s = Some s' \<and> map fetch_name (fs_calls s') = map fetch_name (fs_calls s) \<and>
          (\<forall>f \<in> set (fs_calls s'). \<exists>r. f = Fetch_Done (fetch_name f) r \<and>
             (case r of Inr cs \<Rightarrow> cs = candidates_for dp (fetch_name f) | Inl v \<Rightarrow> \<exists>k. cancel k = Some v))))"
proof -
  have results: "case r of Inr cs \<Rightarrow> cs = candidates_for dp n | Inl v \<Rightarrow> \<exists>k. cancel k = Some v"
    if "fetches_inv dp cancel s" "Fetch_Done n r \<in> set (fs_calls s)" for s :: "'a fetches" and n r
    using that unfolding fetches_inv_def by (cases r) fastforce+
  have start: "live dp cancel (fetches_new SolverCache_new)" by (rule live_new [OF cache_inv_new])
  then obtain s where s: "fetch_run dp cancel es (fetches_new SolverCache_new) = Some s" "fetches_inv dp cancel s"
    using fetch_run_keeps unfolding live_def by blast
  have rank: "total_rank s \<le> 3 * length (fs_calls s)"
  proof -
    have "fetch_rank f \<le> 3" for f :: "'a fetch" by (cases f) auto
    then show ?thesis using sum_list_mono [of "fs_calls s" fetch_rank "\<lambda>_. 3"] by (simp add: total_rank_def sum_list_triv mult.commute)
  qed
  have finished: "\<exists>r. f = Fetch_Done (fetch_name f) r" if "ended f" "\<not> dropped f" for f :: "'a fetch"
    using that by (cases f) (auto simp: dropped_def)
  have "\<exists>es' s'. set es' \<subseteq> range Poll \<union> range Provider_Answers \<and> length es' \<le> 3 * length (fs_calls s) \<and>
      fetch_run dp cancel es' s = Some s' \<and> map fetch_name (fs_calls s') = map fetch_name (fs_calls s) \<and>
      (\<forall>f \<in> set (fs_calls s'). \<exists>r. f = Fetch_Done (fetch_name f) r \<and>
        (case r of Inr cs \<Rightarrow> cs = candidates_for dp (fetch_name f) | Inl v \<Rightarrow> \<exists>k. cancel k = Some v))"
    if drops: "\<forall>i. Drop i \<notin> set es"
  proof -
    from live_completes [OF live_run [OF start drops s(1)]] obtain es' s' where
      es': "set es' \<subseteq> range Poll \<union> range Provider_Answers" "length es' \<le> total_rank s" "fetch_run dp cancel es' s = Some s'"
        "live dp cancel s'" "names s' = names s" "\<forall>f \<in> set (fs_calls s'). ended f" by blast
    have "\<exists>r. f = Fetch_Done (fetch_name f) r \<and>
        (case r of Inr cs \<Rightarrow> cs = candidates_for dp (fetch_name f) | Inl v \<Rightarrow> \<exists>k. cancel k = Some v)"
      if f: "f \<in> set (fs_calls s')" for f
    proof -
      have "ended f" "\<not> dropped f" "fetches_inv dp cancel s'" using es'(4,6) f by (simp_all add: live_def)
      with finished obtain r where "f = Fetch_Done (fetch_name f) r" by blast
      with results [OF \<open>fetches_inv dp cancel s'\<close>, of "fetch_name f" r] f show ?thesis by auto
    qed
    with es' rank show ?thesis unfolding names_def by (intro exI [of _ es'] exI [of _ s']) auto
  qed
  with s results [OF s(2)] fetches_invD(2) [OF s(2)] show ?thesis by blast
qed

text \<open>Two calls overlap on package 0; the second waits for the request of the first.\<close>

definition example_fetches :: "fetch_event list" where
  "example_fetches = [Call 0, Poll 0, Call 0, Poll 1]"

theorem overlapping_fetches_share_witness:
  "\<exists>s es' s'. fetch_run example_dependency_provider (\<lambda>_. None :: unit option) example_fetches (fetches_new SolverCache_new) = Some s \<and>
    fs_calls s = [Fetch_Asking 0, Fetch_Waiting 0] \<and>
    fetch_run example_dependency_provider (\<lambda>_. None) es' s = Some s' \<and>
    (\<forall>f \<in> set (fs_calls s'). \<exists>r. f = Fetch_Done (fetch_name f) r)"
proof -
  have "\<forall>i. Drop i \<notin> set example_fetches" by (simp add: example_fetches_def)
  moreover have "\<exists>s. fetch_run example_dependency_provider (\<lambda>_. None :: unit option) example_fetches (fetches_new SolverCache_new) = Some s \<and>
      fs_calls s = [Fetch_Asking 0, Fetch_Waiting 0]"
    by (simp add: example_fetches_def fetches_new_def poll_fetch_def begin_candidates_def SolverCache_new_def)
  ultimately show ?thesis
    using overlapping_fetches_share [of example_dependency_provider "\<lambda>_. None :: unit option" example_fetches]
    by fastforce
qed

text \<open>Property C35. A dropped request is never made up for. When a call that asked the provider for a
  package is dropped before the answer, its mark stays in the cache: nothing panics, but whatever
  happens afterwards, no call for this package, made before or after, ever gets candidates, and
  none is asking the provider for it.\<close>

theorem dropped_fetch_strands_package:
  assumes "fetch_run dp cancel es (fetches_new SolverCache_new) = Some s" "i < length (fs_calls s)"
    "fs_calls s ! i = Fetch_Asking n"
  shows "\<exists>s'. fetch_run dp cancel (Drop i # es') s = Some s' \<and>
    n \<in> sc_package_name_to_candidates_in_flight (fs_cache s') \<and> Fetch_Asking n \<notin> set (fs_calls s') \<and>
    (\<forall>cs. Fetch_Done n (Inr cs) \<notin> set (fs_calls s'))"
proof -
  have inv: "fetches_inv dp cancel s" using fetch_run_keeps [OF fetches_inv_new [OF cache_inv_new], of dp cancel es] assms(1) by auto
  then obtain s1 where s1: "fetch_step dp cancel (Drop i) s = Some s1" "fetches_inv dp cancel s1"
    using fetch_step_keeps by blast
  then obtain s' where s': "fetch_run dp cancel es' s1 = Some s'" using fetch_run_keeps by blast
  have end_s: "fetches_inv dp cancel s'" "stranded n s'"
    using stranded_run [OF s1(2) drop_strands [OF inv assms(2,3) s1(1)] s'] by auto
  then have "Fetch_Done n (Inr cs) \<notin> set (fs_calls s')" for cs
    using stranded_unanswered [OF end_s] by (metis in_set_conv_nth)
  with s1(1) s' end_s(2) show ?thesis by (auto simp: stranded_def)
qed

text \<open>A request is dropped before its answer; a later query for the package waits, and stays waiting.\<close>

theorem dropped_fetch_strands_package_witness:
  "\<exists>s. fetch_run example_dependency_provider (\<lambda>_. None :: unit option)
      ([Call 0, Poll 0] @ Drop 0 # [Call 0, Poll 1, Poll 1, Provider_Answers 0, Poll 1]) (fetches_new SolverCache_new) = Some s \<and>
    fs_calls s = [Fetch_Dropped 0, Fetch_Waiting 0] \<and> (\<forall>cs. Fetch_Done 0 (Inr cs) \<notin> set (fs_calls s))"
proof -
  let ?run = "fetch_run example_dependency_provider (\<lambda>_. None :: unit option)"
  let ?es = "[Call 0, Poll 1, Poll 1, Provider_Answers 0, Poll 1]"
  obtain s where s: "?run [Call 0, Poll 0] (fetches_new SolverCache_new) = Some s" "fs_calls s = [Fetch_Asking 0]"
    by (simp add: fetches_new_def poll_fetch_def begin_candidates_def SolverCache_new_def)
  with dropped_fetch_strands_package [OF s(1), of 0 0 ?es] obtain s' where s': "?run (Drop 0 # ?es) s = Some s'"
    "\<forall>cs. Fetch_Done 0 (Inr cs) \<notin> set (fs_calls s')" by auto
  have "?run ([Call 0, Poll 0] @ Drop 0 # ?es) (fetches_new SolverCache_new) = Some s'"
    unfolding fetch_run_append s(1) using s'(1) by simp
  moreover from this have "fs_calls s' = [Fetch_Dropped 0, Fetch_Waiting 0]"
    by (auto simp: fetches_new_def poll_fetch_def answer_fetch_def drop_fetch_def begin_candidates_def SolverCache_new_def)
  ultimately show ?thesis using s'(2) by blast
qed

end
