(* ===== verification/Encoder.thy ===== *)
theory Encoder
  imports Cache Solver_State
begin

text \<open>
  The encoder, \<open>src/solver/encoding.rs\<close>: it asks the cache for dependencies and candidates
  and turns the answers into variables and clauses. The futures the source queues are values
  of type \<open>task\<close>, \<open>run_task\<close> is what each computes. The runtime is a parameter: the \<open>n\<close>-th future
  queued completes at once when \<open>ev_ready n\<close> holds; among the pending ones the \<open>n\<close>-th to complete is
  the one \<open>ev_next n\<close> selects, so every completion order is the order of some \<open>ev_next\<close>. A future
  runs to its end when it completes: what the source does of a pending future before (the polls up
  to its first suspension) is not a step of its own. \<open>None\<close> is a panic of a build without debug
  assertions: that an excluded candidate is not already true (\<open>on_candidates_available\<close>) and that the
  two watches of a clause differ (\<open>from_kind_and_initial_watches\<close>) are asserted by the source in
  debug builds only, and both can fail.
\<close>

section \<open>Tasks and their results\<close>

type_synonym solvable_or_root = "solvable_id solvable_id_or_root"

datatype disjunction_complement =
    Complement_Solvables version_set_id "solvable_id list"
  | Complement_Empty version_set_id

record conjunct_data =
  cj_matching :: "solvable_id list"
  cj_complement :: disjunction_complement

record disjunct_data =
  dd_conjuncts :: "conjunct_data list"

type_synonym requirement_condition = "(condition_id \<times> disjunction_complement list list) option"

datatype task_result =
    Result_Dependencies solvable_or_root dependencies
  | Result_Candidates name_id candidates
  | Result_ConditionData solvable_or_root conditional_requirement condition_id "disjunct_data list"
  | Result_RequirementCandidates solvable_or_root conditional_requirement "solvable_id list list" requirement_condition
  | Result_ConstraintCandidates solvable_or_root version_set_id "solvable_id list"

datatype task =
    Task_Dependencies solvable_or_root
  | Task_Candidates name_id
  | Task_ConditionData solvable_or_root conditional_requirement condition_id
  | Task_RequirementCandidates solvable_or_root conditional_requirement requirement_condition
  | Task_Deferred "solvable_id deferred_requirement"
  | Task_ConstraintCandidates solvable_or_root version_set_id

record 'c environment =
  ev_provider :: dependency_provider
  ev_cancel :: "nat \<Rightarrow> 'c option"
  ev_ready :: "nat \<Rightarrow> bool"
  ev_next :: "nat \<Rightarrow> nat"

abbreviation ev_interner :: "('c, 'z) environment_scheme \<Rightarrow> provider" where
  "ev_interner env \<equiv> dp_interner (ev_provider env)"

definition complement_of :: "version_set_id \<Rightarrow> solvable_id list \<Rightarrow> disjunction_complement" where
  "complement_of version_set non_matching =
     (if non_matching = [] then Complement_Empty version_set else Complement_Solvables version_set non_matching)"

definition fetch_conjunct :: "'c environment \<Rightarrow> version_set_id \<Rightarrow> ('c, conjunct_data) query" where
  "fetch_conjunct env version_set =
     and_then (get_or_cache_matching_candidates (ev_provider env) (ev_cancel env) version_set) (\<lambda>matching.
     and_then (get_or_cache_non_matching_candidates (ev_provider env) (ev_cancel env) version_set) (\<lambda>non_matching.
     answer \<lparr>cj_matching = matching, cj_complement = complement_of version_set non_matching\<rparr>))"

definition fetch_requirement :: "'c environment \<Rightarrow> requirement \<Rightarrow> ('c, solvable_id list list) query" where
  "fetch_requirement env requirement =
     try_join_all (get_or_cache_sorted_candidates_for_version_set (ev_provider env) (ev_cancel env))
       (requirement_version_sets (ev_interner env) requirement)"

fun run_task :: "'c environment \<Rightarrow> dependencies \<Rightarrow> task \<Rightarrow> ('c, task_result) query" where
  "run_task env root_dependencies (Task_Dependencies solvable_id) =
     (case SolvableIdOrRoot_solvable solvable_id of
        None \<Rightarrow> answer (Result_Dependencies solvable_id root_dependencies)
      | Some s \<Rightarrow> and_then (get_or_cache_dependencies (ev_provider env) (ev_cancel env) s)
          (\<lambda>dependencies. answer (Result_Dependencies solvable_id dependencies)))"
| "run_task env root_dependencies (Task_Candidates name_id) =
     and_then (get_or_cache_candidates (ev_provider env) (ev_cancel env) name_id)
       (\<lambda>package_candidates. answer (Result_Candidates name_id package_candidates))"
| "run_task env root_dependencies (Task_ConditionData solvable_id requirement condition) =
     (case convert_conditions_to_dnf (pv_resolve_condition (ev_interner env)) condition of
        None \<Rightarrow> (\<lambda>_. None)
      | Some dnf \<Rightarrow>
          and_then (try_join_all (\<lambda>cnf. and_then (try_join_all (fetch_conjunct env) cnf)
              (\<lambda>conjuncts. answer \<lparr>dd_conjuncts = conjuncts\<rparr>)) dnf)
            (\<lambda>disjuncts. answer (Result_ConditionData solvable_id requirement condition disjuncts)))"
| "run_task env root_dependencies (Task_RequirementCandidates solvable_id requirement condition_data) =
     and_then (fetch_requirement env (cr_requirement requirement))
       (\<lambda>candidates. answer (Result_RequirementCandidates solvable_id requirement candidates condition_data))"
| "run_task env root_dependencies (Task_Deferred deferred) =
     and_then (try_join_all (\<lambda>conjunct.
         let version_set = DeferredConjunct_version_set conjunct
         in and_then (get_or_cache_non_matching_candidates (ev_provider env) (ev_cancel env) version_set)
              (\<lambda>non_matching. answer (complement_of version_set non_matching))) (dr_disjunct deferred))
       (\<lambda>condition_data. and_then (fetch_requirement env (cr_requirement (dr_requirement deferred)))
         (\<lambda>candidates. answer (Result_RequirementCandidates (dr_solvable_id deferred) (dr_requirement deferred)
            candidates (Some (dr_condition deferred, [condition_data])))))"
| "run_task env root_dependencies (Task_ConstraintCandidates solvable_id constraint) =
     and_then (get_or_cache_non_matching_candidates (ev_provider env) (ev_cancel env) constraint)
       (\<lambda>candidates. answer (Result_ConstraintCandidates solvable_id constraint candidates))"

section \<open>The encoder\<close>

record 'c encoder =
  en_state :: solver_state
  en_cache :: cache
  en_level :: level
  en_root_dependencies :: dependencies
  en_pending_futures :: "task list"
  en_conflicting_clauses :: "clause_id list"
  en_pending_forbid_clauses :: "(name_id \<times> variable_id list) list"
  en_forbid_seen :: "variable_id set"
  en_new_at_least_one_packages :: "(name_id \<times> variable_id) list"
  en_pending_results :: "('c + task_result) list"
  en_queued :: nat
  en_completed :: nat

definition Encoder_new :: "solver_state \<Rightarrow> cache \<Rightarrow> dependencies \<Rightarrow> level \<Rightarrow> 'c encoder" where
  "Encoder_new state cache root_dependencies level =
     \<lparr>en_state = state, en_cache = cache, en_level = level, en_root_dependencies = root_dependencies,
      en_pending_futures = [], en_conflicting_clauses = [], en_pending_forbid_clauses = [], en_forbid_seen = {},
      en_new_at_least_one_packages = [], en_pending_results = [], en_queued = 0,
      en_completed = 0\<rparr>"

text \<open>Steps the handlers share: a clause, a decision that must succeed, a conflict.\<close>

definition en_clause :: "watched_literals option \<times> clause \<Rightarrow> 'c encoder \<Rightarrow> clause_id \<times> 'c encoder" where
  "en_clause wk e = (case add_clause (fst wk) (snd wk) (en_state e) of (clause_id, s) \<Rightarrow>
     (clause_id, e\<lparr>en_state := s\<rparr>))"

definition en_decide :: "variable_id \<Rightarrow> bool \<Rightarrow> clause_id \<Rightarrow> 'c encoder \<Rightarrow> 'c encoder option" where
  "en_decide var value clause_id e =
     (case try_add_decision (ss_decision_tracker (en_state e)) (Decision_new var value clause_id) (en_level e) of
        Inl _ \<Rightarrow> None
      | Inr (_, t) \<Rightarrow> Some (e\<lparr>en_state := (en_state e)\<lparr>ss_decision_tracker := t\<rparr>\<rparr>))"

definition en_conflict :: "bool \<Rightarrow> clause_id \<Rightarrow> 'c encoder \<Rightarrow> 'c encoder" where
  "en_conflict conflict clause_id e =
     (if conflict then e\<lparr>en_conflicting_clauses := en_conflicting_clauses e @ [clause_id]\<rparr> else e)"

definition en_variable :: "(variable_map \<Rightarrow> 'a \<times> variable_map) \<Rightarrow> 'c encoder \<Rightarrow> 'a \<times> 'c encoder" where
  "en_variable f e = (case f (ss_variable_map (en_state e)) of (x, m) \<Rightarrow>
     (x, e\<lparr>en_state := (en_state e)\<lparr>ss_variable_map := m\<rparr>\<rparr>))"

abbreviation en_value :: "'c encoder \<Rightarrow> variable_id \<Rightarrow> bool option" where
  "en_value e \<equiv> assigned_value (ss_decision_tracker (en_state e))"

section \<open>Queueing\<close>

definition queue_future :: "'c environment \<Rightarrow> task \<Rightarrow> 'c encoder \<Rightarrow> 'c encoder option" where
  "queue_future env task e =
     (let e1 = e\<lparr>en_queued := en_queued e + 1\<rparr>
      in if ev_ready env (en_queued e)
         then map_option (\<lambda>(result, c). e1\<lparr>en_cache := c, en_pending_results := en_pending_results e @ [result]\<rparr>)
           (run_task env (en_root_dependencies e) task (en_cache e))
         else Some (e1\<lparr>en_pending_futures := en_pending_futures e @ [task]\<rparr>))"

definition queue_solvable :: "'c environment \<Rightarrow> solvable_or_root \<Rightarrow> 'c encoder \<Rightarrow> 'c encoder option" where
  "queue_solvable env solvable_id e =
     (if solvable_id \<in> ss_clauses_added_for_solvable (en_state e) then Some e
      else queue_future env (Task_Dependencies solvable_id) (e\<lparr>en_state := (en_state e)\<lparr>ss_clauses_added_for_solvable :=
        insert solvable_id (ss_clauses_added_for_solvable (en_state e))\<rparr>\<rparr>))"

definition queue_package :: "'c environment \<Rightarrow> name_id \<Rightarrow> 'c encoder \<Rightarrow> 'c encoder option" where
  "queue_package env name_id e =
     (if name_id \<in> ss_clauses_added_for_package (en_state e) then Some e
      else queue_future env (Task_Candidates name_id) (e\<lparr>en_state := (en_state e)\<lparr>ss_clauses_added_for_package :=
        insert name_id (ss_clauses_added_for_package (en_state e))\<rparr>\<rparr>))"

definition queue_packages :: "'c environment \<Rightarrow> version_set_id list \<Rightarrow> 'c encoder \<Rightarrow> 'c encoder option" where
  "queue_packages env version_sets e =
     fold_opt (\<lambda>e version_set. queue_package env (pv_version_set_name (ev_interner env) version_set) e) e version_sets"

definition queue_requirement_candidates ::
  "'c environment \<Rightarrow> solvable_or_root \<Rightarrow> conditional_requirement \<Rightarrow> requirement_condition \<Rightarrow> 'c encoder \<Rightarrow>
    'c encoder option" where
  "queue_requirement_candidates env solvable_id requirement condition_data =
     queue_future env (Task_RequirementCandidates solvable_id requirement condition_data)"

definition queue_condition_data ::
  "'c environment \<Rightarrow> solvable_or_root \<Rightarrow> conditional_requirement \<Rightarrow> condition_id \<Rightarrow> 'c encoder \<Rightarrow> 'c encoder option" where
  "queue_condition_data env solvable_id requirement condition =
     queue_future env (Task_ConditionData solvable_id requirement condition)"

definition queue_conditional_requirement ::
  "'c environment \<Rightarrow> solvable_or_root \<Rightarrow> conditional_requirement \<Rightarrow> 'c encoder \<Rightarrow> 'c encoder option" where
  "queue_conditional_requirement env solvable_id requirement = (case cr_condition requirement of
     None \<Rightarrow> queue_requirement_candidates env solvable_id requirement None
   | Some condition \<Rightarrow> queue_condition_data env solvable_id requirement condition)"

definition queue_deferred_requirement ::
  "'c environment \<Rightarrow> solvable_id deferred_requirement \<Rightarrow> 'c encoder \<Rightarrow> 'c encoder option" where
  "queue_deferred_requirement env deferred e =
     Option.bind (queue_packages env
       (requirement_version_sets (ev_interner env) (cr_requirement (dr_requirement deferred))) e)
     (queue_future env (Task_Deferred deferred))"

definition queue_constraint ::
  "'c environment \<Rightarrow> solvable_or_root \<Rightarrow> version_set_id \<Rightarrow> 'c encoder \<Rightarrow> 'c encoder option" where
  "queue_constraint env solvable_id constraint = queue_future env (Task_ConstraintCandidates solvable_id constraint)"

section \<open>Handlers\<close>

definition add_exclusion_clause :: "solvable_or_root \<Rightarrow> string_id \<Rightarrow> 'c encoder \<Rightarrow> variable_id \<times> 'c encoder" where
  "add_exclusion_clause solvable_id reason e =
     (let (var, e1) = en_variable (intern_solvable_or_root solvable_id) e;
          (clause_id, e2) = en_clause (WatchedLiterals_exclude var reason) e1;
          e3 = e2\<lparr>en_state := (en_state e2)\<lparr>ss_negative_assertions :=
            ss_negative_assertions (en_state e2) @ [(var, clause_id)]\<rparr>\<rparr>
      in (var, en_conflict (en_value e3 var = Some True) clause_id e3))"

definition on_dependencies_available ::
  "'c environment \<Rightarrow> solvable_or_root \<Rightarrow> dependencies \<Rightarrow> 'c encoder \<Rightarrow> 'c encoder option" where
  "on_dependencies_available env solvable_id dependencies e = (case dependencies of
     Unknown reason \<Rightarrow> Some (snd (add_exclusion_clause solvable_id reason e))
   | Known deps \<Rightarrow> do {
       e1 \<leftarrow> queue_packages env (concat (map (\<lambda>r. requirement_version_sets (ev_interner env) (cr_requirement r))
           (filter (\<lambda>r. cr_condition r = None) (kd_requirements deps))) @ kd_constrains deps) e;
       e2 \<leftarrow> fold_opt (\<lambda>e requirement. queue_conditional_requirement env solvable_id requirement e) e1
         (kd_requirements deps);
       fold_opt (\<lambda>e constraint. queue_constraint env solvable_id constraint e) e2 (kd_constrains deps)
     })"

definition add_locked_package_clauses :: "solvable_id \<Rightarrow> solvable_id list \<Rightarrow> 'c encoder \<Rightarrow> 'c encoder" where
  "add_locked_package_clauses locked_solvable_id all_candidate_ids e =
     (let (locked_solvable_var, e1) = en_variable (VariableMap_intern_solvable locked_solvable_id) e
      in foldl (\<lambda>e other_candidate.
           if other_candidate = locked_solvable_id then e
           else let (other_candidate_var, e') = en_variable (VariableMap_intern_solvable other_candidate) e
                in snd (en_clause (WatchedLiterals_lock locked_solvable_var other_candidate_var) e')) e1 all_candidate_ids)"

definition on_candidates_available :: "name_id \<Rightarrow> candidates \<Rightarrow> 'c encoder \<Rightarrow> 'c encoder" where
  "on_candidates_available name_id package_candidates e =
     (let e1 = (if ca_allow_multiple package_candidates
            then e\<lparr>en_state := (en_state e)\<lparr>ss_allow_multiple_names := insert name_id (ss_allow_multiple_names (en_state e))\<rparr>\<rparr>
            else e);
          e2 = (case ca_locked package_candidates of
            None \<Rightarrow> e1
          | Some locked_solvable_id \<Rightarrow> add_locked_package_clauses locked_solvable_id (ca_candidates package_candidates) e1)
      in foldl (\<lambda>e (solvable, reason). snd (add_exclusion_clause (Solvable solvable) reason e)) e2
           (ca_excluded package_candidates))"

definition register_forbid_target :: "name_id \<Rightarrow> variable_id \<Rightarrow> 'c encoder \<Rightarrow> 'c encoder" where
  "register_forbid_target name_id var e =
     (if name_id \<in> ss_allow_multiple_names (en_state e) then e
      else if var \<in> en_forbid_seen e then e
      else e\<lparr>en_forbid_seen := insert var (en_forbid_seen e),
             en_pending_forbid_clauses := im_push (en_pending_forbid_clauses e) name_id var\<rparr>)"

text \<open>The literals of the complement of one version set of a condition.\<close>

definition at_least_one_variable :: "name_id \<Rightarrow> 'c encoder \<Rightarrow> variable_id \<times> 'c encoder" where
  "at_least_one_variable name_id e = (case ss_at_least_one_tracker (en_state e) name_id of
     Some var \<Rightarrow> (var, e)
   | None \<Rightarrow> (case map_of (en_new_at_least_one_packages e) name_id of
       Some var \<Rightarrow> (var, e)
     | None \<Rightarrow> (let (var, e1) = en_variable (alloc_at_least_one_variable name_id) e
         in (var, e1\<lparr>en_new_at_least_one_packages := en_new_at_least_one_packages e1 @ [(name_id, var)]\<rparr>))))"

definition complement_literals ::
  "'c environment \<Rightarrow> disjunction_complement \<Rightarrow> 'c encoder \<Rightarrow> literal list \<times> 'c encoder" where
  "complement_literals env complement e = (case complement of
     Complement_Solvables version_set solvables \<Rightarrow>
       run_ops (\<lambda>solvable e. let (var, e1) = en_variable (VariableMap_intern_solvable solvable) e
           in (positive var, register_forbid_target (pv_version_set_name (ev_interner env) version_set) var e1))
         solvables e
   | Complement_Empty version_set \<Rightarrow>
       (let (var, e1) = at_least_one_variable (pv_version_set_name (ev_interner env) version_set) e
        in ([negative var], e1)))"

definition add_disjunction ::
  "'c environment \<Rightarrow> condition_id \<Rightarrow> disjunction_complement list \<Rightarrow> 'c encoder \<Rightarrow> disjunction_id option \<times> 'c encoder" where
  "add_disjunction env condition disjunctions e =
     (let (literals, e1) = run_ops (complement_literals env) disjunctions e;
          s = en_state e1
      in (Some (length (ss_disjunctions s)), e1\<lparr>en_state := s\<lparr>ss_disjunctions := ss_disjunctions s @
            [\<lparr>dj_literals = concat literals, dj_condition = condition\<rparr>]\<rparr>\<rparr>))"

definition requirement_conditions ::
  "'c environment \<Rightarrow> requirement_condition \<Rightarrow> 'c encoder \<Rightarrow> disjunction_id option list \<times> 'c encoder" where
  "requirement_conditions env condition e = (case condition of
     None \<Rightarrow> ([None], e)
   | Some (condition, dnf) \<Rightarrow> run_ops (add_disjunction env condition) dnf e)"

definition REQUIRES_AUX_ENCODING_THRESHOLD :: nat where
  "REQUIRES_AUX_ENCODING_THRESHOLD = 4"

definition CONSTRAINS_AUX_ENCODING_THRESHOLD :: nat where
  "CONSTRAINS_AUX_ENCODING_THRESHOLD = 4"

text \<open>A requires clause with its registration in the work queue; also the conflict flag.\<close>

definition add_requires ::
  "'c environment \<Rightarrow> variable_id \<Rightarrow> requirement \<Rightarrow> variable_id list \<Rightarrow> disjunction_id option \<Rightarrow> 'c encoder \<Rightarrow>
    ((clause_id \<times> bool) \<times> 'c encoder) option" where
  "add_requires env parent requirement candidates condition e = do {
     ls \<leftarrow> disjunction_literals (ss_disjunctions (en_state e)) condition;
     let (watched_literals, conflict, kind) = WatchedLiterals_requires parent requirement candidates
           (map_option (\<lambda>d. (d, ls)) condition) (ss_decision_tracker (en_state e));
     let (clause_id, e1) = en_clause (watched_literals, kind) e;
     let names = map (pv_version_set_name (ev_interner env)) (requirement_version_sets (ev_interner env) requirement);
     s \<leftarrow> add_requires_clause parent requirement condition clause_id names (en_state e1);
     Some ((clause_id, conflict), e1\<lparr>en_state := s\<rparr>)
   }"

definition requires_gate ::
  "'c environment \<Rightarrow> requirement \<Rightarrow> variable_id list \<Rightarrow> 'c encoder \<Rightarrow> (variable_id \<times> 'c encoder) option" where
  "requires_gate env requirement candidates e = (case ss_requires_aux_vars (en_state e) requirement of
     Some gate \<Rightarrow> Some (gate, e)
   | None \<Rightarrow> (let (gate, e1) = en_variable (alloc_requires_gate_variable requirement) e;
          e2 = e1\<lparr>en_state := (en_state e1)\<lparr>ss_requires_aux_vars := (ss_requires_aux_vars (en_state e1))(requirement \<mapsto> gate)\<rparr>\<rparr>
      in Option.bind (add_requires env gate requirement candidates None e2) (\<lambda>((clause_id, conflict), e3).
           map_option (Pair gate) (if conflict then en_decide gate False clause_id e3 else Some e3))))"

definition add_shared_requires ::
  "'c environment \<Rightarrow> variable_id \<Rightarrow> requirement \<Rightarrow> variable_id list list \<Rightarrow> 'c encoder \<Rightarrow> 'c encoder option" where
  "add_shared_requires env parent requirement version_set_variables e =
     Option.bind (requires_gate env requirement (concat version_set_variables) e) (\<lambda>(gate, e1).
       let (clause_id, e2) = en_clause (WatchedLiterals_any_of gate parent) e1;
           e3 = e2\<lparr>en_state := (en_state e2)\<lparr>ss_requires_gate_requirers :=
             im_push (ss_requires_gate_requirers (en_state e2)) gate (parent, clause_id)\<rparr>\<rparr>
       in case (en_value e3 parent, en_value e3 gate) of
            (Some True, Some False) \<Rightarrow> Some (en_conflict True clause_id e3)
          | (Some True, None) \<Rightarrow> en_decide gate True clause_id e3
          | (None, Some False) \<Rightarrow> en_decide parent False clause_id e3
          | _ \<Rightarrow> Some e3)"

definition add_requirement ::
  "'c environment \<Rightarrow> variable_id \<Rightarrow> requirement \<Rightarrow> variable_id list list \<Rightarrow> 'c encoder \<Rightarrow> disjunction_id option \<Rightarrow>
    'c encoder option" where
  "add_requirement env var requirement version_set_variables e condition =
     (let candidates = concat version_set_variables;
          no_candidates = list_all (\<lambda>vs. vs = []) version_set_variables
      in if condition = None \<and> \<not> no_candidates \<and> \<not> var = 0 \<and>
            sum_list (map length version_set_variables) \<ge> REQUIRES_AUX_ENCODING_THRESHOLD
         then add_shared_requires env var requirement version_set_variables e
         else Option.bind (add_requires env var requirement candidates condition e) (\<lambda>((clause_id, conflict), e1).
           Some (if conflict then en_conflict True clause_id e1
             else if no_candidates \<and> condition = None
             then e1\<lparr>en_state := (en_state e1)\<lparr>ss_negative_assertions :=
               ss_negative_assertions (en_state e1) @ [(var, clause_id)]\<rparr>\<rparr>
             else e1)))"

definition queue_candidate :: "'c environment \<Rightarrow> 'c encoder \<Rightarrow> solvable_id \<Rightarrow> 'c encoder option" where
  "queue_candidate env e candidate =
     (if Solvable candidate \<in> ss_clauses_added_for_solvable (en_state e) then Some e
      else if are_dependencies_available_for (en_cache e) candidate then queue_solvable env (Solvable candidate) e
      else Some e)"

definition on_requirement_candidates_available ::
  "'c environment \<Rightarrow> solvable_or_root \<Rightarrow> conditional_requirement \<Rightarrow> solvable_id list list \<Rightarrow> requirement_condition \<Rightarrow>
    'c encoder \<Rightarrow> 'c encoder option" where
  "on_requirement_candidates_available env solvable_id requirement candidates condition e =
     (let (var, e1) = en_variable (intern_solvable_or_root solvable_id) e;
          (version_set_variables, e2) = en_variable (run_ops (run_ops VariableMap_intern_solvable) candidates) e1;
          e3 = foldl (\<lambda>e (solvable, variable_id).
                 register_forbid_target (pv_solvable_name (ev_interner env) solvable) variable_id e) e2
               (concat (map2 zip candidates version_set_variables))
      in do {
        e4 \<leftarrow> fold_opt (queue_candidate env) e3 (concat candidates);
        let (conditions, e5) = requirement_conditions env condition e4;
        e6 \<leftarrow> fold_opt (add_requirement env var (cr_requirement requirement) version_set_variables) e5 conditions;
        Some (e6\<lparr>en_state := (en_state e6)\<lparr>ss_requirement_to_sorted_candidates :=
          (ss_requirement_to_sorted_candidates (en_state e6))(cr_requirement requirement \<mapsto> version_set_variables)\<rparr>\<rparr>)
      })"

definition constrains_pairwise ::
  "variable_id \<Rightarrow> version_set_id \<Rightarrow> 'c encoder \<Rightarrow> solvable_id \<Rightarrow> 'c encoder" where
  "constrains_pairwise var constraint e forbidden_candidate =
     (let (forbidden_candidate_var, e1) = en_variable (VariableMap_intern_solvable forbidden_candidate) e;
          (watched_literals, conflict, kind) = WatchedLiterals_constrains var forbidden_candidate_var constraint
            (ss_decision_tracker (en_state e1));
          (clause_id, e2) = en_clause (watched_literals, kind) e1
      in en_conflict conflict clause_id e2)"

definition constrains_excluded ::
  "variable_id \<Rightarrow> version_set_id \<Rightarrow> 'c encoder \<Rightarrow> solvable_id \<Rightarrow> 'c encoder option" where
  "constrains_excluded aux_variable constraint e forbidden_candidate =
     (let (forbidden_candidate_var, e1) = en_variable (VariableMap_intern_solvable forbidden_candidate) e;
          (clause_id, e2) = en_clause (WatchedLiterals_constrains_excluded forbidden_candidate_var aux_variable constraint) e1
      in if en_value e2 forbidden_candidate_var = Some True then en_decide aux_variable True clause_id e2 else Some e2)"

definition constrains_aux ::
  "version_set_id \<Rightarrow> solvable_id list \<Rightarrow> 'c encoder \<Rightarrow> (variable_id \<times> 'c encoder) option" where
  "constrains_aux constraint candidates e = (case ss_constrains_aux_vars (en_state e) constraint of
     Some aux_variable \<Rightarrow> Some (aux_variable, e)
   | None \<Rightarrow> (let (aux_variable, e1) = en_variable (alloc_constrains_violation_variable constraint) e;
          e2 = e1\<lparr>en_state := (en_state e1)\<lparr>ss_constrains_aux_vars :=
            (ss_constrains_aux_vars (en_state e1))(constraint \<mapsto> aux_variable)\<rparr>\<rparr>
      in map_option (Pair aux_variable) (fold_opt (constrains_excluded aux_variable constraint) e2 candidates)))"

definition on_constraint_candidates_available ::
  "solvable_or_root \<Rightarrow> version_set_id \<Rightarrow> solvable_id list \<Rightarrow> 'c encoder \<Rightarrow> 'c encoder option" where
  "on_constraint_candidates_available solvable_id constraint candidates e =
     (let (var, e1) = en_variable (intern_solvable_or_root solvable_id) e
      in if length candidates < CONSTRAINS_AUX_ENCODING_THRESHOLD
         then Some (foldl (constrains_pairwise var constraint) e1 candidates)
         else Option.bind (constrains_aux constraint candidates e1) (\<lambda>(aux_variable, e2).
           let (watched_literals, conflict, kind) = WatchedLiterals_constrains_parent var aux_variable constraint
                 (ss_decision_tracker (en_state e2));
               (clause_id, e3) = en_clause (watched_literals, kind) e2
           in Some (en_conflict conflict clause_id e3)))"

definition disjunct_holds :: "solver_state \<Rightarrow> disjunct_data \<Rightarrow> bool" where
  "disjunct_holds s disjunct =
     list_all (\<lambda>conjunct. list_ex (is_positively_decided s) (cj_matching conjunct)) (dd_conjuncts disjunct)"

definition deferred_conjunct :: "conjunct_data \<Rightarrow> solvable_id deferred_conjunct" where
  "deferred_conjunct conjunct = (case cj_complement conjunct of
     Complement_Solvables version_set _ \<Rightarrow> DC_Solvables version_set (cj_matching conjunct)
   | Complement_Empty version_set \<Rightarrow> DC_Empty version_set (cj_matching conjunct))"

definition on_condition_data_available ::
  "'c environment \<Rightarrow> solvable_or_root \<Rightarrow> conditional_requirement \<Rightarrow> condition_id \<Rightarrow> disjunct_data list \<Rightarrow>
    'c encoder \<Rightarrow> 'c encoder option" where
  "on_condition_data_available env solvable_id requirement condition disjuncts e =
     (let (holding, waiting) = partition (disjunct_holds (en_state e)) disjuncts;
          fired = map (\<lambda>d. map cj_complement (dd_conjuncts d)) holding;
          e1 = foldl (\<lambda>e d. e\<lparr>en_state := push_deferred \<lparr>dr_solvable_id = solvable_id, dr_requirement = requirement,
                 dr_condition = condition, dr_disjunct = map deferred_conjunct (dd_conjuncts d)\<rparr> (en_state e)\<rparr>) e waiting
      in if fired = [] then Some e1
         else Option.bind (queue_packages env (requirement_version_sets (ev_interner env) (cr_requirement requirement)) e1)
           (queue_requirement_candidates env solvable_id requirement (Some (condition, fired))))"

fun on_task_result :: "'c environment \<Rightarrow> task_result \<Rightarrow> 'c encoder \<Rightarrow> 'c encoder option" where
  "on_task_result env (Result_Dependencies solvable_id dependencies) e =
     on_dependencies_available env solvable_id dependencies e"
| "on_task_result env (Result_Candidates name_id package_candidates) e =
     Some (on_candidates_available name_id package_candidates e)"
| "on_task_result env (Result_ConditionData solvable_id requirement condition disjuncts) e =
     on_condition_data_available env solvable_id requirement condition disjuncts e"
| "on_task_result env (Result_RequirementCandidates solvable_id requirement candidates condition) e =
     on_requirement_candidates_available env solvable_id requirement candidates condition e"
| "on_task_result env (Result_ConstraintCandidates solvable_id constraint candidates) e =
     on_constraint_candidates_available solvable_id constraint candidates e"

section \<open>At most one and at least one\<close>

definition forbid_clause ::
  "name_id \<Rightarrow> variable_id \<Rightarrow> variable_id \<Rightarrow> bool \<Rightarrow> 'c encoder \<Rightarrow> 'c encoder option" where
  "forbid_clause name_id a b is_positive e =
     (let literal_b = (if is_positive then positive b else negative b);
          literal_a = negative a;
          (clause_id, e1) = en_clause (WatchedLiterals_forbid_multiple a literal_b name_id) e;
          m = dt_map (ss_decision_tracker (en_state e1));
          decide = (\<lambda>literal. en_decide (variable literal) (satisfying_value literal) clause_id e1)
      in case (eval literal_a m, eval literal_b m) of
           (Some False, None) \<Rightarrow> decide literal_b
         | (None, Some False) \<Rightarrow> decide literal_a
         | (Some False, Some False) \<Rightarrow> Some (en_conflict True clause_id e1)
         | _ \<Rightarrow> Some e1)"

text \<open>The callbacks of the tracker; a panic in the first ends everything.\<close>

definition forbid_callback ::
  "name_id \<Rightarrow> variable_id \<Rightarrow> variable_id \<Rightarrow> bool \<Rightarrow> 'c encoder option \<Rightarrow> 'c encoder option" where
  "forbid_callback name_id a b is_positive r = Option.bind r (forbid_clause name_id a b is_positive)"

definition helper_callback :: "name_id \<Rightarrow> 'c encoder option \<Rightarrow> variable_id \<times> 'c encoder option" where
  "helper_callback name_id r = (case r of
     None \<Rightarrow> (0, None)
   | Some e \<Rightarrow> (case en_variable (alloc_forbid_multiple_variable name_id) e of (v, e1) \<Rightarrow> (v, Some e1)))"

definition en_tracker :: "name_id \<Rightarrow> variable_id at_most_once_tracker option \<Rightarrow> 'c encoder \<Rightarrow> 'c encoder" where
  "en_tracker name_id t e = e\<lparr>en_state := (en_state e)\<lparr>ss_at_most_one_trackers :=
     (ss_at_most_one_trackers (en_state e))(name_id := t)\<rparr>\<rparr>"

definition add_forbid :: "'c encoder \<Rightarrow> name_id \<times> variable_id \<Rightarrow> 'c encoder option" where
  "add_forbid e = (\<lambda>(name_id, candidate_var).
     let other_solvables = (case ss_at_most_one_trackers (en_state e) name_id of
           None \<Rightarrow> AtMostOnceTracker_default | Some t \<Rightarrow> t);
         (variable_is_new, other_solvables', r) = amo_add (forbid_callback name_id) (helper_callback name_id)
           candidate_var other_solvables (Some (en_tracker name_id None e))
     in map_option (\<lambda>e1. let e2 = en_tracker name_id (Some other_solvables') e1 in
          if variable_is_new
          then (case ss_at_least_one_tracker (en_state e2) name_id of
              None \<Rightarrow> e2
            | Some at_least_one \<Rightarrow> snd (en_clause (WatchedLiterals_any_of at_least_one candidate_var) e2))
          else e2) r)"

definition add_pending_forbid_clauses :: "'c encoder \<Rightarrow> 'c encoder option" where
  "add_pending_forbid_clauses e =
     fold_opt add_forbid (e\<lparr>en_pending_forbid_clauses := []\<rparr>)
       (concat (map (\<lambda>(name_id, candidate_vars). map (Pair name_id) candidate_vars) (en_pending_forbid_clauses e)))"

definition add_any_of :: "variable_id \<Rightarrow> 'c encoder \<Rightarrow> variable_id \<Rightarrow> 'c encoder option" where
  "add_any_of at_least_one e helper_var =
     (let (clause_id, e1) = en_clause (WatchedLiterals_any_of at_least_one helper_var) e
      in if en_value e1 helper_var = Some True then en_decide at_least_one True clause_id e1 else Some e1)"

definition add_at_least_one :: "'c encoder \<Rightarrow> name_id \<times> variable_id \<Rightarrow> 'c encoder option" where
  "add_at_least_one e = (\<lambda>(name_id, at_least_one).
     let variables = (case ss_at_most_one_trackers (en_state e) name_id of None \<Rightarrow> [] | Some t \<Rightarrow> amo_variables t)
     in map_option (\<lambda>e1. e1\<lparr>en_state := (en_state e1)\<lparr>ss_at_least_one_tracker :=
          (ss_at_least_one_tracker (en_state e1))(name_id \<mapsto> at_least_one)\<rparr>\<rparr>)
        (fold_opt (add_any_of at_least_one) e variables))"

definition add_pending_at_least_one_clauses :: "'c encoder \<Rightarrow> 'c encoder option" where
  "add_pending_at_least_one_clauses e =
     fold_opt add_at_least_one (e\<lparr>en_new_at_least_one_packages := []\<rparr>) (en_new_at_least_one_packages e)"

section \<open>The loop\<close>

partial_function (option) encode_loop :: "'c environment \<Rightarrow> 'c encoder \<Rightarrow> (('c + unit) \<times> 'c encoder) option" where
  "encode_loop env e = (case en_pending_results e of
     result # rest \<Rightarrow> (case result of
         Inl v \<Rightarrow> Some (Inl v, e\<lparr>en_pending_results := rest\<rparr>)
       | Inr x \<Rightarrow> Option.bind (on_task_result env x (e\<lparr>en_pending_results := rest\<rparr>)) (encode_loop env))
   | [] \<Rightarrow> if en_pending_futures e = [] then Some (Inr (), e)
       else let i = ev_next env (en_completed e) mod length (en_pending_futures e)
            in Option.bind (run_task env (en_root_dependencies e) (en_pending_futures e ! i) (en_cache e)) (\<lambda>(result, c).
              let e1 = e\<lparr>en_cache := c, en_pending_futures := vec_remove (en_pending_futures e) i,
                en_completed := en_completed e + 1\<rparr>
              in case result of
                   Inl v \<Rightarrow> Some (Inl v, e1)
                 | Inr x \<Rightarrow> Option.bind (on_task_result env x e1) (encode_loop env)))"

definition encode_with_deferred ::
  "'c environment \<Rightarrow> solvable_or_root list \<Rightarrow> solvable_id deferred_requirement list \<Rightarrow> 'c encoder \<Rightarrow>
    (('c + clause_id list) \<times> 'c encoder) option" where
  "encode_with_deferred env solvable_ids deferred e = do {
     e1 \<leftarrow> fold_opt (\<lambda>e solvable_id. queue_solvable env solvable_id e) e solvable_ids;
     e2 \<leftarrow> fold_opt (\<lambda>e entry. queue_deferred_requirement env entry e) e1 deferred;
     (r, e3) \<leftarrow> encode_loop env e2;
     case r of
       Inl v \<Rightarrow> Some (Inl v, e3)
     | Inr _ \<Rightarrow> do {
         e4 \<leftarrow> add_pending_forbid_clauses e3;
         e5 \<leftarrow> add_pending_at_least_one_clauses e4;
         Some (Inr (en_conflicting_clauses e5), e5)
       }
   }"

definition encode :: "'c environment \<Rightarrow> solvable_or_root list \<Rightarrow> 'c encoder \<Rightarrow> (('c + clause_id list) \<times> 'c encoder) option" where
  "encode env solvable_ids = encode_with_deferred env solvable_ids []"

end
