(* ===== verification/Encoder_Steps.thy ===== *)
theory Encoder_Steps
  imports Encoder Trail
begin

text \<open>
  The encoder as a machine of small steps. Whatever the provider's answers and the order in
  which they arrive, a handler of the encoder is a sequence of the steps of the relation
  \<open>micro\<close>; an invariant of the encoder is proved once per kind of step. Each step carries what
  it adds to the work to be done, which bounds the work of the whole run.
\<close>

section \<open>What a future returns\<close>

definition complement_for :: "dependency_provider \<Rightarrow> version_set_id \<Rightarrow> disjunction_complement" where
  "complement_for dp vs = complement_of vs (non_matching_for dp vs)"

definition conjunct_for :: "dependency_provider \<Rightarrow> version_set_id \<Rightarrow> conjunct_data" where
  "conjunct_for dp vs = \<lparr>cj_matching = matching_for dp vs, cj_complement = complement_for dp vs\<rparr>"

definition dnf_for :: "dependency_provider \<Rightarrow> condition_id \<Rightarrow> version_set_id list list" where
  "dnf_for dp c = the (convert_conditions_to_dnf (pv_resolve_condition (dp_interner dp)) c)"

definition sorted_lists :: "dependency_provider \<Rightarrow> requirement \<Rightarrow> solvable_id list list" where
  "sorted_lists dp r = map (sorted_for dp) (requirement_version_sets (dp_interner dp) r)"

fun deps_of :: "dependency_provider \<Rightarrow> dependencies \<Rightarrow> solvable_or_root \<Rightarrow> dependencies" where
  "deps_of dp root Root = root"
| "deps_of dp root (Solvable s) = dp_get_dependencies dp s"

fun task_answer :: "dependency_provider \<Rightarrow> dependencies \<Rightarrow> task \<Rightarrow> task_result" where
  "task_answer dp root (Task_Dependencies k) = Result_Dependencies k (deps_of dp root k)"
| "task_answer dp root (Task_Candidates n) = Result_Candidates n (candidates_for dp n)"
| "task_answer dp root (Task_ConditionData k req c) =
     Result_ConditionData k req c (map (\<lambda>cnf. \<lparr>dd_conjuncts = map (conjunct_for dp) cnf\<rparr>) (dnf_for dp c))"
| "task_answer dp root (Task_RequirementCandidates k req cond) =
     Result_RequirementCandidates k req (sorted_lists dp (cr_requirement req)) cond"
| "task_answer dp root (Task_Deferred d) =
     Result_RequirementCandidates (dr_solvable_id d) (dr_requirement d) (sorted_lists dp (cr_requirement (dr_requirement d)))
       (Some (dr_condition d, [map (\<lambda>cj. complement_for dp (DeferredConjunct_version_set cj)) (dr_disjunct d)]))"
| "task_answer dp root (Task_ConstraintCandidates k vs) = Result_ConstraintCandidates k vs (non_matching_for dp vs)"

text \<open>Every condition of the provider is a finite expression.\<close>

definition conditions_ok :: "dependency_provider \<Rightarrow> bool" where
  "conditions_ok dp \<longleftrightarrow> (\<forall>c. convert_conditions_to_dnf (pv_resolve_condition (dp_interner dp)) c \<noteq> None)"

abbreviation env_answers :: "'c environment \<Rightarrow> ('c, 'a) query \<Rightarrow> 'a \<Rightarrow> bool" where
  "env_answers env \<equiv> answers (cache_inv (ev_provider env)) (ev_cancel env)"

interpretation conjunct: query_service "cache_inv (ev_provider env)" "ev_cancel env" "fetch_conjunct env"
  "conjunct_for (ev_provider env)" for env :: "'c environment"
proof
  fix vs
  show "env_answers env (fetch_conjunct env vs) (conjunct_for (ev_provider env) vs)"
    unfolding fetch_conjunct_def conjunct_for_def complement_for_def
    by (rule answers_and_then [OF matching.ask_answers answers_and_then [OF non_matching.ask_answers answers_answer]])
qed

interpretation disjunct: query_service "cache_inv (ev_provider env)" "ev_cancel env"
  "\<lambda>cnf. and_then (try_join_all (fetch_conjunct env) cnf) (\<lambda>conjuncts. answer \<lparr>dd_conjuncts = conjuncts\<rparr>)"
  "\<lambda>cnf. \<lparr>dd_conjuncts = map (conjunct_for (ev_provider env)) cnf\<rparr>" for env :: "'c environment"
  by unfold_locales (rule answers_and_then [OF conjunct.join_answers answers_answer])

interpretation complement: query_service "cache_inv (ev_provider env)" "ev_cancel env"
  "\<lambda>conjunct :: solvable_id deferred_conjunct. let version_set = DeferredConjunct_version_set conjunct
     in and_then (get_or_cache_non_matching_candidates (ev_provider env) (ev_cancel env) version_set)
       (\<lambda>non_matching. answer (complement_of version_set non_matching))"
  "\<lambda>cj. complement_for (ev_provider env) (DeferredConjunct_version_set cj)" for env :: "'c environment"
proof
  fix cj :: "solvable_id deferred_conjunct"
  show "env_answers env (let version_set = DeferredConjunct_version_set cj
     in and_then (get_or_cache_non_matching_candidates (ev_provider env) (ev_cancel env) version_set)
       (\<lambda>non_matching. answer (complement_of version_set non_matching)))
    (complement_for (ev_provider env) (DeferredConjunct_version_set cj))"
    unfolding Let_def complement_for_def by (rule answers_and_then [OF non_matching.ask_answers answers_answer])
qed

lemma fetch_requirement_answers:
  "env_answers env (fetch_requirement env r) (sorted_lists (ev_provider env) r)"
  unfolding fetch_requirement_def sorted_lists_def by (rule sorted_set.join_answers)

lemma run_task_answers:
  assumes "conditions_ok (ev_provider env)"
  shows "env_answers env (run_task env root t) (task_answer (ev_provider env) root t)"
proof (cases t)
  case (Task_Dependencies k)
  show ?thesis
  proof (cases k)
    case Root
    then show ?thesis by (simp add: Task_Dependencies answers_answer)
  next
    case (Solvable s)
    show ?thesis unfolding Task_Dependencies Solvable
      by (simp add: answers_and_then [OF dependency.ask_answers answers_answer])
  qed
next
  case (Task_Candidates n)
  show ?thesis unfolding Task_Candidates run_task.simps task_answer.simps
    by (rule answers_and_then [OF package.ask_answers answers_answer])
next
  case (Task_ConditionData k req c)
  obtain dnf where dnf: "convert_conditions_to_dnf (pv_resolve_condition (ev_interner env)) c = Some dnf"
    using assms by (auto simp: conditions_ok_def)
  show ?thesis unfolding Task_ConditionData run_task.simps task_answer.simps dnf option.case dnf_for_def option.sel
    by (rule answers_and_then [OF disjunct.join_answers answers_answer])
next
  case (Task_RequirementCandidates k req cond)
  show ?thesis unfolding Task_RequirementCandidates run_task.simps task_answer.simps
    by (rule answers_and_then [OF fetch_requirement_answers answers_answer])
next
  case (Task_Deferred d)
  show ?thesis unfolding Task_Deferred run_task.simps task_answer.simps
    by (rule answers_and_then [OF complement.join_answers answers_and_then [OF fetch_requirement_answers answers_answer]])
next
  case (Task_ConstraintCandidates k vs)
  show ?thesis unfolding Task_ConstraintCandidates run_task.simps task_answer.simps
    by (rule answers_and_then [OF non_matching.ask_answers answers_answer])
qed

section \<open>Pending work\<close>

definition awaited :: "dependency_provider \<Rightarrow> 'c encoder \<Rightarrow> task_result set" where
  "awaited dp e = task_answer dp (en_root_dependencies e) ` set (en_pending_futures e) \<union>
     {x. Inr x \<in> set (en_pending_results e)}"

definition cancelled :: "'c encoder \<Rightarrow> bool" where
  "cancelled e \<longleftrightarrow> (\<exists>v. Inl v \<in> set (en_pending_results e))"

text \<open>What handling a result may add to the work: queued futures and registered clauses.\<close>

definition requirement_weight :: "requirement_condition \<Rightarrow> nat" where
  "requirement_weight cond = 1 + (case cond of None \<Rightarrow> 1 | Some (_, dnf) \<Rightarrow> length dnf)"

abbreviation package_count :: "dependency_provider \<Rightarrow> conditional_requirement \<Rightarrow> nat" where
  "package_count dp req \<equiv> length (requirement_version_sets (dp_interner dp) (cr_requirement req))"

definition condition_weight :: "dependency_provider \<Rightarrow> conditional_requirement \<Rightarrow> nat \<Rightarrow> nat" where
  "condition_weight dp req n = 2 + package_count dp req + n"

definition queue_weight :: "dependency_provider \<Rightarrow> conditional_requirement \<Rightarrow> nat" where
  "queue_weight dp req = (case cr_condition req of
     None \<Rightarrow> requirement_weight None
   | Some c \<Rightarrow> condition_weight dp req (length (dnf_for dp c)))"

definition package_weight :: "dependency_provider \<Rightarrow> conditional_requirement \<Rightarrow> nat" where
  "package_weight dp req = (if cr_condition req = None then package_count dp req else 0)"

fun dependencies_weight :: "dependency_provider \<Rightarrow> dependencies \<Rightarrow> nat" where
  "dependencies_weight dp (Unknown _) = 1"
| "dependencies_weight dp (Known d) = 1 + sum_list (map (package_weight dp) (kd_requirements d)) +
     sum_list (map (queue_weight dp) (kd_requirements d)) + 2 * length (kd_constrains d)"

fun result_weight :: "dependency_provider \<Rightarrow> task_result \<Rightarrow> nat" where
  "result_weight dp (Result_Dependencies _ d) = dependencies_weight dp d"
| "result_weight dp (Result_Candidates _ _) = 1"
| "result_weight dp (Result_ConditionData _ req _ ds) = condition_weight dp req (length ds)"
| "result_weight dp (Result_RequirementCandidates _ _ _ cond) = requirement_weight cond"
| "result_weight dp (Result_ConstraintCandidates _ _ _) = 1"

definition pending_weight :: "dependency_provider \<Rightarrow> 'c encoder \<Rightarrow> nat" where
  "pending_weight dp e =
     sum_list (map (\<lambda>t. result_weight dp (task_answer dp (en_root_dependencies e) t)) (en_pending_futures e)) +
     sum_list (map (\<lambda>r. case r of Inl _ \<Rightarrow> 0 | Inr x \<Rightarrow> result_weight dp x) (en_pending_results e))"

text \<open>The work not begun: the dependencies of the solvables that were not queued yet.\<close>

definition waiting_weight :: "dependency_provider \<Rightarrow> solvable_id set \<Rightarrow> 'c encoder \<Rightarrow> nat" where
  "waiting_weight dp U e = (\<Sum>k \<in> insert Root (Solvable ` U) - ss_clauses_added_for_solvable (en_state e).
     dependencies_weight dp (deps_of dp (en_root_dependencies e) k))"

definition work :: "dependency_provider \<Rightarrow> solvable_id set \<Rightarrow> 'c encoder \<Rightarrow> nat" where
  "work dp U e = waiting_weight dp U e + pending_weight dp e + length (dq_clauses (ss_decide_queue (en_state e)))"

section \<open>What a clause may say\<close>

abbreviation en_origin :: "'c encoder \<Rightarrow> variable_id \<Rightarrow> variable_origin option" where
  "en_origin e \<equiv> VariableMap_origin (ss_variable_map (en_state e))"

abbreviation en_kinds :: "'c encoder \<Rightarrow> clause list" where
  "en_kinds e \<equiv> ss_kinds (en_state e)"

fun var_of :: "solver_state \<Rightarrow> solvable_or_root \<Rightarrow> variable_id option" where
  "var_of s Root = Some 0"
| "var_of s (Solvable x) = lookup_solvable (ss_variable_map s) x"

abbreviation origin_of :: "solver_state \<Rightarrow> variable_id \<Rightarrow> variable_origin option" where
  "origin_of s \<equiv> VariableMap_origin (ss_variable_map s)"

definition requires_of :: "dependency_provider \<Rightarrow> dependencies \<Rightarrow> solvable_or_root \<Rightarrow> conditional_requirement \<Rightarrow> bool" where
  "requires_of dp root k req \<longleftrightarrow> (\<exists>d. deps_of dp root k = Known d \<and> req \<in> set (kd_requirements d))"

definition constrains_of :: "dependency_provider \<Rightarrow> dependencies \<Rightarrow> solvable_or_root \<Rightarrow> version_set_id \<Rightarrow> bool" where
  "constrains_of dp root k vs \<longleftrightarrow> (\<exists>d. deps_of dp root k = Known d \<and> vs \<in> set (kd_constrains d))"

text \<open>The literals that stand for "the version set does not match".\<close>

definition complement_lits :: "dependency_provider \<Rightarrow> solver_state \<Rightarrow> version_set_id \<Rightarrow> literal list \<Rightarrow> bool" where
  "complement_lits dp s vs ls \<longleftrightarrow>
     (if non_matching_for dp vs = []
      then \<exists>a. ls = [negative a] \<and> origin_of s a = Some (Origin_AtLeastOne (pv_version_set_name (dp_interner dp) vs))
      else list_all2 (\<lambda>x l. \<exists>v. lookup_solvable (ss_variable_map s) x = Some v \<and> l = positive v) (non_matching_for dp vs) ls)"

definition disjunct_lits :: "dependency_provider \<Rightarrow> solver_state \<Rightarrow> version_set_id list \<Rightarrow> literal list \<Rightarrow> bool" where
  "disjunct_lits dp s cnf ls \<longleftrightarrow> (\<exists>lss. ls = concat lss \<and> list_all2 (complement_lits dp s) cnf lss)"

definition condition_encoded ::
  "dependency_provider \<Rightarrow> solver_state \<Rightarrow> conditional_requirement \<Rightarrow> disjunction_id option \<Rightarrow> bool" where
  "condition_encoded dp s req d \<longleftrightarrow> (case cr_condition req of
     None \<Rightarrow> d = None
   | Some c \<Rightarrow> \<exists>i cnf. d = Some i \<and> i < length (ss_disjunctions s) \<and> cnf \<in> set (dnf_for dp c) \<and>
       disjunct_lits dp s cnf (dj_literals (ss_disjunctions s ! i)))"

text \<open>Why the encoder adds a clause.\<close>

fun justified :: "dependency_provider \<Rightarrow> dependencies \<Rightarrow> solver_state \<Rightarrow> clause \<Rightarrow> bool" where
  "justified dp root s (Excluded v reason) \<longleftrightarrow> (\<exists>k. var_of s k = Some v \<and>
     (deps_of dp root k = Unknown reason \<or> (\<exists>x n. k = Solvable x \<and> (x, reason) \<in> set (ca_excluded (candidates_for dp n)))))"
| "justified dp root s (Lock l v) \<longleftrightarrow> (\<exists>n a b. ca_locked (candidates_for dp n) = Some a \<and> b \<in> set (ca_candidates (candidates_for dp n)) \<and>
     b \<noteq> a \<and> var_of s (Solvable a) = Some l \<and> var_of s (Solvable b) = Some v)"
| "justified dp root s (Constrains v w vs) \<longleftrightarrow> (\<exists>k c. constrains_of dp root k vs \<and> c \<in> set (non_matching_for dp vs) \<and>
     var_of s k = Some v \<and> var_of s (Solvable c) = Some w)"
| "justified dp root s (ConstrainsExcluded w a vs) \<longleftrightarrow> origin_of s a = Some (Origin_ConstrainsViolation vs) \<and>
     (\<exists>c \<in> set (non_matching_for dp vs). var_of s (Solvable c) = Some w)"
| "justified dp root s (ConstrainsParent v a vs) \<longleftrightarrow> origin_of s a = Some (Origin_ConstrainsViolation vs) \<and>
     (\<exists>k. constrains_of dp root k vs \<and> var_of s k = Some v)"
| "justified dp root s (Requires v d r) \<longleftrightarrow> (origin_of s v = Some (Origin_RequiresGate r) \<and> d = None) \<or>
     (\<exists>k req. requires_of dp root k req \<and> cr_requirement req = r \<and> var_of s k = Some v \<and> condition_encoded dp s req d)"
| "justified dp root s (AnyOf g v) \<longleftrightarrow>
     (\<exists>k req. requires_of dp root k req \<and> cr_condition req = None \<and> var_of s k = Some v \<and>
        origin_of s g = Some (Origin_RequiresGate (cr_requirement req))) \<or>
     (\<exists>x. var_of s (Solvable x) = Some v \<and>
        origin_of s g = Some (Origin_AtLeastOne (pv_solvable_name (dp_interner dp) x)))"
| "justified dp root s (ForbidMultipleInstances v l n) \<longleftrightarrow> origin_of s (variable l) = Some (Origin_ForbidMultiple n) \<and>
     (\<exists>x. var_of s (Solvable x) = Some v \<and> pv_solvable_name (dp_interner dp) x = n)"
| "justified dp root s (Learnt _) \<longleftrightarrow> False"
| "justified dp root s InstallRoot \<longleftrightarrow> False"

text \<open>The results that can be pending, and the entries that can be deferred.\<close>

definition genuine_condition :: "dependency_provider \<Rightarrow> conditional_requirement \<Rightarrow> requirement_condition \<Rightarrow> bool" where
  "genuine_condition dp req cond \<longleftrightarrow> (case cond of
     None \<Rightarrow> cr_condition req = None
   | Some (c, cnfs) \<Rightarrow> cr_condition req = Some c \<and>
       (\<exists>dnf. set dnf \<subseteq> set (dnf_for dp c) \<and> cnfs = map (map (complement_for dp)) dnf))"

fun genuine :: "dependency_provider \<Rightarrow> dependencies \<Rightarrow> task_result \<Rightarrow> bool" where
  "genuine dp root (Result_Dependencies k d) \<longleftrightarrow> d = deps_of dp root k"
| "genuine dp root (Result_Candidates n cs) \<longleftrightarrow> cs = candidates_for dp n"
| "genuine dp root (Result_ConditionData k req c ds) \<longleftrightarrow> requires_of dp root k req \<and> cr_condition req = Some c \<and>
     ds = map (\<lambda>cnf. \<lparr>dd_conjuncts = map (conjunct_for dp) cnf\<rparr>) (dnf_for dp c)"
| "genuine dp root (Result_RequirementCandidates k req cands cond) \<longleftrightarrow> requires_of dp root k req \<and>
     cands = sorted_lists dp (cr_requirement req) \<and> genuine_condition dp req cond"
| "genuine dp root (Result_ConstraintCandidates k vs cs) \<longleftrightarrow> constrains_of dp root k vs \<and> cs = non_matching_for dp vs"

definition genuine_deferred :: "dependency_provider \<Rightarrow> dependencies \<Rightarrow> solvable_id deferred_requirement \<Rightarrow> bool" where
  "genuine_deferred dp root d \<longleftrightarrow> requires_of dp root (dr_solvable_id d) (dr_requirement d) \<and>
     cr_condition (dr_requirement d) = Some (dr_condition d) \<and>
     map DeferredConjunct_version_set (dr_disjunct d) \<in> set (dnf_for dp (dr_condition d))"

section \<open>The steps\<close>

definition vars_of_lists :: "solver_state \<Rightarrow> solvable_id list list \<Rightarrow> variable_id list list \<Rightarrow> bool" where
  "vars_of_lists s = list_all2 (list_all2 (\<lambda>x v. lookup_solvable (ss_variable_map s) x = Some v))"

definition zipped :: "'a list list \<Rightarrow> 'b list list \<Rightarrow> ('a \<times> 'b) list" where
  "zipped xss yss = concat (map2 zip xss yss)"

definition tracked_in :: "solver_state \<Rightarrow> name_id \<Rightarrow> variable_id set" where
  "tracked_in s n = (case ss_at_most_one_trackers s n of None \<Rightarrow> {} | Some t \<Rightarrow> set (amo_variables t))"

text \<open>The candidate is registered for the at-most-one clauses of its package, if that has any.\<close>

definition target_registered :: "dependency_provider \<Rightarrow> 'c encoder \<Rightarrow> solvable_id \<Rightarrow> variable_id \<Rightarrow> bool" where
  "target_registered dp e x v \<longleftrightarrow> (let n = pv_solvable_name (dp_interner dp) x in
     n \<in> ss_allow_multiple_names (en_state e) \<or> v \<in> en_forbid_seen e \<or> v \<in> tracked_in (en_state e) n)"

definition excludes_linked :: "dependency_provider \<Rightarrow> solver_state \<Rightarrow> version_set_id \<Rightarrow> variable_id \<Rightarrow> bool" where
  "excludes_linked dp s vs a \<longleftrightarrow> (\<forall>c \<in> set (non_matching_for dp vs). \<exists>w. lookup_solvable (ss_variable_map s) c = Some w \<and>
     ConstrainsExcluded w a vs \<in> set (ss_kinds s))"

text \<open>A literal is implied by a clause whose other literals are false.\<close>

definition unit_in :: "solver_state \<Rightarrow> clause_id \<Rightarrow> literal \<Rightarrow> bool" where
  "unit_in s c l \<longleftrightarrow> c < length (ss_kinds s) \<and> (\<exists>ls. lits s (kind_of s c) = Some ls \<and> l \<in> set ls \<and>
     (\<forall>l' \<in> set ls - {l}. lit_value (ss_decision_tracker s) l' = Some False))"

abbreviation on_state :: "(solver_state \<Rightarrow> solver_state) \<Rightarrow> 'c encoder \<Rightarrow> 'c encoder" where
  "on_state f e \<equiv> e\<lparr>en_state := f (en_state e)\<rparr>"

inductive micro :: "'c environment \<Rightarrow> solvable_id set \<Rightarrow> nat \<Rightarrow> 'c encoder \<Rightarrow> 'c encoder \<Rightarrow> bool" for env U where
  intern: "micro env U 0 e (snd (en_variable (VariableMap_intern_solvable x) e))"
| alloc: "auxiliary_origin orig \<Longrightarrow> (\<And>n. orig \<noteq> Origin_AtLeastOne n) \<Longrightarrow>
    micro env U 0 e (snd (en_variable (VariableMap_alloc orig) e))"
| at_least: "(\<And>a. en_origin e a \<noteq> Some (Origin_AtLeastOne n)) \<Longrightarrow> en_variable (alloc_at_least_one_variable n) e = (v, e1) \<Longrightarrow>
    micro env U 0 e (e1\<lparr>en_new_at_least_one_packages := en_new_at_least_one_packages e1 @ [(n, v)]\<rparr>)"
| watched: "justified (ev_provider env) (en_root_dependencies e) (en_state e) k \<Longrightarrow>
    ((\<forall>v vs. k \<noteq> Constrains v v vs) \<longrightarrow> well_watched (en_state e) k wl) \<Longrightarrow> lits (en_state e) k \<noteq> None \<Longrightarrow>
    micro env U 0 e (snd (en_clause (Some wl, k) e))"
| single: "justified (ev_provider env) (en_root_dependencies e) (en_state e) k \<Longrightarrow> lits (en_state e) k = Some [negative v] \<Longrightarrow>
    micro env U 0 e (on_state (\<lambda>s. s\<lparr>ss_negative_assertions := ss_negative_assertions s @ [(v, length (en_kinds e))]\<rparr>)
      (snd (en_clause (None, k) e)))"
| decision: "en_value e v = None \<Longrightarrow> (\<And>n. en_origin e v \<noteq> Some (Origin_AtLeastOne n)) \<Longrightarrow> en_origin e v \<noteq> None \<Longrightarrow>
    unit_in (en_state e) c (if b then positive v else negative v) \<Longrightarrow> en_decide v b c e = Some e' \<Longrightarrow> micro env U 0 e e'"
| conflict: "c < length (en_kinds e) \<Longrightarrow> micro env U 0 e (en_conflict b c e)"
| register: "c < length (en_kinds e) \<Longrightarrow> kind_of (en_state e) c = Requires p d r \<Longrightarrow>
    ss_requirement_to_sorted_candidates (en_state e) r \<noteq> None \<Longrightarrow>
    add_requires_clause p r d c (names_of (ev_interner env) r) (en_state e) = Some s \<Longrightarrow>
    micro env U 1 e (e\<lparr>en_state := s\<rparr>)"
| disjunction: "micro env U 0 e (on_state (\<lambda>s. s\<lparr>ss_disjunctions := ss_disjunctions s @ [dj]\<rparr>) e)"
| candidates: "vars_of_lists (en_state e) (sorted_lists (ev_provider env) r) vss \<Longrightarrow>
    (\<forall>(x, v) \<in> set (zipped (sorted_lists (ev_provider env) r) vss). target_registered (ev_provider env) e x v) \<Longrightarrow>
    ss_requirement_to_sorted_candidates (en_state e) r \<in> {None, Some vss} \<Longrightarrow>
    micro env U 0 e (on_state (\<lambda>s. s\<lparr>ss_requirement_to_sorted_candidates := (ss_requirement_to_sorted_candidates s)(r \<mapsto> vss)\<rparr>) e)"
| violation: "ss_constrains_aux_vars (en_state e) vs = None \<Longrightarrow> en_origin e a = Some (Origin_ConstrainsViolation vs) \<Longrightarrow>
    excludes_linked (ev_provider env) (en_state e) vs a \<Longrightarrow>
    micro env U 0 e (on_state (\<lambda>s. s\<lparr>ss_constrains_aux_vars := (ss_constrains_aux_vars s)(vs \<mapsto> a)\<rparr>) e)"
| gate: "ss_requires_aux_vars (en_state e) r = None \<Longrightarrow> en_origin e g = Some (Origin_RequiresGate r) \<Longrightarrow>
    Requires g None r \<in> set (en_kinds e) \<Longrightarrow>
    micro env U 0 e (on_state (\<lambda>s. s\<lparr>ss_requires_aux_vars := (ss_requires_aux_vars s)(r \<mapsto> g)\<rparr>) e)"
| requirer: "c < length (en_kinds e) \<Longrightarrow> kind_of (en_state e) c = AnyOf g v \<Longrightarrow>
    micro env U 0 e (on_state (\<lambda>s. s\<lparr>ss_requires_gate_requirers := im_push (ss_requires_gate_requirers s) g (v, c)\<rparr>) e)"
| deferred: "genuine_deferred (ev_provider env) (en_root_dependencies e) d \<Longrightarrow> micro env U 0 e (on_state (push_deferred d) e)"
| multiple: "ca_allow_multiple (candidates_for (ev_provider env) n) \<Longrightarrow>
    micro env U 0 e (on_state (\<lambda>s. s\<lparr>ss_allow_multiple_names := insert n (ss_allow_multiple_names s)\<rparr>) e)"
| solvable: "k \<notin> ss_clauses_added_for_solvable (en_state e) \<Longrightarrow> k \<in> insert Root (Solvable ` U) \<Longrightarrow>
    queue_future env (Task_Dependencies k) (on_state (\<lambda>s. s\<lparr>ss_clauses_added_for_solvable :=
      insert k (ss_clauses_added_for_solvable s)\<rparr>) e) = Some e' \<Longrightarrow> micro env U 0 e e'"
| package: "n \<notin> ss_clauses_added_for_package (en_state e) \<Longrightarrow>
    queue_future env (Task_Candidates n) (on_state (\<lambda>s. s\<lparr>ss_clauses_added_for_package :=
      insert n (ss_clauses_added_for_package s)\<rparr>) e) = Some e' \<Longrightarrow> micro env U 1 e e'"
| future: "genuine (ev_provider env) (en_root_dependencies e) (task_answer (ev_provider env) (en_root_dependencies e) t) \<Longrightarrow>
    (\<And>k. t \<noteq> Task_Dependencies k) \<Longrightarrow> (\<And>n. t \<noteq> Task_Candidates n) \<Longrightarrow> queue_future env t e = Some e' \<Longrightarrow>
    micro env U (result_weight (ev_provider env) (task_answer (ev_provider env) (en_root_dependencies e) t)) e e'"
| target: "en_origin e v = Some (Origin_Solvable x) \<Longrightarrow> pv_solvable_name (ev_interner env) x = n \<Longrightarrow>
    micro env U 0 e (register_forbid_target n v e)"

text \<open>Sequences of steps, with the work they add.\<close>

inductive steps :: "'c environment \<Rightarrow> solvable_id set \<Rightarrow> nat \<Rightarrow> 'c encoder \<Rightarrow> 'c encoder \<Rightarrow> bool" for env U where
  stay: "steps env U 0 e e"
| move: "steps env U n e e1 \<Longrightarrow> micro env U m e1 e2 \<Longrightarrow> steps env U (n + m) e e2"

lemma steps_one: "micro env U m e e' \<Longrightarrow> steps env U m e e'"
  using steps.move [OF steps.stay] by fastforce

lemma steps_trans:
  assumes "steps env U n e e1" "steps env U m e1 e2"
  shows "steps env U (n + m) e e2"
  using assms(2,1)
proof (induction rule: steps.induct)
  case (move k e1 e2 m e3)
  from steps.move [OF move.IH [OF move.prems] move.hyps(2)] show ?case by (simp add: add.assoc)
qed simp

section \<open>What steps keep\<close>

definition deferred_set :: "solver_state \<Rightarrow> solvable_id deferred_requirement set" where
  "deferred_set s = (\<Union>(c, ds) \<in> set (ss_deferred_requirements s). set ds)"

definition state_ext :: "solver_state \<Rightarrow> solver_state \<Rightarrow> bool" where
  "state_ext s s' \<longleftrightarrow> (\<exists>ks. ss_kinds s' = ss_kinds s @ ks) \<and> (\<exists>ds. ss_disjunctions s' = ss_disjunctions s @ ds) \<and>
     origin_of s \<subseteq>\<^sub>m origin_of s' \<and> lookup_solvable (ss_variable_map s) \<subseteq>\<^sub>m lookup_solvable (ss_variable_map s') \<and>
     ss_requirement_to_sorted_candidates s \<subseteq>\<^sub>m ss_requirement_to_sorted_candidates s' \<and>
     ss_constrains_aux_vars s \<subseteq>\<^sub>m ss_constrains_aux_vars s' \<and> ss_requires_aux_vars s \<subseteq>\<^sub>m ss_requires_aux_vars s' \<and>
     ss_at_least_one_tracker s \<subseteq>\<^sub>m ss_at_least_one_tracker s' \<and> (\<forall>n. tracked_in s n \<subseteq> tracked_in s' n) \<and>
     ss_learnt_clauses s' = ss_learnt_clauses s \<and> ss_clauses_added_for_solvable s \<subseteq> ss_clauses_added_for_solvable s' \<and>
     ss_clauses_added_for_package s \<subseteq> ss_clauses_added_for_package s' \<and>
     ss_allow_multiple_names s \<subseteq> ss_allow_multiple_names s' \<and> deferred_set s \<subseteq> deferred_set s'"

lemma state_extD:
  assumes "state_ext s s'"
  shows "set (ss_kinds s) \<subseteq> set (ss_kinds s')" "length (ss_kinds s) \<le> length (ss_kinds s')"
    "c < length (ss_kinds s) \<Longrightarrow> kind_of s' c = kind_of s c"
    "i < length (ss_disjunctions s) \<Longrightarrow> i < length (ss_disjunctions s') \<and> ss_disjunctions s' ! i = ss_disjunctions s ! i"
    "origin_of s v = Some og \<Longrightarrow> origin_of s' v = Some og"
    "lookup_solvable (ss_variable_map s) x = Some v \<Longrightarrow> lookup_solvable (ss_variable_map s') x = Some v"
    "var_of s k = Some v \<Longrightarrow> var_of s' k = Some v"
    "ss_requirement_to_sorted_candidates s r = Some vss \<Longrightarrow> ss_requirement_to_sorted_candidates s' r = Some vss"
    "ss_constrains_aux_vars s vs = Some a \<Longrightarrow> ss_constrains_aux_vars s' vs = Some a"
    "ss_requires_aux_vars s r = Some a \<Longrightarrow> ss_requires_aux_vars s' r = Some a"
    "ss_at_least_one_tracker s n = Some a \<Longrightarrow> ss_at_least_one_tracker s' n = Some a"
    "v \<in> tracked_in s n \<Longrightarrow> v \<in> tracked_in s' n" "ss_learnt_clauses s' = ss_learnt_clauses s"
    "k \<in> ss_clauses_added_for_solvable s \<Longrightarrow> k \<in> ss_clauses_added_for_solvable s'"
    "n \<in> ss_clauses_added_for_package s \<Longrightarrow> n \<in> ss_clauses_added_for_package s'"
    "n \<in> ss_allow_multiple_names s \<Longrightarrow> n \<in> ss_allow_multiple_names s'"
    "d \<in> deferred_set s \<Longrightarrow> d \<in> deferred_set s'"
proof -
  show "var_of s' k = Some v" if "var_of s k = Some v"
    using assms that by (cases k) (auto simp: state_ext_def map_le_def dom_def)
qed (use assms in \<open>auto simp: state_ext_def map_le_def dom_def nth_append subset_iff\<close>)

lemma state_ext_refl [simp]: "state_ext s s"
  by (simp add: state_ext_def)

lemma state_ext_trans: "state_ext s s' \<Longrightarrow> state_ext s' s'' \<Longrightarrow> state_ext s s''"
  unfolding state_ext_def by (auto 0 3 intro: map_le_trans) (meson subsetD)

definition enc_ext :: "dependency_provider \<Rightarrow> 'c encoder \<Rightarrow> 'c encoder \<Rightarrow> bool" where
  "enc_ext dp e e' \<longleftrightarrow> state_ext (en_state e) (en_state e') \<and> en_root_dependencies e' = en_root_dependencies e \<and>
     en_level e' = en_level e \<and> en_forbid_seen e \<subseteq> en_forbid_seen e' \<and>
     set (en_new_at_least_one_packages e) \<subseteq> set (en_new_at_least_one_packages e') \<and>
     awaited dp e \<subseteq> awaited dp e' \<and> (cancelled e \<longrightarrow> cancelled e')"

lemma enc_extD:
  assumes "enc_ext dp e e'"
  shows "state_ext (en_state e) (en_state e')" "en_root_dependencies e' = en_root_dependencies e"
    "en_level e' = en_level e" "v \<in> en_forbid_seen e \<Longrightarrow> v \<in> en_forbid_seen e'"
    "p \<in> set (en_new_at_least_one_packages e) \<Longrightarrow> p \<in> set (en_new_at_least_one_packages e')"
    "x \<in> awaited dp e \<Longrightarrow> x \<in> awaited dp e'" "cancelled e \<Longrightarrow> cancelled e'"
  using assms by (auto simp: enc_ext_def)

lemma enc_ext_refl [simp]: "enc_ext dp e e"
  by (simp add: enc_ext_def)

lemma enc_ext_trans: "enc_ext dp e e' \<Longrightarrow> enc_ext dp e' e'' \<Longrightarrow> enc_ext dp e e''"
  unfolding enc_ext_def using state_ext_trans by (auto 0 4)

text \<open>What the shared operations change.\<close>

lemma en_variable_eq: "snd (en_variable f e) = on_state (\<lambda>s. s\<lparr>ss_variable_map := snd (f (ss_variable_map s))\<rparr>) e"
  "fst (en_variable f e) = fst (f (ss_variable_map (en_state e)))"
  by (simp_all add: en_variable_def split_beta)

lemma en_clause_eq:
  "snd (en_clause wk e) = on_state (\<lambda>s. snd (add_clause (fst wk) (snd wk) s)) e"
  "fst (en_clause wk e) = length (en_kinds e)"
  by (simp_all add: en_clause_def split_beta)

lemma add_clause_frame2 [simp]:
  "ss_clauses_added_for_solvable (snd (add_clause w k s)) = ss_clauses_added_for_solvable s"
  "ss_clauses_added_for_package (snd (add_clause w k s)) = ss_clauses_added_for_package s"
  "ss_allow_multiple_names (snd (add_clause w k s)) = ss_allow_multiple_names s"
  by (simp_all add: add_clause_def Clauses_alloc_def split_beta split: option.split)

lemma en_decide_eq:
  "en_decide v b c e = (case en_value e v of
     None \<Rightarrow> Some (on_state (\<lambda>s. s\<lparr>ss_decision_tracker := push_decision (ss_decision_tracker s) (Decision_new v b c) (en_level e)\<rparr>) e)
   | Some b' \<Rightarrow> if b' = b then Some e else None)"
  by (simp add: en_decide_def try_add_decision_eq Decision_new_def split: option.split)

lemma queue_future_frame:
  assumes "queue_future env t e = Some e'"
  obtains c rs ts where "e' = e\<lparr>en_queued := en_queued e + 1, en_cache := c, en_pending_results := en_pending_results e @ rs,
    en_pending_futures := en_pending_futures e @ ts\<rparr>"
proof (cases "ev_ready env (en_queued e)")
  case True
  then obtain r c where "e' = e\<lparr>en_queued := en_queued e + 1, en_cache := c, en_pending_results := en_pending_results e @ [r]\<rparr>"
    using assms by (auto simp: queue_future_def Let_def)
  then show thesis by (intro that [where c = c and rs = "[r]" and ts = "[]"]) simp
next
  case False
  then have "e' = e\<lparr>en_queued := en_queued e + 1, en_pending_futures := en_pending_futures e @ [t]\<rparr>"
    using assms by (simp add: queue_future_def Let_def)
  then show thesis by (intro that [where c = "en_cache e" and rs = "[]" and ts = "[t]"]) simp
qed

lemma im_push_set: "(\<Union>(c, ds) \<in> set (im_push m k x). set ds) = insert x (\<Union>(c, ds) \<in> set m. set ds)"
  by (induction m k x rule: im_push.induct) auto

lemma deferred_set_push [simp]: "deferred_set (push_deferred d s) = insert d (deferred_set s)"
  by (simp add: deferred_set_def push_deferred_def im_push_set)

lemma intern_keeps:
  "VariableMap_origin m \<subseteq>\<^sub>m VariableMap_origin (snd (VariableMap_intern_solvable x m))"
  "lookup_solvable m \<subseteq>\<^sub>m lookup_solvable (snd (VariableMap_intern_solvable x m))"
  by (auto simp: VariableMap_intern_solvable_def VariableMap_alloc_def VariableMap_origin_def lookup_solvable_def
      slice_get_snoc map_le_def dom_def split: option.split)

lemma alloc_keeps:
  "VariableMap_origin m \<subseteq>\<^sub>m VariableMap_origin (snd (VariableMap_alloc og m))"
  "lookup_solvable m \<subseteq>\<^sub>m lookup_solvable (snd (VariableMap_alloc og m))"
  by (auto simp: VariableMap_alloc_def VariableMap_origin_def lookup_solvable_def slice_get_snoc map_le_def dom_def)

lemma upd_keeps: "m k = None \<or> m k = Some v \<Longrightarrow> m \<subseteq>\<^sub>m m(k \<mapsto> v)"
  by (auto simp: map_le_def dom_def)

lemma micro_ext:
  assumes "micro env U m e e'"
  shows "enc_ext dp e e'"
  using assms
proof (cases rule: micro.cases)
  case (at_least n v e1)
  then show ?thesis
    by (auto simp: en_variable_def alloc_at_least_one_variable_def split_beta enc_ext_def state_ext_def deferred_set_def alloc_keeps tracked_in_def
        awaited_def cancelled_def)
next
  case (register c p d r s)
  then show ?thesis
    by (auto simp: add_requires_clause_def enc_ext_def state_ext_def deferred_set_def tracked_in_def awaited_def cancelled_def)
next
  case (solvable k)
  from solvable(4) show ?thesis
    by (rule queue_future_frame) (auto simp: enc_ext_def state_ext_def deferred_set_def tracked_in_def awaited_def cancelled_def)
next
  case (package n)
  from package(3) show ?thesis
    by (rule queue_future_frame) (auto simp: enc_ext_def state_ext_def deferred_set_def tracked_in_def awaited_def cancelled_def)
next
  case (future t)
  from future(5) show ?thesis
    by (rule queue_future_frame) (auto simp: enc_ext_def state_ext_def deferred_set_def tracked_in_def awaited_def cancelled_def)
qed (auto simp: enc_ext_def state_ext_def awaited_def cancelled_def en_variable_eq en_clause_eq en_decide_eq en_conflict_def
    register_forbid_target_def intern_keeps alloc_keeps upd_keeps tracked_in_def deferred_set_def push_deferred_def im_push_set
    simp del: VariableMap_alloc_simps split: option.splits if_splits)

lemma steps_ext: "steps env U n e e' \<Longrightarrow> enc_ext dp e e'"
  by (induction rule: steps.induct) (auto intro: enc_ext_trans micro_ext)

end
