(* ===== verification/Encoder_Invariant.thy ===== *)
theory Encoder_Invariant
  imports Encoder_Steps
begin

text \<open>
  The invariant of the encoder: what the tables of the solver state say about the clauses,
  and what the queues of the encoder hold. It is kept by every step of \<open>micro\<close>.
\<close>

section \<open>What a step changes\<close>

lemmas enc_defs = en_variable_eq en_clause_eq en_decide_eq en_conflict_def register_forbid_target_def push_deferred_def
  add_requires_clause_def

lemma at_least_alloc:
  "en_variable (alloc_at_least_one_variable n) e = (v, e1) \<longleftrightarrow> v = variable_count (ss_variable_map (en_state e)) \<and>
    e1 = on_state (\<lambda>s. s\<lparr>ss_variable_map := snd (VariableMap_alloc (Origin_AtLeastOne n) (ss_variable_map s))\<rparr>) e"
  by (auto simp: en_variable_def alloc_at_least_one_variable_def split_beta)

lemma micro_fields:
  assumes "micro env U m e e'"
  shows "ss_at_least_one_tracker (en_state e') = ss_at_least_one_tracker (en_state e)"
    "ss_at_most_one_trackers (en_state e') = ss_at_most_one_trackers (en_state e)"
    "ss_learnt_clauses (en_state e') = ss_learnt_clauses (en_state e)"
    "ss_learnt_clause_ids (en_state e') = ss_learnt_clause_ids (en_state e)"
    "ss_learnt_why (en_state e') = ss_learnt_why (en_state e)"
    "en_level e' = en_level e" "en_root_dependencies e' = en_root_dependencies e"
  using assms
  by (cases rule: micro.cases; auto simp: enc_defs at_least_alloc elim!: queue_future_frame split: option.splits if_splits)+

lemma micro_kinds:
  assumes "micro env U m e e'"
  shows "en_kinds e' = en_kinds e \<or> (\<exists>k. en_kinds e' = en_kinds e @ [k] \<and> lits (en_state e) k \<noteq> None \<and>
    justified (ev_provider env) (en_root_dependencies e) (en_state e) k)"
  using assms
  by (cases rule: micro.cases) (auto simp: enc_defs at_least_alloc elim!: queue_future_frame split: option.splits if_splits)

lemma micro_variables:
  assumes "micro env U m e e'"
  shows "(ss_variable_map (en_state e') = ss_variable_map (en_state e) \<and>
      en_new_at_least_one_packages e' = en_new_at_least_one_packages e) \<or>
    (\<exists>x. ss_variable_map (en_state e') = snd (VariableMap_intern_solvable x (ss_variable_map (en_state e))) \<and>
      en_new_at_least_one_packages e' = en_new_at_least_one_packages e) \<or>
    (\<exists>og. auxiliary_origin og \<and> (\<forall>n. og \<noteq> Origin_AtLeastOne n) \<and>
      ss_variable_map (en_state e') = snd (VariableMap_alloc og (ss_variable_map (en_state e))) \<and>
      en_new_at_least_one_packages e' = en_new_at_least_one_packages e) \<or>
    (\<exists>n. (\<forall>a. en_origin e a \<noteq> Some (Origin_AtLeastOne n)) \<and>
      ss_variable_map (en_state e') = snd (VariableMap_alloc (Origin_AtLeastOne n) (ss_variable_map (en_state e))) \<and>
      en_new_at_least_one_packages e' = en_new_at_least_one_packages e @ [(n, variable_count (ss_variable_map (en_state e)))])"
  using assms
  by (cases rule: micro.cases)
    (auto simp: enc_defs at_least_alloc simp del: VariableMap_alloc_simps elim!: queue_future_frame split: option.splits if_splits)

lemma micro_trail:
  assumes "micro env U m e e'"
  shows "ss_decision_tracker (en_state e') = ss_decision_tracker (en_state e) \<or>
    (\<exists>v b c. en_value e v = None \<and> en_origin e v \<noteq> None \<and> (\<forall>n. en_origin e v \<noteq> Some (Origin_AtLeastOne n)) \<and>
      unit_in (en_state e) c (if b then positive v else negative v) \<and> ss_kinds (en_state e') = ss_kinds (en_state e) \<and>
      ss_variable_map (en_state e') = ss_variable_map (en_state e) \<and>
      en_new_at_least_one_packages e' = en_new_at_least_one_packages e \<and>
      ss_decision_tracker (en_state e') = push_decision (ss_decision_tracker (en_state e)) (Decision_new v b c) (en_level e))"
  using assms
proof (cases rule: micro.cases)
  case (decision v c b)
  then show ?thesis by (intro disjI2) (rule exI [of _ v], rule exI [of _ b], rule exI [of _ c], auto simp: en_decide_eq)
qed (auto simp: enc_defs at_least_alloc simp del: VariableMap_alloc_simps elim!: queue_future_frame split: option.splits if_splits)

lemma micro_candidates:
  assumes "micro env U m e e'"
  shows "ss_requirement_to_sorted_candidates (en_state e') = ss_requirement_to_sorted_candidates (en_state e) \<or>
    (\<exists>r vss. vars_of_lists (en_state e) (sorted_lists (ev_provider env) r) vss \<and>
      (\<forall>(x, v) \<in> set (zipped (sorted_lists (ev_provider env) r) vss). target_registered (ev_provider env) e x v) \<and>
      ss_requirement_to_sorted_candidates (en_state e') = (ss_requirement_to_sorted_candidates (en_state e))(r \<mapsto> vss))"
  using assms
proof (cases rule: micro.cases)
  case (candidates r vss)
  then show ?thesis by (intro disjI2 exI [of _ r] exI [of _ vss]) auto
qed (auto simp: enc_defs at_least_alloc simp del: VariableMap_alloc_simps elim!: queue_future_frame split: option.splits if_splits)

lemma micro_violation:
  assumes "micro env U m e e'"
  shows "ss_constrains_aux_vars (en_state e') = ss_constrains_aux_vars (en_state e) \<or>
    (\<exists>vs a. en_origin e a = Some (Origin_ConstrainsViolation vs) \<and> excludes_linked (ev_provider env) (en_state e) vs a \<and>
      ss_constrains_aux_vars (en_state e') = (ss_constrains_aux_vars (en_state e))(vs \<mapsto> a))"
  using assms
proof (cases rule: micro.cases)
  case (violation vs a)
  then show ?thesis by (intro disjI2) (rule exI [of _ vs], rule exI [of _ a], simp)
qed (auto simp: enc_defs at_least_alloc simp del: VariableMap_alloc_simps elim!: queue_future_frame split: option.splits if_splits)

lemma micro_gate:
  assumes "micro env U m e e'"
  shows "ss_requires_aux_vars (en_state e') = ss_requires_aux_vars (en_state e) \<or>
    (\<exists>r g. en_origin e g = Some (Origin_RequiresGate r) \<and> Requires g None r \<in> set (en_kinds e) \<and>
      ss_requires_aux_vars (en_state e') = (ss_requires_aux_vars (en_state e))(r \<mapsto> g))"
  using assms
proof (cases rule: micro.cases)
  case (gate r g)
  then show ?thesis by (intro disjI2) (rule exI [of _ r], rule exI [of _ g], simp)
qed (auto simp: enc_defs at_least_alloc simp del: VariableMap_alloc_simps elim!: queue_future_frame split: option.splits if_splits)

lemma micro_deferred:
  assumes "micro env U m e e'"
  shows "deferred_set (en_state e') = deferred_set (en_state e) \<or>
    (\<exists>d. genuine_deferred (ev_provider env) (en_root_dependencies e) d \<and> deferred_set (en_state e') = insert d (deferred_set (en_state e)))"
  using assms
proof (cases rule: micro.cases)
  case (deferred d)
  then show ?thesis by (intro disjI2) (rule exI [of _ d], simp)
qed (auto simp: enc_defs at_least_alloc deferred_set_def simp del: VariableMap_alloc_simps elim!: queue_future_frame split: option.splits if_splits)

lemma micro_multiple:
  assumes "micro env U m e e'"
  shows "ss_allow_multiple_names (en_state e') \<subseteq>
    ss_allow_multiple_names (en_state e) \<union> {n. ca_allow_multiple (candidates_for (ev_provider env) n)}"
  using assms
  by (cases rule: micro.cases)
    (auto simp: enc_defs at_least_alloc simp del: VariableMap_alloc_simps elim!: queue_future_frame split: option.splits if_splits)

lemma micro_forbid:
  assumes "micro env U m e e'"
  shows "(en_forbid_seen e' = en_forbid_seen e \<and> en_pending_forbid_clauses e' = en_pending_forbid_clauses e) \<or>
    (\<exists>v x. en_origin e v = Some (Origin_Solvable x) \<and> v \<notin> en_forbid_seen e \<and> en_forbid_seen e' = insert v (en_forbid_seen e) \<and>
      en_pending_forbid_clauses e' = im_push (en_pending_forbid_clauses e) (pv_solvable_name (ev_interner env) x) v)"
  using assms
  by (cases rule: micro.cases)
    (auto simp: enc_defs at_least_alloc simp del: VariableMap_alloc_simps elim!: queue_future_frame split: option.splits if_splits)

section \<open>Queued futures\<close>

lemma queue_future_effect:
  assumes "cache_inv (ev_provider env) (en_cache e)" "conditions_ok (ev_provider env)"
  obtains e' where "queue_future env t e = Some e'" "cache_inv (ev_provider env) (en_cache e')" "en_state e' = en_state e"
    "awaited (ev_provider env) e \<subseteq> awaited (ev_provider env) e'"
    "awaited (ev_provider env) e' \<subseteq> insert (task_answer (ev_provider env) (en_root_dependencies e) t) (awaited (ev_provider env) e)"
    "task_answer (ev_provider env) (en_root_dependencies e) t \<in> awaited (ev_provider env) e' \<or> cancelled e'"
    "pending_weight (ev_provider env) e' \<le> pending_weight (ev_provider env) e +
      result_weight (ev_provider env) (task_answer (ev_provider env) (en_root_dependencies e) t)"
proof (cases "ev_ready env (en_queued e)")
  case False
  then show thesis
    by (intro that [of "e\<lparr>en_queued := en_queued e + 1, en_pending_futures := en_pending_futures e @ [t]\<rparr>"])
      (use assms in \<open>auto simp: queue_future_def awaited_def pending_weight_def\<close>)
next
  case ready: True
  let ?q = "\<lambda>r c. e\<lparr>en_queued := en_queued e + 1, en_cache := c, en_pending_results := en_pending_results e @ [r]\<rparr>"
  from run_task_answers [OF assms(2), of "en_root_dependencies e" t] assms(1) show thesis
  proof (cases rule: answersE)
    case (answer c)
    with ready show thesis
      by (intro that [of "?q (Inr (task_answer (ev_provider env) (en_root_dependencies e) t)) c"])
        (auto simp: queue_future_def awaited_def pending_weight_def)
  next
    case (cancelled v c j)
    with ready show thesis
      by (intro that [of "?q (Inl v) c"]) (auto simp: queue_future_def awaited_def pending_weight_def cancelled_def)
  qed
qed

lemma awaited_cong:
  "en_root_dependencies e' = en_root_dependencies e \<Longrightarrow> en_pending_futures e' = en_pending_futures e \<Longrightarrow>
    en_pending_results e' = en_pending_results e \<Longrightarrow>
    awaited dp e' = awaited dp e \<and> cancelled e' = cancelled e \<and> pending_weight dp e' = pending_weight dp e"
  by (simp add: awaited_def cancelled_def pending_weight_def)

lemma micro_queue_or_state:
  assumes "micro env U m e e'"
  obtains (state) "en_cache e' = en_cache e" "en_pending_futures e' = en_pending_futures e"
      "en_pending_results e' = en_pending_results e" "ss_clauses_added_for_solvable (en_state e') = ss_clauses_added_for_solvable (en_state e)"
  | (queue) t e1 where "queue_future env t e1 = Some e'" "en_cache e1 = en_cache e" "en_pending_futures e1 = en_pending_futures e"
      "en_pending_results e1 = en_pending_results e" "en_root_dependencies e1 = en_root_dependencies e"
      "genuine (ev_provider env) (en_root_dependencies e) (task_answer (ev_provider env) (en_root_dependencies e) t)"
      "\<exists>k. t = Task_Dependencies k \<and> k \<notin> ss_clauses_added_for_solvable (en_state e) \<and> k \<in> insert Root (Solvable ` U) \<and>
          ss_clauses_added_for_solvable (en_state e1) = insert k (ss_clauses_added_for_solvable (en_state e)) \<or>
        m = result_weight (ev_provider env) (task_answer (ev_provider env) (en_root_dependencies e) t) \<and>
          ss_clauses_added_for_solvable (en_state e1) = ss_clauses_added_for_solvable (en_state e)"
      "ss_decide_queue (en_state e1) = ss_decide_queue (en_state e)"
  using assms
proof (cases rule: micro.cases)
  case (solvable k)
  then show thesis by (intro queue [of "Task_Dependencies k", OF solvable(4)]) auto
next
  case (package n)
  then show thesis by (intro queue [of "Task_Candidates n", OF package(3)]) auto
next
  case (future t)
  then show thesis by (intro queue [of t e, OF future(5)]) auto
qed (auto intro!: state simp: enc_defs at_least_alloc simp del: VariableMap_alloc_simps split: option.splits if_splits)

lemma micro_awaited:
  assumes "micro env U m e e'" "conditions_ok (ev_provider env)" "cache_inv (ev_provider env) (en_cache e)"
    "\<forall>x \<in> awaited (ev_provider env) e. genuine (ev_provider env) (en_root_dependencies e) x"
  shows "cache_inv (ev_provider env) (en_cache e')"
    "\<forall>x \<in> awaited (ev_provider env) e'. genuine (ev_provider env) (en_root_dependencies e) x"
proof -
  from assms(1) have "cache_inv (ev_provider env) (en_cache e') \<and>
    (\<forall>x \<in> awaited (ev_provider env) e'. genuine (ev_provider env) (en_root_dependencies e) x)"
  proof (cases rule: micro_queue_or_state)
    case state
    with awaited_cong [of e' e "ev_provider env"] micro_fields(7) [OF assms(1)] assms(3,4) show ?thesis by auto
  next
    case (queue t e1)
    with assms(3) have "cache_inv (ev_provider env) (en_cache e1)" by simp
    then obtain e2 where "queue_future env t e1 = Some e2" "cache_inv (ev_provider env) (en_cache e2)"
      "awaited (ev_provider env) e2 \<subseteq> insert (task_answer (ev_provider env) (en_root_dependencies e1) t) (awaited (ev_provider env) e1)"
      by (rule queue_future_effect [OF _ assms(2), of e1 t]) (rule that)
    with queue awaited_cong [of e1 e "ev_provider env"] assms(4) show ?thesis by auto
  qed
  then show "cache_inv (ev_provider env) (en_cache e')"
    "\<forall>x \<in> awaited (ev_provider env) e'. genuine (ev_provider env) (en_root_dependencies e) x" by simp_all
qed

section \<open>The work queue\<close>

text \<open>Positions of the work queue never run out while it has fewer clauses than a position can count.\<close>

definition queue_slots :: "decide_queue \<Rightarrow> bool" where
  "queue_slots q \<longleftrightarrow> (\<forall>v p. dq_parent_positions q v = Some p \<longrightarrow> p < length (dq_clauses_by_parent q)) \<and>
     length (dq_clauses_by_parent q) \<le> length (dq_clauses q) \<and>
     (\<forall>ids \<in> set (dq_clauses_by_parent q). length ids \<le> length (dq_clauses q))"

lemma register_clause_total:
  assumes "queue_slots q" "length (dq_clauses q) < 2 ^ 32 - 1" "disjunction_literals djs d \<noteq> None"
  shows "\<exists>q'. register_clause p r d c names djs val q = Some q'"
proof -
  define pos where "pos = (case dq_parent_positions q p of Some i \<Rightarrow> i | None \<Rightarrow> length (dq_clauses_by_parent q))"
  define q1 where "q1 = (case dq_parent_positions q p of Some _ \<Rightarrow> q | None \<Rightarrow>
      q\<lparr>dq_clauses_by_parent := dq_clauses_by_parent q @ [[]],
        dq_parent_positions := (dq_parent_positions q)(p \<mapsto> length (dq_clauses_by_parent q))\<rparr>)"
  have start: "(case dq_parent_positions q p of Some p \<Rightarrow> (p, q) | None \<Rightarrow> (length (dq_clauses_by_parent q),
      q\<lparr>dq_clauses_by_parent := dq_clauses_by_parent q @ [[]],
        dq_parent_positions := (dq_parent_positions q)(p \<mapsto> length (dq_clauses_by_parent q))\<rparr>)) = (pos, q1)"
    by (simp add: pos_def q1_def split: option.split)
  have pos: "pos < length (dq_clauses_by_parent q1)" "pos \<le> length (dq_clauses q)"
    using assms(1) by (auto simp: queue_slots_def pos_def q1_def split: option.split)
      (meson le_trans less_imp_le_nat)
  have "length (dq_clauses_by_parent q1 ! pos) \<le> length (dq_clauses q)"
  proof (cases "dq_parent_positions q p")
    case None
    then show ?thesis by (simp add: q1_def pos_def)
  next
    case (Some i)
    with assms(1) have "dq_clauses_by_parent q ! i \<in> set (dq_clauses_by_parent q)" by (auto simp: queue_slots_def)
    with Some assms(1) show ?thesis by (auto simp: queue_slots_def q1_def pos_def)
  qed
  with pos assms(2) obtain position where "ClausePosition_new pos (length (dq_clauses_by_parent q1 ! pos)) = Some position"
    unfolding ClausePosition_new_def by (metis le_less_trans)
  with pos(1) assms(3) show ?thesis
    by (cases d) (auto simp: register_clause_def start Let_def slice_get_def disjunction_literals_def split_beta split: if_splits)
qed

lemma register_clause_slots:
  assumes "queue_slots q" "register_clause p r d c (names_of pv r) djs val q = Some q'"
  shows "queue_slots q'" "length (dq_clauses q') = Suc (length (dq_clauses q))"
proof -
  obtain tc pos k q1 where q1: "registered pv djs tc pos k q q1" "q' = (if val = Some True then enq (length (dq_clauses q)) q1 else q1)"
    by (rule register_clause_registered [OF assms(2)])
  then have same: "dq_clauses q' = dq_clauses q1" "dq_clauses_by_parent q' = dq_clauses_by_parent q1"
    "dq_parent_positions q' = dq_parent_positions q1"
    by (simp_all add: enq_def)
  define bp where "bp = (if dq_parent_positions q (tc_parent tc) = None then dq_clauses_by_parent q @ [[]] else dq_clauses_by_parent q)"
  have r: "dq_clauses q1 = dq_clauses q @ [tc]" "pos < length bp" "dq_clauses_by_parent q1 = bp[pos := bp ! pos @ [length (dq_clauses q)]]"
    "dq_parent_positions q1 = (dq_parent_positions q)(tc_parent tc \<mapsto> pos)"
    using q1(1) unfolding registered_def Let_def bp_def by blast+
  have bp: "length (dq_clauses_by_parent q) \<le> length bp" "length bp \<le> Suc (length (dq_clauses q))"
    "\<forall>ids \<in> set bp. length ids \<le> length (dq_clauses q)"
    using assms(1) by (auto simp: queue_slots_def bp_def)
  have "\<forall>ids \<in> set (bp[pos := bp ! pos @ [length (dq_clauses q)]]). length ids \<le> Suc (length (dq_clauses q))"
    using bp(3) r(2) set_update_subset_insert [of bp pos "bp ! pos @ [length (dq_clauses q)]"]
    by (fastforce dest!: subsetD)
  moreover have "i < length bp" if "((dq_parent_positions q)(tc_parent tc \<mapsto> pos)) v = Some i" for v i
    using that r(2) bp(1) assms(1) by (auto simp: queue_slots_def split: if_splits) (meson less_le_trans)
  ultimately show "queue_slots q'" using bp unfolding queue_slots_def same r by simp
  show "length (dq_clauses q') = Suc (length (dq_clauses q))" by (simp add: same r)
qed

lemma micro_registered:
  assumes "micro env U m e e'"
  shows "ss_decide_queue (en_state e') = ss_decide_queue (en_state e) \<or>
    (\<exists>p d r c. m = 1 \<and> c < length (en_kinds e) \<and> kind_of (en_state e) c = Requires p d r \<and>
      ss_requirement_to_sorted_candidates (en_state e) r \<noteq> None \<and>
      register_clause p r d c (names_of (ev_interner env) r) (ss_disjunctions (en_state e)) (en_value e p)
        (ss_decide_queue (en_state e)) = Some (ss_decide_queue (en_state e')) \<and>
      (\<exists>q. en_state e' = (en_state e)\<lparr>ss_decide_queue := q\<rparr>) \<and> en_pending_futures e' = en_pending_futures e \<and>
      en_pending_results e' = en_pending_results e)"
  using assms
proof (cases rule: micro.cases)
  case (register c p d r s)
  then show ?thesis
    by (intro disjI2) (rule exI [of _ p], rule exI [of _ d], rule exI [of _ r], rule exI [of _ c],
      auto simp: add_requires_clause_def)
qed (auto simp: enc_defs at_least_alloc simp del: VariableMap_alloc_simps elim!: queue_future_frame split: option.splits if_splits)

lemma micro_slots:
  assumes "micro env U m e e'" "queue_slots (ss_decide_queue (en_state e))"
  shows "queue_slots (ss_decide_queue (en_state e'))"
  using micro_registered [OF assms(1)] assms(2) register_clause_slots(1) by metis

text \<open>A step adds at most its own weight to the work that is left.\<close>

lemma waiting_weight_insert:
  assumes "finite U" "k \<in> insert Root (Solvable ` U)" "k \<notin> ss_clauses_added_for_solvable (en_state e)"
    "ss_clauses_added_for_solvable (en_state e') = insert k (ss_clauses_added_for_solvable (en_state e))"
    "en_root_dependencies e' = en_root_dependencies e"
  shows "waiting_weight dp U e = waiting_weight dp U e' + dependencies_weight dp (deps_of dp (en_root_dependencies e) k)"
proof -
  let ?W = "insert Root (Solvable ` U) - ss_clauses_added_for_solvable (en_state e)"
  have "finite ?W" "k \<in> ?W" using assms by auto
  moreover have "insert Root (Solvable ` U) - ss_clauses_added_for_solvable (en_state e') = ?W - {k}" using assms(4) by blast
  ultimately show ?thesis
    unfolding waiting_weight_def assms(5) using sum.remove [of ?W k] by (simp add: add.commute)
qed

lemma waiting_weight_cong:
  "ss_clauses_added_for_solvable (en_state e') = ss_clauses_added_for_solvable (en_state e) \<Longrightarrow>
    en_root_dependencies e' = en_root_dependencies e \<Longrightarrow> waiting_weight dp U e' = waiting_weight dp U e"
  by (simp add: waiting_weight_def)

lemma micro_work:
  assumes "micro env U m e e'" "finite U" "conditions_ok (ev_provider env)" "cache_inv (ev_provider env) (en_cache e)"
    "queue_slots (ss_decide_queue (en_state e))"
  shows "work (ev_provider env) U e' \<le> work (ev_provider env) U e + m"
  using assms(1)
proof (cases rule: micro_queue_or_state)
  case state
  have root: "en_root_dependencies e' = en_root_dependencies e" by (rule micro_fields(7) [OF assms(1)])
  have "length (dq_clauses (ss_decide_queue (en_state e'))) \<le> length (dq_clauses (ss_decide_queue (en_state e))) + m"
    using micro_registered [OF assms(1)] register_clause_slots(2) [OF assms(5)] by (metis add.right_neutral le_add1 order_refl plus_1_eq_Suc add.commute)
  with state awaited_cong [of e' e "ev_provider env"] waiting_weight_cong [of e' e "ev_provider env" U] root show ?thesis
    by (simp add: work_def)
next
  case (queue t e1)
  with assms(4) have "cache_inv (ev_provider env) (en_cache e1)" by simp
  then obtain e2 where e2: "queue_future env t e1 = Some e2" "en_state e2 = en_state e1"
    "pending_weight (ev_provider env) e2 \<le> pending_weight (ev_provider env) e1 +
      result_weight (ev_provider env) (task_answer (ev_provider env) (en_root_dependencies e1) t)"
    by (rule queue_future_effect [OF _ assms(3), of e1 t]) (rule that)
  have root: "en_root_dependencies e' = en_root_dependencies e" by (rule micro_fields(7) [OF assms(1)])
  have pw: "pending_weight (ev_provider env) e' \<le> pending_weight (ev_provider env) e +
      result_weight (ev_provider env) (task_answer (ev_provider env) (en_root_dependencies e) t)"
    and st: "en_state e' = en_state e1"
    using e2 queue awaited_cong [of e1 e "ev_provider env"] by simp_all
  from queue(7) consider (dep) k where "t = Task_Dependencies k" "k \<notin> ss_clauses_added_for_solvable (en_state e)"
      "k \<in> insert Root (Solvable ` U)" "ss_clauses_added_for_solvable (en_state e1) = insert k (ss_clauses_added_for_solvable (en_state e))"
    | (other) "m = result_weight (ev_provider env) (task_answer (ev_provider env) (en_root_dependencies e) t)"
      "ss_clauses_added_for_solvable (en_state e1) = ss_clauses_added_for_solvable (en_state e)"
    by blast
  then show ?thesis
  proof cases
    case dep
    have "waiting_weight (ev_provider env) U e = waiting_weight (ev_provider env) U e' +
        dependencies_weight (ev_provider env) (deps_of (ev_provider env) (en_root_dependencies e) k)"
      by (rule waiting_weight_insert [OF assms(2) dep(3,2)]) (use dep st root in simp_all)
    with dep pw st queue(8) show ?thesis by (simp add: work_def)
  next
    case other
    with waiting_weight_cong [of e' e "ev_provider env" U] pw st queue(8) root show ?thesis by (simp add: work_def)
  qed
qed

section \<open>The invariant\<close>

definition vars_ok :: "'c encoder \<Rightarrow> bool" where
  "vars_ok e \<longleftrightarrow> variable_map_inv (ss_variable_map (en_state e)) \<and> (\<forall>v. en_value e v \<noteq> None \<longrightarrow> en_origin e v \<noteq> None) \<and>
     tracker_inv (ss_decision_tracker (en_state e)) \<and> valid_level (en_level e) \<and>
     level_above (ss_decision_tracker (en_state e)) (en_level e)"

definition alo_ok :: "'c encoder \<Rightarrow> bool" where
  "alo_ok e \<longleftrightarrow> (\<forall>n a. en_origin e a = Some (Origin_AtLeastOne n) \<longleftrightarrow>
       ss_at_least_one_tracker (en_state e) n = Some a \<or> (n, a) \<in> set (en_new_at_least_one_packages e)) \<and>
     (\<forall>n a a'. en_origin e a = Some (Origin_AtLeastOne n) \<longrightarrow> en_origin e a' = Some (Origin_AtLeastOne n) \<longrightarrow> a = a') \<and>
     distinct (map fst (en_new_at_least_one_packages e)) \<and>
     (\<forall>(n, a) \<in> set (en_new_at_least_one_packages e). en_value e a = None \<and> ss_at_least_one_tracker (en_state e) n = None)"

definition links_ok :: "dependency_provider \<Rightarrow> 'c encoder \<Rightarrow> bool" where
  "links_ok dp e \<longleftrightarrow>
     (\<forall>r vss. ss_requirement_to_sorted_candidates (en_state e) r = Some vss \<longrightarrow>
        vars_of_lists (en_state e) (sorted_lists dp r) vss \<and>
        (\<forall>(x, v) \<in> set (zipped (sorted_lists dp r) vss). target_registered dp e x v)) \<and>
     (\<forall>vs a. ss_constrains_aux_vars (en_state e) vs = Some a \<longrightarrow>
        en_origin e a = Some (Origin_ConstrainsViolation vs) \<and> excludes_linked dp (en_state e) vs a) \<and>
     (\<forall>r g. ss_requires_aux_vars (en_state e) r = Some g \<longrightarrow>
        en_origin e g = Some (Origin_RequiresGate r) \<and> Requires g None r \<in> set (en_kinds e)) \<and>
     (\<forall>d \<in> deferred_set (en_state e). genuine_deferred dp (en_root_dependencies e) d) \<and>
     (\<forall>n \<in> ss_allow_multiple_names (en_state e). ca_allow_multiple (candidates_for dp n))"

definition clauses_ok :: "dependency_provider \<Rightarrow> 'c encoder \<Rightarrow> bool" where
  "clauses_ok dp e \<longleftrightarrow> (\<forall>k \<in> set (en_kinds e). k = InstallRoot \<or> (\<exists>i. k = Learnt i) \<or>
     justified dp (en_root_dependencies e) (en_state e) k \<and> lits (en_state e) k \<noteq> None)"

definition forbids_ok :: "dependency_provider \<Rightarrow> 'c encoder \<Rightarrow> bool" where
  "forbids_ok dp e \<longleftrightarrow> en_forbid_seen e = (\<Union>(n, vs) \<in> set (en_pending_forbid_clauses e). set vs) \<and>
     (\<forall>(n, vs) \<in> set (en_pending_forbid_clauses e). \<forall>v \<in> set vs. \<exists>x.
        en_origin e v = Some (Origin_Solvable x) \<and> pv_solvable_name (dp_interner dp) x = n)"

definition sign_lit :: "variable_id \<Rightarrow> bool \<Rightarrow> literal" where
  "sign_lit v b = (if b then positive v else negative v)"

definition trackers_ok :: "dependency_provider \<Rightarrow> solver_state \<Rightarrow> bool" where
  "trackers_ok dp s \<longleftrightarrow> (\<forall>n t. ss_at_most_one_trackers s n = Some t \<longrightarrow> amo_inv t \<and>
     (\<forall>(a, h, b) \<in> amo_clauses t. ForbidMultipleInstances a (sign_lit h b) n \<in> set (ss_kinds s)) \<and>
     (\<forall>v \<in> set (amo_variables t). \<exists>x. origin_of s v = Some (Origin_Solvable x) \<and> pv_solvable_name (dp_interner dp) x = n) \<and>
     (\<forall>h \<in> set (amo_helpers t). origin_of s h = Some (Origin_ForbidMultiple n)) \<and>
     (\<forall>a. ss_at_least_one_tracker s n = Some a \<longrightarrow> (\<forall>v \<in> set (amo_variables t). AnyOf a v \<in> set (ss_kinds s))))"

definition enc_inv :: "'c environment \<Rightarrow> 'c encoder \<Rightarrow> bool" where
  "enc_inv env e \<longleftrightarrow> vars_ok e \<and> alo_ok e \<and> links_ok (ev_provider env) e \<and> clauses_ok (ev_provider env) e \<and>
     forbids_ok (ev_provider env) e \<and> trackers_ok (ev_provider env) (en_state e) \<and>
     cache_inv (ev_provider env) (en_cache e) \<and> queue_slots (ss_decide_queue (en_state e)) \<and>
     (\<forall>x \<in> awaited (ev_provider env) e. genuine (ev_provider env) (en_root_dependencies e) x)"

lemma enc_invD [inv_dests]:
  assumes "enc_inv env e"
  shows "vars_ok e" "alo_ok e" "links_ok (ev_provider env) e" "clauses_ok (ev_provider env) e"
    "forbids_ok (ev_provider env) e" "trackers_ok (ev_provider env) (en_state e)"
    "cache_inv (ev_provider env) (en_cache e)" "queue_slots (ss_decide_queue (en_state e))"
    "\<forall>x \<in> awaited (ev_provider env) e. genuine (ev_provider env) (en_root_dependencies e) x"
  using assms by (simp_all add: enc_inv_def)

section \<open>What stays true\<close>

lemma disjunction_literals_ext:
  "state_ext s s' \<Longrightarrow> disjunction_literals (ss_disjunctions s) d = Some ls \<Longrightarrow> disjunction_literals (ss_disjunctions s') d = Some ls"
  using state_extD(4) [of s s'] by (auto simp: disjunction_literals_def split: option.splits)

lemma lits_ext:
  assumes "state_ext s s'" "lits s k = Some ls"
  shows "lits s' k = Some ls"
  using assms(2) disjunction_literals_ext [OF assms(1)] state_extD(8) [OF assms(1)] state_extD(13) [OF assms(1)]
  by (cases k) (auto simp: lits_def bind_eq_Some_conv)

lemma complement_lits_ext: "state_ext s s' \<Longrightarrow> complement_lits dp s vs ls \<Longrightarrow> complement_lits dp s' vs ls"
  using state_extD(5,6) [of s s'] unfolding complement_lits_def by (auto split: if_splits elim!: list_all2_mono)

lemma disjunct_lits_ext: "state_ext s s' \<Longrightarrow> disjunct_lits dp s cnf ls \<Longrightarrow> disjunct_lits dp s' cnf ls"
  unfolding disjunct_lits_def by (auto elim!: list_all2_mono dest: complement_lits_ext)

lemma vars_of_lists_ext: "state_ext s s' \<Longrightarrow> vars_of_lists s xss vss \<Longrightarrow> vars_of_lists s' xss vss"
  using state_extD(6) [of s s'] unfolding vars_of_lists_def by (auto elim!: list_all2_mono)

lemma excludes_linked_ext: "state_ext s s' \<Longrightarrow> excludes_linked dp s vs a \<Longrightarrow> excludes_linked dp s' vs a"
  using state_extD(1,6) [of s s'] unfolding excludes_linked_def by blast

lemma target_registered_ext: "enc_ext dp e e' \<Longrightarrow> target_registered dp e x v \<Longrightarrow> target_registered dp e' x v"
  using enc_extD(1,4) [of dp e e'] state_extD(12,16) [of "en_state e" "en_state e'"]
  by (auto simp: target_registered_def Let_def)

lemma condition_encoded_ext: "state_ext s s' \<Longrightarrow> condition_encoded dp s req d \<Longrightarrow> condition_encoded dp s' req d"
  using state_extD(4) [of s s'] disjunct_lits_ext [of s s'] unfolding condition_encoded_def
  by (auto split: option.splits) metis

lemma justified_ext:
  assumes "state_ext s s'" "justified dp root s k"
  shows "justified dp root s' k"
proof -
  note x = state_extD(5,7) [OF assms(1)] condition_encoded_ext [OF assms(1)]
  from assms(2) show ?thesis by (cases k) (simp_all only: justified.simps, (use x in blast)+)
qed

lemma auxiliary_at_least_one [simp]: "auxiliary_origin (Origin_AtLeastOne n)"
  by (simp add: auxiliary_origin_def)

section \<open>Every step keeps the invariant\<close>

lemma micro_vars_ok:
  assumes "micro env U m e e'" "vars_ok e"
  shows "vars_ok e'"
proof -
  note f = micro_fields(6) [OF assms(1)]
  have ext: "state_ext (en_state e) (en_state e')" by (rule enc_extD(1) [OF micro_ext [OF assms(1)]])
  have "variable_map_inv (ss_variable_map (en_state e'))"
    using micro_variables [OF assms(1)] assms(2) unfolding vars_ok_def
    by (elim disjE exE conjE) (simp_all add: VariableMap_intern_solvable_inv VariableMap_alloc_inv)
  moreover have "\<forall>v. en_value e' v \<noteq> None \<longrightarrow> en_origin e' v \<noteq> None"
  proof (intro allI impI)
    fix v
    assume "en_value e' v \<noteq> None"
    with micro_trail [OF assms(1)] assms(2) have "en_origin e v \<noteq> None"
      by (auto simp: vars_ok_def Decision_new_def split: if_splits)
    with state_extD(5) [OF ext] show "en_origin e' v \<noteq> None" by auto
  qed
  moreover have "tracker_inv (ss_decision_tracker (en_state e')) \<and> level_above (ss_decision_tracker (en_state e')) (en_level e)"
    using micro_trail [OF assms(1)] assms(2)
    by (auto simp: vars_ok_def Decision_new_def level_above_def intro!: push_decision_inv)
  ultimately show ?thesis using assms(2) by (simp add: vars_ok_def f)
qed

lemma micro_alo_ok:
  assumes "micro env U m e e'" "alo_ok e" "vars_ok e"
  shows "alo_ok e'"
proof -
  note f = micro_fields(1) [OF assms(1)]
  have vm: "variable_map_inv (ss_variable_map (en_state e))" and lv: "valid_level (en_level e)"
    and val: "en_value e v \<noteq> None \<Longrightarrow> en_origin e v \<noteq> None" for v
    using assms(3) by (auto simp: vars_ok_def)
  let ?new = "variable_count (ss_variable_map (en_state e))"
  have fresh: "en_origin e ?new = None" by (simp add: origin_None_iff)
  have vals: "en_value e' a = en_value e a" if "en_origin e a = Some (Origin_AtLeastOne n) \<or> en_origin e a = None" for a n
    using micro_trail [OF assms(1)] that lv by (auto simp: Decision_new_def)
  from micro_variables [OF assms(1)] consider
    (same) "ss_variable_map (en_state e') = ss_variable_map (en_state e)" "en_new_at_least_one_packages e' = en_new_at_least_one_packages e"
  | (intern) x where "ss_variable_map (en_state e') = snd (VariableMap_intern_solvable x (ss_variable_map (en_state e)))"
      "en_new_at_least_one_packages e' = en_new_at_least_one_packages e"
  | (alloc) og where "\<forall>n. og \<noteq> Origin_AtLeastOne n"
      "ss_variable_map (en_state e') = snd (VariableMap_alloc og (ss_variable_map (en_state e)))"
      "en_new_at_least_one_packages e' = en_new_at_least_one_packages e"
  | (new) n where "\<forall>a. en_origin e a \<noteq> Some (Origin_AtLeastOne n)"
      "ss_variable_map (en_state e') = snd (VariableMap_alloc (Origin_AtLeastOne n) (ss_variable_map (en_state e)))"
      "en_new_at_least_one_packages e' = en_new_at_least_one_packages e @ [(n, ?new)]"
    by blast
  then show ?thesis
  proof cases
    case same
    with assms(2) vals show ?thesis unfolding alo_ok_def f by fastforce
  next
    case (intern x)
    have "en_origin e' a = Some (Origin_AtLeastOne n) \<longleftrightarrow> en_origin e a = Some (Origin_AtLeastOne n)" for a n
      unfolding intern(1) using vm fresh by (cases rule: VariableMap_intern_solvable_cases [of _ x]) auto
    with assms(2) intern vals show ?thesis unfolding alo_ok_def f by fastforce
  next
    case (alloc og)
    then have "en_origin e' a = Some (Origin_AtLeastOne n) \<longleftrightarrow> en_origin e a = Some (Origin_AtLeastOne n)" for a n
      using fresh by simp
    with assms(2) alloc vals show ?thesis unfolding alo_ok_def f by fastforce
  next
    case (new n)
    then have og: "en_origin e' a = (if a = ?new then Some (Origin_AtLeastOne n) else en_origin e a)" for a by simp
    have old: "en_origin e a = Some (Origin_AtLeastOne n') \<longleftrightarrow> ss_at_least_one_tracker (en_state e) n' = Some a \<or>
        (n', a) \<in> set (en_new_at_least_one_packages e)" for a n' using assms(2) unfolding alo_ok_def by blast
    have n: "ss_at_least_one_tracker (en_state e) n = None" "n \<notin> fst ` set (en_new_at_least_one_packages e)"
      using new(1) old by force+
    have 1: "\<forall>n' a. en_origin e' a = Some (Origin_AtLeastOne n') \<longleftrightarrow> ss_at_least_one_tracker (en_state e) n' = Some a \<or>
        (n', a) \<in> set (en_new_at_least_one_packages e @ [(n, ?new)])"
      using old old [of ?new, unfolded fresh] by (simp add: og) blast
    have 2: "\<forall>n' a a'. en_origin e' a = Some (Origin_AtLeastOne n') \<longrightarrow> en_origin e' a' = Some (Origin_AtLeastOne n') \<longrightarrow> a = a'"
      using new(1) assms(2) unfolding og alo_ok_def by (metis option.inject variable_origin.inject(3))
    have 3: "distinct (map fst (en_new_at_least_one_packages e @ [(n, ?new)]))" using assms(2) n(2) by (simp add: alo_ok_def)
    have "en_value e' ?new = None" using vals [of ?new] fresh val by metis
    moreover have "en_value e' a = None \<and> ss_at_least_one_tracker (en_state e) n' = None"
      if "(n', a) \<in> set (en_new_at_least_one_packages e)" for a n'
      using that assms(2) vals [of a n'] old [of a n'] unfolding alo_ok_def by fastforce
    ultimately have 4: "\<forall>(n', a) \<in> set (en_new_at_least_one_packages e @ [(n, ?new)]).
        en_value e' a = None \<and> ss_at_least_one_tracker (en_state e) n' = None" using n(1) by auto
    from 1 2 3 4 show ?thesis unfolding alo_ok_def f new(3) by blast
  qed
qed

lemma micro_links_ok:
  assumes "micro env U m e e'" "links_ok (ev_provider env) e"
  shows "links_ok (ev_provider env) e'"
proof -
  let ?dp = "ev_provider env"
  have ee: "enc_ext ?dp e e'" by (rule micro_ext [OF assms(1)])
  note ext = enc_extD(1) [OF ee] and root = micro_fields(7) [OF assms(1)]
  note x = state_extD(1,5) [OF ext]
  have "vars_of_lists (en_state e') (sorted_lists ?dp r) vss \<and>
      (\<forall>(x, v) \<in> set (zipped (sorted_lists ?dp r) vss). target_registered ?dp e' x v)"
    if "ss_requirement_to_sorted_candidates (en_state e') r = Some vss" for r vss
  proof -
    from that micro_candidates [OF assms(1)] assms(2)
    have "vars_of_lists (en_state e) (sorted_lists ?dp r) vss \<and>
        (\<forall>(x, v) \<in> set (zipped (sorted_lists ?dp r) vss). target_registered ?dp e x v)"
      unfolding links_ok_def by (elim disjE exE conjE) (auto split: if_splits)
    then show ?thesis using vars_of_lists_ext [OF ext] target_registered_ext [OF ee] by auto
  qed
  moreover have "en_origin e' a = Some (Origin_ConstrainsViolation vs) \<and> excludes_linked ?dp (en_state e') vs a"
    if "ss_constrains_aux_vars (en_state e') vs = Some a" for vs a
  proof -
    from that micro_violation [OF assms(1)] assms(2)
    have "en_origin e a = Some (Origin_ConstrainsViolation vs) \<and> excludes_linked ?dp (en_state e) vs a"
      unfolding links_ok_def by (elim disjE exE conjE) (auto split: if_splits)
    with x(2) excludes_linked_ext [OF ext] show ?thesis by blast
  qed
  moreover have "en_origin e' g = Some (Origin_RequiresGate r) \<and> Requires g None r \<in> set (en_kinds e')"
    if "ss_requires_aux_vars (en_state e') r = Some g" for r g
  proof -
    from that micro_gate [OF assms(1)] assms(2)
    have "en_origin e g = Some (Origin_RequiresGate r) \<and> Requires g None r \<in> set (en_kinds e)"
      unfolding links_ok_def by (elim disjE exE conjE) (auto split: if_splits)
    with x show ?thesis by blast
  qed
  moreover have "genuine_deferred ?dp (en_root_dependencies e') d" if "d \<in> deferred_set (en_state e')" for d
    using that micro_deferred [OF assms(1)] assms(2) by (auto simp: links_ok_def root)
  moreover have "\<forall>n \<in> ss_allow_multiple_names (en_state e'). ca_allow_multiple (candidates_for ?dp n)"
    using micro_multiple [OF assms(1)] assms(2) unfolding links_ok_def by blast
  ultimately show ?thesis unfolding links_ok_def by blast
qed

lemma micro_clauses_ok:
  assumes "micro env U m e e'" "clauses_ok (ev_provider env) e"
  shows "clauses_ok (ev_provider env) e'"
proof -
  note ext = enc_extD(1) [OF micro_ext [OF assms(1)]] and root = micro_fields(7) [OF assms(1)]
  have keep: "justified (ev_provider env) (en_root_dependencies e') (en_state e') k \<and> lits (en_state e') k \<noteq> None"
    if "justified (ev_provider env) (en_root_dependencies e) (en_state e) k" "lits (en_state e) k \<noteq> None" for k
    using that justified_ext [OF ext] lits_ext [OF ext] root by auto
  with micro_kinds [OF assms(1)] assms(2) show ?thesis unfolding clauses_ok_def by (metis Un_iff empty_iff list.set(1,2) insert_iff set_append)
qed

lemma im_push_entries:
  "(n, vs) \<in> set (im_push m k x) \<Longrightarrow> v \<in> set vs \<Longrightarrow> (n = k \<and> v = x) \<or> (\<exists>vs'. (n, vs') \<in> set m \<and> v \<in> set vs')"
  by (induction m k x rule: im_push.induct) (auto split: if_splits)

lemma micro_forbids_ok:
  assumes "micro env U m e e'" "forbids_ok (ev_provider env) e"
  shows "forbids_ok (ev_provider env) e'"
proof -
  note x = state_extD(5) [OF enc_extD(1) [OF micro_ext [OF assms(1)]]]
  from micro_forbid [OF assms(1)] show ?thesis
  proof (elim disjE exE conjE)
    assume "en_forbid_seen e' = en_forbid_seen e" "en_pending_forbid_clauses e' = en_pending_forbid_clauses e"
    with assms(2) x show ?thesis unfolding forbids_ok_def by fastforce
  next
    fix v y
    assume v: "en_origin e v = Some (Origin_Solvable y)" "en_forbid_seen e' = insert v (en_forbid_seen e)"
      "en_pending_forbid_clauses e' = im_push (en_pending_forbid_clauses e) (pv_solvable_name (ev_interner env) y) v"
    have "\<exists>z. en_origin e' w = Some (Origin_Solvable z) \<and> pv_solvable_name (ev_interner env) z = n"
      if "(n, vs) \<in> set (im_push (en_pending_forbid_clauses e) (pv_solvable_name (ev_interner env) y) v)" "w \<in> set vs" for n vs w
      using im_push_entries [OF that] assms(2) v(1) x unfolding forbids_ok_def by fast
    with assms(2) v(2,3) show ?thesis unfolding forbids_ok_def by (auto simp: im_push_set)
  qed
qed

lemma micro_trackers_ok:
  assumes "micro env U m e e'" "trackers_ok (ev_provider env) (en_state e)"
  shows "trackers_ok (ev_provider env) (en_state e')"
  using assms(2) state_extD(1,5) [OF enc_extD(1) [OF micro_ext [OF assms(1)]]]
  unfolding trackers_ok_def micro_fields(1,2) [OF assms(1)] by fast

lemma micro_inv:
  assumes "micro env U m e e'" "enc_inv env e" "conditions_ok (ev_provider env)"
  shows "enc_inv env e'"
  using enc_invD [OF assms(2)] micro_vars_ok [OF assms(1)] micro_alo_ok [OF assms(1)] micro_links_ok [OF assms(1)]
    micro_clauses_ok [OF assms(1)] micro_forbids_ok [OF assms(1)] micro_trackers_ok [OF assms(1)]
    micro_awaited [OF assms(1,3)] micro_slots [OF assms(1)] micro_fields(7) [OF assms(1)]
  unfolding enc_inv_def by metis

lemma steps_inv:
  assumes "steps env U n e e'" "enc_inv env e" "conditions_ok (ev_provider env)" "finite U"
  shows "enc_inv env e' \<and> work (ev_provider env) U e' \<le> work (ev_provider env) U e + n"
  using assms
proof (induction rule: steps.induct)
  case (move n e e1 m e2)
  then have inv: "enc_inv env e1" and w: "work (ev_provider env) U e1 \<le> work (ev_provider env) U e + n" by simp_all
  with micro_work [OF move.hyps(2) move.prems(3,2) enc_invD(7,8) [OF inv]] micro_inv [OF move.hyps(2) inv move.prems(2)]
  show ?case by simp
qed simp

end
