(* ===== verification/Encoder_Handlers.thy ===== *)
theory Encoder_Handlers
  imports Encoder_Invariant
begin

text \<open>
  The handlers of the encoder are sequences of steps: they never panic, add less work than
  the result they handle weighed, and leave what that result asks for either encoded or
  queued. The last part is kept as an obligation: for every solvable and package the encoder
  took on, each dependency is in the clauses, among the deferred entries, or awaited.
\<close>

section \<open>What the provider promises\<close>

definition provider_ok :: "dependency_provider \<Rightarrow> solvable_id set \<Rightarrow> bool" where
  "provider_ok dp U \<longleftrightarrow> finite U \<and> conditions_ok dp \<and>
     (\<forall>n. \<forall>c \<in> set (ca_candidates (candidates_for dp n)). c \<in> U \<and> pv_solvable_name (dp_interner dp) c = n) \<and>
     (\<forall>cs vs. set (dp_filter_candidates dp cs vs False) \<union> set (dp_filter_candidates dp cs vs True) = set cs \<and>
        set (dp_filter_candidates dp cs vs False) \<inter> set (dp_filter_candidates dp cs vs True) = {}) \<and>
     (\<forall>cs. set (dp_sort_candidates dp cs) = set cs)"

lemma provider_okD:
  assumes "provider_ok dp U"
  shows "finite U" "conditions_ok dp" "set (ca_candidates (candidates_for dp n)) \<subseteq> U"
    "c \<in> set (ca_candidates (candidates_for dp n)) \<Longrightarrow> pv_solvable_name (dp_interner dp) c = n"
    "set (matching_for dp vs) \<union> set (non_matching_for dp vs) = set (ca_candidates (package_of dp vs))"
    "set (matching_for dp vs) \<inter> set (non_matching_for dp vs) = {}"
    "set (sorted_for dp vs) = set (matching_for dp vs)"
proof -
  show "finite U" "conditions_ok dp" "set (ca_candidates (candidates_for dp n)) \<subseteq> U"
    "c \<in> set (ca_candidates (candidates_for dp n)) \<Longrightarrow> pv_solvable_name (dp_interner dp) c = n"
    using assms by (auto simp: provider_ok_def)
  show "set (matching_for dp vs) \<union> set (non_matching_for dp vs) = set (ca_candidates (package_of dp vs))"
    "set (matching_for dp vs) \<inter> set (non_matching_for dp vs) = {}"
    using assms unfolding provider_ok_def matching_for_def non_matching_for_def by blast+
  have "set (sorted_for dp vs) = set (dp_sort_candidates dp (matching_for dp vs))"
    unfolding sorted_for_def by (metis favored_first_mset set_mset_mset)
  then show "set (sorted_for dp vs) = set (matching_for dp vs)" using assms by (simp add: provider_ok_def)
qed

section \<open>Obligations\<close>

definition excluded_done :: "solver_state \<Rightarrow> solvable_or_root \<Rightarrow> string_id \<Rightarrow> bool" where
  "excluded_done s k reason \<longleftrightarrow> (\<exists>v. var_of s k = Some v \<and> Excluded v reason \<in> set (ss_kinds s))"

definition requires_done :: "solver_state \<Rightarrow> solvable_or_root \<Rightarrow> requirement \<Rightarrow> disjunction_id option \<Rightarrow> bool" where
  "requires_done s k r d \<longleftrightarrow> ss_requirement_to_sorted_candidates s r \<noteq> None \<and> (\<exists>v. var_of s k = Some v \<and>
     (Requires v d r \<in> set (ss_kinds s) \<or>
      d = None \<and> (\<exists>g. ss_requires_aux_vars s r = Some g \<and> AnyOf g v \<in> set (ss_kinds s))))"

definition disjunct_done ::
  "dependency_provider \<Rightarrow> solver_state \<Rightarrow> solvable_or_root \<Rightarrow> requirement \<Rightarrow> version_set_id list \<Rightarrow> bool" where
  "disjunct_done dp s k r cnf \<longleftrightarrow> (\<exists>i < length (ss_disjunctions s). requires_done s k r (Some i) \<and>
     disjunct_lits dp s cnf (dj_literals (ss_disjunctions s ! i)))"

definition constraint_done :: "dependency_provider \<Rightarrow> solver_state \<Rightarrow> solvable_or_root \<Rightarrow> version_set_id \<Rightarrow> bool" where
  "constraint_done dp s k vs \<longleftrightarrow> (\<exists>v. var_of s k = Some v \<and>
     ((\<forall>c \<in> set (non_matching_for dp vs). \<exists>w. var_of s (Solvable c) = Some w \<and> Constrains v w vs \<in> set (ss_kinds s)) \<or>
      (\<exists>a. ss_constrains_aux_vars s vs = Some a \<and> ConstrainsParent v a vs \<in> set (ss_kinds s))))"

definition package_done :: "dependency_provider \<Rightarrow> solver_state \<Rightarrow> name_id \<Rightarrow> bool" where
  "package_done dp s n \<longleftrightarrow>
     (ca_allow_multiple (candidates_for dp n) \<longrightarrow> n \<in> ss_allow_multiple_names s) \<and>
     (\<forall>a b. ca_locked (candidates_for dp n) = Some a \<longrightarrow> b \<in> set (ca_candidates (candidates_for dp n)) \<longrightarrow> b \<noteq> a \<longrightarrow>
        (\<exists>u w. var_of s (Solvable b) = Some w \<and> Lock u w \<in> set (ss_kinds s))) \<and>
     (\<forall>(x, reason) \<in> set (ca_excluded (candidates_for dp n)). excluded_done s (Solvable x) reason)"

definition entry_for ::
  "solvable_id deferred_requirement \<Rightarrow> solvable_or_root \<Rightarrow> conditional_requirement \<Rightarrow> condition_id \<Rightarrow> version_set_id list \<Rightarrow> bool" where
  "entry_for d k req c cnf \<longleftrightarrow> dr_solvable_id d = k \<and> dr_requirement d = req \<and> dr_condition d = c \<and>
     map DeferredConjunct_version_set (dr_disjunct d) = cnf"

definition cnf_live ::
  "dependency_provider \<Rightarrow> solver_state \<Rightarrow> task_result set \<Rightarrow> solvable_or_root \<Rightarrow> conditional_requirement \<Rightarrow> condition_id \<Rightarrow>
    version_set_id list \<Rightarrow> bool" where
  "cnf_live dp s A k req c cnf \<longleftrightarrow> (\<exists>d \<in> deferred_set s. entry_for d k req c cnf) \<or>
     disjunct_done dp s k (cr_requirement req) cnf \<or>
     (\<exists>cnfs. Result_RequirementCandidates k req (sorted_lists dp (cr_requirement req)) (Some (c, cnfs)) \<in> A \<and>
        map (complement_for dp) cnf \<in> set cnfs)"

definition disjuncts_for :: "dependency_provider \<Rightarrow> condition_id \<Rightarrow> disjunct_data list" where
  "disjuncts_for dp c = map (\<lambda>cnf. \<lparr>dd_conjuncts = map (conjunct_for dp) cnf\<rparr>) (dnf_for dp c)"

definition requirement_live ::
  "dependency_provider \<Rightarrow> solver_state \<Rightarrow> task_result set \<Rightarrow> solvable_or_root \<Rightarrow> conditional_requirement \<Rightarrow> bool" where
  "requirement_live dp s A k req \<longleftrightarrow> (case cr_condition req of
     None \<Rightarrow> Result_RequirementCandidates k req (sorted_lists dp (cr_requirement req)) None \<in> A \<or>
       requires_done s k (cr_requirement req) None
   | Some c \<Rightarrow> Result_ConditionData k req c (disjuncts_for dp c) \<in> A \<or>
       (\<forall>cnf \<in> set (dnf_for dp c). cnf_live dp s A k req c cnf))"

definition deps_live :: "dependency_provider \<Rightarrow> dependencies \<Rightarrow> solver_state \<Rightarrow> task_result set \<Rightarrow> solvable_or_root \<Rightarrow> bool" where
  "deps_live dp root s A k \<longleftrightarrow> (case deps_of dp root k of
     Unknown reason \<Rightarrow> excluded_done s k reason
   | Known d \<Rightarrow> (\<forall>req \<in> set (kd_requirements d). requirement_live dp s A k req \<and>
         (cr_condition req = None \<longrightarrow> (\<forall>vs \<in> set (requirement_version_sets (dp_interner dp) (cr_requirement req)).
            pv_version_set_name (dp_interner dp) vs \<in> ss_clauses_added_for_package s))) \<and>
       (\<forall>vs \<in> set (kd_constrains d). (Result_ConstraintCandidates k vs (non_matching_for dp vs) \<in> A \<or> constraint_done dp s k vs) \<and>
          pv_version_set_name (dp_interner dp) vs \<in> ss_clauses_added_for_package s))"

definition obligations :: "dependency_provider \<Rightarrow> task_result set \<Rightarrow> 'c encoder \<Rightarrow> bool" where
  "obligations dp X e \<longleftrightarrow> cancelled e \<or>
     (\<forall>k \<in> ss_clauses_added_for_solvable (en_state e).
        Result_Dependencies k (deps_of dp (en_root_dependencies e) k) \<in> awaited dp e \<union> X \<or>
        deps_live dp (en_root_dependencies e) (en_state e) (awaited dp e \<union> X) k) \<and>
     (\<forall>n \<in> ss_clauses_added_for_package (en_state e).
        Result_Candidates n (candidates_for dp n) \<in> awaited dp e \<union> X \<or> package_done dp (en_state e) n)"

text \<open>A result is handled when all it asks for is done or awaited.\<close>

fun handled :: "dependency_provider \<Rightarrow> dependencies \<Rightarrow> solver_state \<Rightarrow> task_result set \<Rightarrow> task_result \<Rightarrow> bool" where
  "handled dp root s A (Result_Dependencies k _) \<longleftrightarrow> deps_live dp root s A k"
| "handled dp root s A (Result_Candidates n _) \<longleftrightarrow> package_done dp s n"
| "handled dp root s A (Result_ConditionData k req c _) \<longleftrightarrow> (\<forall>cnf \<in> set (dnf_for dp c). cnf_live dp s A k req c cnf)"
| "handled dp root s A (Result_RequirementCandidates k req _ cond) \<longleftrightarrow> (case cond of
     None \<Rightarrow> requires_done s k (cr_requirement req) None
   | Some (c, cnfs) \<Rightarrow> \<forall>cnf. map (complement_for dp) cnf \<in> set cnfs \<longrightarrow> disjunct_done dp s k (cr_requirement req) cnf)"
| "handled dp root s A (Result_ConstraintCandidates k vs _) \<longleftrightarrow> constraint_done dp s k vs"

section \<open>Obligations are kept\<close>

lemma excluded_done_ext: "state_ext s s' \<Longrightarrow> excluded_done s k reason \<Longrightarrow> excluded_done s' k reason"
  using state_extD(1,7) [of s s'] unfolding excluded_done_def by blast

lemma requires_done_ext: "state_ext s s' \<Longrightarrow> requires_done s k r d \<Longrightarrow> requires_done s' k r d"
  using state_extD(1,7,8,10) [of s s'] unfolding requires_done_def by blast

lemma disjunct_done_ext: "state_ext s s' \<Longrightarrow> disjunct_done dp s k r cnf \<Longrightarrow> disjunct_done dp s' k r cnf"
  using state_extD(4) [of s s'] requires_done_ext [of s s'] disjunct_lits_ext [of s s'] unfolding disjunct_done_def by metis

lemma constraint_done_ext: "state_ext s s' \<Longrightarrow> constraint_done dp s k vs \<Longrightarrow> constraint_done dp s' k vs"
  using state_extD(1,7,9) [of s s'] unfolding constraint_done_def by blast

lemma package_done_ext: "state_ext s s' \<Longrightarrow> package_done dp s n \<Longrightarrow> package_done dp s' n"
  using state_extD(1,7,16) [of s s'] excluded_done_ext [of s s'] unfolding package_done_def by blast

lemma cnf_live_ext: "state_ext s s' \<Longrightarrow> A \<subseteq> A' \<Longrightarrow> cnf_live dp s A k req c cnf \<Longrightarrow> cnf_live dp s' A' k req c cnf"
  using state_extD(17) [of s s'] disjunct_done_ext [of s s'] unfolding cnf_live_def by blast

lemma requirement_live_ext:
  "state_ext s s' \<Longrightarrow> A \<subseteq> A' \<Longrightarrow> requirement_live dp s A k req \<Longrightarrow> requirement_live dp s' A' k req"
  using requires_done_ext [of s s'] cnf_live_ext [of s s' A A'] unfolding requirement_live_def
  by (auto split: option.splits)

lemma deps_live_ext:
  assumes "state_ext s s'" "A \<subseteq> A'" "deps_live dp root s A k"
  shows "deps_live dp root s' A' k"
proof (cases "deps_of dp root k")
  case (Known d)
  from assms(3) show ?thesis unfolding deps_live_def Known dependencies.case
    using requirement_live_ext [OF assms(1,2)] constraint_done_ext [OF assms(1)] state_extD(15) [OF assms(1)] assms(2) by blast
next
  case (Unknown reason)
  with assms(3) excluded_done_ext [OF assms(1)] show ?thesis by (simp add: deps_live_def)
qed

lemma handled_ext: "state_ext s s' \<Longrightarrow> A \<subseteq> A' \<Longrightarrow> handled dp root s A x \<Longrightarrow> handled dp root s' A' x"
  by (cases x) (auto split: option.splits intro: deps_live_ext package_done_ext cnf_live_ext requires_done_ext
      disjunct_done_ext constraint_done_ext)

lemma micro_obligations:
  assumes "micro env U m e e'" "enc_inv env e" "conditions_ok (ev_provider env)" "obligations (ev_provider env) X e"
  shows "obligations (ev_provider env) X e'"
proof -
  let ?dp = "ev_provider env"
  have ee: "enc_ext ?dp e e'" by (rule micro_ext [OF assms(1)])
  note ext = enc_extD(1) [OF ee] and root = enc_extD(2) [OF ee]
  have sub: "awaited ?dp e \<union> X \<subseteq> awaited ?dp e' \<union> X" using enc_extD(6) [OF ee] by blast
  have new: "cancelled e' \<or> k \<in> ss_clauses_added_for_solvable (en_state e) \<or>
      Result_Dependencies k (deps_of ?dp (en_root_dependencies e) k) \<in> awaited ?dp e'"
    if "k \<in> ss_clauses_added_for_solvable (en_state e')" for k
    using assms(1)
  proof (cases rule: micro.cases)
    case (solvable k')
    let ?e = "on_state (\<lambda>s. s\<lparr>ss_clauses_added_for_solvable := insert k' (ss_clauses_added_for_solvable s)\<rparr>) e"
    have "cache_inv ?dp (en_cache ?e)" using enc_invD(7) [OF assms(2)] by simp
    then obtain e2 where "queue_future env (Task_Dependencies k') ?e = Some e2" "en_state e2 = en_state ?e"
      "task_answer ?dp (en_root_dependencies ?e) (Task_Dependencies k') \<in> awaited ?dp e2 \<or> cancelled e2"
      by (rule queue_future_effect [OF _ assms(3), of ?e "Task_Dependencies k'"]) (rule that)
    with solvable(4) that show ?thesis by auto
  qed (use that in \<open>auto simp: enc_defs at_least_alloc simp del: VariableMap_alloc_simps elim!: queue_future_frame split: option.splits if_splits\<close>)
  have newp: "cancelled e' \<or> n \<in> ss_clauses_added_for_package (en_state e) \<or> Result_Candidates n (candidates_for ?dp n) \<in> awaited ?dp e'"
    if "n \<in> ss_clauses_added_for_package (en_state e')" for n
    using assms(1)
  proof (cases rule: micro.cases)
    case (package n')
    let ?e = "on_state (\<lambda>s. s\<lparr>ss_clauses_added_for_package := insert n' (ss_clauses_added_for_package s)\<rparr>) e"
    have "cache_inv ?dp (en_cache ?e)" using enc_invD(7) [OF assms(2)] by simp
    then obtain e2 where "queue_future env (Task_Candidates n') ?e = Some e2" "en_state e2 = en_state ?e"
      "task_answer ?dp (en_root_dependencies ?e) (Task_Candidates n') \<in> awaited ?dp e2 \<or> cancelled e2"
      by (rule queue_future_effect [OF _ assms(3), of ?e "Task_Candidates n'"]) (rule that)
    with package(3) that show ?thesis by auto
  qed (use that in \<open>auto simp: enc_defs at_least_alloc simp del: VariableMap_alloc_simps elim!: queue_future_frame split: option.splits if_splits\<close>)
  show ?thesis
  proof (cases "cancelled e'")
    case False
    with enc_extD(7) [OF ee] have "\<not> cancelled e" by blast
    with assms(4) have ob:
      "\<forall>k \<in> ss_clauses_added_for_solvable (en_state e).
        Result_Dependencies k (deps_of ?dp (en_root_dependencies e) k) \<in> awaited ?dp e \<union> X \<or>
        deps_live ?dp (en_root_dependencies e) (en_state e) (awaited ?dp e \<union> X) k"
      "\<forall>n \<in> ss_clauses_added_for_package (en_state e).
        Result_Candidates n (candidates_for ?dp n) \<in> awaited ?dp e \<union> X \<or> package_done ?dp (en_state e) n"
      unfolding obligations_def by blast+
    show ?thesis unfolding obligations_def root
      using new newp False ob sub deps_live_ext [OF ext sub] package_done_ext [OF ext] by blast
  qed (simp add: obligations_def)
qed

lemma steps_obligations:
  assumes "steps env U n e e'" "enc_inv env e" "conditions_ok (ev_provider env)" "finite U" "obligations (ev_provider env) X e"
  shows "obligations (ev_provider env) X e'"
  using assms
proof (induction rule: steps.induct)
  case (move n e e1 m e2)
  then have "enc_inv env e1" using steps_inv by blast
  with move micro_obligations show ?case by blast
qed

lemma obligations_close:
  assumes "obligations dp (insert x X) e" "cancelled e \<or> handled dp (en_root_dependencies e) (en_state e) (awaited dp e \<union> X) x"
    "genuine dp (en_root_dependencies e) x"
  shows "obligations dp X e"
proof (cases "cancelled e")
  case False
  let ?A = "awaited dp e \<union> X" and ?s = "en_state e" and ?root = "en_root_dependencies e"
  from False assms(2) have h: "handled dp ?root ?s ?A x" by simp
  have ins: "awaited dp e \<union> insert x X = insert x ?A" by blast
  have cnf: "cnf_live dp ?s ?A k req c cnf" if "cnf_live dp ?s (insert x ?A) k req c cnf" for k req c cnf
    using that h unfolding cnf_live_def by auto
  have req: "requirement_live dp ?s ?A k req" if "requirement_live dp ?s (insert x ?A) k req" for k req
    using that h cnf unfolding requirement_live_def by (auto split: option.splits)
  have deps: "deps_live dp ?root ?s ?A k" if "deps_live dp ?root ?s (insert x ?A) k" for k
    using that h req unfolding deps_live_def by (cases "deps_of dp ?root k") auto
  show ?thesis using assms(1) False h deps unfolding obligations_def ins by auto
qed (simp add: obligations_def)

section \<open>Runs\<close>

text \<open>The encoder can do work of weight \<open>w\<close> without running out of positions.\<close>

definition ready :: "'c environment \<Rightarrow> solvable_id set \<Rightarrow> nat \<Rightarrow> 'c encoder \<Rightarrow> bool" where
  "ready env U w e \<longleftrightarrow> provider_ok (ev_provider env) U \<and> enc_inv env e \<and> work (ev_provider env) U e + w \<le> 2 ^ 32 - 1"

lemma readyD:
  assumes "ready env U w e"
  shows "provider_ok (ev_provider env) U" "enc_inv env e" "conditions_ok (ev_provider env)"
    "work (ev_provider env) U e + w \<le> 2 ^ 32 - 1"
  using assms provider_okD(2) by (auto simp: ready_def)

lemma ready_less: "ready env U w e \<Longrightarrow> w' \<le> w \<Longrightarrow> ready env U w' e"
  by (simp add: ready_def)

lemma ready_steps:
  assumes "ready env U (n + w) e" "steps env U n e e'"
  shows "ready env U w e'"
  using assms steps_inv [OF assms(2)] provider_okD(1,2) by (fastforce simp: ready_def)

definition runs :: "'c environment \<Rightarrow> solvable_id set \<Rightarrow> nat \<Rightarrow> 'c encoder \<Rightarrow> 'c encoder option \<Rightarrow> ('c encoder \<Rightarrow> bool) \<Rightarrow> bool" where
  "runs env U w e r Q \<longleftrightarrow> (\<exists>e' n. r = Some e' \<and> n \<le> w \<and> steps env U n e e' \<and> Q e')"

lemma runsI: "r = Some e' \<Longrightarrow> steps env U n e e' \<Longrightarrow> n \<le> w \<Longrightarrow> Q e' \<Longrightarrow> runs env U w e r Q"
  by (auto simp: runs_def)

lemma runs_weaken: "runs env U w e r Q \<Longrightarrow> w \<le> w' \<Longrightarrow> (\<And>e'. enc_ext (ev_provider env) e e' \<Longrightarrow> Q e' \<Longrightarrow> Q' e') \<Longrightarrow> runs env U w' e r Q'"
  unfolding runs_def using steps_ext by (metis le_trans)

lemma runs_bind:
  assumes "ready env U (w1 + w2) e" "runs env U w1 e r Q1"
    "\<And>e1. ready env U w2 e1 \<Longrightarrow> enc_ext (ev_provider env) e e1 \<Longrightarrow> Q1 e1 \<Longrightarrow> runs env U w2 e1 (f e1) Q"
  shows "runs env U (w1 + w2) e (Option.bind r f) Q"
proof -
  from assms(2) obtain e1 n where e1: "r = Some e1" "n \<le> w1" "steps env U n e e1" "Q1 e1" by (auto simp: runs_def)
  have "ready env U w2 e1"
  proof -
    have "ready env U (n + w2) e" by (rule ready_less [OF assms(1)]) (use e1(2) in simp)
    then show ?thesis using e1(3) by (rule ready_steps)
  qed
  from assms(3) [OF this steps_ext [OF e1(3)] e1(4)] obtain e2 n2 where "f e1 = Some e2" "n2 \<le> w2" "steps env U n2 e1 e2" "Q e2"
    by (auto simp: runs_def)
  with e1 steps_trans [OF e1(3)] show ?thesis by (intro runsI [of _ e2 _ _ "n + n2"]) auto
qed

lemma runs_after:
  assumes "ready env U w e" "steps env U 0 e e1" "ready env U w e1 \<Longrightarrow> enc_ext (ev_provider env) e e1 \<Longrightarrow> runs env U w e1 r Q"
  shows "runs env U w e r Q"
proof -
  have "ready env U w e1" using assms(1,2) ready_steps [of env U 0 w] by simp
  from assms(3) [OF this steps_ext [OF assms(2)]] steps_trans [OF assms(2)] show ?thesis by (fastforce simp: runs_def)
qed

lemma runs_fold:
  assumes "ready env U (sum_list (map w xs)) e" "I e"
    and step: "\<And>x e1. x \<in> set xs \<Longrightarrow> ready env U (w x) e1 \<Longrightarrow> enc_ext (ev_provider env) e e1 \<Longrightarrow> I e1 \<Longrightarrow>
      runs env U (w x) e1 (f e1 x) (\<lambda>e2. P x e2 \<and> I e2)"
    and mono: "\<And>x e1 e2. enc_ext (ev_provider env) e1 e2 \<Longrightarrow> P x e1 \<Longrightarrow> P x e2"
  shows "runs env U (sum_list (map w xs)) e (fold_opt f e xs) (\<lambda>e'. (\<forall>x \<in> set xs. P x e') \<and> I e')"
  using assms(1-3)
proof (induction xs arbitrary: e)
  case Nil
  then show ?case by (auto intro!: runsI [OF _ steps.stay])
next
  case (Cons x xs)
  have r: "ready env U (w x) e" by (rule ready_less [OF Cons.prems(1)]) simp
  have "runs env U (w x + sum_list (map w xs)) e (Option.bind (f e x) (\<lambda>e1. fold_opt f e1 xs)) (\<lambda>e'. (\<forall>x \<in> set (x # xs). P x e') \<and> I e')"
  proof (rule runs_bind [where ?Q1.0 = "\<lambda>e2. P x e2 \<and> I e2"])
    show "ready env U (w x + sum_list (map w xs)) e" using Cons.prems(1) by simp
    show "runs env U (w x) e (f e x) (\<lambda>e2. P x e2 \<and> I e2)" using Cons.prems(3) [of x e] r Cons.prems(2) by simp
    fix e1
    assume e1: "ready env U (sum_list (map w xs)) e1" "enc_ext (ev_provider env) e e1" "P x e1 \<and> I e1"
    have "runs env U (sum_list (map w xs)) e1 (fold_opt f e1 xs) (\<lambda>e'. (\<forall>x \<in> set xs. P x e') \<and> I e')"
      by (rule Cons.IH [OF e1(1)]) (use e1 Cons.prems(3) enc_ext_trans [OF e1(2)] in auto)
    then show "runs env U (sum_list (map w xs)) e1 (fold_opt f e1 xs) (\<lambda>e'. (\<forall>x \<in> set (x # xs). P x e') \<and> I e')"
      by (rule runs_weaken) (use e1(3) mono in auto)
  qed
  then show ?case by simp
qed

section \<open>The operations the handlers share\<close>

lemma en_variable_pair: "en_variable f e = (fst (f (ss_variable_map (en_state e))), snd (en_variable f e))"
  by (simp add: en_variable_def split_beta)

lemma run_intern:
  assumes "en_variable (VariableMap_intern_solvable x) e = (v, e1)"
  shows "steps env U 0 e e1" "var_of (en_state e1) (Solvable x) = Some v" "enc_inv env e \<Longrightarrow> en_origin e1 v = Some (Origin_Solvable x)"
    "ss_decision_tracker (en_state e1) = ss_decision_tracker (en_state e)"
proof -
  have e1: "e1 = snd (en_variable (VariableMap_intern_solvable x) e)" "v = fst (VariableMap_intern_solvable x (ss_variable_map (en_state e)))"
    using assms by (auto simp: en_variable_def split_beta)
  show "steps env U 0 e e1" unfolding e1 by (rule steps_one [OF micro.intern])
  show lk: "var_of (en_state e1) (Solvable x) = Some v"
    unfolding e1 by (auto simp: en_variable_eq VariableMap_intern_solvable_def lookup_solvable_def VariableMap_alloc_def split: option.split)
  show "ss_decision_tracker (en_state e1) = ss_decision_tracker (en_state e)" unfolding e1 by (simp add: en_variable_eq)
  assume "enc_inv env e"
  then have "variable_map_inv (ss_variable_map (en_state e1))"
    unfolding e1 en_variable_eq using enc_invD(1) by (fastforce simp: vars_ok_def intro: VariableMap_intern_solvable_inv)
  with lk show "en_origin e1 v = Some (Origin_Solvable x)" using variable_map_invD(2) by simp
qed

lemma run_intern_root:
  assumes "en_variable (intern_solvable_or_root k) e = (v, e1)"
  shows "steps env U 0 e e1" "var_of (en_state e1) k = Some v"
    "ss_decision_tracker (en_state e1) = ss_decision_tracker (en_state e)"
proof -
  have "steps env U 0 e e1 \<and> var_of (en_state e1) k = Some v \<and> ss_decision_tracker (en_state e1) = ss_decision_tracker (en_state e)"
  proof (cases k)
    case Root
    with assms show ?thesis by (auto simp: en_variable_def intern_solvable_or_root_def intro: steps.stay)
  next
    case (Solvable x)
    then have "en_variable (VariableMap_intern_solvable x) e = (v, e1)"
      using assms by (simp add: en_variable_def intern_solvable_or_root_def)
    from run_intern [OF this] show ?thesis using Solvable by simp
  qed
  then show "steps env U 0 e e1" "var_of (en_state e1) k = Some v" "ss_decision_tracker (en_state e1) = ss_decision_tracker (en_state e)"
    by simp_all
qed

lemma solvable_variable:
  assumes "vars_ok e" "lookup_solvable (ss_variable_map (en_state e)) x = Some v"
  shows "v \<noteq> 0" "en_origin e v = Some (Origin_Solvable x)"
proof -
  from assms(1) have inv: "variable_map_inv (ss_variable_map (en_state e))" by (simp add: vars_ok_def)
  show o: "en_origin e v = Some (Origin_Solvable x)" using variable_map_invD(2) [OF inv] assms(2) by blast
  with variable_map_invD(1) [OF inv, of v] show "v \<noteq> 0" by auto
qed

lemma en_variable_run_ops:
  "en_variable (run_ops f []) e = ([], e)"
  "en_variable (run_ops f (x # xs)) e = (let (v, e1) = en_variable (f x) e; (vs, e2) = en_variable (run_ops f xs) e1 in (v # vs, e2))"
  by (simp_all add: en_variable_def split_beta Let_def)

text \<open>A list of variables, one per element.\<close>

lemma run_interns:
  assumes step: "\<And>x e v e1. en_variable (f x) e = (v, e1) \<Longrightarrow> steps env U 0 e e1 \<and> P (en_state e1) x v"
    and mono: "\<And>s s' x v. state_ext s s' \<Longrightarrow> P s x v \<Longrightarrow> P s' x v"
    and "en_variable (run_ops f xs) e = (vs, e')"
  shows "steps env U 0 e e' \<and> list_all2 (P (en_state e')) xs vs"
  using assms(3)
proof (induction xs arbitrary: e vs)
  case Nil
  then show ?case by (auto simp: en_variable_def intro: steps.stay)
next
  case (Cons x xs)
  obtain v e1 ws where v: "en_variable (f x) e = (v, e1)" "en_variable (run_ops f xs) e1 = (ws, e')" "vs = v # ws"
    using Cons.prems unfolding en_variable_run_ops(2) by (auto simp: Let_def split: prod.splits)
  from step [OF v(1)] Cons.IH [OF v(2)] steps_trans [of env U 0 e e1 0 e'] v(3)
    mono [OF enc_extD(1) [OF steps_ext [of env U 0 e1 e' "ev_provider env"]]]
  show ?case by auto
qed

lemma run_intern_lists:
  assumes "en_variable (run_ops (run_ops VariableMap_intern_solvable) xss) e = (vss, e')"
  shows "steps env U 0 e e'" "vars_of_lists (en_state e') xss vss"
proof -
  let ?P = "\<lambda>s x v. lookup_solvable (ss_variable_map s) x = Some v"
  have one: "steps env U 0 e e1 \<and> list_all2 (?P (en_state e1)) xs vs"
    if "en_variable (run_ops VariableMap_intern_solvable xs) e = (vs, e1)" for xs e vs e1
    using run_interns [of VariableMap_intern_solvable env U ?P, OF _ _ that] run_intern(1,2) state_extD(6) by fastforce
  have "steps env U 0 e e' \<and> list_all2 (list_all2 (?P (en_state e'))) xss vss"
    by (rule run_interns [OF one _ assms]) (auto elim!: list_all2_mono dest: state_extD(6))
  then show "steps env U 0 e e'" "vars_of_lists (en_state e') xss vss" by (simp_all add: vars_of_lists_def)
qed

lemma run_future:
  assumes "ready env U w e" "genuine (ev_provider env) (en_root_dependencies e) (task_answer (ev_provider env) (en_root_dependencies e) t)"
    "\<And>k. t \<noteq> Task_Dependencies k" "\<And>n. t \<noteq> Task_Candidates n"
    "result_weight (ev_provider env) (task_answer (ev_provider env) (en_root_dependencies e) t) \<le> w"
  shows "runs env U w e (queue_future env t e)
    (\<lambda>e'. cancelled e' \<or> task_answer (ev_provider env) (en_root_dependencies e) t \<in> awaited (ev_provider env) e')"
proof -
  obtain e' where e': "queue_future env t e = Some e'"
    "task_answer (ev_provider env) (en_root_dependencies e) t \<in> awaited (ev_provider env) e' \<or> cancelled e'"
    by (rule queue_future_effect [OF enc_invD(7) [OF readyD(2) [OF assms(1)]] readyD(3) [OF assms(1)], of t]) (rule that)
  from micro.future [OF assms(2-4) e'(1)] have "steps env U
      (result_weight (ev_provider env) (task_answer (ev_provider env) (en_root_dependencies e) t)) e e'" by (rule steps_one)
  with e' assms(5) show ?thesis by (intro runsI [of _ e']) auto
qed

lemma run_package:
  assumes "ready env U 1 e"
  shows "runs env U 1 e (queue_package env n e) (\<lambda>e'. n \<in> ss_clauses_added_for_package (en_state e'))"
proof (cases "n \<in> ss_clauses_added_for_package (en_state e)")
  case True
  then show ?thesis by (auto simp: queue_package_def intro!: runsI [OF _ steps.stay])
next
  case False
  let ?e = "on_state (\<lambda>s. s\<lparr>ss_clauses_added_for_package := insert n (ss_clauses_added_for_package s)\<rparr>) e"
  have "cache_inv (ev_provider env) (en_cache ?e)" using enc_invD(7) [OF readyD(2) [OF assms]] by simp
  then obtain e' where e': "queue_future env (Task_Candidates n) ?e = Some e'" "en_state e' = en_state ?e"
    by (rule queue_future_effect [OF _ readyD(3) [OF assms], of _ "Task_Candidates n"]) (rule that)
  from micro.package [OF False e'(1)] have "steps env U 1 e e'" by (rule steps_one)
  with e' False show ?thesis by (intro runsI [of _ e']) (auto simp: queue_package_def)
qed

lemma run_packages:
  assumes "ready env U (length vss) e"
  shows "runs env U (length vss) e (queue_packages env vss e)
    (\<lambda>e'. \<forall>vs \<in> set vss. pv_version_set_name (ev_interner env) vs \<in> ss_clauses_added_for_package (en_state e'))"
proof -
  have one: "sum_list (map (\<lambda>_. 1) vss) = length vss" by (induction vss) auto
  have "runs env U (sum_list (map (\<lambda>_. 1) vss)) e (queue_packages env vss e)
    (\<lambda>e'. (\<forall>vs \<in> set vss. pv_version_set_name (ev_interner env) vs \<in> ss_clauses_added_for_package (en_state e')) \<and> True)"
    unfolding queue_packages_def
  proof (rule runs_fold)
    fix vs and e1 e2 :: "'a encoder"
    assume "enc_ext (ev_provider env) e1 e2"
    from state_extD(15) [OF enc_extD(1) [OF this]]
    show "pv_version_set_name (ev_interner env) vs \<in> ss_clauses_added_for_package (en_state e1) \<Longrightarrow>
        pv_version_set_name (ev_interner env) vs \<in> ss_clauses_added_for_package (en_state e2)" .
  qed (use assms one run_package in auto)
  then show ?thesis unfolding one by simp
qed

lemma steps_snoc: "steps env U n e e1 \<Longrightarrow> micro env U 0 e1 e2 \<Longrightarrow> steps env U n e e2"
  using steps.move [of env U n e e1 0 e2] by simp

lemma steps_join: "steps env U 0 e e1 \<Longrightarrow> steps env U n e1 e2 \<Longrightarrow> steps env U n e e2"
  using steps_trans [of env U 0 e e1 n e2] by simp

text \<open>A clause of two different literals watches both.\<close>

lemma binary_well_watched:
  assumes "lits s k = Some [a, b]" "a \<noteq> b" "\<And>v r. k \<noteq> Excluded v r" "wl_watched wl \<in> {(a, b), (b, a)}"
  shows "well_watched s k wl"
  using assms by (auto simp: watches_of_def lits_def)

lemma run_binary:
  assumes "en_clause (Some wl, k) e = (c, e')" "justified (ev_provider env) (en_root_dependencies e) (en_state e) k"
    "lits (en_state e) k = Some [a, b]" "a \<noteq> b \<or> (\<exists>v vs. k = Constrains v v vs)" "\<And>v r. k \<noteq> Excluded v r"
    "wl_watched wl \<in> {(a, b), (b, a)}"
  shows "steps env U 0 e e' \<and> c = length (en_kinds e) \<and> en_kinds e' = en_kinds e @ [k] \<and>
    ss_decision_tracker (en_state e') = ss_decision_tracker (en_state e) \<and>
    ss_variable_map (en_state e') = ss_variable_map (en_state e) \<and> lits (en_state e') k = Some [a, b]"
proof -
  have e': "e' = snd (en_clause (Some wl, k) e)" "c = fst (en_clause (Some wl, k) e)" using assms(1) by simp_all
  have "(\<forall>v vs. k \<noteq> Constrains v v vs) \<longrightarrow> well_watched (en_state e) k wl"
    using binary_well_watched [of "en_state e" k a b wl, OF assms(3) _ assms(5,6)] assms(4) by metis
  then have "steps env U 0 e e'" unfolding e' using assms(3) by (intro steps_one micro.watched [OF assms(2)]) simp_all
  with assms(1,3) show ?thesis by (auto simp: en_clause_def split_beta)
qed

section \<open>Exclusions and locks\<close>

lemma run_exclusion:
  assumes "deps_of (ev_provider env) (en_root_dependencies e) k = Unknown reason \<or>
      (\<exists>x n. k = Solvable x \<and> (x, reason) \<in> set (ca_excluded (candidates_for (ev_provider env) n)))"
    "add_exclusion_clause k reason e = (v, e')"
  shows "steps env U 0 e e'" "excluded_done (en_state e') k reason"
proof -
  obtain v1 e1 where e1: "en_variable (intern_solvable_or_root k) e = (v1, e1)" by fastforce
  note i = run_intern_root(1) [OF e1, of env U] run_intern_root(2,3) [OF e1]
  let ?k = "Excluded v1 reason"
  let ?e2 = "on_state (\<lambda>s. s\<lparr>ss_negative_assertions := ss_negative_assertions s @ [(v1, length (en_kinds e1))]\<rparr>) (snd (en_clause (None, ?k) e1))"
  have root: "en_root_dependencies e1 = en_root_dependencies e" by (rule enc_extD(2) [OF steps_ext [OF i(1)]])
  have "micro env U 0 e1 ?e2"
    by (rule micro.single) (use assms(1) i(2) root in \<open>auto simp: lits_def\<close>)
  then have s2: "steps env U 0 e ?e2" by (rule steps_snoc [OF i(1)])
  have res: "e' = en_conflict (en_value ?e2 v1 = Some True) (length (en_kinds e1)) ?e2"
    using assms(2) e1 by (auto simp: add_exclusion_clause_def WatchedLiterals_exclude_def Clause_exclude_def
        from_kind_and_initial_watches_def Let_def split_beta en_clause_eq)
  have k2: "en_kinds ?e2 = en_kinds e1 @ [?k]" by (simp add: en_clause_eq)
  have "micro env U 0 ?e2 e'" unfolding res by (rule micro.conflict) (simp add: en_clause_eq)
  then show s': "steps env U 0 e e'" by (rule steps_snoc [OF s2])
  have "var_of (en_state ?e2) k = Some v1"
    by (rule state_extD(7) [OF enc_extD(1) [OF micro_ext [OF \<open>micro env U 0 e1 ?e2\<close>]] i(2)])
  with k2 have "excluded_done (en_state ?e2) k reason" by (auto simp: excluded_done_def)
  then show "excluded_done (en_state e') k reason"
    by (rule excluded_done_ext [OF enc_extD(1) [OF micro_ext [OF \<open>micro env U 0 ?e2 e'\<close>]]])
qed

lemma steps_foldl:
  assumes step: "\<And>x e1. x \<in> set xs \<Longrightarrow> enc_ext (ev_provider env) e e1 \<Longrightarrow> enc_inv env e1 \<Longrightarrow> I e1 \<Longrightarrow>
      steps env U 0 e1 (f e1 x) \<and> P x (f e1 x) \<and> I (f e1 x)"
    and mono: "\<And>x e1 e2. enc_ext (ev_provider env) e1 e2 \<Longrightarrow> P x e1 \<Longrightarrow> P x e2"
    and "ready env U w e" "I e"
  shows "steps env U 0 e (foldl f e xs) \<and> (\<forall>x \<in> set xs. P x (foldl f e xs)) \<and> I (foldl f e xs)"
proof -
  have "runs env U (sum_list (map (\<lambda>_. 0) xs)) e (fold_opt (\<lambda>e x. Some (f e x)) e xs) (\<lambda>e'. (\<forall>x \<in> set xs. P x e') \<and> I e')"
  proof (rule runs_fold)
    show "ready env U (sum_list (map (\<lambda>_. 0) xs)) e" by (rule ready_less [OF assms(3)]) (simp add: sum_list_triv)
  qed (use assms in \<open>auto intro!: runsI dest: readyD\<close>)
  moreover have "fold_opt (\<lambda>e x. Some (f e x)) e xs = Some (foldl f e xs)" by (induction xs arbitrary: e) auto
  ultimately show ?thesis by (auto simp: runs_def sum_list_triv)
qed

lemma steps_inv2: "steps env U n e e' \<Longrightarrow> ready env U w e \<Longrightarrow> enc_inv env e'"
  using steps_inv provider_okD(1) readyD by blast

lemma run_locks:
  assumes "ready env U w e" "ca_locked (candidates_for (ev_provider env) n) = Some a"
  shows "steps env U 0 e (add_locked_package_clauses a (ca_candidates (candidates_for (ev_provider env) n)) e) \<and>
    (\<forall>b \<in> set (ca_candidates (candidates_for (ev_provider env) n)). b \<noteq> a \<longrightarrow>
      (\<exists>u w. var_of (en_state (add_locked_package_clauses a (ca_candidates (candidates_for (ev_provider env) n)) e)) (Solvable b) = Some w \<and>
        Lock u w \<in> set (en_kinds (add_locked_package_clauses a (ca_candidates (candidates_for (ev_provider env) n)) e))))"
proof -
  let ?dp = "ev_provider env" and ?cs = "ca_candidates (candidates_for (ev_provider env) n)"
  obtain u e1 where e1: "en_variable (VariableMap_intern_solvable a) e = (u, e1)" by fastforce
  note i = run_intern(1) [OF e1, of env U] run_intern(2) [OF e1]
  let ?f = "\<lambda>e b. if b = a then e else let (w, e') = en_variable (VariableMap_intern_solvable b) e
      in snd (en_clause (WatchedLiterals_lock u w) e')"
  let ?P = "\<lambda>b e. b \<noteq> a \<longrightarrow> (\<exists>u w. var_of (en_state e) (Solvable b) = Some w \<and> Lock u w \<in> set (en_kinds e))"
  have r1: "ready env U w e1" using assms(1) ready_steps [of env U 0 w] i(1) by simp
  have "steps env U 0 e2 (?f e2 b) \<and> ?P b (?f e2 b) \<and> var_of (en_state (?f e2 b)) (Solvable a) = Some u"
    if b: "b \<in> set ?cs" "enc_inv env e2" "var_of (en_state e2) (Solvable a) = Some u" for e2 b
  proof (cases "b = a")
    case False
    obtain w e3 where e3: "en_variable (VariableMap_intern_solvable b) e2 = (w, e3)" by fastforce
    note j = run_intern(1) [OF e3, of env U] run_intern(2) [OF e3]
    have ext: "state_ext (en_state e2) (en_state e3)" by (rule enc_extD(1) [OF steps_ext [OF j(1)]])
    have va: "var_of (en_state e3) (Solvable a) = Some u" using state_extD(7) [OF ext b(3)] .
    obtain c e4 where e4: "en_clause (WatchedLiterals_lock u w) e3 = (c, e4)" by fastforce
    have "vars_ok e3" using micro_vars_ok [OF micro.intern [of env U e2 b] enc_invD(1) [OF b(2)]] e3 by simp
    then have w0: "w \<noteq> 0" by (rule solvable_variable) (use j(2) in simp)
    have wl: "WatchedLiterals_lock u w = (Some \<lparr>wl_watched = (negative 0, negative w), wl_next = (None, None)\<rparr>, Lock u w)"
      by (simp add: WatchedLiterals_lock_def Clause_lock_def from_kind_and_initial_watches_def)
    have "justified ?dp (en_root_dependencies e3) (en_state e3) (Lock u w)"
      using assms(2) b(1) False va j(2) by auto
    note bin = run_binary [OF e4 [unfolded wl] this, where a = "negative w" and b = "negative 0"]
    have "steps env U 0 e3 e4" "en_kinds e4 = en_kinds e3 @ [Lock u w]" "ss_variable_map (en_state e4) = ss_variable_map (en_state e3)"
      using bin [where U = U] w0 by (simp_all add: lits_def)
    moreover have "?f e2 b = e4" using False e3 e4 by simp
    ultimately show ?thesis using steps_join [OF j(1)] j(2) va by (auto simp: Let_def)
  qed (use b in \<open>auto intro: steps.stay\<close>)
  moreover have "?P b e2 \<Longrightarrow> ?P b e3" if "enc_ext ?dp e2 e3" for b e2 e3
    using state_extD(1,7) [OF enc_extD(1) [OF that]] by blast
  ultimately have "steps env U 0 e1 (foldl ?f e1 ?cs) \<and> (\<forall>b \<in> set ?cs. ?P b (foldl ?f e1 ?cs)) \<and>
      var_of (en_state (foldl ?f e1 ?cs)) (Solvable a) = Some u"
    by (rule steps_foldl [where P = ?P and I = "\<lambda>e. var_of (en_state e) (Solvable a) = Some u", OF _ _ r1 i(2)])
  moreover have "add_locked_package_clauses a ?cs e = foldl ?f e1 ?cs" by (simp add: add_locked_package_clauses_def e1)
  ultimately show ?thesis using steps_join [OF i(1)] by simp
qed

lemma run_candidates:
  assumes "ready env U w e"
  shows "steps env U 0 e (on_candidates_available n (candidates_for (ev_provider env) n) e) \<and>
    package_done (ev_provider env) (en_state (on_candidates_available n (candidates_for (ev_provider env) n) e)) n"
proof -
  let ?dp = "ev_provider env" and ?pc = "candidates_for (ev_provider env) n"
  define e1 where "e1 = (if ca_allow_multiple ?pc then on_state (\<lambda>s. s\<lparr>ss_allow_multiple_names := insert n (ss_allow_multiple_names s)\<rparr>) e else e)"
  define e2 where "e2 = (case ca_locked ?pc of None \<Rightarrow> e1 | Some a \<Rightarrow> add_locked_package_clauses a (ca_candidates ?pc) e1)"
  let ?f = "\<lambda>e p. snd (add_exclusion_clause (Solvable (fst p)) (snd p) e)"
  have s1: "steps env U 0 e e1" by (auto simp: e1_def intro: steps_one micro.multiple steps.stay)
  have r1: "ready env U w e1" using assms ready_steps [of env U 0 w] s1 by simp
  have s2: "steps env U 0 e1 e2 \<and> (\<forall>a b. ca_locked ?pc = Some a \<longrightarrow> b \<in> set (ca_candidates ?pc) \<longrightarrow> b \<noteq> a \<longrightarrow>
      (\<exists>u w. var_of (en_state e2) (Solvable b) = Some w \<and> Lock u w \<in> set (en_kinds e2)))"
  proof (cases "ca_locked ?pc")
    case (Some a)
    with run_locks [OF r1 Some] show ?thesis by (simp add: e2_def)
  qed (simp add: e2_def steps.stay)
  have r2: "ready env U w e2" using r1 ready_steps [of env U 0 w] s2 by simp
  have "steps env U 0 e2 (foldl ?f e2 (ca_excluded ?pc)) \<and>
      (\<forall>p \<in> set (ca_excluded ?pc). excluded_done (en_state (foldl ?f e2 (ca_excluded ?pc))) (Solvable (fst p)) (snd p)) \<and> True"
  proof (rule steps_foldl [OF _ _ r2])
    fix p :: "solvable_id \<times> string_id" and e3 :: "'a encoder"
    assume p: "p \<in> set (ca_excluded ?pc)"
    obtain v e4 where e4: "add_exclusion_clause (Solvable (fst p)) (snd p) e3 = (v, e4)" by fastforce
    have "steps env U 0 e3 e4" "excluded_done (en_state e4) (Solvable (fst p)) (snd p)"
      by (rule run_exclusion [OF _ e4], use p in force)+
    with e4 show "steps env U 0 e3 (?f e3 p) \<and> excluded_done (en_state (?f e3 p)) (Solvable (fst p)) (snd p) \<and> True" by simp
  qed (use excluded_done_ext [OF enc_extD(1)] in blast, simp)
  moreover have res: "on_candidates_available n ?pc e = foldl ?f e2 (ca_excluded ?pc)"
    unfolding on_candidates_available_def Let_def e2_def e1_def split_def ..
  ultimately have s3: "steps env U 0 e2 (on_candidates_available n ?pc e)"
    "\<forall>p \<in> set (ca_excluded ?pc). excluded_done (en_state (on_candidates_available n ?pc e)) (Solvable (fst p)) (snd p)" by simp_all
  have s13: "steps env U 0 e1 (on_candidates_available n ?pc e)" using s2 s3(1) steps_join by blast
  have "ca_allow_multiple ?pc \<longrightarrow> n \<in> ss_allow_multiple_names (en_state e1)" by (simp add: e1_def)
  then have "ca_allow_multiple ?pc \<longrightarrow> n \<in> ss_allow_multiple_names (en_state (on_candidates_available n ?pc e))"
    using state_extD(16) [OF enc_extD(1) [OF steps_ext [OF s13]]] by blast
  moreover have "\<forall>a b. ca_locked ?pc = Some a \<longrightarrow> b \<in> set (ca_candidates ?pc) \<longrightarrow> b \<noteq> a \<longrightarrow>
      (\<exists>u w. var_of (en_state (on_candidates_available n ?pc e)) (Solvable b) = Some w \<and> Lock u w \<in> set (en_kinds (on_candidates_available n ?pc e)))"
    using s2 state_extD(1,7) [OF enc_extD(1) [OF steps_ext [OF s3(1)]]] by blast
  ultimately have "package_done ?dp (en_state (on_candidates_available n ?pc e)) n"
    unfolding package_done_def using s3(2) by (simp add: split_beta)
  with s1 s13 steps_join show ?thesis by blast
qed

section \<open>Dependencies\<close>

lemma run_conditional_requirement:
  assumes "ready env U (queue_weight (ev_provider env) req) e" "requires_of (ev_provider env) (en_root_dependencies e) k req"
  shows "runs env U (queue_weight (ev_provider env) req) e (queue_conditional_requirement env k req e)
    (\<lambda>e'. cancelled e' \<or> requirement_live (ev_provider env) (en_state e') (awaited (ev_provider env) e') k req)"
proof (cases "cr_condition req")
  case None
  have "runs env U (queue_weight (ev_provider env) req) e (queue_future env (Task_RequirementCandidates k req None) e)
    (\<lambda>e'. cancelled e' \<or> task_answer (ev_provider env) (en_root_dependencies e) (Task_RequirementCandidates k req None) \<in> awaited (ev_provider env) e')"
    by (rule run_future) (use assms None in \<open>auto simp: genuine_condition_def queue_weight_def\<close>)
  then show ?thesis
    by (auto simp: None queue_conditional_requirement_def queue_requirement_candidates_def requirement_live_def elim!: runs_weaken)
next
  case (Some c)
  have "runs env U (queue_weight (ev_provider env) req) e (queue_future env (Task_ConditionData k req c) e)
    (\<lambda>e'. cancelled e' \<or> task_answer (ev_provider env) (en_root_dependencies e) (Task_ConditionData k req c) \<in> awaited (ev_provider env) e')"
    by (rule run_future) (use assms Some in \<open>auto simp: queue_weight_def\<close>)
  then show ?thesis
    by (auto simp: Some queue_conditional_requirement_def queue_condition_data_def requirement_live_def disjuncts_for_def elim!: runs_weaken)
qed

lemma sum_list_const: "sum_list (map (\<lambda>_. c) xs) = c * length xs"
  by (induction xs) auto

lemma run_dependencies:
  assumes "ready env U (dependencies_weight (ev_provider env) (deps_of (ev_provider env) (en_root_dependencies e) k) - 1) e"
  shows "runs env U (dependencies_weight (ev_provider env) (deps_of (ev_provider env) (en_root_dependencies e) k) - 1) e
    (on_dependencies_available env k (deps_of (ev_provider env) (en_root_dependencies e) k) e)
    (\<lambda>e'. cancelled e' \<or> deps_live (ev_provider env) (en_root_dependencies e) (en_state e') (awaited (ev_provider env) e') k)"
proof (cases "deps_of (ev_provider env) (en_root_dependencies e) k")
  case (Unknown reason)
  obtain v e1 where e1: "add_exclusion_clause k reason e = (v, e1)" by fastforce
  have "steps env U 0 e e1" "excluded_done (en_state e1) k reason"
    by (rule run_exclusion [where env = env, OF _ e1], simp add: Unknown)+
  then show ?thesis unfolding Unknown by (intro runsI [of _ e1]) (simp_all add: on_dependencies_available_def e1 deps_live_def Unknown)
next
  case (Known d)
  let ?dp = "ev_provider env" and ?root = "en_root_dependencies e"
  let ?vs = "\<lambda>req. requirement_version_sets (dp_interner ?dp) (cr_requirement req)"
  let ?vss = "concat (map ?vs (filter (\<lambda>r. cr_condition r = None) (kd_requirements d))) @ kd_constrains d"
  let ?named = "\<lambda>e. \<forall>vs \<in> set ?vss. pv_version_set_name (dp_interner ?dp) vs \<in> ss_clauses_added_for_package (en_state e)"
  let ?req = "\<lambda>req e. cancelled e \<or> requirement_live ?dp (en_state e) (awaited ?dp e) k req"
  let ?con = "\<lambda>vs e. cancelled e \<or> Result_ConstraintCandidates k vs (non_matching_for ?dp vs) \<in> awaited ?dp e"
  let ?n2 = "sum_list (map (queue_weight ?dp) (kd_requirements d))" and ?n3 = "length (kd_constrains d)"
  have "length (concat (map ?vs (filter (\<lambda>r. cr_condition r = None) rs))) = sum_list (map (package_weight ?dp) rs)" for rs
    by (induction rs) (auto simp: package_weight_def)
  then have total: "dependencies_weight ?dp (Known d) - 1 = length ?vss + (?n2 + ?n3)" by simp
  have req_mono: "?req req e2" if "enc_ext ?dp e1 e2" "?req req e1" for req e1 e2
    using that requirement_live_ext [OF enc_extD(1) [OF that(1)]] enc_extD(6,7) [OF that(1)] by blast
  have con_mono: "?con vs e2" if "enc_ext ?dp e1 e2" "?con vs e1" for vs e1 e2
    using that enc_extD(6,7) [OF that(1)] by blast
  have step2: "runs env U ?n2 e1 (fold_opt (\<lambda>e req. queue_conditional_requirement env k req e) e1 (kd_requirements d))
      (\<lambda>e'. (\<forall>r \<in> set (kd_requirements d). ?req r e') \<and> True)"
    if "ready env U ?n2 e1" "enc_ext ?dp e e1" for e1
  proof (rule runs_fold [OF that(1) TrueI _ req_mono])
    fix req e2
    assume r: "req \<in> set (kd_requirements d)" "enc_ext ?dp e1 e2" "ready env U (queue_weight ?dp req) e2"
    have "en_root_dependencies e2 = ?root" by (rule enc_extD(2) [OF enc_ext_trans [OF that(2) r(2)]])
    with r(1) Known have "requires_of ?dp (en_root_dependencies e2) k req" by (simp add: requires_of_def)
    with r(3) show "runs env U (queue_weight ?dp req) e2 (queue_conditional_requirement env k req e2) (\<lambda>e2. ?req req e2 \<and> True)"
      using run_conditional_requirement by simp
  qed
  have step3: "runs env U (sum_list (map (\<lambda>_. 1) (kd_constrains d))) e1
      (fold_opt (\<lambda>e vs. queue_constraint env k vs e) e1 (kd_constrains d)) (\<lambda>e'. (\<forall>vs \<in> set (kd_constrains d). ?con vs e') \<and> True)"
    if "ready env U ?n3 e1" "enc_ext ?dp e e1" for e1
  proof (rule runs_fold [OF _ TrueI _ con_mono])
    show "ready env U (sum_list (map (\<lambda>_. 1) (kd_constrains d))) e1" using that(1) by (simp add: sum_list_const)
    fix vs e2
    assume vs: "vs \<in> set (kd_constrains d)" "enc_ext ?dp e1 e2" "ready env U 1 e2"
    have "en_root_dependencies e2 = ?root" by (rule enc_extD(2) [OF enc_ext_trans [OF that(2) vs(2)]])
    with vs(1) Known have "constrains_of ?dp (en_root_dependencies e2) k vs" by (simp add: constrains_of_def)
    then have "runs env U 1 e2 (queue_future env (Task_ConstraintCandidates k vs) e2) (\<lambda>e'. cancelled e' \<or>
        task_answer ?dp (en_root_dependencies e2) (Task_ConstraintCandidates k vs) \<in> awaited ?dp e')"
      by (intro run_future [OF vs(3)]) simp_all
    then show "runs env U 1 e2 (queue_constraint env k vs e2) (\<lambda>e2. ?con vs e2 \<and> True)" by (simp add: queue_constraint_def)
  qed
  have "runs env U (length ?vss + (?n2 + ?n3)) e (on_dependencies_available env k (Known d) e)
      (\<lambda>e'. ?named e' \<and> (\<forall>r \<in> set (kd_requirements d). ?req r e') \<and> (\<forall>vs \<in> set (kd_constrains d). ?con vs e'))"
    unfolding on_dependencies_available_def dependencies.case
  proof (rule runs_bind [where ?Q1.0 = ?named])
    show r: "ready env U (length ?vss + (?n2 + ?n3)) e" using assms unfolding Known total .
    show "runs env U (length ?vss) e (queue_packages env ?vss e) ?named"
      by (rule run_packages) (rule ready_less [OF r], simp)
    fix e1
    assume e1: "ready env U (?n2 + ?n3) e1" "enc_ext ?dp e e1" "?named e1"
    show "runs env U (?n2 + ?n3) e1 (Option.bind (fold_opt (\<lambda>e req. queue_conditional_requirement env k req e) e1 (kd_requirements d))
        (\<lambda>e2. fold_opt (\<lambda>e vs. queue_constraint env k vs e) e2 (kd_constrains d)))
      (\<lambda>e'. ?named e' \<and> (\<forall>r \<in> set (kd_requirements d). ?req r e') \<and> (\<forall>vs \<in> set (kd_constrains d). ?con vs e'))"
    proof (rule runs_bind [OF e1(1) step2 [OF ready_less [OF e1(1)] e1(2)]])
      fix e2
      assume e2: "ready env U ?n3 e2" "enc_ext ?dp e1 e2" "(\<forall>r \<in> set (kd_requirements d). ?req r e2) \<and> True"
      have "runs env U (sum_list (map (\<lambda>_. 1) (kd_constrains d))) e2 (fold_opt (\<lambda>e vs. queue_constraint env k vs e) e2 (kd_constrains d))
        (\<lambda>e'. (\<forall>vs \<in> set (kd_constrains d). ?con vs e') \<and> True)"
        by (rule step3 [OF e2(1) enc_ext_trans [OF e1(2) e2(2)]])
      then show "runs env U ?n3 e2 (fold_opt (\<lambda>e vs. queue_constraint env k vs e) e2 (kd_constrains d))
        (\<lambda>e'. ?named e' \<and> (\<forall>r \<in> set (kd_requirements d). ?req r e') \<and> (\<forall>vs \<in> set (kd_constrains d). ?con vs e'))"
      proof (rule runs_weaken)
        fix e3
        assume e3: "enc_ext ?dp e2 e3" "(\<forall>vs \<in> set (kd_constrains d). ?con vs e3) \<and> True"
        have "?named e3" using e1(3) state_extD(15) [OF enc_extD(1) [OF enc_ext_trans [OF e2(2) e3(1)]]] by blast
        moreover have "\<forall>r \<in> set (kd_requirements d). ?req r e3" using e2(3) req_mono [OF e3(1)] by blast
        ultimately show "?named e3 \<and> (\<forall>r \<in> set (kd_requirements d). ?req r e3) \<and> (\<forall>vs \<in> set (kd_constrains d). ?con vs e3)"
          using e3(2) by blast
      qed (simp add: sum_list_const)
    qed simp
  qed
  then show ?thesis unfolding Known total
    by (rule runs_weaken) (auto simp: deps_live_def Known)
qed

end
