(* ===== verification/Encoder_Constraints.thy ===== *)
theory Encoder_Constraints
  imports Encoder_Handlers
begin

text \<open>The handlers that add requires and constrains clauses.\<close>

section \<open>Tables that are filled early\<close>

text \<open>Adding a clause, a variable or a decision commutes with an update of a table it does not read.\<close>

lemma add_clause_update:
  "snd (add_clause w k (s\<lparr>ss_constrains_aux_vars := x\<rparr>)) = (snd (add_clause w k s))\<lparr>ss_constrains_aux_vars := x\<rparr>"
  "snd (add_clause w k (s\<lparr>ss_requires_aux_vars := y\<rparr>)) = (snd (add_clause w k s))\<lparr>ss_requires_aux_vars := y\<rparr>"
  "snd (add_clause w k (s\<lparr>ss_requirement_to_sorted_candidates := z\<rparr>)) = (snd (add_clause w k s))\<lparr>ss_requirement_to_sorted_candidates := z\<rparr>"
  by (simp_all add: add_clause_def Clauses_alloc_def split_beta split: option.split)

definition set_violation :: "version_set_id \<Rightarrow> variable_id \<Rightarrow> 'c encoder \<Rightarrow> 'c encoder" where
  "set_violation vs a = on_state (\<lambda>s. s\<lparr>ss_constrains_aux_vars := (ss_constrains_aux_vars s)(vs \<mapsto> a)\<rparr>)"

definition set_gate :: "requirement \<Rightarrow> variable_id \<Rightarrow> 'c encoder \<Rightarrow> 'c encoder" where
  "set_gate r g = on_state (\<lambda>s. s\<lparr>ss_requires_aux_vars := (ss_requires_aux_vars s)(r \<mapsto> g)\<rparr>)"

definition set_candidates :: "requirement \<Rightarrow> variable_id list list \<Rightarrow> 'c encoder \<Rightarrow> 'c encoder" where
  "set_candidates r vss = on_state (\<lambda>s. s\<lparr>ss_requirement_to_sorted_candidates := (ss_requirement_to_sorted_candidates s)(r \<mapsto> vss)\<rparr>)"

lemmas set_table_defs = set_violation_def set_gate_def set_candidates_def

text \<open>An update of the encoder that the basic operations neither read nor change.\<close>

definition silent :: "('c encoder \<Rightarrow> 'c encoder) \<Rightarrow> bool" where
  "silent g \<longleftrightarrow> (\<forall>e (f :: variable_map \<Rightarrow> variable_id \<times> variable_map). en_variable f (g e) = apsnd g (en_variable f e)) \<and>
     (\<forall>e wk. en_clause wk (g e) = apsnd g (en_clause wk e)) \<and> (\<forall>e v b c. en_decide v b c (g e) = map_option g (en_decide v b c e)) \<and>
     (\<forall>e b c. en_conflict b c (g e) = g (en_conflict b c e)) \<and>
     (\<forall>e. ss_decision_tracker (en_state (g e)) = ss_decision_tracker (en_state e) \<and>
        ss_disjunctions (en_state (g e)) = ss_disjunctions (en_state e) \<and> ss_decide_queue (en_state (g e)) = ss_decide_queue (en_state e) \<and>
        ss_negative_assertions (en_state (g e)) = ss_negative_assertions (en_state e) \<and>
        ss_requires_gate_requirers (en_state (g e)) = ss_requires_gate_requirers (en_state e)) \<and>
     (\<forall>e q. g e\<lparr>en_state := (en_state (g e))\<lparr>ss_decide_queue := q\<rparr>\<rparr> = g (e\<lparr>en_state := (en_state e)\<lparr>ss_decide_queue := q\<rparr>\<rparr>)) \<and>
     (\<forall>e x. g e\<lparr>en_state := (en_state (g e))\<lparr>ss_negative_assertions := x\<rparr>\<rparr> = g (e\<lparr>en_state := (en_state e)\<lparr>ss_negative_assertions := x\<rparr>\<rparr>)) \<and>
     (\<forall>e x. g e\<lparr>en_state := (en_state (g e))\<lparr>ss_requires_gate_requirers := x\<rparr>\<rparr> = g (e\<lparr>en_state := (en_state e)\<lparr>ss_requires_gate_requirers := x\<rparr>\<rparr>))"

lemma silentD:
  assumes "silent g"
  shows "en_variable (f :: variable_map \<Rightarrow> variable_id \<times> variable_map) (g e) = apsnd g (en_variable f e)"
    "en_clause wk (g e) = apsnd g (en_clause wk e)" "en_decide v b c (g e) = map_option g (en_decide v b c e)"
    "en_conflict b c (g e) = g (en_conflict b c e)" "ss_decision_tracker (en_state (g e)) = ss_decision_tracker (en_state e)"
    "ss_disjunctions (en_state (g e)) = ss_disjunctions (en_state e)" "ss_decide_queue (en_state (g e)) = ss_decide_queue (en_state e)"
    "ss_negative_assertions (en_state (g e)) = ss_negative_assertions (en_state e)"
    "ss_requires_gate_requirers (en_state (g e)) = ss_requires_gate_requirers (en_state e)"
    "g e\<lparr>en_state := (en_state (g e))\<lparr>ss_decide_queue := q\<rparr>\<rparr> = g (e\<lparr>en_state := (en_state e)\<lparr>ss_decide_queue := q\<rparr>\<rparr>)"
    "g e\<lparr>en_state := (en_state (g e))\<lparr>ss_negative_assertions := x\<rparr>\<rparr> = g (e\<lparr>en_state := (en_state e)\<lparr>ss_negative_assertions := x\<rparr>\<rparr>)"
    "g e\<lparr>en_state := (en_state (g e))\<lparr>ss_requires_gate_requirers := y\<rparr>\<rparr> = g (e\<lparr>en_state := (en_state e)\<lparr>ss_requires_gate_requirers := y\<rparr>\<rparr>)"
  using assms unfolding silent_def by blast+

lemma silent_tables: "silent (set_violation vs a)" "silent (set_gate r gt)" "silent (set_candidates r vss)"
  by (auto simp: silent_def set_table_defs en_variable_def en_clause_def en_decide_def en_conflict_def split_beta add_clause_update
      split: sum.split)

lemma constrains_excluded_commute:
  assumes "silent g"
  shows "constrains_excluded a vs (g e) c = map_option g (constrains_excluded a vs e c)"
  by (simp add: constrains_excluded_def silentD [OF assms] Let_def split_beta)

lemma fold_opt_commute:
  assumes "\<And>e x. f (g e) x = map_option g (f e x)"
  shows "fold_opt f (g e) xs = map_option g (fold_opt f e xs)"
proof (induction xs arbitrary: e)
  case (Cons x xs)
  then show ?case by (cases "f e x") (simp_all add: assms)
qed simp

section \<open>Constraints\<close>

lemma run_decide:
  assumes "en_value e v \<noteq> Some (\<not> b)" "\<And>n. en_origin e v \<noteq> Some (Origin_AtLeastOne n)" "en_origin e v \<noteq> None"
    "unit_in (en_state e) c (if b then positive v else negative v)" "valid_level (en_level e)"
  shows "\<exists>e'. en_decide v b c e = Some e' \<and> steps env U 0 e e' \<and> en_kinds e' = en_kinds e \<and>
    (\<forall>u. en_value e' u = (if u = v then Some b else en_value e u))"
proof (cases "en_value e v")
  case None
  then obtain e' where e': "en_decide v b c e = Some e'" by (simp add: en_decide_eq)
  from micro.decision [OF None assms(2-4) e'] have "steps env U 0 e e'" by (rule steps_one)
  moreover from e' None have "e' = on_state (\<lambda>s. s\<lparr>ss_decision_tracker := push_decision (ss_decision_tracker s) (Decision_new v b c) (en_level e)\<rparr>) e"
    by (simp add: en_decide_eq)
  ultimately show ?thesis using e' assms(5) by (simp add: Decision_new_def)
next
  case (Some b')
  with assms(1) have "b' = b" by auto
  with Some show ?thesis by (simp add: en_decide_eq steps.stay fun_upd_idem)
qed

lemma lit_value_true: "en_value e v = Some True \<Longrightarrow> lit_value (ss_decision_tracker (en_state e)) (negative v) = Some False"
  by (simp add: lit_value_assigned eval_def assigned_value_def)

lemma run_constrains_excluded:
  assumes "ready env U 0 e" "en_origin e a = Some (Origin_ConstrainsViolation vs)" "en_value e a \<noteq> Some False"
    "c \<in> set (non_matching_for (ev_provider env) vs)"
  shows "runs env U 0 e (constrains_excluded a vs e c) (\<lambda>e'. (\<exists>w. lookup_solvable (ss_variable_map (en_state e')) c = Some w \<and>
      ConstrainsExcluded w a vs \<in> set (en_kinds e')) \<and> en_origin e' a = Some (Origin_ConstrainsViolation vs) \<and> en_value e' a \<noteq> Some False)"
proof -
  obtain w e1 where e1: "en_variable (VariableMap_intern_solvable c) e = (w, e1)" by fastforce
  note i = run_intern(1) [OF e1, of env U] run_intern(2) [OF e1]
  let ?k = "ConstrainsExcluded w a vs"
  have wl: "WatchedLiterals_constrains_excluded w a vs = (Some \<lparr>wl_watched = (negative w, positive a), wl_next = (None, None)\<rparr>, ?k)"
    by (simp add: WatchedLiterals_constrains_excluded_def Clause_constrains_excluded_def from_kind_and_initial_watches_def)
  obtain cl e2 where e2: "en_clause (WatchedLiterals_constrains_excluded w a vs) e1 = (cl, e2)" by fastforce
  have oa: "en_origin e1 a = Some (Origin_ConstrainsViolation vs)"
    using state_extD(5) [OF enc_extD(1) [OF steps_ext [OF i(1)]] assms(2)] .
  then have "justified (ev_provider env) (en_root_dependencies e1) (en_state e1) ?k" using assms(4) i(2) by auto
  from run_binary [OF e2 [unfolded wl] this, of "negative w" "positive a" U]
  have b: "steps env U 0 e1 e2" "cl = length (en_kinds e1)" "en_kinds e2 = en_kinds e1 @ [?k]"
    "ss_decision_tracker (en_state e2) = ss_decision_tracker (en_state e1)" "ss_variable_map (en_state e2) = ss_variable_map (en_state e1)"
    "lits (en_state e2) ?k = Some [negative w, positive a]"
    by (simp_all add: lits_def)
  have s2: "steps env U 0 e e2" by (rule steps_join [OF i(1) b(1)])
  have fin: "(\<exists>w. lookup_solvable (ss_variable_map (en_state e2)) c = Some w \<and> ?k \<in> set (en_kinds e2)) \<and>
      en_origin e2 a = Some (Origin_ConstrainsViolation vs)"
    using i(2) b(3,5) oa by auto
  have val: "en_value e2 a \<noteq> Some False" using assms(3) b(4) run_intern(4) [OF e1] by simp
  show ?thesis
  proof (cases "en_value e2 w = Some True")
    case False
    with e1 e2 s2 fin val i(2) b(3,5) show ?thesis by (intro runsI [of _ e2]) (auto simp: constrains_excluded_def)
  next
    case True
    have "unit_in (en_state e2) cl (positive a)"
      using b lit_value_true [OF True] by (auto simp: unit_in_def nth_append)
    moreover have "valid_level (en_level e2)" using steps_inv2 [OF s2 assms(1)] enc_invD(1) by (auto simp: vars_ok_def)
    ultimately obtain e3 where e3: "en_decide a True cl e2 = Some e3" "steps env U 0 e2 e3" "en_kinds e3 = en_kinds e2"
      "\<forall>u. en_value e3 u = (if u = a then Some True else en_value e2 u)"
      using run_decide [of e2 a True cl env U] val fin by auto
    have "lookup_solvable (ss_variable_map (en_state e3)) c = Some w" "en_origin e3 a = Some (Origin_ConstrainsViolation vs)"
      using state_extD(5,6) [OF enc_extD(1) [OF steps_ext [OF e3(2)]]] i(2) b(5) fin by simp_all
    with True e1 e2 e3 b(3) steps_join [OF s2 e3(2)] show ?thesis
      by (intro runsI [of _ e3]) (auto simp: constrains_excluded_def)
  qed
qed

lemma fresh_variable:
  assumes "enc_inv env e" "en_variable (VariableMap_alloc og) e = (v, e1)" "auxiliary_origin og" "\<And>n. og \<noteq> Origin_AtLeastOne n"
  shows "steps env U 0 e e1" "en_origin e1 v = Some og" "en_value e1 v = None" "e1 = snd (en_variable (VariableMap_alloc og) e)"
proof -
  show e1: "e1 = snd (en_variable (VariableMap_alloc og) e)" using assms(2) by simp
  have v: "v = variable_count (ss_variable_map (en_state e))" using assms(2) by (auto simp: en_variable_def split_beta)
  show "steps env U 0 e e1" unfolding e1 by (rule steps_one [OF micro.alloc [OF assms(3,4)]])
  show "en_origin e1 v = Some og" by (simp add: e1 v en_variable_eq)
  have "en_origin e v = None" by (simp add: v origin_None_iff)
  then have "en_value e v = None" using enc_invD(1) [OF assms(1)] by (auto simp: vars_ok_def)
  then show "en_value e1 v = None" by (simp add: e1 en_variable_eq)
qed

lemma fold_opt_keeps:
  assumes "\<And>e x e'. f e x = Some e' \<Longrightarrow> g e' = g e" "fold_opt f e xs = Some e'"
  shows "g e' = g e"
  using assms(2)
proof (induction xs arbitrary: e)
  case (Cons x xs)
  then obtain e1 where "f e x = Some e1" "fold_opt f e1 xs = Some e'" by (auto simp: bind_eq_Some_conv)
  with Cons.IH assms(1) show ?case by metis
qed simp

lemma constrains_excluded_keeps:
  "constrains_excluded a vs e c = Some e' \<Longrightarrow> ss_constrains_aux_vars (en_state e') = ss_constrains_aux_vars (en_state e)"
  by (auto simp: constrains_excluded_def Let_def split_beta en_decide_eq en_variable_eq en_clause_eq split: if_splits option.splits)

lemma run_constrains_aux:
  assumes "ready env U 0 e"
  shows "\<exists>a e'. constrains_aux vs (non_matching_for (ev_provider env) vs) e = Some (a, e') \<and> steps env U 0 e e' \<and>
    ss_constrains_aux_vars (en_state e') vs = Some a \<and> en_origin e' a = Some (Origin_ConstrainsViolation vs)"
proof (cases "ss_constrains_aux_vars (en_state e) vs")
  case (Some a)
  with enc_invD(3) [OF readyD(2) [OF assms]] show ?thesis
    by (intro exI [of _ a] exI [of _ e]) (auto simp: constrains_aux_def links_ok_def intro: steps.stay)
next
  case None
  let ?og = "Origin_ConstrainsViolation vs" and ?dp = "ev_provider env"
  let ?cs = "non_matching_for ?dp vs"
  obtain a e1 where e1: "en_variable (VariableMap_alloc ?og) e = (a, e1)" by fastforce
  have fr: "steps env U 0 e e1" "en_origin e1 a = Some ?og" "en_value e1 a = None"
    by (rule fresh_variable [OF readyD(2) [OF assms] e1], simp_all add: auxiliary_origin_def)+
  have r1: "ready env U 0 e1" using ready_steps [of env U 0 0] assms fr(1) by simp
  let ?P = "\<lambda>c e. \<exists>w. lookup_solvable (ss_variable_map (en_state e)) c = Some w \<and> ConstrainsExcluded w a vs \<in> set (en_kinds e)"
  have "runs env U (sum_list (map (\<lambda>_. 0) ?cs)) e1 (fold_opt (constrains_excluded a vs) e1 ?cs)
      (\<lambda>e'. (\<forall>c \<in> set ?cs. ?P c e') \<and> (en_origin e' a = Some ?og \<and> en_value e' a \<noteq> Some False))"
  proof (rule runs_fold)
    show "ready env U (sum_list (map (\<lambda>_. 0) ?cs)) e1" using r1 by (simp add: sum_list_triv)
    show "en_origin e1 a = Some ?og \<and> en_value e1 a \<noteq> Some False" using fr by simp
    fix c e2
    assume "c \<in> set ?cs" "ready env U 0 e2" "en_origin e2 a = Some ?og \<and> en_value e2 a \<noteq> Some False"
    then show "runs env U 0 e2 (constrains_excluded a vs e2 c) (\<lambda>e2. ?P c e2 \<and> en_origin e2 a = Some ?og \<and> en_value e2 a \<noteq> Some False)"
      using run_constrains_excluded [of env U e2 a vs c] by simp
  next
    fix c and e2 e3 :: "'a encoder"
    assume "enc_ext ?dp e2 e3"
    from state_extD(1,6) [OF enc_extD(1) [OF this]] show "?P c e2 \<Longrightarrow> ?P c e3" by blast
  qed
  then obtain e2 where e2: "fold_opt (constrains_excluded a vs) e1 ?cs = Some e2" "steps env U 0 e1 e2" "\<forall>c \<in> set ?cs. ?P c e2"
    "en_origin e2 a = Some ?og" by (auto simp: runs_def sum_list_triv)
  have "ss_constrains_aux_vars (en_state e2) = ss_constrains_aux_vars (en_state e1)"
    by (rule fold_opt_keeps [where g = "\<lambda>e. ss_constrains_aux_vars (en_state e)", OF constrains_excluded_keeps e2(1)])
  also have "ss_constrains_aux_vars (en_state e1) = ss_constrains_aux_vars (en_state e)" using e1 by (auto simp: en_variable_def split_beta)
  finally have "micro env U 0 e2 (set_violation vs a e2)"
    unfolding set_violation_def using None e2(3,4) by (intro micro.violation) (simp_all add: excludes_linked_def)
  then have "steps env U 0 e (set_violation vs a e2)" by (rule steps_snoc [OF steps_join [OF fr(1) e2(2)]])
  moreover have "constrains_aux vs ?cs e = Some (a, set_violation vs a e2)"
  proof -
    have al: "alloc_constrains_violation_variable vs = VariableMap_alloc ?og" by (rule ext) (simp add: alloc_constrains_violation_variable_def)
    have "fold_opt (constrains_excluded a vs) (set_violation vs a e1) ?cs = Some (set_violation vs a e2)"
      using fold_opt_commute [where f = "constrains_excluded a vs" and g = "set_violation vs a" and e = e1 and xs = ?cs,
          OF constrains_excluded_commute [OF silent_tables(1)]] e2(1) by simp
    then show ?thesis using None e1
      by (simp add: constrains_aux_def al set_violation_def)
  qed
  ultimately show ?thesis using e2(4) by (intro exI [of _ a] exI [of _ "set_violation vs a e2"]) (simp add: set_violation_def)
qed

fun origin_for :: "solvable_or_root \<Rightarrow> variable_origin" where
  "origin_for Root = Origin_Root"
| "origin_for (Solvable x) = Origin_Solvable x"

lemma var_of_origin:
  assumes "vars_ok e" "var_of (en_state e) k = Some v"
  shows "en_origin e v = Some (origin_for k)"
proof -
  have inv: "variable_map_inv (ss_variable_map (en_state e))" using assms(1) by (simp add: vars_ok_def)
  show ?thesis using assms(2) variable_map_invD(1,2) [OF inv] by (cases k) simp_all
qed

lemma run_constrains_pairwise:
  assumes "enc_inv env e" "constrains_of (ev_provider env) (en_root_dependencies e) k vs" "var_of (en_state e) k = Some v"
    "c \<in> set (non_matching_for (ev_provider env) vs)"
  shows "steps env U 0 e (constrains_pairwise v vs e c) \<and>
    (\<exists>w. var_of (en_state (constrains_pairwise v vs e c)) (Solvable c) = Some w \<and>
      Constrains v w vs \<in> set (en_kinds (constrains_pairwise v vs e c))) \<and>
    var_of (en_state (constrains_pairwise v vs e c)) k = Some v"
proof -
  obtain w e1 where e1: "en_variable (VariableMap_intern_solvable c) e = (w, e1)" by fastforce
  note i = run_intern(1) [OF e1, of env U] run_intern(2) [OF e1]
  let ?k = "Constrains v w vs"
  have ee: "enc_ext (ev_provider env) e e1" by (rule steps_ext [OF i(1)])
  have vk: "var_of (en_state e1) k = Some v" by (rule state_extD(7) [OF enc_extD(1) [OF ee] assms(3)])
  obtain conflict where wl: "WatchedLiterals_constrains v w vs (ss_decision_tracker (en_state e1)) =
      (Some \<lparr>wl_watched = (negative v, negative w), wl_next = (None, None)\<rparr>, conflict, ?k)"
    by (simp add: WatchedLiterals_constrains_def Clause_constrains_def from_kind_and_initial_watches_def Let_def)
  obtain cl e2 where e2: "en_clause (Some \<lparr>wl_watched = (negative v, negative w), wl_next = (None, None)\<rparr>, ?k) e1 = (cl, e2)" by fastforce
  have "justified (ev_provider env) (en_root_dependencies e1) (en_state e1) ?k"
    using assms(2,4) vk i(2) enc_extD(2) [OF ee] by auto
  from run_binary [OF e2 this, of "negative v" "negative w" U]
  have b: "steps env U 0 e1 e2" "cl = length (en_kinds e1)" "en_kinds e2 = en_kinds e1 @ [?k]"
    by (auto simp add: lits_def)
  let ?e3 = "en_conflict conflict cl e2"
  have "micro env U 0 e2 ?e3" by (rule micro.conflict) (simp add: b)
  then have s: "steps env U 0 e1 ?e3" by (rule steps_snoc [OF b(1)])
  have res: "constrains_pairwise v vs e c = ?e3" by (simp add: constrains_pairwise_def e1 e2 wl)
  have "en_kinds ?e3 = en_kinds e2" by (simp add: en_conflict_def)
  moreover have "var_of (en_state ?e3) (Solvable c) = Some w" "var_of (en_state ?e3) k = Some v"
    using state_extD(7) [OF enc_extD(1) [OF steps_ext [OF s]]] i(2) vk by blast+
  ultimately show ?thesis unfolding res using b(3) steps_join [OF i(1) s] by auto
qed

lemma run_constraint:
  assumes "ready env U 0 e" "constrains_of (ev_provider env) (en_root_dependencies e) k vs"
  shows "runs env U 0 e (on_constraint_candidates_available k vs (non_matching_for (ev_provider env) vs) e)
    (\<lambda>e'. constraint_done (ev_provider env) (en_state e') k vs)"
proof -
  let ?dp = "ev_provider env" and ?cs = "non_matching_for (ev_provider env) vs"
  obtain v e1 where e1: "en_variable (intern_solvable_or_root k) e = (v, e1)" by fastforce
  note i = run_intern_root(1) [OF e1, of env U] run_intern_root(2) [OF e1]
  have r1: "ready env U 0 e1" using ready_steps [of env U 0 0] assms(1) i(1) by simp
  have c1: "constrains_of ?dp (en_root_dependencies e1) k vs" using assms(2) enc_extD(2) [OF steps_ext [OF i(1)]] by simp
  show ?thesis
  proof (cases "length ?cs < CONSTRAINS_AUX_ENCODING_THRESHOLD")
    case True
    let ?P = "\<lambda>c e. \<exists>w. var_of (en_state e) (Solvable c) = Some w \<and> Constrains v w vs \<in> set (en_kinds e)"
    let ?I = "\<lambda>e. var_of (en_state e) k = Some v" and ?f = "constrains_pairwise v vs"
    have "steps env U 0 e1 (foldl ?f e1 ?cs) \<and> (\<forall>c \<in> set ?cs. ?P c (foldl ?f e1 ?cs)) \<and> ?I (foldl ?f e1 ?cs)"
    proof (rule steps_foldl [where P = ?P and I = ?I, OF _ _ r1 i(2)])
      fix c e2
      assume c: "c \<in> set ?cs" "enc_ext ?dp e1 e2" "enc_inv env e2" "?I e2"
      have "en_root_dependencies e2 = en_root_dependencies e1" by (rule enc_extD(2) [OF c(2)])
      with run_constrains_pairwise [OF c(3) _ c(4,1)] c1
      show "steps env U 0 e2 (?f e2 c) \<and> ?P c (?f e2 c) \<and> ?I (?f e2 c)" by simp
    next
      fix c and e2 e3 :: "'a encoder"
      assume "enc_ext ?dp e2 e3"
      from state_extD(1,7) [OF enc_extD(1) [OF this]] show "?P c e2 \<Longrightarrow> ?P c e3" by blast
    qed
    with steps_join [OF i(1)] True e1 show ?thesis
      by (intro runsI [of _ "foldl ?f e1 ?cs"]) (auto simp: on_constraint_candidates_available_def constraint_done_def)
  next
    case False
    obtain a e2 where e2: "constrains_aux vs ?cs e1 = Some (a, e2)" "steps env U 0 e1 e2"
      "ss_constrains_aux_vars (en_state e2) vs = Some a" "en_origin e2 a = Some (Origin_ConstrainsViolation vs)"
      using run_constrains_aux [OF r1] by blast
    have ee: "enc_ext ?dp e1 e2" by (rule steps_ext [OF e2(2)])
    let ?k = "ConstrainsParent v a vs" and ?wl = "\<lparr>wl_watched = (negative v, negative a), wl_next = (None, None)\<rparr>"
    obtain conflict where wl: "WatchedLiterals_constrains_parent v a vs (ss_decision_tracker (en_state e2)) = (Some ?wl, conflict, ?k)"
      by (simp add: WatchedLiterals_constrains_parent_def Clause_constrains_parent_def from_kind_and_initial_watches_def Let_def)
    obtain cl e3 where e3: "en_clause (Some ?wl, ?k) e2 = (cl, e3)" by fastforce
    have vk: "var_of (en_state e2) k = Some v" by (rule state_extD(7) [OF enc_extD(1) [OF ee] i(2)])
    have "enc_inv env e2" by (rule steps_inv2 [OF e2(2) r1])
    from var_of_origin [OF enc_invD(1) [OF this] vk] have "v \<noteq> a" using e2(4) by (cases k) auto
    moreover have "justified ?dp (en_root_dependencies e2) (en_state e2) ?k"
      using c1 vk e2(4) enc_extD(2) [OF ee] by auto
    ultimately have b: "steps env U 0 e2 e3" "cl = length (en_kinds e2)" "en_kinds e3 = en_kinds e2 @ [?k]"
      using run_binary [OF e3, of "env" "negative v" "negative a" U] by (simp_all add: lits_def)
    let ?e4 = "en_conflict conflict cl e3"
    have "micro env U 0 e3 ?e4" by (rule micro.conflict) (simp add: b)
    then have s: "steps env U 0 e2 ?e4" by (rule steps_snoc [OF b(1)])
    have "constraint_done ?dp (en_state ?e4) k vs"
      unfolding constraint_done_def using state_extD(7,9) [OF enc_extD(1) [OF steps_ext [OF s]]] vk e2(3) b(3)
      by (intro exI [of _ v]) (auto simp: en_conflict_def)
    moreover have "on_constraint_candidates_available k vs ?cs e = Some ?e4"
      using False e1 e2(1) e3 wl by (simp add: on_constraint_candidates_available_def)
    ultimately show ?thesis using steps_join [OF i(1) steps_join [OF e2(2) s]] by (intro runsI) auto
  qed
qed

section \<open>Conditions\<close>

lemma deferred_conjunct_version_set [simp]: "DeferredConjunct_version_set (deferred_conjunct (conjunct_for dp vs)) = vs"
  by (simp add: deferred_conjunct_def conjunct_for_def complement_for_def complement_of_def)

lemma run_defer:
  assumes "ready env U w e" "requires_of (ev_provider env) (en_root_dependencies e) k req" "cr_condition req = Some c"
    "set ds \<subseteq> set (disjuncts_for (ev_provider env) c)"
    and push: "push = (\<lambda>(e :: 'c encoder) d. on_state (push_deferred \<lparr>dr_solvable_id = k, dr_requirement = req,
      dr_condition = c, dr_disjunct = map deferred_conjunct (dd_conjuncts d)\<rparr>) e)"
  shows "steps env U 0 e (foldl push e ds) \<and> (\<forall>d \<in> set ds. \<exists>x \<in> deferred_set (en_state (foldl push e ds)).
    \<forall>cnf. d = \<lparr>dd_conjuncts = map (conjunct_for (ev_provider env)) cnf\<rparr> \<longrightarrow> entry_for x k req c cnf)"
proof -
  let ?dp = "ev_provider env"
  let ?P = "\<lambda>d e. \<exists>x \<in> deferred_set (en_state e).
    \<forall>cnf. d = \<lparr>dd_conjuncts = map (conjunct_for ?dp) cnf\<rparr> \<longrightarrow> entry_for x k req c cnf"
  have "steps env U 0 e (foldl push e ds) \<and> (\<forall>d \<in> set ds. ?P d (foldl push e ds)) \<and> True"
  proof (rule steps_foldl [where P = ?P and I = "\<lambda>_. True", OF _ _ assms(1)])
    fix d e1
    assume d: "d \<in> set ds" "enc_ext ?dp e e1"
    from d(1) assms(4) obtain cnf where cnf: "cnf \<in> set (dnf_for ?dp c)" "d = \<lparr>dd_conjuncts = map (conjunct_for ?dp) cnf\<rparr>"
      by (auto simp: disjuncts_for_def)
    have "requires_of ?dp (en_root_dependencies e1) k req" using assms(2) enc_extD(2) [OF d(2)] by simp
    with cnf assms(3) have "micro env U 0 e1 (push e1 d)"
      unfolding push by (intro micro.deferred) (simp add: genuine_deferred_def comp_def)
    moreover have "?P d (push e1 d)" by (auto simp: push entry_for_def comp_def)
    ultimately show "steps env U 0 e1 (push e1 d) \<and> ?P d (push e1 d) \<and> True" by (simp add: steps_one)
  next
    fix d and e1 e2 :: "'c encoder"
    assume "enc_ext ?dp e1 e2"
    from state_extD(17) [OF enc_extD(1) [OF this]] show "?P d e1 \<Longrightarrow> ?P d e2" by blast
  qed simp
  then show ?thesis by simp
qed

lemma run_condition_data:
  assumes "ready env U (condition_weight (ev_provider env) req (length (dnf_for (ev_provider env) c)) - 1) e"
    "requires_of (ev_provider env) (en_root_dependencies e) k req" "cr_condition req = Some c"
  shows "runs env U (condition_weight (ev_provider env) req (length (dnf_for (ev_provider env) c)) - 1) e
    (on_condition_data_available env k req c (disjuncts_for (ev_provider env) c) e)
    (\<lambda>e'. cancelled e' \<or> (\<forall>cnf \<in> set (dnf_for (ev_provider env) c).
      cnf_live (ev_provider env) (en_state e') (awaited (ev_provider env) e') k req c cnf))"
proof -
  let ?dp = "ev_provider env" and ?dnf = "dnf_for (ev_provider env) c"
  let ?data = "\<lambda>cnf. \<lparr>dd_conjuncts = map (conjunct_for ?dp) cnf\<rparr>"
  let ?holds = "disjunct_holds (en_state e)"
  define firing where "firing = filter (\<lambda>cnf. ?holds (?data cnf)) ?dnf"
  define waiting where "waiting = filter (Not \<circ> ?holds) (disjuncts_for ?dp c)"
  let ?push = "\<lambda>e d. on_state (push_deferred \<lparr>dr_solvable_id = k, dr_requirement = req,
      dr_condition = c, dr_disjunct = map deferred_conjunct (dd_conjuncts d)\<rparr>) e"
  let ?e1 = "foldl ?push e waiting" and ?w = "package_count ?dp req + (1 + length ?dnf)"
  have w: "condition_weight ?dp req (length ?dnf) - 1 = ?w" by (simp add: condition_weight_def)
  let ?cond = "(c, map (map (complement_for ?dp)) firing)"
  have fired: "map (\<lambda>d. map cj_complement (dd_conjuncts d)) (filter ?holds (disjuncts_for ?dp c)) = snd ?cond"
    by (simp add: firing_def disjuncts_for_def filter_map comp_def conjunct_for_def)
  have "steps env U 0 e ?e1 \<and> (\<forall>d \<in> set waiting. \<exists>x \<in> deferred_set (en_state ?e1).
    \<forall>cnf. d = ?data cnf \<longrightarrow> entry_for x k req c cnf)"
    by (rule run_defer [OF assms _ refl]) (auto simp: waiting_def)
  then have e1: "steps env U 0 e ?e1" and ent: "\<And>cnf. ?data cnf \<in> set waiting \<Longrightarrow> \<exists>x \<in> deferred_set (en_state ?e1). entry_for x k req c cnf"
    by blast+
  have split: "?data cnf \<in> set waiting \<or> cnf \<in> set firing" if "cnf \<in> set ?dnf" for cnf
    using that by (auto simp: waiting_def firing_def disjuncts_for_def)
  have live: "cnf_live ?dp (en_state e2) A k req c cnf" if "?data cnf \<in> set waiting" "enc_ext ?dp ?e1 e2" for cnf e2 A
    using ent [OF that(1)] state_extD(17) [OF enc_extD(1) [OF that(2)]] unfolding cnf_live_def by blast
  have res: "on_condition_data_available env k req c (disjuncts_for ?dp c) e = (if firing = [] then Some ?e1
      else Option.bind (queue_packages env (requirement_version_sets (ev_interner env) (cr_requirement req)) ?e1)
        (queue_requirement_candidates env k req (Some ?cond)))"
    unfolding on_condition_data_available_def Let_def partition_filter_conv prod.case fired by (simp add: waiting_def)
  show ?thesis unfolding w
  proof (rule runs_after [OF _ e1])
    show "ready env U ?w e" using assms(1) unfolding w .
    assume r1: "ready env U ?w ?e1" and ext1: "enc_ext ?dp e ?e1"
    show "runs env U ?w ?e1 (on_condition_data_available env k req c (disjuncts_for ?dp c) e)
      (\<lambda>e'. cancelled e' \<or> (\<forall>cnf \<in> set ?dnf. cnf_live ?dp (en_state e') (awaited ?dp e') k req c cnf))"
    proof (cases "firing = []")
      case True
      with split live [OF _ enc_ext_refl] res show ?thesis by (intro runsI [OF _ steps.stay]) auto
    next
      case False
      have "runs env U ?w ?e1 (Option.bind (queue_packages env (requirement_version_sets (ev_interner env) (cr_requirement req)) ?e1)
        (queue_requirement_candidates env k req (Some ?cond)))
        (\<lambda>e'. cancelled e' \<or> (\<forall>cnf \<in> set ?dnf. cnf_live ?dp (en_state e') (awaited ?dp e') k req c cnf))"
      proof (rule runs_bind [OF r1 run_packages [OF ready_less [OF r1]]])
        fix e2
        assume e2: "ready env U (1 + length ?dnf) e2" "enc_ext ?dp ?e1 e2"
        let ?t = "Task_RequirementCandidates k req (Some ?cond)"
        have "en_root_dependencies e2 = en_root_dependencies e" using enc_extD(2) [OF enc_ext_trans [OF ext1 e2(2)]] .
        with assms(2,3) have g: "genuine ?dp (en_root_dependencies e2) (task_answer ?dp (en_root_dependencies e2) ?t)"
          by (auto simp: genuine_condition_def firing_def intro!: exI [of _ firing])
        have "length firing \<le> length ?dnf" by (simp add: firing_def)
        then have "runs env U (1 + length ?dnf) e2 (queue_future env ?t e2)
          (\<lambda>e'. cancelled e' \<or> task_answer ?dp (en_root_dependencies e2) ?t \<in> awaited ?dp e')"
          by (intro run_future [OF e2(1) g]) (simp_all add: requirement_weight_def)
        then show "runs env U (1 + length ?dnf) e2 (queue_requirement_candidates env k req (Some ?cond) e2)
          (\<lambda>e'. cancelled e' \<or> (\<forall>cnf \<in> set ?dnf. cnf_live ?dp (en_state e') (awaited ?dp e') k req c cnf))"
          unfolding queue_requirement_candidates_def
        proof (rule runs_weaken)
          fix e3
          assume e3: "enc_ext ?dp e2 e3" "cancelled e3 \<or> task_answer ?dp (en_root_dependencies e2) ?t \<in> awaited ?dp e3"
          have "cnf_live ?dp (en_state e3) (awaited ?dp e3) k req c cnf" if "\<not> cancelled e3" "cnf \<in> set ?dnf" for cnf
            using split [OF that(2)] live [OF _ enc_ext_trans [OF e2(2) e3(1)]] e3(2) that(1)
            unfolding cnf_live_def by auto
          then show "cancelled e3 \<or> (\<forall>cnf \<in> set ?dnf. cnf_live ?dp (en_state e3) (awaited ?dp e3) k req c cnf)" by blast
        qed simp
      qed simp
      with False res show ?thesis by simp
    qed
  qed
qed

end
