(* ===== verification/Encoder_Requirements.thy ===== *)
theory Encoder_Requirements
  imports Encoder_Constraints
begin

text \<open>The handler that adds the clauses of a requirement.\<close>

section \<open>One requires clause\<close>

lemma work_clauses: "length (dq_clauses (ss_decide_queue (en_state e))) \<le> work dp U e"
  by (simp add: work_def)

definition requires_names :: "'c environment \<Rightarrow> requirement \<Rightarrow> name_id list" where
  "requires_names env r = map (pv_version_set_name (ev_interner env)) (requirement_version_sets (ev_interner env) r)"

lemma requires_names_of: "requires_names env r = names_of (ev_interner env) r"
  by (simp add: requires_names_def names_of_def)

lemma run_register:
  assumes "ready env U 1 e" "c < length (en_kinds e)" "kind_of (en_state e) c = Requires p d r"
    "ss_requirement_to_sorted_candidates (en_state e) r \<noteq> None" "disjunction_literals (ss_disjunctions (en_state e)) d \<noteq> None"
  shows "\<exists>q. register_clause p r d c (names_of (ev_interner env) r) (ss_disjunctions (en_state e)) (en_value e p)
      (ss_decide_queue (en_state e)) = Some q \<and>
    steps env U 1 e (on_state (\<lambda>s. s\<lparr>ss_decide_queue := q\<rparr>) e)"
proof -
  have "length (dq_clauses (ss_decide_queue (en_state e))) < 2 ^ 32 - 1"
    using readyD(4) [OF assms(1)] work_clauses [of e "ev_provider env" U] by simp
  from register_clause_total [OF enc_invD(8) [OF readyD(2) [OF assms(1)]] this assms(5)]
  obtain q where q: "register_clause p r d c (names_of (ev_interner env) r) (ss_disjunctions (en_state e)) (en_value e p)
      (ss_decide_queue (en_state e)) = Some q" by blast
  then have "add_requires_clause p r d c (names_of (ev_interner env) r) (en_state e) = Some ((en_state e)\<lparr>ss_decide_queue := q\<rparr>)"
    by (simp add: add_requires_clause_def)
  with q steps_one [OF micro.register [OF assms(2-4) this]] show ?thesis by auto
qed

lemma add_requires_eq:
  assumes "disjunction_literals (ss_disjunctions (en_state e)) d = Some ls"
    "WatchedLiterals_requires p r cs (map_option (\<lambda>i. (i, ls)) d) (ss_decision_tracker (en_state e)) = (w, conflict, k)"
    "en_clause (w, k) e = (c, e1)"
  shows "add_requires env p r cs d e = map_option (\<lambda>s. ((c, conflict), e1\<lparr>en_state := s\<rparr>))
    (add_requires_clause p r d c (names_of (ev_interner env) r) (en_state e1))"
  using assms by (cases "add_requires_clause p r d c (names_of (ev_interner env) r) (en_state e1)")
    (simp_all add: add_requires_def names_of_def comp_def)

lemma run_requires:
  assumes "ready env U 1 e" "justified (ev_provider env) (en_root_dependencies e) (en_state e) (Requires p d r)"
    "ss_requirement_to_sorted_candidates (en_state e) r = Some vss"
    "disjunction_literals (ss_disjunctions (en_state e)) d = Some ls" "negative p \<notin> set ls" "ls @ map positive (concat vss) \<noteq> []"
  shows "\<exists>c conflict e'. add_requires env p r (concat vss) d e = Some ((c, conflict), e') \<and> steps env U 1 e e' \<and>
    c = length (en_kinds e) \<and> en_kinds e' = en_kinds e @ [Requires p d r] \<and> (\<forall>v. en_value e' v = en_value e v) \<and>
    ss_variable_map (en_state e') = ss_variable_map (en_state e) \<and>
    ss_requires_aux_vars (en_state e') = ss_requires_aux_vars (en_state e) \<and>
    (conflict \<longrightarrow> unit_in (en_state e') c (negative p) \<and> en_value e p \<noteq> Some False)"
proof -
  let ?t = "ss_decision_tracker (en_state e)" and ?k = "Requires p d r"
  define others where "others = ls @ map positive (concat vss)"
  have dl: "(case map_option (\<lambda>i. (i, ls)) d of None \<Rightarrow> [] | Some (_, ls) \<Rightarrow> ls) = ls"
    using assms(4) by (cases d) (auto simp: disjunction_literals_def)
  obtain w conflict k where wl: "WatchedLiterals_requires p r (concat vss) (map_option (\<lambda>i. (i, ls)) d) ?t = (w, conflict, k)"
    by (metis prod_cases3)
  have kd: "map_option fst (map_option (\<lambda>i. (i, ls)) d) = d" by (cases d) simp_all
  note sp = WatchedLiterals_requires_spec [OF wl refl, unfolded dl kd, folded others_def]
  from sp assms(6) obtain ws where w: "w = Some ws" unfolding others_def by blast
  from sp w have spec: "k = ?k" "w = Some ws" "fst (wl_watched ws) = negative p" "snd (wl_watched ws) \<in> set others"
      "conflict \<Longrightarrow> (\<forall>l \<in> set others. eval l (dt_map ?t) = Some False) \<and> en_value e p \<noteq> Some False"
    by blast+
  obtain c e1 where e1: "en_clause (w, k) e = (c, e1)" by fastforce
  have lt: "lits (en_state e) ?k = Some (negative p # others)" using assms(3,4) by (simp add: lits_def others_def)
  have "negative p \<notin> set others" using assms(5) by (auto simp: others_def)
  then have "well_watched (en_state e) ?k ws" using lt spec(3,4) by (auto simp: watches_of_def lits_def)
  then have "micro env U 0 e (snd (en_clause (Some ws, ?k) e))" using lt by (intro micro.watched [OF assms(2)]) simp_all
  then have s1: "steps env U 0 e e1" using e1 spec(1,2) by (simp add: steps_one)
  have k1: "c = length (en_kinds e)" "en_kinds e1 = en_kinds e @ [?k]" "ss_decision_tracker (en_state e1) = ?t"
    "ss_variable_map (en_state e1) = ss_variable_map (en_state e)" "ss_disjunctions (en_state e1) = ss_disjunctions (en_state e)"
    "ss_requires_aux_vars (en_state e1) = ss_requires_aux_vars (en_state e)"
    "ss_requirement_to_sorted_candidates (en_state e1) = ss_requirement_to_sorted_candidates (en_state e)"
    using e1 spec(1,2) by (auto simp: en_clause_def split_beta)
  have r1: "ready env U 1 e1" using ready_steps [of env U 0 1] assms(1) s1 by simp
  obtain q where q: "add_requires_clause p r d c (names_of (ev_interner env) r) (en_state e1) = Some ((en_state e1)\<lparr>ss_decide_queue := q\<rparr>)"
    "steps env U 1 e1 (on_state (\<lambda>s. s\<lparr>ss_decide_queue := q\<rparr>) e1)"
    using run_register [OF r1, of c p d r] k1 assms(3,4) by (auto simp: add_requires_clause_def)
  let ?e2 = "on_state (\<lambda>s. s\<lparr>ss_decide_queue := q\<rparr>) e1"
  have lt2: "lits (en_state ?e2) ?k = Some (negative p # others)"
    using lits_ext [OF enc_extD(1) [OF steps_ext [OF steps_join [OF s1 q(2)]]] lt] by simp
  have "unit_in (en_state ?e2) c (negative p)" if conflict
    using spec(5) [OF that] lt2 k1 by (auto simp: unit_in_def)
  then show ?thesis using add_requires_eq [OF assms(4) wl e1] q(1) steps_join [OF s1 q(2)] k1 spec(5) by auto
qed

lemma run_requires_empty:
  assumes "ready env U 1 e" "justified (ev_provider env) (en_root_dependencies e) (en_state e) (Requires p None r)"
    "ss_requirement_to_sorted_candidates (en_state e) r = Some vss" "concat vss = []"
  shows "\<exists>e'. add_requires env p r (concat vss) None e = Some ((length (en_kinds e), False), e') \<and>
    en_kinds e' = en_kinds e @ [Requires p None r] \<and>
    steps env U 1 e (on_state (\<lambda>s. s\<lparr>ss_negative_assertions := ss_negative_assertions s @ [(p, length (en_kinds e))]\<rparr>) e')"
proof -
  let ?t = "ss_decision_tracker (en_state e)" and ?k = "Requires p None r" and ?c = "length (en_kinds e)"
  let ?neg = "\<lambda>s. s\<lparr>ss_negative_assertions := ss_negative_assertions s @ [(p, ?c)]\<rparr>"
  obtain w conflict k where wl: "WatchedLiterals_requires p r (concat vss) (map_option (\<lambda>i. (i, [])) None) ?t = (w, conflict, k)"
    by (metis prod_cases3)
  have spec: "k = ?k" "w = None" "\<not> conflict" using WatchedLiterals_requires_spec [OF wl refl] assms(4) by simp_all
  obtain c e1 where e1: "en_clause (None, ?k) e = (c, e1)" by fastforce
  have k1: "c = ?c" "en_kinds e1 = en_kinds e @ [?k]"
    "ss_requirement_to_sorted_candidates (en_state e1) = ss_requirement_to_sorted_candidates (en_state e)"
    using e1 by (auto simp: en_clause_def split_beta)
  let ?e1 = "on_state ?neg e1"
  have "lits (en_state e) ?k = Some [negative p]" using assms(3,4) by (simp add: lits_def disjunction_literals_def)
  from micro.single [OF assms(2) this] have s1: "steps env U 0 e ?e1" using e1 by (simp add: steps_one)
  have "ready env U 1 ?e1" using ready_steps [of env U 0 1] assms(1) s1 by simp
  from run_register [OF this, of c p None r] obtain q where
    q: "register_clause p r None c (names_of (ev_interner env) r) (ss_disjunctions (en_state ?e1)) (en_value ?e1 p)
      (ss_decide_queue (en_state ?e1)) = Some q"
    "steps env U 1 ?e1 (on_state (\<lambda>s. s\<lparr>ss_decide_queue := q\<rparr>) ?e1)"
    using k1 assms(3) by (auto simp: disjunction_literals_def)
  let ?e2 = "on_state (\<lambda>s. s\<lparr>ss_decide_queue := q\<rparr>) e1"
  have "add_requires_clause p r None c (names_of (ev_interner env) r) (en_state e1) = Some ((en_state e1)\<lparr>ss_decide_queue := q\<rparr>)"
    using q(1) by (simp add: add_requires_clause_def)
  then have "add_requires env p r (concat vss) None e = Some ((?c, False), ?e2)"
    using add_requires_eq [OF _ wl e1 [folded spec(1,2)]] spec(3) k1(1) by (simp add: disjunction_literals_def)
  moreover have "steps env U 1 e (on_state ?neg ?e2)"
  proof -
    have "on_state (\<lambda>s. s\<lparr>ss_decide_queue := q\<rparr>) ?e1 = on_state ?neg ?e2" by simp
    then show ?thesis using steps_join [OF s1 q(2)] by (simp only:)
  qed
  ultimately show ?thesis using k1(2) by (intro exI [of _ ?e2] conjI) simp_all
qed

section \<open>Gates\<close>

lemma add_requires_commute:
  assumes "silent g"
  shows "add_requires env p r cs d (g e) = map_option (apsnd g) (add_requires env p r cs d e)"
  by (cases "disjunction_literals (ss_disjunctions (en_state e)) d")
    (simp_all add: add_requires_def silentD [OF assms] Let_def split_beta add_requires_clause_def option.map_comp comp_def
      bind_map_option map_option_bind split: bind_splits)

lemma run_gate:
  assumes "ready env U 1 e" "ss_requirement_to_sorted_candidates (en_state e) r = Some vss" "concat vss \<noteq> []"
  shows "\<exists>g e' n. requires_gate env r (concat vss) e = Some (g, e') \<and> n \<le> 1 \<and> steps env U n e e' \<and>
    ss_requires_aux_vars (en_state e') r = Some g \<and> en_origin e' g = Some (Origin_RequiresGate r)"
proof (cases "ss_requires_aux_vars (en_state e) r")
  case (Some g)
  with enc_invD(3) [OF readyD(2) [OF assms(1)]] show ?thesis
    by - (rule exI [of _ g], rule exI [of _ e], rule exI [of _ 0], auto simp: requires_gate_def links_ok_def intro: steps.stay)
next
  case None
  let ?og = "Origin_RequiresGate r" and ?dp = "ev_provider env"
  obtain g e1 where e1: "en_variable (VariableMap_alloc ?og) e = (g, e1)" by fastforce
  have fr: "steps env U 0 e e1" "en_origin e1 g = Some ?og" "en_value e1 g = None"
    by (rule fresh_variable [OF readyD(2) [OF assms(1)] e1], simp_all add: auxiliary_origin_def)+
  have r1: "ready env U 1 e1" using ready_steps [of env U 0 1] assms(1) fr(1) by simp
  have f1: "ss_requirement_to_sorted_candidates (en_state e1) r = Some vss"
    "ss_requires_aux_vars (en_state e1) = ss_requires_aux_vars (en_state e)"
    using e1 assms(2) by (auto simp: en_variable_def split_beta)
  obtain c conflict e2 where e2: "add_requires env g r (concat vss) None e1 = Some ((c, conflict), e2)" "steps env U 1 e1 e2"
    "en_kinds e2 = en_kinds e1 @ [Requires g None r]" "\<forall>v. en_value e2 v = en_value e1 v"
    "ss_variable_map (en_state e2) = ss_variable_map (en_state e1)" "ss_requires_aux_vars (en_state e2) = ss_requires_aux_vars (en_state e1)"
    "conflict \<longrightarrow> unit_in (en_state e2) c (negative g)"
    using run_requires [OF r1, of g None r vss "[]"] f1(1) fr(2) assms(3) by (auto simp: disjunction_literals_def)
  have "valid_level (en_level e2)" using steps_inv2 [OF e2(2) r1] enc_invD(1) by (auto simp: vars_ok_def)
  then obtain e3 where e3: "(if conflict then en_decide g False c e2 else Some e2) = Some e3" "steps env U 0 e2 e3" "en_kinds e3 = en_kinds e2"
    "ss_requires_aux_vars (en_state e3) = ss_requires_aux_vars (en_state e2)"
    using run_decide [of e2 g False c env U] e2 fr by (cases conflict) (auto simp: en_decide_eq intro: steps.stay)
  have og: "en_origin e3 g = Some ?og"
    using state_extD(5) [OF enc_extD(1) [OF steps_ext [OF e3(2)]]] fr(2) e2(5) by simp
  have "micro env U 0 e3 (set_gate r g e3)"
    unfolding set_gate_def by (rule micro.gate) (use None f1(2) e2(3,6) e3 og in simp_all)
  moreover have "steps env U 1 e1 e3" using steps_trans [OF e2(2) e3(2)] by simp
  ultimately have "steps env U 1 e (set_gate r g e3)" using steps_snoc steps_join [OF fr(1)] by blast
  moreover have "requires_gate env r (concat vss) e = Some (g, set_gate r g e3)"
  proof -
    have al: "alloc_requires_gate_variable r = VariableMap_alloc ?og" by (rule ext) (simp add: alloc_requires_gate_variable_def)
    have "add_requires env g r (concat vss) None (set_gate r g e1) = Some ((c, conflict), set_gate r g e2)"
      by (simp add: add_requires_commute [OF silent_tables(2)] e2(1))
    moreover have "(if conflict then en_decide g False c (set_gate r g e2) else Some (set_gate r g e2)) = Some (set_gate r g e3)"
      using e3(1) silentD(3) [OF silent_tables(2), of g False c r g e2] by (auto split: if_splits)
    ultimately show ?thesis using None e1 by (cases conflict) (simp_all add: requires_gate_def al set_gate_def)
  qed
  ultimately show ?thesis using og by - (rule exI [of _ g], rule exI [of _ "set_gate r g e3"], rule exI [of _ 1], simp add: set_gate_def)
qed

section \<open>Requirements\<close>

lemma requires_gate_commute:
  "requires_gate env r cs (set_candidates r' x e) = map_option (apsnd (set_candidates r' x)) (requires_gate env r cs e)"
proof -
  note sil = silent_tables(3) [of r' x]
  let ?g = "set_candidates r' x"
  let ?h = "\<lambda>g. on_state (\<lambda>s. s\<lparr>ss_requires_aux_vars := (ss_requires_aux_vars s)(r \<mapsto> g)\<rparr>)"
  have swap: "?h g (?g e) = ?g (?h g e)" for g and e :: "'a encoder" by (simp add: set_candidates_def)
  have same: "ss_requires_aux_vars (en_state (?g e)) = ss_requires_aux_vars (en_state e)" by (simp add: set_candidates_def)
  show ?thesis unfolding requires_gate_def same
    by (simp add: silentD [OF sil] Let_def split_beta swap add_requires_commute [OF sil] bind_map_option map_option_bind comp_def
        option.map_comp split: option.split bind_splits)
qed

lemma add_shared_commute:
  "add_shared_requires env p r vss (set_candidates r' x e) = map_option (set_candidates r' x) (add_shared_requires env p r vss e)"
proof (cases "requires_gate env r (concat vss) e")
  case (Some ge)
  note sil = silent_tables(3) [of r' x]
  obtain g e1 where g: "ge = (g, e1)" by fastforce
  obtain c e2 where e2: "en_clause (WatchedLiterals_any_of g p) e1 = (c, e2)" by fastforce
  then have "en_clause (WatchedLiterals_any_of g p) (set_candidates r' x e1) = (c, set_candidates r' x e2)"
    by (simp add: silentD [OF sil])
  with Some g e2 show ?thesis
    by (simp add: add_shared_requires_def requires_gate_commute silentD [OF sil] Let_def split: option.split bool.split)
qed (simp add: add_shared_requires_def requires_gate_commute)

lemma add_requirement_commute:
  "add_requirement env p r vss (set_candidates r' x e) d = map_option (set_candidates r' x) (add_requirement env p r vss e d)"
proof -
  note sil = silent_tables(3) [of r' x]
  show ?thesis
    by (cases "add_requires env p r (concat vss) d e")
      (auto simp: add_requirement_def Let_def add_shared_commute add_requires_commute [OF sil] silentD [OF sil])
qed

lemma run_shared:
  assumes "ready env U 1 e" "ss_requirement_to_sorted_candidates (en_state e) (cr_requirement req) = Some vss" "concat vss \<noteq> []"
    "var_of (en_state e) k = Some p" "requires_of (ev_provider env) (en_root_dependencies e) k req" "cr_condition req = None"
  shows "runs env U 1 e (add_shared_requires env p (cr_requirement req) vss e)
    (\<lambda>e'. requires_done (en_state e') k (cr_requirement req) None)"
proof -
  let ?r = "cr_requirement req" and ?dp = "ev_provider env"
  obtain g e1 n where e1: "requires_gate env ?r (concat vss) e = Some (g, e1)" "n \<le> 1" "steps env U n e e1"
    "ss_requires_aux_vars (en_state e1) ?r = Some g" "en_origin e1 g = Some (Origin_RequiresGate ?r)"
    using run_gate [OF assms(1-3)] by blast
  have ee: "enc_ext ?dp e e1" by (rule steps_ext [OF e1(3)])
  have inv1: "enc_inv env e1" by (rule steps_inv2 [OF e1(3) assms(1)])
  have p1: "var_of (en_state e1) k = Some p" by (rule state_extD(7) [OF enc_extD(1) [OF ee] assms(4)])
  have og: "en_origin e1 p = Some (origin_for k)" by (rule var_of_origin [OF enc_invD(1) [OF inv1] p1])
  let ?k = "AnyOf g p" and ?wl = "\<lparr>wl_watched = (positive g, negative p), wl_next = (None, None)\<rparr>"
  have wl: "WatchedLiterals_any_of g p = (Some ?wl, ?k)"
    by (simp add: WatchedLiterals_any_of_def Clause_any_of_def from_kind_and_initial_watches_def)
  obtain c e2 where e2: "en_clause (WatchedLiterals_any_of g p) e1 = (c, e2)" by fastforce
  have "justified ?dp (en_root_dependencies e1) (en_state e1) ?k"
    using assms(5,6) p1 e1(5) enc_extD(2) [OF ee] by auto
  from run_binary [OF e2 [unfolded wl] this, of "positive g" "negative p" U]
  have b: "steps env U 0 e1 e2" "c = length (en_kinds e1)" "en_kinds e2 = en_kinds e1 @ [?k]"
    "ss_decision_tracker (en_state e2) = ss_decision_tracker (en_state e1)"
    "ss_variable_map (en_state e2) = ss_variable_map (en_state e1)" "lits (en_state e2) ?k = Some [positive g, negative p]"
    by (simp_all add: lits_def)
  let ?e3 = "on_state (\<lambda>s. s\<lparr>ss_requires_gate_requirers := im_push (ss_requires_gate_requirers s) g (p, c)\<rparr>) e2"
  have "micro env U 0 e2 ?e3" by (rule micro.requirer) (simp_all add: b)
  then have s3: "steps env U 0 e1 ?e3" by (rule steps_snoc [OF b(1)])
  have lv: "valid_level (en_level ?e3)"
    using enc_invD(1) [OF steps_inv2 [OF steps_trans [OF e1(3) s3] assms(1)]] unfolding vars_ok_def by blast
  have ge: "en_origin ?e3 g = Some (Origin_RequiresGate ?r)" "en_origin ?e3 p = Some (origin_for k)" using e1(5) og b(5) by simp_all
  have lt: "lits (en_state ?e3) ?k = Some [positive g, negative p]" using b(6) by (simp add: lits_def)
  have unit: "unit_in (en_state ?e3) c (positive g)" if "en_value ?e3 p = Some True"
    using lt that b by (auto simp: unit_in_def lit_value_assigned)
  have unit': "unit_in (en_state ?e3) c (negative p)" if "en_value ?e3 g = Some False"
    using lt that b by (auto simp: unit_in_def lit_value_assigned)
  have "\<exists>e4. (case (en_value ?e3 p, en_value ?e3 g) of
            (Some True, Some False) \<Rightarrow> Some (en_conflict True c ?e3)
          | (Some True, None) \<Rightarrow> en_decide g True c ?e3
          | (None, Some False) \<Rightarrow> en_decide p False c ?e3
          | _ \<Rightarrow> Some ?e3) = Some e4 \<and> steps env U 0 ?e3 e4"
  proof -
    define vp vg where v: "vp = en_value ?e3 p" "vg = en_value ?e3 g"
    consider (conflict) "vp = Some True" "vg = Some False" | (force) "vp = Some True" "vg = None"
      | (refuse) "vp = None" "vg = Some False" | (none) "vp = Some False \<or> vg = Some True \<or> vp = None \<and> vg = None"
      by (cases vp; cases vg) auto
    then show ?thesis
    proof cases
      case conflict
      have "micro env U 0 ?e3 (en_conflict True c ?e3)" by (rule micro.conflict) (simp add: b)
      with conflict [unfolded v] show ?thesis by (auto intro: steps_one)
    next
      case force
      from force [unfolded v] show ?thesis using run_decide [of ?e3 g True c env U] unit lv ge(1) by fastforce
    next
      case refuse
      have "\<And>n. en_origin ?e3 p \<noteq> Some (Origin_AtLeastOne n)" using ge(2) by (cases k) simp_all
      then show ?thesis using run_decide [of ?e3 p False c env U] unit' lv ge(2) refuse [unfolded v] by auto
    next
      case none
      from none [unfolded v] show ?thesis by (auto intro: steps.stay split: option.split bool.split)
    qed
  qed
  then obtain e4 where e4: "add_shared_requires env p ?r vss e = Some e4" "steps env U 0 ?e3 e4"
    unfolding add_shared_requires_def e1(1) Option.bind.simps prod.case e2 Let_def by blast
  have s4: "steps env U 0 e1 e4" by (rule steps_join [OF s3 e4(2)])
  have "requires_done (en_state ?e3) k ?r None"
  proof -
    have "state_ext (en_state e1) (en_state ?e3)" by (rule enc_extD(1) [OF steps_ext [OF s3]])
    note x = state_extD(7,8,10) [OF this]
    have "ss_requirement_to_sorted_candidates (en_state e1) ?r = Some vss" by (rule state_extD(8) [OF enc_extD(1) [OF ee] assms(2)])
    from x(1) [OF p1] x(2) [OF this] x(3) [OF e1(4)] show ?thesis unfolding requires_done_def by (auto simp: b)
  qed
  then have "requires_done (en_state e4) k ?r None" by (rule requires_done_ext [OF enc_extD(1) [OF steps_ext [OF e4(2)]]])
  with e4(1) steps_trans [OF e1(3) s4] e1(2) show ?thesis by (intro runsI [of _ e4 _ _ n]) auto
qed

lemma dnf_for_nonempty:
  assumes "conditions_ok dp" "cnf \<in> set (dnf_for dp c)"
  shows "cnf \<noteq> []"
proof -
  obtain dnf where dnf: "convert_conditions_to_dnf (pv_resolve_condition (dp_interner dp)) c = Some dnf"
    using assms(1) by (auto simp: conditions_ok_def)
  from dnf_needs_tree [OF this] obtain t where "unfolds (pv_resolve_condition (dp_interner dp)) c t" by blast
  from dnf_of_tree [OF this] dnf assms(2) show ?thesis by (auto simp: dnf_for_def)
qed

lemma disjunct_lits_facts:
  assumes "disjunct_lits dp s cnf ls"
  shows "cnf \<noteq> [] \<Longrightarrow> ls \<noteq> []"
    "l \<in> set ls \<Longrightarrow> (\<exists>v. l = positive v) \<or> (\<exists>a n. l = negative a \<and> origin_of s a = Some (Origin_AtLeastOne n))"
proof -
  obtain lss where lss: "ls = concat lss" "list_all2 (complement_lits dp s) cnf lss" using assms by (auto simp: disjunct_lits_def)
  have one: "xs \<noteq> []" "l \<in> set xs \<Longrightarrow> (\<exists>v. l = positive v) \<or> (\<exists>a n. l = negative a \<and> origin_of s a = Some (Origin_AtLeastOne n))"
    if "complement_lits dp s vs xs" for vs xs l
    using that by (auto simp: complement_lits_def in_set_conv_nth list_all2_conv_all_nth split: if_splits)
  show "ls \<noteq> []" if "cnf \<noteq> []"
    using lss(2) that one(1) unfolding lss(1) by (cases cnf; cases lss) auto
  show "(\<exists>v. l = positive v) \<or> (\<exists>a n. l = negative a \<and> origin_of s a = Some (Origin_AtLeastOne n))" if l: "l \<in> set ls"
  proof -
    from l lss(1) obtain xs where xs: "xs \<in> set lss" "l \<in> set xs" by auto
    then obtain vs where "complement_lits dp s vs xs" using lss(2) by (auto simp: in_set_conv_nth list_all2_conv_all_nth)
    from one(2) [OF this xs(2)] show ?thesis .
  qed
qed

lemma condition_literals:
  assumes "condition_encoded dp (en_state e) req d" "conditions_ok dp" "vars_ok e" "var_of (en_state e) k = Some p"
  obtains ls where "disjunction_literals (ss_disjunctions (en_state e)) d = Some ls" "negative p \<notin> set ls" "ls = [] \<longleftrightarrow> d = None"
    "d = None \<longleftrightarrow> cr_condition req = None"
proof (cases "cr_condition req")
  case None
  with assms(1) show thesis by (intro that [of "[]"]) (auto simp: condition_encoded_def disjunction_literals_def)
next
  case (Some c)
  with assms(1) obtain i cnf where i: "d = Some i" "i < length (ss_disjunctions (en_state e))" "cnf \<in> set (dnf_for dp c)"
    "disjunct_lits dp (en_state e) cnf (dj_literals (ss_disjunctions (en_state e) ! i))"
    by (auto simp: condition_encoded_def)
  have "en_origin e p \<noteq> Some (Origin_AtLeastOne n)" for n using var_of_origin [OF assms(3,4)] by (cases k) auto
  with disjunct_lits_facts(2) [OF i(4), of "negative p"] have "negative p \<notin> set (dj_literals (ss_disjunctions (en_state e) ! i))" by auto
  with disjunct_lits_facts(1) [OF i(4)] dnf_for_nonempty [OF assms(2) i(3)] i Some show thesis
    by (intro that [of "dj_literals (ss_disjunctions (en_state e) ! i)"]) (auto simp: disjunction_literals_def slice_get_def)
qed

lemma run_requirement:
  assumes "ready env U 1 e" "ss_requirement_to_sorted_candidates (en_state e) (cr_requirement req) = Some vss"
    "var_of (en_state e) k = Some p" "requires_of (ev_provider env) (en_root_dependencies e) k req"
    "condition_encoded (ev_provider env) (en_state e) req d"
  shows "runs env U 1 e (add_requirement env p (cr_requirement req) vss e d)
    (\<lambda>e'. requires_done (en_state e') k (cr_requirement req) d)"
proof -
  let ?r = "cr_requirement req" and ?dp = "ev_provider env"
  let ?k = "Requires p d ?r"
  obtain ls where ls: "disjunction_literals (ss_disjunctions (en_state e)) d = Some ls" "negative p \<notin> set ls" "ls = [] \<longleftrightarrow> d = None"
    "d = None \<longleftrightarrow> cr_condition req = None"
    by (rule condition_literals [OF assms(5) readyD(3) [OF assms(1)] enc_invD(1) [OF readyD(2) [OF assms(1)]] assms(3)]) (rule that)
  have none: "list_all (\<lambda>vs. vs = []) vss \<longleftrightarrow> concat vss = []" by (simp add: list_all_iff)
  have just: "justified ?dp (en_root_dependencies e) (en_state e) ?k" using assms(3-5) by auto
  have fin: "requires_done (en_state e') k ?r d" if "enc_ext ?dp e e'" "?k \<in> set (en_kinds e')" for e'
    using state_extD(7,8) [OF enc_extD(1) [OF that(1)]] assms(2,3) that(2) by (auto simp: requires_done_def)
  let ?shared = "d = None \<and> concat vss \<noteq> [] \<and> p \<noteq> 0 \<and> sum_list (map length vss) \<ge> REQUIRES_AUX_ENCODING_THRESHOLD"
  consider (shared) ?shared | (empty) "\<not> ?shared" "ls @ map positive (concat vss) = []" | (clause) "\<not> ?shared" "ls @ map positive (concat vss) \<noteq> []"
    by blast
  then show ?thesis
  proof cases
    case shared
    then have "add_requirement env p ?r vss e d = add_shared_requires env p ?r vss e" by (simp add: add_requirement_def none)
    with run_shared [OF assms(1,2) _ assms(3,4)] shared ls(4) show ?thesis by simp
  next
    case empty
    then have d: "d = None" "concat vss = []" using ls(3) by auto
    obtain e' where e': "add_requires env p ?r (concat vss) None e = Some ((length (en_kinds e), False), e')"
      "en_kinds e' = en_kinds e @ [Requires p None ?r]"
      "steps env U 1 e (on_state (\<lambda>s. s\<lparr>ss_negative_assertions := ss_negative_assertions s @ [(p, length (en_kinds e))]\<rparr>) e')"
      using run_requires_empty [OF assms(1) just [unfolded d(1)] assms(2) d(2)] by blast
    let ?e2 = "on_state (\<lambda>s. s\<lparr>ss_negative_assertions := ss_negative_assertions s @ [(p, length (en_kinds e))]\<rparr>) e'"
    have res: "add_requirement env p ?r vss e d = Some ?e2" using e'(1) d by (simp add: add_requirement_def none del: concat_eq_Nil_conv)
    show ?thesis by (rule runsI [OF res e'(3)]) (use fin [OF steps_ext [OF e'(3)]] e'(2) d(1) in simp_all)
  next
    case clause
    obtain c conflict e1 where e1: "add_requires env p ?r (concat vss) d e = Some ((c, conflict), e1)" "steps env U 1 e e1"
      "c = length (en_kinds e)" "en_kinds e1 = en_kinds e @ [?k]"
      using run_requires [OF assms(1) just assms(2) ls(1,2) clause(2)] by blast
    have "\<not> (d = None \<and> concat vss = [])" using clause(2) ls(3) by (cases d) auto
    then have res: "add_requirement env p ?r vss e d = Some (en_conflict conflict c e1)"
      using clause(1) e1(1) by (cases conflict) (auto simp: add_requirement_def none en_conflict_def simp del: concat_eq_Nil_conv)
    have "micro env U 0 e1 (en_conflict conflict c e1)" by (rule micro.conflict) (simp add: e1)
    then have "steps env U 1 e (en_conflict conflict c e1)" by (rule steps_snoc [OF e1(2)])
    with res show ?thesis by (rule runsI) (use fin [OF steps_ext] e1(4) \<open>steps env U 1 e (en_conflict conflict c e1)\<close> in \<open>auto simp: en_conflict_def\<close>)
  qed
qed

section \<open>The literals of a condition\<close>

lemma run_ops_steps:
  assumes step: "\<And>x e v e1. x \<in> set xs \<Longrightarrow> ready env U w e \<Longrightarrow> f x e = (v, e1) \<Longrightarrow> steps env U 0 e e1 \<and> P e1 x v"
    and mono: "\<And>e e' x v. enc_ext (ev_provider env) e e' \<Longrightarrow> P e x v \<Longrightarrow> P e' x v"
    and "ready env U w e" "run_ops f xs e = (vs, e')"
  shows "steps env U 0 e e' \<and> list_all2 (P e') xs vs"
  using assms(1,3,4)
proof (induction xs arbitrary: e vs)
  case Nil
  then show ?case by (auto intro: steps.stay)
next
  case (Cons x xs)
  obtain v e1 ws where v: "f x e = (v, e1)" "run_ops f xs e1 = (ws, e')" "vs = v # ws"
    using Cons.prems(3) by (auto split: prod.splits)
  have s1: "steps env U 0 e e1" "P e1 x v" using Cons.prems(1) [OF _ Cons.prems(2) v(1)] by simp_all
  have r1: "ready env U w e1" using ready_steps [of env U 0 w] Cons.prems(2) s1(1) by simp
  have IH: "steps env U 0 e1 e' \<and> list_all2 (P e') xs ws"
    by (rule Cons.IH [OF _ r1 v(2)]) (rule Cons.prems(1), simp)
  with mono [OF steps_ext s1(2)] steps_join [OF s1(1)] v(3) show ?case by auto
qed

lemma run_at_least:
  assumes "enc_inv env e" "at_least_one_variable n e = (v, e')"
  shows "steps env U 0 e e' \<and> en_origin e' v = Some (Origin_AtLeastOne n)"
proof -
  have alo: "en_origin e a = Some (Origin_AtLeastOne n) \<longleftrightarrow>
      ss_at_least_one_tracker (en_state e) n = Some a \<or> (n, a) \<in> set (en_new_at_least_one_packages e)" for a
    using enc_invD(2) [OF assms(1)] unfolding alo_ok_def by blast
  show ?thesis
  proof (cases "ss_at_least_one_tracker (en_state e) n")
    case (Some a)
    with assms(2) alo show ?thesis by (auto simp: at_least_one_variable_def intro: steps.stay)
  next
    case tracker: None
    show ?thesis
    proof (cases "map_of (en_new_at_least_one_packages e) n")
      case (Some a)
      with assms(2) tracker alo map_of_SomeD [OF Some] show ?thesis by (auto simp: at_least_one_variable_def intro: steps.stay)
    next
      case None
      obtain v1 e1 where e1: "en_variable (alloc_at_least_one_variable n) e = (v1, e1)" by fastforce
      with assms(2) tracker None have e': "v = v1" "e' = e1\<lparr>en_new_at_least_one_packages := en_new_at_least_one_packages e1 @ [(n, v1)]\<rparr>"
        by (auto simp: at_least_one_variable_def)
      have "en_origin e a \<noteq> Some (Origin_AtLeastOne n)" for a using alo [of a] tracker None by (force simp: map_of_eq_None_iff)
      from micro.at_least [OF this e1] have "steps env U 0 e e'" unfolding e' by (rule steps_one)
      moreover have "en_origin e' v = Some (Origin_AtLeastOne n)" using e1 e' by (auto simp: at_least_alloc)
      ultimately show ?thesis ..
    qed
  qed
qed

lemma run_complement:
  assumes "ready env U w e" "complement_literals env (complement_for (ev_provider env) vs) e = (ls, e')"
  shows "steps env U 0 e e' \<and> complement_lits (ev_provider env) (en_state e') vs ls"
proof (cases "non_matching_for (ev_provider env) vs = []")
  case True
  obtain v e1 where "at_least_one_variable (pv_version_set_name (ev_interner env) vs) e = (v, e1)" by fastforce
  with run_at_least [OF readyD(2) [OF assms(1)] this, of U] assms(2) True show ?thesis
    by (auto simp: complement_literals_def complement_for_def complement_of_def complement_lits_def)
next
  case False
  let ?dp = "ev_provider env" and ?n = "pv_version_set_name (ev_interner env) vs"
  let ?f = "\<lambda>x e. let (v, e1) = en_variable (VariableMap_intern_solvable x) e in (positive v, register_forbid_target ?n v e1)"
  let ?P = "\<lambda>e x l. \<exists>v. lookup_solvable (ss_variable_map (en_state e)) x = Some v \<and> l = positive v"
  have "steps env U 0 e e' \<and> list_all2 (?P e') (non_matching_for ?dp vs) ls"
  proof (rule run_ops_steps [where P = ?P and f = ?f, OF _ _ assms(1)])
    show "run_ops ?f (non_matching_for ?dp vs) e = (ls, e')"
      using assms(2) False by (simp add: complement_literals_def complement_for_def complement_of_def)
    fix x e1 l e2
    assume x: "x \<in> set (non_matching_for ?dp vs)" "ready env U w e1" "?f x e1 = (l, e2)"
    obtain v e3 where e3: "en_variable (VariableMap_intern_solvable x) e1 = (v, e3)" by fastforce
    note i = run_intern(1) [OF e3, of env U] run_intern(2) [OF e3] run_intern(3) [OF e3 readyD(2) [OF x(2)]]
    have "x \<in> set (ca_candidates (package_of ?dp vs))" using provider_okD(5) [OF readyD(1) [OF assms(1)], of vs] x(1) by blast
    then have "pv_solvable_name (ev_interner env) x = ?n" by (rule provider_okD(4) [OF readyD(1) [OF assms(1)]])
    from micro.target [OF i(3) this] have "steps env U 0 e1 (register_forbid_target ?n v e3)" by (rule steps_snoc [OF i(1)])
    moreover have "e2 = register_forbid_target ?n v e3" "l = positive v" using x(3) e3 by simp_all
    ultimately show "steps env U 0 e1 e2 \<and> ?P e2 x l" using i(2) by (simp add: register_forbid_target_def)
  next
    fix e1 e2 :: "'a encoder" and x l
    assume "enc_ext ?dp e1 e2"
    from state_extD(6) [OF enc_extD(1) [OF this]] show "?P e1 x l \<Longrightarrow> ?P e2 x l" by blast
  qed
  with False show ?thesis by (simp add: complement_lits_def)
qed

lemma run_disjunction:
  assumes "ready env U w e" "add_disjunction env c (map (complement_for (ev_provider env)) cnf) e = (d, e')"
  shows "steps env U 0 e e' \<and> (\<exists>i < length (ss_disjunctions (en_state e')). d = Some i \<and>
    disjunct_lits (ev_provider env) (en_state e') cnf (dj_literals (ss_disjunctions (en_state e') ! i)))"
proof -
  let ?dp = "ev_provider env"
  have map_run: "run_ops f (map h xs) s = run_ops (\<lambda>x. f (h x)) xs s"
    for f :: "disjunction_complement \<Rightarrow> 'a encoder \<Rightarrow> literal list \<times> 'a encoder" and h :: "version_set_id \<Rightarrow> disjunction_complement" and xs s
    by (induction xs arbitrary: s) (simp_all split: prod.split)
  obtain lss e1 where e1: "run_ops (\<lambda>vs. complement_literals env (complement_for ?dp vs)) cnf e = (lss, e1)" by fastforce
  have l: "steps env U 0 e e1 \<and> list_all2 (complement_lits ?dp (en_state e1)) cnf lss"
    by (rule run_ops_steps [where P = "\<lambda>e. complement_lits ?dp (en_state e)", OF run_complement _ assms(1) e1])
      (auto intro: complement_lits_ext dest: enc_extD(1))
  let ?dj = "\<lparr>dj_literals = concat lss, dj_condition = c\<rparr>"
  let ?e2 = "on_state (\<lambda>s. s\<lparr>ss_disjunctions := ss_disjunctions s @ [?dj]\<rparr>) e1"
  have e': "d = Some (length (ss_disjunctions (en_state e1)))" "e' = ?e2"
    using assms(2) e1 by (simp_all add: add_disjunction_def map_run Let_def)
  have m: "micro env U 0 e1 ?e2" by (rule micro.disjunction)
  have "disjunct_lits ?dp (en_state e1) cnf (concat lss)" using l by (auto simp: disjunct_lits_def)
  from disjunct_lits_ext [OF enc_extD(1) [OF micro_ext [OF m]] this] steps_snoc [OF _ m] l show ?thesis
    unfolding e' by (simp add: nth_append)
qed

lemma list_all2_partner:
  "list_all2 P xs ys \<Longrightarrow> y \<in> set ys \<Longrightarrow> \<exists>x \<in> set xs. P x y"
  "list_all2 P xs ys \<Longrightarrow> x \<in> set xs \<Longrightarrow> \<exists>y \<in> set ys. P x y"
  by (induction rule: list_all2_induct) auto

lemma complement_for_inj: "map (complement_for dp) cnf = map (complement_for dp) cnf' \<Longrightarrow> cnf = cnf'"
proof -
  have "inj (complement_for dp)" by (rule injI) (auto simp: complement_for_def complement_of_def split: if_splits)
  then show "map (complement_for dp) cnf = map (complement_for dp) cnf' \<Longrightarrow> cnf = cnf'" by (simp add: inj_map_eq_map)
qed

lemma run_conditions:
  assumes "ready env U w e" "genuine_condition (ev_provider env) req cond" "requirement_conditions env cond e = (ds, e')"
  shows "steps env U 0 e e' \<and> (\<forall>d \<in> set ds. condition_encoded (ev_provider env) (en_state e') req d) \<and>
    Suc (length ds) = requirement_weight cond \<and> (cond = None \<longrightarrow> ds = [None]) \<and>
    (\<forall>c cnfs cnf. cond = Some (c, cnfs) \<longrightarrow> map (complement_for (ev_provider env)) cnf \<in> set cnfs \<longrightarrow>
      (\<exists>i < length (ss_disjunctions (en_state e')). Some i \<in> set ds \<and>
        disjunct_lits (ev_provider env) (en_state e') cnf (dj_literals (ss_disjunctions (en_state e') ! i))))"
proof (cases cond)
  case None
  with assms(2,3) show ?thesis
    by (auto simp: requirement_conditions_def genuine_condition_def condition_encoded_def requirement_weight_def intro: steps.stay)
next
  case (Some p)
  let ?dp = "ev_provider env"
  obtain c cnfs where p: "p = (c, cnfs)" by fastforce
  with Some assms(2) obtain dnf where dnf: "cr_condition req = Some c" "set dnf \<subseteq> set (dnf_for ?dp c)" "cnfs = map (map (complement_for ?dp)) dnf"
    by (auto simp: genuine_condition_def)
  let ?P = "\<lambda>e cnf d. \<exists>i < length (ss_disjunctions (en_state e)). d = Some i \<and>
    disjunct_lits ?dp (en_state e) cnf (dj_literals (ss_disjunctions (en_state e) ! i))"
  have map_run: "run_ops (add_disjunction env c) (map (map (complement_for ?dp)) xs) s =
      run_ops (\<lambda>cnf. add_disjunction env c (map (complement_for ?dp) cnf)) xs s" for xs s
    by (induction xs arbitrary: s) (simp_all split: prod.split)
  have ops: "run_ops (\<lambda>cnf. add_disjunction env c (map (complement_for ?dp) cnf)) dnf e = (ds, e')"
    using assms(3) unfolding Some p requirement_conditions_def option.case prod.case dnf(3) map_run .
  have r: "steps env U 0 e e' \<and> list_all2 (?P e') dnf ds"
  proof (rule run_ops_steps [where P = ?P, OF run_disjunction _ assms(1) ops])
    fix e1 e2 :: "'a encoder" and cnf d
    assume "enc_ext ?dp e1 e2"
    then have ext: "state_ext (en_state e1) (en_state e2)" by (rule enc_extD(1))
    assume "?P e1 cnf d"
    then show "?P e2 cnf d" using state_extD(4) [OF ext] disjunct_lits_ext [OF ext] by metis
  qed
  have len: "length ds = length dnf" using r list_all2_lengthD by fastforce
  have "condition_encoded ?dp (en_state e') req d" if "d \<in> set ds" for d
  proof -
    from list_all2_partner(1) [OF _ that] r obtain cnf where "cnf \<in> set dnf" "?P e' cnf d" by blast
    with dnf show ?thesis by (auto simp: condition_encoded_def)
  qed
  moreover have "\<exists>i < length (ss_disjunctions (en_state e')). Some i \<in> set ds \<and>
      disjunct_lits ?dp (en_state e') cnf (dj_literals (ss_disjunctions (en_state e') ! i))" if "map (complement_for ?dp) cnf \<in> set cnfs" for cnf
  proof -
    have "cnf \<in> set dnf" using that dnf(3) complement_for_inj by auto
    from list_all2_partner(2) [OF _ this] r obtain d where "d \<in> set ds" "?P e' cnf d" by blast
    then show ?thesis by auto
  qed
  ultimately show ?thesis using r len dnf(3) by (auto simp: Some p requirement_weight_def)
qed

section \<open>The handler\<close>

lemma zipped_lookup:
  assumes "vars_of_lists s xss vss" "(x, v) \<in> set (zipped xss vss)"
  shows "lookup_solvable (ss_variable_map s) x = Some v"
  using assms unfolding vars_of_lists_def
  by (induction rule: list_all2_induct) (auto simp: zipped_def list_all2_conv_all_nth set_zip)

lemma run_targets:
  assumes "ready env U w e" "vars_of_lists (en_state e) xss vss"
    and f: "f = (\<lambda>(e :: 'c encoder) (x, v). register_forbid_target (pv_solvable_name (ev_interner env) x) v e)"
  shows "steps env U 0 e (foldl f e (zipped xss vss)) \<and>
    (\<forall>(x, v) \<in> set (zipped xss vss). target_registered (ev_provider env) (foldl f e (zipped xss vss)) x v)"
proof -
  let ?dp = "ev_provider env"
  let ?P = "\<lambda>p e. target_registered ?dp e (fst p) (snd p)"
  have "steps env U 0 e (foldl f e (zipped xss vss)) \<and> (\<forall>p \<in> set (zipped xss vss). ?P p (foldl f e (zipped xss vss))) \<and> True"
  proof (rule steps_foldl [where P = ?P and I = "\<lambda>_. True", OF _ _ assms(1)])
    fix p e1
    assume p: "p \<in> set (zipped xss vss)" "enc_ext ?dp e e1" "enc_inv env e1"
    obtain x v where xv: "p = (x, v)" by fastforce
    have "lookup_solvable (ss_variable_map (en_state e1)) x = Some v"
      by (rule state_extD(6) [OF enc_extD(1) [OF p(2)] zipped_lookup [OF assms(2)]]) (use p(1) xv in simp)
    from solvable_variable(2) [OF enc_invD(1) [OF p(3)] this] have "micro env U 0 e1 (f e1 p)"
      unfolding f xv prod.case by (rule micro.target) simp
    moreover have "?P p (f e1 p)" by (simp add: f xv target_registered_def register_forbid_target_def Let_def)
    ultimately show "steps env U 0 e1 (f e1 p) \<and> ?P p (f e1 p) \<and> True" by (simp add: steps_one)
  next
    fix p and e1 e2 :: "'c encoder"
    assume "enc_ext ?dp e1 e2"
    from target_registered_ext [OF this] show "?P p e1 \<Longrightarrow> ?P p e2" .
  qed simp
  then show ?thesis by (simp add: split_beta)
qed

lemma run_queue_solvable:
  assumes "ready env U w e" "k \<in> insert Root (Solvable ` U)"
  shows "runs env U w e (queue_solvable env k e) (\<lambda>e'. k \<in> ss_clauses_added_for_solvable (en_state e'))"
proof (cases "k \<in> ss_clauses_added_for_solvable (en_state e)")
  case True
  then show ?thesis by (auto simp: queue_solvable_def intro!: runsI [OF _ steps.stay])
next
  case False
  let ?e = "on_state (\<lambda>s. s\<lparr>ss_clauses_added_for_solvable := insert k (ss_clauses_added_for_solvable s)\<rparr>) e"
  have "cache_inv (ev_provider env) (en_cache ?e)" using enc_invD(7) [OF readyD(2) [OF assms(1)]] by simp
  then obtain e' where e': "queue_future env (Task_Dependencies k) ?e = Some e'" "en_state e' = en_state ?e"
    by (rule queue_future_effect [OF _ readyD(3) [OF assms(1)], of _ "Task_Dependencies k"]) (rule that)
  from micro.solvable [OF False assms(2) e'(1)] have "steps env U 0 e e'" by (rule steps_one)
  with e' False show ?thesis by (intro runsI [of _ e']) (auto simp: queue_solvable_def)
qed

lemma run_queue_candidate:
  assumes "ready env U 0 e" "x \<in> U"
  shows "runs env U 0 e (queue_candidate env e x) (\<lambda>e'. True)"
proof -
  have "runs env U 0 e (queue_solvable env (Solvable x) e) (\<lambda>e'. True)"
    by (rule runs_weaken [OF run_queue_solvable [OF assms(1)]]) (use assms(2) in auto)
  then show ?thesis by (auto simp: queue_candidate_def intro: runsI [OF _ steps.stay])
qed

lemma vars_of_lists_unique: "vars_of_lists s xss vss \<Longrightarrow> vars_of_lists s xss vss' \<Longrightarrow> vss = vss'"
proof -
  have inner: "list_all2 (\<lambda>x v. lookup_solvable (ss_variable_map s) x = Some v) xs vs \<Longrightarrow>
      list_all2 (\<lambda>x v. lookup_solvable (ss_variable_map s) x = Some v) xs vs' \<Longrightarrow> vs = vs'" for xs vs vs'
    by (auto simp: list_all2_conv_all_nth list_eq_iff_nth_eq)
  show "vars_of_lists s xss vss \<Longrightarrow> vars_of_lists s xss vss' \<Longrightarrow> vss = vss'"
    unfolding vars_of_lists_def using inner by (auto simp: list_all2_conv_all_nth [of "list_all2 _"] list_eq_iff_nth_eq [of vss])
qed

lemma sorted_lists_in:
  assumes "provider_ok dp U" "x \<in> set (concat (sorted_lists dp r))"
  shows "x \<in> U"
proof -
  obtain vs where "x \<in> set (sorted_for dp vs)" using assms(2) by (auto simp: sorted_lists_def)
  then have "x \<in> set (ca_candidates (package_of dp vs))" using provider_okD(5,7) [OF assms(1), of vs] by blast
  then show ?thesis using provider_okD(3) [OF assms(1)] by blast
qed

lemma run_candidates_known:
  assumes "ready env U w e" "vars_of_lists (en_state e) (sorted_lists (ev_provider env) r) vss"
    "\<forall>(x, v) \<in> set (zipped (sorted_lists (ev_provider env) r) vss). target_registered (ev_provider env) e x v"
  shows "steps env U 0 e (set_candidates r vss e)"
proof -
  have "ss_requirement_to_sorted_candidates (en_state e) r \<in> {None, Some vss}"
  proof (cases "ss_requirement_to_sorted_candidates (en_state e) r")
    case (Some vss')
    with enc_invD(3) [OF readyD(2) [OF assms(1)]] have "vars_of_lists (en_state e) (sorted_lists (ev_provider env) r) vss'"
      unfolding links_ok_def by blast
    with vars_of_lists_unique assms(2) Some show ?thesis by blast
  qed simp
  then show ?thesis unfolding set_candidates_def by (intro steps_one micro.candidates assms(2,3))
qed

lemma run_requirements:
  assumes "ready env U (length ds) e" "ss_requirement_to_sorted_candidates (en_state e) (cr_requirement req) = Some vss"
    "var_of (en_state e) k = Some p" "requires_of (ev_provider env) (en_root_dependencies e) k req"
    "\<forall>d \<in> set ds. condition_encoded (ev_provider env) (en_state e) req d"
  shows "runs env U (length ds) e (fold_opt (add_requirement env p (cr_requirement req) vss) e ds)
    (\<lambda>e'. \<forall>d \<in> set ds. requires_done (en_state e') k (cr_requirement req) d)"
proof -
  have one: "sum_list (map (\<lambda>_. 1) ds) = length ds" by (simp add: sum_list_const)
  have "runs env U (sum_list (map (\<lambda>_. 1) ds)) e (fold_opt (add_requirement env p (cr_requirement req) vss) e ds)
    (\<lambda>e'. (\<forall>d \<in> set ds. requires_done (en_state e') k (cr_requirement req) d) \<and> True)"
  proof (rule runs_fold [OF _ TrueI])
    fix d e1
    assume d: "d \<in> set ds" "ready env U 1 e1" "enc_ext (ev_provider env) e e1"
    note x = enc_extD(1) [OF d(3)]
    have "requires_of (ev_provider env) (en_root_dependencies e1) k req" using assms(4) enc_extD(2) [OF d(3)] by simp
    from run_requirement [OF d(2) state_extD(8) [OF x assms(2)] state_extD(7) [OF x assms(3)] this condition_encoded_ext [OF x]] assms(5) d(1)
    show "runs env U 1 e1 (add_requirement env p (cr_requirement req) vss e1 d)
      (\<lambda>e2. requires_done (en_state e2) k (cr_requirement req) d \<and> True)" by simp
  qed (use assms(1) one requires_done_ext [OF enc_extD(1)] in \<open>simp, blast\<close>)
  then show ?thesis unfolding one by simp
qed

lemma run_requirement_candidates:
  assumes "ready env U (requirement_weight cond - 1) e" "requires_of (ev_provider env) (en_root_dependencies e) k req"
    "genuine_condition (ev_provider env) req cond"
  shows "runs env U (requirement_weight cond - 1) e
    (on_requirement_candidates_available env k req (sorted_lists (ev_provider env) (cr_requirement req)) cond e)
    (\<lambda>e'. handled (ev_provider env) (en_root_dependencies e) (en_state e') A
      (Result_RequirementCandidates k req (sorted_lists (ev_provider env) (cr_requirement req)) cond))"
proof -
  let ?dp = "ev_provider env" and ?r = "cr_requirement req" and ?w = "requirement_weight cond - 1"
  let ?xss = "sorted_lists ?dp ?r"
  obtain p e1 where e1: "en_variable (intern_solvable_or_root k) e = (p, e1)" by fastforce
  obtain vss e2 where e2: "en_variable (run_ops (run_ops VariableMap_intern_solvable) ?xss) e1 = (vss, e2)" by fastforce
  note i1 = run_intern_root(1) [OF e1, of env U] run_intern_root(2) [OF e1]
  note i2 = run_intern_lists(1) [OF e2, of env U] run_intern_lists(2) [OF e2]
  have s2: "steps env U 0 e e2" by (rule steps_join [OF i1(1) i2(1)])
  let ?f = "\<lambda>e (x, v). register_forbid_target (pv_solvable_name (ev_interner env) x) v e"
  define e3 where "e3 = foldl ?f e2 (zipped ?xss vss)"
  have r2: "ready env U ?w e2" using ready_steps [of env U 0 ?w] assms(1) s2 by simp
  from run_targets [OF r2 i2(2) refl] have t3: "steps env U 0 e2 e3" "\<forall>(x, v) \<in> set (zipped ?xss vss). target_registered ?dp e3 x v"
    unfolding e3_def by blast+
  have s3: "steps env U 0 e e3" by (rule steps_join [OF s2 t3(1)])
  have r3: "ready env U ?w e3" using ready_steps [of env U 0 ?w] assms(1) s3 by simp
  have "runs env U (sum_list (map (\<lambda>_. 0) (concat ?xss))) e3 (fold_opt (queue_candidate env) e3 (concat ?xss)) (\<lambda>e'. (\<forall>x \<in> set (concat ?xss). True) \<and> True)"
  proof (rule runs_fold [OF _ TrueI])
    show "ready env U (sum_list (map (\<lambda>_. 0) (concat ?xss))) e3" using ready_less [OF r3] by (simp add: sum_list_triv)
    fix x e4
    assume x: "x \<in> set (concat ?xss)" "ready env U 0 e4"
    from run_queue_candidate [OF x(2) sorted_lists_in [OF readyD(1) [OF assms(1)] x(1)]]
    show "runs env U 0 e4 (queue_candidate env e4 x) (\<lambda>_. True \<and> True)" by simp
  qed simp
  then obtain e4 where e4: "fold_opt (queue_candidate env) e3 (concat ?xss) = Some e4" "steps env U 0 e3 e4"
    by (auto simp: runs_def sum_list_triv)
  have r4: "ready env U ?w e4" using ready_steps [of env U 0 ?w] r3 e4(2) by simp
  obtain ds e5 where e5: "requirement_conditions env cond e4 = (ds, e5)" by fastforce
  note c = run_conditions [OF r4 assms(3) e5]
  have s25: "steps env U 0 e2 e5" using steps_join [OF t3(1) steps_join [OF e4(2)]] c by blast
  have s5: "steps env U 0 e e5" by (rule steps_join [OF s2 s25])
  have r5: "ready env U ?w e5" using ready_steps [of env U 0 ?w] assms(1) s5 by simp
  let ?e6 = "set_candidates ?r vss e5"
  have vl5: "vars_of_lists (en_state e5) ?xss vss" by (rule vars_of_lists_ext [OF enc_extD(1) [OF steps_ext [OF s25]] i2(2)])
  have "enc_ext ?dp e3 e5" using steps_ext [OF steps_join [OF e4(2)]] c by blast
  then have "\<forall>(x, v) \<in> set (zipped ?xss vss). target_registered ?dp e5 x v" using t3(2) target_registered_ext by fast
  from run_candidates_known [OF r5 vl5 this] have s6: "steps env U 0 e5 ?e6" .
  have x6: "enc_ext ?dp e ?e6" by (rule steps_ext [OF steps_join [OF s5 s6]])
  have x56: "enc_ext ?dp e5 ?e6" by (rule steps_ext [OF s6])
  have p6: "var_of (en_state ?e6) k = Some p"
    by (rule state_extD(7) [OF enc_extD(1) [OF steps_ext [OF steps_join [OF i2(1) steps_join [OF s25 s6]]]] i1(2)])
  have len: "length ds = ?w" using c by linarith
  let ?handled = "\<lambda>e'. handled ?dp (en_root_dependencies e) (en_state e') A (Result_RequirementCandidates k req ?xss cond)"
  have fin: "?handled e'" if "enc_ext ?dp ?e6 e'" "\<forall>d \<in> set ds. requires_done (en_state e') k ?r d" for e'
  proof -
    have x: "state_ext (en_state e5) (en_state e')" by (rule enc_extD(1) [OF enc_ext_trans [OF x56 that(1)]])
    show ?thesis
    proof (cases cond)
      case (Some q)
      obtain cc cnfs where q: "q = (cc, cnfs)" by fastforce
      have "disjunct_done ?dp (en_state e') k ?r cnf" if cnf: "map (complement_for ?dp) cnf \<in> set cnfs" for cnf
      proof -
        from c cnf Some q obtain i where i: "i < length (ss_disjunctions (en_state e5))" "Some i \<in> set ds"
          "disjunct_lits ?dp (en_state e5) cnf (dj_literals (ss_disjunctions (en_state e5) ! i))" by blast
        from state_extD(4) [OF x i(1)] disjunct_lits_ext [OF x i(3)] i(2) \<open>\<forall>d \<in> set ds. requires_done (en_state e') k ?r d\<close>
        show ?thesis unfolding disjunct_done_def by (intro exI [of _ i]) auto
      qed
      with Some q show ?thesis by simp
    qed (use that(2) c in simp)
  qed
  have "runs env U ?w e (fold_opt (add_requirement env p ?r vss) ?e6 ds) ?handled"
  proof (rule runs_after [OF assms(1) steps_join [OF s5 s6]])
    assume r6: "ready env U ?w ?e6"
    have "runs env U (length ds) ?e6 (fold_opt (add_requirement env p ?r vss) ?e6 ds) (\<lambda>e'. \<forall>d \<in> set ds. requires_done (en_state e') k ?r d)"
    proof (rule run_requirements [OF _ _ p6])
      show "ready env U (length ds) ?e6" using r6 len by simp
      show "ss_requirement_to_sorted_candidates (en_state ?e6) ?r = Some vss" by (simp add: set_candidates_def)
      show "requires_of ?dp (en_root_dependencies ?e6) k req" using assms(2) enc_extD(2) [OF x6] by simp
      show "\<forall>d \<in> set ds. condition_encoded ?dp (en_state ?e6) req d" using c condition_encoded_ext [OF enc_extD(1) [OF x56]] by blast
    qed
    then show "runs env U ?w ?e6 (fold_opt (add_requirement env p ?r vss) ?e6 ds) ?handled"
      by (rule runs_weaken) (use len fin in simp_all)
  qed
  moreover have "on_requirement_candidates_available env k req ?xss cond e = fold_opt (add_requirement env p ?r vss) ?e6 ds"
  proof -
    have "fold_opt (add_requirement env p ?r vss) ?e6 ds = map_option (set_candidates ?r vss) (fold_opt (add_requirement env p ?r vss) e5 ds)"
      by (rule fold_opt_commute) (rule add_requirement_commute)
    then show ?thesis using e4(1) e5
      by (cases "fold_opt (add_requirement env p ?r vss) e5 ds")
        (simp_all add: on_requirement_candidates_available_def e1 e2 e3_def [unfolded zipped_def, symmetric] set_candidates_def)
  qed
  ultimately show ?thesis by simp
qed

end
