(* ===== verification/Encoder_Loop.thy ===== *)
theory Encoder_Loop
  imports Encoder_Requirements
begin

text \<open>
  The loop of the encoder. Every round takes one result off the queues and runs its handler,
  which adds less work than the result weighed: the loop ends, without a panic, and leaves
  every obligation met.
\<close>

section \<open>One result\<close>

lemma result_weight_pos: "1 \<le> result_weight dp x"
proof -
  have "1 \<le> dependencies_weight dp d" for d by (cases d) simp_all
  then show ?thesis by (cases x) (simp_all add: condition_weight_def requirement_weight_def)
qed

lemma run_result:
  assumes "ready env U (result_weight (ev_provider env) x - 1) e" "genuine (ev_provider env) (en_root_dependencies e) x"
  shows "runs env U (result_weight (ev_provider env) x - 1) e (on_task_result env x e)
    (\<lambda>e'. cancelled e' \<or> handled (ev_provider env) (en_root_dependencies e) (en_state e') (awaited (ev_provider env) e') x)"
proof (cases x)
  case (Result_Dependencies k d)
  with assms run_dependencies [of env U e k] show ?thesis by simp
next
  case (Result_Candidates n cs)
  with assms run_candidates [OF assms(1), of n] show ?thesis by (auto intro!: runsI)
next
  case (Result_ConditionData k req c ds)
  with assms(2) have g: "requires_of (ev_provider env) (en_root_dependencies e) k req" "cr_condition req = Some c"
    "ds = disjuncts_for (ev_provider env) c" by (simp_all add: disjuncts_for_def)
  have "length ds = length (dnf_for (ev_provider env) c)" by (simp add: g(3) disjuncts_for_def)
  with assms(1) run_condition_data [OF _ g(1,2), of U] g(3) Result_ConditionData show ?thesis by simp
next
  case (Result_RequirementCandidates k req cands cond)
  with assms(2) have g: "requires_of (ev_provider env) (en_root_dependencies e) k req"
    "cands = sorted_lists (ev_provider env) (cr_requirement req)" "genuine_condition (ev_provider env) req cond" by simp_all
  have w: "result_weight (ev_provider env) x = requirement_weight cond" by (simp add: Result_RequirementCandidates)
  have "runs env U (requirement_weight cond - 1) e (on_task_result env x e)
      (\<lambda>e'. handled (ev_provider env) (en_root_dependencies e) (en_state e') {} x)"
    using run_requirement_candidates [OF assms(1) [unfolded w] g(1,3), of "{}"]
    unfolding Result_RequirementCandidates on_task_result.simps g(2) .
  then show ?thesis unfolding w by (rule runs_weaken [OF _ order_refl]) (simp add: Result_RequirementCandidates)
next
  case (Result_ConstraintCandidates k vs cs)
  with assms(2) have g: "constrains_of (ev_provider env) (en_root_dependencies e) k vs" "cs = non_matching_for (ev_provider env) vs" by simp_all
  have r: "ready env U 0 e" using assms(1) by (simp add: Result_ConstraintCandidates)
  from run_constraint [OF r g(1)] show ?thesis
    unfolding Result_ConstraintCandidates on_task_result.simps g(2) by (rule runs_weaken) simp_all
qed

section \<open>Taking a result off the queues\<close>

text \<open>What the encoder keeps while its queues change.\<close>

definition advances :: "'c encoder \<Rightarrow> 'c encoder \<Rightarrow> bool" where
  "advances e e' \<longleftrightarrow> state_ext (en_state e) (en_state e') \<and> en_root_dependencies e' = en_root_dependencies e \<and>
     en_level e' = en_level e \<and> en_forbid_seen e \<subseteq> en_forbid_seen e'"

lemma advances_refl [simp]: "advances e e"
  by (simp add: advances_def)

lemma advances_trans: "advances e e' \<Longrightarrow> advances e' e'' \<Longrightarrow> advances e e''"
  by (auto simp: advances_def intro: state_ext_trans)

lemma advances_ext: "enc_ext dp e e' \<Longrightarrow> advances e e'"
  by (auto simp: advances_def enc_ext_def)

text \<open>\<open>e'\<close> is \<open>e\<close> after the result \<open>x\<close> was taken off.\<close>

definition taken :: "dependency_provider \<Rightarrow> task_result \<Rightarrow> 'c encoder \<Rightarrow> 'c encoder \<Rightarrow> bool" where
  "taken dp x e e' \<longleftrightarrow> (\<exists>c rs fs k. e' = e\<lparr>en_cache := c, en_pending_results := rs, en_pending_futures := fs, en_completed := k\<rparr> \<and> cache_inv dp c \<and>
     (cancelled e \<longrightarrow> cancelled e') \<and> awaited dp e = insert x (awaited dp e') \<and>
     pending_weight dp e = result_weight dp x + pending_weight dp e')"

lemma taken_inv:
  assumes "taken (ev_provider env) x e e'" "enc_inv env e"
  shows "enc_inv env e'" "work (ev_provider env) U e = result_weight (ev_provider env) x + work (ev_provider env) U e'"
    "advances e e'" "genuine (ev_provider env) (en_root_dependencies e') x"
    "obligations (ev_provider env) {} e \<Longrightarrow> obligations (ev_provider env) {x} e'"
proof -
  let ?dp = "ev_provider env"
  from assms(1) obtain c rs fs k where e': "e' = e\<lparr>en_cache := c, en_pending_results := rs, en_pending_futures := fs, en_completed := k\<rparr>" "cache_inv ?dp c"
    "cancelled e \<longrightarrow> cancelled e'" "awaited ?dp e = insert x (awaited ?dp e')"
    "pending_weight ?dp e = result_weight ?dp x + pending_weight ?dp e'"
    by (auto simp: taken_def)
  have same: "en_state e' = en_state e" "en_root_dependencies e' = en_root_dependencies e" using e'(1) by simp_all
  have "vars_ok e' = vars_ok e" "alo_ok e' = alo_ok e" "links_ok ?dp e' = links_ok ?dp e" "clauses_ok ?dp e' = clauses_ok ?dp e"
    "forbids_ok ?dp e' = forbids_ok ?dp e" "en_cache e' = c"
    by (simp_all add: e'(1) vars_ok_def alo_ok_def links_ok_def clauses_ok_def forbids_ok_def target_registered_def)
  then show "enc_inv env e'" using assms(2) e'(2,4) unfolding enc_inv_def same by simp
  show "work ?dp U e = result_weight ?dp x + work ?dp U e'" using e'(5) same by (simp add: work_def waiting_weight_def)
  show "advances e e'" by (simp add: advances_def e'(1))
  show "genuine ?dp (en_root_dependencies e') x" using enc_invD(9) [OF assms(2)] e'(4) same by simp
  show "obligations ?dp {x} e'" if "obligations ?dp {} e"
    using that e'(3) unfolding obligations_def same e'(4) by (auto simp: insert_is_Un [symmetric] Un_commute [of _ "{x}"])
qed

lemma vec_remove_sum:
  "i < length xs \<Longrightarrow> sum_list (map f xs) = (f (xs ! i) :: nat) + sum_list (map f (vec_remove xs i))"
  "i < length xs \<Longrightarrow> set xs = insert (xs ! i) (set (vec_remove xs i))"
  unfolding vec_remove_def by (subst id_take_nth_drop [of i xs], assumption, simp add: ac_simps)+

lemma taken_result: "en_pending_results e = Inr x # rest \<Longrightarrow> cache_inv dp (en_cache e) \<Longrightarrow> taken dp x e (e\<lparr>en_pending_results := rest\<rparr>)"
  unfolding taken_def by (intro exI [of _ "en_cache e"] exI [of _ rest] exI [of _ "en_pending_futures e"] exI [of _ "en_completed e"])
    (auto simp: cancelled_def awaited_def pending_weight_def)

lemma taken_future:
  assumes "i < length (en_pending_futures e)" "cache_inv dp c"
  shows "taken dp (task_answer dp (en_root_dependencies e) (en_pending_futures e ! i)) e
    (e\<lparr>en_cache := c, en_pending_futures := vec_remove (en_pending_futures e) i, en_completed := k\<rparr>)"
proof -
  note m = vec_remove_sum [OF assms(1)]
  show ?thesis unfolding taken_def using assms(2) m(2) m(1) [of "\<lambda>t. result_weight dp (task_answer dp (en_root_dependencies e) t)"]
    by (intro exI [of _ c] exI [of _ "en_pending_results e"] exI [of _ "vec_remove (en_pending_futures e) i"]
        exI [of _ k])
      (auto simp: cancelled_def awaited_def pending_weight_def)
qed

text \<open>Every cancellation on the queue is one the provider asked for.\<close>

definition cancels_ok :: "'c environment \<Rightarrow> 'c encoder \<Rightarrow> bool" where
  "cancels_ok env e \<longleftrightarrow> (\<forall>v. Inl v \<in> set (en_pending_results e) \<longrightarrow> (\<exists>j. ev_cancel env j = Some v))"

lemma queue_future_cancels:
  assumes "queue_future env t e = Some e'" "cache_inv (ev_provider env) (en_cache e)" "conditions_ok (ev_provider env)" "cancels_ok env e"
  shows "cancels_ok env e'"
proof (cases "ev_ready env (en_queued e)")
  case True
  from run_task_answers [OF assms(3), of "en_root_dependencies e" t] assms(2) show ?thesis
    by (cases rule: answersE) (use True assms(1,4) in \<open>auto simp: queue_future_def cancels_ok_def\<close>)
qed (use assms in \<open>auto simp: queue_future_def cancels_ok_def\<close>)

lemma micro_cancels:
  assumes "micro env U m e e'" "cache_inv (ev_provider env) (en_cache e)" "conditions_ok (ev_provider env)" "cancels_ok env e"
  shows "cancels_ok env e'"
  using assms(1)
proof (cases rule: micro_queue_or_state)
  case state
  with assms(4) show ?thesis by (simp add: cancels_ok_def)
next
  case (queue t e1)
  with assms(2-4) show ?thesis by (intro queue_future_cancels [OF queue(1)]) (simp_all add: cancels_ok_def)
qed

lemma steps_cancels:
  assumes "steps env U n e e'" "enc_inv env e" "conditions_ok (ev_provider env)" "finite U" "cancels_ok env e"
  shows "cancels_ok env e'"
  using assms
proof (induction rule: steps.induct)
  case (move n e e1 m e2)
  then have "enc_inv env e1" "cancels_ok env e1" using steps_inv by blast+
  with micro_cancels [OF move.hyps(2) _ move.prems(2)] enc_invD(7) show ?case by blast
qed

text \<open>One round: the result is taken off and handled.\<close>

lemma round_effect:
  assumes "taken (ev_provider env) x e e0" "provider_ok (ev_provider env) U" "enc_inv env e"
    "work (ev_provider env) U e \<le> 2 ^ 32 - 1" "obligations (ev_provider env) {} e" "cancels_ok env e0"
  obtains e1 where "on_task_result env x e0 = Some e1" "enc_inv env e1" "work (ev_provider env) U e1 < work (ev_provider env) U e"
    "obligations (ev_provider env) {} e1" "advances e e1" "cancels_ok env e1"
proof -
  let ?dp = "ev_provider env"
  note t = taken_inv(1) [OF assms(1,3)] taken_inv(2) [OF assms(1,3), of U] taken_inv(3,4) [OF assms(1,3)] taken_inv(5) [OF assms(1,3,5)]
  have "ready env U (result_weight ?dp x - 1) e0"
    using assms(2,4) t(1,2) result_weight_pos [of ?dp x] by (simp add: ready_def)
  from run_result [OF this t(4)] obtain e1 n where e1: "on_task_result env x e0 = Some e1" "n \<le> result_weight ?dp x - 1"
    "steps env U n e0 e1" "cancelled e1 \<or> handled ?dp (en_root_dependencies e0) (en_state e1) (awaited ?dp e1) x"
    by (auto simp: runs_def)
  note p = provider_okD(1,2) [OF assms(2)]
  have inv: "enc_inv env e1" "work ?dp U e1 \<le> work ?dp U e0 + n" using steps_inv [OF e1(3) t(1) p(2,1)] by simp_all
  have ext: "enc_ext ?dp e0 e1" by (rule steps_ext [OF e1(3)])
  have root: "en_root_dependencies e1 = en_root_dependencies e0" by (rule enc_extD(2) [OF ext])
  have "obligations ?dp {x} e1" by (rule steps_obligations [OF e1(3) t(1) p(2,1) t(5)])
  then have "obligations ?dp {} e1" by (rule obligations_close) (use e1(4) t(4) root in simp_all)
  moreover have "work ?dp U e1 < work ?dp U e" using inv(2) e1(2) t(2) result_weight_pos [of ?dp x] by linarith
  ultimately show thesis using that e1(1) inv(1) advances_trans [OF t(3) advances_ext [OF ext]]
    steps_cancels [OF e1(3) t(1) p(2,1) assms(6)] by blast
qed

section \<open>The loop ends\<close>

lemma encode_loop_ends:
  assumes "provider_ok (ev_provider env) U" "enc_inv env e" "work (ev_provider env) U e \<le> 2 ^ 32 - 1" "obligations (ev_provider env) {} e"
    "cancels_ok env e"
  shows "\<exists>r e'. encode_loop env e = Some (r, e') \<and> (\<forall>v. r = Inl v \<longrightarrow> (\<exists>j. ev_cancel env j = Some v)) \<and>
    (r = Inr () \<longrightarrow> enc_inv env e' \<and> obligations (ev_provider env) {} e' \<and> advances e e' \<and>
      en_pending_results e' = [] \<and> en_pending_futures e' = [])"
  using assms(2-5)
proof (induction "work (ev_provider env) U e" arbitrary: e rule: less_induct)
  case less
  let ?dp = "ev_provider env"
  let ?goal = "\<lambda>e r e'. (\<forall>v. r = Inl v \<longrightarrow> (\<exists>j. ev_cancel env j = Some v)) \<and>
    (r = Inr () \<longrightarrow> enc_inv env e' \<and> obligations ?dp {} e' \<and> advances e e' \<and> en_pending_results e' = [] \<and> en_pending_futures e' = [])"
  have cache: "cache_inv ?dp (en_cache e)" by (rule enc_invD(7) [OF less.prems(1)])
  have next_round: "\<exists>r e'. Option.bind (on_task_result env x e0) (encode_loop env) = Some (r, e') \<and> ?goal e r e'"
    if x: "taken ?dp x e e0" "cancels_ok env e0" for x e0
  proof -
    obtain e1 where e1: "on_task_result env x e0 = Some e1" "enc_inv env e1" "work ?dp U e1 < work ?dp U e"
      "obligations ?dp {} e1" "advances e e1" "cancels_ok env e1"
      by (rule round_effect [OF x(1) assms(1) less.prems(1-3) x(2)]) (rule that)
    have "\<exists>r e'. encode_loop env e1 = Some (r, e') \<and> ?goal e1 r e'"
      by (rule less.hyps [OF e1(3,2) _ e1(4,6)]) (use e1(3) less.prems(2) in simp)
    then obtain r e' where "encode_loop env e1 = Some (r, e')" "?goal e1 r e'" by blast
    with e1(1) advances_trans [OF e1(5)] show ?thesis by auto
  qed
  show ?case
  proof (cases "en_pending_results e")
    case (Cons result rest)
    show ?thesis
    proof (cases result)
      case (Inl v)
      with Cons less.prems(4) have "\<exists>j. ev_cancel env j = Some v" by (simp add: cancels_ok_def)
      with Cons Inl show ?thesis by (subst encode_loop.simps) simp
    next
      case (Inr x)
      have "cancels_ok env (e\<lparr>en_pending_results := rest\<rparr>)" using less.prems(4) Cons by (simp add: cancels_ok_def)
      with next_round [OF taken_result [OF _ cache]] Cons Inr show ?thesis by (subst encode_loop.simps) simp
    qed
  next
    case Nil
    show ?thesis
    proof (cases "en_pending_futures e = []")
      case True
      with Nil less.prems show ?thesis by (subst encode_loop.simps) simp
    next
      case False
      define i where "i = ev_next env (en_completed e) mod length (en_pending_futures e)"
      have i: "i < length (en_pending_futures e)" using False by (simp add: i_def)
      let ?t = "en_pending_futures e ! i" and ?e1 = "\<lambda>c. e\<lparr>en_cache := c, en_pending_futures := vec_remove (en_pending_futures e) i, en_completed := Suc (en_completed e)\<rparr>"
      have unfold: "encode_loop env e = Option.bind (run_task env (en_root_dependencies e) ?t (en_cache e)) (\<lambda>(result, c).
              case result of Inl v \<Rightarrow> Some (Inl v, ?e1 c) | Inr x \<Rightarrow> Option.bind (on_task_result env x (?e1 c)) (encode_loop env))"
        using Nil False by (subst encode_loop.simps) (simp add: i_def [symmetric] Let_def)
      from run_task_answers [OF provider_okD(2) [OF assms(1)], of "en_root_dependencies e" ?t] cache show ?thesis
      proof (cases rule: answersE)
        case (answer c)
        have "cancels_ok env (?e1 c)" using less.prems(4) by (simp add: cancels_ok_def)
        from next_round [OF taken_future [OF i answer(2)] this] answer(1) show ?thesis unfolding unfold by simp
      next
        case (cancelled v c j)
        then show ?thesis unfolding unfold by auto
      qed
    qed
  qed
qed

end
