(* ===== verification/Encoder_Finish.thy ===== *)
theory Encoder_Finish
  imports Encoder_Loop
begin

text \<open>
  The end of an encoding: the at-most-one clauses of the packages whose candidates were seen,
  through the backend of the tracker, and the clauses of the at-least-one variables.
\<close>

section \<open>What the end leaves alone\<close>

definition frame :: "'c encoder \<Rightarrow> 'c encoder \<Rightarrow> bool" where
  "frame e e' \<longleftrightarrow> (let s = en_state e; s' = en_state e' in
     ss_requirement_to_sorted_candidates s' = ss_requirement_to_sorted_candidates s \<and>
     ss_constrains_aux_vars s' = ss_constrains_aux_vars s \<and> ss_requires_aux_vars s' = ss_requires_aux_vars s \<and>
     ss_deferred_requirements s' = ss_deferred_requirements s \<and>
     ss_clauses_added_for_solvable s' = ss_clauses_added_for_solvable s \<and>
     ss_clauses_added_for_package s' = ss_clauses_added_for_package s \<and>
     ss_allow_multiple_names s' = ss_allow_multiple_names s \<and> ss_disjunctions s' = ss_disjunctions s \<and>
     ss_learnt_clauses s' = ss_learnt_clauses s \<and> ss_decide_queue s' = ss_decide_queue s) \<and>
     en_cache e' = en_cache e \<and> en_root_dependencies e' = en_root_dependencies e \<and> en_level e' = en_level e \<and>
     en_pending_futures e' = en_pending_futures e \<and> en_pending_results e' = en_pending_results e"

lemma frame_refl [simp]: "frame e e"
  by (simp add: frame_def Let_def)

lemma frame_trans: "frame e e' \<Longrightarrow> frame e' e'' \<Longrightarrow> frame e e''"
  by (simp add: frame_def Let_def)

lemma frame_basic:
  "frame e (snd (en_variable f e))" "frame e (snd (en_clause wk e))" "frame e (en_conflict b c e)" "frame e (en_tracker n t e)"
  "en_decide v b c e = Some e' \<Longrightarrow> frame e e'"
  by (auto simp: frame_def Let_def en_variable_eq en_clause_eq en_conflict_def en_tracker_def en_decide_eq split: option.splits if_splits)

section \<open>The backend of the at-most-one encoding\<close>

abbreviation package_origin :: "dependency_provider \<Rightarrow> name_id \<Rightarrow> 'c encoder \<Rightarrow> variable_id \<Rightarrow> bool" where
  "package_origin dp n e v \<equiv> \<exists>x. en_origin e v = Some (Origin_Solvable x) \<and> pv_solvable_name (dp_interner dp) x = n"

lemma run_decide_sign:
  assumes "lit_value (ss_decision_tracker (en_state e)) (sign_lit v b) = None" "\<And>n. en_origin e v \<noteq> Some (Origin_AtLeastOne n)"
    "en_origin e v \<noteq> None" "unit_in (en_state e) c (sign_lit v b)" "valid_level (en_level e)"
  shows "\<exists>e'. en_decide (variable (sign_lit v b)) (satisfying_value (sign_lit v b)) c e = Some e' \<and> steps env U 0 e e' \<and> frame e e' \<and>
    en_kinds e' = en_kinds e \<and> ss_variable_map (en_state e') = ss_variable_map (en_state e)"
proof -
  have val: "en_value e v = None" "variable (sign_lit v b) = v" "satisfying_value (sign_lit v b) = b"
    using assms(1) by (simp_all add: lit_value_assigned sign_lit_def split: if_splits)
  obtain e' where e': "en_decide v b c e = Some e'" "steps env U 0 e e'" "en_kinds e' = en_kinds e"
    using run_decide [of e v b c env U] val(1) assms(2-5) by (auto simp: sign_lit_def)
  moreover have "ss_variable_map (en_state e') = ss_variable_map (en_state e)" using e'(1) val(1) by (auto simp: en_decide_eq)
  ultimately show ?thesis using frame_basic(5) unfolding val by blast
qed

lemma run_forbid_clause:
  assumes "vars_ok e" "package_origin (ev_provider env) n e a" "en_origin e h = Some (Origin_ForbidMultiple n)"
  shows "\<exists>e'. forbid_clause n a h p e = Some e' \<and> steps env U 0 e e' \<and> frame e e' \<and>
    en_kinds e' = en_kinds e @ [ForbidMultipleInstances a (sign_lit h p) n] \<and> ss_variable_map (en_state e') = ss_variable_map (en_state e)"
proof -
  let ?lb = "sign_lit h p" and ?dp = "ev_provider env"
  let ?k = "ForbidMultipleInstances a ?lb n" and ?wl = "\<lparr>wl_watched = (negative a, ?lb), wl_next = (None, None)\<rparr>"
  have ah: "a \<noteq> h" using assms(2,3) by auto
  have wl: "WatchedLiterals_forbid_multiple a ?lb n = (Some ?wl, ?k)"
    by (simp add: WatchedLiterals_forbid_multiple_def Clause_forbid_multiple_def from_kind_and_initial_watches_def)
  obtain c e1 where e1: "en_clause (WatchedLiterals_forbid_multiple a ?lb n) e = (c, e1)" by fastforce
  have vlb: "variable ?lb = h" by (simp add: sign_lit_def)
  have "variable_map_inv (ss_variable_map (en_state e))" using assms(1) by (simp add: vars_ok_def)
  with assms(2,3) have "justified ?dp (en_root_dependencies e) (en_state e) ?k"
    using variable_map_invD(2) by (auto simp: vlb)
  from run_binary [OF e1 [unfolded wl] this, of "negative a" ?lb U] ah
  have b: "steps env U 0 e e1" "c = length (en_kinds e)" "en_kinds e1 = en_kinds e @ [?k]"
    "ss_decision_tracker (en_state e1) = ss_decision_tracker (en_state e)" "ss_variable_map (en_state e1) = ss_variable_map (en_state e)"
    "lits (en_state e1) ?k = Some [negative a, ?lb]"
    by (auto simp: lits_def sign_lit_def)
  have f1: "frame e e1" using frame_basic(2) [of e "WatchedLiterals_forbid_multiple a ?lb n"] e1 by simp
  have lv: "valid_level (en_level e1)" using assms(1) f1 by (simp add: vars_ok_def frame_def)
  let ?m = "dt_map (ss_decision_tracker (en_state e1))" and ?goal = "\<lambda>r. \<exists>e'. r = Some e' \<and> steps env U 0 e1 e' \<and> frame e1 e' \<and>
    en_kinds e' = en_kinds e1 \<and> ss_variable_map (en_state e') = ss_variable_map (en_state e1)"
  have unit: "eval (negative a) ?m = Some False \<Longrightarrow> unit_in (en_state e1) c ?lb"
    "eval ?lb ?m = Some False \<Longrightarrow> unit_in (en_state e1) c (negative a)"
    using b by (auto simp: unit_in_def)
  have dec1: "?goal (en_decide (variable ?lb) (satisfying_value ?lb) c e1)"
    if "eval ?lb ?m = None" "eval (negative a) ?m = Some False"
    by (rule run_decide_sign) (use that assms(3) b(5) lv unit(1) in auto)
  have na: "negative a = sign_lit a False" by (simp add: sign_lit_def)
  have dec2: "?goal (en_decide (variable (negative a)) (satisfying_value (negative a)) c e1)"
    if "eval (negative a) ?m = None" "eval ?lb ?m = Some False"
    unfolding na by (rule run_decide_sign) (use that assms(2) b(5) lv unit(2) in \<open>auto simp: na\<close>)
  have conflict: "?goal (Some (en_conflict True c e1))"
    using frame_basic(3) [of e1 True c] steps_one [OF micro.conflict, of c e1 env U True] b by (auto simp: en_conflict_def)
  have stay: "?goal (Some e1)" using frame_refl steps.stay by blast
  have "?goal (forbid_clause n a h p e)"
  proof -
    have fc: "forbid_clause n a h p e = (case (eval (negative a) ?m, eval ?lb ?m) of
           (Some False, None) \<Rightarrow> en_decide (variable ?lb) (satisfying_value ?lb) c e1
         | (None, Some False) \<Rightarrow> en_decide (variable (negative a)) (satisfying_value (negative a)) c e1
         | (Some False, Some False) \<Rightarrow> Some (en_conflict True c e1)
         | _ \<Rightarrow> Some e1)"
      unfolding forbid_clause_def sign_lit_def [symmetric] Let_def e1 prod.case ..
    show ?thesis unfolding fc using dec1 dec2 conflict stay by (auto split: option.split bool.split)
  qed
  then obtain e' where "forbid_clause n a h p e = Some e'" "steps env U 0 e1 e'" "frame e1 e'" "en_kinds e' = en_kinds e1"
    "ss_variable_map (en_state e') = ss_variable_map (en_state e1)" by blast
  with b f1 steps_join frame_trans show ?thesis by metis
qed

lemma steps_vars_ok: "steps env U n e e' \<Longrightarrow> vars_ok e \<Longrightarrow> vars_ok e'"
  by (induction rule: steps.induct) (auto intro: micro_vars_ok)

definition forbid_ok :: "'c environment \<Rightarrow> solvable_id set \<Rightarrow> 'c encoder \<Rightarrow> 'c encoder option \<Rightarrow> bool" where
  "forbid_ok env U e0 r \<longleftrightarrow> (\<exists>e. r = Some e \<and> steps env U 0 e0 e \<and> frame e0 e \<and> vars_ok e)"

definition forbid_clauses :: "name_id \<Rightarrow> 'c encoder option \<Rightarrow> (variable_id \<times> variable_id \<times> bool) set" where
  "forbid_clauses n r = {(a, h, p). \<exists>e. r = Some e \<and> ForbidMultipleInstances a (sign_lit h p) n \<in> set (en_kinds e)}"

definition package_vars :: "dependency_provider \<Rightarrow> name_id \<Rightarrow> 'c encoder option \<Rightarrow> variable_id set" where
  "package_vars dp n r = {v. \<exists>e. r = Some e \<and> package_origin dp n e v}"

definition package_helpers :: "name_id \<Rightarrow> 'c encoder option \<Rightarrow> variable_id set" where
  "package_helpers n r = {h. \<exists>e. r = Some e \<and> en_origin e h = Some (Origin_ForbidMultiple n)}"

lemma sign_lit_inj: "sign_lit h p = sign_lit h' p' \<longleftrightarrow> h = h' \<and> p = p'"
  by (auto simp: sign_lit_def)

lemma run_forbid_callback:
  assumes "forbid_ok env U e0 r" "a \<in> package_vars (ev_provider env) n r" "h \<in> package_helpers n r"
  obtains e e' where "r = Some e" "forbid_callback n a h p r = Some e'" "steps env U 0 e0 e'" "frame e0 e'" "vars_ok e'"
    "en_kinds e' = en_kinds e @ [ForbidMultipleInstances a (sign_lit h p) n]" "ss_variable_map (en_state e') = ss_variable_map (en_state e)"
proof -
  from assms(1) obtain e where e: "r = Some e" "steps env U 0 e0 e" "frame e0 e" "vars_ok e" by (auto simp: forbid_ok_def)
  from assms(2,3) e(1) have "package_origin (ev_provider env) n e a" "en_origin e h = Some (Origin_ForbidMultiple n)"
    by (simp_all add: package_vars_def package_helpers_def)
  from run_forbid_clause [where p = p and U = U, OF e(4) this] obtain e' where
    e': "forbid_clause n a h p e = Some e'" "steps env U 0 e e'" "frame e e'"
    "en_kinds e' = en_kinds e @ [ForbidMultipleInstances a (sign_lit h p) n]" "ss_variable_map (en_state e') = ss_variable_map (en_state e)"
    by blast
  then show thesis
    using that [OF e(1) _ steps_join [OF e(2) e'(2)] frame_trans [OF e(3) e'(3)] steps_vars_ok [OF e'(2) e(4)] e'(4,5)] e(1)
    by (simp add: forbid_callback_def)
qed

lemma run_helper_callback:
  assumes "forbid_ok env U e0 r"
  obtains e h e' where "r = Some e" "helper_callback n r = (h, Some e')" "steps env U 0 e0 e'" "frame e0 e'" "vars_ok e'"
    "en_kinds e' = en_kinds e" "en_origin e h = None" "en_origin e' = (en_origin e)(h \<mapsto> Origin_ForbidMultiple n)"
proof -
  from assms obtain e where e: "r = Some e" "steps env U 0 e0 e" "frame e0 e" "vars_ok e" by (auto simp: forbid_ok_def)
  let ?h = "variable_count (ss_variable_map (en_state e))" and ?e' = "snd (en_variable (VariableMap_alloc (Origin_ForbidMultiple n)) e)"
  have al: "alloc_forbid_multiple_variable n = VariableMap_alloc (Origin_ForbidMultiple n)"
    by (rule ext) (simp add: alloc_forbid_multiple_variable_def)
  have m: "micro env U 0 e ?e'" by (rule micro.alloc) (simp_all add: auxiliary_origin_def)
  have "helper_callback n r = (?h, Some ?e')" by (simp add: helper_callback_def e(1) al en_variable_def split_beta)
  moreover have "en_origin e ?h = None" by (simp add: origin_None_iff)
  moreover have "en_origin ?e' = (en_origin e)(?h \<mapsto> Origin_ForbidMultiple n)" by (rule ext) (simp add: en_variable_eq)
  ultimately show thesis
    using that [OF e(1) _ steps_snoc [OF e(2) m] frame_trans [OF e(3) frame_basic(1)] micro_vars_ok [OF m e(4)]]
    by (simp add: en_variable_eq)
qed

interpretation forbid: amo_backend "forbid_ok env U e0" "forbid_callback n" "helper_callback n" "forbid_clauses n"
  "package_vars (ev_provider env) n" "package_helpers n" for env :: "'c environment" and U e0 n
proof
  fix r :: "'c encoder option" and a h p
  assume r: "forbid_ok env U e0 r"
  {
    assume "a \<in> package_vars (ev_provider env) n r" "h \<in> package_helpers n r"
    from run_forbid_callback [OF r this, of p] obtain e e' where e: "r = Some e" "forbid_callback n a h p r = Some e'"
      "steps env U 0 e0 e'" "frame e0 e'" "vars_ok e'"
      "en_kinds e' = en_kinds e @ [ForbidMultipleInstances a (sign_lit h p) n]" "ss_variable_map (en_state e') = ss_variable_map (en_state e)"
      by blast
    from e show "forbid_ok env U e0 (forbid_callback n a h p r)" by (simp add: forbid_ok_def)
    from e show "forbid_clauses n (forbid_callback n a h p r) = insert (a, h, p) (forbid_clauses n r)"
      by (auto simp: forbid_clauses_def sign_lit_inj)
    from e show "package_vars (ev_provider env) n (forbid_callback n a h p r) = package_vars (ev_provider env) n r"
      by (simp add: package_vars_def)
    from e show "package_helpers n (forbid_callback n a h p r) = package_helpers n r" by (simp add: package_helpers_def)
  }
  from run_helper_callback [OF r, of n] obtain e v e' where e: "r = Some e" "helper_callback n r = (v, Some e')"
    "steps env U 0 e0 e'" "frame e0 e'" "vars_ok e'" "en_kinds e' = en_kinds e" "en_origin e v = None"
    "en_origin e' = (en_origin e)(v \<mapsto> Origin_ForbidMultiple n)" by blast
  from e show "forbid_ok env U e0 (snd (helper_callback n r))" by (simp add: forbid_ok_def)
  from e show "forbid_clauses n (snd (helper_callback n r)) = forbid_clauses n r" by (simp add: forbid_clauses_def)
  from e show "package_vars (ev_provider env) n (snd (helper_callback n r)) = package_vars (ev_provider env) n r"
    by (auto simp: package_vars_def)
  from e show "package_helpers n (snd (helper_callback n r)) = insert (fst (helper_callback n r)) (package_helpers n r)"
    by (auto simp: package_helpers_def)
  from e show "fst (helper_callback n r) \<notin> package_vars (ev_provider env) n r \<union> package_helpers n r"
    by (auto simp: package_vars_def package_helpers_def)
qed

section \<open>At most one\<close>

definition fin_inv :: "'c environment \<Rightarrow> 'c encoder \<Rightarrow> bool" where
  "fin_inv env e \<longleftrightarrow> vars_ok e \<and> alo_ok e \<and> clauses_ok (ev_provider env) e \<and> trackers_ok (ev_provider env) (en_state e)"

lemma steps_fin:
  assumes "steps env U n e e'" "vars_ok e" "alo_ok e" "clauses_ok (ev_provider env) e"
  shows "vars_ok e' \<and> alo_ok e' \<and> clauses_ok (ev_provider env) e' \<and>
    ss_at_most_one_trackers (en_state e') = ss_at_most_one_trackers (en_state e) \<and>
    ss_at_least_one_tracker (en_state e') = ss_at_least_one_tracker (en_state e)"
  using assms
proof (induction rule: steps.induct)
  case (move n e e1 m e2)
  then have e1: "vars_ok e1" "alo_ok e1" "clauses_ok (ev_provider env) e1" by simp_all
  from micro_vars_ok [OF move.hyps(2) e1(1)] micro_alo_ok [OF move.hyps(2) e1(2,1)] micro_clauses_ok [OF move.hyps(2) e1(3)]
    micro_fields(1,2) [OF move.hyps(2)] move show ?case by simp
qed simp

lemma tracker_fin:
  "vars_ok (en_tracker n t e) = vars_ok e" "alo_ok (en_tracker n t e) = alo_ok e" "lits (en_state (en_tracker n t e)) k = lits (en_state e) k"
  "en_kinds (en_tracker n t e) = en_kinds e" "en_origin (en_tracker n t e) = en_origin e"
  "ss_at_least_one_tracker (en_state (en_tracker n t e)) = ss_at_least_one_tracker (en_state e)"
  "ss_at_most_one_trackers (en_state (en_tracker n t e)) = (ss_at_most_one_trackers (en_state e))(n := t)"
  by (simp_all add: en_tracker_def vars_ok_def alo_ok_def lits_def)

lemma tracker_justified: "justified dp root (en_state (en_tracker n t e)) k = justified dp root (en_state e) k"
proof -
  have v: "var_of (en_state (en_tracker n t e)) x = var_of (en_state e) x" for x by (cases x) (simp_all add: en_tracker_def)
  have "complement_lits dp (en_state (en_tracker n t e)) = complement_lits dp (en_state e)"
    by (intro ext) (simp add: complement_lits_def en_tracker_def)
  then have "disjunct_lits dp (en_state (en_tracker n t e)) = disjunct_lits dp (en_state e)"
    by (intro ext) (simp only: disjunct_lits_def)
  moreover have "ss_disjunctions (en_state (en_tracker n t e)) = ss_disjunctions (en_state e)" by (simp add: en_tracker_def)
  ultimately have c: "condition_encoded dp (en_state (en_tracker n t e)) = condition_encoded dp (en_state e)"
    by (intro ext) (simp only: condition_encoded_def)
  show ?thesis by (cases k) (simp_all add: v c tracker_fin del: var_of.simps)
qed

lemma tracker_clauses_ok: "clauses_ok dp (en_tracker n t e) = clauses_ok dp e"
  by (simp add: clauses_ok_def tracker_justified tracker_fin) (simp add: en_tracker_def)

lemma run_any_of:
  assumes "vars_ok e" "en_origin e a = Some (Origin_AtLeastOne n)" "package_origin (ev_provider env) n e v"
  shows "micro env U 0 e (snd (en_clause (WatchedLiterals_any_of a v) e))"
    "lits (en_state e) (AnyOf a v) = Some [positive a, negative v]"
    "en_kinds (snd (en_clause (WatchedLiterals_any_of a v) e)) = en_kinds e @ [AnyOf a v]"
proof -
  let ?wl = "\<lparr>wl_watched = (positive a, negative v), wl_next = (None, None)\<rparr>"
  have wl: "WatchedLiterals_any_of a v = (Some ?wl, AnyOf a v)"
    by (simp add: WatchedLiterals_any_of_def Clause_any_of_def from_kind_and_initial_watches_def)
  have inv: "variable_map_inv (ss_variable_map (en_state e))" using assms(1) by (simp add: vars_ok_def)
  have j: "justified (ev_provider env) (en_root_dependencies e) (en_state e) (AnyOf a v)"
    using assms(2,3) variable_map_invD(2) [OF inv] by auto
  show l: "lits (en_state e) (AnyOf a v) = Some [positive a, negative v]" by (simp add: lits_def)
  show "micro env U 0 e (snd (en_clause (WatchedLiterals_any_of a v) e))"
    unfolding wl by (rule micro.watched [OF j]) (use l in \<open>auto simp: watches_of_def lits_def\<close>)
  show "en_kinds (snd (en_clause (WatchedLiterals_any_of a v) e)) = en_kinds e @ [AnyOf a v]" by (simp add: wl en_clause_eq)
qed

lemma state_ext_trackers:
  assumes "state_ext (en_state (en_tracker n None e)) (en_state e1)" "tracked_in (en_state e) n \<subseteq> set (amo_variables t)"
    "ss_at_most_one_trackers (en_state e1) = (ss_at_most_one_trackers (en_state e))(n := None)"
  shows "state_ext (en_state e) (en_state (en_tracker n (Some t) e1))"
proof -
  have "tracked_in (en_state e) m \<subseteq> tracked_in (en_state (en_tracker n (Some t) e1)) m" for m
    using assms(2,3) by (auto simp: tracked_in_def en_tracker_def)
  with assms(1) show ?thesis by (simp add: state_ext_def en_tracker_def deferred_set_def)
qed

lemma run_add_forbid:
  assumes "fin_inv env e" "package_origin (ev_provider env) n e v"
  shows "\<exists>e'. add_forbid e (n, v) = Some e' \<and> fin_inv env e' \<and> state_ext (en_state e) (en_state e') \<and> frame e e' \<and>
    v \<in> tracked_in (en_state e') n"
proof -
  let ?dp = "ev_provider env"
  have f: "vars_ok e" "alo_ok e" "clauses_ok ?dp e" "trackers_ok ?dp (en_state e)" using assms(1) by (simp_all add: fin_inv_def)
  define t where "t = (case ss_at_most_one_trackers (en_state e) n of None \<Rightarrow> AtMostOnceTracker_default | Some t \<Rightarrow> t)"
  define e0 where "e0 = en_tracker n None e"
  obtain b t' r where add: "amo_add (forbid_callback n) (helper_callback n) v t (Some e0) = (b, t', r)" by (metis prod_cases3)
  have t: "amo_inv t" "set (amo_variables t) = tracked_in (en_state e) n"
    "\<forall>(a, h, p) \<in> amo_clauses t. ForbidMultipleInstances a (sign_lit h p) n \<in> set (en_kinds e)"
    "\<forall>v \<in> set (amo_variables t). package_origin ?dp n e v" "\<forall>h \<in> set (amo_helpers t). en_origin e h = Some (Origin_ForbidMultiple n)"
    using f(4) unfolding trackers_ok_def t_def tracked_in_def
    by (auto simp: AtMostOnceTracker_default_def amo_inv_def amo_clauses_def split: option.splits)
  have tr: "forbid.tracks env {} e0 n t (Some e0)"
    unfolding forbid.tracks_def forbid_ok_def package_vars_def package_helpers_def forbid_clauses_def
    using t f(1) by (auto simp: e0_def tracker_fin steps.stay)
  have v: "v \<in> package_vars ?dp n (Some e0)" "v \<notin> set (amo_helpers t)"
    using assms(2) t(5) by (auto simp: package_vars_def e0_def tracker_fin)
  note eff = forbid.amo_add_effect [OF tr t(1) v add]
  then obtain e1 where e1: "r = Some e1" "steps env {} 0 e0 e1" "frame e0 e1" "vars_ok e1"
    by (auto simp: forbid.tracks_def forbid_ok_def)
  have f1: "alo_ok e1" "clauses_ok ?dp e1" "ss_at_most_one_trackers (en_state e1) = (ss_at_most_one_trackers (en_state e))(n := None)"
    "ss_at_least_one_tracker (en_state e1) = ss_at_least_one_tracker (en_state e)"
    using steps_fin [OF e1(2)] f by (auto simp: e0_def tracker_fin tracker_clauses_ok)
  define e2 where "e2 = en_tracker n (Some t') e1"
  have x2: "state_ext (en_state e) (en_state e2)" unfolding e2_def
    by (rule state_ext_trackers [OF enc_extD(1) [OF steps_ext [OF e1(2), of ?dp], unfolded e0_def] _ f1(3)]) (use eff(5) t(2) in auto)
  have f2: "vars_ok e2" "alo_ok e2" "clauses_ok ?dp e2" using e1(4) f1 by (simp_all add: e2_def tracker_fin tracker_clauses_ok)
  have fr2: "frame e e2" using frame_trans [OF frame_trans [OF frame_basic(4) e1(3) [unfolded e0_def]] frame_basic(4)] by (simp add: e2_def)
  have tr2: "set (amo_variables t') \<subseteq> {v. package_origin ?dp n e2 v}" "set (amo_helpers t') \<subseteq> {h. en_origin e2 h = Some (Origin_ForbidMultiple n)}"
    "\<forall>(a, h, p) \<in> amo_clauses t'. ForbidMultipleInstances a (sign_lit h p) n \<in> set (en_kinds e2)"
    using eff(1) unfolding forbid.tracks_def e1(1) package_vars_def package_helpers_def forbid_clauses_def
    by (auto simp: e2_def tracker_fin)
  define e3 where "e3 = (if b then (case ss_at_least_one_tracker (en_state e2) n of None \<Rightarrow> e2
      | Some a \<Rightarrow> snd (en_clause (WatchedLiterals_any_of a v) e2)) else e2)"
  have res: "add_forbid e (n, v) = Some e3"
    unfolding add_forbid_def prod.case t_def [symmetric] e0_def [symmetric] Let_def add e1(1) e3_def e2_def by simp
  have s3: "steps env {} 0 e2 e3 \<and> frame e2 e3 \<and> (\<forall>a. b \<longrightarrow> ss_at_least_one_tracker (en_state e2) n = Some a \<longrightarrow> AnyOf a v \<in> set (en_kinds e3))"
  proof (cases "b \<and> ss_at_least_one_tracker (en_state e2) n \<noteq> None")
    case True
    then obtain a where a: "b" "ss_at_least_one_tracker (en_state e2) n = Some a" by auto
    have "package_origin ?dp n e2 v" "en_origin e2 a = Some (Origin_AtLeastOne n)"
      using tr2(1) eff(5) f2(2) a(2) unfolding alo_ok_def by blast+
    from run_any_of(1) [OF f2(1) this(2,1), of "{}"] run_any_of(3) [OF f2(1) this(2,1)] a
      frame_basic(2) [of e2 "WatchedLiterals_any_of a v"] show ?thesis
      by (simp add: e3_def steps_one)
  next
    case False
    then have "e3 = e2" by (auto simp: e3_def)
    with False show ?thesis by (auto intro: steps.stay)
  qed
  have x3: "state_ext (en_state e2) (en_state e3)" using s3 steps_ext enc_extD(1) by blast
  have f3: "vars_ok e3" "alo_ok e3" "clauses_ok ?dp e3" "ss_at_most_one_trackers (en_state e3) = (ss_at_most_one_trackers (en_state e))(n \<mapsto> t')"
    "ss_at_least_one_tracker (en_state e3) = ss_at_least_one_tracker (en_state e)"
    using s3 steps_fin [OF _ f2] f1 by (auto simp: e2_def tracker_fin)
  have x: "state_ext (en_state e) (en_state e3)" by (rule state_ext_trans [OF x2 x3])
  have "trackers_ok ?dp (en_state e3)"
    unfolding trackers_ok_def
  proof (intro allI impI)
    fix m u
    assume u: "ss_at_most_one_trackers (en_state e3) m = Some u"
    note k = state_extD(1) [OF x] state_extD(1) [OF x3] and o = state_extD(5) [OF x] state_extD(5) [OF x3]
    have old: "AnyOf a w \<in> set (en_kinds e3)" if "ss_at_least_one_tracker (en_state e3) m = Some a" "w \<in> tracked_in (en_state e) m" for a w
      using that f(4) f3(5) k(1) unfolding trackers_ok_def tracked_in_def by (auto split: option.splits)
    show "amo_inv u \<and> (\<forall>(a, h, b) \<in> amo_clauses u. ForbidMultipleInstances a (sign_lit h b) m \<in> set (en_kinds e3)) \<and>
      (\<forall>v \<in> set (amo_variables u). package_origin ?dp m e3 v) \<and> (\<forall>h \<in> set (amo_helpers u). en_origin e3 h = Some (Origin_ForbidMultiple m)) \<and>
      (\<forall>a. ss_at_least_one_tracker (en_state e3) m = Some a \<longrightarrow> (\<forall>v \<in> set (amo_variables u). AnyOf a v \<in> set (en_kinds e3)))"
    proof (cases "m = n")
      case True
      then have "u = t'" using u f3(4) by simp
      moreover have "AnyOf a w \<in> set (en_kinds e3)" if "ss_at_least_one_tracker (en_state e3) n = Some a" "w \<in> set (amo_variables t')" for a w
      proof (cases "w \<in> tracked_in (en_state e) n")
        case False
        then have "w = v" "b" using that(2) eff(5,6) t(2) by auto
        moreover have "ss_at_least_one_tracker (en_state e2) n = Some a" using that(1) f3(5) f1(4) by (simp add: e2_def tracker_fin)
        ultimately show ?thesis using s3 by blast
      qed (use old that True in blast)
      ultimately show ?thesis using True eff(2) tr2 k(2) o(2) by blast
    next
      case False
      then have "ss_at_most_one_trackers (en_state e) m = Some u" using u f3(4) by simp
      with f(4) k(1) o(1) f3(5) show ?thesis unfolding trackers_ok_def by fastforce
    qed
  qed
  moreover have "v \<in> tracked_in (en_state e3) n" using f3(4) eff(5) by (simp add: tracked_in_def)
  ultimately show ?thesis using f3(1-3) x res frame_trans [OF fr2] s3 by (auto simp: fin_inv_def)
qed

lemma run_add_forbids:
  assumes "fin_inv env e" "\<forall>(n, v) \<in> set ps. package_origin (ev_provider env) n e v"
  shows "\<exists>e'. fold_opt add_forbid e ps = Some e' \<and> fin_inv env e' \<and> state_ext (en_state e) (en_state e') \<and> frame e e' \<and>
    (\<forall>(n, v) \<in> set ps. v \<in> tracked_in (en_state e') n)"
  using assms
proof (induction ps arbitrary: e)
  case (Cons p ps)
  obtain n v where p: "p = (n, v)" by fastforce
  with Cons.prems have "package_origin (ev_provider env) n e v" by simp
  from run_add_forbid [OF Cons.prems(1) this] obtain e1 where e1: "add_forbid e (n, v) = Some e1" "fin_inv env e1"
    "state_ext (en_state e) (en_state e1)" "frame e e1" "v \<in> tracked_in (en_state e1) n" by blast
  have "\<forall>(n, v) \<in> set ps. package_origin (ev_provider env) n e1 v" using Cons.prems(2) state_extD(5) [OF e1(3)] by fastforce
  from Cons.IH [OF e1(2) this] obtain e2 where e2: "fold_opt add_forbid e1 ps = Some e2" "fin_inv env e2"
    "state_ext (en_state e1) (en_state e2)" "frame e1 e2" "\<forall>(n, v) \<in> set ps. v \<in> tracked_in (en_state e2) n" by blast
  with e1 p state_ext_trans [OF e1(3) e2(3)] frame_trans [OF e1(4) e2(4)] state_extD(12) [OF e2(3) e1(5)] show ?case by simp
qed simp

section \<open>At least one\<close>

definition alo_with :: "(name_id \<times> variable_id) list \<Rightarrow> 'c encoder \<Rightarrow> bool" where
  "alo_with L e \<longleftrightarrow> (\<forall>n a. en_origin e a = Some (Origin_AtLeastOne n) \<longleftrightarrow> ss_at_least_one_tracker (en_state e) n = Some a \<or> (n, a) \<in> set L) \<and>
     (\<forall>n a a'. en_origin e a = Some (Origin_AtLeastOne n) \<longrightarrow> en_origin e a' = Some (Origin_AtLeastOne n) \<longrightarrow> a = a') \<and>
     distinct (map fst L) \<and> (\<forall>(n, a) \<in> set L. en_value e a = None \<and> ss_at_least_one_tracker (en_state e) n = None)"

lemma alo_ok_with: "alo_ok e = alo_with (en_new_at_least_one_packages e) e"
  by (simp only: alo_ok_def alo_with_def)

lemma decide_vars_ok:
  assumes "en_decide v b c e = Some e'" "vars_ok e" "en_origin e v \<noteq> None"
  shows "vars_ok e'" "state_ext (en_state e) (en_state e')" "ss_variable_map (en_state e') = ss_variable_map (en_state e)"
    "en_value e' u = (if u = v then Some b else en_value e u)"
proof -
  have "vars_ok e' \<and> state_ext (en_state e) (en_state e') \<and> ss_variable_map (en_state e') = ss_variable_map (en_state e) \<and>
    en_value e' u = (if u = v then Some b else en_value e u)"
  proof (cases "en_value e v")
    case None
    with assms(1) have e': "e' = on_state (\<lambda>s. s\<lparr>ss_decision_tracker := push_decision (ss_decision_tracker s) (Decision_new v b c) (en_level e)\<rparr>) e"
      by (simp add: en_decide_eq)
    have "tracker_inv (ss_decision_tracker (en_state e')) \<and> level_above (ss_decision_tracker (en_state e')) (en_level e)"
      using assms(2) None by (auto simp: e' vars_ok_def Decision_new_def level_above_def intro!: push_decision_inv)
    with assms(2,3) show ?thesis
      by (auto simp: e' vars_ok_def Decision_new_def state_ext_def tracked_in_def deferred_set_def split: if_splits)
  next
    case (Some b')
    with assms show ?thesis by (auto simp: en_decide_eq split: if_splits)
  qed
  then show "vars_ok e'" "state_ext (en_state e) (en_state e')" "ss_variable_map (en_state e') = ss_variable_map (en_state e)"
    "en_value e' u = (if u = v then Some b else en_value e u)" by simp_all
qed

lemma clauses_ok_ext:
  "clauses_ok dp e \<Longrightarrow> state_ext (en_state e) (en_state e') \<Longrightarrow> en_root_dependencies e' = en_root_dependencies e \<Longrightarrow>
    en_kinds e' = en_kinds e \<Longrightarrow> clauses_ok dp e'"
  unfolding clauses_ok_def using justified_ext lits_ext by (metis not_None_eq)

lemma trackers_ok_ext:
  assumes "trackers_ok dp s" "state_ext s s'" "ss_at_most_one_trackers s' = ss_at_most_one_trackers s"
    "ss_at_least_one_tracker s' = ss_at_least_one_tracker s"
  shows "trackers_ok dp s'"
  using assms(1) state_extD(1,5) [OF assms(2)] unfolding trackers_ok_def assms(3,4) by fast

lemma run_add_any_of:
  fixes env :: "'c environment" and e :: "'c encoder"
  assumes "vars_ok e" "clauses_ok (ev_provider env) e" "en_origin e a = Some (Origin_AtLeastOne n)"
    "package_origin (ev_provider env) n e v" "en_value e a \<noteq> Some False"
  shows "\<exists>e'. add_any_of a e v = Some e' \<and> vars_ok e' \<and> clauses_ok (ev_provider env) e' \<and>
    state_ext (en_state e) (en_state e') \<and> frame e e' \<and> AnyOf a v \<in> set (en_kinds e') \<and>
    ss_at_most_one_trackers (en_state e') = ss_at_most_one_trackers (en_state e) \<and>
    ss_at_least_one_tracker (en_state e') = ss_at_least_one_tracker (en_state e) \<and>
    ss_variable_map (en_state e') = ss_variable_map (en_state e) \<and>
    (\<forall>u. u \<noteq> a \<longrightarrow> en_value e' u = en_value e u) \<and> en_value e' a \<noteq> Some False"
proof -
  obtain c e1 where e1: "en_clause (WatchedLiterals_any_of a v) e = (c, e1)" by fastforce
  then have e1': "e1 = snd (en_clause (WatchedLiterals_any_of a v) e)" by simp
  have m: "micro env {} 0 e e1" unfolding e1' by (rule run_any_of(1) [OF assms(1,3,4)])
  have k1: "en_kinds e1 = en_kinds e @ [AnyOf a v]" unfolding e1' by (rule run_any_of(3) [OF assms(1,3,4)])
  have f1: "frame e e1" unfolding e1' by (rule frame_basic(2))
  have same: "ss_variable_map (en_state e1) = ss_variable_map (en_state e)" "\<And>u. en_value e1 u = en_value e u"
    unfolding e1' by (simp_all add: en_clause_eq)
  note v1 = micro_vars_ok [OF m assms(1)] and c1 = micro_clauses_ok [OF m assms(2)] and t1 = micro_fields(1,2) [OF m]
    and x1 = enc_extD(1) [OF micro_ext [OF m]]
  show ?thesis
  proof (cases "en_value e1 v = Some True")
    case False
    then have "add_any_of a e v = Some e1" using e1 by (simp add: add_any_of_def)
    with v1 c1 x1 f1 k1 t1 same assms(5) show ?thesis by auto
  next
    case True
    have "en_decide a True c e1 \<noteq> None" using assms(5) same(2) [of a] by (auto simp: en_decide_eq split: option.splits)
    then obtain e2 where e2: "en_decide a True c e1 = Some e2" by blast
    have o: "en_origin e1 a \<noteq> None" using assms(3) same(1) by simp
    note d = decide_vars_ok [OF e2 v1 o]
    have t2: "ss_at_most_one_trackers (en_state e2) = ss_at_most_one_trackers (en_state e1)"
      "ss_at_least_one_tracker (en_state e2) = ss_at_least_one_tracker (en_state e1)" "en_kinds e2 = en_kinds e1"
      "en_root_dependencies e2 = en_root_dependencies e1"
      using e2 by (auto simp: en_decide_eq split: option.splits if_splits)
    have "clauses_ok (ev_provider env) e2" by (rule clauses_ok_ext [OF c1 d(2) t2(4,3)])
    moreover have "add_any_of a e v = Some e2" using e1 e2 True by (simp add: add_any_of_def)
    ultimately show ?thesis
      using d(1,3,4) state_ext_trans [OF x1 d(2)] frame_trans [OF f1 frame_basic(5) [OF e2]] k1 t1 t2 same by auto
  qed
qed

lemma run_add_any_ofs:
  fixes env :: "'c environment" and e :: "'c encoder"
  assumes "vars_ok e" "clauses_ok (ev_provider env) e" "en_origin e a = Some (Origin_AtLeastOne n)"
    "\<forall>v \<in> set vs. package_origin (ev_provider env) n e v" "en_value e a \<noteq> Some False"
  shows "\<exists>e'. fold_opt (add_any_of a) e vs = Some e' \<and> vars_ok e' \<and> clauses_ok (ev_provider env) e' \<and>
    state_ext (en_state e) (en_state e') \<and> frame e e' \<and> (\<forall>v \<in> set vs. AnyOf a v \<in> set (en_kinds e')) \<and>
    ss_at_most_one_trackers (en_state e') = ss_at_most_one_trackers (en_state e) \<and>
    ss_at_least_one_tracker (en_state e') = ss_at_least_one_tracker (en_state e) \<and>
    ss_variable_map (en_state e') = ss_variable_map (en_state e) \<and> (\<forall>u. u \<noteq> a \<longrightarrow> en_value e' u = en_value e u)"
  using assms
proof (induction vs arbitrary: e)
  case (Cons v vs)
  then have "package_origin (ev_provider env) n e v" by simp
  from run_add_any_of [OF Cons.prems(1-3) this Cons.prems(5)] obtain e1 where
    e1: "add_any_of a e v = Some e1" "vars_ok e1" "clauses_ok (ev_provider env) e1" "state_ext (en_state e) (en_state e1)" "frame e e1"
      "AnyOf a v \<in> set (en_kinds e1)" "ss_at_most_one_trackers (en_state e1) = ss_at_most_one_trackers (en_state e)"
      "ss_at_least_one_tracker (en_state e1) = ss_at_least_one_tracker (en_state e)"
      "ss_variable_map (en_state e1) = ss_variable_map (en_state e)" "\<forall>u. u \<noteq> a \<longrightarrow> en_value e1 u = en_value e u" "en_value e1 a \<noteq> Some False"
    by blast
  have "en_origin e1 a = Some (Origin_AtLeastOne n)" "\<forall>v \<in> set vs. package_origin (ev_provider env) n e1 v"
    using Cons.prems(3,4) e1(9) by simp_all
  from Cons.IH [OF e1(2,3) this e1(11)] obtain e2 where
    e2: "fold_opt (add_any_of a) e1 vs = Some e2" "vars_ok e2" "clauses_ok (ev_provider env) e2" "state_ext (en_state e1) (en_state e2)" "frame e1 e2"
      "\<forall>v \<in> set vs. AnyOf a v \<in> set (en_kinds e2)" "ss_at_most_one_trackers (en_state e2) = ss_at_most_one_trackers (en_state e1)"
      "ss_at_least_one_tracker (en_state e2) = ss_at_least_one_tracker (en_state e1)"
      "ss_variable_map (en_state e2) = ss_variable_map (en_state e1)" "\<forall>u. u \<noteq> a \<longrightarrow> en_value e2 u = en_value e1 u"
    by blast
  have "AnyOf a v \<in> set (en_kinds e2)" using e1(6) state_extD(1) [OF e2(4)] by blast
  with e1 e2 state_ext_trans [OF e1(4) e2(4)] frame_trans [OF e1(5) e2(5)] show ?case by simp
qed simp

lemma run_add_at_least_one:
  fixes env :: "'c environment" and e :: "'c encoder"
  assumes "vars_ok e" "clauses_ok (ev_provider env) e" "trackers_ok (ev_provider env) (en_state e)" "alo_with ((n, a) # L) e"
  shows "\<exists>e'. add_at_least_one e (n, a) = Some e' \<and> vars_ok e' \<and> clauses_ok (ev_provider env) e' \<and>
    trackers_ok (ev_provider env) (en_state e') \<and> alo_with L e' \<and> state_ext (en_state e) (en_state e') \<and> frame e e'"
proof -
  let ?dp = "ev_provider env"
  define vs where "vs = (case ss_at_most_one_trackers (en_state e) n of None \<Rightarrow> [] | Some t \<Rightarrow> amo_variables t)"
  have alo: "\<And>m b. en_origin e b = Some (Origin_AtLeastOne m) \<longleftrightarrow> ss_at_least_one_tracker (en_state e) m = Some b \<or> (m, b) \<in> set ((n, a) # L)"
    "\<And>m b b'. en_origin e b = Some (Origin_AtLeastOne m) \<Longrightarrow> en_origin e b' = Some (Origin_AtLeastOne m) \<Longrightarrow> b = b'"
    "distinct (map fst ((n, a) # L))" "\<forall>(m, b) \<in> set ((n, a) # L). en_value e b = None \<and> ss_at_least_one_tracker (en_state e) m = None"
    using assms(4) unfolding alo_with_def by blast+
  have new: "n \<notin> fst ` set L" "distinct (map fst L)" using alo(3) by simp_all
  have free: "en_value e a = None" "ss_at_least_one_tracker (en_state e) n = None"
    "\<forall>(m, b) \<in> set L. en_value e b = None \<and> ss_at_least_one_tracker (en_state e) m = None" using alo(4) by simp_all
  have og: "en_origin e a = Some (Origin_AtLeastOne n)" using alo(1) by simp
  have "\<forall>v \<in> set vs. package_origin ?dp n e v"
  proof (cases "ss_at_most_one_trackers (en_state e) n")
    case (Some t)
    with assms(3) have "\<forall>v \<in> set (amo_variables t). package_origin ?dp n e v" unfolding trackers_ok_def by blast
    with Some show ?thesis by (simp add: vs_def)
  qed (simp add: vs_def)
  from run_add_any_ofs [OF assms(1,2) og this] free(1) obtain e1 where
    e1: "fold_opt (add_any_of a) e vs = Some e1" "vars_ok e1" "clauses_ok ?dp e1" "state_ext (en_state e) (en_state e1)" "frame e e1"
      "\<forall>v \<in> set vs. AnyOf a v \<in> set (en_kinds e1)" "ss_at_most_one_trackers (en_state e1) = ss_at_most_one_trackers (en_state e)"
      "ss_at_least_one_tracker (en_state e1) = ss_at_least_one_tracker (en_state e)"
      "ss_variable_map (en_state e1) = ss_variable_map (en_state e)" "\<forall>u. u \<noteq> a \<longrightarrow> en_value e1 u = en_value e u"
    by auto
  let ?e2 = "on_state (\<lambda>s. s\<lparr>ss_at_least_one_tracker := (ss_at_least_one_tracker s)(n \<mapsto> a)\<rparr>) e1"
  have x2: "state_ext (en_state e1) (en_state ?e2)"
    using free(2) e1(8) by (auto simp: state_ext_def tracked_in_def deferred_set_def map_le_def dom_def)
  have "vars_ok ?e2" using e1(2) by (simp add: vars_ok_def)
  moreover have "clauses_ok ?dp ?e2" by (rule clauses_ok_ext [OF e1(3) x2]) simp_all
  moreover have "trackers_ok ?dp (en_state ?e2)"
  proof -
    have old: "trackers_ok ?dp (en_state e1)" by (rule trackers_ok_ext [OF assms(3) e1(4,7,8)])
    have "AnyOf b v \<in> set (en_kinds e1)" if "ss_at_most_one_trackers (en_state e1) m = Some t"
      "((ss_at_least_one_tracker (en_state e1))(n \<mapsto> a)) m = Some b" "v \<in> set (amo_variables t)" for m t b v
      using that old e1(6,7) by (cases "m = n") (auto simp: trackers_ok_def vs_def split: if_splits)
    with old show ?thesis unfolding trackers_ok_def by fastforce
  qed
  moreover have "alo_with L ?e2"
  proof -
    have na: "b \<noteq> a" if "(m, b) \<in> set L" for m b
      using that alo(1) [of b m] og new(1) by force
    have o: "en_origin e b = Some (Origin_AtLeastOne m) \<longleftrightarrow> ((ss_at_least_one_tracker (en_state e1))(n \<mapsto> a)) m = Some b \<or> (m, b) \<in> set L" for m b
      using alo(1) [of b m] new(1) free(2) e1(8) by (auto simp: image_iff)
    have f: "\<forall>(m, b) \<in> set L. en_value e1 b = None \<and> ((ss_at_least_one_tracker (en_state e1))(n \<mapsto> a)) m = None"
      using new(1) free(3) na e1(8,10) by (fastforce simp: image_iff)
    have eq: "en_origin ?e2 = en_origin e" "en_value ?e2 = en_value e1"
      "ss_at_least_one_tracker (en_state ?e2) = (ss_at_least_one_tracker (en_state e1))(n \<mapsto> a)" using e1(9) by simp_all
    show ?thesis unfolding alo_with_def eq
    proof (intro conjI allI impI)
      fix m b b'
      assume "en_origin e b = Some (Origin_AtLeastOne m)" "en_origin e b' = Some (Origin_AtLeastOne m)"
      then show "b = b'" by (rule alo(2))
    qed (rule o, rule new(2), rule f)
  qed
  moreover have "add_at_least_one e (n, a) = Some ?e2" using e1(1) by (simp add: add_at_least_one_def vs_def)
  moreover have "frame e ?e2" using e1(5) by (simp add: frame_def Let_def)
  ultimately show ?thesis using state_ext_trans [OF e1(4) x2] by blast
qed

lemma run_add_at_least_ones:
  fixes env :: "'c environment" and e :: "'c encoder"
  assumes "vars_ok e" "clauses_ok (ev_provider env) e" "trackers_ok (ev_provider env) (en_state e)" "alo_with L e"
  shows "\<exists>e'. fold_opt add_at_least_one e L = Some e' \<and> vars_ok e' \<and> clauses_ok (ev_provider env) e' \<and>
    trackers_ok (ev_provider env) (en_state e') \<and> alo_with [] e' \<and> state_ext (en_state e) (en_state e') \<and> frame e e'"
  using assms
proof (induction L arbitrary: e)
  case (Cons p L)
  obtain n a where p: "p = (n, a)" by fastforce
  from run_add_at_least_one [OF Cons.prems [unfolded p]] obtain e1 where e1: "add_at_least_one e (n, a) = Some e1" "vars_ok e1"
    "clauses_ok (ev_provider env) e1" "trackers_ok (ev_provider env) (en_state e1)" "alo_with L e1" "state_ext (en_state e) (en_state e1)" "frame e e1"
    by blast
  from Cons.IH [OF e1(2-5)] e1 p state_ext_trans [OF e1(6)] frame_trans [OF e1(7)] show ?case by auto
qed simp

end
