(* ===== verification/Encoder_Correct.thy ===== *)
theory Encoder_Correct
  imports Encoder_Finish
begin

text \<open>
  An encoding as a whole: it ends without a panic whatever the provider answers and in
  whatever order the answers arrive, and what it leaves in the solver state are the
  dependencies of the solvables it was asked to encode.
\<close>

section \<open>The state an encoding leaves\<close>

text \<open>The encoder the solver creates next for the state and the cache this one leaves.\<close>

definition renewed :: "'c encoder \<Rightarrow> 'c encoder" where
  "renewed e = Encoder_new (en_state e) (en_cache e) (en_root_dependencies e) (en_level e)"

lemma renewed_simps [simp]:
  "en_state (renewed e) = en_state e" "en_cache (renewed e) = en_cache e" "en_level (renewed e) = en_level e"
  "en_root_dependencies (renewed e) = en_root_dependencies e" "en_pending_futures (renewed e) = []"
  "en_pending_results (renewed e) = []" "en_pending_forbid_clauses (renewed e) = []" "en_forbid_seen (renewed e) = {}"
  "en_new_at_least_one_packages (renewed e) = []"
  by (simp_all add: renewed_def Encoder_new_def)

lemma awaited_renewed [simp]: "awaited dp (renewed e) = {}" "\<not> cancelled (renewed e)"
  by (simp_all add: awaited_def cancelled_def)

lemma encoder_lists:
  "vars_ok (e\<lparr>en_pending_forbid_clauses := x\<rparr>) = vars_ok e" "alo_ok (e\<lparr>en_pending_forbid_clauses := x\<rparr>) = alo_ok e"
  "clauses_ok dp (e\<lparr>en_pending_forbid_clauses := x\<rparr>) = clauses_ok dp e"
  "vars_ok (e\<lparr>en_new_at_least_one_packages := y\<rparr>) = vars_ok e" "alo_with L (e\<lparr>en_new_at_least_one_packages := y\<rparr>) = alo_with L e"
  "clauses_ok dp (e\<lparr>en_new_at_least_one_packages := y\<rparr>) = clauses_ok dp e"
  "vars_ok (renewed e) = vars_ok e" "alo_ok (renewed e) = alo_with [] e" "clauses_ok dp (renewed e) = clauses_ok dp e"
  by (simp_all add: vars_ok_def alo_ok_def alo_with_def clauses_ok_def)

lemma run_finish:
  assumes "enc_inv env e" "en_pending_results e = []" "en_pending_futures e = []"
  shows "\<exists>e1 e2. add_pending_forbid_clauses e = Some e1 \<and> add_pending_at_least_one_clauses e1 = Some e2 \<and>
    state_ext (en_state e) (en_state e2) \<and> frame e e2 \<and> enc_inv env (renewed e2)"
proof -
  let ?dp = "ev_provider env" and ?e0 = "e\<lparr>en_pending_forbid_clauses := []\<rparr>"
  define ps where "ps = concat (map (\<lambda>(n, vs). map (Pair n) vs) (en_pending_forbid_clauses e))"
  note i = enc_invD [OF assms(1)]
  have ps: "(n, v) \<in> set ps \<longleftrightarrow> (\<exists>vs. (n, vs) \<in> set (en_pending_forbid_clauses e) \<and> v \<in> set vs)" for n v
    by (fastforce simp: ps_def)
  have pk: "\<forall>(n, v) \<in> set ps. package_origin ?dp n e v"
  proof clarify
    fix n v
    assume "(n, v) \<in> set ps"
    then obtain vs where "(n, vs) \<in> set (en_pending_forbid_clauses e)" "v \<in> set vs" using ps by blast
    with i(5) show "package_origin ?dp n e v" by (auto simp: forbids_ok_def)
  qed
  have "fin_inv env ?e0"
    using i(1,2,4,6) by (simp add: fin_inv_def encoder_lists)
  from run_add_forbids [OF this, of ps] pk obtain e1 where
    e1: "fold_opt add_forbid ?e0 ps = Some e1" "fin_inv env e1" "state_ext (en_state e) (en_state e1)" "frame ?e0 e1"
      "\<forall>(n, v) \<in> set ps. v \<in> tracked_in (en_state e1) n" by auto
  let ?e2 = "e1\<lparr>en_new_at_least_one_packages := []\<rparr>" and ?L = "en_new_at_least_one_packages e1"
  have "vars_ok ?e2" "clauses_ok ?dp ?e2" "trackers_ok ?dp (en_state ?e2)" "alo_with ?L ?e2"
    using e1(2) by (simp_all add: fin_inv_def encoder_lists alo_ok_with)
  from run_add_at_least_ones [OF this] obtain e2 where
    e2: "fold_opt add_at_least_one ?e2 ?L = Some e2" "vars_ok e2" "clauses_ok ?dp e2" "trackers_ok ?dp (en_state e2)" "alo_with [] e2"
      "state_ext (en_state e1) (en_state e2)" "frame ?e2 e2" by auto
  have x: "state_ext (en_state e) (en_state e2)" by (rule state_ext_trans [OF e1(3) e2(6)])
  have fr: "frame e e2" using e1(4) e2(7) by (simp add: frame_def Let_def)
  have seen: "v \<in> tracked_in (en_state e2) (pv_solvable_name (dp_interner ?dp) y)"
    if v: "v \<in> en_forbid_seen e" "en_origin e v = Some (Origin_Solvable y)" for v y
  proof -
    from v(1) i(5) obtain n vs where "(n, vs) \<in> set (en_pending_forbid_clauses e)" "v \<in> set vs" by (auto simp: forbids_ok_def)
    with ps have "(n, v) \<in> set ps" by blast
    with pk v(2) e1(5) state_extD(12) [OF e2(6)] show ?thesis by fastforce
  qed
  have links: "links_ok ?dp (renewed e2)"
  proof -
    have tr: "target_registered ?dp (renewed e2) y v" if "target_registered ?dp e y v" "lookup_solvable (ss_variable_map (en_state e)) y = Some v" for y v
      using that seen solvable_variable(2) [OF i(1) that(2)] state_extD(12,16) [OF x] by (auto simp: target_registered_def Let_def)
    have f: "ss_requirement_to_sorted_candidates (en_state e2) = ss_requirement_to_sorted_candidates (en_state e)"
      "ss_constrains_aux_vars (en_state e2) = ss_constrains_aux_vars (en_state e)" "ss_requires_aux_vars (en_state e2) = ss_requires_aux_vars (en_state e)"
      "deferred_set (en_state e2) = deferred_set (en_state e)" "en_root_dependencies e2 = en_root_dependencies e"
      "ss_allow_multiple_names (en_state e2) = ss_allow_multiple_names (en_state e)"
      using fr by (simp_all add: frame_def Let_def deferred_set_def)
    have "vars_of_lists (en_state e2) (sorted_lists ?dp r) vss \<and>
        (\<forall>(x, v) \<in> set (zipped (sorted_lists ?dp r) vss). target_registered ?dp (renewed e2) x v)"
      if "ss_requirement_to_sorted_candidates (en_state e) r = Some vss" for r vss
    proof -
      from that i(3) have old: "vars_of_lists (en_state e) (sorted_lists ?dp r) vss"
        "\<forall>(x, v) \<in> set (zipped (sorted_lists ?dp r) vss). target_registered ?dp e x v" unfolding links_ok_def by blast+
      with vars_of_lists_ext [OF x old(1)] tr zipped_lookup [OF old(1)] show ?thesis by blast
    qed
    moreover have "en_origin e2 a = Some (Origin_ConstrainsViolation vs) \<and> excludes_linked ?dp (en_state e2) vs a"
      if "ss_constrains_aux_vars (en_state e) vs = Some a" for vs a
      using that i(3) excludes_linked_ext [OF x] state_extD(5) [OF x] unfolding links_ok_def by blast
    moreover have "en_origin e2 g = Some (Origin_RequiresGate r) \<and> Requires g None r \<in> set (en_kinds e2)"
      if "ss_requires_aux_vars (en_state e) r = Some g" for r g
      using that i(3) state_extD(1,5) [OF x] unfolding links_ok_def by blast
    moreover have "\<forall>d \<in> deferred_set (en_state e). genuine_deferred ?dp (en_root_dependencies e) d"
      "\<forall>n \<in> ss_allow_multiple_names (en_state e). ca_allow_multiple (candidates_for ?dp n)"
      using i(3) unfolding links_ok_def by blast+
    ultimately show ?thesis unfolding links_ok_def renewed_simps f by blast
  qed
  have "enc_inv env (renewed e2)"
    unfolding enc_inv_def
  proof (intro conjI links)
    show "vars_ok (renewed e2)" "alo_ok (renewed e2)" "clauses_ok ?dp (renewed e2)" using e2(2,3,5) by (simp_all add: encoder_lists)
    show "cache_inv ?dp (en_cache (renewed e2))" "queue_slots (ss_decide_queue (en_state (renewed e2)))"
      using i(7,8) fr by (simp_all add: frame_def Let_def)
  qed (simp_all add: forbids_ok_def e2(4))
  moreover have "add_pending_forbid_clauses e = Some e1" using e1(1) by (simp add: add_pending_forbid_clauses_def ps_def)
  moreover have "add_pending_at_least_one_clauses e1 = Some e2" using e2(1) by (simp add: add_pending_at_least_one_clauses_def)
  ultimately show ?thesis using x fr by blast
qed

lemma obligations_renewed:
  assumes "obligations dp {} e" "en_pending_results e = []" "en_pending_futures e = []" "state_ext (en_state e) (en_state e')" "frame e e'"
  shows "obligations dp {} (renewed e')"
proof -
  have none: "awaited dp e = {}" "\<not> cancelled e" using assms(2,3) by (simp_all add: awaited_def cancelled_def)
  have f: "ss_clauses_added_for_solvable (en_state e') = ss_clauses_added_for_solvable (en_state e)"
    "ss_clauses_added_for_package (en_state e') = ss_clauses_added_for_package (en_state e)" "en_root_dependencies e' = en_root_dependencies e"
    using assms(5) by (simp_all add: frame_def Let_def)
  from assms(1) none have "\<forall>k \<in> ss_clauses_added_for_solvable (en_state e). deps_live dp (en_root_dependencies e) (en_state e) {} k"
    "\<forall>n \<in> ss_clauses_added_for_package (en_state e). package_done dp (en_state e) n"
    by (simp_all add: obligations_def)
  with deps_live_ext [OF assms(4) subset_refl] package_done_ext [OF assms(4)] show ?thesis by (simp add: obligations_def f)
qed

section \<open>An encoding ends\<close>

definition deferred_weight :: "dependency_provider \<Rightarrow> solvable_id deferred_requirement \<Rightarrow> nat" where
  "deferred_weight dp d = package_count dp (dr_requirement d) + 2"

lemma run_deferred:
  assumes "ready env U (deferred_weight (ev_provider env) d) e" "genuine_deferred (ev_provider env) (en_root_dependencies e) d"
  shows "runs env U (deferred_weight (ev_provider env) d) e (queue_deferred_requirement env d e)
    (\<lambda>e'. cancelled e' \<or> task_answer (ev_provider env) (en_root_dependencies e) (Task_Deferred d) \<in> awaited (ev_provider env) e')"
  unfolding queue_deferred_requirement_def deferred_weight_def
proof (rule runs_bind [OF assms(1) [unfolded deferred_weight_def] run_packages [OF ready_less [OF assms(1)]]])
  fix e1
  assume e1: "ready env U 2 e1" "enc_ext (ev_provider env) e e1"
  have root: "en_root_dependencies e1 = en_root_dependencies e" by (rule enc_extD(2) [OF e1(2)])
  let ?cnf = "map DeferredConjunct_version_set (dr_disjunct d)"
  have g: "genuine (ev_provider env) (en_root_dependencies e1) (task_answer (ev_provider env) (en_root_dependencies e1) (Task_Deferred d))"
    using assms(2) root by (auto simp: genuine_deferred_def genuine_condition_def comp_def intro!: exI [of _ "[?cnf]"])
  show "runs env U 2 e1 (queue_future env (Task_Deferred d) e1)
    (\<lambda>e'. cancelled e' \<or> task_answer (ev_provider env) (en_root_dependencies e) (Task_Deferred d) \<in> awaited (ev_provider env) e')"
    using run_future [OF e1(1) g] unfolding root by (simp add: requirement_weight_def)
qed (simp add: deferred_weight_def)

text \<open>What the queue asks for at the start.\<close>

lemma run_start:
  assumes "ready env U (sum_list (map (deferred_weight (ev_provider env)) ds)) e" "set ks \<subseteq> insert Root (Solvable ` U)"
    "\<forall>d \<in> set ds. genuine_deferred (ev_provider env) (en_root_dependencies e) d"
  shows "runs env U (sum_list (map (deferred_weight (ev_provider env)) ds)) e
    (Option.bind (fold_opt (\<lambda>e k. queue_solvable env k e) e ks) (\<lambda>e1. fold_opt (\<lambda>e d. queue_deferred_requirement env d e) e1 ds))
    (\<lambda>e'. set ks \<subseteq> ss_clauses_added_for_solvable (en_state e') \<and> (cancelled e' \<or>
      (\<forall>d \<in> set ds. task_answer (ev_provider env) (en_root_dependencies e) (Task_Deferred d) \<in> awaited (ev_provider env) e')))"
proof -
  let ?dp = "ev_provider env" and ?w = "sum_list (map (deferred_weight (ev_provider env)) ds)"
  let ?P = "\<lambda>k e. k \<in> ss_clauses_added_for_solvable (en_state e)"
  let ?Q = "\<lambda>d e'. cancelled e' \<or> task_answer ?dp (en_root_dependencies e) (Task_Deferred d) \<in> awaited ?dp e'"
  have zero: "sum_list (map (\<lambda>_. 0 :: nat) ks) = 0" by (simp add: sum_list_triv)
  have first: "runs env U 0 e (fold_opt (\<lambda>e k. queue_solvable env k e) e ks) (\<lambda>e'. \<forall>k \<in> set ks. ?P k e')"
  proof -
    have "runs env U (sum_list (map (\<lambda>_. 0) ks)) e (fold_opt (\<lambda>e k. queue_solvable env k e) e ks) (\<lambda>e'. (\<forall>k \<in> set ks. ?P k e') \<and> True)"
    proof (rule runs_fold [OF _ TrueI])
      show "ready env U (sum_list (map (\<lambda>_. 0) ks)) e" unfolding zero by (rule ready_less [OF assms(1)]) simp
      fix k e1
      assume "k \<in> set ks" "ready env U 0 e1"
      with run_queue_solvable [of env U 0 e1 k] assms(2) show "runs env U 0 e1 (queue_solvable env k e1) (\<lambda>e2. ?P k e2 \<and> True)" by auto
    next
      fix k and e1 e2 :: "'a encoder"
      assume "enc_ext ?dp e1 e2"
      from state_extD(14) [OF enc_extD(1) [OF this]] show "?P k e1 \<Longrightarrow> ?P k e2" .
    qed
    then show ?thesis unfolding zero by simp
  qed
  have "runs env U (0 + ?w) e (Option.bind (fold_opt (\<lambda>e k. queue_solvable env k e) e ks)
      (\<lambda>e1. fold_opt (\<lambda>e d. queue_deferred_requirement env d e) e1 ds)) (\<lambda>e'. (\<forall>k \<in> set ks. ?P k e') \<and> (\<forall>d \<in> set ds. ?Q d e'))"
  proof (rule runs_bind [OF _ first])
    show "ready env U (0 + ?w) e" using assms(1) by simp
    fix e1
    assume e1: "ready env U ?w e1" "enc_ext ?dp e e1" "\<forall>k \<in> set ks. ?P k e1"
    have "runs env U ?w e1 (fold_opt (\<lambda>e d. queue_deferred_requirement env d e) e1 ds) (\<lambda>e'. (\<forall>d \<in> set ds. ?Q d e') \<and> True)"
    proof (rule runs_fold [OF e1(1) TrueI])
      fix d e2
      assume d: "d \<in> set ds" "ready env U (deferred_weight ?dp d) e2" "enc_ext ?dp e1 e2"
      have "en_root_dependencies e2 = en_root_dependencies e" by (rule enc_extD(2) [OF enc_ext_trans [OF e1(2) d(3)]])
      with run_deferred [OF d(2)] assms(3) d(1)
      show "runs env U (deferred_weight ?dp d) e2 (queue_deferred_requirement env d e2) (\<lambda>e2. ?Q d e2 \<and> True)" by simp
    next
      fix d and e2 e3 :: "'a encoder"
      assume "enc_ext ?dp e2 e3"
      from enc_extD(6,7) [OF this] show "?Q d e2 \<Longrightarrow> ?Q d e3" by blast
    qed
    then show "runs env U ?w e1 (fold_opt (\<lambda>e d. queue_deferred_requirement env d e) e1 ds) (\<lambda>e'. (\<forall>k \<in> set ks. ?P k e') \<and> (\<forall>d \<in> set ds. ?Q d e'))"
    proof (rule runs_weaken)
      fix e2
      assume "enc_ext ?dp e1 e2" "(\<forall>d \<in> set ds. ?Q d e2) \<and> True"
      with e1(3) state_extD(14) [OF enc_extD(1)] show "(\<forall>k \<in> set ks. ?P k e2) \<and> (\<forall>d \<in> set ds. ?Q d e2)" by blast
    qed simp
  qed
  then show ?thesis by (rule runs_weaken) auto
qed

text \<open>
  A state of the solver an encoder can start from: the tables and clauses agree with the
  provider, and all that was asked for before is encoded, apart from the deferred entries
  \<open>ds\<close> the solver takes out of its table and hands to the encoder.
\<close>

definition encodable :: "'c environment \<Rightarrow> solvable_id deferred_requirement list \<Rightarrow> 'c encoder \<Rightarrow> bool" where
  "encodable env ds e \<longleftrightarrow> e = renewed e \<and> enc_inv env e \<and>
     obligations (ev_provider env) ((\<lambda>d. task_answer (ev_provider env) (en_root_dependencies e) (Task_Deferred d)) ` set ds) e \<and>
     (\<forall>d \<in> set ds. genuine_deferred (ev_provider env) (en_root_dependencies e) d)"

lemma obligations_awaited: "obligations dp X e \<Longrightarrow> cancelled e \<or> X \<subseteq> awaited dp e \<Longrightarrow> obligations dp {} e"
  unfolding obligations_def by (metis Un_absorb2 Un_empty_right)

lemma encode_effect:
  assumes "provider_ok (ev_provider env) U" "encodable env ds e" "set ks \<subseteq> insert Root (Solvable ` U)"
    "work (ev_provider env) U e + sum_list (map (deferred_weight (ev_provider env)) ds) \<le> 2 ^ 32 - 1"
  shows "\<exists>r e'. encode_with_deferred env ks ds e = Some (r, e') \<and> (\<forall>v. r = Inl v \<longrightarrow> (\<exists>j. ev_cancel env j = Some v)) \<and>
    (\<forall>cs. r = Inr cs \<longrightarrow> encodable env [] (renewed e') \<and> state_ext (en_state e) (en_state e') \<and>
      en_root_dependencies e' = en_root_dependencies e \<and> set ks \<subseteq> ss_clauses_added_for_solvable (en_state e'))"
proof -
  let ?dp = "ev_provider env" and ?w = "sum_list (map (deferred_weight (ev_provider env)) ds)"
  let ?X = "(\<lambda>d. task_answer ?dp (en_root_dependencies e) (Task_Deferred d)) ` set ds"
  have en: "e = renewed e" "enc_inv env e" "obligations ?dp ?X e" "\<forall>d \<in> set ds. genuine_deferred ?dp (en_root_dependencies e) d"
    using assms(2) by (auto simp: encodable_def)
  have rd: "ready env U ?w e" using assms(1,4) en(2) by (simp add: ready_def)
  from run_start [OF rd assms(3) en(4)] obtain e2 n where
    e2: "Option.bind (fold_opt (\<lambda>e k. queue_solvable env k e) e ks) (\<lambda>e1. fold_opt (\<lambda>e d. queue_deferred_requirement env d e) e1 ds) = Some e2"
      "n \<le> ?w" "steps env U n e e2" "set ks \<subseteq> ss_clauses_added_for_solvable (en_state e2)" "cancelled e2 \<or> ?X \<subseteq> awaited ?dp e2"
    by (fastforce simp: runs_def)
  note p = provider_okD(1,2) [OF assms(1)]
  have i2: "enc_inv env e2" "work ?dp U e2 \<le> 2 ^ 32 - 1" using steps_inv [OF e2(3) en(2) p(2,1)] e2(2) assms(4) by auto
  have o2: "obligations ?dp {} e2" by (rule obligations_awaited [OF steps_obligations [OF e2(3) en(2) p(2,1) en(3)] e2(5)])
  have "cancels_ok env e" by (subst en(1)) (simp add: cancels_ok_def)
  then have c2: "cancels_ok env e2" by (rule steps_cancels [OF e2(3) en(2) p(2,1)])
  from encode_loop_ends [OF assms(1) i2 o2 c2] obtain r e3 where
    e3: "encode_loop env e2 = Some (r, e3)" "\<forall>v. r = Inl v \<longrightarrow> (\<exists>j. ev_cancel env j = Some v)"
      "r = Inr () \<longrightarrow> enc_inv env e3 \<and> obligations ?dp {} e3 \<and> advances e2 e3 \<and> en_pending_results e3 = [] \<and> en_pending_futures e3 = []"
    by blast
  have unfold: "encode_with_deferred env ks ds e = (case r of Inl v \<Rightarrow> Some (Inl v, e3)
      | Inr _ \<Rightarrow> Option.bind (add_pending_forbid_clauses e3) (\<lambda>e4. Option.bind (add_pending_at_least_one_clauses e4)
          (\<lambda>e5. Some (Inr (en_conflicting_clauses e5), e5))))"
  proof -
    obtain e1 where "fold_opt (\<lambda>e k. queue_solvable env k e) e ks = Some e1" "fold_opt (\<lambda>e d. queue_deferred_requirement env d e) e1 ds = Some e2"
      using e2(1) by (auto simp: bind_eq_Some_conv)
    with e3(1) show ?thesis by (simp add: encode_with_deferred_def)
  qed
  show ?thesis
  proof (cases r)
    case (Inl v)
    with e3(2) show ?thesis unfolding unfold by auto
  next
    case (Inr u)
    with e3(3) have i3: "enc_inv env e3" "obligations ?dp {} e3" "advances e2 e3" "en_pending_results e3 = []" "en_pending_futures e3 = []" by auto
    obtain e4 e5 where e5: "add_pending_forbid_clauses e3 = Some e4" "add_pending_at_least_one_clauses e4 = Some e5"
      "state_ext (en_state e3) (en_state e5)" "frame e3 e5" "enc_inv env (renewed e5)"
      using run_finish [OF i3(1,4,5)] by blast
    have "obligations ?dp {} (renewed e5)" by (rule obligations_renewed [OF i3(2,4,5) e5(3,4)])
    with e5(5) have "encodable env [] (renewed e5)" by (simp add: encodable_def renewed_def Encoder_new_def)
    moreover have x2: "state_ext (en_state e2) (en_state e5)"
      using state_ext_trans [OF _ e5(3)] i3(3) by (simp add: advances_def)
    moreover have "state_ext (en_state e) (en_state e5)" by (rule state_ext_trans [OF enc_extD(1) [OF steps_ext [OF e2(3)]] x2])
    moreover have "en_root_dependencies e5 = en_root_dependencies e"
      using enc_extD(2) [OF steps_ext [OF e2(3)]] i3(3) e5(4) by (simp add: advances_def frame_def)
    moreover have "set ks \<subseteq> ss_clauses_added_for_solvable (en_state e5)" using e2(4) state_extD(14) [OF x2] by blast
    ultimately show ?thesis unfolding unfold Inr using e5(1,2) by simp
  qed
qed

end
