(* ===== verification/Encoder_Meaning.thy ===== *)
theory Encoder_Meaning
  imports Encoder_Correct
begin

text \<open>
  What the clauses say. A valuation that satisfies the clauses an encoding leaves selects
  solvables whose dependencies it meets: the specification below speaks of the provider's
  answers and of the selected solvables only.
\<close>

section \<open>The specification\<close>

definition picked :: "solver_state \<Rightarrow> valuation \<Rightarrow> solvable_id set" where
  "picked s M = {x. \<exists>v. lookup_solvable (ss_variable_map s) x = Some v \<and> M v}"

definition selected :: "solver_state \<Rightarrow> valuation \<Rightarrow> solvable_or_root \<Rightarrow> bool" where
  "selected s M k \<longleftrightarrow> (\<exists>v. var_of s k = Some v \<and> M v)"

abbreviation candidates_of :: "dependency_provider \<Rightarrow> requirement \<Rightarrow> solvable_id set" where
  "candidates_of dp r \<equiv> set (concat (sorted_lists dp r))"

text \<open>
  A version set of a condition holds when a candidate of its package that takes part in the
  at-most-one encoding is selected, and none the version set rejects.
\<close>

definition condition_met :: "dependency_provider \<Rightarrow> solver_state \<Rightarrow> valuation \<Rightarrow> version_set_id \<Rightarrow> bool" where
  "condition_met dp s M vs \<longleftrightarrow> (\<exists>v \<in> tracked_in s (pv_version_set_name (dp_interner dp) vs). M v) \<and>
     set (non_matching_for dp vs) \<inter> picked s M = {}"

definition requirement_met :: "dependency_provider \<Rightarrow> solver_state \<Rightarrow> valuation \<Rightarrow> solvable_or_root \<Rightarrow> conditional_requirement \<Rightarrow> bool" where
  "requirement_met dp s M k req \<longleftrightarrow> (case cr_condition req of
     None \<Rightarrow> candidates_of dp (cr_requirement req) \<inter> picked s M \<noteq> {}
   | Some c \<Rightarrow> \<forall>cnf \<in> set (dnf_for dp c). (\<forall>vs \<in> set cnf. condition_met dp s M vs) \<longrightarrow>
       (\<exists>d \<in> deferred_set s. entry_for d k req c cnf) \<or> candidates_of dp (cr_requirement req) \<inter> picked s M \<noteq> {})"

definition dependencies_met :: "dependency_provider \<Rightarrow> dependencies \<Rightarrow> solver_state \<Rightarrow> valuation \<Rightarrow> solvable_or_root \<Rightarrow> bool" where
  "dependencies_met dp root s M k \<longleftrightarrow> (case deps_of dp root k of
     Unknown _ \<Rightarrow> False
   | Known d \<Rightarrow> (\<forall>req \<in> set (kd_requirements d). requirement_met dp s M k req) \<and>
       (\<forall>vs \<in> set (kd_constrains d). set (non_matching_for dp vs) \<inter> picked s M = {}))"

definition package_met :: "dependency_provider \<Rightarrow> solver_state \<Rightarrow> valuation \<Rightarrow> name_id \<Rightarrow> bool" where
  "package_met dp s M n \<longleftrightarrow>
     (\<forall>a. ca_locked (candidates_for dp n) = Some a \<longrightarrow> set (ca_candidates (candidates_for dp n)) \<inter> picked s M \<subseteq> {a}) \<and>
     fst ` set (ca_excluded (candidates_for dp n)) \<inter> picked s M = {}"

section \<open>Clauses\<close>

lemma models_clause:
  assumes "models M s" "k \<in> set (ss_kinds s)" "lits s k = Some ls"
  shows "\<exists>l \<in> set ls. lit_true M l"
proof -
  from assms(2) obtain c where "c < length (ss_kinds s)" "kind_of s c = k" by (metis in_set_conv_nth)
  with assms(1,3) show ?thesis by (auto simp: models_def clause_holds_def clause_true_def)
qed

lemma models_binary:
  assumes "models M s"
  shows "Excluded v reason \<in> set (ss_kinds s) \<Longrightarrow> \<not> M v"
    "Lock u w \<in> set (ss_kinds s) \<Longrightarrow> M 0 \<Longrightarrow> \<not> M w"
    "Constrains v w vs \<in> set (ss_kinds s) \<Longrightarrow> M v \<Longrightarrow> \<not> M w"
    "ConstrainsExcluded w a vs \<in> set (ss_kinds s) \<Longrightarrow> M w \<Longrightarrow> M a"
    "ConstrainsParent v a vs \<in> set (ss_kinds s) \<Longrightarrow> M v \<Longrightarrow> \<not> M a"
    "AnyOf g v \<in> set (ss_kinds s) \<Longrightarrow> M v \<Longrightarrow> M g"
    "ForbidMultipleInstances v (sign_lit h b) n \<in> set (ss_kinds s) \<Longrightarrow> M v \<Longrightarrow> M h = b"
  using models_clause [OF assms] by (fastforce simp: lits_def sign_lit_def split: if_splits)+

lemma models_requires:
  assumes "models M s" "Requires v d r \<in> set (ss_kinds s)" "M v" "ss_requirement_to_sorted_candidates s r = Some vss"
    "disjunction_literals (ss_disjunctions s) d = Some ls" "vars_of_lists s (sorted_lists dp r) vss"
  shows "(\<exists>l \<in> set ls. lit_true M l) \<or> candidates_of dp r \<inter> picked s M \<noteq> {}"
proof -
  have "lits s (Requires v d r) = Some (negative v # ls @ map positive (concat vss))" using assms(4,5) by (simp add: lits_def)
  from models_clause [OF assms(1,2) this] assms(3) have "(\<exists>l \<in> set ls. lit_true M l) \<or> (\<exists>w \<in> set (concat vss). M w)" by auto
  moreover have "candidates_of dp r \<inter> picked s M \<noteq> {}" if w: "w \<in> set (concat vss)" "M w" for w
  proof -
    from w(1) obtain vs where vs: "vs \<in> set vss" "w \<in> set vs" by auto
    from list_all2_partner(1) [OF assms(6) [unfolded vars_of_lists_def] vs(1)] obtain xs where
      xs: "xs \<in> set (sorted_lists dp r)" "list_all2 (\<lambda>x v. lookup_solvable (ss_variable_map s) x = Some v) xs vs" by blast
    from list_all2_partner(1) [OF xs(2) vs(2)] obtain x where "x \<in> set xs" "lookup_solvable (ss_variable_map s) x = Some w" by blast
    with xs(1) w(2) show ?thesis by (auto simp: picked_def)
  qed
  ultimately show ?thesis by blast
qed

section \<open>Soundness\<close>

lemma requires_done_met:
  assumes "models M s" "requires_done s k r d" "selected s M k" "links_ok dp e" "en_state e = s"
    "disjunction_literals (ss_disjunctions s) d = Some ls"
  shows "(\<exists>l \<in> set ls. lit_true M l) \<or> candidates_of dp r \<inter> picked s M \<noteq> {}"
proof -
  from assms(2) obtain vss where vss: "ss_requirement_to_sorted_candidates s r = Some vss" by (auto simp: requires_done_def)
  with assms(4,5) have vl: "vars_of_lists s (sorted_lists dp r) vss" by (auto simp: links_ok_def)
  from assms(2,3) obtain v where v: "M v" "Requires v d r \<in> set (ss_kinds s) \<or>
      d = None \<and> (\<exists>g. ss_requires_aux_vars s r = Some g \<and> AnyOf g v \<in> set (ss_kinds s))"
    by (auto simp: requires_done_def selected_def)
  from v(2) show ?thesis
  proof (elim disjE conjE exE)
    assume "Requires v d r \<in> set (ss_kinds s)"
    from models_requires [OF assms(1) this v(1) vss assms(6) vl] show ?thesis .
  next
    fix g
    assume g: "d = None" "ss_requires_aux_vars s r = Some g" "AnyOf g v \<in> set (ss_kinds s)"
    have "M g" by (rule models_binary(6) [OF assms(1) g(3) v(1)])
    moreover have "Requires g None r \<in> set (ss_kinds s)" using assms(4,5) g(2) by (auto simp: links_ok_def)
    ultimately show ?thesis using models_requires [OF assms(1) _ _ vss assms(6) vl] g(1) by blast
  qed
qed

lemma trackers_at_most_one:
  assumes "models M s" "trackers_ok dp s" "v \<in> tracked_in s n" "w \<in> tracked_in s n" "M v" "M w"
  shows "v = w"
proof -
  from assms(3) obtain t where t: "ss_at_most_one_trackers s n = Some t" "v \<in> set (amo_variables t)" by (auto simp: tracked_in_def split: option.splits)
  have w: "w \<in> set (amo_variables t)" using assms(4) t(1) by (simp add: tracked_in_def)
  from assms(2) t(1) have inv: "amo_inv t" "\<forall>(a, h, b) \<in> amo_clauses t. ForbidMultipleInstances a (sign_lit h b) n \<in> set (ss_kinds s)"
    by (auto simp: trackers_ok_def)
  then have "satisfies_amo M (amo_clauses t)" using models_binary(7) [OF assms(1)] by (fastforce simp: satisfies_amo_def)
  from amo_sound [OF inv(1) this t(2) w assms(5,6)] show ?thesis .
qed

lemma condition_not_refuted:
  assumes "models M (en_state e)" "alo_ok e" "en_new_at_least_one_packages e = []" "trackers_ok dp (en_state e)"
    "disjunct_lits dp (en_state e) cnf ls" "\<forall>vs \<in> set cnf. condition_met dp (en_state e) M vs" "l \<in> set ls"
  shows "\<not> lit_true M l"
proof -
  let ?s = "en_state e"
  obtain lss where lss: "ls = concat lss" "list_all2 (complement_lits dp ?s) cnf lss" using assms(5) by (auto simp: disjunct_lits_def)
  from assms(7) lss(1) obtain xs where xs: "xs \<in> set lss" "l \<in> set xs" by auto
  from list_all2_partner(1) [OF lss(2) xs(1)] obtain vs where vs: "vs \<in> set cnf" "complement_lits dp ?s vs xs" by blast
  let ?n = "pv_version_set_name (dp_interner dp) vs"
  have met: "\<exists>v \<in> tracked_in ?s ?n. M v" "set (non_matching_for dp vs) \<inter> picked ?s M = {}"
    using assms(6) vs(1) by (simp_all add: condition_met_def)
  show ?thesis
  proof (cases "non_matching_for dp vs = []")
    case True
    with vs(2) xs(2) obtain a where a: "l = negative a" "origin_of ?s a = Some (Origin_AtLeastOne ?n)"
      by (auto simp: complement_lits_def)
    then have tr: "ss_at_least_one_tracker ?s ?n = Some a" using assms(2,3) unfolding alo_ok_def by simp
    from met(1) obtain v where v: "v \<in> tracked_in ?s ?n" "M v" by blast
    then obtain t where "ss_at_most_one_trackers ?s ?n = Some t" "v \<in> set (amo_variables t)"
      by (auto simp: tracked_in_def split: option.splits)
    with assms(4) tr have "AnyOf a v \<in> set (ss_kinds ?s)" by (auto simp: trackers_ok_def)
    from models_binary(6) [OF assms(1) this v(2)] a(1) show ?thesis by simp
  next
    case False
    with vs(2) have "list_all2 (\<lambda>x l. \<exists>v. lookup_solvable (ss_variable_map ?s) x = Some v \<and> l = positive v) (non_matching_for dp vs) xs"
      by (simp add: complement_lits_def)
    from list_all2_partner(1) [OF this xs(2)] obtain x v where "x \<in> set (non_matching_for dp vs)"
      "lookup_solvable (ss_variable_map ?s) x = Some v" "l = positive v" by blast
    with met(2) show ?thesis by (auto simp: picked_def)
  qed
qed

lemma nonmatching_unpicked:
  assumes "models M s" "constraint_done dp s k vs" "selected s M k" "links_ok dp e" "en_state e = s"
  shows "set (non_matching_for dp vs) \<inter> picked s M = {}"
proof -
  from assms(2,3) obtain v where v: "M v"
    "(\<forall>c \<in> set (non_matching_for dp vs). \<exists>w. var_of s (Solvable c) = Some w \<and> Constrains v w vs \<in> set (ss_kinds s)) \<or>
     (\<exists>a. ss_constrains_aux_vars s vs = Some a \<and> ConstrainsParent v a vs \<in> set (ss_kinds s))"
    by (auto simp: constraint_done_def selected_def)
  have "\<not> M w" if c: "c \<in> set (non_matching_for dp vs)" "lookup_solvable (ss_variable_map s) c = Some w" for c w
    using v(2)
  proof (elim disjE exE conjE)
    assume "\<forall>c \<in> set (non_matching_for dp vs). \<exists>w. var_of s (Solvable c) = Some w \<and> Constrains v w vs \<in> set (ss_kinds s)"
    with c have "Constrains v w vs \<in> set (ss_kinds s)" by fastforce
    from models_binary(3) [OF assms(1) this v(1)] show ?thesis .
  next
    fix a
    assume a: "ss_constrains_aux_vars s vs = Some a" "ConstrainsParent v a vs \<in> set (ss_kinds s)"
    have "excludes_linked dp s vs a" using assms(4,5) a(1) by (auto simp: links_ok_def)
    with c have "ConstrainsExcluded w a vs \<in> set (ss_kinds s)" unfolding excludes_linked_def by fastforce
    then show ?thesis using models_binary(4,5) [OF assms(1)] a(2) v(1) by blast
  qed
  then show ?thesis by (auto simp: picked_def)
qed

lemma excluded_unpicked:
  assumes "models M s" "excluded_done s k reason"
  shows "\<not> selected s M k"
  using assms(2) models_binary(1) [OF assms(1)] by (auto simp: excluded_done_def selected_def)

lemma encodable_obligations:
  assumes "encodable env [] e"
  shows "enc_inv env e" "en_new_at_least_one_packages e = []"
    "k \<in> ss_clauses_added_for_solvable (en_state e) \<Longrightarrow> deps_live (ev_provider env) (en_root_dependencies e) (en_state e) {} k"
    "n \<in> ss_clauses_added_for_package (en_state e) \<Longrightarrow> package_done (ev_provider env) (en_state e) n"
proof -
  from assms have e: "e = renewed e" "enc_inv env e" "obligations (ev_provider env) {} e" by (simp_all add: encodable_def)
  have none: "awaited (ev_provider env) e = {}" "\<not> cancelled e" by (subst e(1), simp)+
  show "enc_inv env e" by (rule e(2))
  show "en_new_at_least_one_packages e = []" by (subst e(1)) simp
  show "deps_live (ev_provider env) (en_root_dependencies e) (en_state e) {} k" if "k \<in> ss_clauses_added_for_solvable (en_state e)"
    using e(3) none that by (simp add: obligations_def)
  show "package_done (ev_provider env) (en_state e) n" if "n \<in> ss_clauses_added_for_package (en_state e)"
    using e(3) none that by (simp add: obligations_def)
qed

lemma encoded_dependencies:
  assumes "encodable env [] e" "models M (en_state e)" "k \<in> ss_clauses_added_for_solvable (en_state e)" "selected (en_state e) M k"
  shows "dependencies_met (ev_provider env) (en_root_dependencies e) (en_state e) M k"
proof -
  let ?dp = "ev_provider env" and ?root = "en_root_dependencies e" and ?s = "en_state e"
  note en = encodable_obligations [OF assms(1)] and inv = enc_invD [OF encodable_obligations(1) [OF assms(1)]]
  have live: "deps_live ?dp ?root ?s {} k" by (rule en(3) [OF assms(3)])
  show ?thesis
  proof (cases "deps_of ?dp ?root k")
    case (Unknown reason)
    with live excluded_unpicked [OF assms(2)] assms(4) show ?thesis by (auto simp: deps_live_def)
  next
    case (Known d)
    from live have reqs: "\<forall>req \<in> set (kd_requirements d). requirement_live ?dp ?s {} k req"
      and cons: "\<forall>vs \<in> set (kd_constrains d). constraint_done ?dp ?s k vs" unfolding deps_live_def Known by auto
    have "requirement_met ?dp ?s M k req" if req: "req \<in> set (kd_requirements d)" for req
    proof (cases "cr_condition req")
      case None
      with reqs req have "requires_done ?s k (cr_requirement req) None" by (auto simp: requirement_live_def)
      from requires_done_met [OF assms(2) this assms(4) inv(3) refl, of "[]"] None show ?thesis
        by (simp add: requirement_met_def disjunction_literals_def)
    next
      case (Some c)
      have "(\<exists>d \<in> deferred_set ?s. entry_for d k req c cnf) \<or> candidates_of ?dp (cr_requirement req) \<inter> picked ?s M \<noteq> {}"
        if cnf: "cnf \<in> set (dnf_for ?dp c)" "\<forall>vs \<in> set cnf. condition_met ?dp ?s M vs" for cnf
      proof -
        from reqs req cnf(1) Some have "cnf_live ?dp ?s {} k req c cnf" by (auto simp: requirement_live_def)
        then consider (deferred) "\<exists>d \<in> deferred_set ?s. entry_for d k req c cnf" | (encoded) "disjunct_done ?dp ?s k (cr_requirement req) cnf"
          by (auto simp: cnf_live_def)
        then show ?thesis
        proof cases
          case encoded
          then obtain i where i: "i < length (ss_disjunctions ?s)" "requires_done ?s k (cr_requirement req) (Some i)"
            "disjunct_lits ?dp ?s cnf (dj_literals (ss_disjunctions ?s ! i))" by (auto simp: disjunct_done_def)
          have dl: "disjunction_literals (ss_disjunctions ?s) (Some i) = Some (dj_literals (ss_disjunctions ?s ! i))"
            using i(1) by (simp add: disjunction_literals_def slice_get_def)
          from requires_done_met [OF assms(2) i(2) assms(4) inv(3) refl dl]
            condition_not_refuted [OF assms(2) inv(2) en(2) inv(6) i(3) cnf(2)] show ?thesis by blast
        qed blast
      qed
      with Some show ?thesis by (simp add: requirement_met_def)
    qed
    moreover have "set (non_matching_for ?dp vs) \<inter> picked ?s M = {}" if "vs \<in> set (kd_constrains d)" for vs
      using nonmatching_unpicked [OF assms(2) _ assms(4) inv(3) refl] cons that by blast
    ultimately show ?thesis by (simp add: dependencies_met_def Known)
  qed
qed

lemma encoded_package:
  assumes "encodable env [] e" "models M (en_state e)" "M 0" "n \<in> ss_clauses_added_for_package (en_state e)"
  shows "package_met (ev_provider env) (en_state e) M n"
proof -
  let ?dp = "ev_provider env" and ?s = "en_state e"
  have pd: "package_done ?dp ?s n" by (rule encodable_obligations(4) [OF assms(1,4)])
  have "b = a" if a: "ca_locked (candidates_for ?dp n) = Some a" "b \<in> set (ca_candidates (candidates_for ?dp n))" "b \<in> picked ?s M" for a b
  proof (rule ccontr)
    assume "b \<noteq> a"
    with pd a(1,2) obtain u w where w: "var_of ?s (Solvable b) = Some w" "Lock u w \<in> set (ss_kinds ?s)" by (fastforce simp: package_done_def)
    with models_binary(2) [OF assms(2) w(2) assms(3)] a(3) show False by (auto simp: picked_def)
  qed
  moreover have "x \<notin> picked ?s M" if x: "(x, reason) \<in> set (ca_excluded (candidates_for ?dp n))" for x reason
  proof -
    have "excluded_done ?s (Solvable x) reason" using pd x unfolding package_done_def by blast
    from excluded_unpicked [OF assms(2) this] show ?thesis by (auto simp: picked_def selected_def)
  qed
  ultimately show ?thesis unfolding package_met_def by force
qed

text \<open>The candidates of the requirements that are encoded.\<close>

definition encoded_candidates :: "dependency_provider \<Rightarrow> solver_state \<Rightarrow> solvable_id set" where
  "encoded_candidates dp s = (\<Union>r \<in> dom (ss_requirement_to_sorted_candidates s). candidates_of dp r)"

lemma zip_partner: "list_all2 P xs vs \<Longrightarrow> z \<in> set xs \<Longrightarrow> \<exists>v. (z, v) \<in> set (zip xs vs)"
  by (induction rule: list_all2_induct) auto

lemma zipped_partner:
  "list_all2 (list_all2 P) xss vss \<Longrightarrow> z \<in> set (concat xss) \<Longrightarrow> \<exists>v. (z, v) \<in> set (zipped xss vss)"
proof (induction rule: list_all2_induct)
  case (Cons xs xss vs vss)
  have "\<exists>v. (z, v) \<in> set (zip xs vs) \<union> set (zipped xss vss)"
    using zip_partner [OF Cons.hyps(1), of z] Cons.IH Cons.prems by auto
  then show ?case by (simp add: zipped_def)
qed simp

lemma encoded_exclusive:
  assumes "encodable env [] e" "models M (en_state e)"
    "x \<in> encoded_candidates (ev_provider env) (en_state e) \<inter> picked (en_state e) M"
    "y \<in> encoded_candidates (ev_provider env) (en_state e) \<inter> picked (en_state e) M"
    "pv_solvable_name (ev_interner env) x = n" "pv_solvable_name (ev_interner env) y = n"
    "\<not> ca_allow_multiple (candidates_for (ev_provider env) n)"
  shows "x = y"
proof -
  let ?dp = "ev_provider env" and ?s = "en_state e"
  note inv = enc_invD [OF encodable_obligations(1) [OF assms(1)]]
  have seen: "en_forbid_seen e = {}" using assms(1) by (metis encodable_def renewed_simps(8))
  have multi: "n \<notin> ss_allow_multiple_names ?s" using inv(3) assms(7) by (auto simp: links_ok_def)
  have tracked: "\<exists>v \<in> tracked_in ?s n. lookup_solvable (ss_variable_map ?s) z = Some v \<and> M v"
    if z: "z \<in> encoded_candidates ?dp ?s \<inter> picked ?s M" "pv_solvable_name (ev_interner env) z = n" for z
  proof -
    from z(1) obtain r vss where r: "ss_requirement_to_sorted_candidates ?s r = Some vss" "z \<in> candidates_of ?dp r"
      by (auto simp: encoded_candidates_def)
    from inv(3) r(1) have l: "vars_of_lists ?s (sorted_lists ?dp r) vss"
      "\<forall>(x, v) \<in> set (zipped (sorted_lists ?dp r) vss). target_registered ?dp e x v" unfolding links_ok_def by blast+
    from zipped_partner [OF l(1) [unfolded vars_of_lists_def] r(2)] obtain v where v: "(z, v) \<in> set (zipped (sorted_lists ?dp r) vss)" by blast
    from zipped_lookup [OF l(1) v] have lk: "lookup_solvable (ss_variable_map ?s) z = Some v" .
    moreover have "v \<in> tracked_in ?s n" using l(2) v z(2) multi seen by (auto simp: target_registered_def Let_def)
    ultimately show ?thesis using z(1) by (auto simp: picked_def)
  qed
  from tracked [OF assms(3,5)] obtain v where v: "v \<in> tracked_in ?s n" "lookup_solvable (ss_variable_map ?s) x = Some v" "M v" by blast
  from tracked [OF assms(4,6)] obtain w where w: "w \<in> tracked_in ?s n" "lookup_solvable (ss_variable_map ?s) y = Some w" "M w" by blast
  have "v = w" by (rule trackers_at_most_one [OF assms(2) inv(6) v(1) w(1) v(3) w(3)])
  with solvable_variable(2) [OF inv(1) v(2)] solvable_variable(2) [OF inv(1) w(2)] show ?thesis by simp
qed

end
