(* ===== verification/Solver.thy ===== *)
theory Solver
  imports Encoder Resolve
begin

text \<open>
  The solver: \<open>solve\<close>, \<open>run_sat\<close> and \<open>run_sat_process_unsolvable\<close> of \<open>src/solver/mod.rs\<close>,
  which alternate encoding and search. The \<open>k\<close>-th encoding completes its futures as
  \<open>envs k\<close> says; \<open>cancel\<close> answers the cancellation checks of propagation. Log messages and the
  time measurements of the diagnostics feature are left out.
\<close>

section \<open>The search\<close>

record search =
  se_state :: solver_state
  se_cache :: cache
  se_calls :: nat
  se_encodings :: nat

type_synonym 'c verdict = "'c unsolvable_or_cancelled + bool"

text \<open>\<open>undo_until\<close> on the trail of the state; a decision that must succeed.\<close>

definition se_undo_until :: "level \<Rightarrow> search \<Rightarrow> search option" where
  "se_undo_until level r = map_option (\<lambda>t. r\<lparr>se_state := (se_state r)\<lparr>ss_decision_tracker := t\<rparr>\<rparr>)
     (undo_until level (ss_decision_tracker (se_state r)))"

definition se_decide_root :: "solvable_or_root \<Rightarrow> bool \<Rightarrow> level \<Rightarrow> search \<Rightarrow> search option" where
  "se_decide_root solvable value level r =
     (let (var, m) = intern_solvable_or_root solvable (ss_variable_map (se_state r))
      in case try_add_decision (ss_decision_tracker (se_state r)) (Decision_new var value 0) level of
           Inl _ \<Rightarrow> None
         | Inr (_, t) \<Rightarrow> Some (r\<lparr>se_state := (se_state r)\<lparr>ss_variable_map := m, ss_decision_tracker := t\<rparr>\<rparr>))"

definition run_encoder ::
  "(nat \<Rightarrow> 'c environment) \<Rightarrow> dependencies \<Rightarrow> level \<Rightarrow> solvable_or_root list \<Rightarrow> solvable_id deferred_requirement list \<Rightarrow>
    search \<Rightarrow> (('c + clause_id list) \<times> search) option" where
  "run_encoder envs root_deps level solvable_ids deferred r =
     map_option (\<lambda>(conflicting_clauses, e).
         (conflicting_clauses, r\<lparr>se_state := en_state e, se_cache := en_cache e, se_encodings := se_encodings r + 1\<rparr>))
       (encode_with_deferred (envs (se_encodings r)) solvable_ids deferred
         (Encoder_new (se_state r) (se_cache r) root_deps level))"

section \<open>One solvable\<close>

definition run_sat_process_unsolvable ::
  "solvable_or_root \<Rightarrow> level \<Rightarrow> clause_id \<Rightarrow> search \<Rightarrow> ('c verdict \<times> search) option" where
  "run_sat_process_unsolvable solvable_or_root starting_level clause_id r =
     (if starting_level = 0
      then map_option (\<lambda>conflict. (Inl (Unsolvable conflict), r)) (analyze_unsolvable clause_id (se_state r))
      else do {
        r1 \<leftarrow> se_undo_until starting_level r;
        r2 \<leftarrow> se_decide_root solvable_or_root False (starting_level + 1) r1;
        Some (Inr False, r2)
      })"

text \<open>The level of the last decision, 0 on an empty trail.\<close>

definition last_level :: "decision_tracker \<Rightarrow> level" where
  "last_level t = (if dt_stack t = [] then 0 else tracker_level t (d_variable (last (dt_stack t))))"

text \<open>A level of \<open>starting_level\<close> means the loop was reset: decide and encode the root again.\<close>

definition reset_decision_loop ::
  "(nat \<Rightarrow> 'c environment) \<Rightarrow> solvable_or_root \<Rightarrow> dependencies \<Rightarrow> level \<Rightarrow> level \<Rightarrow> search \<Rightarrow>
    (('c + clause_id list) \<times> level \<times> search) option" where
  "reset_decision_loop envs root_solvable root_deps starting_level level r =
     (if level \<noteq> starting_level then Some (Inr [], level, r)
      else do {
        r1 \<leftarrow> se_decide_root root_solvable True (starting_level + 1) r;
        (conflicting_clauses, r2) \<leftarrow> run_encoder envs root_deps (starting_level + 1) [root_solvable] [] r1;
        Some (conflicting_clauses, starting_level + 1, r2)
      })"

definition new_solvables :: "solver_state \<Rightarrow> variable_id list" where
  "new_solvables s = map d_variable (filter (\<lambda>d. d_value d \<and>
       (case as_solvable_or_root (ss_variable_map s) (d_variable d) of
          None \<Rightarrow> False
        | Some solvable_or_root \<Rightarrow> solvable_or_root \<notin> ss_clauses_added_for_solvable s)) (dt_stack (ss_decision_tracker s)))"

definition new_solvable_ids :: "solver_state \<Rightarrow> variable_id list \<Rightarrow> solvable_or_root list" where
  "new_solvable_ids s variables = map Solvable (List.map_filter (as_solvable (ss_variable_map s)) variables)"

definition drain_conditions ::
  "condition_id list \<Rightarrow> solver_state \<Rightarrow> solvable_id deferred_requirement list \<times> solver_state" where
  "drain_conditions fired_conditions s =
     (let (deferred_to_encode, s') = run_ops drain_fired_deferred fired_conditions s in (concat deferred_to_encode, s'))"

partial_function (option) run_sat_loop ::
  "solver_params \<Rightarrow> (nat \<Rightarrow> 'c environment) \<Rightarrow> (nat \<Rightarrow> 'c option) \<Rightarrow> solvable_or_root \<Rightarrow> dependencies \<Rightarrow> level \<Rightarrow>
    level \<Rightarrow> search \<Rightarrow> ('c verdict \<times> search) option" where
  "run_sat_loop sp envs cancel root_solvable root_deps starting_level level r =
     Option.bind (reset_decision_loop envs root_solvable root_deps starting_level level r) (\<lambda>(conflicting, level, r1).
     case conflicting of
       Inl v \<Rightarrow> Some (Inl (Cancelled v), r1)
     | Inr (clause_id # _) \<Rightarrow> run_sat_process_unsolvable root_solvable starting_level clause_id r1
     | Inr [] \<Rightarrow> Option.bind (propagate (cancel (se_calls r1)) level (se_state r1)) (\<lambda>(propagate_result, s2).
         let r2 = r1\<lparr>se_state := s2, se_calls := se_calls r1 + 1\<rparr> in
         case propagate_result of
           Inl (PE_Cancelled v) \<Rightarrow> Some (Inl (Cancelled v), r2)
         | Inl (PE_Conflict _ _ clause_id) \<Rightarrow>
             if level = starting_level + 1 then run_sat_process_unsolvable root_solvable starting_level clause_id r2
             else Option.bind (se_undo_until starting_level r2)
               (run_sat_loop sp envs cancel root_solvable root_deps starting_level starting_level)
         | Inr _ \<Rightarrow> Option.bind (resolve_dependencies sp cancel (se_calls r2) level s2) (\<lambda>(resolve_result, calls, s3).
             let r3 = r2\<lparr>se_state := s3, se_calls := calls\<rparr> in
             case resolve_result of
               Inl e \<Rightarrow> Some (Inl e, r3)
             | Inr level \<Rightarrow>
                 let variables = new_solvables s3;
                     fired_conditions = fired_deferred_conditions s3
                 in Option.bind (force_stuck_gates level s3) (\<lambda>(forced_stuck_gates, s4).
                    if variables = [] \<and> fired_conditions = []
                    then if forced_stuck_gates
                      then run_sat_loop sp envs cancel root_solvable root_deps starting_level level (r3\<lparr>se_state := s4\<rparr>)
                      else Some (Inr True, r3\<lparr>se_state := s4\<rparr>)
                    else let (deferred_to_encode, s5) = drain_conditions fired_conditions s4
                      in Option.bind (run_encoder envs root_deps level (new_solvable_ids s5 variables) deferred_to_encode
                           (r3\<lparr>se_state := s5\<rparr>)) (\<lambda>(conflicting, r6).
                         case conflicting of
                           Inl v \<Rightarrow> Some (Inl (Cancelled v), r6)
                         | Inr [] \<Rightarrow> run_sat_loop sp envs cancel root_solvable root_deps starting_level level r6
                         | Inr (_ # _) \<Rightarrow> Option.bind (se_undo_until starting_level r6)
                             (run_sat_loop sp envs cancel root_solvable root_deps starting_level starting_level))))))"

declare run_sat_loop.simps [code]

definition run_sat ::
  "solver_params \<Rightarrow> (nat \<Rightarrow> 'c environment) \<Rightarrow> (nat \<Rightarrow> 'c option) \<Rightarrow> solvable_or_root \<Rightarrow> dependencies \<Rightarrow>
    search \<Rightarrow> ('c verdict \<times> search) option" where
  "run_sat sp envs cancel root_solvable root_deps r =
     (let starting_level = last_level (ss_decision_tracker (se_state r))
      in run_sat_loop sp envs cancel root_solvable root_deps starting_level starting_level r)"

section \<open>A problem\<close>

record problem =
  pr_requirements :: "conditional_requirement list"
  pr_constraints :: "version_set_id list"
  pr_soft_requirements :: "solvable_id list"

definition root_dependencies_of :: "problem \<Rightarrow> dependencies" where
  "root_dependencies_of problem = Known \<lparr>kd_requirements = pr_requirements problem, kd_constrains = pr_constraints problem\<rparr>"

definition initial_state :: "bool \<Rightarrow> solver_state" where
  "initial_state standard =
     (let s = SolverState_default\<lparr>ss_decide_queue := set_standard_activity_params standard DecideQueue_default\<rparr>
      in snd (add_clause (fst WatchedLiterals_root) (snd WatchedLiterals_root) s))"

definition standard_activity :: "solver_params \<Rightarrow> bool" where
  "standard_activity sp = (f32_gt (sp_f32 sp) (sp_activity_add sp) (f32_zero (sp_f32 sp)) \<and>
     f32_ge (sp_f32 sp) (sp_activity_decay sp) (f32_zero (sp_f32 sp)))"

fun solve_soft_requirements ::
  "solver_params \<Rightarrow> (nat \<Rightarrow> 'c environment) \<Rightarrow> (nat \<Rightarrow> 'c option) \<Rightarrow> dependencies \<Rightarrow> solvable_id list \<Rightarrow> search \<Rightarrow>
    (('c unsolvable_or_cancelled + unit) \<times> search) option" where
  "solve_soft_requirements sp envs cancel root_deps [] r = Some (Inr (), r)"
| "solve_soft_requirements sp envs cancel root_deps (additional # rest) r =
     (let (additional_var, m) = VariableMap_intern_solvable additional (ss_variable_map (se_state r));
          r1 = r\<lparr>se_state := (se_state r)\<lparr>ss_variable_map := m\<rparr>\<rparr>
      in if assigned_value (ss_decision_tracker (se_state r1)) additional_var = None
         then Option.bind (run_sat sp envs cancel (Solvable additional) root_deps r1) (\<lambda>(v, r2).
           case v of
             Inl e \<Rightarrow> Some (Inl e, r2)
           | Inr _ \<Rightarrow> solve_soft_requirements sp envs cancel root_deps rest r2)
         else solve_soft_requirements sp envs cancel root_deps rest r1)"

text \<open>The cache is the solver's own and survives a solve. The assertion on \<open>run_sat\<close> is a panic.\<close>

definition solve ::
  "solver_params \<Rightarrow> (nat \<Rightarrow> 'c environment) \<Rightarrow> (nat \<Rightarrow> 'c option) \<Rightarrow> problem \<Rightarrow> cache \<Rightarrow>
    (('c unsolvable_or_cancelled + solvable_id list) \<times> search) option" where
  "solve sp envs cancel problem cache =
     (let root_deps = root_dependencies_of problem;
          r = \<lparr>se_state = initial_state (standard_activity sp), se_cache = cache, se_calls = 0, se_encodings = 0\<rparr>
      in Option.bind (run_sat sp envs cancel Root root_deps r) (\<lambda>(v, r1). case v of
           Inl e \<Rightarrow> Some (Inl e, r1)
         | Inr False \<Rightarrow> None
         | Inr True \<Rightarrow> Option.bind (solve_soft_requirements sp envs cancel root_deps (pr_soft_requirements problem) r1)
             (\<lambda>(v, r2). case v of
                Inl e \<Rightarrow> Some (Inl e, r2)
              | Inr _ \<Rightarrow> Some (Inr (chosen_solvables (se_state r2)), r2))))"

end
