(* ===== verification/Encoder_Properties.thy ===== *)
theory Encoder_Properties
  imports Encoder_Meaning Solver
begin

text \<open>The properties of an encoding, and a provider to try them on.\<close>

section \<open>The state a solve starts from\<close>

lemma initial_state_eq:
  "initial_state b = SolverState_default\<lparr>ss_kinds := [InstallRoot], ss_watched_literals := [None],
     ss_decide_queue := set_standard_activity_params b DecideQueue_default\<rparr>"
  by (simp add: initial_state_def Let_def WatchedLiterals_root_def Clause_root_def from_kind_and_initial_watches_def
      add_clause_def Clauses_alloc_def SolverState_default_def)

definition first_encoder :: "bool \<Rightarrow> decision_tracker \<Rightarrow> dependencies \<Rightarrow> level \<Rightarrow> 'c encoder" where
  "first_encoder b t root_dependencies level =
     Encoder_new ((initial_state b)\<lparr>ss_decision_tracker := t\<rparr>) SolverCache_new root_dependencies level"

lemma encodable_first:
  assumes "tracker_inv t" "valid_level lvl" "level_above t lvl" "\<And>v. assigned_value t v \<noteq> None \<Longrightarrow> v = 0"
  shows "encodable env [] (first_encoder b t root lvl)"
proof -
  let ?e = "first_encoder b t root lvl"
  have f: "en_state ?e = (initial_state b)\<lparr>ss_decision_tracker := t\<rparr>" "en_cache ?e = SolverCache_new" "en_level ?e = lvl"
    "en_new_at_least_one_packages ?e = []" "en_forbid_seen ?e = {}" "en_pending_forbid_clauses ?e = []"
    "awaited (ev_provider env) ?e = {}"
    by (simp_all add: first_encoder_def Encoder_new_def awaited_def)
  have og: "en_origin ?e v = (if v = 0 then Some Origin_Root else None)" for v
    using variable_map_invD(1) [OF variable_map_inv_default, of v]
    by (auto simp: f initial_state_eq SolverState_default_def VariableMap_default_def VariableMap_origin_def slice_get_def)
  have "vars_ok ?e" using assms variable_map_inv_default og
    by (auto simp: vars_ok_def f initial_state_eq SolverState_default_def)
  moreover have "alo_ok ?e" unfolding alo_ok_def og by (simp add: f initial_state_eq SolverState_default_def)
  moreover have "links_ok (ev_provider env) ?e"
    by (simp add: links_ok_def f initial_state_eq SolverState_default_def deferred_set_def)
  moreover have "clauses_ok (ev_provider env) ?e" by (simp add: clauses_ok_def f initial_state_eq)
  moreover have "forbids_ok (ev_provider env) ?e" by (simp add: forbids_ok_def f)
  moreover have "trackers_ok (ev_provider env) (en_state ?e)" by (simp add: trackers_ok_def f initial_state_eq SolverState_default_def)
  moreover have "queue_slots (ss_decide_queue (en_state ?e))"
    by (simp add: f initial_state_eq queue_slots_def set_standard_activity_params_def DecideQueue_default_def)
  ultimately have "enc_inv env ?e" by (simp add: enc_inv_def f cache_inv_new)
  moreover have "obligations (ev_provider env) {} ?e" by (simp add: obligations_def f initial_state_eq SolverState_default_def)
  moreover have "?e = renewed ?e" by (simp add: first_encoder_def renewed_def Encoder_new_def)
  ultimately show ?thesis by (simp add: encodable_def)
qed

section \<open>Properties\<close>

text \<open>Property C2. Encoding ends. For every provider that meets \<open>provider_ok\<close> (its candidates belong to the
  package they are listed under, its filter splits them, its sort permutes them, its conditions
  are finite), and in every order in which the queued futures complete, at once or later, the
  encoder returns without a panic: either with a value the provider cancelled with, or with a
  state in which every solvable it was given is encoded and from which the next encoding can
  start. The work, counted in queued futures and registered clauses, fits the positions of the
  decide queue. This is a build without debug assertions, and identifiers of variables and
  clauses do not overflow.\<close>

theorem encode_ends:
  assumes "provider_ok (ev_provider env) U" "encodable env ds e" "set ks \<subseteq> insert Root (Solvable ` U)"
    "work (ev_provider env) U e + sum_list (map (deferred_weight (ev_provider env)) ds) \<le> 2 ^ 32 - 1"
  shows "\<exists>r e'. encode_with_deferred env ks ds e = Some (r, e') \<and> (\<forall>v. r = Inl v \<longrightarrow> (\<exists>j. ev_cancel env j = Some v)) \<and>
    (\<forall>cs. r = Inr cs \<longrightarrow> encodable env [] (renewed e') \<and> set ks \<subseteq> ss_clauses_added_for_solvable (en_state e'))"
proof -
  from encode_effect [OF assms] obtain r e' where "encode_with_deferred env ks ds e = Some (r, e')"
    "\<forall>v. r = Inl v \<longrightarrow> (\<exists>j. ev_cancel env j = Some v)"
    "\<forall>cs. r = Inr cs \<longrightarrow> encodable env [] (renewed e') \<and> set ks \<subseteq> ss_clauses_added_for_solvable (en_state e')"
    by blast
  then show ?thesis by blast
qed

text \<open>Property C1. The encoding is sound. Whatever satisfies the clauses an encoding leaves and installs the root
  meets the provider's demands on what has been encoded. An encoded solvable that is selected has
  known dependencies, each of its requirements has a selected candidate, nothing its constraints
  reject is selected, and a conditional requirement has a selected candidate as soon as a
  disjunct of its condition that is not deferred holds: of the package of each of its version sets
  a registered candidate is selected and none that the version set rejects (deferred disjuncts are
  encoded later, when they fire). An encoded package has no excluded candidate selected and only its locked one. Of
  the candidates the encoded requirements name at most one per package is selected, unless the
  package allows several. Nothing is said of a selected solvable not encoded yet: the solver
  encodes it next.\<close>

theorem encode_sound:
  assumes "provider_ok (ev_provider env) U" "encodable env ds e" "set ks \<subseteq> insert Root (Solvable ` U)"
    "work (ev_provider env) U e + sum_list (map (deferred_weight (ev_provider env)) ds) \<le> 2 ^ 32 - 1"
    "encode_with_deferred env ks ds e = Some (Inr cs, e')" "models M (en_state e')" "M 0"
  shows "(\<forall>k \<in> ss_clauses_added_for_solvable (en_state e'). selected (en_state e') M k \<longrightarrow>
      dependencies_met (ev_provider env) (en_root_dependencies e) (en_state e') M k) \<and>
    set ks \<subseteq> ss_clauses_added_for_solvable (en_state e') \<and>
    (\<forall>n \<in> ss_clauses_added_for_package (en_state e'). package_met (ev_provider env) (en_state e') M n) \<and>
    (\<forall>x y. {x, y} \<subseteq> encoded_candidates (ev_provider env) (en_state e') \<inter> picked (en_state e') M \<longrightarrow>
      pv_solvable_name (ev_interner env) x = pv_solvable_name (ev_interner env) y \<longrightarrow>
      \<not> ca_allow_multiple (candidates_for (ev_provider env) (pv_solvable_name (ev_interner env) x)) \<longrightarrow> x = y)"
proof -
  from encode_effect [OF assms(1-4)] assms(5) have e': "encodable env [] (renewed e')"
    "en_root_dependencies (renewed e') = en_root_dependencies e" "set ks \<subseteq> ss_clauses_added_for_solvable (en_state e')" by auto
  have m: "models M (en_state (renewed e'))" using assms(6) by simp
  show ?thesis
    using encoded_dependencies [OF e'(1) m] encoded_package [OF e'(1) m assms(7)] encoded_exclusive [OF e'(1) m] e'(2,3) by auto
qed

text \<open>Packages 0 and 1 have the candidates 1, 2 and 11, 12; 1 needs package 1 but not 12.\<close>

definition example_packages :: dependency_provider where
  "example_packages = \<lparr>dp_interner = \<lparr>pv_solvable_name = (\<lambda>x. x div 10), pv_version_set_name = (\<lambda>vs. vs div 10),
       pv_version_sets_in_union = (\<lambda>_. []), pv_resolve_condition = (\<lambda>_. Condition_Requirement 0)\<rparr>,
     dp_filter_candidates = (\<lambda>xs vs inverse. filter (\<lambda>x. (x \<noteq> vs + 1) \<noteq> inverse) xs),
     dp_get_candidates = (\<lambda>n. if n = 0 then Some (Candidates_default\<lparr>ca_candidates := [1, 2]\<rparr>)
       else if n = 1 then Some (Candidates_default\<lparr>ca_candidates := [11, 12], ca_excluded := [(11, 7)]\<rparr>) else None),
     dp_sort_candidates = rev,
     dp_get_dependencies = (\<lambda>x. Known \<lparr>kd_requirements =
       (if x = 1 then [\<lparr>cr_condition = None, cr_requirement = Single 11\<rparr>] else []), kd_constrains = []\<rparr>)\<rparr>"

definition example_environment :: "unit environment" where
  "example_environment = \<lparr>ev_provider = example_packages, ev_cancel = (\<lambda>_. None), ev_ready = (\<lambda>n. even n), ev_next = id\<rparr>"

definition example_root :: dependencies where
  "example_root = Known \<lparr>kd_requirements = [\<lparr>cr_condition = None, cr_requirement = Single 5\<rparr>], kd_constrains = []\<rparr>"

definition example_encoder :: "dependencies \<Rightarrow> unit encoder" where
  "example_encoder root = first_encoder True DecisionTracker_default root 1"

lemma example_provider_ok: "provider_ok example_packages {1, 2, 11, 12}"
proof -
  have "\<exists>t. unfolds (\<lambda>_. Condition_Requirement 0) c t" for c by (rule exI [of _ "TReq 0"], rule unfolds.leaf) simp
  then have "conditions_ok example_packages" using dnf_of_tree by (fastforce simp: conditions_ok_def example_packages_def)
  moreover have "candidates_for example_packages n = (if n = 0 then Candidates_default\<lparr>ca_candidates := [1, 2]\<rparr>
      else if n = 1 then Candidates_default\<lparr>ca_candidates := [11, 12], ca_excluded := [(11, 7)]\<rparr> else Candidates_default)" for n
    by (simp add: candidates_for_def example_packages_def)
  ultimately show ?thesis by (auto simp: provider_ok_def example_packages_def Candidates_default_def)
qed

lemma example_encodable: "encodable env [] (example_encoder root)"
proof -
  have "dt_stack DecisionTracker_default = []" "assigned_value DecisionTracker_default v = None" for v
    by (simp add: DecisionTracker_default_def, code_simp)
  then show ?thesis unfolding example_encoder_def by (intro encodable_first) (simp_all add: tracker_inv_default level_above_def valid_level_def)
qed

lemma example_work:
  "work example_packages {1, 2, 11, 12} (example_encoder root) \<le> 10 + dependencies_weight example_packages root"
proof -
  have e: "en_root_dependencies (example_encoder root) = root" "en_pending_futures (example_encoder root) = []"
    "en_pending_results (example_encoder root) = []" "ss_clauses_added_for_solvable (en_state (example_encoder root)) = {}"
    "dq_clauses (ss_decide_queue (en_state (example_encoder root))) = []"
    by (simp_all add: example_encoder_def first_encoder_def Encoder_new_def initial_state_eq SolverState_default_def DecideQueue_default_def
        set_standard_activity_params_def)
  show ?thesis
    by (simp add: work_def waiting_weight_def pending_weight_def e example_packages_def package_weight_def queue_weight_def requirement_weight_def)
qed

lemma encode_ends_witness: "\<exists>r e'. encode_with_deferred example_environment [Root, Solvable 2] [] (example_encoder example_root) = Some (r, e')"
proof -
  have "work example_packages {1, 2, 11, 12} (example_encoder example_root) \<le> 20"
    by (rule order_trans [OF example_work]) (simp add: example_root_def example_packages_def package_weight_def queue_weight_def requirement_weight_def)
  moreover have "ev_provider example_environment = example_packages" by (simp add: example_environment_def)
  ultimately show ?thesis
    using encode_ends [of example_environment "{1, 2, 11, 12}" "[]" "example_encoder example_root" "[Root, Solvable 2]"]
      example_provider_ok example_encodable by auto
qed

declare encode_loop.simps [code]


definition example_constraint :: dependencies where
  "example_constraint = Known \<lparr>kd_requirements = [], kd_constrains = [11]\<rparr>"

lemma example_encoded: "\<exists>e'. encode_with_deferred example_environment [Root, Solvable 2] [] (example_encoder example_constraint) = Some (Inr [], e') \<and>
    ss_kinds (en_state e') = [InstallRoot, Excluded 1 7, Constrains 0 2 11]"
proof -
  have "map_option (\<lambda>(r, e). (r, ss_kinds (en_state e)))
      (encode_with_deferred example_environment [Root, Solvable 2] [] (example_encoder example_constraint)) =
    Some (Inr [], [InstallRoot, Excluded 1 7, Constrains 0 2 11])" by code_simp
  then show ?thesis by auto
qed

lemma encode_sound_witness: "\<exists>e' :: unit encoder. dependencies_met example_packages example_constraint (en_state e') (\<lambda>v. v = 0) Root \<and>
    Root \<in> ss_clauses_added_for_solvable (en_state e')"
proof -
  obtain e' where e': "encode_with_deferred example_environment [Root, Solvable 2] [] (example_encoder example_constraint) = Some (Inr [], e')"
    "ss_kinds (en_state e') = [InstallRoot, Excluded 1 7, Constrains 0 2 11]"
    using example_encoded by blast
  have m: "models (\<lambda>v. v = 0) (en_state e')"
    by (auto simp: models_def clause_holds_def clause_true_def e'(2) less_Suc_eq lits_def)
  have w: "work example_packages {1, 2, 11, 12} (example_encoder example_constraint) \<le> 20"
    by (rule order_trans [OF example_work]) (simp add: example_constraint_def)
  have p: "ev_provider example_environment = example_packages" "en_root_dependencies (example_encoder example_constraint) = example_constraint"
    by (simp_all add: example_environment_def example_encoder_def first_encoder_def Encoder_new_def)
  have "set [Root, Solvable 2] \<subseteq> insert Root (Solvable ` {1, 2, 11, 12})" 
    "work example_packages {1, 2, 11, 12} (example_encoder example_constraint) + sum_list (map (deferred_weight example_packages) []) \<le> 2 ^ 32 - 1"
    using w by simp_all
  note sound = encode_sound [of example_environment, unfolded p(1), OF example_provider_ok example_encodable this e'(1) m refl, unfolded p(2)]
  have "(\<forall>k \<in> ss_clauses_added_for_solvable (en_state e'). selected (en_state e') (\<lambda>v. v = 0) k \<longrightarrow>
      dependencies_met example_packages example_constraint (en_state e') (\<lambda>v. v = 0) k) \<and>
      set [Root, Solvable 2] \<subseteq> ss_clauses_added_for_solvable (en_state e')"
    by (rule conjI [OF conjunct1 [OF sound] conjunct1 [OF conjunct2 [OF sound]]])
  moreover have "selected (en_state e') (\<lambda>v. v = 0) Root" by (simp add: selected_def)
  ultimately show ?thesis by (intro exI [of _ e'] conjI) simp_all
qed

end
