(* ===== verification/Stuck_Gates.thy ===== *)
theory Stuck_Gates
  imports Solver_State
begin

text \<open>
  The repair of shared requirements, \<open>force_stuck_gates\<close> of \<open>src/solver/mod.rs\<close>. A gate stands for
  "some requirer is installed"; a backjump can take its value while a requirer keeps its
  own. The decision loop does not look at such a gate's requirement (theory \<open>Resolve\<close>);
  afterwards this function decides it.
\<close>

section \<open>Stuck gates\<close>








section \<open>Properties\<close>




end
