(* ===== verification/Deferred.thy ===== *)
theory Deferred
  imports Solver
begin

text \<open>
  Deferred conditional requirements, \<open>fired_deferred_conditions\<close> and \<open>drain_fired_deferred\<close> of
  \<open>src/solver/mod.rs\<close> and the drain \<open>run_sat\<close> makes of them: of the requirements that wait for
  their condition, those whose disjunct holds are taken out, in order, and the others stay.
\<close>

section \<open>Draining a vector\<close>

lemma drain_entries_prefix:
  "foldl (\<lambda>(fired, entries) (i, _). (fired @ [entries ! i], vec_remove entries i)) (acc, xs @ rest)
     (filter snd (rev (enumerate 0 (map P xs)))) = (acc @ rev (filter P xs), filter (\<lambda>x. \<not> P x) xs @ rest)"
proof (induction xs arbitrary: acc rest rule: rev_induct)
  case (snoc x xs)
  have "vec_remove (xs @ x # rest) (length xs) = xs @ rest" by (simp add: vec_remove_def)
  with snoc.IH [of "acc @ [x]" rest] snoc.IH [of acc "x # rest"] show ?case
    by (simp add: enumerate_append_eq nth_append)
qed simp

lemma drain_entries_eq: "drain_entries (map P xs) xs = (rev (filter P xs), filter (\<lambda>x. \<not> P x) xs)"
  using drain_entries_prefix [of "[]" xs "[]" P] by (simp add: drain_entries_def)

section \<open>Index maps\<close>

text \<open>The entries under a key; none when the key is absent.\<close>

definition entries_of :: "('k \<times> 'v list) list \<Rightarrow> 'k \<Rightarrow> 'v list" where
  "entries_of m k = (case map_of m k of None \<Rightarrow> [] | Some es \<Rightarrow> es)"

lemma im_index_split:
  "im_index m k = Some i \<Longrightarrow> \<exists>us v ws. m = us @ (k, v) # ws \<and> length us = i"
proof (induction m k arbitrary: i rule: im_index.induct)
  case (2 k' v m k)
  show ?case
  proof (cases "k' = k")
    case True
    with 2 show ?thesis by (intro exI [of _ "[]"]) auto
  next
    case False
    with 2 obtain us v' ws where "m = us @ (k, v') # ws" "Suc (length us) = i" by auto
    with False show ?thesis by (intro exI [of _ "(k', v) # us"]) auto
  qed
qed simp

lemma im_index_None: "im_index m k = None \<longleftrightarrow> k \<notin> fst ` set m"
  by (induction m k rule: im_index.induct) auto

lemma im_swap_remove_map:
  assumes "distinct (map fst m)"
  shows "distinct (map fst (im_swap_remove m k))" "map_of (im_swap_remove m k) = (map_of m)(k := None)"
proof -
  have "distinct (map fst (im_swap_remove m k)) \<and> map_of (im_swap_remove m k) = (map_of m)(k := None)"
  proof (cases "im_index m k")
    case None
    then have "map_of m k = None" by (simp add: im_index_None map_of_eq_None_iff)
    with None assms show ?thesis by (simp add: im_swap_remove_def fun_upd_idem)
  next
    case (Some i)
    then obtain us v ws where m: "m = us @ (k, v) # ws" "length us = i" using im_index_split by fast
    have k: "k \<notin> fst ` set us" "k \<notin> fst ` set ws" using assms m by auto
    then have none: "map_of us k = None" "map_of ws k = None" by (simp_all add: map_of_eq_None_iff)
    show ?thesis
    proof (cases ws rule: rev_cases)
      case Nil
      with m Some none assms show ?thesis by (auto simp: im_swap_remove_def fun_eq_iff map_add_def split: option.split)
    next
      case (snoc ws' z)
      obtain kz vz where z: "z = (kz, vz)" by (cases z)
      have "(us @ (k, v) # ws')[length us := z] = us @ z # ws'" by (induction us) auto
      then have remove: "im_swap_remove m k = us @ z # ws'"
        using Some m snoc by (simp add: im_swap_remove_def butlast_append)
      have "kz \<notin> fst ` set us" "kz \<notin> fst ` set ws'" "kz \<noteq> k" "k \<notin> fst ` set ws'" using assms m snoc z by auto
      then have "map_of us kz = None" "map_of ws' kz = None" "map_of ws' k = None" by (simp_all add: map_of_eq_None_iff)
      then have "map_of (us @ z # ws') = (map_of m)(k := None)"
        using none(1) \<open>kz \<noteq> k\<close> m snoc z by (auto simp: fun_eq_iff map_add_def split: option.split)
      moreover have "distinct (map fst (us @ z # ws'))" using assms m snoc by auto
      ultimately show ?thesis using remove by simp
    qed
  qed
  then show "distinct (map fst (im_swap_remove m k))" "map_of (im_swap_remove m k) = (map_of m)(k := None)" by simp_all
qed

lemma im_update_map:
  "map fst (im_update m k v) = map fst m"
  "map_of (im_update m k v) = (if k \<in> fst ` set m then (map_of m)(k \<mapsto> v) else map_of m)"
proof -
  show "map fst (im_update m k v) = map fst m" by (auto simp: im_update_def)
  show "map_of (im_update m k v) = (if k \<in> fst ` set m then (map_of m)(k \<mapsto> v) else map_of m)"
    by (induction m) (auto simp: im_update_def fun_eq_iff)
qed

section \<open>Draining the state\<close>

abbreviation deferred_under :: "solver_state \<Rightarrow> condition_id \<Rightarrow> solvable_id deferred_requirement list" where
  "deferred_under s \<equiv> entries_of (ss_deferred_requirements s)"

definition deferred_wf :: "solver_state \<Rightarrow> bool" where
  "deferred_wf s \<longleftrightarrow> distinct (map fst (ss_deferred_requirements s)) \<and> (\<forall>(c, es) \<in> set (ss_deferred_requirements s). es \<noteq> [])"

lemma drain_one:
  assumes "deferred_wf s"
  shows "\<exists>m. drain_fired_deferred c s = (filter (entry_holds s) (deferred_under s c), s\<lparr>ss_deferred_requirements := m\<rparr>) \<and>
    deferred_wf (s\<lparr>ss_deferred_requirements := m\<rparr>) \<and>
    (\<forall>c'. entries_of m c' = (if c' = c then filter (\<lambda>e. \<not> entry_holds s e) (deferred_under s c) else deferred_under s c'))"
proof -
  let ?D = "ss_deferred_requirements s"
  have distinct: "distinct (map fst ?D)" and full: "\<And>c es. map_of ?D c = Some es \<Longrightarrow> es \<noteq> []"
    using assms by (auto simp: deferred_wf_def dest: map_of_SomeD)
  show ?thesis
  proof (cases "map_of ?D c")
    case None
    with assms show ?thesis by (intro exI [of _ ?D]) (auto simp: drain_fired_deferred_def entries_of_def)
  next
    case (Some es)
    let ?rest = "filter (\<lambda>e. \<not> entry_holds s e) es"
    define m where "m = (if ?rest = [] then im_swap_remove (im_update ?D c ?rest) c else im_update ?D c ?rest)"
    have "c \<in> fst ` set ?D" using Some by (auto dest: map_of_SomeD simp: rev_image_eqI)
    then have u: "map_of (im_update ?D c ?rest) = (map_of ?D)(c \<mapsto> ?rest)" "distinct (map fst (im_update ?D c ?rest))"
      using distinct by (simp_all add: im_update_map)
    have m: "distinct (map fst m)" "map_of m = (if ?rest = [] then (map_of ?D)(c := None) else (map_of ?D)(c \<mapsto> ?rest))"
      unfolding m_def by (auto simp only: im_swap_remove_map [OF u(2), of c] u fun_upd_upd split: if_split)
    have "es' \<noteq> []" if "(c', es') \<in> set m" for c' es'
      using map_of_is_SomeI [OF m(1) that] full [of c' es'] by (auto simp: m(2) split: if_splits)
    with m(1) have "deferred_wf (s\<lparr>ss_deferred_requirements := m\<rparr>)" by (auto simp: deferred_wf_def)
    moreover have "drain_fired_deferred c s = (filter (entry_holds s) es, s\<lparr>ss_deferred_requirements := m\<rparr>)"
      using Some by (simp add: drain_fired_deferred_def drain_entries_eq m_def Let_def)
    moreover have "entries_of m c' = (if c' = c then ?rest else deferred_under s c')" for c'
      by (simp add: entries_of_def m(2))
    ultimately show ?thesis using Some by (intro exI [of _ m]) (simp add: entries_of_def)
  qed
qed

lemma entry_holds_deferred [simp]: "entry_holds (s\<lparr>ss_deferred_requirements := m\<rparr>) = entry_holds s"
  by (simp add: fun_eq_iff entry_holds_def is_positively_decided_def [abs_def] cong: option.case_cong)

lemma drain_all:
  "deferred_wf s \<Longrightarrow> distinct cs \<Longrightarrow> \<exists>m. run_ops drain_fired_deferred cs s =
      (map (\<lambda>c. filter (entry_holds s) (deferred_under s c)) cs, s\<lparr>ss_deferred_requirements := m\<rparr>) \<and>
    deferred_wf (s\<lparr>ss_deferred_requirements := m\<rparr>) \<and>
    (\<forall>c. entries_of m c = (if c \<in> set cs then filter (\<lambda>e. \<not> entry_holds s e) (deferred_under s c) else deferred_under s c))"
proof (induction cs arbitrary: s)
  case Nil
  then show ?case by (intro exI [of _ "ss_deferred_requirements s"]) simp
next
  case (Cons c cs)
  from drain_one [OF Cons.prems(1), of c] obtain m1 where
    m1: "drain_fired_deferred c s = (filter (entry_holds s) (deferred_under s c), s\<lparr>ss_deferred_requirements := m1\<rparr>)"
      "deferred_wf (s\<lparr>ss_deferred_requirements := m1\<rparr>)"
      "\<forall>c'. entries_of m1 c' = (if c' = c then filter (\<lambda>e. \<not> entry_holds s e) (deferred_under s c) else deferred_under s c')" by blast
  from Cons.IH [OF m1(2)] Cons.prems(2) obtain m where
    m: "run_ops drain_fired_deferred cs (s\<lparr>ss_deferred_requirements := m1\<rparr>) =
        (map (\<lambda>c. filter (entry_holds s) (entries_of m1 c)) cs, s\<lparr>ss_deferred_requirements := m\<rparr>)"
      "deferred_wf (s\<lparr>ss_deferred_requirements := m\<rparr>)"
      "\<forall>c. entries_of m c = (if c \<in> set cs then filter (\<lambda>e. \<not> entry_holds s e) (entries_of m1 c) else entries_of m1 c)" by auto
  have "map (\<lambda>c. filter (entry_holds s) (entries_of m1 c)) cs = map (\<lambda>c. filter (entry_holds s) (deferred_under s c)) cs"
    using m1(3) Cons.prems(2) by auto
  with m m1 Cons.prems(2) show ?case by (intro exI [of _ m]) auto
qed

section \<open>Properties\<close>

text \<open>Property C33. Deferred requirements fire exactly when their condition does. The drain \<open>run_sat\<close> makes
  after a round of decisions takes out, in the order of the table, the deferred requirements
  whose disjunct holds under the current decisions, and leaves the others under their
  condition in their order; nothing else of the state changes, no table entry is left
  empty, and no deferred requirement of the new state holds.\<close>

theorem drain_conditions_exact:
  assumes "deferred_wf s"
  shows "\<exists>m. drain_conditions (fired_deferred_conditions s) s =
      (filter (entry_holds s) (concat (map snd (ss_deferred_requirements s))), s\<lparr>ss_deferred_requirements := m\<rparr>) \<and>
    deferred_wf (s\<lparr>ss_deferred_requirements := m\<rparr>) \<and> fired_deferred_conditions (s\<lparr>ss_deferred_requirements := m\<rparr>) = [] \<and>
    (\<forall>c. entries_of m c = filter (\<lambda>e. \<not> entry_holds s e) (entries_of (ss_deferred_requirements s) c))"
proof -
  let ?D = "ss_deferred_requirements s" and ?cs = "fired_deferred_conditions s"
  have distinct: "distinct (map fst ?D)" using assms by (simp add: deferred_wf_def)
  then have "distinct ?cs" unfolding fired_deferred_conditions_def by (rule distinct_map_filter)
  from drain_all [OF assms this] obtain m where
    m: "run_ops drain_fired_deferred ?cs s = (map (\<lambda>c. filter (entry_holds s) (deferred_under s c)) ?cs, s\<lparr>ss_deferred_requirements := m\<rparr>)"
      "deferred_wf (s\<lparr>ss_deferred_requirements := m\<rparr>)"
      "\<forall>c. entries_of m c = (if c \<in> set ?cs then filter (\<lambda>e. \<not> entry_holds s e) (deferred_under s c) else deferred_under s c)" by blast
  have under: "deferred_under s c = es" if "(c, es) \<in> set ?D" for c es
    using map_of_is_SomeI [OF distinct that] by (simp add: entries_of_def)
  have "concat (map (\<lambda>c. filter (entry_holds s) (deferred_under s c)) ?cs) = filter (entry_holds s) (concat (map snd ?D))"
  proof -
    have "concat (map (\<lambda>c. filter (entry_holds s) (deferred_under s c)) (map fst (filter (\<lambda>(_, es). list_ex (entry_holds s) es) D))) =
        filter (entry_holds s) (concat (map snd D))" if "set D \<subseteq> set ?D" for D
      using that
    proof (induction D)
      case (Cons x D)
      then show ?case using under [of "fst x" "snd x"] by (auto simp: list_ex_iff filter_empty_conv split_beta)
    qed simp
    then show ?thesis by (simp add: fired_deferred_conditions_def)
  qed
  moreover have rest: "entries_of m c = filter (\<lambda>e. \<not> entry_holds s e) (deferred_under s c)" for c
  proof (cases "c \<in> set ?cs")
    case False
    have "\<not> entry_holds s e" if "e \<in> set (deferred_under s c)" for e
    proof -
      from that obtain es where "(c, es) \<in> set ?D" "e \<in> set es" 
        by (cases "map_of ?D c") (auto simp: entries_of_def dest: map_of_SomeD)
      with False show ?thesis by (force simp: fired_deferred_conditions_def list_ex_iff)
    qed
    with False m(3) show ?thesis by (simp add: filter_id_conv)
  qed (use m(3) in simp)
  moreover have "fired_deferred_conditions (s\<lparr>ss_deferred_requirements := m\<rparr>) = []"
  proof -
    have "\<not> entry_holds s e" if "(c, es) \<in> set m" "e \<in> set es" for c es e
    proof -
      have "entries_of m c = es" using m(2) map_of_is_SomeI [of m c es] that(1) by (simp add: entries_of_def deferred_wf_def)
      with rest [of c] that(2) show ?thesis by auto
    qed
    then show ?thesis by (auto simp: fired_deferred_conditions_def filter_empty_conv list_ex_iff)
  qed
  ultimately show ?thesis using m(1,2) by (intro exI [of _ m]) (simp add: drain_conditions_def)
qed

text \<open>Two requirements wait for condition 3; the disjunct of the second has no conjuncts left to wait for.\<close>

definition example_waiting :: "nat \<Rightarrow> solvable_id deferred_conjunct list \<Rightarrow> solvable_id deferred_requirement" where
  "example_waiting vs disjunct = \<lparr>dr_solvable_id = Root, dr_requirement = \<lparr>cr_condition = Some 3, cr_requirement = Single vs\<rparr>,
     dr_condition = 3, dr_disjunct = disjunct\<rparr>"

definition example_deferred :: solver_state where
  "example_deferred = SolverState_default\<lparr>ss_deferred_requirements :=
     [(3, [example_waiting 4 [DC_Solvables 1 []], example_waiting 5 []])]\<rparr>"

theorem drain_conditions_exact_witness:
  "\<exists>m. drain_conditions (fired_deferred_conditions example_deferred) example_deferred =
      ([example_waiting 5 []], example_deferred\<lparr>ss_deferred_requirements := m\<rparr>) \<and>
    entries_of m 3 = [example_waiting 4 [DC_Solvables 1 []]]"
proof -
  have "deferred_wf example_deferred" by (simp add: deferred_wf_def example_deferred_def)
  moreover have "\<not> entry_holds example_deferred (example_waiting 4 [DC_Solvables 1 []])"
    "entry_holds example_deferred (example_waiting 5 [])"
    by (simp_all add: entry_holds_def condition_disjunct_holds_def example_waiting_def)
  moreover have "ss_deferred_requirements example_deferred = [(3, [example_waiting 4 [DC_Solvables 1 []], example_waiting 5 []])]"
    by (simp add: example_deferred_def)
  ultimately show ?thesis using drain_conditions_exact [of example_deferred] by (auto simp: entries_of_def)
qed

end
