(* ===== verification/Solver_Examples.thy ===== *)
theory Solver_Examples
  imports Solver
begin

text \<open>
  The solver at work, evaluated by the kernel: small problems whose solutions break a requirement,
  a constraint or the limit of one version per package. Each run is a run of all of
  \<open>solve\<close>, \<open>src/solver/mod.rs\<close>, with every future ready when it is queued and activities that are
  never compared (\<open>pattern_f32\<close>).
\<close>

section \<open>Evaluation\<close>


lemma eval_numerals:
  "replicate (numeral k) x = x # replicate (pred_numeral k) x"
  "(x # xs)[numeral k := y] = x # xs[pred_numeral k := y]"
  by (simp_all add: numeral_eq_Suc)

lemmas eval_defs = AtMostOnceTracker_default_def CONSTRAINS_AUX_ENCODING_THRESHOLD_def Candidates_default_def
    ClausePosition_new_def Clause_any_of_def Clause_constrains_def Clause_constrains_excluded_def
    Clause_constrains_parent_def Clause_exclude_def Clause_forbid_multiple_def Clause_learnt_def Clause_lock_def
    Clause_requires_def Clause_root_def Clauses_alloc_def Conflict_add_clause_def DecideQueue_default_def
    DecisionAndLevel_level_def DecisionAndLevel_value_def DecisionMap_default_def DecisionMap_level_def
    DecisionMap_reset_def DecisionMap_set_def DecisionMap_value_def DecisionTracker_default_def Decision_new_def
    Encoder_new_def Literal_new_def REQUIRES_AUX_ENCODING_THRESHOLD_def SolverState_default_def VariableMap_alloc_def
    VariableMap_default_def VariableMap_intern_solvable_def VariableMap_origin_def WatchMap_cursor_def
    WatchedLiterals_any_of_def WatchedLiterals_constrains_def WatchedLiterals_constrains_excluded_def
    WatchedLiterals_constrains_parent_def WatchedLiterals_exclude_def WatchedLiterals_forbid_multiple_def
    WatchedLiterals_learnt_def WatchedLiterals_lock_def WatchedLiterals_requires_def WatchedLiterals_root_def
    active_def activity_get_def add_any_of_def add_at_least_one_def add_clause_def add_disjunction_def
    add_exclusion_clause_def add_forbid_def add_locked_package_clauses_def add_pending_at_least_one_clauses_def
    add_pending_forbid_clauses_def add_requirement_def add_requires_clause_def add_requires_def
    add_shared_requires_def alloc_at_least_one_variable_def alloc_constrains_violation_variable_def
    alloc_forbid_multiple_variable_def alloc_requires_gate_variable_def amo_add_def analysis_start_def
    analyze_clause_def analyze_def analyze_literal_def analyze_unsolvable_clause_def analyze_unsolvable_def
    and_then_def answer_def are_dependencies_available_for_def arr2_get_def arr2_set_def as_solvable_def
    as_solvable_or_root_def asserted_def assigned_value_def at_least_one_variable_def begin_candidates_def
    bt_after_def bt_remove_def bump_activity_def cached_satisfied_def chosen_solvables_def clause_literals_def
    complement_literals_def complement_of_def condition_disjunct_holds_def condition_holds_def condition_variables_def
    conflicting_def constrains_aux_def constrains_excluded_def constrains_pairwise_def covered_def cursor_next_def
    cursor_update_def cursor_watched_literals_def decay_activity_scores_def decide_assertions_def decide_def
    decide_learned_def deferred_conjunct_def disjunct_holds_def disjunction_literals_def distribute_def
    drain_conditions_def drain_entries_def drain_fired_deferred_def en_clause_def en_conflict_def en_decide_def
    en_tracker_def en_variable_def encode_with_deferred_def enqueue_clause_def entry_holds_def entry_push_def eval_def
    eval_requirement_def explain_decision_def false_lit_def favored_first_def fetch_conjunct_def fetch_requirement_def
    find_clause_for_assignment_def fired_deferred_conditions_def forbid_callback_def forbid_clause_def force_gate_def
    force_stuck_gates_def from_kind_and_initial_watches_def frozen_insert_def get_or_cache_candidates_def
    get_or_cache_dependencies_def get_or_cache_matching_candidates_def get_or_cache_non_matching_candidates_def
    get_or_cache_sorted_candidates_for_version_set_def guarded_def helper_callback_def helper_clauses_def
    hinted_candidates_def im_swap_remove_def im_update_def initial_state_def inspect_def intern_solvable_or_root_def
    involve_literal_def is_positively_decided_def last_level_def learn_from_conflict_def learnt_units_def lits_def
    lookup_solvable_def mark_clause_hot_def mark_name_hot_def negate_def negative_def new_solvable_ids_def
    new_solvables_def next_decision_def next_node_def next_unpropagated_def next_unwatched_literal_def node_of_def
    on_candidates_available_def on_condition_data_available_def on_constraint_candidates_available_def
    on_dependencies_available_def on_requirement_candidates_available_def pattern_f32_def pending_def positive_def
    propagate_def propagate_impl_def push_deferred_def queue_candidate_def queue_condition_data_def
    queue_conditional_requirement_def queue_constraint_def queue_deferred_requirement_def queue_future_def
    queue_package_def queue_packages_def queue_requirement_candidates_def queue_solvable_def queued_def
    register_clause_def register_forbid_target_def register_name_def requirement_conditions_def requires_gate_def
    reset_decision_loop_def root_dependencies_of_def rotate_prefix_def route_touched_def run_encoder_def run_sat_def
    run_sat_process_unsolvable_def satisfying_value_def se_decide_root_def se_undo_until_def set_next_def
    set_propagate_learn_def set_standard_activity_params_def slice_get_def solve_def standard_activity_def
    start_watching_at_def start_watching_def store_candidates_def store_learnt_def sync_def take_sync_floor_def
    tracker_clear_def tracker_level_def try_add_decision_def unbeatable_def undecided_def undo_last_def undo_until_def
    variable_def vec_remove_def vec_resize_def vec_swap_def visit_clause_def visit_literals_def wake_requirement_def
    walk_def watch_index_of_def watched_of_def with_value_and_level_def woken_def wrap_i32_def

lemmas eval_loops = grow_helpers.simps propagate_loop.simps resolve_dependencies.simps improve_best.simps
    analyze_loop.simps walk_watches.simps convert_conditions_to_dnf.simps first_eligible.simps run_sat_loop.simps
    undo_until_loop.simps propagate_and_learn.simps undo_to_seen.simps analyze_unsolvable_clauses.simps
    encode_loop.simps

lemmas eval = eval_defs eval_loops eval_numerals Let_def push_bit_nat_eq drop_bit_eq_div SolverCache_new_def

section \<open>Problems\<close>








section \<open>Soft requirements\<close>




section \<open>Conditional requirements\<close>




section \<open>Constraints\<close>




end
