(* ===== verification/Spec2Isabelle.thy ===== *)
theory Spec2Isabelle
  imports Queue_Tracking Decision_Tracker Chunk_Mapping Arena_Model Id_Storage Id_Maps Pool_Model Variable_Map Watch_Map
    Resolve Cache_In_Flight Encoder_Properties Stuck_Gates Deferred Solver_Examples
begin

text \<open>
  The dependency solver of resolvo. A package manager describes its packages through the trait
  \<open>DependencyProvider\<close>; \<open>Solver::solve\<close> looks for a set of solvables (package versions) that meets
  the requirements and constraints of a problem. It alternates two activities on one \<open>SolverState\<close>:
  the encoder asks the provider, through a cache, for candidates and dependencies and turns the
  answers into clauses; a conflict-driven search (two-watched-literal propagation, first-UIP
  learning, a work queue of open requirements) extends the decisions until nothing is open. All
  paths below are relative to \<open>src/\<close> of the crate.

  \<^bold>\<open>Data and storage.\<close> \<open>Ids\<close> (\<open>id.rs\<close>, \<open>internal/id.rs\<close>) has the identifiers as 32-bit words with their
  checked or truncating \<open>from_index\<close>; \<open>Literals\<close> the packed literals of \<open>solver/clause.rs\<close>, once at machine
  width and once by index; \<open>Decision_Map\<close> the signed word that holds value and level
  (\<open>solver/decision_map.rs\<close>). \<open>Chunk_Mapping\<close> (\<open>utils/mapping.rs\<close>) and \<open>Arena_Model\<close>
  (\<open>internal/arena.rs\<close>) are the chunked containers, refined to a partial map and a list;
  \<open>Id_Storage\<close> and \<open>Id_Maps\<close> (\<open>solver_id.rs\<close>, \<open>utils/indexed_set.rs\<close>, \<open>internal/solver_id.rs\<close>) the dense and
  hashed maps and sets; \<open>Pool_Model\<close> (\<open>utils/pool.rs\<close>, \<open>internal/small_vec.rs\<close>) the interning
  pool. \<open>Requirements\<close> and \<open>Conditions\<close> (\<open>requirement.rs\<close>, \<open>solver/conditions.rs\<close>) hold requirements,
  conditions and their disjunctive normal form; \<open>Provider\<close> the records of functions that stand
  for the traits of \<open>lib.rs\<close>. The interfaces are locales (\<open>dense_index\<close>, \<open>append_store\<close>,
  \<open>id_map\<close>, \<open>id_set\<close>, \<open>interner\<close>, \<open>bounded_interner\<close>, \<open>query_service\<close> and others), interpreted on these models.

  \<^bold>\<open>Search.\<close> \<open>Decision_Tracker\<close> is the trail with its propagation index and synchronisation floor
  (\<open>solver/decision_tracker.rs\<close>); \<open>Clauses\<close> the clause kinds and watches (\<open>solver/clause.rs\<close>);
  \<open>Watch_Map\<close> the intrusive watch lists (\<open>solver/watch_map.rs\<close>); \<open>Variable_Map\<close> the origins of variables;
  \<open>Binary_Encoding\<close> the logarithmic at-most-one tracker. \<open>Decide_Queue\<close>, \<open>Queue_Invariant\<close>,
  \<open>Decision_Selection\<close> and \<open>Queue_Tracking\<close> are the work queue of \<open>solver/decide_queue.rs\<close>: its operations, its
  invariant, the choice it makes, and any interleaving of its operations with the trail.
  \<open>Solver_State\<close> is the state of \<open>solver/mod.rs\<close>; \<open>Trail\<close> the implication graph, \<open>Search_Order\<close> the
  order in which searches descend, \<open>Propagation\<close>, \<open>Conflict_Analysis\<close>, \<open>Unsolvable\<close>, \<open>Learning\<close> and
  \<open>Resolve\<close> the functions \<open>propagate\<close>, \<open>analyze\<close>, \<open>analyze_unsolvable\<close>, \<open>propagate_and_learn\<close> and
  \<open>resolve_dependencies\<close>. They are proved to return, without a panic, from every state that meets
  \<open>solver_inv\<close>, and to be sound: clauses added are implied, and the clauses reported for an
  unsolvable problem contradict the root. \<open>Stuck_Gates\<close> and \<open>Deferred\<close> are what \<open>run_sat\<close> does between
  two searches.

  \<^bold>\<open>Encoding.\<close> \<open>Cache\<close> and \<open>Cache_In_Flight\<close> model \<open>solver/cache.rs\<close>: queries run one after the other, and
  overlapping or dropped calls of \<open>get_or_cache_candidates\<close>. \<open>Encoder\<close> models \<open>solver/encoding.rs\<close>. The theories
  \<open>Encoder_Steps\<close> to \<open>Encoder_Finish\<close> cut every handler into the small steps of \<open>micro\<close>, keep the invariant
  \<open>enc_inv\<close>, and account for the work: each result handled weighs more than what it queues,
  so the loop ends. \<open>Encoder_Correct\<close> and \<open>Encoder_Meaning\<close> say what an encoding leaves
  behind; \<open>Encoder_Properties\<close> states it of \<open>encode_with_deferred\<close>.

  \<^bold>\<open>The whole.\<close> \<open>Solver\<close> has \<open>run_sat\<close> and \<open>solve\<close>. The search theorems and the encoding theorems are about the
  parts of \<open>run_sat\<close>; they are not joined into a theorem on \<open>solve\<close>, and \<open>Solver_Examples\<close> shows
  why no plain one holds: on three small problems, evaluated by the kernel, \<open>solve\<close> returns
  a solution that violates a conditional requirement, a constraint, or the limit of one version.

  \<^bold>\<open>Conventions.\<close> \<open>None\<close> is a panic or a computation that does not return, so that a theorem that
  a function gives \<open>Some\<close> states both; loops are \<open>partial_function (option)\<close> or terminate by a
  measure, there is no fuel. Errors are the left side of a sum. Identifiers are their indices:
  at machine width in \<open>Ids\<close>, \<open>Literals\<close>, \<open>Decision_Map\<close> and \<open>Pool_Model\<close>, unbounded natural numbers in the
  solver state and the encoder, where the overflow panics of variables and clauses and the
  truncation of learnt clause numbers are left out. The packed positions of the decide queue
  keep their bounds: an encoding theorem asks for work of at most 2 to the 32 less 1, which is
  what the packing holds, and levels stay below 2 to the 31, the range of the decision map.
  The build is one without debug assertions. Activities are 32-bit patterns with the arithmetic
  of \<open>f32\<close> as a parameter. The runtime is a parameter: which futures complete when they are queued, and
  in which order the others do; a future runs to its end when it completes. What is assumed
  of a provider is \<open>provider_ok\<close>: candidates belong to their package, a filter splits them, a
  sort permutes them, conditions are finite.

  \<^bold>\<open>Not modelled.\<close> The conflict graph and its rendering (\<open>conflict.rs\<close> beyond the set of clauses), snapshots
  (\<open>snapshot.rs\<close>), adapters to executors (\<open>runtime.rs\<close>), diagnostics, \<open>Display\<close> and log messages,
  the C++ bindings, examples and tools; the interleaving of queries other than
  \<open>get_or_cache_candidates\<close>, and a \<open>sort_candidates\<close> that queries the cache.
\<close>

end
